(* ===== verification/Mars_Prelude.thy ===== *)
theory Mars_Prelude
  imports Complex_Main "HOL-Library.Word" "HOL-Library.AList" "HOL-Library.Multiset"
begin

text \<open>
  Shared vocabulary of the development: Python exceptions as values, the result type every
  fallible operation returns, Python's list slicing, floor and ceiling division, big-endian byte
  strings, and the generic list facts the component theories use. An operation that raises
  returns \<open>Inl\<close> of the exception's class; the partly updated state of a raising call is dropped,
  because in the modelled code such exceptions leave the engine step.
\<close>

section \<open>Errors as values\<close>

datatype py_error =
    AssertionError | ValueError | RuntimeError | IndexError | KeyError | TypeError
  | NotImplementedError | OverflowError | AttributeError | ZeroDivisionError

type_synonym 'a result = "py_error + 'a"

definition rbind :: "'a result \<Rightarrow> ('a \<Rightarrow> 'b result) \<Rightarrow> 'b result" where
  "rbind r f = (case r of Inl e \<Rightarrow> Inl e | Inr x \<Rightarrow> f x)"

lemma rbind_simps [simp]:
  "rbind (Inl e) f = Inl e"
  "rbind (Inr x) f = f x"
  by (simp_all add: rbind_def)

lemma rbind_eq_Inr [simp]: "rbind r f = Inr y \<longleftrightarrow> (\<exists>x. r = Inr x \<and> f x = Inr y)"
  by (cases r) auto

lemma rbind_cong [fundef_cong]:
  "r = r' \<Longrightarrow> (\<And>x. r' = Inr x \<Longrightarrow> f x = g x) \<Longrightarrow> rbind r f = rbind r' g"
  by (cases r') auto

text \<open>A Python \<^verbatim>\<open>for\<close> loop whose body may raise: the first exception ends it.\<close>

fun rfold :: "('a \<Rightarrow> 's \<Rightarrow> 's result) \<Rightarrow> 'a list \<Rightarrow> 's \<Rightarrow> 's result" where
  "rfold f [] s = Inr s"
| "rfold f (x # xs) s = rbind (f x s) (rfold f xs)"

lemma rfold_append [simp]: "rfold f (xs @ ys) s = rbind (rfold f xs s) (rfold f ys)"
proof (induction xs arbitrary: s)
  case Nil
  then show ?case by simp
next
  case (Cons x xs)
  then show ?case by (cases "f x s") auto
qed

lemma rfold_invariant:
  assumes "rfold f xs s = Inr t" and "P s"
    and "\<And>x s s'. x \<in> set xs \<Longrightarrow> P s \<Longrightarrow> f x s = Inr s' \<Longrightarrow> P s'"
  shows "P t"
  using assms by (induction xs arbitrary: s) auto

section \<open>Python integers and slices\<close>

definition cdiv :: "int \<Rightarrow> int \<Rightarrow> int" where
  "cdiv a b = - (a div (- b))"

lemma cdiv_alt: "cdiv a b = - ((- a) div b)"
  by (simp add: cdiv_def div_minus_right)

lemma cdiv_lower: "0 < b \<Longrightarrow> a \<le> cdiv a b * b"
proof -
  assume "0 < b"
  then have "(- a) div b * b \<le> - a"
    by (metis div_mult_mod_eq le_add_same_cancel1 pos_mod_sign)
  then show ?thesis by (simp add: cdiv_alt)
qed

lemma cdiv_least: "0 < b \<Longrightarrow> a \<le> k * b \<Longrightarrow> cdiv a b \<le> k"
proof -
  assume b: "0 < b" and "a \<le> k * b"
  then have "(- k) * b div b \<le> (- a) div b" by (intro zdiv_mono1) auto
  moreover have "(- k) * b div b = - k" using b by (intro nonzero_mult_div_cancel_right) simp
  ultimately show ?thesis by (simp add: cdiv_alt)
qed

lemma cdiv_le_iff: "0 < b \<Longrightarrow> cdiv a b \<le> k \<longleftrightarrow> a \<le> k * b"
  by (meson cdiv_least cdiv_lower mult_right_mono order_trans less_imp_le)

lemma cdiv_mono: "0 < b \<Longrightarrow> a \<le> a' \<Longrightarrow> cdiv a b \<le> cdiv a' b"
  by (meson cdiv_least cdiv_lower order_trans)

lemma cdiv_ceiling: "0 < b \<Longrightarrow> cdiv a b = (a + b - 1) div b"
proof (rule antisym)
  assume b: "0 < b"
  have "a + b - 1 < ((a + b - 1) div b + 1) * b"
    using b by (metis add.commute div_mult_mod_eq distrib_right mult_1 add_strict_left_mono pos_mod_bound)
  then have "a \<le> (a + b - 1) div b * b" by (simp add: distrib_right)
  with b show "cdiv a b \<le> (a + b - 1) div b" by (rule cdiv_least)
  have "(a + b - 1) div b \<le> (b - 1 + cdiv a b * b) div b"
    using b cdiv_lower [of b a] by (intro zdiv_mono1) auto
  also have "\<dots> = cdiv a b" using b by simp
  finally show "(a + b - 1) div b \<le> cdiv a b" .
qed

text \<open>
  \<^verbatim>\<open>xs[i:j]\<close>: an index below zero counts from the end, both bounds are clamped to the list.
\<close>

definition slice_index :: "'a list \<Rightarrow> int \<Rightarrow> nat" where
  "slice_index xs i =
     nat (if i < 0 then max 0 (i + int (length xs)) else min i (int (length xs)))"

definition py_slice :: "'a list \<Rightarrow> int \<Rightarrow> int \<Rightarrow> 'a list" where
  "py_slice xs i j = drop (slice_index xs i) (take (slice_index xs j) xs)"

lemma py_slice_nonneg: "0 \<le> i \<Longrightarrow> 0 \<le> j \<Longrightarrow> py_slice xs i j = drop (nat i) (take (nat j) xs)"
  by (cases "nat i \<le> length xs"; cases "nat j \<le> length xs")
    (auto simp: py_slice_def slice_index_def min_def)

text \<open>\<^verbatim>\<open>xs[i]\<close>: a negative index counts from the end, out of range raises \<^verbatim>\<open>IndexError\<close>.\<close>

definition py_nth :: "'a list \<Rightarrow> int \<Rightarrow> 'a result" where
  "py_nth xs i =
     (let j = (if i < 0 then i + int (length xs) else i)
      in if 0 \<le> j \<and> j < int (length xs) then Inr (xs ! nat j) else Inl IndexError)"

lemma py_nth_nat [simp]: "i < length xs \<Longrightarrow> py_nth xs (int i) = Inr (xs ! i)"
  by (simp add: py_nth_def)

section \<open>Byte strings\<close>

type_synonym bytes = "8 word list"

text \<open>\<^verbatim>\<open>int.from_bytes(bs, "big")\<close> and \<^verbatim>\<open>n.to_bytes(k, "big", signed=False)\<close>.\<close>

fun from_bytes_big :: "bytes \<Rightarrow> int" where
  "from_bytes_big bs = foldl (\<lambda>n b. n * 256 + uint b) 0 bs"

fun be_digits :: "nat \<Rightarrow> int \<Rightarrow> bytes" where
  "be_digits 0 n = []"
| "be_digits (Suc k) n = be_digits k (n div 256) @ [word_of_int n]"

definition to_bytes_big :: "nat \<Rightarrow> int \<Rightarrow> bytes result" where
  "to_bytes_big k n = (if 0 \<le> n \<and> n < 256 ^ k then Inr (be_digits k n) else Inl OverflowError)"

lemma length_be_digits [simp]: "length (be_digits k n) = k"
  by (induction k n rule: be_digits.induct) auto

lemma from_bytes_be_digits: "0 \<le> n \<Longrightarrow> n < 256 ^ k \<Longrightarrow> from_bytes_big (be_digits k n) = n"
proof (induction k n rule: be_digits.induct)
  case (1 n)
  then show ?case by simp
next
  case (2 k n)
  have "n div 256 < 256 ^ k" using 2 by (simp add: div_less_iff_less_mult mult.commute)
  with 2 have IH: "from_bytes_big (be_digits k (n div 256)) = n div 256" by simp
  have "uint (word_of_int n :: 8 word) = n mod 256" by (simp add: uint_word_of_int)
  with IH show ?case by simp
qed

lemma to_bytes_big_roundtrip: "to_bytes_big k n = Inr bs \<Longrightarrow> from_bytes_big bs = n \<and> length bs = k"
  using from_bytes_be_digits [of n k] length_be_digits [of k n]
  by (metis to_bytes_big_def Inl_Inr_False sum.inject(2))

section \<open>Generic facts\<close>

lemma filter_remove1_distinct: "distinct xs \<Longrightarrow> remove1 a xs = filter (\<lambda>x. x \<noteq> a) xs"
  by (simp add: distinct_remove1_removeAll removeAll_filter_not_eq neq_commute)

lemma distinct_take_drop_disjoint: "distinct xs \<Longrightarrow> set (take n xs) \<inter> set (drop n xs) = {}"
  by (metis append_take_drop_id distinct_append)

end
