(* ===== verification/Free_Queue.thy ===== *)
theory Free_Queue
  imports Mars_Prelude
begin

text \<open>
  \<^verbatim>\<open>KVCacheBlock\<close> and \<^verbatim>\<open>FreeKVCacheBlockQueue\<close> of \<^verbatim>\<open>vllm/v1/core/kv_cache_utils.py\<close>: the objects of
  the KV cache live in a store indexed by address, and the free list is the doubly linked list the
  code threads through them with its two sentinels. The theory shows that the pointer code
  implements a plain list (locale \<open>eviction_queue\<close>), and what the pool may rely on.
\<close>

section \<open>Blocks and the store\<close>

text \<open>Addresses: the two sentinel objects of the free list and the blocks of the pool.\<close>

datatype addr = Head | Tail | Blk nat

record kv_block =
  block_id :: int
  ref_cnt :: int
  block_hash :: "bytes option"
  prev_free_block :: "addr option"
  next_free_block :: "addr option"
  is_null :: bool

type_synonym kv_heap = "addr \<Rightarrow> kv_block"

definition new_block :: "int \<Rightarrow> kv_block" where
  "new_block i = \<lparr>block_id = i, ref_cnt = 0, block_hash = None,
     prev_free_block = None, next_free_block = None, is_null = False\<rparr>"

definition set_prev :: "addr \<Rightarrow> addr option \<Rightarrow> kv_heap \<Rightarrow> kv_heap" where
  "set_prev a v h = h(a := (h a)\<lparr>prev_free_block := v\<rparr>)"

definition set_next :: "addr \<Rightarrow> addr option \<Rightarrow> kv_heap \<Rightarrow> kv_heap" where
  "set_next a v h = h(a := (h a)\<lparr>next_free_block := v\<rparr>)"

lemma link_updates [simp]:
  "next_free_block (set_prev a v h b) = next_free_block (h b)"
  "prev_free_block (set_next a v h b) = prev_free_block (h b)"
  "next_free_block (set_next a v h b) = (if b = a then v else next_free_block (h b))"
  "prev_free_block (set_prev a v h b) = (if b = a then v else prev_free_block (h b))"
  by (simp_all add: set_prev_def set_next_def)

text \<open>Everything of a block but its links.\<close>

definition meta :: "kv_heap \<Rightarrow> addr \<Rightarrow> int \<times> int \<times> bytes option \<times> bool" where
  "meta h a = (block_id (h a), ref_cnt (h a), block_hash (h a), is_null (h a))"

lemma meta_links [simp]: "meta (set_prev a v h) = meta h" "meta (set_next a v h) = meta h"
  by (simp_all add: fun_eq_iff meta_def set_prev_def set_next_def)

section \<open>The queue's operations\<close>

record free_queue =
  fq_heap :: kv_heap
  num_free_blocks :: int

text \<open>\<^verbatim>\<open>__init__\<close>: link consecutive blocks, then connect the sentinels.\<close>

definition link_step :: "addr list \<Rightarrow> nat \<Rightarrow> kv_heap \<Rightarrow> kv_heap" where
  "link_step bs i h =
     (let h1 = (if i > 0 then set_prev (bs ! i) (Some (bs ! (i - 1))) h else h)
      in if i + 1 < length bs then set_next (bs ! i) (Some (bs ! (i + 1))) h1 else h1)"

definition FreeKVCacheBlockQueue :: "addr list \<Rightarrow> kv_heap \<Rightarrow> free_queue" where
  "FreeKVCacheBlockQueue bs h0 =
     (let h = fold (link_step bs) [0..<length bs] h0;
          h = h(Head := new_block (-1), Tail := new_block (-1))
      in \<lparr>fq_heap =
            (if bs \<noteq> [] then
               set_next (last bs) (Some Tail) (set_prev Tail (Some (last bs))
                 (set_prev (hd bs) (Some Head) (set_next Head (Some (hd bs)) h)))
             else set_prev Tail (Some Head) (set_next Head (Some Tail) h)),
          num_free_blocks = int (length bs)\<rparr>)"

definition popleft :: "free_queue \<Rightarrow> (addr \<times> free_queue) result" where
  "popleft q =
     (let h = fq_heap q;
          empty = (if num_free_blocks q = 0 then Inl ValueError else Inl AssertionError)
      in case next_free_block (h Head) of
           None \<Rightarrow> empty
         | Some first_block \<Rightarrow>
             if first_block = Tail then empty
             else (case next_free_block (h first_block) of
                 None \<Rightarrow> Inl RuntimeError
               | Some nxt \<Rightarrow>
                   let h = set_next Head (Some nxt) h;
                       h = set_prev nxt (Some Head) h;
                       h = set_next first_block None (set_prev first_block None h)
                   in Inr (first_block,
                        \<lparr>fq_heap = h, num_free_blocks = num_free_blocks q - 1\<rparr>)))"

text \<open>The loop of \<^verbatim>\<open>popleft_n\<close>: pop, remember, unlink.\<close>

fun popleft_loop ::
  "nat \<Rightarrow> addr option \<Rightarrow> addr list \<Rightarrow> kv_heap \<Rightarrow> (addr list \<times> addr option \<times> kv_heap) result" where
  "popleft_loop 0 cur ret h = Inr (ret, cur, h)"
| "popleft_loop (Suc k) cur ret h =
     (case cur of
        None \<Rightarrow> Inl AssertionError
      | Some a \<Rightarrow>
          popleft_loop k (next_free_block (h a)) (ret @ [a])
            (set_next a None (set_prev a None h)))"

definition popleft_n :: "int \<Rightarrow> free_queue \<Rightarrow> (addr list \<times> free_queue) result" where
  "popleft_n n q =
     (if n = 0 then Inr ([], q)
      else if \<not> num_free_blocks q \<ge> n then Inl AssertionError
      else rbind (popleft_loop (nat n) (next_free_block (fq_heap q Head)) [] (fq_heap q))
        (\<lambda>(ret, cur, h).
           let h = (case cur of
                      None \<Rightarrow> h
                    | Some c \<Rightarrow> set_prev c (Some Head) (set_next Head (Some c) h))
           in Inr (ret, \<lparr>fq_heap = h, num_free_blocks = num_free_blocks q - n\<rparr>)))"

definition remove :: "addr \<Rightarrow> free_queue \<Rightarrow> free_queue result" where
  "remove b q =
     (let h = fq_heap q
      in case (prev_free_block (h b), next_free_block (h b)) of
           (Some p, Some n) \<Rightarrow>
             (let h = set_next p (Some n) h;
                  h = set_prev n (Some p) h;
                  h = set_next b None (set_prev b None h)
              in Inr \<lparr>fq_heap = h, num_free_blocks = num_free_blocks q - 1\<rparr>)
         | _ \<Rightarrow> Inl RuntimeError)"

definition append_block :: "addr \<Rightarrow> free_queue \<Rightarrow> free_queue result" where
  "append_block b q =
     (let h = fq_heap q
      in case prev_free_block (h Tail) of
           None \<Rightarrow> Inl RuntimeError
         | Some last_block \<Rightarrow>
             (let h = set_next last_block (Some b) h;
                  h = set_prev b (Some last_block) h;
                  h = set_next b (Some Tail) h;
                  h = set_prev Tail (Some b) h
              in Inr \<lparr>fq_heap = h, num_free_blocks = num_free_blocks q + 1\<rparr>))"

fun append_loop :: "addr list \<Rightarrow> addr \<Rightarrow> kv_heap \<Rightarrow> addr \<times> kv_heap" where
  "append_loop [] last_block h = (last_block, h)"
| "append_loop (b # bs) last_block h =
     append_loop bs b (set_next last_block (Some b) (set_prev b (Some last_block) h))"

definition append_n :: "addr list \<Rightarrow> free_queue \<Rightarrow> free_queue result" where
  "append_n bs q =
     (if bs = [] then Inr q
      else case prev_free_block (fq_heap q Tail) of
          None \<Rightarrow> Inl AssertionError
        | Some last_block \<Rightarrow>
            (case append_loop bs last_block (fq_heap q) of
               (last_block, h) \<Rightarrow>
                 Inr \<lparr>fq_heap = set_prev Tail (Some last_block) (set_next last_block (Some Tail) h),
                      num_free_blocks = num_free_blocks q + int (length bs)\<rparr>))"

text \<open>
  \<^verbatim>\<open>get_all_free_blocks\<close> follows the links until one is missing; on a cyclic list it would not
  return, which is the value \<open>None\<close>.
\<close>

partial_function (option) collect_free :: "kv_heap \<Rightarrow> addr \<Rightarrow> addr list \<Rightarrow> addr list option" where
  "collect_free h cur ret =
     (case next_free_block (h cur) of
        None \<Rightarrow> Some ret
      | Some n \<Rightarrow> collect_free h n (ret @ [cur]))"

definition get_all_free_blocks :: "free_queue \<Rightarrow> addr list result option" where
  "get_all_free_blocks q =
     (case next_free_block (fq_heap q Head) of
        None \<Rightarrow> Some (Inl RuntimeError)
      | Some first \<Rightarrow> map_option Inr (collect_free (fq_heap q) first []))"

section \<open>The list the links represent\<close>

fun linked :: "kv_heap \<Rightarrow> addr list \<Rightarrow> bool" where
  "linked h (a # b # r) \<longleftrightarrow>
     next_free_block (h a) = Some b \<and> prev_free_block (h b) = Some a \<and> linked h (b # r)"
| "linked h _ \<longleftrightarrow> True"

definition free_rel :: "free_queue \<Rightarrow> addr list \<Rightarrow> bool" where
  "free_rel q xs \<longleftrightarrow>
     distinct xs \<and> Head \<notin> set xs \<and> Tail \<notin> set xs \<and>
     linked (fq_heap q) (Head # xs @ [Tail]) \<and>
     next_free_block (fq_heap q Tail) = None \<and> prev_free_block (fq_heap q Head) = None \<and>
     (\<forall>i. Blk i \<notin> set xs \<longrightarrow>
        next_free_block (fq_heap q (Blk i)) = None \<and> prev_free_block (fq_heap q (Blk i)) = None) \<and>
     num_free_blocks q = int (length xs)"

lemma linked_cong:
  assumes "\<And>a. a \<in> set (butlast ys) \<Longrightarrow> next_free_block (h' a) = next_free_block (h a)"
    and "\<And>a. a \<in> set (tl ys) \<Longrightarrow> prev_free_block (h' a) = prev_free_block (h a)"
  shows "linked h' ys = linked h ys"
  using assms by (induction h ys rule: linked.induct) auto

lemma in_set_tlD: "a \<in> set (tl ys) \<Longrightarrow> a \<in> set ys"
  by (cases ys) auto

lemma linked_append: "linked h (xs @ a # ys) \<longleftrightarrow> linked h (xs @ [a]) \<and> linked h (a # ys)"
proof (induction xs)
  case Nil
  then show ?case by simp
next
  case (Cons x xs)
  then show ?case by (cases xs) auto
qed

lemma linked_snoc2:
  "linked h (xs @ [a, b]) \<longleftrightarrow>
     linked h (xs @ [a]) \<and> next_free_block (h a) = Some b \<and> prev_free_block (h b) = Some a"
  using linked_append [of h xs a "[b]"] by simp

lemma linked_hd_tl: "linked h (a # ys @ [b]) \<Longrightarrow> next_free_block (h a) = Some (hd (ys @ [b]))"
  by (cases ys) auto

lemma linked_last: "linked h (a # ys @ [b]) \<Longrightarrow> prev_free_block (h b) = Some (last (a # ys))"
  by (induction ys arbitrary: a) auto

subsection \<open>Removing one block from the middle\<close>

text \<open>The pointer surgery \<^verbatim>\<open>remove\<close> and \<^verbatim>\<open>popleft\<close> share: bypass \<open>b\<close>, then clear its links.\<close>

definition unlink :: "addr \<Rightarrow> addr \<Rightarrow> addr \<Rightarrow> kv_heap \<Rightarrow> kv_heap" where
  "unlink p b n h = set_next b None (set_prev b None (set_prev n (Some p) (set_next p (Some n) h)))"

lemma meta_unlink [simp]: "meta (unlink p b n h) = meta h"
  by (simp add: unlink_def)

lemma unlink_linked:
  assumes l: "linked h (us @ p # b # n # vs)" and d: "distinct (us @ p # b # n # vs)"
  shows "linked (unlink p b n h) (us @ p # n # vs)"
proof -
  let ?h = "unlink p b n h"
  have u: "next_free_block (?h a) = (if a = b then None else if a = p then Some n else next_free_block (h a))"
    "prev_free_block (?h a) = (if a = b then None else if a = n then Some p else prev_free_block (h a))" for a
    using d by (auto simp: unlink_def)
  from l have "linked h (us @ [p])" "linked h (n # vs)"
    using linked_append [of h us p "b # n # vs"] by auto
  moreover have "linked ?h (us @ [p]) = linked h (us @ [p])"
  proof (rule linked_cong)
    fix a assume "a \<in> set (butlast (us @ [p]))"
    with d show "next_free_block (?h a) = next_free_block (h a)" unfolding u by auto
  next
    fix a assume "a \<in> set (tl (us @ [p]))"
    then have "a \<in> set (us @ [p])" by (rule in_set_tlD)
    with d show "prev_free_block (?h a) = prev_free_block (h a)" unfolding u by auto
  qed
  moreover have "linked ?h (n # vs) = linked h (n # vs)"
  proof (rule linked_cong)
    fix a assume "a \<in> set (butlast (n # vs))"
    then have "a \<in> set (n # vs)" by (rule in_set_butlastD)
    with d show "next_free_block (?h a) = next_free_block (h a)" unfolding u by auto
  next
    fix a assume "a \<in> set (tl (n # vs))"
    with d show "prev_free_block (?h a) = prev_free_block (h a)" unfolding u by auto
  qed
  moreover have "next_free_block (?h p) = Some n" "prev_free_block (?h n) = Some p"
    using d by (auto simp: u)
  ultimately show ?thesis using linked_append [of ?h us p "n # vs"] by simp
qed

lemma free_rel_chain:
  "free_rel q xs \<longleftrightarrow>
     distinct (Head # xs @ [Tail]) \<and> linked (fq_heap q) (Head # xs @ [Tail]) \<and>
     next_free_block (fq_heap q Tail) = None \<and> prev_free_block (fq_heap q Head) = None \<and>
     (\<forall>i. Blk i \<notin> set xs \<longrightarrow>
        next_free_block (fq_heap q (Blk i)) = None \<and> prev_free_block (fq_heap q (Blk i)) = None) \<and>
     num_free_blocks q = int (length xs)"
  by (auto simp: free_rel_def)

lemma free_rel_unlink:
  assumes rel: "free_rel q (us @ b # vs)"
    and p: "p = last (Head # us)" and n: "n = hd (vs @ [Tail])"
  shows "free_rel \<lparr>fq_heap = unlink p b n (fq_heap q), num_free_blocks = num_free_blocks q - 1\<rparr> (us @ vs)"
proof -
  obtain us' where us': "Head # us = us' @ [p]" using p by (metis append_butlast_last_id list.distinct(1))
  obtain vs' where vs': "vs @ [Tail] = n # vs'" using n by (metis hd_Cons_tl snoc_eq_iff_butlast)
  have chain: "Head # (us @ b # vs) @ [Tail] = us' @ p # b # n # vs'"
    and chain': "Head # (us @ vs) @ [Tail] = us' @ p # n # vs'" using us' vs' by simp_all
  have "linked (unlink p b n (fq_heap q)) (Head # (us @ vs) @ [Tail])"
    unfolding chain' using rel unfolding free_rel_chain chain by (intro unlink_linked) auto
  moreover have "p \<in> insert Head (set us)" "n \<in> insert Tail (set vs)"
    using p n by (auto simp: hd_append)
  ultimately show ?thesis
    using rel by (auto simp: free_rel_def unlink_def)
qed

lemma free_rel_neighbours:
  assumes "free_rel q (us @ b # vs)"
  shows "prev_free_block (fq_heap q b) = Some (last (Head # us))"
    and "next_free_block (fq_heap q b) = Some (hd (vs @ [Tail]))"
proof -
  from assms have "linked (fq_heap q) ((Head # us) @ b # vs @ [Tail])" by (simp add: free_rel_def)
  then have "linked (fq_heap q) ((Head # us) @ [b])" "linked (fq_heap q) (b # vs @ [Tail])"
    by (simp_all only: linked_append [of _ "Head # us" b "vs @ [Tail]"])
  then show "prev_free_block (fq_heap q b) = Some (last (Head # us))"
    and "next_free_block (fq_heap q b) = Some (hd (vs @ [Tail]))"
    using linked_last [of _ Head us b] linked_hd_tl [of _ b vs Tail] by simp_all
qed

lemma remove_refines:
  assumes rel: "free_rel q xs" and b: "b \<in> set xs"
  shows "\<exists>q'. remove b q = Inr q' \<and> free_rel q' (remove1 b xs) \<and> meta (fq_heap q') = meta (fq_heap q)"
proof -
  from b obtain us vs where xs: "xs = us @ b # vs" "b \<notin> set us" by (meson split_list_first)
  note nb = free_rel_neighbours [OF rel [unfolded xs(1)]]
  have "remove b q = Inr \<lparr>fq_heap = unlink (last (Head # us)) b (hd (vs @ [Tail])) (fq_heap q),
      num_free_blocks = num_free_blocks q - 1\<rparr>"
    using nb by (simp add: remove_def unlink_def Let_def del: last.simps)
  moreover have "free_rel \<lparr>fq_heap = unlink (last (Head # us)) b (hd (vs @ [Tail])) (fq_heap q),
      num_free_blocks = num_free_blocks q - 1\<rparr> (us @ vs)"
    using rel [unfolded xs(1)] by (rule free_rel_unlink) simp_all
  moreover have "remove1 b xs = us @ vs" using xs by (simp add: remove1_append)
  ultimately show ?thesis by simp
qed

lemma remove_outside:
  assumes "free_rel q xs" and "Blk i \<notin> set xs"
  shows "remove (Blk i) q = Inl RuntimeError"
  using assms by (simp add: free_rel_def remove_def)

lemma popleft_refines:
  assumes rel: "free_rel q (b # xs)"
  shows "\<exists>q'. popleft q = Inr (b, q') \<and> free_rel q' xs \<and> meta (fq_heap q') = meta (fq_heap q)"
proof -
  from rel have "linked (fq_heap q) (Head # b # xs @ [Tail])" "b \<noteq> Tail" by (auto simp: free_rel_def)
  moreover have "next_free_block (fq_heap q b) = Some (hd (xs @ [Tail]))"
    using free_rel_neighbours(2) [of q "[]" b xs] rel by simp
  ultimately have "popleft q = Inr (b, \<lparr>fq_heap = unlink Head b (hd (xs @ [Tail])) (fq_heap q),
      num_free_blocks = num_free_blocks q - 1\<rparr>)"
    by (simp add: popleft_def unlink_def Let_def)
  moreover have "free_rel \<lparr>fq_heap = unlink Head b (hd (xs @ [Tail])) (fq_heap q),
      num_free_blocks = num_free_blocks q - 1\<rparr> xs"
    using free_rel_unlink [of q "[]" b xs Head] rel by simp
  ultimately show ?thesis by simp
qed

lemma popleft_empty: "free_rel q [] \<Longrightarrow> popleft q = Inl ValueError"
  by (simp add: free_rel_def popleft_def)

subsection \<open>Popping several blocks\<close>

definition clear_links :: "addr list \<Rightarrow> kv_heap \<Rightarrow> kv_heap" where
  "clear_links = fold (\<lambda>a h. set_next a None (set_prev a None h))"

lemma clear_links_links [simp]:
  "next_free_block (clear_links as h a) = (if a \<in> set as then None else next_free_block (h a))"
  "prev_free_block (clear_links as h a) = (if a \<in> set as then None else prev_free_block (h a))"
  by (induction as arbitrary: h) (auto simp: clear_links_def)

lemma meta_clear_links [simp]: "meta (clear_links as h) = meta h"
  by (induction as arbitrary: h) (auto simp: clear_links_def)

lemma linked_clear_links:
  assumes "set as \<inter> set ys = {}"
  shows "linked (clear_links as h) ys = linked h ys"
  by (rule linked_cong) (use assms in \<open>auto dest: in_set_butlastD in_set_tlD\<close>)

lemma popleft_loop_take:
  assumes "linked h (xs @ [Tail])" and "distinct (xs @ [Tail])" and "k \<le> length xs"
  shows "popleft_loop k (Some (hd (xs @ [Tail]))) ret h =
    Inr (ret @ take k xs, Some (hd (drop k xs @ [Tail])), clear_links (take k xs) h)"
  using assms
proof (induction k arbitrary: xs ret h)
  case 0
  then show ?case by (simp add: clear_links_def)
next
  case (Suc k)
  then obtain x ys where xs: "xs = x # ys" by (cases xs) auto
  let ?h = "set_next x None (set_prev x None h)"
  have l: "linked h (x # ys @ [Tail])" using Suc.prems(1) xs by simp
  then have "linked h (ys @ [Tail])" by (cases ys) auto
  moreover have "?h = clear_links [x] h" by (simp add: clear_links_def)
  ultimately have "linked ?h (ys @ [Tail])"
    using Suc.prems(2) xs by (auto simp: linked_clear_links)
  from Suc.IH [OF this] Suc.prems xs have
    "popleft_loop k (Some (hd (ys @ [Tail]))) (ret @ [x]) ?h =
      Inr ((ret @ [x]) @ take k ys, Some (hd (drop k ys @ [Tail])), clear_links (take k ys) ?h)"
    by simp
  then show ?case using linked_hd_tl [OF l] by (simp add: xs clear_links_def)
qed

lemma popleft_n_refines:
  assumes rel: "free_rel q xs" and n: "n \<le> length xs"
  shows "\<exists>q'. popleft_n (int n) q = Inr (take n xs, q') \<and> free_rel q' (drop n xs) \<and>
    meta (fq_heap q') = meta (fq_heap q)"
proof (cases "n = 0")
  case True
  with rel show ?thesis by (auto simp: popleft_n_def)
next
  case False
  define c where "c = hd (drop n xs @ [Tail])"
  define h where "h = set_prev c (Some Head) (set_next Head (Some c) (clear_links (take n xs) (fq_heap q)))"
  have d: "distinct (Head # xs @ [Tail])" and l: "linked (fq_heap q) (Head # xs @ [Tail])"
    using rel by (auto simp: free_rel_chain)
  obtain vs where vs: "drop n xs @ [Tail] = c # vs" by (cases "drop n xs") (auto simp: c_def)
  have split: "Head # xs @ [Tail] = (Head # take n xs) @ c # vs" by (simp flip: vs)
  have dc: "distinct (Head # take n xs @ c # vs)" using d split by simp
  from l have l': "linked (fq_heap q) (c # vs)"
    by (metis split linked_append)
  from l have "linked (fq_heap q) (xs @ [Tail])" "next_free_block (fq_heap q Head) = Some (hd (xs @ [Tail]))"
    using linked_hd_tl by (cases xs; auto)+
  then have "popleft_n (int n) q = Inr (take n xs, \<lparr>fq_heap = h, num_free_blocks = num_free_blocks q - int n\<rparr>)"
    using False n rel d popleft_loop_take [of "fq_heap q" xs n "[]"]
    by (simp add: popleft_n_def free_rel_def h_def c_def)
  note pop = this
  have "linked h (c # vs) = linked (fq_heap q) (c # vs)"
    by (rule linked_cong) (use dc in \<open>auto simp: h_def dest: in_set_butlastD split: if_splits\<close>)
  then have "linked h (Head # drop n xs @ [Tail])"
    using l' dc by (auto simp: vs h_def)
  moreover have "a \<in> set xs \<longleftrightarrow> a \<in> set (take n xs) \<or> a \<in> set (drop n xs)" for a
    by (metis append_take_drop_id set_append Un_iff)
  moreover have "c = Tail \<or> c \<in> set (drop n xs)" by (auto simp: c_def hd_append)
  ultimately have "free_rel \<lparr>fq_heap = h, num_free_blocks = num_free_blocks q - int n\<rparr> (drop n xs)"
    using rel n dc d by (auto simp: free_rel_def h_def)
  then show ?thesis using pop by (auto simp: h_def)
qed

lemma popleft_n_too_many:
  "free_rel q xs \<Longrightarrow> length xs < n \<Longrightarrow> popleft_n (int n) q = Inl AssertionError"
  by (simp add: popleft_n_def free_rel_def)

subsection \<open>Appending\<close>

lemma append_loop_linked:
  assumes "linked h (us @ [l])" and "distinct (us @ l # bs)"
  shows "fst (append_loop bs l h) = last (l # bs) \<and>
    linked (snd (append_loop bs l h)) (us @ l # bs) \<and>
    meta (snd (append_loop bs l h)) = meta h \<and>
    (\<forall>a. a \<notin> set (l # bs) \<longrightarrow> next_free_block (snd (append_loop bs l h) a) = next_free_block (h a)) \<and>
    (\<forall>a. a \<notin> set bs \<longrightarrow> prev_free_block (snd (append_loop bs l h) a) = prev_free_block (h a))"
  using assms
proof (induction bs arbitrary: us l h)
  case Nil
  then show ?case by simp
next
  case (Cons b bs)
  let ?h = "set_next l (Some b) (set_prev b (Some l) h)"
  have "linked ?h (us @ [l]) = linked h (us @ [l])"
  proof (rule linked_cong)
    fix a assume "a \<in> set (butlast (us @ [l]))"
    with Cons.prems(2) show "next_free_block (?h a) = next_free_block (h a)" by auto
  next
    fix a assume "a \<in> set (tl (us @ [l]))"
    then have "a \<in> set (us @ [l])" by (rule in_set_tlD)
    with Cons.prems(2) show "prev_free_block (?h a) = prev_free_block (h a)" by auto
  qed
  with Cons.prems have "linked ?h ((us @ [l]) @ [b])" using linked_snoc2 [of ?h us l b] by auto
  from Cons.IH [OF this] Cons.prems(2) show ?case by auto
qed

lemma append_n_refines:
  assumes rel: "free_rel q xs" and d: "distinct bs" "set bs \<inter> set xs = {}" "Head \<notin> set bs" "Tail \<notin> set bs"
  shows "\<exists>q'. append_n bs q = Inr q' \<and> free_rel q' (xs @ bs) \<and> meta (fq_heap q') = meta (fq_heap q)"
proof (cases "bs = []")
  case True
  with rel show ?thesis by (simp add: append_n_def)
next
  case False
  define l where "l = last (Head # xs)"
  obtain us where us: "Head # xs = us @ [l]" unfolding l_def by (metis append_butlast_last_id list.distinct(1))
  obtain l' h where lh: "append_loop bs l (fq_heap q) = (l', h)" by (metis surj_pair)
  let ?h = "set_prev Tail (Some l') (set_next l' (Some Tail) h)"
  have chain: "Head # xs @ [Tail] = us @ [l, Tail]" using us by (simp flip: append_Cons)
  have "set bs \<inter> set (us @ [l]) = {}" using d by (simp flip: us)
  moreover have "distinct (us @ [l, Tail])" using rel unfolding free_rel_chain chain by simp
  ultimately have dd: "distinct (us @ l # Tail # bs)" using d by auto
  have "linked (fq_heap q) (us @ [l, Tail])" using rel chain by (simp add: free_rel_chain)
  then have pt: "prev_free_block (fq_heap q Tail) = Some l" and "linked (fq_heap q) (us @ [l])"
    by (simp_all add: linked_snoc2)
  from append_loop_linked [OF this(2), of bs] dd lh have loop: "l' = last bs"
    "linked h (us @ l # bs)" "meta h = meta (fq_heap q)"
    "\<And>a. a \<notin> set (l # bs) \<Longrightarrow> next_free_block (h a) = next_free_block (fq_heap q a)"
    "\<And>a. a \<notin> set bs \<Longrightarrow> prev_free_block (h a) = prev_free_block (fq_heap q a)"
    using False by auto
  obtain cs where cs: "us @ l # bs = cs @ [l']" using False loop(1) by (metis append_butlast_last_id append_Cons append_assoc)
  have "linked ?h (cs @ [l']) = linked h (cs @ [l'])"
  proof (rule linked_cong)
    fix a assume "a \<in> set (butlast (cs @ [l']))"
    moreover have "distinct (cs @ [l'])" using dd by (auto simp flip: cs)
    ultimately show "next_free_block (?h a) = next_free_block (h a)" by auto
  next
    fix a assume "a \<in> set (tl (cs @ [l']))"
    then have "a \<in> set (us @ l # bs)" unfolding cs by (rule in_set_tlD)
    with dd show "prev_free_block (?h a) = prev_free_block (h a)" by auto
  qed
  with loop(2) have "linked ?h (cs @ [l', Tail])" by (simp add: cs linked_snoc2)
  moreover have "cs @ [l'] = (Head # xs) @ bs" unfolding us using cs by simp
  then have "cs @ [l', Tail] = Head # (xs @ bs) @ [Tail]"
    using append_assoc [of cs "[l']" "[Tail]"] by simp
  ultimately have "linked ?h (Head # (xs @ bs) @ [Tail])" by simp
  moreover have "l' \<in> set bs" using False loop(1) by auto
  moreover have "l \<in> insert Head (set xs)" by (auto simp: l_def)
  then have nx: "next_free_block (h a) = next_free_block (fq_heap q a)"
    if "a \<notin> insert Head (set xs)" "a \<notin> set bs" for a
    using that loop(4) [of a] by auto
  ultimately have "free_rel \<lparr>fq_heap = ?h, num_free_blocks = num_free_blocks q + int (length bs)\<rparr> (xs @ bs)"
    using rel d nx loop(5) by (auto simp: free_rel_def)
  with False pt lh loop(3) show ?thesis by (simp add: append_n_def)
qed

lemma append_block_append_n:
  "prev_free_block (fq_heap q Tail) \<noteq> None \<Longrightarrow> append_block b q = append_n [b] q"
  by (auto simp: append_block_def append_n_def Let_def set_prev_def set_next_def fun_eq_iff)

subsection \<open>The initial queue\<close>

lemma linked_nth:
  "linked h ys \<longleftrightarrow> (\<forall>i < length ys - 1.
     next_free_block (h (ys ! i)) = Some (ys ! Suc i) \<and> prev_free_block (h (ys ! Suc i)) = Some (ys ! i))"
proof (induction h ys rule: linked.induct)
  case (1 h a b r)
  then show ?case by (simp add: All_less_Suc2)
qed auto

lemma link_step_links:
  "next_free_block (link_step bs i h a) =
     (if Suc i < length bs \<and> a = bs ! i then Some (bs ! Suc i) else next_free_block (h a))"
  "prev_free_block (link_step bs i h a) =
     (if 0 < i \<and> a = bs ! i then Some (bs ! (i - 1)) else prev_free_block (h a))"
  "meta (link_step bs i h) = meta h"
  by (simp_all add: link_step_def Let_def)

lemma link_fold_links:
  assumes "distinct bs" and "k \<le> length bs" and "j < length bs"
  shows "next_free_block (fold (link_step bs) [0..<k] h (bs ! j)) =
      (if j < k \<and> Suc j < length bs then Some (bs ! Suc j) else next_free_block (h (bs ! j)))"
    and "prev_free_block (fold (link_step bs) [0..<k] h (bs ! j)) =
      (if j < k \<and> 0 < j then Some (bs ! (j - 1)) else prev_free_block (h (bs ! j)))"
  using assms(2,3)
  by (induction k) (auto simp: link_step_links less_Suc_eq nth_eq_iff_index_eq [OF assms(1)])

lemma link_fold_outside:
  assumes "a \<notin> set bs" and "k \<le> length bs"
  shows "next_free_block (fold (link_step bs) [0..<k] h a) = next_free_block (h a)"
    and "prev_free_block (fold (link_step bs) [0..<k] h a) = prev_free_block (h a)"
  using assms by (induction k) (auto simp: link_step_links)

lemma meta_link_fold: "meta (fold (link_step bs) ks h) = meta h"
  by (induction ks arbitrary: h) (simp_all add: link_step_links)

text \<open>The store a pool of \<open>n\<close> blocks starts with: \<^verbatim>\<open>[KVCacheBlock(idx) for idx in range(n)]\<close>.\<close>

definition init_heap :: kv_heap where
  "init_heap a = (case a of Blk i \<Rightarrow> new_block (int i) | _ \<Rightarrow> new_block (-1))"

lemma init_heap_links [simp]:
  "next_free_block (init_heap a) = None" "prev_free_block (init_heap a) = None"
  by (simp_all add: init_heap_def new_block_def split: addr.splits)

lemma FreeKVCacheBlockQueue_refines:
  "free_rel (FreeKVCacheBlockQueue (map Blk [0..<n]) init_heap) (map Blk [0..<n])"
proof (cases "n = 0")
  case True
  then show ?thesis
    by (auto simp: FreeKVCacheBlockQueue_def free_rel_def new_block_def)
next
  case False
  let ?bs = "map Blk [0..<n]"
  define h where "h = fold (link_step ?bs) [0..<n] init_heap"
  let ?h = "fq_heap (FreeKVCacheBlockQueue ?bs init_heap)"
  have d: "distinct ?bs" by (simp add: distinct_map inj_on_def)
  have hn: "next_free_block (h (Blk j)) = (if Suc j < n then Some (Blk (Suc j)) else None)"
    and hp: "prev_free_block (h (Blk j)) = (if 0 < j then Some (Blk (j - 1)) else None)" if "j < n" for j
    using link_fold_links [OF d, of n j init_heap] that by (auto simp: h_def)
  have ho: "next_free_block (h (Blk j)) = None" "prev_free_block (h (Blk j)) = None" if "n \<le> j" for j
  proof -
    have "Blk j \<notin> set ?bs" using that by auto
    from link_fold_outside [OF this, of n init_heap]
    show "next_free_block (h (Blk j)) = None" "prev_free_block (h (Blk j)) = None"
      by (simp_all add: h_def)
  qed
  have ends: "hd ?bs = Blk 0" "last ?bs = Blk (n - 1)" using False by (auto simp: hd_map last_map)
  have nxt: "next_free_block (?h a) = (case a of Head \<Rightarrow> Some (Blk 0) | Tail \<Rightarrow> None
      | Blk j \<Rightarrow> if Suc j < n then Some (Blk (Suc j)) else if Suc j = n then Some Tail else None)" for a
    using False by (auto simp: hn ho(1) FreeKVCacheBlockQueue_def ends new_block_def simp flip: h_def split: addr.splits)
  have prv: "prev_free_block (?h a) = (case a of Head \<Rightarrow> None | Tail \<Rightarrow> Some (Blk (n - 1))
      | Blk j \<Rightarrow> if j = 0 then Some Head else if j < n then Some (Blk (j - 1)) else None)" for a
    using False by (auto simp: hp ho(2) FreeKVCacheBlockQueue_def ends new_block_def simp flip: h_def split: addr.splits)
  have "linked ?h (Head # ?bs @ [Tail])"
    unfolding linked_nth using False by (auto simp: nxt prv nth_Cons' nth_append)
  moreover have num: "num_free_blocks (FreeKVCacheBlockQueue ?bs init_heap) = int n"
    by (simp add: FreeKVCacheBlockQueue_def Let_def)
  ultimately show ?thesis using d
    using False by (fastforce simp: free_rel_def nxt prv num)
qed

lemma meta_FreeKVCacheBlockQueue:
  "meta (fq_heap (FreeKVCacheBlockQueue bs h)) (Blk i) = meta h (Blk i)"
proof -
  have "meta (k(Head := u, Tail := v)) (Blk i) = meta k (Blk i)" for k u v
    by (simp add: meta_def)
  then show ?thesis
    by (simp add: FreeKVCacheBlockQueue_def Let_def meta_link_fold)
qed

lemma meta_new_FreeKVCacheBlockQueue:
  "snd (meta (fq_heap (FreeKVCacheBlockQueue bs init_heap)) a) = (0, None, False)"
proof -
  have i: "snd (meta init_heap b) = (0, None, False)" for b
    by (simp add: meta_def init_heap_def new_block_def split: addr.splits)
  have "snd (meta (k(Head := new_block (-1), Tail := new_block (-1))) a) = (0, None, False)"
    if "meta k = meta init_heap" for k
    using i [of a] fun_cong [OF that, of a] by (cases a) (simp_all add: meta_def new_block_def)
  then show ?thesis
    by (simp add: FreeKVCacheBlockQueue_def Let_def meta_link_fold)
qed

text \<open>Only the links matter to the representation: the pool may change everything else.\<close>

lemma free_rel_cong:
  assumes "\<And>a. next_free_block (h' a) = next_free_block (fq_heap q a)"
    and "\<And>a. prev_free_block (h' a) = prev_free_block (fq_heap q a)"
  shows "free_rel (q\<lparr>fq_heap := h'\<rparr>) xs = free_rel q xs"
  using linked_cong [of "Head # xs @ [Tail]" h' "fq_heap q"] assms by (simp add: free_rel_def)

subsection \<open>Walking the list\<close>

lemma collect_free_linked:
  assumes "linked h (ys @ [Tail])" and "next_free_block (h Tail) = None"
  shows "collect_free h (hd (ys @ [Tail])) ret = Some (ret @ ys)"
  using assms
proof (induction ys arbitrary: ret)
  case Nil
  then show ?case by (simp add: collect_free.simps)
next
  case (Cons y ys)
  then have "next_free_block (h y) = Some (hd (ys @ [Tail]))"
    by (cases ys) auto
  moreover from Cons.prems have "linked h (ys @ [Tail])" by (cases ys) auto
  ultimately show ?case using Cons by (simp add: collect_free.simps [of h y])
qed

lemma get_all_free_blocks_refines:
  assumes "free_rel q xs"
  shows "get_all_free_blocks q = Some (Inr xs)"
proof -
  from assms have l: "linked (fq_heap q) (Head # xs @ [Tail])"
    and t: "next_free_block (fq_heap q Tail) = None" by (auto simp: free_rel_def)
  from l have "next_free_block (fq_heap q Head) = Some (hd (xs @ [Tail]))"
    by (rule linked_hd_tl)
  moreover from l have "linked (fq_heap q) (xs @ [Tail])" by (cases xs) auto
  ultimately show ?thesis
    using collect_free_linked [of "fq_heap q" xs "[]"] t by (simp add: get_all_free_blocks_def)
qed

lemma free_rel_unique: "free_rel q xs \<Longrightarrow> free_rel q ys \<Longrightarrow> xs = ys"
  using get_all_free_blocks_refines [of q xs] get_all_free_blocks_refines [of q ys] by simp

lemma free_rel_distinct: "free_rel q xs \<Longrightarrow> distinct xs"
  and free_rel_size: "free_rel q xs \<Longrightarrow> num_free_blocks q = int (length xs)"
  by (simp_all add: free_rel_def)

section \<open>The interface the block pool relies on\<close>

text \<open>
  An eviction queue holds a duplicate-free list of blocks; blocks leave at the front or by
  removal from the middle and enter at the back. \<open>info\<close> is the part of the store the queue's
  operations must leave alone.
\<close>

locale eviction_queue =
  fixes rel :: "'q \<Rightarrow> 'a list \<Rightarrow> bool"
    and pop_n :: "int \<Rightarrow> 'q \<Rightarrow> ('a list \<times> 'q) result"
    and rem :: "'a \<Rightarrow> 'q \<Rightarrow> 'q result"
    and app_n :: "'a list \<Rightarrow> 'q \<Rightarrow> 'q result"
    and size_of :: "'q \<Rightarrow> int"
    and elem :: "'a \<Rightarrow> bool"
    and info :: "'q \<Rightarrow> 'i"
  assumes rel_distinct: "rel q xs \<Longrightarrow> distinct xs"
    and rel_size: "rel q xs \<Longrightarrow> size_of q = int (length xs)"
    and pop_n_ok: "rel q xs \<Longrightarrow> n \<le> length xs \<Longrightarrow>
      \<exists>q'. pop_n (int n) q = Inr (take n xs, q') \<and> rel q' (drop n xs) \<and> info q' = info q"
    and pop_n_fail: "rel q xs \<Longrightarrow> length xs < n \<Longrightarrow> pop_n (int n) q = Inl AssertionError"
    and rem_ok: "rel q xs \<Longrightarrow> b \<in> set xs \<Longrightarrow>
      \<exists>q'. rem b q = Inr q' \<and> rel q' (remove1 b xs) \<and> info q' = info q"
    and app_n_ok: "rel q xs \<Longrightarrow> distinct bs \<Longrightarrow> set bs \<inter> set xs = {} \<Longrightarrow> list_all elem bs \<Longrightarrow>
      \<exists>q'. app_n bs q = Inr q' \<and> rel q' (xs @ bs) \<and> info q' = info q"
begin

lemma pop_nD:
  assumes "rel q xs" and "0 \<le> n" and "pop_n n q = Inr (ys, q')"
  shows "ys = take (nat n) xs" "rel q' (drop (nat n) xs)" "info q' = info q" "nat n \<le> length xs"
proof -
  have n: "int (nat n) = n" using assms(2) by simp
  show le: "nat n \<le> length xs"
    using pop_n_fail [OF assms(1), of "nat n"] assms(3) unfolding n by (cases "nat n \<le> length xs") auto
  show "ys = take (nat n) xs" "rel q' (drop (nat n) xs)" "info q' = info q"
    using pop_n_ok [OF assms(1) le] assms(3) unfolding n by auto
qed

lemma remD: "rel q xs \<Longrightarrow> b \<in> set xs \<Longrightarrow> rem b q = Inr q' \<Longrightarrow>
    rel q' (remove1 b xs) \<and> info q' = info q"
  using rem_ok by fastforce

lemma app_nD: "rel q xs \<Longrightarrow> distinct bs \<Longrightarrow> set bs \<inter> set xs = {} \<Longrightarrow> list_all elem bs \<Longrightarrow>
    app_n bs q = Inr q' \<Longrightarrow> rel q' (xs @ bs) \<and> info q' = info q"
  using app_n_ok by fastforce

text \<open>Least recently freed first: what is appended is popped only after everything already there.\<close>

lemma freed_last:
  assumes "rel q xs" and "distinct bs" "set bs \<inter> set xs = {}" "list_all elem bs"
    and "app_n bs q = Inr q'" and "n \<le> length xs + length bs"
  shows "\<exists>q''. pop_n (int n) q' = Inr (take n xs @ take (n - length xs) bs, q'')"
  using pop_n_ok [of q' "xs @ bs" n] app_nD [OF assms(1-5)] assms(6) by auto

text \<open>A block that was taken out of the middle is not handed out again.\<close>

lemma removed_not_popped:
  assumes "rel q xs" and "b \<in> set xs" and "rem b q = Inr q'" and "0 \<le> n"
    and "pop_n n q' = Inr (ys, q'')"
  shows "b \<notin> set ys"
proof -
  have r: "rel q' (remove1 b xs)" using remD [OF assms(1-3)] by simp
  have "ys = take (nat n) (remove1 b xs)" using pop_nD(1) [OF r assms(4,5)] .
  then have "set ys \<subseteq> set (remove1 b xs)" by (simp add: set_take_subset)
  then show ?thesis using rel_distinct [OF assms(1)] by (auto simp: set_remove1_eq)
qed

end

interpretation fq: eviction_queue free_rel popleft_n remove append_n num_free_blocks
  "\<lambda>a. a \<noteq> Head \<and> a \<noteq> Tail" "\<lambda>q. meta (fq_heap q)"
proof unfold_locales
  fix q xs bs
  assume "free_rel q xs" "distinct bs" "set bs \<inter> set xs = {}"
    and "list_all (\<lambda>a. a \<noteq> Head \<and> a \<noteq> Tail) bs"
  then show "\<exists>q'. append_n bs q = Inr q' \<and> free_rel q' (xs @ bs) \<and> meta (fq_heap q') = meta (fq_heap q)"
    by (intro append_n_refines) (auto simp: list_all_iff)
qed (auto simp: free_rel_size popleft_n_refines popleft_n_too_many remove_refines dest: free_rel_distinct)

section \<open>Any sequence of operations\<close>

datatype queue_op =
    OpPopleft | OpPopleftN nat | OpRemove nat | OpAppend nat | OpAppendN "nat list"

definition impl_step :: "queue_op \<Rightarrow> free_queue \<Rightarrow> (addr list \<times> free_queue) result" where
  "impl_step op q =
     (case op of
        OpPopleft \<Rightarrow> rbind (popleft q) (\<lambda>(b, q'). Inr ([b], q'))
      | OpPopleftN n \<Rightarrow> popleft_n (int n) q
      | OpRemove i \<Rightarrow> rbind (remove (Blk i) q) (\<lambda>q'. Inr ([], q'))
      | OpAppend i \<Rightarrow> rbind (append_block (Blk i) q) (\<lambda>q'. Inr ([], q'))
      | OpAppendN ids \<Rightarrow> rbind (append_n (map Blk ids) q) (\<lambda>q'. Inr ([], q')))"

text \<open>The same operations on a list; freeing a block that is already free is outside the contract.\<close>

definition spec_step :: "queue_op \<Rightarrow> addr list \<Rightarrow> (addr list \<times> addr list) result" where
  "spec_step op xs =
     (case op of
        OpPopleft \<Rightarrow> (case xs of [] \<Rightarrow> Inl ValueError | b # r \<Rightarrow> Inr ([b], r))
      | OpPopleftN n \<Rightarrow> if n \<le> length xs then Inr (take n xs, drop n xs) else Inl AssertionError
      | OpRemove i \<Rightarrow> if Blk i \<in> set xs then Inr ([], remove1 (Blk i) xs) else Inl RuntimeError
      | OpAppend i \<Rightarrow> Inr ([], xs @ [Blk i])
      | OpAppendN ids \<Rightarrow> Inr ([], xs @ map Blk ids))"

fun op_frees :: "queue_op \<Rightarrow> nat list" where
  "op_frees (OpAppend i) = [i]"
| "op_frees (OpAppendN ids) = ids"
| "op_frees _ = []"

fun run_ops :: "('o \<Rightarrow> 's \<Rightarrow> (addr list \<times> 's) result) \<Rightarrow> 'o list \<Rightarrow> addr list \<times> 's \<Rightarrow> (addr list \<times> 's) result" where
  "run_ops f [] (out, s) = Inr (out, s)"
| "run_ops f (op # ops) (out, s) = rbind (f op s) (\<lambda>(o', s'). run_ops f ops (out @ o', s'))"

text \<open>No operation of the sequence frees a block twice.\<close>

fun legal_ops :: "queue_op list \<Rightarrow> addr list \<Rightarrow> bool" where
  "legal_ops [] xs \<longleftrightarrow> True"
| "legal_ops (op # ops) xs \<longleftrightarrow>
     distinct (op_frees op) \<and> set (map Blk (op_frees op)) \<inter> set xs = {} \<and>
     (case spec_step op xs of Inl _ \<Rightarrow> True | Inr (_, xs') \<Rightarrow> legal_ops ops xs')"

lemma free_rel_tail: "free_rel q xs \<Longrightarrow> prev_free_block (fq_heap q Tail) \<noteq> None"
  using linked_last [of "fq_heap q" Head xs Tail] by (simp add: free_rel_def)

lemma append_n_blocks:
  assumes "free_rel q xs" "distinct ids" "set (map Blk ids) \<inter> set xs = {}"
  shows "\<exists>q'. append_n (map Blk ids) q = Inr q' \<and> free_rel q' (xs @ map Blk ids)"
proof -
  have "distinct (map Blk ids)" using assms(2) by (simp add: distinct_map inj_on_def)
  from fq.app_n_ok [OF assms(1) this assms(3)] show ?thesis by (auto simp: list_all_iff)
qed

lemma impl_step_refines:
  assumes q: "free_rel q xs" and "distinct (op_frees op)" "set (map Blk (op_frees op)) \<inter> set xs = {}"
  shows "case spec_step op xs of
      Inl e \<Rightarrow> impl_step op q = Inl e
    | Inr (out, xs') \<Rightarrow> \<exists>q'. impl_step op q = Inr (out, q') \<and> free_rel q' xs'"
proof (cases op)
  case OpPopleft
  with q show ?thesis
    by (cases xs) (auto simp: spec_step_def impl_step_def popleft_empty dest: popleft_refines)
next
  case (OpPopleftN n)
  with q show ?thesis
    using fq.pop_n_ok [OF q, of n] fq.pop_n_fail [OF q, of n] by (auto simp: spec_step_def impl_step_def)
next
  case (OpRemove i)
  with q show ?thesis
    using fq.rem_ok [OF q, of "Blk i"] remove_outside [OF q, of i] by (auto simp: spec_step_def impl_step_def)
next
  case (OpAppend i)
  then show ?thesis
    using append_n_blocks [OF q, of "[i]"] assms append_block_append_n [OF free_rel_tail [OF q]]
    by (auto simp: spec_step_def impl_step_def)
next
  case (OpAppendN ids)
  then show ?thesis using append_n_blocks [OF q, of "ids"] assms by (auto simp: spec_step_def impl_step_def)
qed

lemma run_ops_refines:
  assumes "free_rel q xs" and "legal_ops ops xs"
  shows "case run_ops spec_step ops (out, xs) of
      Inl e \<Rightarrow> run_ops impl_step ops (out, q) = Inl e
    | Inr (out', xs') \<Rightarrow> \<exists>q'. run_ops impl_step ops (out, q) = Inr (out', q') \<and> free_rel q' xs'"
  using assms
proof (induction ops arbitrary: q xs out)
  case Nil
  then show ?case by simp
next
  case (Cons op ops)
  have st: "case spec_step op xs of Inl e \<Rightarrow> impl_step op q = Inl e
      | Inr (out, xs') \<Rightarrow> \<exists>q'. impl_step op q = Inr (out, q') \<and> free_rel q' xs'"
    using Cons.prems by (intro impl_step_refines) auto
  show ?case
  proof (cases "spec_step op xs")
    case (Inl e)
    with st show ?thesis by simp
  next
    case (Inr p)
    then obtain o' xs' where p: "spec_step op xs = Inr (o', xs')" by (cases p) auto
    with st obtain q' where q': "impl_step op q = Inr (o', q')" "free_rel q' xs'" by auto
    from Cons.prems(2) p have "legal_ops ops xs'" by simp
    from Cons.IH [OF q'(2) this, of "out @ o'"] p q'(1) show ?thesis
      by (simp split: sum.splits prod.splits)
  qed
qed

text \<open>
  C11: the doubly linked free list implements a queue. Started on the blocks of a new pool, every
  sequence of pops, removals from the middle and appends that frees no free block hands out the
  same blocks, raises the same exception at the same point, and leaves the same free list as the
  operations on a plain list; walking the links returns that list.
\<close>

theorem free_queue_refines_list:
  assumes "legal_ops ops (map Blk [0..<n])"
  shows "case run_ops spec_step ops ([], map Blk [0..<n]) of
      Inl e \<Rightarrow> run_ops impl_step ops ([], FreeKVCacheBlockQueue (map Blk [0..<n]) init_heap) = Inl e
    | Inr (out, xs) \<Rightarrow> \<exists>q. run_ops impl_step ops ([], FreeKVCacheBlockQueue (map Blk [0..<n]) init_heap) = Inr (out, q) \<and>
        get_all_free_blocks q = Some (Inr xs) \<and> num_free_blocks q = int (length xs)"
  using run_ops_refines [OF FreeKVCacheBlockQueue_refines assms, of "[]"]
  by (auto split: sum.splits prod.splits dest: get_all_free_blocks_refines free_rel_size)

theorem free_queue_refines_list_witness:
  "\<exists>q. run_ops impl_step [OpPopleftN 2, OpRemove 3, OpAppendN [1, 0], OpPopleft]
      ([], FreeKVCacheBlockQueue (map Blk [0..<5]) init_heap) = Inr ([Blk 0, Blk 1, Blk 2], q) \<and>
    get_all_free_blocks q = Some (Inr [Blk 4, Blk 1, Blk 0])"
  using free_queue_refines_list [of "[OpPopleftN 2, OpRemove 3, OpAppendN [1, 0], OpPopleft]" 5]
  by (auto simp: spec_step_def upt_conv_Cons)

end
