(* ===== verification/Request_Model.thy ===== *)
theory Request_Model
  imports Mars_Prelude
begin

text \<open>
  \<^verbatim>\<open>vllm/v1/request.py\<close> and \<^verbatim>\<open>vllm/v1/core/sched/utils.py\<close>: the request object the scheduler, the
  queues and the KV cache share, its construction from an engine request, the growth of its token
  lists, its statuses, and the stop check. The block hasher a request carries is an argument of the
  operations that call it; the engine clock is an argument too.
\<close>

section \<open>Data\<close>

datatype RequestStatus =
    WAITING | WAITING_FOR_FSM | WAITING_FOR_REMOTE_KVS | RUNNING | PREEMPTED
  | FINISHED_STOPPED | FINISHED_LENGTH_CAPPED | FINISHED_ABORTED | FINISHED_IGNORED

datatype FinishReason = FR_STOP | FR_LENGTH | FR_ABORT

datatype EngineCoreEventType = QUEUED | SCHEDULED | EV_PREEMPTED

text \<open>\<^verbatim>\<open>SamplingParams\<close>, as far as the scheduler reads it.\<close>

record extra_args =
  ea_job_id :: "string option"
  ea_last_func_call :: "string option"
  ea_is_last_step :: "bool option"
  ea_this_func_call :: "string option"
  ea_kv_transfer_params :: "(string \<times> string) list option"

record sampling_params =
  sp_max_tokens :: "int option"
  sp_guided_decoding :: bool
  sp_ignore_eos :: bool
  sp_stop_token_ids :: "int list option"
  sp_extra_args :: "extra_args option"
  sp_prompt_logprobs :: "int option"

record mm_feature =
  mm_offset :: int
  mm_length :: int
  mm_identifier :: "string option"

record engine_core_request =
  ec_request_id :: string
  ec_client_index :: int
  ec_prompt_token_ids :: "int list"
  ec_mm_features :: "mm_feature list option"
  ec_sampling_params :: "sampling_params option"
  ec_pooling_params :: "unit option"
  ec_eos_token_id :: "int option"
  ec_arrival_time :: "real option"
  ec_lora_request :: "int option"
  ec_cache_salt :: "string option"
  ec_priority :: int

record request =
  job_id :: "string option"
  last_func_call :: "string option"
  is_last_step :: "bool option"
  this_func_call :: "string option"
  request_id :: string
  client_index :: int
  priority :: int
  sampling_params_of :: "sampling_params option"
  pooling_params :: "unit option"
  eos_token_id :: "int option"
  lora_request :: "int option"
  arrival_time :: real
  status :: RequestStatus
  use_structured_output :: bool
  events :: "(EngineCoreEventType \<times> real) list"
  stop_reason :: "int option"
  kv_transfer_params :: "(string \<times> string) list option"
  max_tokens :: int
  prompt_token_ids :: "int list"
  num_prompt_tokens :: int
  output_token_ids :: "int list"
  all_token_ids :: "int list"
  num_output_placeholders :: int
  spec_token_ids :: "int list"
  num_computed_tokens :: int
  cache_salt :: "string option"
  mm_features :: "mm_feature list"
  num_cached_tokens :: int
  num_nans_in_logits :: int
  block_hashes :: "bytes list"

section \<open>Derived attributes\<close>

definition num_tokens :: "request \<Rightarrow> int" where
  "num_tokens r = int (length (all_token_ids r))"

definition num_tokens_with_spec :: "request \<Rightarrow> int" where
  "num_tokens_with_spec r = int (length (all_token_ids r)) + int (length (spec_token_ids r))"

definition num_output_tokens :: "request \<Rightarrow> int" where
  "num_output_tokens r = int (length (output_token_ids r))"

definition is_output_corrupted :: "request \<Rightarrow> bool" where
  "is_output_corrupted r \<longleftrightarrow> num_nans_in_logits r > 0"

definition has_encoder_inputs :: "request \<Rightarrow> bool" where
  "has_encoder_inputs r \<longleftrightarrow> length (mm_features r) > 0"

definition mm_hashes :: "request \<Rightarrow> string option list" where
  "mm_hashes r = map mm_identifier (mm_features r)"

definition get_num_encoder_tokens :: "request \<Rightarrow> int \<Rightarrow> int result" where
  "get_num_encoder_tokens r input_id =
     (if input_id < int (length (mm_features r))
      then rbind (py_nth (mm_features r) input_id) (\<lambda>f. Inr (mm_length f))
      else Inl AssertionError)"

text \<open>The numbering \<^verbatim>\<open>enum.auto()\<close> gives the statuses, which \<^verbatim>\<open>is_finished\<close> compares.\<close>

fun status_value :: "RequestStatus \<Rightarrow> int" where
  "status_value WAITING = 1"
| "status_value WAITING_FOR_FSM = 2"
| "status_value WAITING_FOR_REMOTE_KVS = 3"
| "status_value RUNNING = 4"
| "status_value PREEMPTED = 5"
| "status_value FINISHED_STOPPED = 6"
| "status_value FINISHED_LENGTH_CAPPED = 7"
| "status_value FINISHED_ABORTED = 8"
| "status_value FINISHED_IGNORED = 9"

definition status_is_finished :: "RequestStatus \<Rightarrow> bool" where
  "status_is_finished s \<longleftrightarrow> status_value s > status_value PREEMPTED"

definition is_finished :: "request \<Rightarrow> bool" where
  "is_finished r = status_is_finished (status r)"

fun get_finished_reason :: "RequestStatus \<Rightarrow> FinishReason option" where
  "get_finished_reason FINISHED_STOPPED = Some FR_STOP"
| "get_finished_reason FINISHED_LENGTH_CAPPED = Some FR_LENGTH"
| "get_finished_reason FINISHED_ABORTED = Some FR_ABORT"
| "get_finished_reason FINISHED_IGNORED = Some FR_LENGTH"
| "get_finished_reason _ = None"

section \<open>Construction\<close>

text \<open>
  \<^verbatim>\<open>Request.__init__\<close>. The hasher, when there is one, sees the object with every other attribute
  set and an empty list of hashes.
\<close>

type_synonym block_hasher = "request \<Rightarrow> bytes list result"

definition Request ::
  "block_hasher option \<Rightarrow> real \<Rightarrow> string option \<Rightarrow> string \<Rightarrow> int list \<Rightarrow> sampling_params option \<Rightarrow>
   unit option \<Rightarrow> int option \<Rightarrow> int \<Rightarrow> real option \<Rightarrow> mm_feature list option \<Rightarrow> int option \<Rightarrow>
   string option \<Rightarrow> int \<Rightarrow> string option \<Rightarrow> bool option \<Rightarrow> string option \<Rightarrow> request result" where
  "Request hasher now jid rid prompt sp pp eos cidx arrival mmf lora salt prio lfc ils tfc =
     rbind
       (case (pp, sp) of
          (Some _, _) \<Rightarrow> Inr (1, WAITING, False, None)
        | (None, Some s) \<Rightarrow>
            (case sp_max_tokens s of
               None \<Rightarrow> Inl AssertionError
             | Some m \<Rightarrow>
                 Inr (m, if sp_guided_decoding s then WAITING_FOR_FSM else WAITING,
                      sp_guided_decoding s,
                      Option.bind (sp_extra_args s) ea_kv_transfer_params))
        | (None, None) \<Rightarrow> Inl ValueError)
       (\<lambda>(m, st, structured, kvp).
          let r = \<lparr>job_id = jid, last_func_call = lfc, is_last_step = ils, this_func_call = tfc,
                request_id = rid, client_index = cidx, priority = prio,
                sampling_params_of = sp, pooling_params = pp, eos_token_id = eos,
                lora_request = lora,
                arrival_time = (case arrival of Some t \<Rightarrow> t | None \<Rightarrow> now),
                status = st, use_structured_output = structured, events = [], stop_reason = None,
                kv_transfer_params = kvp, max_tokens = m,
                prompt_token_ids = prompt, num_prompt_tokens = int (length prompt),
                output_token_ids = [], all_token_ids = prompt, num_output_placeholders = 0,
                spec_token_ids = [], num_computed_tokens = 0, cache_salt = salt,
                mm_features = (case mmf of Some fs \<Rightarrow> fs | None \<Rightarrow> []),
                num_cached_tokens = -1, num_nans_in_logits = 0, block_hashes = []\<rparr>
          in case hasher of
               None \<Rightarrow> Inr r
             | Some f \<Rightarrow> rbind (f r) (\<lambda>hs. Inr (r\<lparr>block_hashes := hs\<rparr>)))"

definition from_engine_core_request ::
  "block_hasher option \<Rightarrow> real \<Rightarrow> engine_core_request \<Rightarrow> request result" where
  "from_engine_core_request hasher now q =
     (let ea = Option.bind (ec_sampling_params q) sp_extra_args
      in Request hasher now (Option.bind ea ea_job_id) (ec_request_id q) (ec_prompt_token_ids q)
           (ec_sampling_params q) (ec_pooling_params q) (ec_eos_token_id q) (ec_client_index q)
           (ec_arrival_time q) (ec_mm_features q) (ec_lora_request q) (ec_cache_salt q)
           (ec_priority q) (Option.bind ea ea_last_func_call) (Option.bind ea ea_is_last_step)
           (Option.bind ea ea_this_func_call))"

section \<open>Operations\<close>

definition append_output_token_ids :: "block_hasher option \<Rightarrow> int list \<Rightarrow> request \<Rightarrow> request result" where
  "append_output_token_ids hasher ts r =
     (let r1 = r\<lparr>output_token_ids := output_token_ids r @ ts,
                 all_token_ids := all_token_ids r @ ts\<rparr>
      in case hasher of
           None \<Rightarrow> Inr r1
         | Some f \<Rightarrow> rbind (f r1) (\<lambda>hs. Inr (r1\<lparr>block_hashes := block_hashes r1 @ hs\<rparr>)))"

definition record_event :: "EngineCoreEventType \<Rightarrow> real \<Rightarrow> request \<Rightarrow> request" where
  "record_event ev t r = r\<lparr>events := events r @ [(ev, t)]\<rparr>"

definition request_take_events ::
  "request \<Rightarrow> (EngineCoreEventType \<times> real) list option \<times> request" where
  "request_take_events r =
     (if events r = [] then (None, r) else (Some (events r), r\<lparr>events := []\<rparr>))"

text \<open>
  \<^verbatim>\<open>remove_all\<close> of \<^verbatim>\<open>sched/utils.py\<close>; the set of items is given as a duplicate-free list.
\<close>

definition remove_all :: "'a list \<Rightarrow> 'a list \<Rightarrow> 'a list" where
  "remove_all lst items =
     (case items of
        [] \<Rightarrow> lst
      | [item] \<Rightarrow> remove1 item lst
      | _ \<Rightarrow> filter (\<lambda>x. x \<notin> set items) lst)"

definition check_stop :: "request \<Rightarrow> int \<Rightarrow> bool \<Rightarrow> (bool \<times> request) result" where
  "check_stop r max_model_len has_pooler_output =
     (if num_tokens r \<ge> max_model_len \<or> num_output_tokens r \<ge> max_tokens r
      then Inr (True, r\<lparr>status := FINISHED_LENGTH_CAPPED\<rparr>)
      else if pooling_params r \<noteq> None
      then (if has_pooler_output then Inr (True, r\<lparr>status := FINISHED_STOPPED\<rparr>)
            else Inr (False, r))
      else (case sampling_params_of r of
          None \<Rightarrow> Inl AssertionError
        | Some sp \<Rightarrow>
            rbind (py_nth (output_token_ids r) (-1)) (\<lambda>last_token_id.
              if \<not> sp_ignore_eos sp \<and> Some last_token_id = eos_token_id r
              then Inr (True, r\<lparr>status := FINISHED_STOPPED\<rparr>)
              else if last_token_id \<in> set (case sp_stop_token_ids sp of Some l \<Rightarrow> l | None \<Rightarrow> [])
              then Inr (True, r\<lparr>status := FINISHED_STOPPED, stop_reason := Some last_token_id\<rparr>)
              else Inr (False, r))))"

section \<open>Properties\<close>

text \<open>A request's token list is its prompt followed by its output.\<close>

definition request_wf :: "request \<Rightarrow> bool" where
  "request_wf r \<longleftrightarrow>
     all_token_ids r = prompt_token_ids r @ output_token_ids r \<and>
     num_prompt_tokens r = int (length (prompt_token_ids r)) \<and>
     (pooling_params r = None \<longrightarrow> sampling_params_of r \<noteq> None)"

lemma status_is_finished_iff:
  "status_is_finished s \<longleftrightarrow>
     s \<in> {FINISHED_STOPPED, FINISHED_LENGTH_CAPPED, FINISHED_ABORTED, FINISHED_IGNORED}"
  by (cases s) (simp_all add: status_is_finished_def)

lemma finished_has_reason: "status_is_finished s \<longleftrightarrow> get_finished_reason s \<noteq> None"
  by (cases s) (simp_all add: status_is_finished_def)

lemma Request_fields:
  assumes "Request hasher now jid rid prompt sp pp eos cidx arrival mmf lora salt prio lfc ils tfc = Inr r"
  shows "request_wf r" "request_id r = rid" "job_id r = jid" "prompt_token_ids r = prompt"
    "num_computed_tokens r = 0" "output_token_ids r = []" "\<not> is_finished r"
    "status r = (if use_structured_output r then WAITING_FOR_FSM else WAITING)"
  using assms
  by (auto simp: Request_def request_wf_def Let_def is_finished_def status_is_finished_def
      split: option.splits prod.splits if_split_asm)

lemma append_output_token_ids_fields:
  assumes "append_output_token_ids hasher ts r = Inr r'"
  shows "all_token_ids r' = all_token_ids r @ ts" "output_token_ids r' = output_token_ids r @ ts"
    "prompt_token_ids r' = prompt_token_ids r" "num_prompt_tokens r' = num_prompt_tokens r"
    "pooling_params r' = pooling_params r" "sampling_params_of r' = sampling_params_of r"
    "status r' = status r" "request_id r' = request_id r" "max_tokens r' = max_tokens r"
    "num_computed_tokens r' = num_computed_tokens r" "mm_features r' = mm_features r"
  using assms by (auto simp: append_output_token_ids_def Let_def split: option.splits)

lemma append_output_token_ids_wf:
  "append_output_token_ids hasher ts r = Inr r' \<Longrightarrow> request_wf r \<Longrightarrow> request_wf r'"
  by (simp add: request_wf_def append_output_token_ids_fields)

lemma remove_all_set: "distinct lst \<Longrightarrow> remove_all lst items = filter (\<lambda>x. x \<notin> set items) lst"
  by (auto simp: remove_all_def filter_remove1_distinct split: list.splits intro!: filter_cong)

text \<open>The stop check stops exactly when one of its reasons holds, and says so in the status.\<close>

lemma check_stop_status:
  assumes "check_stop r mml po = Inr (b, r')"
  shows "if b then status_is_finished (status r') else r' = r"
proof (cases "py_nth (output_token_ids r) (-1)")
  case (Inl e)
  with assms show ?thesis
    by (auto simp: check_stop_def status_is_finished_def split: if_split_asm option.split_asm)
next
  case (Inr t)
  with assms show ?thesis
    by (auto simp: check_stop_def status_is_finished_def split: if_split_asm option.split_asm)
qed

lemma check_stop_continue:
  assumes "check_stop r mml po = Inr (False, r')"
  shows "num_tokens r < mml" "num_output_tokens r < max_tokens r"
  using assms by (cases "num_tokens r \<ge> mml \<or> num_output_tokens r \<ge> max_tokens r"; simp add: check_stop_def)+

lemma check_stop_returns:
  "request_wf r \<Longrightarrow> pooling_params r \<noteq> None \<or> output_token_ids r \<noteq> [] \<Longrightarrow>
     check_stop r mml po \<noteq> Inl e"
proof -
  assume wf: "request_wf r" and ne: "pooling_params r \<noteq> None \<or> output_token_ids r \<noteq> []"
  show ?thesis
  proof (cases "pooling_params r = None")
    case True
    with wf ne obtain sp t where "sampling_params_of r = Some sp"
      and "py_nth (output_token_ids r) (-1) = Inr t"
      by (auto simp: request_wf_def py_nth_def Suc_le_eq)
    with True show ?thesis by (simp add: check_stop_def)
  next
    case False
    then show ?thesis by (simp add: check_stop_def)
  qed
qed

text \<open>A text-only generation request, as the examples of the development use it.\<close>

definition plain_sampling :: sampling_params where
  "plain_sampling = \<lparr>sp_max_tokens = Some 16, sp_guided_decoding = False, sp_ignore_eos = False,
     sp_stop_token_ids = None, sp_extra_args = None, sp_prompt_logprobs = None\<rparr>"

definition text_request :: "string \<Rightarrow> int list \<Rightarrow> request" where
  "text_request rid prompt =
     \<lparr>job_id = None, last_func_call = None, is_last_step = None, this_func_call = None,
      request_id = rid, client_index = 0, priority = 0,
      sampling_params_of = Some plain_sampling,
      pooling_params = None, eos_token_id = None, lora_request = None, arrival_time = 0,
      status = WAITING, use_structured_output = False, events = [], stop_reason = None,
      kv_transfer_params = None, max_tokens = 16, prompt_token_ids = prompt,
      num_prompt_tokens = int (length prompt), output_token_ids = [], all_token_ids = prompt,
      num_output_placeholders = 0, spec_token_ids = [], num_computed_tokens = 0,
      cache_salt = None, mm_features = [], num_cached_tokens = -1, num_nans_in_logits = 0,
      block_hashes = []\<rparr>"

end
