(* ===== verification/KV_Hash.thy ===== *)
theory KV_Hash
  imports Request_Model
begin

text \<open>
  Block hashing of \<^verbatim>\<open>vllm/v1/core/kv_cache_utils.py\<close>: packing a block hash with its cache-group id,
  the extra keys of multi-modal, LoRA and salted requests, and the hasher that extends a request's
  list of block hashes. The hash function (sha256 over a serialisation, outside the repository's
  own code) and the seed \<^verbatim>\<open>NONE_HASH\<close> are arguments.
\<close>

section \<open>Hash keys with a group id\<close>

definition make_block_hash_with_group_id :: "bytes \<Rightarrow> int \<Rightarrow> bytes result" where
  "make_block_hash_with_group_id bh gid = rbind (to_bytes_big 4 gid) (\<lambda>g. Inr (bh @ g))"

definition get_block_hash :: "bytes \<Rightarrow> bytes" where
  "get_block_hash key = py_slice key 0 (-4)"

definition get_group_id :: "bytes \<Rightarrow> int" where
  "get_group_id key = from_bytes_big (py_slice key (-4) (int (length key)))"

datatype ExternalBlockHash = HashBytes bytes | HashInt "64 word"

text \<open>\<^verbatim>\<open>int.from_bytes(h) & ((1 << 64) - 1)\<close> is the low 64 bits.\<close>

definition maybe_convert_block_hash :: "bool \<Rightarrow> bytes \<Rightarrow> ExternalBlockHash" where
  "maybe_convert_block_hash use_int h =
     (if \<not> use_int then HashBytes h else HashInt (word_of_int (from_bytes_big h)))"

definition init_none_hash :: "(string \<Rightarrow> bytes) \<Rightarrow> string option \<Rightarrow> bytes \<Rightarrow> bytes" where
  "init_none_hash hash_str hash_seed urandom32 =
     (case hash_seed of None \<Rightarrow> urandom32 | Some s \<Rightarrow> hash_str s)"

lemma make_block_hash_with_group_id_ok:
  "make_block_hash_with_group_id bh gid = Inr k \<longleftrightarrow> 0 \<le> gid \<and> gid < 2 ^ 32 \<and> k = bh @ be_digits 4 gid"
  by (auto simp: make_block_hash_with_group_id_def to_bytes_big_def)

lemma unpack_packed:
  assumes "make_block_hash_with_group_id bh gid = Inr k"
  shows "get_block_hash k = bh" "get_group_id k = gid"
proof -
  have k: "k = bh @ be_digits 4 gid" "0 \<le> gid" "gid < 256 ^ 4"
    using assms by (auto simp: make_block_hash_with_group_id_ok)
  then show "get_block_hash k = bh"
    by (simp add: get_block_hash_def py_slice_def slice_index_def nat_diff_distrib del: be_digits.simps)
  have "py_slice k (-4) (int (length k)) = be_digits 4 gid"
    by (simp add: k(1) py_slice_def slice_index_def nat_diff_distrib del: be_digits.simps)
  then show "get_group_id k = gid"
    using from_bytes_be_digits [OF k(2,3)] by (simp add: get_group_id_def)
qed

lemma make_block_hash_inj:
  "make_block_hash_with_group_id bh gid = Inr k \<Longrightarrow> make_block_hash_with_group_id bh' gid' = Inr k \<Longrightarrow>
     bh = bh' \<and> gid = gid'"
  using unpack_packed by metis

section \<open>Extra keys\<close>

datatype key_atom = KInt int | KStr string

definition need_extra_keys :: "request \<Rightarrow> bool" where
  "need_extra_keys r \<longleftrightarrow> mm_features r \<noteq> [] \<or> lora_request r \<noteq> None \<or> cache_salt r \<noteq> None"

text \<open>The \<^verbatim>\<open>while\<close> loop of \<^verbatim>\<open>_gen_mm_extra_hash_keys\<close>; every iteration advances the index.\<close>

function mm_keys_loop ::
  "mm_feature list \<Rightarrow> int \<Rightarrow> int \<Rightarrow> nat \<Rightarrow> key_atom list \<Rightarrow> (key_atom list \<times> int) result" where
  "mm_keys_loop fs start_tok end_tok i keys =
     (if i < length fs then
        (case mm_identifier (fs ! i) of
           None \<Rightarrow> Inl AssertionError
         | Some h \<Rightarrow>
             let off = mm_offset (fs ! i); len = mm_length (fs ! i)
             in if end_tok > off then
                  if start_tok > off + len then mm_keys_loop fs start_tok end_tok (Suc i) keys
                  else if end_tok \<ge> off + len
                  then mm_keys_loop fs start_tok end_tok (Suc i) (keys @ [KStr h])
                  else Inr (keys @ [KStr h], int i)
                else Inr (keys, int i))
      else Inr (keys, int i))"
  by pat_completeness auto
termination
  by (relation "measure (\<lambda>(fs, _, _, i, _). length fs - i)") auto

declare mm_keys_loop.simps [simp del]

definition gen_mm_extra_hash_keys ::
  "request \<Rightarrow> int \<Rightarrow> int \<Rightarrow> int \<Rightarrow> (key_atom list \<times> int) result" where
  "gen_mm_extra_hash_keys r start_tok end_tok start_mm =
     (let fs = mm_features r
      in if fs = [] then Inr ([], start_mm)
         else if length fs \<noteq> length (mm_hashes r) then Inl ValueError
         else if mm_offset (last fs) + mm_length (last fs) < start_tok then Inr ([], start_mm)
         else if start_mm < 0 then
           (if - start_mm \<le> int (length fs)
            then mm_keys_loop fs start_tok end_tok (nat (int (length fs) + start_mm)) []
            else Inl AssertionError)
         else mm_keys_loop fs start_tok end_tok (nat start_mm) [])"

definition gen_lora_extra_hash_keys :: "request \<Rightarrow> key_atom list" where
  "gen_lora_extra_hash_keys r = (case lora_request r of None \<Rightarrow> [] | Some i \<Rightarrow> [KInt i])"

definition generate_block_hash_extra_keys ::
  "request \<Rightarrow> int \<Rightarrow> int \<Rightarrow> int \<Rightarrow> (key_atom list option \<times> int) result" where
  "generate_block_hash_extra_keys r start_tok end_tok start_mm =
     rbind (gen_mm_extra_hash_keys r start_tok end_tok start_mm) (\<lambda>(mm_keys, new_mm).
       let salt_keys = (case cache_salt r of
                          Some s \<Rightarrow> if start_tok = 0 \<and> s \<noteq> [] then [KStr s] else []
                        | None \<Rightarrow> []);
           extra = gen_lora_extra_hash_keys r @ mm_keys @ salt_keys
       in if extra = [] then Inr (None, new_mm) else Inr (Some extra, new_mm))"

section \<open>The request hasher\<close>

type_synonym hash_fn = "bytes \<times> int list \<times> key_atom list option \<Rightarrow> bytes"

definition hash_block_tokens ::
  "hash_fn \<Rightarrow> bytes \<Rightarrow> bytes option \<Rightarrow> int list \<Rightarrow> key_atom list option \<Rightarrow> bytes" where
  "hash_block_tokens hf NONE_HASH parent toks extra =
     (let p = (case parent of None \<Rightarrow> NONE_HASH | Some b \<Rightarrow> if b = [] then NONE_HASH else b)
      in hf (p, toks, extra))"

text \<open>
  The \<^verbatim>\<open>while True\<close> loop; with a block size of zero it would run forever, which is the value
  \<open>None\<close>.
\<close>

partial_function (option) hasher_loop ::
  "hash_fn \<Rightarrow> bytes \<Rightarrow> int \<Rightarrow> request \<Rightarrow> int \<Rightarrow> int \<Rightarrow> bytes option \<Rightarrow> bytes list \<Rightarrow> bytes list result option"
where
  "hasher_loop hf nh block_size r start_tok mm_idx prev acc =
     (let end_tok = start_tok + block_size
      in if end_tok > num_tokens r then Some (Inr acc)
         else (case generate_block_hash_extra_keys r start_tok end_tok mm_idx of
             Inl e \<Rightarrow> Some (Inl e)
           | Inr p \<Rightarrow>
               let bh = hash_block_tokens hf nh prev
                          (py_slice (all_token_ids r) start_tok end_tok) (fst p)
               in hasher_loop hf nh block_size r (start_tok + block_size) (snd p) (Some bh)
                    (acc @ [bh])))"

definition request_block_hasher ::
  "hash_fn \<Rightarrow> bytes \<Rightarrow> int \<Rightarrow> request \<Rightarrow> bytes list result option" where
  "request_block_hasher hf nh block_size r =
     (let start_tok = int (length (block_hashes r)) * block_size
      in hasher_loop hf nh block_size r start_tok (if start_tok > 0 then -1 else 0)
           (if block_hashes r = [] then None else Some (last (block_hashes r))) [])"

text \<open>The closure as \<^verbatim>\<open>Request\<close> calls it, where the loop returns (see \<open>request_block_hasher_returns\<close>).\<close>

definition get_request_block_hasher :: "hash_fn \<Rightarrow> bytes \<Rightarrow> int \<Rightarrow> block_hasher" where
  "get_request_block_hasher hf nh block_size r =
     (case request_block_hasher hf nh block_size r of Some res \<Rightarrow> res | None \<Rightarrow> Inl RuntimeError)"

section \<open>The loop returns\<close>

lemma hasher_loop_returns:
  assumes "0 < bs"
  shows "\<exists>res. hasher_loop hf nh bs r st mm prev acc = Some res"
  using assms
proof (induction "nat (num_tokens r - st)" arbitrary: st mm prev acc rule: less_induct)
  case less
  show ?case
  proof (cases "st + bs > num_tokens r")
    case True
    then show ?thesis by (simp add: hasher_loop.simps [of hf nh bs r st] Let_def)
  next
    case False
    then have "nat (num_tokens r - (st + bs)) < nat (num_tokens r - st)" using less.prems by simp
    from less.hyps [OF this less.prems] False show ?thesis
      by (simp add: hasher_loop.simps [of hf nh bs r st] Let_def split: sum.splits)
  qed
qed

lemma request_block_hasher_returns:
  "0 < bs \<Longrightarrow> \<exists>res. request_block_hasher hf nh bs r = Some res"
  unfolding request_block_hasher_def Let_def by (rule hasher_loop_returns)

section \<open>Chained hashes\<close>

text \<open>
  The reference: block \<open>i\<close> of a request without multi-modal inputs is hashed from the hash of
  block \<open>i - 1\<close>, its own tokens, and the request's LoRA id and salt.
\<close>

definition text_extra_keys :: "request \<Rightarrow> nat \<Rightarrow> key_atom list option" where
  "text_extra_keys r i =
     (let extra = gen_lora_extra_hash_keys r @
            (case cache_salt r of Some s \<Rightarrow> if i = 0 \<and> s \<noteq> [] then [KStr s] else [] | None \<Rightarrow> [])
      in if extra = [] then None else Some extra)"

definition block_tokens :: "nat \<Rightarrow> int list \<Rightarrow> nat \<Rightarrow> int list" where
  "block_tokens bs toks i = take bs (drop (i * bs) toks)"

primrec chain_hash :: "hash_fn \<Rightarrow> bytes \<Rightarrow> nat \<Rightarrow> request \<Rightarrow> nat \<Rightarrow> bytes" where
  "chain_hash hf nh bs r 0 =
     hash_block_tokens hf nh None (block_tokens bs (all_token_ids r) 0) (text_extra_keys r 0)"
| "chain_hash hf nh bs r (Suc i) =
     hash_block_tokens hf nh (Some (chain_hash hf nh bs r i))
       (block_tokens bs (all_token_ids r) (Suc i)) (text_extra_keys r (Suc i))"

definition num_full :: "nat \<Rightarrow> request \<Rightarrow> nat" where
  "num_full bs r = length (all_token_ids r) div bs"

definition full_chain :: "hash_fn \<Rightarrow> bytes \<Rightarrow> nat \<Rightarrow> request \<Rightarrow> bytes list" where
  "full_chain hf nh bs r = map (chain_hash hf nh bs r) [0..<num_full bs r]"

lemma text_generate_extra_keys:
  assumes "mm_features r = []" and "0 < bs"
  shows "generate_block_hash_extra_keys r (int (k * bs)) e mm = Inr (text_extra_keys r k, mm)"
  using assms
  by (simp add: generate_block_hash_extra_keys_def gen_mm_extra_hash_keys_def text_extra_keys_def Let_def
      split: option.splits)

lemma block_tokens_slice:
  "py_slice (all_token_ids r) (int (k * bs)) (int (k * bs) + int bs) = block_tokens bs (all_token_ids r) k"
  by (simp add: py_slice_nonneg block_tokens_def take_drop nat_add_distrib nat_mult_distrib add.commute
      flip: of_nat_mult of_nat_add)

definition prev_hash :: "hash_fn \<Rightarrow> bytes \<Rightarrow> nat \<Rightarrow> request \<Rightarrow> nat \<Rightarrow> bytes option" where
  "prev_hash hf nh bs r k = (if k = 0 then None else Some (chain_hash hf nh bs r (k - 1)))"

lemma hasher_loop_chain:
  assumes mm: "mm_features r = []" and bs: "0 < bs" and k: "k \<le> num_full bs r"
  shows "hasher_loop hf nh (int bs) r (int (k * bs)) mmi (prev_hash hf nh bs r k) acc =
     Some (Inr (acc @ map (chain_hash hf nh bs r) [k..<num_full bs r]))"
  using k
proof (induction "num_full bs r - k" arbitrary: k mmi acc)
  case 0
  then have k: "k = num_full bs r" by simp
  have "length (all_token_ids r) < k * bs + bs"
    using bs unfolding k num_full_def
    by (metis add.commute dividend_less_div_times mult.commute)
  then have "int (k * bs) + int bs > num_tokens r"
    unfolding num_tokens_def by (metis of_nat_add of_nat_less_iff)
  then show ?case by (subst hasher_loop.simps) (simp only: Let_def if_True, simp add: k)
next
  case (Suc d)
  then have lt: "k < num_full bs r" by simp
  have "Suc k * bs \<le> length (all_token_ids r)"
    using lt bs unfolding num_full_def by (metis Suc_leI less_eq_div_iff_mult_less_eq)
  then have "int (Suc k * bs) \<le> num_tokens r" unfolding num_tokens_def by (rule of_nat_mono)
  then have le: "\<not> int (k * bs) + int bs > num_tokens r" by (simp add: algebra_simps)
  have step: "chain_hash hf nh bs r k =
      hash_block_tokens hf nh (prev_hash hf nh bs r k) (block_tokens bs (all_token_ids r) k)
        (text_extra_keys r k)"
    by (cases k) (simp_all add: prev_hash_def)
  have nxt: "int (k * bs) + int bs = int (Suc k * bs)" by simp
  have "hasher_loop hf nh (int bs) r (int (k * bs)) mmi (prev_hash hf nh bs r k) acc =
      hasher_loop hf nh (int bs) r (int (Suc k * bs)) mmi (prev_hash hf nh bs r (Suc k))
        (acc @ [chain_hash hf nh bs r k])"
    by (subst hasher_loop.simps) (simp only: le Let_def if_False text_generate_extra_keys [OF mm bs]
        sum.case fst_conv snd_conv block_tokens_slice flip: step nxt, simp add: prev_hash_def)
  also have "\<dots> = Some (Inr ((acc @ [chain_hash hf nh bs r k]) @
      map (chain_hash hf nh bs r) [Suc k..<num_full bs r]))"
    using Suc by (intro Suc.hyps(1)) auto
  also have "\<dots> = Some (Inr (acc @ map (chain_hash hf nh bs r) [k..<num_full bs r]))"
    using lt by (simp add: upt_conv_Cons)
  finally show ?case .
qed

text \<open>What a request's hash list should be: the hashes of all its full blocks.\<close>

definition hashes_ok :: "hash_fn \<Rightarrow> bytes \<Rightarrow> nat \<Rightarrow> request \<Rightarrow> bool" where
  "hashes_ok hf nh bs r \<longleftrightarrow> block_hashes r = full_chain hf nh bs r"

lemma hasher_extends_prefix:
  assumes mm: "mm_features r = []" and bs: "0 < bs" and k: "k \<le> num_full bs r"
    and pre: "block_hashes r = map (chain_hash hf nh bs r) [0..<k]"
  shows "request_block_hasher hf nh (int bs) r =
     Some (Inr (map (chain_hash hf nh bs r) [k..<num_full bs r]))"
proof -
  have "prev_hash hf nh bs r k = (if block_hashes r = [] then None else Some (last (block_hashes r)))"
    using pre by (simp add: prev_hash_def last_map)
  then show ?thesis
    using hasher_loop_chain [OF mm bs k, of hf nh _ "[]"] pre
    by (simp add: request_block_hasher_def)
qed

lemma take_full_cong:
  assumes "take n ts = take n us" and "Suc i * bs \<le> n"
  shows "block_tokens bs ts i = block_tokens bs us i"
proof -
  have "take bs (drop (i * bs) (take n ts)) = take bs (drop (i * bs) (take n us))" using assms(1) by simp
  then show ?thesis using assms(2) by (simp add: block_tokens_def take_drop min_absorb1 add.commute)
qed

lemma chain_hash_cong:
  assumes "take (Suc i * bs) (all_token_ids r) = take (Suc i * bs) (all_token_ids r')"
    and "lora_request r = lora_request r'" "cache_salt r = cache_salt r'"
  shows "chain_hash hf nh bs r i = chain_hash hf nh bs r' i"
proof -
  have ek: "text_extra_keys r j = text_extra_keys r' j" for j
    using assms(2,3) by (simp add: text_extra_keys_def gen_lora_extra_hash_keys_def)
  have "chain_hash hf nh bs r j = chain_hash hf nh bs r' j" if "j \<le> i" for j
    using that
  proof (induction j)
    case 0
    have "block_tokens bs (all_token_ids r) 0 = block_tokens bs (all_token_ids r') 0"
      using assms(1) by (rule take_full_cong) simp
    then show ?case by (simp add: ek)
  next
    case (Suc j)
    have "Suc (Suc j) * bs \<le> Suc i * bs" using Suc.prems by (intro mult_le_mono1) simp
    with assms(1) have "block_tokens bs (all_token_ids r) (Suc j) = block_tokens bs (all_token_ids r') (Suc j)"
      by (rule take_full_cong)
    then show ?case using Suc by (simp add: ek)
  qed
  then show ?thesis by simp
qed

lemma append_output_hashes_ok:
  assumes mm: "mm_features r = []" and bs: "0 < bs" and ok: "hashes_ok hf nh bs r"
  shows "\<exists>r'. append_output_token_ids (Some (get_request_block_hasher hf nh (int bs))) ts r = Inr r' \<and>
     hashes_ok hf nh bs r'"
proof -
  define r1 where "r1 = r\<lparr>output_token_ids := output_token_ids r @ ts, all_token_ids := all_token_ids r @ ts\<rparr>"
  have le: "num_full bs r \<le> num_full bs r1" by (simp add: num_full_def r1_def div_le_mono)
  have "chain_hash hf nh bs r1 i = chain_hash hf nh bs r i" if "i < num_full bs r" for i
  proof (rule chain_hash_cong)
    have "Suc i * bs \<le> length (all_token_ids r)"
      using that bs unfolding num_full_def by (metis Suc_leI less_eq_div_iff_mult_less_eq)
    then show "take (Suc i * bs) (all_token_ids r1) = take (Suc i * bs) (all_token_ids r)"
      by (simp add: r1_def)
  qed (simp_all add: r1_def)
  then have pre: "block_hashes r1 = map (chain_hash hf nh bs r1) [0..<num_full bs r]"
    using ok by (simp add: hashes_ok_def full_chain_def r1_def)
  have "request_block_hasher hf nh (int bs) r1 =
      Some (Inr (map (chain_hash hf nh bs r1) [num_full bs r..<num_full bs r1]))"
    using mm bs le pre by (intro hasher_extends_prefix) (simp_all add: r1_def)
  moreover have "chain_hash hf nh bs (r1\<lparr>block_hashes := hs\<rparr>) i = chain_hash hf nh bs r1 i" for hs i
    by (rule chain_hash_cong) simp_all
  moreover have "[0..<num_full bs r1] = [0..<num_full bs r] @ [num_full bs r..<num_full bs r1]"
    using le by (metis le0 le_Suc_ex upt_add_eq_append add_0)
  ultimately show ?thesis
    using pre by (simp add: append_output_token_ids_def get_request_block_hasher_def Let_def hashes_ok_def
        full_chain_def num_full_def flip: r1_def)
qed

lemma Request_calls_hasher:
  assumes "Request (Some f) now jid rid prompt sp pp eos cidx arrival mmf lora salt prio lfc ils tfc = Inr r"
  shows "f (r\<lparr>block_hashes := []\<rparr>) = Inr (block_hashes r)"
    and "mm_features r = (case mmf of Some fs \<Rightarrow> fs | None \<Rightarrow> [])"
  using assms by (auto simp: Request_def Let_def split: option.splits)

lemma Request_hashes_ok:
  assumes "Request (Some (get_request_block_hasher hf nh (int bs))) now jid rid prompt sp pp eos cidx
      arrival None lora salt prio lfc ils tfc = Inr r" and bs: "0 < bs"
  shows "hashes_ok hf nh bs r"
proof -
  let ?r0 = "r\<lparr>block_hashes := []\<rparr>"
  have "request_block_hasher hf nh (int bs) ?r0 = Some (Inr (full_chain hf nh bs ?r0))"
    using hasher_extends_prefix [of ?r0 bs 0 hf nh] bs Request_calls_hasher(2) [OF assms(1)]
    by (simp add: full_chain_def)
  moreover have "chain_hash hf nh bs ?r0 = chain_hash hf nh bs r"
    by (intro ext chain_hash_cong) simp_all
  ultimately show ?thesis
    using Request_calls_hasher(1) [OF assms(1)]
    by (simp add: get_request_block_hasher_def hashes_ok_def full_chain_def num_full_def)
qed

lemma Request_succeeds:
  assumes "0 < bs" and "sp_max_tokens sp = Some m"
  shows "\<exists>r. Request (Some (get_request_block_hasher hf nh (int bs))) now jid rid prompt (Some sp) None eos
    cidx arrival None lora salt prio lfc ils tfc = Inr r"
proof -
  have "\<exists>hs. get_request_block_hasher hf nh (int bs) r0 = Inr hs"
    if "block_hashes r0 = []" "mm_features r0 = []" for r0
    using hasher_extends_prefix [of r0 bs 0 hf nh] that assms(1) by (simp add: get_request_block_hasher_def)
  then show ?thesis using assms(2) by (auto simp: Request_def Let_def)
qed

section \<open>Equal hashes, equal prefixes\<close>

text \<open>The inputs on which hashing a request's full blocks calls the hash function.\<close>

definition chain_input :: "hash_fn \<Rightarrow> bytes \<Rightarrow> nat \<Rightarrow> request \<Rightarrow> nat \<Rightarrow> bytes \<times> int list \<times> key_atom list option" where
  "chain_input hf nh bs r i =
     (if i = 0 then nh else chain_hash hf nh bs r (i - 1),
      block_tokens bs (all_token_ids r) i, text_extra_keys r i)"

definition chain_inputs :: "hash_fn \<Rightarrow> bytes \<Rightarrow> nat \<Rightarrow> request \<Rightarrow> (bytes \<times> int list \<times> key_atom list option) set" where
  "chain_inputs hf nh bs r = chain_input hf nh bs r ` {..<num_full bs r}"

lemma chain_hash_input:
  assumes "\<forall>x. hf x \<noteq> []"
  shows "chain_hash hf nh bs r i = hf (chain_input hf nh bs r i)"
proof -
  have "chain_hash hf nh bs r j \<noteq> []" for j
    using assms by (cases j) (simp_all add: hash_block_tokens_def)
  then show ?thesis by (cases i) (simp_all add: chain_input_def hash_block_tokens_def)
qed

lemma chain_input_parent:
  assumes "\<forall>x. hf x \<noteq> []" and "\<forall>x. hf x \<noteq> nh"
  shows "fst (chain_input hf nh bs r i) = nh \<longleftrightarrow> i = 0"
  using assms by (simp add: chain_input_def chain_hash_input)

lemma block_tokens_take_Suc:
  "take (Suc i * bs) ts = take (i * bs) ts @ block_tokens bs ts i"
  by (simp add: block_tokens_def add.commute flip: take_add)

lemma equal_hash_equal_prefix:
  assumes ne: "\<forall>x. hf x \<noteq> []" and nh: "\<forall>x. hf x \<noteq> nh"
    and inj: "inj_on hf (chain_inputs hf nh bs r \<union> chain_inputs hf nh bs r')"
    and i: "i < num_full bs r" and j: "j < num_full bs r'"
    and eq: "chain_hash hf nh bs r i = chain_hash hf nh bs r' j"
  shows "i = j \<and> take (Suc i * bs) (all_token_ids r) = take (Suc i * bs) (all_token_ids r') \<and>
    text_extra_keys r 0 = text_extra_keys r' 0 \<and> text_extra_keys r i = text_extra_keys r' i"
  using i j eq
proof (induction i arbitrary: j)
  case 0
  have in1: "chain_input hf nh bs r 0 \<in> chain_inputs hf nh bs r" using 0 by (simp add: chain_inputs_def)
  have in2: "chain_input hf nh bs r' j \<in> chain_inputs hf nh bs r'" using 0 by (simp add: chain_inputs_def)
  have "chain_input hf nh bs r 0 = chain_input hf nh bs r' j"
    using 0(3) in1 in2 unfolding chain_hash_input [OF ne] by (intro inj_onD [OF inj]) auto
  moreover from this have "j = 0" using chain_input_parent [OF ne nh] by metis
  ultimately show ?case by (simp add: chain_input_def block_tokens_def)
next
  case (Suc i)
  have in1: "chain_input hf nh bs r (Suc i) \<in> chain_inputs hf nh bs r" using Suc.prems by (simp add: chain_inputs_def)
  have in2: "chain_input hf nh bs r' j \<in> chain_inputs hf nh bs r'" using Suc.prems by (simp add: chain_inputs_def)
  have eqi: "chain_input hf nh bs r (Suc i) = chain_input hf nh bs r' j"
    using Suc.prems(3) in1 in2 unfolding chain_hash_input [OF ne] by (intro inj_onD [OF inj]) auto
  from eqi have "j \<noteq> 0" using chain_input_parent [OF ne nh] by (metis Suc_not_Zero)
  then obtain j' where j': "j = Suc j'" by (cases j) auto
  from eqi have "chain_hash hf nh bs r i = chain_hash hf nh bs r' j'"
    and t: "block_tokens bs (all_token_ids r) (Suc i) = block_tokens bs (all_token_ids r') (Suc j')"
    and e: "text_extra_keys r (Suc i) = text_extra_keys r' (Suc j')"
    by (auto simp: chain_input_def j')
  then have "i = j' \<and> take (Suc i * bs) (all_token_ids r) = take (Suc i * bs) (all_token_ids r') \<and>
      text_extra_keys r 0 = text_extra_keys r' 0"
    using Suc.IH [of j'] Suc.prems unfolding j' by (metis Suc_lessD)
  with t e show ?case
    unfolding j' block_tokens_take_Suc [of "Suc i"] by auto
qed

section \<open>Properties\<close>

text \<open>
  Packing a block hash with a group id loses nothing: whenever the packed key exists, the hash
  and the group id are read back from it, so two blocks share a key only if they share both.
\<close>

lemma group_key_roundtrip:
  assumes "make_block_hash_with_group_id bh gid = Inr k"
  shows "get_block_hash k = bh \<and> get_group_id k = gid \<and>
    (\<forall>bh' gid'. make_block_hash_with_group_id bh' gid' = Inr k \<longrightarrow> bh' = bh \<and> gid' = gid)"
  using unpack_packed [OF assms] make_block_hash_inj [OF assms] by blast

lemma group_key_roundtrip_witness:
  "make_block_hash_with_group_id [7, 9] 258 = Inr [7, 9, 0, 0, 1, 2] \<and>
   get_block_hash [7, 9, 0, 0, 1, 2] = [7, 9] \<and> get_group_id [7, 9, 0, 0, 1, 2] = 258"
proof -
  have "make_block_hash_with_group_id [7, 9] 258 = Inr [7, 9, 0, 0, 1, 2]"
    by code_simp
  with group_key_roundtrip [of "[7, 9]" 258] show ?thesis by blast
qed

text \<open>
  C18: hashing incrementally is hashing from scratch. For a request without multi-modal inputs, the
  constructor followed by any number of output appends never raises, and leaves exactly the
  chained hashes of all full blocks of prompt and output.
\<close>

theorem incremental_hashing:
  fixes tss :: "int list list"
  assumes r: "Request (Some (get_request_block_hasher hf nh (int bs))) now jid rid prompt sp pp eos cidx
      arrival None lora salt prio lfc ils tfc = Inr r" and bs: "0 < bs"
  shows "\<exists>r'. rfold (append_output_token_ids (Some (get_request_block_hasher hf nh (int bs)))) tss r = Inr r' \<and>
    all_token_ids r' = prompt @ concat tss \<and> block_hashes r' = full_chain hf nh bs r'"
proof -
  have gen: "\<exists>r'. rfold (append_output_token_ids (Some (get_request_block_hasher hf nh (int bs)))) tss r = Inr r' \<and>
      all_token_ids r' = all_token_ids r @ concat tss \<and> hashes_ok hf nh bs r'"
    if "mm_features r = []" "hashes_ok hf nh bs r" for r
    using that
  proof (induction tss arbitrary: r)
    case Nil
    then show ?case by simp
  next
    case (Cons ts tss)
    from append_output_hashes_ok [OF Cons.prems(1) bs Cons.prems(2), of ts] obtain r1
      where r1: "append_output_token_ids (Some (get_request_block_hasher hf nh (int bs))) ts r = Inr r1"
        and "hashes_ok hf nh bs r1" by blast
    moreover note append_output_token_ids_fields [OF r1]
    ultimately show ?case using Cons.IH [of r1] Cons.prems by auto
  qed
  have "mm_features r = []" using Request_calls_hasher(2) [OF r] by simp
  moreover have "all_token_ids r = prompt"
    using Request_fields(1,4,6) [OF r] by (simp add: request_wf_def)
  ultimately show ?thesis using gen [of r] Request_hashes_ok [OF r bs] by (simp add: hashes_ok_def)
qed

theorem incremental_hashing_witness:
  "\<exists>r r'. Request (Some (get_request_block_hasher (\<lambda>(p, t, e). 1 # map word_of_int t) [0] (int 2))) 0 None ''a''
       [1, 2, 3] (Some plain_sampling) None None 0 None None None None 0 None None None = Inr r \<and>
     rfold (append_output_token_ids (Some (get_request_block_hasher (\<lambda>(p, t, e). 1 # map word_of_int t) [0] (int 2))))
       [[4], [5, 6]] r = Inr r' \<and>
     all_token_ids r' = [1, 2, 3, 4, 5, 6] \<and>
     block_hashes r' = full_chain (\<lambda>(p, t, e). 1 # map word_of_int t) [0] 2 r'"
proof -
  let ?f = "\<lambda>(p, t, e). 1 # map word_of_int t" and ?nh = "[0] :: bytes"
  have "sp_max_tokens plain_sampling = Some 16" by (simp add: plain_sampling_def)
  then obtain r where r: "Request (Some (get_request_block_hasher ?f ?nh (int 2))) 0 None ''a''
      [1, 2, 3] (Some plain_sampling) None None 0 None None None None 0 None None None = Inr r"
    using Request_succeeds [of 2] by fastforce
  show ?thesis using incremental_hashing [OF r, of "[[4], [5, 6]]"] r by auto
qed

text \<open>
  C19: a prefix-cache hit is sound. When the hash function does not collide on the blocks of two
  text requests and never returns the seed or the empty string, equal hashes at positions \<open>i\<close> and
  \<open>j\<close> of their hash lists mean the same position, the same tokens up to the end of that block, and
  the same LoRA and salt keys.
\<close>

theorem equal_block_hash_sound:
  assumes "\<forall>x. hf x \<noteq> [] \<and> hf x \<noteq> nh"
    and "inj_on hf (chain_inputs hf nh bs r \<union> chain_inputs hf nh bs r')"
    and "block_hashes r = full_chain hf nh bs r" and "block_hashes r' = full_chain hf nh bs r'"
    and "i < length (block_hashes r)" and "j < length (block_hashes r')"
    and "block_hashes r ! i = block_hashes r' ! j"
  shows "i = j \<and> take (Suc i * bs) (all_token_ids r) = take (Suc i * bs) (all_token_ids r') \<and>
    text_extra_keys r 0 = text_extra_keys r' 0"
  using equal_hash_equal_prefix [of hf nh bs r r' i j] assms by (auto simp: full_chain_def)

definition sample_hash :: hash_fn where
  "sample_hash = (\<lambda>(p, t, e). 1 # map word_of_int t @ p)"

definition hashed_request :: "string \<Rightarrow> int list \<Rightarrow> request" where
  "hashed_request rid toks =
     (text_request rid toks)\<lparr>block_hashes := full_chain sample_hash [0] 2 (text_request rid toks)\<rparr>"

lemma hashed_request_chain:
  "chain_hash sample_hash [0] 2 (hashed_request rid toks) = chain_hash sample_hash [0] 2 (text_request rid toks)"
  "block_hashes (hashed_request rid toks) = full_chain sample_hash [0] 2 (hashed_request rid toks)"
proof -
  show *: "chain_hash sample_hash [0] 2 (hashed_request rid toks) = chain_hash sample_hash [0] 2 (text_request rid toks)"
    by (intro ext chain_hash_cong) (simp_all add: hashed_request_def)
  show "block_hashes (hashed_request rid toks) = full_chain sample_hash [0] 2 (hashed_request rid toks)"
    unfolding full_chain_def * by (simp add: hashed_request_def full_chain_def num_full_def)
qed

theorem equal_block_hash_sound_witness:
  "block_hashes (hashed_request ''a'' [1, 2, 3, 4, 5]) ! 1 = block_hashes (hashed_request ''b'' [1, 2, 3, 4, 9, 8]) ! 1 \<and>
   take (Suc 1 * 2) (all_token_ids (hashed_request ''a'' [1, 2, 3, 4, 5])) =
   take (Suc 1 * 2) (all_token_ids (hashed_request ''b'' [1, 2, 3, 4, 9, 8]))"
proof -
  let ?r = "hashed_request ''a'' [1, 2, 3, 4, 5]" and ?r' = "hashed_request ''b'' [1, 2, 3, 4, 9, 8]"
  have h: "\<forall>x. sample_hash x \<noteq> [] \<and> sample_hash x \<noteq> [0]" by (simp add: sample_hash_def)
  have nf: "num_full 2 ?r = 2" "num_full 2 ?r' = 3"
    by (simp_all add: num_full_def hashed_request_def text_request_def)
  have inp: "chain_input sample_hash [0] 2 ?r 0 = ([0], [1, 2], None)"
    "chain_input sample_hash [0] 2 ?r' 0 = ([0], [1, 2], None)"
    "chain_input sample_hash [0] 2 ?r 1 = ([1, 1, 2, 0], [3, 4], None)"
    "chain_input sample_hash [0] 2 ?r' 1 = ([1, 1, 2, 0], [3, 4], None)"
    "chain_input sample_hash [0] 2 ?r' 2 = ([1, 3, 4, 1, 1, 2, 0], [9, 8], None)"
    by code_simp+
  have dom: "{..<2::nat} = {0, 1}" "{..<3::nat} = {0, 1, 2}" by auto
  have ins: "chain_inputs sample_hash [0] 2 ?r \<union> chain_inputs sample_hash [0] 2 ?r' =
      {([0], [1, 2], None), ([1, 1, 2, 0], [3, 4], None), ([1, 3, 4, 1, 1, 2, 0], [9, 8], None)}"
    unfolding chain_inputs_def nf dom image_insert image_empty inp by blast
  have inj: "inj_on sample_hash (chain_inputs sample_hash [0] 2 ?r \<union> chain_inputs sample_hash [0] 2 ?r')"
    unfolding ins by (simp add: sample_hash_def)
  have eq: "block_hashes ?r ! 1 = block_hashes ?r' ! 1" and l: "length (block_hashes ?r) = 2" "length (block_hashes ?r') = 3"
    by code_simp+
  from equal_block_hash_sound [OF h inj hashed_request_chain(2) hashed_request_chain(2), of 1 1] eq l
  show ?thesis by simp
qed

section \<open>Multi-modal inputs in a partly filled block\<close>

text \<open>
  The keys found from an index on depend on the inputs from there on, and are appended to those found before; the
  index never goes back.
\<close>

lemma mm_keys_loop_acc:
  "mm_keys_loop fs s e i keys = rbind (mm_keys_loop fs s e i []) (\<lambda>(ks, j). Inr (keys @ ks, j))"
proof (induction "length fs - i" arbitrary: i keys)
  case 0
  then show ?case by (simp add: mm_keys_loop.simps)
next
  case (Suc n)
  have step: "mm_keys_loop fs s e (Suc i) ks = rbind (mm_keys_loop fs s e (Suc i) []) (\<lambda>(ks', j). Inr (ks @ ks', j))" for ks
    using Suc by (intro Suc.hyps(1)) simp
  show ?case
    unfolding mm_keys_loop.simps [of fs s e i] step [of "keys @ _"] step [of keys] step [of "[] @ _"]
    by (simp add: Let_def rbind_def split: option.split sum.split)
qed

lemma mm_keys_loop_drop:
  assumes "length fs' = length fs" and "drop i fs' = drop i fs"
  shows "mm_keys_loop fs' s e i keys = mm_keys_loop fs s e i keys"
  using assms(2)
proof (induction "length fs - i" arbitrary: i keys)
  case 0
  then show ?case using assms(1) by (simp add: mm_keys_loop.simps)
next
  case (Suc n)
  then have i: "i < length fs" "fs' ! i = fs ! i" "drop (Suc i) fs' = drop (Suc i) fs"
    using assms(1) by (auto simp flip: Cons_nth_drop_Suc)
  have "mm_keys_loop fs' s e (Suc i) ks = mm_keys_loop fs s e (Suc i) ks" for ks
    using Suc i(3) by (intro Suc.hyps(1)) simp_all
  then show ?case using i assms(1) unfolding mm_keys_loop.simps [of fs' s e i] mm_keys_loop.simps [of fs s e i]
    by (simp add: Let_def split: option.split)
qed

lemma mm_keys_loop_index: "mm_keys_loop fs s e i keys = Inr (ks, j) \<Longrightarrow> int i \<le> j"
proof (induction "length fs - i" arbitrary: i keys)
  case 0
  then show ?case by (simp add: mm_keys_loop.simps)
next
  case (Suc n)
  have step: "int i \<le> j" if "mm_keys_loop fs s e (Suc i) ks' = Inr (ks, j)" for ks'
  proof -
    have "n = length fs - Suc i" using Suc.hyps(2) by simp
    then show ?thesis using Suc.hyps(1) [OF _ that] by simp
  qed
  show ?case using Suc.prems unfolding mm_keys_loop.simps [of fs s e i]
    by (auto simp: Let_def split: option.splits if_splits dest: step)
qed

lemma mm_keys_loop_total:
  assumes "\<forall>f\<in>set fs. mm_identifier f \<noteq> None"
  shows "\<exists>ks j. mm_keys_loop fs s e i keys = Inr (ks, j)"
proof (induction "length fs - i" arbitrary: i keys)
  case 0
  then show ?case by (simp add: mm_keys_loop.simps)
next
  case (Suc n)
  then have "fs ! i \<in> set fs" by simp
  then obtain h where "mm_identifier (fs ! i) = Some h" using assms by blast
  moreover have "\<exists>ks j. mm_keys_loop fs s e (Suc i) ks' = Inr (ks, j)" for ks'
    using Suc.hyps by (intro Suc.hyps(1)) simp
  ultimately show ?case unfolding mm_keys_loop.simps [of fs s e i] by (simp add: Let_def)
qed

text \<open>Inputs that end before the block does are passed over, whatever follows them.\<close>

lemma mm_keys_loop_passes:
  assumes "\<forall>x\<in>set xs. mm_identifier x \<noteq> None \<and> mm_offset x < e \<and> mm_offset x + mm_length x \<le> e"
  shows "i \<le> length xs \<Longrightarrow> \<exists>ks. \<forall>rest. mm_keys_loop (xs @ rest) s e i keys = mm_keys_loop (xs @ rest) s e (length xs) ks"
proof (induction "length xs - i" arbitrary: i keys)
  case 0
  then show ?case by auto
next
  case (Suc n)
  then have i: "i < length xs" by simp
  then obtain h where h: "mm_identifier (xs ! i) = Some h" "mm_offset (xs ! i) < e" "mm_offset (xs ! i) + mm_length (xs ! i) \<le> e"
    using assms by (meson nth_mem option.exhaust)
  have "\<exists>ks. \<forall>rest. mm_keys_loop (xs @ rest) s e (Suc i) ks' = mm_keys_loop (xs @ rest) s e (length xs) ks" for ks'
    using Suc.hyps i by (intro Suc.hyps(1)) simp_all
  then obtain k where k: "\<And>ks' rest. mm_keys_loop (xs @ rest) s e (Suc i) ks' = mm_keys_loop (xs @ rest) s e (length xs) (k ks')" by metis
  have "mm_keys_loop (xs @ rest) s e i keys =
      mm_keys_loop (xs @ rest) s e (Suc i) (if s > mm_offset (xs ! i) + mm_length (xs ! i) then keys else keys @ [KStr h])" for rest
    using i h unfolding mm_keys_loop.simps [of "xs @ rest" s e i] by (simp add: Let_def nth_append)
  then show ?case unfolding k by blast
qed

text \<open>A hasher that starts from the last input never sees the others.\<close>

lemma gen_mm_keys_last:
  assumes "mm_features r = pre @ [f]" and "length pre' = length pre" and "mm = -1 \<or> int (length pre) \<le> mm"
  shows "gen_mm_extra_hash_keys (r\<lparr>mm_features := pre' @ [f]\<rparr>) s e mm = gen_mm_extra_hash_keys r s e mm"
    and "gen_mm_extra_hash_keys r s e mm = Inr (ks, mm') \<Longrightarrow> mm' = -1 \<or> int (length pre) \<le> mm'"
proof -
  have eq: "mm_keys_loop (pre' @ [f]) s e i [] = mm_keys_loop (pre @ [f]) s e i []" if "length pre \<le> i" for i
    using that assms(2) by (intro mm_keys_loop_drop) simp_all
  show "gen_mm_extra_hash_keys (r\<lparr>mm_features := pre' @ [f]\<rparr>) s e mm = gen_mm_extra_hash_keys r s e mm"
    using assms eq [of "length pre"] eq [of "nat mm"] by (auto simp: gen_mm_extra_hash_keys_def mm_hashes_def Let_def)
  assume "gen_mm_extra_hash_keys r s e mm = Inr (ks, mm')"
  then show "mm' = -1 \<or> int (length pre) \<le> mm'"
    using assms(1,3) by (auto simp: gen_mm_extra_hash_keys_def mm_hashes_def Let_def split: if_splits dest!: mm_keys_loop_index)
qed

lemma hasher_loop_last:
  assumes pre: "mm_features r = pre @ [f]" "length pre' = length pre" and bs: "0 < bs"
    and mm: "mm = -1 \<or> int (length pre) \<le> mm"
  shows "hasher_loop hf nh bs (r\<lparr>mm_features := pre' @ [f]\<rparr>) st mm prev acc = hasher_loop hf nh bs r st mm prev acc"
  using mm
proof (induction "nat (num_tokens r - st)" arbitrary: st mm prev acc rule: less_induct)
  case less
  let ?r = "r\<lparr>mm_features := pre' @ [f]\<rparr>" and ?e = "st + bs"
  have n: "num_tokens ?r = num_tokens r" by (simp add: num_tokens_def)
  have g: "generate_block_hash_extra_keys ?r st ?e mm = generate_block_hash_extra_keys r st ?e mm"
    using gen_mm_keys_last(1) [OF pre less.prems] by (simp add: generate_block_hash_extra_keys_def gen_lora_extra_hash_keys_def)
  show ?case
  proof (cases "?e > num_tokens r")
    case True
    then show ?thesis by (simp add: hasher_loop.simps [of hf nh bs _ st] n Let_def)
  next
    case False
    have "hasher_loop hf nh bs ?r ?e (snd p) prev' acc' = hasher_loop hf nh bs r ?e (snd p) prev' acc'"
      if "generate_block_hash_extra_keys r st ?e mm = Inr p" for p prev' acc'
    proof (rule less.hyps)
      show "nat (num_tokens r - ?e) < nat (num_tokens r - st)" using False bs by simp
      show "snd p = -1 \<or> int (length pre) \<le> snd p"
        using that gen_mm_keys_last(2) [OF pre less.prems] by (fastforce simp: generate_block_hash_extra_keys_def Let_def split: if_splits)
    qed
    then show ?thesis using False g
      by (simp add: hasher_loop.simps [of hf nh bs _ st] n Let_def split: sum.split)
  qed
qed

lemma mm_keys_differ:
  assumes fs: "mm_features r = xs @ g # ys @ [f]" and ids: "\<forall>h\<in>set (mm_features r). mm_identifier h \<noteq> None"
    and b: "mm_identifier g \<noteq> Some b" and g: "s \<le> mm_offset g + mm_length g" "mm_offset g + mm_length g \<le> e" "0 < mm_length g"
    and f: "s \<le> mm_offset f + mm_length f" and xs: "\<forall>x\<in>set xs. mm_offset x < e \<and> mm_offset x + mm_length x \<le> e"
  shows "generate_block_hash_extra_keys r s e 0 \<noteq>
    generate_block_hash_extra_keys (r\<lparr>mm_features := xs @ g\<lparr>mm_identifier := Some b\<rparr> # ys @ [f]\<rparr>) s e 0"
proof -
  let ?g = "g\<lparr>mm_identifier := Some b\<rparr>" and ?t = "ys @ [f]"
  obtain a where a: "mm_identifier g = Some a" "a \<noteq> b" using ids fs b by auto
  obtain ks where ks: "\<And>rest. mm_keys_loop (xs @ rest) s e 0 [] = mm_keys_loop (xs @ rest) s e (length xs) ks"
    using mm_keys_loop_passes [of xs e 0 s "[]"] ids xs fs by auto
  have "mm_keys_loop (xs @ h # ?t) s e (length xs) ks = mm_keys_loop (xs @ h # ?t) s e (Suc (length xs)) (ks @ [KStr c])"
    if "mm_identifier h = Some c" "mm_offset h = mm_offset g" "mm_length h = mm_length g" for h c
    using that g unfolding mm_keys_loop.simps [of _ s e "length xs"] by (simp add: Let_def)
  then have "mm_keys_loop (xs @ h # ?t) s e 0 [] = rbind (mm_keys_loop (xs @ g # ?t) s e (Suc (length xs)) []) (\<lambda>(ks', j). Inr ((ks @ [KStr c]) @ ks', j))"
    if "mm_identifier h = Some c" "mm_offset h = mm_offset g" "mm_length h = mm_length g" for h c
    using that mm_keys_loop_drop [of "xs @ h # ?t" "xs @ g # ?t" "Suc (length xs)" s e "[]"] mm_keys_loop_acc [of "xs @ h # ?t" s e "Suc (length xs)" "ks @ [KStr c]"]
    unfolding ks by simp
  moreover obtain ks' j where "mm_keys_loop (xs @ g # ?t) s e (Suc (length xs)) [] = Inr (ks', j)"
    using mm_keys_loop_total ids fs by metis
  ultimately have "mm_keys_loop (xs @ g # ?t) s e 0 [] = Inr ((ks @ [KStr a]) @ ks', j)" "mm_keys_loop (xs @ ?g # ?t) s e 0 [] = Inr ((ks @ [KStr b]) @ ks', j)"
    using a(1) by simp_all
  then show ?thesis using fs f a(2)
    by (simp add: generate_block_hash_extra_keys_def gen_mm_extra_hash_keys_def mm_hashes_def gen_lora_extra_hash_keys_def Let_def not_less)
qed

text \<open>
  C20: blocks completed after the prompt are hashed with the last multi-modal input only. For every hash function and
  block size, and every request that has a hashed block already, the hashes of its further blocks do not change when
  any earlier multi-modal input is replaced by another of the same place and length; and yet wherever that input
  lies in a block, behind inputs that end in it or before, the keys of the block computed from the first input differ:
  two different blocks get the same hash, and a lookup can return the other request's block.
\<close>

theorem mm_block_hash_forgets_image:
  assumes "block_hashes r \<noteq> []" and "0 < bs" and "mm_features r = xs @ g # ys @ [f]"
    and "\<forall>h\<in>set (mm_features r). mm_identifier h \<noteq> None" and "mm_identifier g \<noteq> Some b"
    and "r' = r\<lparr>mm_features := xs @ g\<lparr>mm_identifier := Some b\<rparr> # ys @ [f]\<rparr>"
  shows "request_block_hasher hf nh bs r' = request_block_hasher hf nh bs r \<and>
    (\<forall>s e. s \<le> mm_offset g + mm_length g \<and> mm_offset g + mm_length g \<le> e \<and> 0 < mm_length g \<and> s \<le> mm_offset f + mm_length f \<and>
       (\<forall>x\<in>set xs. mm_offset x < e \<and> mm_offset x + mm_length x \<le> e) \<longrightarrow>
       generate_block_hash_extra_keys r s e 0 \<noteq> generate_block_hash_extra_keys r' s e 0)"
proof -
  have "hasher_loop hf nh bs (r\<lparr>mm_features := (xs @ g\<lparr>mm_identifier := Some b\<rparr> # ys) @ [f]\<rparr>) st (-1) prev [] = hasher_loop hf nh bs r st (-1) prev []" for st prev
    using assms(2,3) by (intro hasher_loop_last [where pre = "xs @ g # ys"]) simp_all
  moreover have "0 < int (length (block_hashes r)) * bs" using assms(1,2) by simp
  ultimately have "request_block_hasher hf nh bs r' = request_block_hasher hf nh bs r"
    using assms(6) by (simp add: request_block_hasher_def Let_def)
  then show ?thesis using mm_keys_differ [OF assms(3,4,5)] assms(6) by blast
qed

text \<open>A prompt of six tokens with two one-token images in its second block, which two generated tokens complete.\<close>

definition two_image_request :: "string \<Rightarrow> request" where
  "two_image_request img =
     (text_request ''mm'' [1, 2, 3, 4, 0, 0, 7, 8])\<lparr>block_hashes := [[9]], mm_features :=
        [\<lparr>mm_offset = 4, mm_length = 1, mm_identifier = Some img\<rparr>,
         \<lparr>mm_offset = 5, mm_length = 1, mm_identifier = Some ''B''\<rparr>]\<rparr>"

theorem mm_block_hash_forgets_image_witness:
  "request_block_hasher (\<lambda>(p, t, e). 1 # map word_of_int t) [0] 4 (two_image_request ''A'') =
     request_block_hasher (\<lambda>(p, t, e). 1 # map word_of_int t) [0] 4 (two_image_request ''C'') \<and>
   generate_block_hash_extra_keys (two_image_request ''A'') 4 8 0 \<noteq> generate_block_hash_extra_keys (two_image_request ''C'') 4 8 0"
  using mm_block_hash_forgets_image [of "two_image_request ''A''" 4 "[]" "\<lparr>mm_offset = 4, mm_length = 1, mm_identifier = Some ''A''\<rparr>" "[]"
      "\<lparr>mm_offset = 5, mm_length = 1, mm_identifier = Some ''B''\<rparr>" "''C''" "two_image_request ''C''" "\<lambda>(p, t, e). 1 # map word_of_int t" "[0]"]
  by (auto simp: two_image_request_def)

end
