(* ===== verification/Block_Pool.thy ===== *)
theory Block_Pool
  imports Free_Queue KV_Hash
begin

text \<open>
  \<^verbatim>\<open>BlockPool\<close> of \<^verbatim>\<open>vllm/v1/core/block_pool.py\<close>: all KV-cache blocks, the free list in eviction order,
  the map from hash keys to cached blocks, the null block and the event queue. The block objects
  live in the store of the free queue; \<^verbatim>\<open>dict\<close>s keep insertion order as association lists. The
  environment flag \<^verbatim>\<open>VLLM_KV_EVENTS_USE_INT_BLOCK_HASHES\<close> is a field.
\<close>

section \<open>State\<close>

datatype kv_event =
    BlockStored "ExternalBlockHash list" "ExternalBlockHash option" "int list" int string
  | BlockRemoved "ExternalBlockHash list" string
  | AllBlocksCleared

record block_pool =
  num_gpu_blocks :: int
  enable_caching :: bool
  free_block_queue :: free_queue
  cached_block_hash_to_block :: "bytes \<rightharpoonup> (int \<times> addr) list"
  null_block :: addr
  enable_kv_cache_events :: bool
  use_int_block_hashes :: bool
  kv_event_queue :: "kv_event list"

abbreviation pool_heap :: "block_pool \<Rightarrow> kv_heap" where
  "pool_heap p \<equiv> fq_heap (free_block_queue p)"

definition upd_block :: "addr \<Rightarrow> (kv_block \<Rightarrow> kv_block) \<Rightarrow> block_pool \<Rightarrow> block_pool" where
  "upd_block a f p = p\<lparr>free_block_queue := (free_block_queue p)\<lparr>
     fq_heap := (pool_heap p)(a := f (pool_heap p a))\<rparr>\<rparr>"

definition reset_hash :: "addr \<Rightarrow> block_pool \<Rightarrow> block_pool" where
  "reset_hash a = upd_block a (\<lambda>b. b\<lparr>block_hash := None\<rparr>)"

definition add_ref :: "int \<Rightarrow> addr \<Rightarrow> block_pool \<Rightarrow> block_pool" where
  "add_ref d a = upd_block a (\<lambda>b. b\<lparr>ref_cnt := ref_cnt b + d\<rparr>)"

text \<open>The setter of \<^verbatim>\<open>KVCacheBlock.block_hash\<close>.\<close>

definition set_block_hash :: "addr \<Rightarrow> bytes \<Rightarrow> block_pool \<Rightarrow> block_pool result" where
  "set_block_hash a k p =
     (if block_hash (pool_heap p a) = None
      then Inr (upd_block a (\<lambda>b. b\<lparr>block_hash := Some k\<rparr>) p) else Inl AssertionError)"

definition add_event :: "kv_event \<Rightarrow> block_pool \<Rightarrow> block_pool" where
  "add_event e p = p\<lparr>kv_event_queue := kv_event_queue p @ [e]\<rparr>"

section \<open>Operations\<close>

definition BlockPool :: "int \<Rightarrow> bool \<Rightarrow> bool \<Rightarrow> bool \<Rightarrow> block_pool result" where
  "BlockPool n caching kv_events use_int =
     (if \<not> n > 0 then Inl AssertionError
      else rbind (popleft (FreeKVCacheBlockQueue (map Blk [0..<nat n]) init_heap)) (\<lambda>(nb, q).
        Inr (upd_block nb (\<lambda>b. b\<lparr>is_null := True\<rparr>)
          \<lparr>num_gpu_blocks = n, enable_caching = caching, free_block_queue = q,
           cached_block_hash_to_block = Map.empty, null_block = nb,
           enable_kv_cache_events = kv_events, use_int_block_hashes = use_int,
           kv_event_queue = []\<rparr>)))"

fun get_cached_block :: "bytes \<Rightarrow> int list \<Rightarrow> block_pool \<Rightarrow> addr list option result" where
  "get_cached_block bh [] p = Inr (Some [])"
| "get_cached_block bh (gid # gids) p =
     rbind (make_block_hash_with_group_id bh gid) (\<lambda>k.
       case cached_block_hash_to_block p k of
         None \<Rightarrow> Inr None
       | Some [] \<Rightarrow> Inr None
       | Some ((_, first_block) # _) \<Rightarrow>
           rbind (get_cached_block bh gids p) (\<lambda>rest. Inr (map_option (Cons first_block) rest)))"

text \<open>One round of the loop of \<^verbatim>\<open>cache_full_blocks\<close>: the \<open>i\<close>-th new full block.\<close>

definition cache_one_block :: "int \<Rightarrow> bytes list \<Rightarrow> nat \<times> addr \<Rightarrow>
    ExternalBlockHash list \<times> block_pool \<Rightarrow> (ExternalBlockHash list \<times> block_pool) result" where
  "cache_one_block gid hashes ib s =
     (case (ib, s) of ((i, blk), (new_hashes, p)) \<Rightarrow>
        if block_hash (pool_heap p blk) \<noteq> None then Inl AssertionError
        else rbind (py_nth hashes (int i)) (\<lambda>bh.
          rbind (make_block_hash_with_group_id bh gid) (\<lambda>k.
            rbind (set_block_hash blk k p) (\<lambda>p.
              let m = cached_block_hash_to_block p;
                  d = (case m k of None \<Rightarrow> [] | Some d \<Rightarrow> d);
                  p = p\<lparr>cached_block_hash_to_block :=
                        m(k \<mapsto> AList.update (block_id (pool_heap p blk)) blk d)\<rparr>
              in Inr (if enable_kv_cache_events p
                      then new_hashes @ [maybe_convert_block_hash (use_int_block_hashes p) bh]
                      else new_hashes, p)))))"

text \<open>\<^verbatim>\<open>LoRARequest\<close> has no attribute \<^verbatim>\<open>id\<close>: building the event for a LoRA request raises.\<close>

definition cache_full_blocks ::
  "request \<Rightarrow> addr list \<Rightarrow> int \<Rightarrow> int \<Rightarrow> int \<Rightarrow> int \<Rightarrow> block_pool \<Rightarrow> block_pool result" where
  "cache_full_blocks r blocks num_cached num_full_blocks block_size gid p =
     (if num_cached = num_full_blocks then Inr p
      else
        let new_full_blocks = py_slice blocks num_cached num_full_blocks
        in if \<not> int (length (block_hashes r)) \<ge> num_full_blocks then Inl AssertionError
           else
             let new_block_hashes = py_slice (block_hashes r) num_cached (int (length (block_hashes r)))
             in rbind (rfold (cache_one_block gid new_block_hashes)
                     (zip [0..<length new_full_blocks] new_full_blocks) ([], p)) (\<lambda>(new_hashes, p).
                  if \<not> enable_kv_cache_events p then Inr p
                  else
                    rbind (if num_cached = 0 then Inr None
                           else rbind (py_nth blocks (num_cached - 1)) (\<lambda>parent.
                             case block_hash (pool_heap p parent) of
                               None \<Rightarrow> Inl AssertionError
                             | Some k \<Rightarrow> Inr (Some (maybe_convert_block_hash (use_int_block_hashes p)
                                   (get_block_hash k))))) (\<lambda>parent_hash.
                      if lora_request r \<noteq> None then Inl AttributeError
                      else Inr (add_event (BlockStored new_hashes parent_hash
                        (py_slice (all_token_ids r) (num_cached * block_size) (num_full_blocks * block_size))
                        block_size ''GPU'') p))))"

definition maybe_evict_cached_block :: "addr \<Rightarrow> block_pool \<Rightarrow> bool \<times> block_pool" where
  "maybe_evict_cached_block a p =
     (case block_hash (pool_heap p a) of
        None \<Rightarrow> (False, p)
      | Some k \<Rightarrow>
          (case cached_block_hash_to_block p k of
             None \<Rightarrow> (False, p)
           | Some blocks_by_id \<Rightarrow>
               let p1 = reset_hash a p;
                   d = AList.delete (block_id (pool_heap p a)) blocks_by_id;
                   p2 = p1\<lparr>cached_block_hash_to_block :=
                          (if d = [] then (cached_block_hash_to_block p1)(k := None)
                           else (cached_block_hash_to_block p1)(k \<mapsto> d))\<rparr>
               in (True,
                   if enable_kv_cache_events p
                   then add_event (BlockRemoved
                     [maybe_convert_block_hash (use_int_block_hashes p) (get_block_hash k)] ''GPU'') p2
                   else p2)))"

definition get_num_free_blocks :: "block_pool \<Rightarrow> int" where
  "get_num_free_blocks p = num_free_blocks (free_block_queue p)"

definition take_block :: "addr \<Rightarrow> block_pool \<Rightarrow> block_pool result" where
  "take_block a p =
     (let p = (if enable_caching p then snd (maybe_evict_cached_block a p) else p)
      in if ref_cnt (pool_heap p a) = 0 then Inr (add_ref 1 a p) else Inl AssertionError)"

definition get_new_blocks :: "int \<Rightarrow> block_pool \<Rightarrow> (addr list \<times> block_pool) result" where
  "get_new_blocks n p =
     (if n > get_num_free_blocks p then Inl ValueError
      else rbind (popleft_n n (free_block_queue p)) (\<lambda>(ret, q).
        rbind (rfold take_block ret (p\<lparr>free_block_queue := q\<rparr>)) (\<lambda>p. Inr (ret, p))))"

definition touch_block :: "addr \<Rightarrow> block_pool \<Rightarrow> block_pool result" where
  "touch_block a p =
     rbind (if ref_cnt (pool_heap p a) = 0 \<and> \<not> is_null (pool_heap p a)
            then rbind (remove a (free_block_queue p)) (\<lambda>q. Inr (p\<lparr>free_block_queue := q\<rparr>))
            else Inr p)
       (\<lambda>p. Inr (add_ref 1 a p))"

definition touch :: "addr list list \<Rightarrow> block_pool \<Rightarrow> block_pool result" where
  "touch blocks = rfold (rfold touch_block) blocks"

definition free_blocks :: "addr list \<Rightarrow> block_pool \<Rightarrow> block_pool result" where
  "free_blocks ordered_blocks p =
     (let p = fold (add_ref (-1)) ordered_blocks p
      in rbind (append_n (filter (\<lambda>a. ref_cnt (pool_heap p a) = 0 \<and> \<not> is_null (pool_heap p a))
                  ordered_blocks) (free_block_queue p))
           (\<lambda>q. Inr (p\<lparr>free_block_queue := q\<rparr>)))"

definition pool_reset_prefix_cache :: "block_pool \<Rightarrow> bool \<times> block_pool" where
  "pool_reset_prefix_cache p =
     (if num_gpu_blocks p - get_num_free_blocks p \<noteq> 1 then (False, p)
      else
        let p = p\<lparr>cached_block_hash_to_block := Map.empty\<rparr>;
            p = fold reset_hash (map Blk [0..<nat (num_gpu_blocks p)]) p
        in (True, if enable_kv_cache_events p then add_event AllBlocksCleared p else p))"

definition get_usage :: "block_pool \<Rightarrow> real" where
  "get_usage p =
     (let total = num_gpu_blocks p - 1
      in if total = 0 then 0 else 1 - of_int (get_num_free_blocks p) / of_int total)"

definition pool_take_events :: "block_pool \<Rightarrow> kv_event list \<times> block_pool" where
  "pool_take_events p =
     (if \<not> enable_kv_cache_events p then ([], p)
      else (kv_event_queue p, p\<lparr>kv_event_queue := []\<rparr>))"

section \<open>The pool's invariant\<close>

definition usable :: "block_pool \<Rightarrow> addr \<Rightarrow> bool" where
  "usable p a \<longleftrightarrow> (\<exists>i. a = Blk i \<and> 0 < i \<and> int i < num_gpu_blocks p)"

abbreviation ref_of :: "block_pool \<Rightarrow> addr \<Rightarrow> int" where
  "ref_of p a \<equiv> ref_cnt (pool_heap p a)"

abbreviation hash_of :: "block_pool \<Rightarrow> addr \<Rightarrow> bytes option" where
  "hash_of p a \<equiv> block_hash (pool_heap p a)"

text \<open>The cache map and the hashes stored in the blocks describe each other.\<close>

definition cache_ok :: "block_pool \<Rightarrow> bool" where
  "cache_ok p \<longleftrightarrow>
     (\<forall>k d. cached_block_hash_to_block p k = Some d \<longrightarrow>
        d \<noteq> [] \<and> distinct (map fst d) \<and>
        (\<forall>j a. (j, a) \<in> set d \<longrightarrow> usable p a \<and> block_id (pool_heap p a) = j \<and> hash_of p a = Some k)) \<and>
     (\<forall>a k. hash_of p a = Some k \<longrightarrow>
        (\<exists>d. cached_block_hash_to_block p k = Some d \<and> (block_id (pool_heap p a), a) \<in> set d))"

definition pool_frame :: "block_pool \<Rightarrow> bool" where
  "pool_frame p \<longleftrightarrow>
     0 < num_gpu_blocks p \<and> null_block p = Blk 0 \<and>
     (\<forall>i. block_id (pool_heap p (Blk i)) = int i \<and> (is_null (pool_heap p (Blk i)) \<longleftrightarrow> i = 0)) \<and>
     cache_ok p \<and> (\<not> enable_caching p \<longrightarrow> (\<forall>a. hash_of p a = None))"

text \<open>
  \<open>xs\<close> is the free list, \<open>L\<close> the blocks an operation under way has taken out of it, or not yet
  put back: a block has no users exactly when it is in one of them.
\<close>

definition refs_ok :: "(addr \<Rightarrow> bool) \<Rightarrow> (addr \<Rightarrow> int) \<Rightarrow> addr list \<Rightarrow> addr list \<Rightarrow> bool" where
  "refs_ok us ref xs L \<longleftrightarrow>
     distinct xs \<and> distinct L \<and> set xs \<inter> set L = {} \<and> (\<forall>a \<in> set xs \<union> set L. us a) \<and>
     (\<forall>a. us a \<longrightarrow> 0 \<le> ref a \<and> (ref a = 0 \<longleftrightarrow> a \<in> set xs \<union> set L))"

definition pool_mid :: "block_pool \<Rightarrow> addr list \<Rightarrow> addr list \<Rightarrow> bool" where
  "pool_mid p xs L \<longleftrightarrow>
     pool_frame p \<and> free_rel (free_block_queue p) xs \<and> refs_ok (usable p) (ref_of p) xs L"

definition pool_inv :: "block_pool \<Rightarrow> addr list \<Rightarrow> bool" where
  "pool_inv p xs \<longleftrightarrow> pool_mid p xs []"

subsection \<open>Updates\<close>

lemma upd_block_simps [simp]:
  "pool_heap (upd_block a f p) = (pool_heap p)(a := f (pool_heap p a))"
  "num_gpu_blocks (upd_block a f p) = num_gpu_blocks p"
  "enable_caching (upd_block a f p) = enable_caching p"
  "cached_block_hash_to_block (upd_block a f p) = cached_block_hash_to_block p"
  "null_block (upd_block a f p) = null_block p"
  "enable_kv_cache_events (upd_block a f p) = enable_kv_cache_events p"
  "use_int_block_hashes (upd_block a f p) = use_int_block_hashes p"
  "kv_event_queue (upd_block a f p) = kv_event_queue p"
  "num_free_blocks (free_block_queue (upd_block a f p)) = num_free_blocks (free_block_queue p)"
  by (simp_all add: upd_block_def)

lemma usable_simps [simp]:
  "usable (upd_block a f p) = usable p" "usable (add_event e p) = usable p"
  "usable (p\<lparr>free_block_queue := q\<rparr>) = usable p"
  "usable (p\<lparr>cached_block_hash_to_block := m\<rparr>) = usable p"
  "usable (p\<lparr>kv_event_queue := es\<rparr>) = usable p"
  by (auto simp: usable_def fun_eq_iff add_event_def)

lemma free_rel_upd_block:
  assumes "\<And>b. next_free_block (f b) = next_free_block b" "\<And>b. prev_free_block (f b) = prev_free_block b"
  shows "free_rel (free_block_queue (upd_block a f p)) xs = free_rel (free_block_queue p) xs"
  unfolding upd_block_def using assms by (simp add: free_rel_cong)

lemma meta_eqD:
  assumes "meta h' = meta h"
  shows "block_id (h' a) = block_id (h a)" "ref_cnt (h' a) = ref_cnt (h a)"
    "block_hash (h' a) = block_hash (h a)" "is_null (h' a) = is_null (h a)"
  using fun_cong [OF assms, of a] by (simp_all add: meta_def)

lemma pool_frame_queue:
  assumes "meta (fq_heap q) = meta (pool_heap p)"
  shows "pool_frame (p\<lparr>free_block_queue := q\<rparr>) = pool_frame p"
  by (simp add: pool_frame_def cache_ok_def meta_eqD [OF assms])

lemma pool_frame_add_event [simp]: "pool_frame (add_event e p) = pool_frame p"
  by (simp add: pool_frame_def cache_ok_def add_event_def)

lemma free_rel_add_ref [simp]:
  "free_rel (free_block_queue (add_ref d a p)) xs = free_rel (free_block_queue p) xs"
  by (simp add: add_ref_def free_rel_upd_block)

lemma add_ref_simps [simp]:
  "usable (add_ref d a p) = usable p"
  "ref_of (add_ref d a p) b = (if b = a then ref_of p a + d else ref_of p b)"
  "hash_of (add_ref d a p) b = hash_of p b"
  "is_null (pool_heap (add_ref d a p) b) = is_null (pool_heap p b)"
  "num_gpu_blocks (add_ref d a p) = num_gpu_blocks p"
  "enable_caching (add_ref d a p) = enable_caching p"
  "cached_block_hash_to_block (add_ref d a p) = cached_block_hash_to_block p"
  "null_block (add_ref d a p) = null_block p"
  "block_id (pool_heap (add_ref d a p) b) = block_id (pool_heap p b)"
  by (auto simp: add_ref_def fun_eq_iff)

lemma pool_frame_add_ref [simp]: "pool_frame (add_ref d a p) = pool_frame p"
  by (simp add: pool_frame_def cache_ok_def)

lemma not_usable_null: "\<not> usable p (Blk 0)"
  by (simp add: usable_def)

lemma pool_frameD:
  assumes "pool_frame p"
  shows "0 < num_gpu_blocks p" "null_block p = Blk 0" "cache_ok p"
    "block_id (pool_heap p (Blk i)) = int i" "is_null (pool_heap p (Blk i)) \<longleftrightarrow> i = 0"
    "\<not> enable_caching p \<Longrightarrow> hash_of p a = None"
  using assms unfolding pool_frame_def by blast+

lemma usable_not_null: "pool_frame p \<Longrightarrow> usable p a \<Longrightarrow> \<not> is_null (pool_heap p a)"
  unfolding usable_def using pool_frameD(5) by fastforce

lemma usable_block_id: "pool_frame p \<Longrightarrow> usable p a \<Longrightarrow> usable p b \<Longrightarrow>
    block_id (pool_heap p a) = block_id (pool_heap p b) \<Longrightarrow> a = b"
  unfolding usable_def using pool_frameD(4) by fastforce

subsection \<open>Reference counts\<close>

lemma mid_add_ref:
  assumes "pool_mid p xs L" and "refs_ok (usable p) ((ref_of p)(a := ref_of p a + d)) xs L'"
  shows "pool_mid (add_ref d a p) xs L'"
  using assms by (simp add: pool_mid_def fun_upd_def)

lemma mid_add_ref_unusable:
  assumes "pool_mid p xs L" and "\<not> usable p a"
  shows "pool_mid (add_ref d a p) xs L"
  by (rule mid_add_ref [OF assms(1)]) (use assms in \<open>auto simp: pool_mid_def refs_ok_def\<close>)

lemma mid_incr_used:
  assumes "pool_mid p xs L" and "ref_of p a \<noteq> 0"
  shows "pool_mid (add_ref 1 a p) xs L"
  by (rule mid_add_ref [OF assms(1)]) (use assms in \<open>auto simp: pool_mid_def refs_ok_def\<close>)

lemma mid_incr_limbo:
  assumes "pool_mid p xs (a # L)"
  shows "pool_mid (add_ref 1 a p) xs L"
  by (rule mid_add_ref [OF assms(1)]) (use assms in \<open>auto simp: pool_mid_def refs_ok_def\<close>)

lemma mid_decr:
  assumes "pool_mid p xs L" and "usable p a" and "0 < ref_of p a"
  shows "pool_mid (add_ref (-1) a p) xs (if ref_of p a = 1 then L @ [a] else L)"
  by (rule mid_add_ref [OF assms(1)]) (use assms in \<open>auto simp: pool_mid_def refs_ok_def\<close>)

subsection \<open>Moving blocks between the free list and its users\<close>

lemma mid_popleft_n:
  assumes "pool_inv p xs" and "n \<le> length xs"
  shows "\<exists>q. popleft_n (int n) (free_block_queue p) = Inr (take n xs, q) \<and>
    pool_mid (p\<lparr>free_block_queue := q\<rparr>) (drop n xs) (take n xs) \<and> meta (fq_heap q) = meta (pool_heap p)"
proof -
  from assms have fr: "free_rel (free_block_queue p) xs" by (simp add: pool_inv_def pool_mid_def)
  from fq.pop_n_ok [OF fr assms(2)] obtain q where
    q: "popleft_n (int n) (free_block_queue p) = Inr (take n xs, q)" "free_rel q (drop n xs)"
      "meta (fq_heap q) = meta (pool_heap p)" by blast
  have "refs_ok (usable p) (ref_of p) (drop n xs) (take n xs)"
  proof -
    have u: "set xs = set (take n xs) \<union> set (drop n xs)" by (metis append_take_drop_id set_append)
    have d: "distinct xs" using fq.rel_distinct [OF fr] .
    show ?thesis
      using assms(1) distinct_take_drop_disjoint [OF d, of n] d
      unfolding pool_inv_def pool_mid_def refs_ok_def u by auto
  qed
  with q assms(1) have "pool_mid (p\<lparr>free_block_queue := q\<rparr>) (drop n xs) (take n xs)"
    by (simp add: pool_inv_def pool_mid_def pool_frame_queue meta_eqD(2) [OF q(3)])
  with q show ?thesis by blast
qed

lemma mid_append_n:
  assumes "pool_mid p xs L"
  shows "\<exists>q. append_n L (free_block_queue p) = Inr q \<and> pool_inv (p\<lparr>free_block_queue := q\<rparr>) (xs @ L) \<and>
    meta (fq_heap q) = meta (pool_heap p)"
proof -
  from assms have fr: "free_rel (free_block_queue p) xs" and ro: "refs_ok (usable p) (ref_of p) xs L"
    by (simp_all add: pool_mid_def)
  from ro have "distinct L" "set L \<inter> set xs = {}" "list_all (\<lambda>a. a \<noteq> Head \<and> a \<noteq> Tail) L"
    by (auto simp: refs_ok_def list_all_iff usable_def)
  from fq.app_n_ok [OF fr this] obtain q where q: "append_n L (free_block_queue p) = Inr q"
    "free_rel q (xs @ L)" "meta (fq_heap q) = meta (pool_heap p)" by blast
  have "refs_ok (usable p) (ref_of p) (xs @ L) []" using ro unfolding refs_ok_def by auto
  with q assms have "pool_inv (p\<lparr>free_block_queue := q\<rparr>) (xs @ L)"
    by (simp add: pool_inv_def pool_mid_def pool_frame_queue meta_eqD(2) [OF q(3)])
  with q show ?thesis by blast
qed

lemma mid_remove:
  assumes "pool_inv p xs" and "a \<in> set xs"
  shows "\<exists>q. remove a (free_block_queue p) = Inr q \<and> pool_mid (p\<lparr>free_block_queue := q\<rparr>) (remove1 a xs) [a] \<and>
    meta (fq_heap q) = meta (pool_heap p)"
proof -
  from assms have fr: "free_rel (free_block_queue p) xs" and ro: "refs_ok (usable p) (ref_of p) xs []"
    by (simp_all add: pool_inv_def pool_mid_def)
  from fq.rem_ok [OF fr assms(2)] obtain q where q: "remove a (free_block_queue p) = Inr q"
    "free_rel q (remove1 a xs)" "meta (fq_heap q) = meta (pool_heap p)" by blast
  have "refs_ok (usable p) (ref_of p) (remove1 a xs) [a]"
    using ro assms(2) unfolding refs_ok_def by (auto simp: set_remove1_eq)
  with q assms(1) have "pool_mid (p\<lparr>free_block_queue := q\<rparr>) (remove1 a xs) [a]"
    by (simp add: pool_inv_def pool_mid_def pool_frame_queue meta_eqD(2) [OF q(3)])
  with q show ?thesis by blast
qed

subsection \<open>Eviction\<close>

lemma cache_ok_entry:
  assumes "cache_ok p" "cached_block_hash_to_block p k = Some d"
  shows "d \<noteq> []" "distinct (map fst d)"
    "(j, a) \<in> set d \<Longrightarrow> usable p a \<and> block_id (pool_heap p a) = j \<and> hash_of p a = Some k"
  using assms unfolding cache_ok_def by blast+

lemma cache_ok_hash:
  assumes "cache_ok p" "hash_of p a = Some k"
  obtains d where "cached_block_hash_to_block p k = Some d" "(block_id (pool_heap p a), a) \<in> set d"
  using assms unfolding cache_ok_def by blast

lemma set_AList_delete: "set (AList.delete k d) = {(j, a) \<in> set d. j \<noteq> k}"
  by (auto simp: AList.delete_eq)

lemma hash_None_update: "block_hash b = None \<Longrightarrow> b\<lparr>block_hash := None\<rparr> = b"
  by (cases b) simp

lemma evict_heap:
  assumes "cache_ok p"
  shows "pool_heap (snd (maybe_evict_cached_block a p)) = (pool_heap p)(a := (pool_heap p a)\<lparr>block_hash := None\<rparr>)"
proof (cases "hash_of p a")
  case None
  then show ?thesis by (simp add: maybe_evict_cached_block_def hash_None_update)
next
  case (Some k)
  with assms obtain d where "cached_block_hash_to_block p k = Some d" by (rule cache_ok_hash)
  with Some show ?thesis by (simp add: maybe_evict_cached_block_def Let_def reset_hash_def add_event_def)
qed

lemma evict_frame:
  assumes "pool_frame p"
  shows "pool_frame (snd (maybe_evict_cached_block a p))"
proof (cases "hash_of p a")
  case None
  with assms show ?thesis by (simp add: maybe_evict_cached_block_def)
next
  case (Some k)
  note fr = pool_frameD [OF assms]
  from cache_ok_hash [OF fr(3) Some] obtain d
    where d: "cached_block_hash_to_block p k = Some d" "(block_id (pool_heap p a), a) \<in> set d" .
  note ent = cache_ok_entry [OF fr(3) d(1)]
  define d' where "d' = AList.delete (block_id (pool_heap p a)) d"
  define m where "m = (cached_block_hash_to_block p)(k := if d' = [] then None else Some d')"
  let ?p = "(reset_hash a p)\<lparr>cached_block_hash_to_block := m\<rparr>"
  have ua: "usable p a" using ent(3) d(2) by blast
  have d'_set: "(j, b) \<in> set d' \<longleftrightarrow> (j, b) \<in> set d \<and> b \<noteq> a" for j b
    unfolding d'_def set_AList_delete using ent(3) usable_block_id [OF assms _ ua] by auto
  have h: "hash_of ?p b = (if b = a then None else hash_of p b)" "block_id (pool_heap ?p b) = block_id (pool_heap p b)"
    "is_null (pool_heap ?p b) = is_null (pool_heap p b)" for b
    by (simp_all add: reset_hash_def)
  have u: "usable ?p = usable p" by (simp add: reset_hash_def)
  have "cache_ok ?p"
    unfolding cache_ok_def h u
  proof (intro conjI allI impI)
    fix l e j b
    assume e: "cached_block_hash_to_block ?p l = Some e"
    then have cs: "l = k \<and> e = d' \<and> d' \<noteq> [] \<or> l \<noteq> k \<and> cached_block_hash_to_block p l = Some e"
      by (auto simp: m_def split: if_splits)
    show "e \<noteq> []" using cs cache_ok_entry(1) [OF fr(3)] by blast
    show "distinct (map fst e)"
      using cs cache_ok_entry(2) [OF fr(3)] ent(2) distinct_delete [of d] by (auto simp: d'_def)
    assume jb: "(j, b) \<in> set e"
    then have "usable p b \<and> block_id (pool_heap p b) = j \<and> hash_of p b = Some l \<and> b \<noteq> a"
      using cs cache_ok_entry(3) [OF fr(3)] d'_set ent(3) Some by fastforce
    then show "usable p b" "block_id (pool_heap p b) = j" "(if b = a then None else hash_of p b) = Some l" by auto
  next
    fix b l
    assume "(if b = a then None else hash_of p b) = Some l"
    then have b: "b \<noteq> a" "hash_of p b = Some l" by (auto split: if_splits)
    from cache_ok_hash [OF fr(3) b(2)] obtain e
      where e: "cached_block_hash_to_block p l = Some e" "(block_id (pool_heap p b), b) \<in> set e" .
    show "\<exists>e. cached_block_hash_to_block ?p l = Some e \<and> (block_id (pool_heap p b), b) \<in> set e"
    proof (cases "l = k")
      case True
      with e d(1) d'_set b(1) have "(block_id (pool_heap p b), b) \<in> set d'" by auto
      with True show ?thesis by (auto simp: m_def)
    next
      case False
      with e show ?thesis by (simp add: m_def)
    qed
  qed
  then have "pool_frame ?p"
    using assms unfolding pool_frame_def h by (simp add: reset_hash_def)
  moreover have "snd (maybe_evict_cached_block a p) = ?p \<or> (\<exists>e. snd (maybe_evict_cached_block a p) = add_event e ?p)"
    using Some d(1) by (auto simp: maybe_evict_cached_block_def Let_def d'_def m_def reset_hash_def)
  ultimately show ?thesis by (metis pool_frame_add_event)
qed

lemma evict_config [simp]:
  "num_gpu_blocks (snd (maybe_evict_cached_block a p)) = num_gpu_blocks p"
  "enable_caching (snd (maybe_evict_cached_block a p)) = enable_caching p"
  "null_block (snd (maybe_evict_cached_block a p)) = null_block p"
  "usable (snd (maybe_evict_cached_block a p)) = usable p"
  by (simp_all add: maybe_evict_cached_block_def Let_def add_event_def reset_hash_def usable_def fun_eq_iff
      split: option.splits)

lemma evict_free_rel:
  "free_rel (free_block_queue (snd (maybe_evict_cached_block a p))) xs = free_rel (free_block_queue p) xs"
  by (simp add: maybe_evict_cached_block_def Let_def add_event_def reset_hash_def free_rel_upd_block
      split: option.splits)

lemma evict_refs:
  "ref_of (snd (maybe_evict_cached_block a p)) = ref_of p"
  by (auto simp: fun_eq_iff maybe_evict_cached_block_def Let_def add_event_def reset_hash_def split: option.splits)

lemma evict_mid: "pool_mid p xs L \<Longrightarrow> pool_mid (snd (maybe_evict_cached_block a p)) xs L"
  by (simp add: pool_mid_def evict_frame evict_free_rel evict_refs)

section \<open>Allocation\<close>

lemma take_block_mid:
  assumes "pool_mid p xs (a # L)"
  shows "\<exists>p'. take_block a p = Inr p' \<and> pool_mid p' xs L \<and> (\<forall>b. ref_of p' b = (if b = a then 1 else ref_of p b)) \<and>
    (\<forall>b. hash_of p' b = (if b = a then None else hash_of p b)) \<and>
    num_gpu_blocks p' = num_gpu_blocks p \<and> enable_caching p' = enable_caching p"
proof -
  define p1 where "p1 = (if enable_caching p then snd (maybe_evict_cached_block a p) else p)"
  have fr: "pool_frame p" and a: "ref_of p a = 0"
    using assms by (auto simp: pool_mid_def refs_ok_def)
  have p1: "pool_mid p1 xs (a # L)" "ref_of p1 = ref_of p" "num_gpu_blocks p1 = num_gpu_blocks p"
    "enable_caching p1 = enable_caching p"
    using assms evict_mid [OF assms] by (simp_all add: p1_def evict_refs)
  have h: "hash_of p1 b = (if b = a then None else hash_of p b)" for b
    using evict_heap [OF pool_frameD(3) [OF fr], of a] pool_frameD(6) [OF fr] by (auto simp: p1_def)
  have "take_block a p = Inr (add_ref 1 a p1)"
    using a p1(2) by (simp add: take_block_def flip: p1_def) (metis)
  with mid_incr_limbo [OF p1(1)] p1 h a show ?thesis by (auto simp: fun_eq_iff)
qed

lemma take_blocks_mid:
  assumes "pool_mid p xs L"
  shows "\<exists>p'. rfold take_block L p = Inr p' \<and> pool_inv p' xs \<and>
    (\<forall>b. ref_of p' b = (if b \<in> set L then 1 else ref_of p b)) \<and>
    (\<forall>b. hash_of p' b = (if b \<in> set L then None else hash_of p b)) \<and>
    num_gpu_blocks p' = num_gpu_blocks p \<and> enable_caching p' = enable_caching p"
  using assms
proof (induction L arbitrary: p)
  case Nil
  then show ?case by (simp add: pool_inv_def)
next
  case (Cons a L)
  from take_block_mid [OF Cons.prems] obtain p1 where p1: "take_block a p = Inr p1" "pool_mid p1 xs L"
    "\<forall>b. ref_of p1 b = (if b = a then 1 else ref_of p b)" "\<forall>b. hash_of p1 b = (if b = a then None else hash_of p b)"
    "num_gpu_blocks p1 = num_gpu_blocks p" "enable_caching p1 = enable_caching p" by blast
  from Cons.IH [OF p1(2)] p1 show ?case by (auto simp: fun_eq_iff)
qed

lemma get_new_blocks_ok:
  assumes "pool_inv p xs" and "0 \<le> n" and "n \<le> int (length xs)"
  shows "\<exists>p'. get_new_blocks n p = Inr (take (nat n) xs, p') \<and> pool_inv p' (drop (nat n) xs) \<and>
    (\<forall>b. ref_of p' b = (if b \<in> set (take (nat n) xs) then 1 else ref_of p b)) \<and>
    (\<forall>b. hash_of p' b = (if b \<in> set (take (nat n) xs) then None else hash_of p b)) \<and>
    num_gpu_blocks p' = num_gpu_blocks p \<and> enable_caching p' = enable_caching p"
proof -
  have fr: "free_rel (free_block_queue p) xs" using assms by (simp add: pool_inv_def pool_mid_def)
  have le: "\<not> n > get_num_free_blocks p"
    using fq.rel_size [OF fr] assms(3) by (simp add: get_num_free_blocks_def)
  have n: "int (nat n) = n" "nat n \<le> length xs" using assms by auto
  from mid_popleft_n [OF assms(1) n(2)] obtain q where
    q: "popleft_n n (free_block_queue p) = Inr (take (nat n) xs, q)"
      "pool_mid (p\<lparr>free_block_queue := q\<rparr>) (drop (nat n) xs) (take (nat n) xs)"
      "meta (fq_heap q) = meta (pool_heap p)" unfolding n by blast
  from take_blocks_mid [OF q(2)] q(1) le show ?thesis
    by (auto simp: get_new_blocks_def meta_eqD [OF q(3)])
qed

lemma get_new_blocks_too_many:
  assumes "pool_inv p xs" and "int (length xs) < n"
  shows "get_new_blocks n p = Inl ValueError"
  using assms fq.rel_size [of "free_block_queue p" xs]
  by (simp add: get_new_blocks_def get_num_free_blocks_def pool_inv_def pool_mid_def)

section \<open>Touching and freeing\<close>

lemma touch_block_ok:
  assumes inv: "pool_inv p xs" and a: "usable p a \<or> a = Blk 0"
  shows "\<exists>p'. touch_block a p = Inr p' \<and> pool_inv p' (remove1 a xs) \<and>
    (\<forall>b. ref_of p' b = ref_of p b + (if b = a then 1 else 0)) \<and> (\<forall>b. hash_of p' b = hash_of p b) \<and>
    cached_block_hash_to_block p' = cached_block_hash_to_block p \<and>
    num_gpu_blocks p' = num_gpu_blocks p \<and> enable_caching p' = enable_caching p"
proof (cases "ref_of p a = 0 \<and> \<not> is_null (pool_heap p a)")
  case True
  have fr: "pool_frame p" using inv by (simp add: pool_inv_def pool_mid_def)
  with True a have "usable p a" using pool_frameD(5) [of p 0] by auto
  with True inv have "a \<in> set xs" by (auto simp: pool_inv_def pool_mid_def refs_ok_def)
  from mid_remove [OF inv this] obtain q where q: "remove a (free_block_queue p) = Inr q"
    "pool_mid (p\<lparr>free_block_queue := q\<rparr>) (remove1 a xs) [a]" "meta (fq_heap q) = meta (pool_heap p)" by blast
  from mid_incr_limbo [OF q(2)] True q(1) show ?thesis
    by (auto simp: touch_block_def pool_inv_def fun_eq_iff meta_eqD [OF q(3)])
next
  case False
  have fr: "pool_frame p" using inv by (simp add: pool_inv_def pool_mid_def)
  have "pool_mid (add_ref 1 a p) xs []"
  proof (cases "usable p a")
    case True
    then show ?thesis using False inv usable_not_null [OF fr] by (intro mid_incr_used) (auto simp: pool_inv_def)
  next
    case False
    then show ?thesis using inv by (intro mid_add_ref_unusable) (auto simp: pool_inv_def)
  qed
  moreover have "a \<notin> set xs"
    using False inv a usable_not_null [OF fr] not_usable_null
    by (auto simp: pool_inv_def pool_mid_def refs_ok_def)
  ultimately show ?thesis using False by (auto simp: touch_block_def pool_inv_def remove1_idem fun_eq_iff)
qed

lemma count_list_distinct_filter:
  "distinct (filter P bs) \<Longrightarrow> a \<in> set bs \<Longrightarrow> P a \<Longrightarrow> count_list bs a = 1"
proof (induction bs)
  case (Cons b bs)
  then show ?case by (cases "a \<in> set bs") (auto split: if_splits simp: count_list_0_iff)
qed simp

lemma rfold_rfold: "rfold (rfold f) xss s = rfold f (concat xss) s"
  by (induction xss arbitrary: s) (auto simp: rbind_def split: sum.splits)

lemma touch_blocks_ok:
  assumes "pool_inv p xs" and "\<forall>a\<in>set bs. usable p a \<or> a = Blk 0"
  shows "\<exists>p'. rfold touch_block bs p = Inr p' \<and> pool_inv p' (filter (\<lambda>a. a \<notin> set bs) xs) \<and>
    (\<forall>b. ref_of p' b = ref_of p b + int (count_list bs b)) \<and> (\<forall>b. hash_of p' b = hash_of p b) \<and>
    cached_block_hash_to_block p' = cached_block_hash_to_block p \<and>
    num_gpu_blocks p' = num_gpu_blocks p \<and> enable_caching p' = enable_caching p"
  using assms
proof (induction bs arbitrary: p xs)
  case Nil
  then show ?case by simp
next
  case (Cons a bs)
  have "usable p a \<or> a = Blk 0" using Cons.prems(2) by simp
  from touch_block_ok [OF Cons.prems(1) this] obtain p1 where p1: "touch_block a p = Inr p1"
    "pool_inv p1 (remove1 a xs)" "\<forall>b. ref_of p1 b = ref_of p b + (if b = a then 1 else 0)"
    "\<forall>b. hash_of p1 b = hash_of p b" "cached_block_hash_to_block p1 = cached_block_hash_to_block p"
    "num_gpu_blocks p1 = num_gpu_blocks p" "enable_caching p1 = enable_caching p" by blast
  have u: "usable p1 = usable p" using p1(6) by (simp add: usable_def fun_eq_iff)
  have d: "distinct xs" using Cons.prems(1) by (simp add: pool_inv_def pool_mid_def refs_ok_def)
  have "\<forall>a\<in>set bs. usable p1 a \<or> a = Blk 0" using Cons.prems(2) by (simp add: u)
  from Cons.IH [OF p1(2) this] p1 show ?case
    by (auto simp: filter_remove1_distinct [OF d] conj_commute)
qed

lemma touch_ok:
  assumes "pool_inv p xs" and "\<forall>a\<in>set (concat blocks). usable p a \<or> a = Blk 0"
  shows "\<exists>p'. touch blocks p = Inr p' \<and> pool_inv p' (filter (\<lambda>a. a \<notin> set (concat blocks)) xs) \<and>
    (\<forall>b. ref_of p' b = ref_of p b + int (count_list (concat blocks) b)) \<and> (\<forall>b. hash_of p' b = hash_of p b) \<and>
    cached_block_hash_to_block p' = cached_block_hash_to_block p \<and>
    num_gpu_blocks p' = num_gpu_blocks p \<and> enable_caching p' = enable_caching p"
  unfolding touch_def rfold_rfold using touch_blocks_ok [OF assms] .

lemma decr_refs_simps [simp]:
  "usable (fold (add_ref d) bs p) = usable p"
  "hash_of (fold (add_ref d) bs p) b = hash_of p b"
  "is_null (pool_heap (fold (add_ref d) bs p) b) = is_null (pool_heap p b)"
  "cached_block_hash_to_block (fold (add_ref d) bs p) = cached_block_hash_to_block p"
  "num_gpu_blocks (fold (add_ref d) bs p) = num_gpu_blocks p"
  "enable_caching (fold (add_ref d) bs p) = enable_caching p"
  by (induction bs arbitrary: p) simp_all

lemma decr_refs_ref: "ref_of (fold (add_ref (-1)) bs p) b = ref_of p b - int (count_list bs b)"
  by (induction bs arbitrary: p) auto

lemma decr_refs_mid:
  assumes "pool_mid p xs L" and "distinct (filter (usable p) bs)"
    and "\<forall>a\<in>set bs. usable p a \<longrightarrow> 0 < ref_of p a"
  shows "pool_mid (fold (add_ref (-1)) bs p) xs (L @ filter (\<lambda>a. usable p a \<and> ref_of p a = 1) bs)"
  using assms
proof (induction bs arbitrary: p L)
  case Nil
  then show ?case by simp
next
  case (Cons a bs)
  let ?p = "add_ref (-1) a p" and ?L = "if usable p a \<and> ref_of p a = 1 then L @ [a] else L"
  have mid: "pool_mid ?p xs ?L"
    using Cons.prems mid_decr [OF Cons.prems(1)] mid_add_ref_unusable [OF Cons.prems(1)]
    by (cases "usable p a") (auto split: if_splits)
  have ne: "b \<noteq> a" if "b \<in> set bs" "usable p b" for b
    using that Cons.prems(2) by (auto split: if_splits)
  have "filter (\<lambda>b. usable ?p b \<and> ref_of ?p b = 1) bs = filter (\<lambda>b. usable p b \<and> ref_of p b = 1) bs"
    using ne by (intro filter_cong) auto
  moreover have "pool_mid (fold (add_ref (-1)) bs ?p) xs (?L @ filter (\<lambda>b. usable ?p b \<and> ref_of ?p b = 1) bs)"
    using Cons.prems ne by (intro Cons.IH mid) (auto split: if_splits)
  ultimately show ?case by (auto split: if_splits)
qed

lemma free_blocks_ok:
  assumes inv: "pool_inv p xs" and el: "\<forall>a\<in>set bs. usable p a \<and> 0 < ref_of p a \<or> a = Blk 0"
    and d: "distinct (filter (usable p) bs)"
  shows "\<exists>p'. free_blocks bs p = Inr p' \<and> pool_inv p' (xs @ filter (\<lambda>a. usable p a \<and> ref_of p a = 1) bs) \<and>
    (\<forall>b. ref_of p' b = ref_of p b - int (count_list bs b)) \<and> (\<forall>b. hash_of p' b = hash_of p b) \<and>
    cached_block_hash_to_block p' = cached_block_hash_to_block p \<and>
    num_gpu_blocks p' = num_gpu_blocks p \<and> enable_caching p' = enable_caching p"
proof -
  let ?p = "fold (add_ref (-1)) bs p" and ?L = "filter (\<lambda>a. usable p a \<and> ref_of p a = 1) bs"
  have fr: "pool_frame p" using inv by (simp add: pool_inv_def pool_mid_def)
  have mid: "pool_mid ?p xs ([] @ ?L)"
    using inv d el not_usable_null by (intro decr_refs_mid) (auto simp: pool_inv_def)
  have "ref_of ?p a = 0 \<and> \<not> is_null (pool_heap ?p a) \<longleftrightarrow> usable p a \<and> ref_of p a = 1" if "a \<in> set bs" for a
  proof (cases "usable p a")
    case True
    have "count_list bs a = 1" using count_list_distinct_filter [OF d that True] .
    then show ?thesis using True usable_not_null [OF fr True] by (simp add: decr_refs_ref)
  next
    case False
    then have "a = Blk 0" using that el by auto
    then show ?thesis using False pool_frameD(5) [OF fr, of 0] by simp
  qed
  then have L: "filter (\<lambda>a. ref_of ?p a = 0 \<and> \<not> is_null (pool_heap ?p a)) bs = ?L"
    by (intro filter_cong) auto
  from mid_append_n [OF mid] obtain q where q: "append_n ?L (free_block_queue ?p) = Inr q"
    "pool_inv (?p\<lparr>free_block_queue := q\<rparr>) (xs @ ?L)" "meta (fq_heap q) = meta (pool_heap ?p)" by auto
  then have "free_blocks bs p = Inr (?p\<lparr>free_block_queue := q\<rparr>)"
    unfolding free_blocks_def Let_def L by simp
  with q(2) show ?thesis by (simp add: meta_eqD [OF q(3)] decr_refs_ref)
qed

section \<open>Caching full blocks\<close>

definition cache_entry :: "addr \<Rightarrow> bytes \<Rightarrow> block_pool \<Rightarrow> block_pool" where
  "cache_entry a k p =
     (upd_block a (\<lambda>b. b\<lparr>block_hash := Some k\<rparr>) p)\<lparr>cached_block_hash_to_block :=
        (cached_block_hash_to_block p)(k \<mapsto> AList.update (block_id (pool_heap p a)) a
           (case cached_block_hash_to_block p k of None \<Rightarrow> [] | Some d \<Rightarrow> d))\<rparr>"

lemma cache_entry_simps [simp]:
  "hash_of (cache_entry a k p) b = (if b = a then Some k else hash_of p b)"
  "ref_of (cache_entry a k p) b = ref_of p b"
  "block_id (pool_heap (cache_entry a k p) b) = block_id (pool_heap p b)"
  "is_null (pool_heap (cache_entry a k p) b) = is_null (pool_heap p b)"
  "usable (cache_entry a k p) = usable p"
  "num_gpu_blocks (cache_entry a k p) = num_gpu_blocks p"
  "enable_caching (cache_entry a k p) = enable_caching p"
  "null_block (cache_entry a k p) = null_block p"
  "enable_kv_cache_events (cache_entry a k p) = enable_kv_cache_events p"
  "free_rel (free_block_queue (cache_entry a k p)) xs = free_rel (free_block_queue p) xs"
  by (simp_all add: cache_entry_def free_rel_upd_block)

lemma set_AList_update:
  "distinct (map fst d) \<Longrightarrow> set (AList.update k a d) = {(j, b) \<in> set d. j \<noteq> k} \<union> {(k, a)}"
proof (induction d)
  case (Cons x d)
  then show ?case by (cases x) (auto, (force simp: image_iff)+)
qed simp

lemma cache_entry_frame:
  assumes fr: "pool_frame p" and a: "usable p a" and no: "hash_of p a = None" and c: "enable_caching p"
  shows "pool_frame (cache_entry a k p)"
proof -
  let ?p = "cache_entry a k p" and ?old = "case cached_block_hash_to_block p k of None \<Rightarrow> [] | Some d \<Rightarrow> d"
  note ok = pool_frameD(3) [OF fr]
  have old: "distinct (map fst ?old)" "(j, b) \<in> set ?old \<Longrightarrow>
      usable p b \<and> block_id (pool_heap p b) = j \<and> hash_of p b = Some k" for j b
    using cache_ok_entry [OF ok, of k] by (cases "cached_block_hash_to_block p k"; auto)+
  have oldb: "(block_id (pool_heap p b), b) \<in> set ?old" if "hash_of p b = Some k" for b
    by (rule cache_ok_hash [OF ok that]) simp
  define new where "new = AList.update (block_id (pool_heap p a)) a ?old"
  have m: "cached_block_hash_to_block ?p = (cached_block_hash_to_block p)(k \<mapsto> new)"
    by (simp add: cache_entry_def new_def)
  have nset: "(j, b) \<in> set new \<longleftrightarrow> (j, b) \<in> set ?old \<or> (j, b) = (block_id (pool_heap p a), a)" for j b
    unfolding new_def set_AList_update [OF old(1)]
    using old(2) usable_block_id [OF fr _ a] no by fastforce
  have "cache_ok ?p"
    unfolding cache_ok_def cache_entry_simps m
  proof (intro conjI allI impI)
    fix l e j b
    assume "((cached_block_hash_to_block p)(k \<mapsto> new)) l = Some e"
    then have cs: "l = k \<and> e = new \<or> l \<noteq> k \<and> cached_block_hash_to_block p l = Some e"
      by (auto split: if_splits)
    show "e \<noteq> []" using cs cache_ok_entry(1) [OF ok] nset [of _ a] by force
    show "distinct (map fst e)"
      using cs cache_ok_entry(2) [OF ok] distinct_update [OF old(1)] by (auto simp: new_def)
    assume jb: "(j, b) \<in> set e"
    then have *: "usable p b \<and> block_id (pool_heap p b) = j \<and> (if b = a then Some k else hash_of p b) = Some l"
      using cs cache_ok_entry(3) [OF ok] nset old(2) a no by fastforce
    show "usable p b" "block_id (pool_heap p b) = j" "(if b = a then Some k else hash_of p b) = Some l"
      using * by auto
  next
    fix b l
    assume b: "(if b = a then Some k else hash_of p b) = Some l"
    show "\<exists>e. ((cached_block_hash_to_block p)(k \<mapsto> new)) l = Some e \<and> (block_id (pool_heap p b), b) \<in> set e"
    proof (cases "l = k")
      case True
      with b oldb nset show ?thesis by (auto split: if_splits)
    next
      case False
      with b have "hash_of p b = Some l" by (auto split: if_splits)
      with ok obtain e where "cached_block_hash_to_block p l = Some e" "(block_id (pool_heap p b), b) \<in> set e"
        by (rule cache_ok_hash)
      with False show ?thesis by simp
    qed
  qed
  then show ?thesis using fr c unfolding pool_frame_def cache_entry_simps by blast
qed

lemma cache_one_block_entry:
  assumes "hash_of p a = None" and "i < length hs" and "make_block_hash_with_group_id (hs ! i) gid = Inr k"
  shows "\<exists>nh'. cache_one_block gid hs (i, a) (nh, p) = Inr (nh', cache_entry a k p)"
  using assms by (simp add: cache_one_block_def set_block_hash_def cache_entry_def Let_def)

lemma cache_loop_ok:
  assumes "pool_mid p xs L" and "enable_caching p" and "0 \<le> gid" "gid < 2 ^ 32"
    and "distinct bs" "\<forall>a\<in>set bs. usable p a \<and> hash_of p a = None" "j + length bs \<le> length hs"
  shows "\<exists>nh' p'. rfold (cache_one_block gid hs) (zip [j..<j + length bs] bs) (nh, p) = Inr (nh', p') \<and>
    pool_mid p' xs L \<and> (\<forall>b. ref_of p' b = ref_of p b) \<and>
    (\<forall>b. b \<notin> set bs \<longrightarrow> hash_of p' b = hash_of p b) \<and>
    (\<forall>i<length bs. hash_of p' (bs ! i) = Some (hs ! (j + i) @ be_digits 4 gid)) \<and>
    num_gpu_blocks p' = num_gpu_blocks p \<and> enable_caching p' = enable_caching p \<and>
    enable_kv_cache_events p' = enable_kv_cache_events p"
  using assms
proof (induction bs arbitrary: p nh j)
  case Nil
  then show ?case by simp
next
  case (Cons a bs)
  let ?k = "hs ! j @ be_digits 4 gid"
  let ?p = "cache_entry a ?k p"
  have "make_block_hash_with_group_id (hs ! j) gid = Inr ?k"
    using Cons.prems by (simp add: make_block_hash_with_group_id_ok)
  with Cons.prems obtain nh1 where one: "cache_one_block gid hs (j, a) (nh, p) = Inr (nh1, ?p)"
    using cache_one_block_entry [of p a j hs gid ?k nh] by auto
  have mid: "pool_mid ?p xs L"
    using Cons.prems cache_entry_frame [of p a ?k] by (simp add: pool_mid_def)
  have "\<exists>nh' p'. rfold (cache_one_block gid hs) (zip [Suc j..<Suc j + length bs] bs) (nh1, ?p) = Inr (nh', p') \<and>
    pool_mid p' xs L \<and> (\<forall>b. ref_of p' b = ref_of ?p b) \<and>
    (\<forall>b. b \<notin> set bs \<longrightarrow> hash_of p' b = hash_of ?p b) \<and>
    (\<forall>i<length bs. hash_of p' (bs ! i) = Some (hs ! (Suc j + i) @ be_digits 4 gid)) \<and>
    num_gpu_blocks p' = num_gpu_blocks ?p \<and> enable_caching p' = enable_caching ?p \<and>
    enable_kv_cache_events p' = enable_kv_cache_events ?p"
    using Cons.prems mid by (intro Cons.IH) auto
  then obtain nh' p' where IH: "rfold (cache_one_block gid hs) (zip [Suc j..<Suc j + length bs] bs) (nh1, ?p) = Inr (nh', p')"
    "pool_mid p' xs L" "\<forall>b. ref_of p' b = ref_of ?p b" "\<forall>b. b \<notin> set bs \<longrightarrow> hash_of p' b = hash_of ?p b"
    "\<forall>i<length bs. hash_of p' (bs ! i) = Some (hs ! (Suc j + i) @ be_digits 4 gid)"
    "num_gpu_blocks p' = num_gpu_blocks ?p" "enable_caching p' = enable_caching ?p"
    "enable_kv_cache_events p' = enable_kv_cache_events ?p" by blast
  have "hash_of p' ((a # bs) ! i) = Some (hs ! (j + i) @ be_digits 4 gid)" if "i < length (a # bs)" for i
    using that IH(4,5) Cons.prems(5) by (cases i) auto
  moreover have "zip [j..<j + length (a # bs)] (a # bs) = (j, a) # zip [Suc j..<Suc j + length bs] bs"
    by (subst upt_conv_Cons) simp_all
  ultimately show ?case using one IH by auto
qed

text \<open>What the single-type manager guarantees when it asks the pool to cache blocks.\<close>

definition cacheable :: "request \<Rightarrow> addr list \<Rightarrow> int \<Rightarrow> int \<Rightarrow> block_pool \<Rightarrow> bool" where
  "cacheable r blocks nc nf p \<longleftrightarrow>
     enable_caching p \<and> 0 \<le> nc \<and> nc \<le> nf \<and> nf \<le> int (length blocks) \<and> nf \<le> int (length (block_hashes r)) \<and>
     distinct (drop (nat nc) (take (nat nf) blocks)) \<and>
     (\<forall>a\<in>set (drop (nat nc) (take (nat nf) blocks)). usable p a \<and> hash_of p a = None) \<and>
     (enable_kv_cache_events p \<longrightarrow> lora_request r = None \<and>
        (nc = 0 \<or> (hash_of p (blocks ! nat (nc - 1)) \<noteq> None \<and>
                    blocks ! nat (nc - 1) \<notin> set (drop (nat nc) (take (nat nf) blocks)))))"

lemma add_event_simps [simp]:
  "free_block_queue (add_event e p) = free_block_queue p" "num_gpu_blocks (add_event e p) = num_gpu_blocks p"
  "enable_caching (add_event e p) = enable_caching p"
  by (simp_all add: add_event_def)

lemma pool_mid_add_event [simp]: "pool_mid (add_event e p) xs L = pool_mid p xs L"
  by (simp add: pool_mid_def)

lemma py_nth_ok: "0 \<le> i \<Longrightarrow> i < int (length xs) \<Longrightarrow> py_nth xs i = Inr (xs ! nat i)"
  by (simp add: py_nth_def)

lemma cache_full_blocks_ok:
  assumes inv: "pool_inv p xs" and c: "cacheable r blocks nc nf p" and g: "0 \<le> gid" "gid < 2 ^ 32"
  shows "\<exists>p'. cache_full_blocks r blocks nc nf bs gid p = Inr p' \<and> pool_inv p' xs \<and>
    (\<forall>b. ref_of p' b = ref_of p b) \<and>
    (\<forall>b. b \<notin> set (drop (nat nc) (take (nat nf) blocks)) \<longrightarrow> hash_of p' b = hash_of p b) \<and>
    (\<forall>i. nat nc \<le> i \<and> i < nat nf \<longrightarrow> hash_of p' (blocks ! i) = Some (block_hashes r ! i @ be_digits 4 gid)) \<and>
    num_gpu_blocks p' = num_gpu_blocks p \<and> enable_caching p' = enable_caching p"
proof (cases "nc = nf")
  case True
  with inv show ?thesis by (simp add: cache_full_blocks_def) linarith
next
  case False
  let ?new = "drop (nat nc) (take (nat nf) blocks)" and ?hs = "drop (nat nc) (block_hashes r)"
  have b: "0 \<le> nc" "nc \<le> nf" "nf \<le> int (length blocks)" "nf \<le> int (length (block_hashes r))"
    and cch: "enable_caching p" and dn: "distinct ?new" and el: "\<forall>a\<in>set ?new. usable p a \<and> hash_of p a = None"
    and ev: "enable_kv_cache_events p \<Longrightarrow> lora_request r = None \<and>
      (nc = 0 \<or> hash_of p (blocks ! nat (nc - 1)) \<noteq> None \<and> blocks ! nat (nc - 1) \<notin> set ?new)"
    using c unfolding cacheable_def by blast+
  have sl: "py_slice blocks nc nf = ?new"
    "py_slice (block_hashes r) nc (int (length (block_hashes r))) = ?hs"
    using b by (simp_all add: py_slice_nonneg)
  have len: "length ?new = nat nf - nat nc" "0 + length ?new \<le> length ?hs" using b by auto
  have "\<exists>nh' p'. rfold (cache_one_block gid ?hs) (zip [0..<0 + length ?new] ?new) ([], p) = Inr (nh', p') \<and>
    pool_mid p' xs [] \<and> (\<forall>b. ref_of p' b = ref_of p b) \<and>
    (\<forall>b. b \<notin> set ?new \<longrightarrow> hash_of p' b = hash_of p b) \<and>
    (\<forall>i<length ?new. hash_of p' (?new ! i) = Some (?hs ! (0 + i) @ be_digits 4 gid)) \<and>
    num_gpu_blocks p' = num_gpu_blocks p \<and> enable_caching p' = enable_caching p \<and>
    enable_kv_cache_events p' = enable_kv_cache_events p"
    using inv by (intro cache_loop_ok [OF _ cch g dn el len(2)]) (simp add: pool_inv_def)
  then obtain nh' p' where loop: "rfold (cache_one_block gid ?hs) (zip [0..<length ?new] ?new) ([], p) = Inr (nh', p')"
    and p': "pool_mid p' xs []" "\<forall>b. ref_of p' b = ref_of p b" "\<forall>b. b \<notin> set ?new \<longrightarrow> hash_of p' b = hash_of p b"
    "\<forall>i<length ?new. hash_of p' (?new ! i) = Some (?hs ! i @ be_digits 4 gid)"
    "num_gpu_blocks p' = num_gpu_blocks p" "enable_caching p' = enable_caching p"
    "enable_kv_cache_events p' = enable_kv_cache_events p" unfolding add_0 by blast
  have key: "hash_of p' (blocks ! i) = Some (block_hashes r ! i @ be_digits 4 gid)"
    if "nat nc \<le> i" "i < nat nf" for i
  proof -
    have "i - nat nc < length ?new" unfolding len(1) using that by arith
    with p'(4) have "hash_of p' (?new ! (i - nat nc)) = Some (?hs ! (i - nat nc) @ be_digits 4 gid)" by blast
    moreover have "?new ! (i - nat nc) = blocks ! i" "?hs ! (i - nat nc) = block_hashes r ! i"
      using that b by (auto simp: nth_drop)
    ultimately show ?thesis by simp
  qed
  have par: "nc = 0 \<or> (\<exists>k. hash_of p' (blocks ! nat (nc - 1)) = Some k \<and> py_nth blocks (nc - 1) = Inr (blocks ! nat (nc - 1)))"
    if "enable_kv_cache_events p'"
  proof (cases "nc = 0")
    case nc: False
    then have "py_nth blocks (nc - 1) = Inr (blocks ! nat (nc - 1))" using b False by (intro py_nth_ok) auto
    moreover have "hash_of p' (blocks ! nat (nc - 1)) \<noteq> None" using that ev p'(3,7) nc by simp
    ultimately show ?thesis by blast
  qed simp
  have lim: "int (length (block_hashes r)) \<ge> nf" using b by simp
  have "\<exists>p''. cache_full_blocks r blocks nc nf bs gid p = Inr p'' \<and> (p'' = p' \<or> (\<exists>e. p'' = add_event e p'))"
  proof (cases "enable_kv_cache_events p'")
    case off: False
    with False lim loop show ?thesis by (simp add: cache_full_blocks_def Let_def sl)
  next
    case True
    have "\<exists>ph. (if nc = 0 then Inr None
        else rbind (py_nth blocks (nc - 1)) (\<lambda>parent. case hash_of p' parent of
            None \<Rightarrow> Inl AssertionError
          | Some k \<Rightarrow> Inr (Some (maybe_convert_block_hash (use_int_block_hashes p') (get_block_hash k))))) = Inr ph"
      using par [OF True] by (cases "nc = 0") auto
    then obtain ph where ph: "(if nc = 0 then Inr None
        else rbind (py_nth blocks (nc - 1)) (\<lambda>parent. case hash_of p' parent of
            None \<Rightarrow> Inl AssertionError
          | Some k \<Rightarrow> Inr (Some (maybe_convert_block_hash (use_int_block_hashes p') (get_block_hash k))))) = Inr ph" ..
    have "lora_request r = None" using ev True p'(7) by simp
    then have "cache_full_blocks r blocks nc nf bs gid p =
        Inr (add_event (BlockStored nh' ph (py_slice (all_token_ids r) (nc * bs) (nf * bs)) bs ''GPU'') p')"
      unfolding cache_full_blocks_def Let_def sl loop using False lim True by (simp add: ph)
    then show ?thesis by blast
  qed
  then obtain p'' where run: "cache_full_blocks r blocks nc nf bs gid p = Inr p''"
    and p'': "p'' = p' \<or> (\<exists>e. p'' = add_event e p')" by blast
  have same: "pool_heap p'' = pool_heap p'" "num_gpu_blocks p'' = num_gpu_blocks p'"
    "enable_caching p'' = enable_caching p'" "pool_inv p'' xs"
    using p'' p'(1) unfolding pool_inv_def by auto
  have 1: "\<forall>b. ref_of p'' b = ref_of p b" unfolding same(1) by (rule p'(2))
  have 2: "\<forall>b. b \<notin> set ?new \<longrightarrow> hash_of p'' b = hash_of p b" unfolding same(1) by (rule p'(3))
  have 3: "\<forall>i. nat nc \<le> i \<and> i < nat nf \<longrightarrow> hash_of p'' (blocks ! i) = Some (block_hashes r ! i @ be_digits 4 gid)"
    unfolding same(1) using key by blast
  have 4: "num_gpu_blocks p'' = num_gpu_blocks p" "enable_caching p'' = enable_caching p"
    using same(2,3) p'(5,6) by simp_all
  show ?thesis by (rule exI [of _ p'']) (intro conjI run same(4) 1 2 3 4)
qed

text \<open>Lookup returns one cached block per group with exactly the requested hash, and misses only if there is none.\<close>

lemma get_cached_block_sound:
  assumes "cache_ok p" and "get_cached_block bh gids p = Inr (Some as)"
  shows "list_all2 (\<lambda>g a. usable p a \<and> hash_of p a = Some (bh @ be_digits 4 g)) gids as"
  using assms(2)
proof (induction gids arbitrary: as)
  case Nil
  then show ?case by simp
next
  case (Cons g gids)
  from Cons.prems obtain k where k: "make_block_hash_with_group_id bh g = Inr k"
    unfolding get_cached_block.simps rbind_eq_Inr by blast
  obtain j a d where d: "cached_block_hash_to_block p k = Some ((j, a) # d)"
  proof (cases "cached_block_hash_to_block p k")
    case None
    with Cons.prems k show ?thesis by simp
  next
    case (Some l)
    with Cons.prems k that show ?thesis by (cases l) auto
  qed
  from Cons.prems k d obtain as' where as': "get_cached_block bh gids p = Inr (Some as')" "as = a # as'" by auto
  have "usable p a \<and> hash_of p a = Some k" using cache_ok_entry(3) [OF assms(1) d, of j a] by simp
  moreover have "k = bh @ be_digits 4 g" using k by (simp add: make_block_hash_with_group_id_ok)
  ultimately show ?case using Cons.IH [OF as'(1)] as'(2) by simp
qed

lemma get_cached_block_total:
  assumes "\<forall>g\<in>set gids. 0 \<le> g \<and> g < 2 ^ 32"
  shows "\<exists>res. get_cached_block bh gids p = Inr res"
  using assms
proof (induction gids)
  case (Cons g gids)
  then have "make_block_hash_with_group_id bh g = Inr (bh @ be_digits 4 g)"
    by (simp add: make_block_hash_with_group_id_ok)
  with Cons show ?case by (auto split: option.splits list.splits)
qed simp

lemma get_cached_block_complete:
  assumes ok: "cache_ok p" and "get_cached_block bh gids p = Inr None"
  shows "\<exists>g\<in>set gids. \<forall>a. hash_of p a \<noteq> Some (bh @ be_digits 4 g)"
  using assms(2)
proof (induction gids)
  case Nil
  then show ?case by simp
next
  case (Cons g gids)
  from Cons.prems obtain k where k: "make_block_hash_with_group_id bh g = Inr k"
    unfolding get_cached_block.simps rbind_eq_Inr by blast
  then have kk: "k = bh @ be_digits 4 g" by (simp add: make_block_hash_with_group_id_ok)
  show ?case
  proof (cases "\<exists>a. hash_of p a = Some k")
    case True
    then obtain a where a: "hash_of p a = Some k" by blast
    from ok a obtain d where d: "cached_block_hash_to_block p k = Some d" "(block_id (pool_heap p a), a) \<in> set d"
      by (rule cache_ok_hash)
    then obtain x d' where "d = x # d'" by (cases d) auto
    with d k Cons.prems have "get_cached_block bh gids p = Inr None" by (cases x) auto
    with Cons.IH show ?thesis by auto
  qed (use kk in auto)
qed

section \<open>Construction and reset\<close>

lemma BlockPool_inv:
  assumes "0 < n"
  shows "\<exists>p. BlockPool n caching ev ui = Inr p \<and> pool_inv p (map Blk [1..<nat n]) \<and>
    num_gpu_blocks p = n \<and> enable_caching p = caching \<and> (\<forall>a. ref_of p a = 0 \<and> hash_of p a = None)"
proof -
  let ?q0 = "FreeKVCacheBlockQueue (map Blk [0..<nat n]) init_heap"
  have "map Blk [0..<nat n] = Blk 0 # map Blk [1..<nat n]" using assms by (simp add: upt_conv_Cons)
  with FreeKVCacheBlockQueue_refines [of "nat n"] have "free_rel ?q0 (Blk 0 # map Blk [1..<nat n])" by simp
  from popleft_refines [OF this] obtain q where q: "popleft ?q0 = Inr (Blk 0, q)"
    "free_rel q (map Blk [1..<nat n])" "meta (fq_heap q) = meta (fq_heap ?q0)" by blast
  have m: "block_id (fq_heap q (Blk i)) = int i" "ref_cnt (fq_heap q a) = 0"
    "block_hash (fq_heap q a) = None" "\<not> is_null (fq_heap q (Blk i))" for i a
    using fun_cong [OF q(3), of "Blk i"] meta_FreeKVCacheBlockQueue [of "map Blk [0..<nat n]" init_heap i]
      fun_cong [OF q(3), of a] meta_new_FreeKVCacheBlockQueue [of "map Blk [0..<nat n]" a]
    by (auto simp: meta_def init_heap_def new_block_def)
  define p where "p = upd_block (Blk 0) (\<lambda>b. b\<lparr>is_null := True\<rparr>)
      \<lparr>num_gpu_blocks = n, enable_caching = caching, free_block_queue = q,
       cached_block_hash_to_block = Map.empty, null_block = Blk 0, enable_kv_cache_events = ev,
       use_int_block_hashes = ui, kv_event_queue = []\<rparr>"
  have h: "hash_of p a = None" "ref_of p a = 0" "block_id (pool_heap p (Blk i)) = int i"
    "is_null (pool_heap p (Blk i)) \<longleftrightarrow> i = 0" for a i
    using m by (simp_all add: p_def)
  have "pool_frame p"
    unfolding pool_frame_def cache_ok_def h using assms by (simp add: p_def)
  moreover have "free_rel (free_block_queue p) (map Blk [1..<nat n])"
    using q(2) by (simp add: p_def free_rel_upd_block)
  moreover have "refs_ok (usable p) (ref_of p) (map Blk [1..<nat n]) []"
    unfolding refs_ok_def h by (auto simp: usable_def p_def distinct_map inj_on_def image_iff Suc_le_eq)
  ultimately have "pool_inv p (map Blk [1..<nat n])" by (simp add: pool_inv_def pool_mid_def)
  moreover have "BlockPool n caching ev ui = Inr p" using assms q(1) by (simp add: BlockPool_def p_def)
  ultimately show ?thesis using h by (simp add: p_def)
qed

lemma usable_card: "card {a. usable p a} = nat (num_gpu_blocks p - 1)"
proof -
  have "{a. usable p a} = Blk ` {1..<nat (num_gpu_blocks p)}"
    by (auto simp: usable_def image_iff)
  moreover have "card (Blk ` {1..<nat (num_gpu_blocks p)}) = nat (num_gpu_blocks p) - 1"
    by (subst card_image) (auto simp: inj_on_def)
  ultimately show ?thesis by simp
qed

lemma usable_finite: "finite {a. usable p a}"
proof (rule finite_subset)
  show "{a. usable p a} \<subseteq> Blk ` {..<nat (num_gpu_blocks p)}" by (auto simp: usable_def)
qed simp

text \<open>Every block but the null block is either free or in use.\<close>

lemma free_plus_used:
  assumes "pool_inv p xs"
  shows "num_gpu_blocks p - 1 = get_num_free_blocks p + int (card {a. usable p a \<and> 0 < ref_of p a})"
proof -
  have ro: "refs_ok (usable p) (ref_of p) xs []" and fr: "free_rel (free_block_queue p) xs" and pf: "pool_frame p"
    using assms by (simp_all add: pool_inv_def pool_mid_def)
  have "{a. usable p a} = set xs \<union> {a. usable p a \<and> 0 < ref_of p a}"
    using ro unfolding refs_ok_def by (auto simp: order_le_less)
  moreover have "set xs \<inter> {a. usable p a \<and> 0 < ref_of p a} = {}"
    using ro unfolding refs_ok_def by force
  ultimately have "card {a. usable p a} = card (set xs) + card {a. usable p a \<and> 0 < ref_of p a}"
    by (metis card_Un_disjoint finite_Un usable_finite)
  moreover have "card (set xs) = length xs" using fq.rel_distinct [OF fr] by (rule distinct_card)
  ultimately show ?thesis
    using usable_card [of p] fq.rel_size [OF fr] pool_frameD(1) [OF pf] by (simp add: get_num_free_blocks_def)
qed

lemma reset_hashes:
  "pool_heap (fold reset_hash as p) a = (if a \<in> set as then (pool_heap p a)\<lparr>block_hash := None\<rparr> else pool_heap p a)"
  by (induction as arbitrary: p) (auto simp: reset_hash_def)

lemma reset_hashes_config [simp]:
  "num_gpu_blocks (fold reset_hash as p) = num_gpu_blocks p" "enable_caching (fold reset_hash as p) = enable_caching p"
  "cached_block_hash_to_block (fold reset_hash as p) = cached_block_hash_to_block p"
  "null_block (fold reset_hash as p) = null_block p" "usable (fold reset_hash as p) = usable p"
  "free_rel (free_block_queue (fold reset_hash as p)) xs = free_rel (free_block_queue p) xs"
  "enable_kv_cache_events (fold reset_hash as p) = enable_kv_cache_events p"
  by (induction as arbitrary: p) (simp_all add: reset_hash_def free_rel_upd_block)

lemma reset_inv:
  assumes inv: "pool_inv p xs" and res: "pool_reset_prefix_cache p = (b, p')"
  shows "pool_inv p' xs" "num_gpu_blocks p' = num_gpu_blocks p" "enable_caching p' = enable_caching p"
    "b \<longleftrightarrow> (\<forall>a. usable p a \<longrightarrow> ref_of p a = 0)"
    "b \<Longrightarrow> cached_block_hash_to_block p' = Map.empty \<and> (\<forall>a. hash_of p' a = None)"
proof -
  have pf: "pool_frame p" and fr: "free_rel (free_block_queue p) xs" and ro: "refs_ok (usable p) (ref_of p) xs []"
    using inv by (simp_all add: pool_inv_def pool_mid_def)
  have "num_gpu_blocks p - get_num_free_blocks p = 1 \<longleftrightarrow> {a. usable p a \<and> 0 < ref_of p a} = {}"
  proof -
    have "finite {a. usable p a \<and> 0 < ref_of p a}" by (rule finite_subset [OF _ usable_finite]) auto
    then have "card {a. usable p a \<and> 0 < ref_of p a} = 0 \<longleftrightarrow> {a. usable p a \<and> 0 < ref_of p a} = {}"
      by (rule card_0_eq)
    then show ?thesis using free_plus_used [OF inv] by linarith
  qed
  also have "\<dots> \<longleftrightarrow> (\<forall>a. usable p a \<longrightarrow> ref_of p a = 0)" using ro unfolding refs_ok_def by force
  finally have cond: "num_gpu_blocks p - get_num_free_blocks p = 1 \<longleftrightarrow> (\<forall>a. usable p a \<longrightarrow> ref_of p a = 0)" .
  define p1 where "p1 = fold reset_hash (map Blk [0..<nat (num_gpu_blocks p)]) (p\<lparr>cached_block_hash_to_block := Map.empty\<rparr>)"
  have out: "hash_of p a = None" if "a \<notin> set (map Blk [0..<nat (num_gpu_blocks p)])" for a
  proof (rule ccontr)
    assume "hash_of p a \<noteq> None"
    then obtain k where "hash_of p a = Some k" by blast
    with pool_frameD(3) [OF pf] obtain d where "cached_block_hash_to_block p k = Some d" "(block_id (pool_heap p a), a) \<in> set d"
      by (rule cache_ok_hash)
    then have "usable p a" using cache_ok_entry(3) [OF pool_frameD(3) [OF pf]] by blast
    with that show False by (auto simp: usable_def image_iff)
  qed
  have h: "hash_of p1 a = None" "ref_of p1 a = ref_of p a" "block_id (pool_heap p1 a) = block_id (pool_heap p a)"
    "is_null (pool_heap p1 a) = is_null (pool_heap p a)" for a
    using out [of a] by (simp_all add: p1_def reset_hashes)
  have u: "usable p1 = usable p" by (simp add: p1_def)
  have "pool_frame p1"
    unfolding pool_frame_def cache_ok_def h using pool_frameD(1,2,4,5) [OF pf] by (simp add: p1_def)
  moreover have "free_rel (free_block_queue p1) xs" using fr by (simp add: p1_def)
  ultimately have "pool_inv p1 xs" using ro by (simp add: pool_inv_def pool_mid_def h u)
  moreover have "p' = (if num_gpu_blocks p - get_num_free_blocks p = 1
      then if enable_kv_cache_events p1 then add_event AllBlocksCleared p1 else p1 else p)"
    and b: "b \<longleftrightarrow> num_gpu_blocks p - get_num_free_blocks p = 1"
    using res by (auto simp: pool_reset_prefix_cache_def Let_def p1_def split: if_splits)
  ultimately show "pool_inv p' xs" "num_gpu_blocks p' = num_gpu_blocks p" "enable_caching p' = enable_caching p"
    "b \<longleftrightarrow> (\<forall>a. usable p a \<longrightarrow> ref_of p a = 0)"
    "b \<Longrightarrow> cached_block_hash_to_block p' = Map.empty \<and> (\<forall>a. hash_of p' a = None)"
    using inv cond h(1) unfolding pool_inv_def by (auto simp: p1_def) (auto simp: add_event_def)
qed

section \<open>Reachable pools\<close>

text \<open>
  The pool under any sequence of calls that respects its contract: blocks are touched or freed by
  their users only, and cached when they are full and not yet cached.
\<close>

definition freeable :: "addr list \<Rightarrow> block_pool \<Rightarrow> bool" where
  "freeable bs p \<longleftrightarrow>
     (\<forall>a\<in>set bs. usable p a \<and> 0 < ref_of p a \<or> a = null_block p) \<and> distinct (filter (usable p) bs)"

inductive pool_reach :: "int \<Rightarrow> bool \<Rightarrow> block_pool \<Rightarrow> bool" for n caching where
  reach_init: "BlockPool n caching ev ui = Inr p \<Longrightarrow> pool_reach n caching p"
| reach_get: "pool_reach n caching p \<Longrightarrow> 0 \<le> k \<Longrightarrow> get_new_blocks k p = Inr (bs, p') \<Longrightarrow> pool_reach n caching p'"
| reach_touch: "pool_reach n caching p \<Longrightarrow> \<forall>a\<in>set (concat blocks). usable p a \<or> a = null_block p \<Longrightarrow>
    touch blocks p = Inr p' \<Longrightarrow> pool_reach n caching p'"
| reach_free: "pool_reach n caching p \<Longrightarrow> freeable bs p \<Longrightarrow> free_blocks bs p = Inr p' \<Longrightarrow> pool_reach n caching p'"
| reach_cache: "pool_reach n caching p \<Longrightarrow> cacheable r blocks nc nf p \<Longrightarrow> 0 \<le> gid \<Longrightarrow> gid < 2 ^ 32 \<Longrightarrow>
    cache_full_blocks r blocks nc nf bsz gid p = Inr p' \<Longrightarrow> pool_reach n caching p'"
| reach_reset: "pool_reach n caching p \<Longrightarrow> pool_reset_prefix_cache p = (b, p') \<Longrightarrow> pool_reach n caching p'"
| reach_events: "pool_reach n caching p \<Longrightarrow> pool_take_events p = (es, p') \<Longrightarrow> pool_reach n caching p'"

inductive_cases pool_reachE: "pool_reach n caching p"

lemma pool_reach_inv:
  assumes "pool_reach n caching p"
  shows "\<exists>xs. pool_inv p xs \<and> num_gpu_blocks p = n \<and> enable_caching p = caching"
  using assms
proof (induction rule: pool_reach.induct)
  case (reach_init ev ui p)
  then have "0 < n" by (simp add: BlockPool_def split: if_splits)
  from BlockPool_inv [OF this, of caching ev ui] reach_init show ?case by auto
next
  case (reach_get p k bs p')
  then obtain xs where xs: "pool_inv p xs" "num_gpu_blocks p = n" "enable_caching p = caching" by blast
  have "k \<le> int (length xs)" using get_new_blocks_too_many [OF xs(1), of k] reach_get(3) by force
  from get_new_blocks_ok [OF xs(1) reach_get(2) this] reach_get(3) xs show ?case by auto
next
  case (reach_touch p blocks p')
  then obtain xs where xs: "pool_inv p xs" "num_gpu_blocks p = n" "enable_caching p = caching" by blast
  then have "null_block p = Blk 0" by (simp add: pool_inv_def pool_mid_def pool_frameD)
  with touch_ok [OF xs(1), of blocks] reach_touch(2,3) xs show ?case by auto
next
  case (reach_free p bs p')
  then obtain xs where xs: "pool_inv p xs" "num_gpu_blocks p = n" "enable_caching p = caching" by blast
  then have "null_block p = Blk 0" by (simp add: pool_inv_def pool_mid_def pool_frameD)
  with free_blocks_ok [OF xs(1), of bs] reach_free(2,3) xs show ?case by (auto simp: freeable_def)
next
  case (reach_cache p r blocks nc nf gid bsz p')
  then obtain xs where xs: "pool_inv p xs" "num_gpu_blocks p = n" "enable_caching p = caching" by blast
  from cache_full_blocks_ok [OF xs(1) reach_cache(2-4), of bsz] reach_cache(5) xs show ?case by auto
next
  case (reach_reset p b p')
  then show ?case using reset_inv by metis
next
  case (reach_events p es p')
  have "pool_inv (p\<lparr>kv_event_queue := []\<rparr>) xs = pool_inv p xs" for xs
    by (simp add: pool_inv_def pool_mid_def pool_frame_def cache_ok_def)
  with reach_events show ?case by (auto simp: pool_take_events_def split: if_splits)
qed

section \<open>Properties\<close>

lemma reach_parts:
  assumes "pool_inv p xs"
  shows "free_rel (free_block_queue p) xs" "cache_ok p" "refs_ok (usable p) (ref_of p) xs []"
    "get_num_free_blocks p = int (length xs)" "get_all_free_blocks (free_block_queue p) = Some (Inr xs)"
    "pool_frame p"
  using assms by (auto simp: pool_inv_def pool_mid_def pool_frameD get_num_free_blocks_def
      dest: free_rel_size get_all_free_blocks_refines)

text \<open>
  C8: the pool's invariant. In every pool reached by contract-respecting calls, walking the free
  list terminates and returns exactly the blocks nobody references, reference counts are never
  negative, the hash map and the hashes stored in blocks describe each other, free and used blocks
  add up to the pool size less the null block, and the reported usage lies between 0 and 1.
\<close>

theorem pool_invariant:
  assumes "pool_reach n caching p"
  shows "\<exists>xs. get_all_free_blocks (free_block_queue p) = Some (Inr xs) \<and> distinct xs \<and>
    (\<forall>a. usable p a \<longrightarrow> 0 \<le> ref_of p a \<and> (a \<in> set xs \<longleftrightarrow> ref_of p a = 0)) \<and> cache_ok p \<and>
    n - 1 = get_num_free_blocks p + int (card {a. usable p a \<and> 0 < ref_of p a}) \<and>
    0 \<le> get_usage p \<and> get_usage p \<le> 1"
proof -
  from pool_reach_inv [OF assms] obtain xs where xs: "pool_inv p xs" "num_gpu_blocks p = n" by blast
  note rp = reach_parts [OF xs(1)]
  have fpu: "n - 1 = get_num_free_blocks p + int (card {a. usable p a \<and> 0 < ref_of p a})"
    using free_plus_used [OF xs(1)] xs(2) by simp
  have "0 \<le> get_usage p \<and> get_usage p \<le> 1"
  proof (cases "n = 1")
    case False
    have "0 < n" using pool_frameD(1) [OF rp(6)] xs(2) by simp
    then have "of_int (get_num_free_blocks p) / real_of_int (n - 1) \<le> 1"
      using False fpu by (subst divide_le_eq_1_pos) auto
    moreover have "0 \<le> of_int (get_num_free_blocks p) / real_of_int (n - 1)"
      using rp(4) \<open>0 < n\<close> by simp
    ultimately show ?thesis using False xs(2) by (simp add: get_usage_def Let_def)
  qed (simp add: get_usage_def xs(2))
  moreover have "distinct xs" "\<forall>a. usable p a \<longrightarrow> 0 \<le> ref_of p a \<and> (a \<in> set xs \<longleftrightarrow> ref_of p a = 0)"
    using rp(3) by (auto simp: refs_ok_def)
  ultimately show ?thesis using rp(2,5) fpu by blast
qed

theorem pool_invariant_witness:
  "\<exists>p. BlockPool 4 True False False = Inr p \<and> cache_ok p \<and>
     4 - 1 = get_num_free_blocks p + int (card {a. usable p a \<and> 0 < ref_of p a})"
proof -
  from BlockPool_inv [of 4 True False False] obtain p where p: "BlockPool 4 True False False = Inr p" by auto
  from pool_invariant [OF reach_init [OF p]] p show ?thesis by blast
qed

text \<open>
  C12: allocation hands out the least recently freed blocks. Asking a reachable pool for \<open>k\<close> blocks
  raises \<^verbatim>\<open>ValueError\<close> exactly when fewer are free; otherwise it returns the first \<open>k\<close> of the free
  list, each with one user and no hash, evicted from the cache map, and changes no other block.
\<close>

theorem get_new_blocks_lru:
  assumes "pool_reach n caching p" and "get_all_free_blocks (free_block_queue p) = Some (Inr xs)" and "0 \<le> k"
  shows "if int (length xs) < k then get_new_blocks k p = Inl ValueError
    else \<exists>p'. get_new_blocks k p = Inr (take (nat k) xs, p') \<and>
      get_all_free_blocks (free_block_queue p') = Some (Inr (drop (nat k) xs)) \<and> cache_ok p' \<and>
      (\<forall>b. ref_of p' b = (if b \<in> set (take (nat k) xs) then 1 else ref_of p b)) \<and>
      (\<forall>b. hash_of p' b = (if b \<in> set (take (nat k) xs) then None else hash_of p b))"
proof -
  from pool_reach_inv [OF assms(1)] obtain ys where ys: "pool_inv p ys" by blast
  with reach_parts(5) assms(2) have "xs = ys" by fastforce
  with ys have inv: "pool_inv p xs" by simp
  show ?thesis
  proof (cases "int (length xs) < k")
    case True
    then show ?thesis using get_new_blocks_too_many [OF inv True] by simp
  next
    case False
    then obtain p' where "get_new_blocks k p = Inr (take (nat k) xs, p')" "pool_inv p' (drop (nat k) xs)"
      "\<forall>b. ref_of p' b = (if b \<in> set (take (nat k) xs) then 1 else ref_of p b)"
      "\<forall>b. hash_of p' b = (if b \<in> set (take (nat k) xs) then None else hash_of p b)"
      using get_new_blocks_ok [OF inv assms(3)] by auto
    with False reach_parts(2,5) [of p' "drop (nat k) xs"] show ?thesis by auto
  qed
qed

theorem get_new_blocks_lru_witness:
  "\<exists>p p'. BlockPool 4 True False False = Inr p \<and> get_new_blocks 2 p = Inr ([Blk 1, Blk 2], p') \<and>
     get_all_free_blocks (free_block_queue p') = Some (Inr [Blk 3]) \<and> get_new_blocks 4 p = Inl ValueError"
proof -
  from BlockPool_inv [of 4 True False False] obtain p where p: "BlockPool 4 True False False = Inr p"
    "pool_inv p [Blk 1, Blk 2, Blk 3]" by (auto simp: upt_conv_Cons numeral_2_eq_2 numeral_3_eq_3)
  note fl = reach_parts(5) [OF p(2)]
  show ?thesis
    using get_new_blocks_lru [OF reach_init [OF p(1)] fl, of 2] get_new_blocks_lru [OF reach_init [OF p(1)] fl, of 4] p(1)
    by auto
qed

text \<open>
  A lookup is exact. For valid group ids, looking up a hash in a reachable pool never raises;
  it returns one block per group whose stored key is the hash with that group's id, and it misses
  exactly when some group has no such block anywhere in the pool.
\<close>

lemma get_cached_block_exact:
  assumes "pool_reach n caching p" and "\<forall>g\<in>set gids. 0 \<le> g \<and> g < 2 ^ 32"
  shows "\<exists>res. get_cached_block bh gids p = Inr res \<and>
    (case res of
       Some as \<Rightarrow> list_all2 (\<lambda>g a. usable p a \<and> hash_of p a = Some (bh @ be_digits 4 g)) gids as
     | None \<Rightarrow> \<exists>g\<in>set gids. \<forall>a. hash_of p a \<noteq> Some (bh @ be_digits 4 g))"
proof -
  from pool_reach_inv [OF assms(1)] obtain xs where "pool_inv p xs" by blast
  then have "cache_ok p" by (rule reach_parts)
  then show ?thesis
    using get_cached_block_total [OF assms(2), of bh p] get_cached_block_sound [of p bh gids]
      get_cached_block_complete [of p bh gids] by (auto split: option.split)
qed

lemma get_cached_block_exact_witness:
  "\<exists>p. BlockPool 4 True False False = Inr p \<and> get_cached_block [1] [0, 1] p = Inr None"
proof -
  from BlockPool_inv [of 4 True False False] obtain p where p: "BlockPool 4 True False False = Inr p"
    "\<forall>a. hash_of p a = None" by auto
  from get_cached_block_exact [OF reach_init [OF p(1)], of "[0, 1]" "[1]"] obtain res where
    res: "get_cached_block [1] [0, 1] p = Inr res" "case res of
       Some as \<Rightarrow> list_all2 (\<lambda>g a. usable p a \<and> hash_of p a = Some ([1] @ be_digits 4 g)) [0, 1] as
     | None \<Rightarrow> \<exists>g\<in>set [0, 1]. \<forall>a. hash_of p a \<noteq> Some ([1] @ be_digits 4 g)" by auto
  then have "res = None" using p(2) by (cases res) (auto simp: list_all2_Cons1)
  with res(1) p(1) show ?thesis by blast
qed

text \<open>
  C17: what is cached is found. Caching the full blocks of a request in a reachable pool succeeds,
  and afterwards a lookup of the hash of each of these blocks hits a block with that hash.
\<close>

theorem cache_then_lookup:
  assumes "pool_reach n caching p" and "cacheable r blocks nc nf p" and "0 \<le> gid" "gid < 2 ^ 32"
  shows "\<exists>p'. cache_full_blocks r blocks nc nf bsz gid p = Inr p' \<and>
    (\<forall>i. nat nc \<le> i \<and> i < nat nf \<longrightarrow>
      (\<exists>a. get_cached_block (block_hashes r ! i) [gid] p' = Inr (Some [a]) \<and>
         hash_of p' a = Some (block_hashes r ! i @ be_digits 4 gid)))"
proof -
  from pool_reach_inv [OF assms(1)] obtain xs where "pool_inv p xs" by blast
  from cache_full_blocks_ok [OF this assms(2-4), of bsz] obtain p'
    where p': "cache_full_blocks r blocks nc nf bsz gid p = Inr p'" "pool_inv p' xs"
      "\<forall>i. nat nc \<le> i \<and> i < nat nf \<longrightarrow> hash_of p' (blocks ! i) = Some (block_hashes r ! i @ be_digits 4 gid)"
    by blast
  note ok = reach_parts(2) [OF p'(2)]
  have "\<exists>a. get_cached_block (block_hashes r ! i) [gid] p' = Inr (Some [a]) \<and>
      hash_of p' a = Some (block_hashes r ! i @ be_digits 4 gid)" if "nat nc \<le> i" "i < nat nf" for i
  proof -
    let ?bh = "block_hashes r ! i"
    obtain res where res: "get_cached_block ?bh [gid] p' = Inr res"
      using get_cached_block_total [of "[gid]" ?bh p'] assms(3,4) by auto
    moreover have "hash_of p' (blocks ! i) = Some (?bh @ be_digits 4 gid)" using p'(3) that by blast
    then have "res \<noteq> None" using get_cached_block_complete [OF ok, of ?bh "[gid]"] res by fastforce
    ultimately obtain as where as: "get_cached_block ?bh [gid] p' = Inr (Some as)" by auto
    from get_cached_block_sound [OF ok as] as show ?thesis by (auto simp: list_all2_Cons1)
  qed
  with p'(1) show ?thesis by blast
qed

theorem cache_then_lookup_witness:
  "\<exists>p0 p p' a. BlockPool 3 True False False = Inr p0 \<and> get_new_blocks 1 p0 = Inr ([Blk 1], p) \<and>
     cache_full_blocks ((text_request ''a'' [5, 6])\<lparr>block_hashes := [[9]]\<rparr>) [Blk 1] 0 1 2 0 p = Inr p' \<and>
     get_cached_block [9] [0] p' = Inr (Some [a])"
proof -
  from BlockPool_inv [of 3 True False False] obtain p0 where p0: "BlockPool 3 True False False = Inr p0"
    "pool_inv p0 [Blk 1, Blk 2]" "num_gpu_blocks p0 = 3" "enable_caching p0" "\<forall>a. hash_of p0 a = None"
    "\<not> enable_kv_cache_events p0"
    by (auto simp: upt_conv_Cons numeral_2_eq_2 BlockPool_def split: sum.splits)
  from get_new_blocks_ok [OF p0(2), of 1] obtain p where p: "get_new_blocks 1 p0 = Inr ([Blk 1], p)"
    "\<forall>b. hash_of p b = None" "num_gpu_blocks p = 3" "enable_caching p"
    using p0 by auto
  let ?r = "(text_request ''a'' [5, 6])\<lparr>block_hashes := [[9]]\<rparr>"
  have "cacheable ?r [Blk 1] 0 1 p"
    using p by (simp add: cacheable_def usable_def text_request_def)
  from cache_then_lookup [OF reach_get [OF reach_init [OF p0(1)] _ p(1)] this, of 0 2] show ?thesis
    using p0(1) p(1) by fastforce
qed

text \<open>No operation of the pool changes whether events are recorded.\<close>

lemma maybe_evict_events [simp]: "enable_kv_cache_events (snd (maybe_evict_cached_block a p)) = enable_kv_cache_events p"
  by (simp add: maybe_evict_cached_block_def add_event_def reset_hash_def Let_def split: option.split)

lemma add_ref_events [simp]: "enable_kv_cache_events (add_ref n a p) = enable_kv_cache_events p"
  by (simp add: add_ref_def)

lemma touch_events: "touch hits p = Inr p' \<Longrightarrow> enable_kv_cache_events p' = enable_kv_cache_events p"
  unfolding touch_def
  by (erule rfold_invariant [where P = "\<lambda>q. enable_kv_cache_events q = enable_kv_cache_events p"], simp,
      erule rfold_invariant [where P = "\<lambda>q. enable_kv_cache_events q = enable_kv_cache_events p"])
    (auto simp: touch_block_def split: if_splits)

lemma free_blocks_events: "free_blocks bs p = Inr p' \<Longrightarrow> enable_kv_cache_events p' = enable_kv_cache_events p"
proof -
  have "enable_kv_cache_events (fold (add_ref n) bs p) = enable_kv_cache_events p" for n
    by (induction bs arbitrary: p) simp_all
  then show "free_blocks bs p = Inr p' \<Longrightarrow> ?thesis" by (auto simp: free_blocks_def Let_def)
qed

lemma get_new_blocks_events: "get_new_blocks n p = Inr (bs, p') \<Longrightarrow> enable_kv_cache_events p' = enable_kv_cache_events p"
proof -
  assume "get_new_blocks n p = Inr (bs, p')"
  then obtain q where "rfold take_block bs (p\<lparr>free_block_queue := q\<rparr>) = Inr p'" by (auto simp: get_new_blocks_def split: if_splits)
  then show ?thesis
    by (rule rfold_invariant [where P = "\<lambda>q. enable_kv_cache_events q = enable_kv_cache_events p"])
      (auto simp: take_block_def Let_def split: if_splits)
qed

lemma cache_full_blocks_events:
  assumes "cache_full_blocks r blocks nc nf bsz gid p = Inr p'"
  shows "enable_kv_cache_events p' = enable_kv_cache_events p"
proof (cases "nc = nf")
  case False
  with assms obtain nh p1 where loop: "rfold (cache_one_block gid (py_slice (block_hashes r) nc (int (length (block_hashes r)))))
      (zip [0..<length (py_slice blocks nc nf)] (py_slice blocks nc nf)) ([], p) = Inr (nh, p1)"
    and out: "enable_kv_cache_events p' = enable_kv_cache_events p1"
    by (auto simp: cache_full_blocks_def Let_def add_event_def split: if_splits option.splits)
  have "enable_kv_cache_events (snd (nh, p1)) = enable_kv_cache_events p"
    by (rule rfold_invariant [OF loop, where P = "\<lambda>s. enable_kv_cache_events (snd s) = enable_kv_cache_events p"])
      (auto simp: cache_one_block_def set_block_hash_def Let_def split: if_splits)
  with out show ?thesis by simp
qed (use assms in \<open>simp add: cache_full_blocks_def\<close>)

lemma reset_prefix_cache_events:
  "pool_reset_prefix_cache p = (b, p') \<Longrightarrow> enable_kv_cache_events p' = enable_kv_cache_events p"
  by (auto simp: pool_reset_prefix_cache_def Let_def add_event_def split: if_splits)

text \<open>
  With KV events enabled no LoRA request can cache a block: the event reads an attribute the
  LoRA request class does not have, so caching new full blocks always raises.
\<close>

lemma lora_request_cannot_be_cached:
  assumes "enable_kv_cache_events p" and "lora_request r \<noteq> None" and "nc \<noteq> nf"
  shows "\<exists>e. cache_full_blocks r blocks nc nf bsz gid p = Inl e"
proof (cases "cache_full_blocks r blocks nc nf bsz gid p")
  case (Inr p2)
  then obtain nh p1 where loop: "rfold (cache_one_block gid (py_slice (block_hashes r) nc (int (length (block_hashes r)))))
      (zip [0..<length (py_slice blocks nc nf)] (py_slice blocks nc nf)) ([], p) = Inr (nh, p1)"
    and out: "enable_kv_cache_events p1 \<Longrightarrow> False"
    using assms(2,3) by (auto simp: cache_full_blocks_def Let_def split: if_splits)
  have "enable_kv_cache_events (snd (nh, p1))"
    by (rule rfold_invariant [OF loop, where P = "\<lambda>s. enable_kv_cache_events (snd s)"])
      (use assms(1) in \<open>auto simp: cache_one_block_def set_block_hash_def Let_def split: if_splits\<close>)
  with out show ?thesis by simp
qed simp

lemma lora_request_cannot_be_cached_witness:
  "\<exists>p e. BlockPool 3 True True False = Inr p \<and>
     cache_full_blocks ((text_request ''a'' [5, 6])\<lparr>block_hashes := [[9]], lora_request := Some 1\<rparr>) [Blk 1] 0 1 2 0 p = Inl e"
proof -
  from BlockPool_inv [of 3 True True False] obtain p where p: "BlockPool 3 True True False = Inr p" by auto
  then have "enable_kv_cache_events p" by (auto simp: BlockPool_def)
  from lora_request_cannot_be_cached [OF this, of "(text_request ''a'' [5, 6])\<lparr>block_hashes := [[9]], lora_request := Some 1\<rparr>" 0 1 "[Blk 1]" 2 0] p
  show ?thesis by auto
qed

end
