(* ===== verification/KV_Spec.thy ===== *)
theory KV_Spec
  imports Mars_Prelude
begin

text \<open>
  KV cache specifications of \<^verbatim>\<open>vllm/v1/kv_cache_interface.py\<close>: the classes of layers, the bytes one
  block takes, the most memory a request can take, and the merge of the specifications of the
  layers of a group. The size of a data type comes from \<^verbatim>\<open>torch\<close> and is a parameter.
\<close>

section \<open>Specifications\<close>

record attention_spec =
  attn_block_size :: int
  num_kv_heads :: int
  head_size :: int
  attn_dtype :: string
  use_mla :: bool

datatype kv_cache_spec =
    FullAttentionSpec attention_spec "int option" "int option"
  | ChunkedLocalAttentionSpec attention_spec int
  | SlidingWindowSpec attention_spec int
  | MambaSpec int "int list list" "string list" "int option" string int
  | EncoderOnlyAttentionSpec attention_spec
  | CrossAttentionSpec attention_spec

fun spec_block_size :: "kv_cache_spec \<Rightarrow> int" where
  "spec_block_size (FullAttentionSpec a _ _) = attn_block_size a"
| "spec_block_size (ChunkedLocalAttentionSpec a _) = attn_block_size a"
| "spec_block_size (SlidingWindowSpec a _) = attn_block_size a"
| "spec_block_size (MambaSpec bs _ _ _ _ _) = bs"
| "spec_block_size (EncoderOnlyAttentionSpec a) = attn_block_size a"
| "spec_block_size (CrossAttentionSpec a) = attn_block_size a"

section \<open>Sizes\<close>

definition attention_page_size_bytes :: "(string \<Rightarrow> int) \<Rightarrow> attention_spec \<Rightarrow> int" where
  "attention_page_size_bytes dtype_size a =
     (let coef = (if use_mla a then 1 else 2)
      in coef * attn_block_size a * num_kv_heads a * head_size a * dtype_size (attn_dtype a))"

definition mamba_page_size_bytes :: "(string \<Rightarrow> int) \<Rightarrow> int list list \<Rightarrow> string list \<Rightarrow> int option \<Rightarrow> int result" where
  "mamba_page_size_bytes dtype_size shapes dtypes padded =
     (let page_size = (\<Sum>(shape, dtype)\<leftarrow>zip shapes dtypes. prod_list shape * dtype_size dtype)
      in case padded of
           None \<Rightarrow> Inr page_size
         | Some n \<Rightarrow> if n \<ge> page_size then Inr n else Inl AssertionError)"

fun page_size_bytes :: "(string \<Rightarrow> int) \<Rightarrow> kv_cache_spec \<Rightarrow> int result" where
  "page_size_bytes ds (FullAttentionSpec a _ _) = Inr (attention_page_size_bytes ds a)"
| "page_size_bytes ds (ChunkedLocalAttentionSpec a _) = Inr (attention_page_size_bytes ds a)"
| "page_size_bytes ds (SlidingWindowSpec a _) = Inr (attention_page_size_bytes ds a)"
| "page_size_bytes ds (MambaSpec _ shapes dtypes padded _ _) = mamba_page_size_bytes ds shapes dtypes padded"
| "page_size_bytes ds (EncoderOnlyAttentionSpec a) = Inr (attention_page_size_bytes ds a)"
| "page_size_bytes ds (CrossAttentionSpec a) = Inr (attention_page_size_bytes ds a)"

text \<open>The fields of the engine configuration the specifications read; the encoder length comes from the model registry.\<close>

record vllm_config =
  max_model_len_of :: int
  decode_context_parallel_size :: int
  max_num_batched_tokens :: int
  max_encoder_len :: int
  disable_hybrid_kv_cache_manager :: bool
  num_gpu_blocks_override :: "int option"

text \<open>The most bytes one request can take in a layer, per class of layer; \<open>page\<close> is the page size.\<close>

definition full_max_memory :: "vllm_config \<Rightarrow> int \<Rightarrow> int \<Rightarrow> int" where
  "full_max_memory cfg bs page =
     (let max_model_len = max_model_len_of cfg; dcp_world_size = decode_context_parallel_size cfg;
          n = (if dcp_world_size > 1 then cdiv max_model_len dcp_world_size else max_model_len)
      in cdiv n bs * page)"

definition chunked_max_memory :: "vllm_config \<Rightarrow> int \<Rightarrow> int \<Rightarrow> int \<Rightarrow> int" where
  "chunked_max_memory cfg bs chunk page =
     (let n = min (chunk + max_num_batched_tokens cfg) (max_model_len_of cfg) in cdiv n bs * page)"

definition window_max_memory :: "vllm_config \<Rightarrow> int \<Rightarrow> int \<Rightarrow> int \<Rightarrow> int result" where
  "window_max_memory cfg bs window page =
     (if decode_context_parallel_size cfg \<noteq> 1 then Inl AssertionError
      else let n = min (window - 1 + max_num_batched_tokens cfg) (max_model_len_of cfg)
           in Inr ((cdiv n bs + 1) * page))"

definition cross_max_memory :: "vllm_config \<Rightarrow> int \<Rightarrow> int \<Rightarrow> int" where
  "cross_max_memory cfg bs page = cdiv (max_encoder_len cfg) bs * page"

definition layer_max_memory_usage_bytes :: "(string \<Rightarrow> int) \<Rightarrow> vllm_config \<Rightarrow> kv_cache_spec \<Rightarrow> int result" where
  "layer_max_memory_usage_bytes ds cfg spec =
     (let bs = spec_block_size spec
      in case spec of
           FullAttentionSpec a _ _ \<Rightarrow> Inr (full_max_memory cfg bs (attention_page_size_bytes ds a))
         | ChunkedLocalAttentionSpec a chunk \<Rightarrow> Inr (chunked_max_memory cfg bs chunk (attention_page_size_bytes ds a))
         | SlidingWindowSpec a window \<Rightarrow> window_max_memory cfg bs window (attention_page_size_bytes ds a)
         | MambaSpec _ _ _ _ _ _ \<Rightarrow> page_size_bytes ds spec
         | EncoderOnlyAttentionSpec _ \<Rightarrow> Inr 0
         | CrossAttentionSpec a \<Rightarrow> Inr (cross_max_memory cfg bs (attention_page_size_bytes ds a)))"

section \<open>Merging\<close>

definition base_merge :: "kv_cache_spec list \<Rightarrow> kv_cache_spec result" where
  "base_merge specs =
     (case specs of
        [] \<Rightarrow> Inl IndexError
      | s # rest \<Rightarrow> if \<forall>x\<in>set rest. x = s then Inr s else Inl AssertionError)"

definition merge_window_sizes :: "int list \<Rightarrow> int option result" where
  "merge_window_sizes sizes =
     (case remdups sizes of [] \<Rightarrow> Inr None | [w] \<Rightarrow> Inr (Some w) | _ \<Rightarrow> Inl ValueError)"

fun full_fields :: "kv_cache_spec \<Rightarrow> (attention_spec \<times> int option \<times> int option) option" where
  "full_fields (FullAttentionSpec a w c) = Some (a, w, c)"
| "full_fields _ = None"

definition somes :: "'a option list \<Rightarrow> 'a list" where
  "somes xs = map the (filter (\<lambda>x. x \<noteq> None) xs)"

definition full_attention_merge :: "kv_cache_spec list \<Rightarrow> kv_cache_spec result" where
  "full_attention_merge specs =
     (let fs = map full_fields specs
      in if None \<in> set fs then Inl AssertionError
         else
           let fs = map the fs;
               sliding_window = somes (map (\<lambda>(_, w, _). w) fs);
               attention_chunk_size = somes (map (\<lambda>(_, _, c). c) fs)
           in case fs of
                [] \<Rightarrow> Inl IndexError
              | (a, _, _) # _ \<Rightarrow>
                  rbind (merge_window_sizes sliding_window) (\<lambda>w.
                    rbind (merge_window_sizes attention_chunk_size) (\<lambda>c.
                      if \<not> (\<forall>(a', _, _)\<in>set fs. a' = a) then Inl AssertionError
                      else if w \<noteq> None \<and> c \<noteq> None then Inl AssertionError
                      else Inr (FullAttentionSpec a w c))))"

text \<open>\<^verbatim>\<open>specs[0].merge(specs)\<close>: the class of the first specification decides.\<close>

definition spec_merge :: "kv_cache_spec list \<Rightarrow> kv_cache_spec result" where
  "spec_merge specs =
     (case specs of
        [] \<Rightarrow> Inl IndexError
      | FullAttentionSpec _ _ _ # _ \<Rightarrow> full_attention_merge specs
      | _ \<Rightarrow> base_merge specs)"

section \<open>Groups\<close>

record KVCacheTensor =
  tensor_size :: int
  shared_by :: "string list"

record KVCacheGroupSpec =
  layer_names :: "string list"
  group_spec :: kv_cache_spec

record KVCacheConfig =
  num_blocks :: int
  kv_cache_tensors :: "KVCacheTensor list"
  kv_cache_groups :: "KVCacheGroupSpec list"

end
