(* ===== verification/Single_Type.thy ===== *)
theory Single_Type
  imports Block_Pool KV_Spec
begin

text \<open>
  The managers of one KV cache group each, \<^verbatim>\<open>vllm/v1/core/single_type_kv_cache_manager.py\<close>. A manager
  keeps the block table of every request of its group; the pool is shared by all managers and
  passed along. The class of a manager is determined by its specification, so the overridden
  methods are case distinctions on it. A missing key of the \<^verbatim>\<open>defaultdict\<close> of block tables and a key
  with an empty list are the same: no code tells them apart.
\<close>

section \<open>State\<close>

record kv_manager =
  mgr_spec :: kv_cache_spec
  mgr_block_size :: int
  req_to_blocks :: "string \<Rightarrow> addr list"
  num_cached_block :: "string \<rightharpoonup> int"
  kv_cache_group_id :: int
  mgr_null_block :: addr

text \<open>\<^verbatim>\<open>get_manager_for_kv_cache_spec\<close> with the constructor; encoder-only layers have no manager.\<close>

definition get_manager_for_kv_cache_spec :: "kv_cache_spec \<Rightarrow> block_pool \<Rightarrow> int \<Rightarrow> int \<Rightarrow> kv_manager result" where
  "get_manager_for_kv_cache_spec spec p gid dcp_world_size =
     (case spec of
        EncoderOnlyAttentionSpec _ \<Rightarrow> Inl KeyError
      | _ \<Rightarrow> Inr \<lparr>mgr_spec = spec,
               mgr_block_size = (if dcp_world_size > 1 then spec_block_size spec * dcp_world_size
                                 else spec_block_size spec),
               req_to_blocks = (\<lambda>_. []), num_cached_block = Map.empty,
               kv_cache_group_id = gid, mgr_null_block = null_block p\<rparr>)"

fun is_cross_attention :: "kv_cache_spec \<Rightarrow> bool" where
  "is_cross_attention (CrossAttentionSpec _) = True"
| "is_cross_attention _ = False"

definition set_table :: "string \<Rightarrow> addr list \<Rightarrow> kv_manager \<Rightarrow> kv_manager" where
  "set_table rid bs m = m\<lparr>req_to_blocks := (req_to_blocks m)(rid := bs)\<rparr>"

section \<open>Allocation\<close>

text \<open>Mamba layers reserve blocks for speculative tokens.\<close>

definition slot_tokens :: "kv_manager \<Rightarrow> int \<Rightarrow> int" where
  "slot_tokens m num_toks =
     (case mgr_spec m of
        MambaSpec bs _ _ _ _ num_spec \<Rightarrow> if num_spec > 0 then num_toks + bs * num_spec else num_toks
      | _ \<Rightarrow> num_toks)"

definition mgr_num_blocks_to_allocate :: "string \<Rightarrow> int \<Rightarrow> addr list \<Rightarrow> block_pool \<Rightarrow> kv_manager \<Rightarrow> int" where
  "mgr_num_blocks_to_allocate rid num_toks new_computed p m =
     (let num_required = cdiv (slot_tokens m num_toks) (mgr_block_size m);
          num_new = num_required - int (length new_computed) - int (length (req_to_blocks m rid));
          num_evictable = int (length (filter
            (\<lambda>a. ref_cnt (pool_heap p a) = 0 \<and> \<not> is_null (pool_heap p a)) new_computed))
      in num_new + num_evictable)"

definition mgr_save_new_computed_blocks :: "string \<Rightarrow> addr list \<Rightarrow> kv_manager \<Rightarrow> kv_manager result" where
  "mgr_save_new_computed_blocks rid new_computed m =
     (if is_cross_attention (mgr_spec m)
      then (if new_computed = [] then Inr m else Inl AssertionError)
      else if num_cached_block m rid = None
      then (if req_to_blocks m rid \<noteq> [] then Inl AssertionError
            else Inr ((set_table rid new_computed m)
              \<lparr>num_cached_block := (num_cached_block m)(rid \<mapsto> int (length new_computed))\<rparr>))
      else if new_computed = [] then Inr m else Inl AssertionError)"

definition mgr_allocate_new_blocks ::
  "string \<Rightarrow> int \<Rightarrow> kv_manager \<Rightarrow> block_pool \<Rightarrow> (addr list \<times> kv_manager \<times> block_pool) result" where
  "mgr_allocate_new_blocks rid num_toks m p =
     (let blocks = req_to_blocks m rid;
          num_new = cdiv (slot_tokens m num_toks) (mgr_block_size m) - int (length blocks)
      in if num_new \<le> 0 then Inr ([], m, p)
         else rbind (get_new_blocks num_new p) (\<lambda>(new, p'). Inr (new, set_table rid (blocks @ new) m, p')))"

definition mgr_cache_blocks :: "request \<Rightarrow> int \<Rightarrow> kv_manager \<Rightarrow> block_pool \<Rightarrow> (kv_manager \<times> block_pool) result" where
  "mgr_cache_blocks r num_toks m p =
     (if is_cross_attention (mgr_spec m) then Inl ValueError
      else case num_cached_block m (request_id r) of
        None \<Rightarrow> Inl KeyError
      | Some num_cached \<Rightarrow>
          (let num_full = num_toks div mgr_block_size m
           in rbind (cache_full_blocks r (req_to_blocks m (request_id r)) num_cached num_full
                  (mgr_block_size m) (kv_cache_group_id m) p) (\<lambda>p'.
                Inr (m\<lparr>num_cached_block := (num_cached_block m)(request_id r \<mapsto> num_full)\<rparr>, p'))))"

definition mgr_free :: "string \<Rightarrow> kv_manager \<Rightarrow> block_pool \<Rightarrow> (kv_manager \<times> block_pool) result" where
  "mgr_free rid m p =
     rbind (free_blocks (rev (req_to_blocks m rid)) p) (\<lambda>p'.
       Inr ((set_table rid [] m)\<lparr>num_cached_block := (num_cached_block m)(rid := None)\<rparr>, p'))"

section \<open>Blocks no longer needed\<close>

text \<open>The loop from the right: a null block ends it, every other block is replaced and collected.\<close>

fun skip_loop :: "addr \<Rightarrow> nat \<Rightarrow> addr list \<Rightarrow> addr list \<Rightarrow> (addr list \<times> addr list) result" where
  "skip_loop nb 0 blocks removed = Inr (removed, blocks)"
| "skip_loop nb (Suc i) blocks removed =
     (if i \<ge> length blocks then Inl IndexError
      else if blocks ! i = nb then Inr (removed, blocks)
      else skip_loop nb i (blocks[i := nb]) (removed @ [blocks ! i]))"

definition first_useful_block :: "string \<Rightarrow> int \<Rightarrow> kv_manager \<Rightarrow> int" where
  "first_useful_block rid num_computed m =
     (case mgr_spec m of
        SlidingWindowSpec _ window \<Rightarrow> (num_computed - window + 1) div mgr_block_size m
      | ChunkedLocalAttentionSpec _ chunk \<Rightarrow>
          (let num_cached = (case num_cached_block m rid of Some n \<Rightarrow> n | None \<Rightarrow> 0);
               idx = (num_computed div chunk * chunk) div mgr_block_size m
           in if num_cached > 0 then min idx (num_cached - 1) else idx)
      | _ \<Rightarrow> 0)"

fun skips_blocks :: "kv_cache_spec \<Rightarrow> bool" where
  "skips_blocks (SlidingWindowSpec _ _) = True"
| "skips_blocks (ChunkedLocalAttentionSpec _ _) = True"
| "skips_blocks _ = False"

definition mgr_remove_skipped_blocks ::
  "string \<Rightarrow> int \<Rightarrow> kv_manager \<Rightarrow> block_pool \<Rightarrow> (kv_manager \<times> block_pool) result" where
  "mgr_remove_skipped_blocks rid num_computed m p =
     (if \<not> skips_blocks (mgr_spec m) then Inr (m, p)
      else rbind (skip_loop (mgr_null_block m) (nat (first_useful_block rid num_computed m))
                    (req_to_blocks m rid) []) (\<lambda>(removed, blocks).
        rbind (free_blocks removed p) (\<lambda>p'. Inr (set_table rid blocks m, p'))))"

section \<open>Shared prefixes\<close>

fun common_prefix_loop :: "block_pool \<Rightarrow> int \<Rightarrow> addr list \<Rightarrow> int" where
  "common_prefix_loop p num_running [] = 0"
| "common_prefix_loop p num_running (a # as) =
     (if ref_cnt (pool_heap p a) = num_running then 1 + common_prefix_loop p num_running as else 0)"

definition mgr_num_common_prefix_blocks :: "string \<Rightarrow> int \<Rightarrow> block_pool \<Rightarrow> kv_manager \<Rightarrow> int" where
  "mgr_num_common_prefix_blocks rid num_running p m =
     (case mgr_spec m of
        FullAttentionSpec _ _ _ \<Rightarrow> common_prefix_loop p num_running (req_to_blocks m rid)
      | _ \<Rightarrow> 0)"

section \<open>Prefix cache hits\<close>

text \<open>A hit is one list of blocks per group; a lookup result is true when it is a non-empty list.\<close>

definition append_hit :: "addr list list \<Rightarrow> addr list \<Rightarrow> addr list list" where
  "append_hit computed cached = map2 (\<lambda>c b. c @ [b]) computed cached"

fun hit_loop :: "int list \<Rightarrow> block_pool \<Rightarrow> bytes list \<Rightarrow> addr list list \<Rightarrow> addr list list result" where
  "hit_loop gids p [] computed = Inr computed"
| "hit_loop gids p (h # hs) computed =
     rbind (get_cached_block h gids p) (\<lambda>res.
       case res of
         None \<Rightarrow> Inr computed
       | Some [] \<Rightarrow> Inr computed
       | Some cached \<Rightarrow> hit_loop gids p hs (append_hit computed cached))"

definition drop_last_hit :: "bool \<Rightarrow> addr list list \<Rightarrow> addr list list result" where
  "drop_last_hit use_eagle computed =
     (if \<not> use_eagle then Inr computed
      else case computed of
        [] \<Rightarrow> Inl IndexError
      | c # _ \<Rightarrow>
          if c = [] then Inr computed
          else if [] \<in> set computed then Inl IndexError else Inr (map butlast computed))"

definition scaled_block_size :: "int \<Rightarrow> int \<Rightarrow> int" where
  "scaled_block_size bs dcp_world_size = (if dcp_world_size > 1 then bs * dcp_world_size else bs)"

definition full_find_longest_cache_hit ::
  "bytes list \<Rightarrow> int \<Rightarrow> int list \<Rightarrow> block_pool \<Rightarrow> kv_cache_spec \<Rightarrow> bool \<Rightarrow> int \<Rightarrow> addr list list result" where
  "full_find_longest_cache_hit hashes max_length gids p spec use_eagle dcp =
     (let max_num_blocks = max_length div scaled_block_size (spec_block_size spec) dcp
      in if max_num_blocks < 0 then Inl ValueError
         else rbind (hit_loop gids p (take (nat max_num_blocks) hashes) (replicate (length gids) []))
                (drop_last_hit use_eagle))"

text \<open>The search from right to left for enough contiguous cached blocks.\<close>

fun window_loop ::
  "bytes list \<Rightarrow> int list \<Rightarrow> block_pool \<Rightarrow> int \<Rightarrow> nat \<Rightarrow> nat \<Rightarrow> addr list list \<Rightarrow> addr list list result" where
  "window_loop hashes gids p need 0 contiguous computed = Inr (map (take contiguous) computed)"
| "window_loop hashes gids p need (Suc i) contiguous computed =
     rbind (py_nth hashes (int i)) (\<lambda>h.
       rbind (get_cached_block h gids p) (\<lambda>res.
         case res of
           None \<Rightarrow> window_loop hashes gids p need i 0 computed
         | Some [] \<Rightarrow> window_loop hashes gids p need i 0 computed
         | Some cached \<Rightarrow>
             (let computed = map2 (\<lambda>c b. c[i := b]) computed cached;
                  contiguous = contiguous + 1
              in if int contiguous \<ge> need then Inr (map (take (i + contiguous)) computed)
                 else window_loop hashes gids p need i contiguous computed)))"

definition window_find_longest_cache_hit ::
  "bytes list \<Rightarrow> int \<Rightarrow> int list \<Rightarrow> block_pool \<Rightarrow> attention_spec \<Rightarrow> int \<Rightarrow> bool \<Rightarrow> int \<Rightarrow> addr list list result" where
  "window_find_longest_cache_hit hashes max_length gids p a window use_eagle dcp =
     (if dcp \<noteq> 1 then Inl AssertionError
      else
        let need = cdiv (window - 1) (attn_block_size a) + (if use_eagle then 1 else 0);
            max_num_blocks = nat (max_length div attn_block_size a)
        in rbind (window_loop hashes gids p need max_num_blocks 0
                    (replicate (length gids) (replicate max_num_blocks (null_block p))))
             (drop_last_hit use_eagle))"

fun chunk_loop :: "bytes list \<Rightarrow> int list \<Rightarrow> block_pool \<Rightarrow> nat list \<Rightarrow> addr list list \<Rightarrow> addr list list result" where
  "chunk_loop hashes gids p [] computed = Inr computed"
| "chunk_loop hashes gids p (i # js) computed =
     rbind (py_nth hashes (int i)) (\<lambda>h.
       rbind (get_cached_block h gids p) (\<lambda>res.
         case res of
           None \<Rightarrow> Inr computed
         | Some [] \<Rightarrow> Inr computed
         | Some cached \<Rightarrow> chunk_loop hashes gids p js (append_hit computed cached)))"

definition chunk_find_longest_cache_hit ::
  "bytes list \<Rightarrow> int \<Rightarrow> int list \<Rightarrow> block_pool \<Rightarrow> attention_spec \<Rightarrow> int \<Rightarrow> bool \<Rightarrow> int \<Rightarrow> addr list list result" where
  "chunk_find_longest_cache_hit hashes max_length gids p a chunk use_eagle dcp =
     (if use_eagle then Inl AssertionError
      else if dcp \<noteq> 1 then Inl AssertionError
      else
        let max_num_blocks = nat (max_length div attn_block_size a);
            start_idx = (if max_length > 0 then max_length div chunk * chunk else 0);
            start_block = nat (start_idx div attn_block_size a)
        in chunk_loop hashes gids p [start_block..<max_num_blocks]
             (replicate (length gids) (replicate start_block (null_block p))))"

definition find_longest_cache_hit ::
  "bytes list \<Rightarrow> int \<Rightarrow> int list \<Rightarrow> block_pool \<Rightarrow> kv_cache_spec \<Rightarrow> bool \<Rightarrow> int \<Rightarrow> addr list list result" where
  "find_longest_cache_hit hashes max_length gids p spec use_eagle dcp =
     (case spec of
        FullAttentionSpec _ _ _ \<Rightarrow> full_find_longest_cache_hit hashes max_length gids p spec use_eagle dcp
      | SlidingWindowSpec a window \<Rightarrow>
          window_find_longest_cache_hit hashes max_length gids p a window use_eagle dcp
      | ChunkedLocalAttentionSpec a chunk \<Rightarrow>
          chunk_find_longest_cache_hit hashes max_length gids p a chunk use_eagle dcp
      | MambaSpec _ _ _ _ _ _ \<Rightarrow> if dcp \<noteq> 1 then Inl AssertionError else Inr (replicate (length gids) [])
      | CrossAttentionSpec _ \<Rightarrow> Inl NotImplementedError
      | EncoderOnlyAttentionSpec _ \<Rightarrow> Inl KeyError)"

section \<open>References held by a manager\<close>

definition mgr_refs :: "kv_manager \<Rightarrow> addr \<Rightarrow> nat" where
  "mgr_refs m a = (\<Sum>rid\<in>{rid. req_to_blocks m rid \<noteq> []}. count_list (req_to_blocks m rid) a)"

lemma set_table_simps [simp]:
  "req_to_blocks (set_table rid bs m) = (req_to_blocks m)(rid := bs)"
  "num_cached_block (set_table rid bs m) = num_cached_block m"
  "mgr_spec (set_table rid bs m) = mgr_spec m"
  "mgr_block_size (set_table rid bs m) = mgr_block_size m"
  "kv_cache_group_id (set_table rid bs m) = kv_cache_group_id m"
  "mgr_null_block (set_table rid bs m) = mgr_null_block m"
  by (simp_all add: set_table_def)

lemma mgr_refs_cong: "req_to_blocks m' = req_to_blocks m \<Longrightarrow> mgr_refs m' = mgr_refs m"
  by (simp add: mgr_refs_def fun_eq_iff)

lemma mgr_refs_superset:
  assumes "finite A" and "{rid. req_to_blocks m rid \<noteq> []} \<subseteq> A"
  shows "mgr_refs m a = (\<Sum>rid\<in>A. count_list (req_to_blocks m rid) a)"
  unfolding mgr_refs_def using assms by (intro sum.mono_neutral_left) auto

lemma mgr_refs_set_table:
  assumes "finite {rid. req_to_blocks m rid \<noteq> []}"
  shows "mgr_refs (set_table rid bs m) a + count_list (req_to_blocks m rid) a = mgr_refs m a + count_list bs a"
proof -
  let ?A = "insert rid {rid. req_to_blocks m rid \<noteq> []}"
  let ?f = "\<lambda>m rid. count_list (req_to_blocks m rid) a"
  have r: "mgr_refs m' a = ?f m' rid + (\<Sum>x\<in>?A - {rid}. ?f m' x)"
    if "{x. req_to_blocks m' x \<noteq> []} \<subseteq> ?A" for m'
  proof -
    have "mgr_refs m' a = (\<Sum>x\<in>?A. ?f m' x)" by (rule mgr_refs_superset) (use assms that in auto)
    also have "\<dots> = ?f m' rid + (\<Sum>x\<in>?A - {rid}. ?f m' x)" using assms by (intro sum.remove) auto
    finally show ?thesis .
  qed
  have "(\<Sum>x\<in>?A - {rid}. ?f (set_table rid bs m) x) = (\<Sum>x\<in>?A - {rid}. ?f m x)"
    by (intro sum.cong) auto
  moreover have "mgr_refs m a = ?f m rid + (\<Sum>x\<in>?A - {rid}. ?f m x)" by (rule r) auto
  moreover have "mgr_refs (set_table rid bs m) a =
      count_list bs a + (\<Sum>x\<in>?A - {rid}. ?f (set_table rid bs m) x)"
    using r [of "set_table rid bs m"] by force
  ultimately show ?thesis by simp
qed

lemma mgr_refs_table:
  assumes "finite {rid. req_to_blocks m rid \<noteq> []}"
  shows "count_list (req_to_blocks m rid) a \<le> mgr_refs m a"
  using mgr_refs_set_table [OF assms, of rid "[]" a] by simp

lemma mgr_refs_two_tables:
  assumes "finite {rid. req_to_blocks m rid \<noteq> []}" and "rid \<noteq> rid'"
  shows "count_list (req_to_blocks m rid) a + count_list (req_to_blocks m rid') a \<le> mgr_refs m a"
proof -
  have fin: "finite {x. req_to_blocks (set_table rid [] m) x \<noteq> []}"
    by (rule finite_subset [OF _ assms(1)]) auto
  show ?thesis using mgr_refs_set_table [OF assms(1), of rid "[]" a]
      mgr_refs_table [OF fin, of rid' a] assms(2) by simp
qed

lemma count_list_pos: "a \<in> set xs \<longleftrightarrow> 0 < count_list xs a"
  by (induction xs) auto

section \<open>Well-formed tables\<close>

definition table_ok :: "(addr \<Rightarrow> bool) \<Rightarrow> addr list \<Rightarrow> bool" where
  "table_ok us bs \<longleftrightarrow> (\<forall>a\<in>set bs. us a \<or> a = Blk 0) \<and> distinct (filter us bs)"

text \<open>With caching, a counted prefix of each table is null or hashed, the rest is not yet hashed.\<close>

definition hashed_prefix :: "(addr \<Rightarrow> bool) \<Rightarrow> (addr \<Rightarrow> bytes option) \<Rightarrow> int \<Rightarrow> addr list \<Rightarrow> bool" where
  "hashed_prefix us hsh n bs \<longleftrightarrow> 0 \<le> n \<and> n \<le> int (length bs) \<and>
     (\<forall>a\<in>set (take (nat n) bs). us a \<longrightarrow> hsh a \<noteq> None) \<and>
     (\<forall>a\<in>set (drop (nat n) bs). us a \<and> hsh a = None)"

definition mgr_ok :: "block_pool \<Rightarrow> kv_manager \<Rightarrow> bool" where
  "mgr_ok p m \<longleftrightarrow>
     finite {rid. req_to_blocks m rid \<noteq> []} \<and> mgr_null_block m = Blk 0 \<and> 0 < mgr_block_size m \<and>
     0 \<le> kv_cache_group_id m \<and> kv_cache_group_id m < 2 ^ 32 \<and>
     (\<forall>rid. table_ok (usable p) (req_to_blocks m rid)) \<and>
     (\<not> is_cross_attention (mgr_spec m) \<longrightarrow>
        (\<forall>rid. num_cached_block m rid = None \<longrightarrow> req_to_blocks m rid = [])) \<and>
     (enable_caching p \<longrightarrow> \<not> is_cross_attention (mgr_spec m) \<and>
        (\<forall>rid n. num_cached_block m rid = Some n \<longrightarrow>
           hashed_prefix (usable p) (hash_of p) n (req_to_blocks m rid)))"

lemma mgr_okD:
  assumes "mgr_ok p m"
  shows "finite {rid. req_to_blocks m rid \<noteq> []}" "mgr_null_block m = Blk 0" "0 < mgr_block_size m"
    "0 \<le> kv_cache_group_id m" "kv_cache_group_id m < 2 ^ 32" "table_ok (usable p) (req_to_blocks m rid)"
    "\<not> is_cross_attention (mgr_spec m) \<Longrightarrow> num_cached_block m rid = None \<Longrightarrow> req_to_blocks m rid = []"
    "enable_caching p \<Longrightarrow> \<not> is_cross_attention (mgr_spec m)"
    "enable_caching p \<Longrightarrow> num_cached_block m rid = Some n \<Longrightarrow>
       hashed_prefix (usable p) (hash_of p) n (req_to_blocks m rid)"
  using assms unfolding mgr_ok_def by auto

lemma usable_cong: "num_gpu_blocks p' = num_gpu_blocks p \<Longrightarrow> usable p' = usable p"
  by (simp add: usable_def fun_eq_iff)

text \<open>A pool operation that leaves the hashes of the tables' blocks alone keeps the tables well formed.\<close>

lemma mgr_ok_frame:
  assumes "mgr_ok p m" and "num_gpu_blocks p' = num_gpu_blocks p" and "enable_caching p' = enable_caching p"
    and "\<And>rid a. a \<in> set (req_to_blocks m rid) \<Longrightarrow> usable p a \<Longrightarrow> hash_of p' a = hash_of p a"
  shows "mgr_ok p' m"
proof -
  have us: "usable p' = usable p" using assms(2) by (rule usable_cong)
  have "hashed_prefix (usable p) (hash_of p') n (req_to_blocks m rid)"
    if "hashed_prefix (usable p) (hash_of p) n (req_to_blocks m rid)" for n rid
    using that assms(4) in_set_takeD in_set_dropD unfolding hashed_prefix_def by metis
  with assms(1) show ?thesis unfolding mgr_ok_def us assms(3) by blast
qed

lemma mgr_ok_table:
  assumes m: "mgr_ok p m" and t: "table_ok (usable p) bs"
    and c: "\<not> is_cross_attention (mgr_spec m) \<Longrightarrow> num_cached_block m rid = None \<Longrightarrow> bs = []"
    and h: "\<And>n. enable_caching p \<Longrightarrow> num_cached_block m rid = Some n \<Longrightarrow> hashed_prefix (usable p) (hash_of p) n bs"
  shows "mgr_ok p (set_table rid bs m)"
proof -
  have "finite {x. ((req_to_blocks m)(rid := bs)) x \<noteq> []}"
    by (rule finite_subset [of _ "insert rid {x. req_to_blocks m x \<noteq> []}"]) (use mgr_okD(1) [OF m] in auto)
  with assms show ?thesis unfolding mgr_ok_def by simp
qed

section \<open>Skipped blocks\<close>

lemma skip_loop_spec:
  assumes "n \<le> length blocks"
  shows "\<exists>k\<le>n. skip_loop nb n blocks removed =
      Inr (removed @ rev (drop k (take n blocks)), take k blocks @ replicate (n - k) nb @ drop n blocks) \<and>
    nb \<notin> set (drop k (take n blocks))"
  using assms
proof (induction nb n blocks removed rule: skip_loop.induct)
  case (1 nb blocks removed)
  then show ?case by simp
next
  case (2 nb i blocks removed)
  show ?case
  proof (cases "blocks ! i = nb")
    case True
    have "take (Suc i) blocks @ drop (Suc i) blocks = blocks" by simp
    with True 2(2) show ?thesis by (intro exI [of _ "Suc i"]) simp
  next
    case False
    let ?b = "blocks[i := nb]"
    from 2 False obtain k where k: "k \<le> i" "skip_loop nb i ?b (removed @ [blocks ! i]) =
      Inr ((removed @ [blocks ! i]) @ rev (drop k (take i ?b)), take k ?b @ replicate (i - k) nb @ drop i ?b)"
      "nb \<notin> set (drop k (take i ?b))" by fastforce
    have t: "take i ?b = take i blocks" "take k ?b = take k blocks" using k(1) by simp_all
    have i: "i < length blocks" using 2(2) by simp
    have d: "drop i ?b = nb # drop (Suc i) blocks"
      using i by (simp add: Cons_nth_drop_Suc [symmetric, of i "?b"])
    have s: "drop k (take (Suc i) blocks) = drop k (take i blocks) @ [blocks ! i]"
      using i k(1) by (simp add: take_Suc_conv_app_nth)
    have r: "replicate (Suc i - k) nb = replicate (i - k) nb @ [nb]"
      using k(1) by (simp add: Suc_diff_le replicate_append_same)
    show ?thesis using k i False unfolding t d
      by (intro exI [of _ k]) (simp add: s r)
  qed
qed

lemma table_ok_skipped:
  assumes "table_ok us bs" and "k \<le> n" and "n \<le> length bs" and "\<not> us (Blk 0)"
  shows "table_ok us (take k bs @ replicate (n - k) (Blk 0) @ drop n bs)"
proof -
  have "bs = take k bs @ drop k (take n bs) @ drop n bs"
    using assms(2,3) by (metis append_take_drop_id append.assoc min.absorb1 take_take)
  then have "filter us bs = filter us (take k bs) @ filter us (drop k (take n bs)) @ filter us (drop n bs)"
    by (metis filter_append)
  then have "distinct (filter us (take k bs) @ filter us (drop n bs))"
    using assms(1) unfolding table_ok_def by auto
  with assms show ?thesis unfolding table_ok_def by (auto dest: in_set_takeD in_set_dropD)
qed

lemma count_skipped:
  assumes "k \<le> n" and "n \<le> length bs" and "a \<noteq> nb"
  shows "count_list (take k bs @ replicate (n - k) nb @ drop n bs) a + count_list (drop k (take n bs)) a =
    count_list bs a"
proof -
  have "bs = take k bs @ drop k (take n bs) @ drop n bs"
    using assms(1,2) by (metis append_take_drop_id append.assoc min.absorb1 take_take)
  then have "count_list bs a = count_list (take k bs @ drop k (take n bs) @ drop n bs) a" by simp
  moreover have "count_list (replicate j nb) a = 0" for j using assms(3) by (induction j) auto
  ultimately show ?thesis by (simp add: count_list_append)
qed

lemma hashed_prefix_skipped:
  assumes "hashed_prefix us hsh c bs" and "k \<le> n" and "int n \<le> c" and "\<not> us nb"
  shows "hashed_prefix us hsh c (take k bs @ replicate (n - k) nb @ drop n bs)"
proof -
  let ?t = "take k bs @ replicate (n - k) nb @ drop n bs"
  have c: "0 \<le> c" "c \<le> int (length bs)" using assms(1) by (auto simp: hashed_prefix_def)
  have l: "length (take k bs @ replicate (n - k) nb) = n" using assms(2,3) c by auto
  have "take (nat c) ?t = (take k bs @ replicate (n - k) nb) @ take (nat c - n) (drop n bs)"
    using l assms(3) by (metis append.assoc nat_int take_append take_all nat_mono)
  moreover have "take (nat c - n) (drop n bs) = drop n (take (nat c) bs)" by (simp add: drop_take)
  moreover have "take k bs = take k (take (nat c) bs)" using assms(2,3) by (simp add: min_def) linarith
  ultimately have e: "take (nat c) ?t = take k (take (nat c) bs) @ replicate (n - k) nb @ drop n (take (nat c) bs)"
    by simp
  have t: "set (take (nat c) ?t) \<subseteq> insert nb (set (take (nat c) bs))"
    unfolding e by (auto simp del: take_take drop_take dest: in_set_takeD [of _ k] in_set_dropD [of _ n])
  have d: "drop (nat c) ?t = drop (nat c) bs"
    using l assms(3) by (simp add: drop_append)
  have "length ?t = length bs" using l c assms(3) by simp
  moreover have "\<forall>a\<in>set (take (nat c) ?t). us a \<longrightarrow> hsh a \<noteq> None"
    using t assms(1,4) unfolding hashed_prefix_def by blast
  ultimately show ?thesis using assms(1) d unfolding hashed_prefix_def by simp
qed

end
