(* ===== verification/KV_Coordinator.thy ===== *)
theory KV_Coordinator
  imports Single_Type
begin

text \<open>
  The coordinators of \<^verbatim>\<open>vllm/v1/core/kv_cache_coordinator.py\<close>: they run an operation on the managers
  of all KV cache groups in turn, over the one shared block pool, and combine their prefix cache
  hits. The accounting invariant ties the reference count of every block to the block tables of
  all managers.
\<close>

section \<open>State\<close>

datatype coordinator_class =
    KVCacheCoordinatorNoPrefixCache
  | UnitaryKVCacheCoordinator kv_cache_spec int int
  | HybridKVCacheCoordinator "int list" "int list" kv_cache_spec kv_cache_spec bool

record coordinator =
  coord_groups :: "KVCacheGroupSpec list"
  coord_max_model_len :: int
  coord_enable_caching :: bool
  coord_pool :: block_pool
  coord_use_eagle :: bool
  single_type_managers :: "kv_manager list"
  coord_class :: coordinator_class

fun make_managers :: "block_pool \<Rightarrow> int \<Rightarrow> int \<Rightarrow> KVCacheGroupSpec list \<Rightarrow> kv_manager list result" where
  "make_managers p dcp i [] = Inr []"
| "make_managers p dcp i (g # gs) =
     rbind (get_manager_for_kv_cache_spec (group_spec g) p i dcp) (\<lambda>m.
       rbind (make_managers p dcp (i + 1) gs) (\<lambda>ms. Inr (m # ms)))"

text \<open>The constructor of the base class; the class-specific part is added by the factory below.\<close>

definition KVCacheCoordinator ::
  "bool \<Rightarrow> KVCacheConfig \<Rightarrow> int \<Rightarrow> bool \<Rightarrow> bool \<Rightarrow> bool \<Rightarrow> int \<Rightarrow> coordinator_class \<Rightarrow> coordinator result" where
  "KVCacheCoordinator use_int cfg max_model_len use_eagle caching kv_events dcp cls =
     rbind (BlockPool (num_blocks cfg) caching kv_events use_int) (\<lambda>p.
       rbind (make_managers p dcp 0 (kv_cache_groups cfg)) (\<lambda>ms.
         Inr \<lparr>coord_groups = kv_cache_groups cfg, coord_max_model_len = max_model_len,
              coord_enable_caching = caching, coord_pool = p, coord_use_eagle = use_eagle,
              single_type_managers = ms, coord_class = cls\<rparr>))"

section \<open>Hybrid models\<close>

fun is_full_attention :: "kv_cache_spec \<Rightarrow> bool" where
  "is_full_attention (FullAttentionSpec _ _ _) = True"
| "is_full_attention _ = False"

text \<open>One of the two kinds of groups: its specification so far and the ids seen.\<close>

definition note_group :: "int \<Rightarrow> kv_cache_spec \<Rightarrow> kv_cache_spec option \<times> int list \<Rightarrow>
    (kv_cache_spec option \<times> int list) result" where
  "note_group i s st =
     (case st of
        (None, ids) \<Rightarrow> Inr (Some s, ids @ [i])
      | (Some t, ids) \<Rightarrow> if t = s then Inr (Some t, ids @ [i]) else Inl AssertionError)"

fun split_groups :: "int \<Rightarrow> KVCacheGroupSpec list \<Rightarrow>
    (kv_cache_spec option \<times> int list) \<times> (kv_cache_spec option \<times> int list) \<Rightarrow>
    ((kv_cache_spec option \<times> int list) \<times> (kv_cache_spec option \<times> int list)) result" where
  "split_groups i [] st = Inr st"
| "split_groups i (g # gs) (full, oth) =
     (if is_full_attention (group_spec g)
      then rbind (note_group i (group_spec g) full) (\<lambda>full. split_groups (i + 1) gs (full, oth))
      else rbind (note_group i (group_spec g) oth) (\<lambda>oth. split_groups (i + 1) gs (full, oth)))"

definition verify_and_split_kv_cache_groups :: "bool \<Rightarrow> KVCacheGroupSpec list \<Rightarrow> coordinator_class result" where
  "verify_and_split_kv_cache_groups caching groups =
     rbind (split_groups 0 groups ((None, []), (None, []))) (\<lambda>((full, full_ids), (oth, other_ids)).
       case (full, oth) of
         (Some full_spec, Some other_spec) \<Rightarrow>
           if caching \<and> spec_block_size other_spec mod spec_block_size full_spec \<noteq> 0 then Inl AssertionError
           else if Max (set full_ids) < Min (set other_ids)
           then Inr (HybridKVCacheCoordinator full_ids other_ids full_spec other_spec True)
           else if Max (set other_ids) < Min (set full_ids)
           then Inr (HybridKVCacheCoordinator full_ids other_ids full_spec other_spec False)
           else Inl ValueError
       | _ \<Rightarrow> Inl AssertionError)"

text \<open>\<^verbatim>\<open>get_kv_cache_coordinator\<close> with the constructors of the three classes.\<close>

definition get_kv_cache_coordinator ::
  "bool \<Rightarrow> KVCacheConfig \<Rightarrow> int \<Rightarrow> bool \<Rightarrow> bool \<Rightarrow> bool \<Rightarrow> int \<Rightarrow> coordinator result" where
  "get_kv_cache_coordinator use_int cfg max_model_len use_eagle caching kv_events dcp =
     (let base = KVCacheCoordinator use_int cfg max_model_len use_eagle
      in if \<not> caching then base False kv_events dcp KVCacheCoordinatorNoPrefixCache
         else case kv_cache_groups cfg of
           [g] \<Rightarrow> base caching kv_events dcp
             (UnitaryKVCacheCoordinator (group_spec g) (scaled_block_size (spec_block_size (group_spec g)) dcp) dcp)
         | gs \<Rightarrow>
             rbind (base caching kv_events dcp KVCacheCoordinatorNoPrefixCache) (\<lambda>c.
               if dcp \<noteq> 1 then Inl AssertionError
               else rbind (verify_and_split_kv_cache_groups caching gs) (\<lambda>cls.
                 Inr (c\<lparr>coord_class := cls\<rparr>))))"

section \<open>Operations on all managers\<close>

fun each_manager ::
  "(nat \<Rightarrow> kv_manager \<Rightarrow> block_pool \<Rightarrow> ('v \<times> kv_manager \<times> block_pool) result) \<Rightarrow> nat \<Rightarrow>
   kv_manager list \<Rightarrow> block_pool \<Rightarrow> ('v list \<times> kv_manager list \<times> block_pool) result" where
  "each_manager f i [] p = Inr ([], [], p)"
| "each_manager f i (m # ms) p =
     rbind (f i m p) (\<lambda>(v, m', p').
       rbind (each_manager f (Suc i) ms p') (\<lambda>(vs, ms', p''). Inr (v # vs, m' # ms', p'')))"

definition on_managers ::
  "(nat \<Rightarrow> kv_manager \<Rightarrow> block_pool \<Rightarrow> ('v \<times> kv_manager \<times> block_pool) result) \<Rightarrow> coordinator \<Rightarrow>
   ('v list \<times> coordinator) result" where
  "on_managers f c =
     rbind (each_manager f 0 (single_type_managers c) (coord_pool c)) (\<lambda>(vs, ms, p).
       Inr (vs, c\<lparr>single_type_managers := ms, coord_pool := p\<rparr>))"

text \<open>A step without a value.\<close>

definition quiet :: "(kv_manager \<Rightarrow> block_pool \<Rightarrow> (kv_manager \<times> block_pool) result) \<Rightarrow>
    nat \<Rightarrow> kv_manager \<Rightarrow> block_pool \<Rightarrow> (unit \<times> kv_manager \<times> block_pool) result" where
  "quiet f i m p = rbind (f m p) (\<lambda>(m', p'). Inr ((), m', p'))"

fun blocks_to_allocate_from :: "string \<Rightarrow> int \<Rightarrow> addr list list \<Rightarrow> int \<Rightarrow> block_pool \<Rightarrow> nat \<Rightarrow> kv_manager list \<Rightarrow> int result" where
  "blocks_to_allocate_from rid num_toks new_computed num_encoder p i [] = Inr 0"
| "blocks_to_allocate_from rid num_toks new_computed num_encoder p i (m # ms) =
     rbind (if is_cross_attention (mgr_spec m)
            then Inr (mgr_num_blocks_to_allocate rid num_encoder [] p m)
            else rbind (py_nth new_computed (int i)) (\<lambda>bs. Inr (mgr_num_blocks_to_allocate rid num_toks bs p m)))
       (\<lambda>n. rbind (blocks_to_allocate_from rid num_toks new_computed num_encoder p (Suc i) ms) (\<lambda>k. Inr (n + k)))"

definition get_num_blocks_to_allocate :: "string \<Rightarrow> int \<Rightarrow> addr list list \<Rightarrow> int \<Rightarrow> coordinator \<Rightarrow> int result" where
  "get_num_blocks_to_allocate rid num_toks new_computed num_encoder c =
     blocks_to_allocate_from rid num_toks new_computed num_encoder (coord_pool c) 0 (single_type_managers c)"

definition save_step :: "string \<Rightarrow> addr list list \<Rightarrow> nat \<Rightarrow> kv_manager \<Rightarrow> block_pool \<Rightarrow>
    (unit \<times> kv_manager \<times> block_pool) result" where
  "save_step rid new_computed i m p =
     rbind (py_nth new_computed (int i)) (\<lambda>bs.
       rbind (mgr_save_new_computed_blocks rid bs m) (\<lambda>m'. Inr ((), m', p)))"

definition save_new_computed_blocks :: "string \<Rightarrow> addr list list \<Rightarrow> coordinator \<Rightarrow> coordinator result" where
  "save_new_computed_blocks rid new_computed c =
     rbind (on_managers (save_step rid new_computed) c) (\<lambda>(_, c'). Inr c')"

definition alloc_step :: "string \<Rightarrow> int \<Rightarrow> int \<Rightarrow> nat \<Rightarrow> kv_manager \<Rightarrow> block_pool \<Rightarrow>
    (addr list \<times> kv_manager \<times> block_pool) result" where
  "alloc_step rid num_toks num_encoder i m p =
     mgr_allocate_new_blocks rid (if is_cross_attention (mgr_spec m) then num_encoder else num_toks) m p"

definition allocate_new_blocks :: "string \<Rightarrow> int \<Rightarrow> int \<Rightarrow> coordinator \<Rightarrow> (addr list list \<times> coordinator) result" where
  "allocate_new_blocks rid num_toks num_encoder = on_managers (alloc_step rid num_toks num_encoder)"

definition coord_cache_blocks :: "request \<Rightarrow> int \<Rightarrow> coordinator \<Rightarrow> coordinator result" where
  "coord_cache_blocks r num_computed c =
     rbind (on_managers (quiet (mgr_cache_blocks r num_computed)) c) (\<lambda>(_, c'). Inr c')"

definition coord_free :: "string \<Rightarrow> coordinator \<Rightarrow> coordinator result" where
  "coord_free rid c = rbind (on_managers (quiet (mgr_free rid)) c) (\<lambda>(_, c'). Inr c')"

definition coord_num_common_prefix_blocks :: "string \<Rightarrow> int \<Rightarrow> coordinator \<Rightarrow> int list" where
  "coord_num_common_prefix_blocks rid num_running c =
     (case coord_class c of
        KVCacheCoordinatorNoPrefixCache \<Rightarrow> replicate (length (single_type_managers c)) 0
      | _ \<Rightarrow> map (mgr_num_common_prefix_blocks rid num_running (coord_pool c)) (single_type_managers c))"

definition remove_skipped_blocks :: "string \<Rightarrow> int \<Rightarrow> coordinator \<Rightarrow> coordinator result" where
  "remove_skipped_blocks rid num_computed c =
     rbind (on_managers (quiet (mgr_remove_skipped_blocks rid num_computed)) c) (\<lambda>(_, c'). Inr c')"

definition coord_get_blocks :: "string \<Rightarrow> coordinator \<Rightarrow> addr list list" where
  "coord_get_blocks rid c = map (\<lambda>m. req_to_blocks m rid) (single_type_managers c)"

section \<open>Prefix cache hits\<close>

definition coord_find_longest_cache_hit ::
  "bytes list \<Rightarrow> int \<Rightarrow> coordinator \<Rightarrow> (addr list list \<times> int) result" where
  "coord_find_longest_cache_hit hashes max_length c =
     (case coord_class c of
        KVCacheCoordinatorNoPrefixCache \<Rightarrow> Inr (replicate (length (single_type_managers c)) [], 0)
      | UnitaryKVCacheCoordinator spec bs dcp \<Rightarrow>
          rbind (find_longest_cache_hit hashes max_length [0] (coord_pool c) spec (coord_use_eagle c) dcp)
            (\<lambda>hit. rbind (py_nth hit 0) (\<lambda>h. Inr (hit, int (length h) * bs)))
      | HybridKVCacheCoordinator full_ids other_ids full_spec other_spec full_first \<Rightarrow>
          rbind (find_longest_cache_hit hashes max_length full_ids (coord_pool c) full_spec (coord_use_eagle c) 1) (\<lambda>hit_full.
            rbind (py_nth hit_full 0) (\<lambda>h.
              rbind (find_longest_cache_hit hashes (int (length h) * spec_block_size full_spec) other_ids
                       (coord_pool c) other_spec (coord_use_eagle c) 1) (\<lambda>hit_other.
                rbind (py_nth hit_other 0) (\<lambda>ho.
                  let hit_length = int (length ho) * spec_block_size other_spec
                  in if hit_length mod spec_block_size full_spec \<noteq> 0 then Inl AssertionError
                     else
                       let hit_full = map (take (nat (hit_length div spec_block_size full_spec))) hit_full
                       in Inr (if full_first then hit_full @ hit_other else hit_other @ hit_full, hit_length))))))"

end
