(* ===== verification/KV_Accounting.thy ===== *)
theory KV_Accounting
  imports KV_Coordinator
begin

text \<open>
  The accounting invariant of the KV cache: the reference count of every block is the number of
  its occurrences in the block tables of all managers, and a block without a hash has at most one
  user. Each step of a manager keeps it; the loops over all managers follow once and for all from
  the locale of manager steps.
\<close>

section \<open>Accounting\<close>

definition total_refs :: "kv_manager list \<Rightarrow> addr \<Rightarrow> nat" where
  "total_refs ms a = (\<Sum>m\<leftarrow>ms. mgr_refs m a)"

text \<open>\<open>e\<close> counts references that are in no table yet: those of touched blocks still to be saved.\<close>

definition kv_acc :: "kv_manager list \<Rightarrow> (addr \<Rightarrow> nat) \<Rightarrow> block_pool \<Rightarrow> bool" where
  "kv_acc ms e p \<longleftrightarrow> (\<exists>xs. pool_inv p xs) \<and> (\<forall>m\<in>set ms. mgr_ok p m) \<and>
     (\<forall>a. usable p a \<longrightarrow> ref_of p a = int (total_refs ms a + e a)) \<and>
     (\<forall>a. usable p a \<longrightarrow> hash_of p a = None \<longrightarrow> ref_of p a \<le> 1)"

abbreviation kv_inv :: "kv_manager list \<Rightarrow> block_pool \<Rightarrow> bool" where
  "kv_inv ms p \<equiv> kv_acc ms (\<lambda>_. 0) p"

definition same_shape :: "block_pool \<Rightarrow> block_pool \<Rightarrow> bool" where
  "same_shape p p' \<longleftrightarrow> num_gpu_blocks p' = num_gpu_blocks p \<and> enable_caching p' = enable_caching p \<and>
     enable_kv_cache_events p' = enable_kv_cache_events p"

lemma same_shapeD: "same_shape p p' \<Longrightarrow> usable p' = usable p" "same_shape p p' \<Longrightarrow> enable_caching p' = enable_caching p"
  "same_shape p p' \<Longrightarrow> enable_kv_cache_events p' = enable_kv_cache_events p"
  unfolding same_shape_def by (blast intro: usable_cong)+

lemma same_shape_refl [simp]: "same_shape p p" by (simp add: same_shape_def)

lemma same_shape_trans: "same_shape p q \<Longrightarrow> same_shape q r \<Longrightarrow> same_shape p r" by (simp add: same_shape_def)

lemma total_refs_split [simp]: "total_refs (pre @ m # post) a = mgr_refs m a + total_refs (pre @ post) a"
  by (simp add: total_refs_def)

lemma total_refs_member: "m \<in> set ms \<Longrightarrow> mgr_refs m a \<le> total_refs ms a"
  unfolding total_refs_def by (rule member_le_sum_list) auto

lemma kv_accD:
  assumes "kv_acc ms e p"
  shows "\<exists>xs. pool_inv p xs" "m \<in> set ms \<Longrightarrow> mgr_ok p m"
    "usable p a \<Longrightarrow> ref_of p a = int (total_refs ms a + e a)"
    "usable p a \<Longrightarrow> hash_of p a = None \<Longrightarrow> ref_of p a \<le> 1"
  using assms unfolding kv_acc_def by auto

lemma acc_in_table:
  assumes "kv_acc ms e p" and "m \<in> set ms" and "a \<in> set (req_to_blocks m rid)" and "usable p a"
  shows "0 < ref_of p a"
proof -
  have "0 < count_list (req_to_blocks m rid) a" using assms(3) by (simp add: count_list_pos)
  also have "\<dots> \<le> mgr_refs m a" by (rule mgr_refs_table [OF mgr_okD(1) [OF kv_accD(2) [OF assms(1,2)]]])
  also have "\<dots> \<le> total_refs ms a" using assms(2) by (rule total_refs_member)
  finally show ?thesis using kv_accD(3) [OF assms(1,4)] by simp
qed

text \<open>A block without a hash belongs to one table only.\<close>

lemma acc_exclusive:
  assumes acc: "kv_acc (pre @ m # post) e p" and a: "a \<in> set (req_to_blocks m rid)" "usable p a" "hash_of p a = None"
  shows "m2 \<in> set (pre @ post) \<Longrightarrow> a \<notin> set (req_to_blocks m2 rid2)" "rid2 \<noteq> rid \<Longrightarrow> a \<notin> set (req_to_blocks m rid2)"
proof -
  have ok: "mgr_ok p m2" if "m2 \<in> set (pre @ m # post)" for m2 using acc that by (rule kv_accD)
  have c: "0 < count_list (req_to_blocks m rid) a" using a(1) by (simp add: count_list_pos)
  have le: "mgr_refs m a + total_refs (pre @ post) a \<le> 1"
    using kv_accD(3,4) [OF acc a(2)] a(3) by simp
  have one: "count_list (req_to_blocks m rid) a \<le> mgr_refs m a"
    by (rule mgr_refs_table [OF mgr_okD(1) [OF ok]]) simp
  show "a \<notin> set (req_to_blocks m2 rid2)" if m2: "m2 \<in> set (pre @ post)"
  proof -
    have "count_list (req_to_blocks m2 rid2) a \<le> mgr_refs m2 a"
      by (rule mgr_refs_table [OF mgr_okD(1) [OF ok]]) (use m2 in auto)
    also have "\<dots> \<le> total_refs (pre @ post) a" using m2 by (rule total_refs_member)
    finally show ?thesis using le one c by (simp add: count_list_pos)
  qed
  show "a \<notin> set (req_to_blocks m rid2)" if "rid2 \<noteq> rid"
    using mgr_refs_two_tables [OF mgr_okD(1) [OF ok], of m rid2 rid a] that le c
    by (simp add: count_list_pos)
qed

lemma kv_acc_replace:
  assumes acc: "kv_acc (pre @ m # post) e p" and "pool_inv p' xs" and sh: "same_shape p p'" and "mgr_ok p' m'"
    and o: "\<And>m2. m2 \<in> set (pre @ post) \<Longrightarrow> mgr_ok p' m2"
    and r: "\<And>a. usable p a \<Longrightarrow> ref_of p' a + int (mgr_refs m a + e a) = ref_of p a + int (mgr_refs m' a + e' a)"
    and h: "\<And>a. usable p a \<Longrightarrow> hash_of p' a = None \<Longrightarrow> ref_of p' a \<le> 1"
  shows "kv_acc (pre @ m' # post) e' p'"
proof -
  have "ref_of p' a = int (total_refs (pre @ m' # post) a + e' a)" if "usable p' a" for a
    using that r [of a] kv_accD(3) [OF acc, of a] unfolding same_shapeD(1) [OF sh] by simp
  with assms show ?thesis unfolding kv_acc_def same_shapeD(1) [OF sh] by auto
qed

text \<open>A pool operation that keeps the hash of every block in use keeps all other managers well formed.\<close>

lemma acc_others:
  assumes acc: "kv_acc ms e p" and m: "m \<in> set ms" and sh: "same_shape p p'"
    and h: "\<And>a. usable p a \<Longrightarrow> 0 < ref_of p a \<Longrightarrow> hash_of p' a = hash_of p a"
  shows "mgr_ok p' m"
proof (rule mgr_ok_frame [of p m])
  show "mgr_ok p m" using acc m by (rule kv_accD)
  show "num_gpu_blocks p' = num_gpu_blocks p" "enable_caching p' = enable_caching p"
    using sh by (simp_all add: same_shape_def)
  show "hash_of p' a = hash_of p a" if "a \<in> set (req_to_blocks m rid)" "usable p a" for rid a
    using h [OF that(2) acc_in_table [OF acc m that]] .
qed

section \<open>Loops over the managers\<close>

text \<open>
  A step of one manager, under an invariant that knows the managers already done and those to do,
  and what it relates of a manager before and after.
\<close>

locale manager_loop =
  fixes f :: "nat \<Rightarrow> kv_manager \<Rightarrow> block_pool \<Rightarrow> ('v \<times> kv_manager \<times> block_pool) result"
    and I :: "kv_manager list \<Rightarrow> kv_manager list \<Rightarrow> block_pool \<Rightarrow> bool"
    and R :: "nat \<Rightarrow> kv_manager \<Rightarrow> 'v \<Rightarrow> kv_manager \<Rightarrow> bool"
  assumes step: "I pre (m # post) p \<Longrightarrow>
    \<exists>v m' p'. f (length pre) m p = Inr (v, m', p') \<and> I (pre @ [m']) post p' \<and> R (length pre) m v m'"
begin

lemma loop:
  assumes "I pre ms p"
  shows "\<exists>vs ms' p'. each_manager f (length pre) ms p = Inr (vs, ms', p') \<and> I (pre @ ms') [] p' \<and>
    length vs = length ms \<and> length ms' = length ms \<and>
    (\<forall>j<length ms. R (length pre + j) (ms ! j) (vs ! j) (ms' ! j))"
  using assms
proof (induction ms arbitrary: pre p)
  case Nil
  then show ?case by simp
next
  case (Cons m ms)
  from step [OF Cons.prems] obtain v m' p' where s: "f (length pre) m p = Inr (v, m', p')"
    "I (pre @ [m']) ms p'" "R (length pre) m v m'" by blast
  from Cons.IH [OF s(2)] obtain vs ms' p'' where l: "each_manager f (Suc (length pre)) ms p' = Inr (vs, ms', p'')"
    "I ((pre @ [m']) @ ms') [] p''" "length vs = length ms" "length ms' = length ms"
    "\<forall>j<length ms. R (Suc (length pre) + j) (ms ! j) (vs ! j) (ms' ! j)" by auto
  have "R (length pre + j) ((m # ms) ! j) ((v # vs) ! j) ((m' # ms') ! j)" if "j < Suc (length ms)" for j
    using that s(3) l(5) by (cases j) auto
  with s(1) l show ?case by simp
qed

lemma on_managers:
  assumes "I [] (single_type_managers c) (coord_pool c)"
  shows "\<exists>vs ms' p'. on_managers f c = Inr (vs, c\<lparr>single_type_managers := ms', coord_pool := p'\<rparr>) \<and> I ms' [] p' \<and>
    length vs = length (single_type_managers c) \<and> length ms' = length (single_type_managers c) \<and>
    (\<forall>j<length ms'. R j (single_type_managers c ! j) (vs ! j) (ms' ! j))"
proof -
  from loop [OF assms] obtain vs ms' p' where
    "each_manager f 0 (single_type_managers c) (coord_pool c) = Inr (vs, ms', p')" "I ms' [] p'"
    "length vs = length (single_type_managers c)" "length ms' = length (single_type_managers c)"
    "\<forall>j<length (single_type_managers c). R j (single_type_managers c ! j) (vs ! j) (ms' ! j)" by auto
  then show ?thesis unfolding on_managers_def by (intro exI [of _ vs] exI [of _ ms'] exI [of _ p']) simp
qed

end

section \<open>Steps of one manager\<close>

text \<open>What a step keeps of a manager besides the table of one request.\<close>

definition same_mgr :: "string \<Rightarrow> kv_manager \<Rightarrow> kv_manager \<Rightarrow> bool" where
  "same_mgr rid m m' \<longleftrightarrow> mgr_spec m' = mgr_spec m \<and> mgr_block_size m' = mgr_block_size m \<and>
     kv_cache_group_id m' = kv_cache_group_id m \<and> (\<forall>x. x \<noteq> rid \<longrightarrow> req_to_blocks m' x = req_to_blocks m x) \<and>
     (\<forall>x. x \<noteq> rid \<longrightarrow> num_cached_block m' x = num_cached_block m x)"

lemma same_mgr_refl [simp]: "same_mgr rid m m" by (simp add: same_mgr_def)

lemma same_mgr_trans: "same_mgr rid m m' \<Longrightarrow> same_mgr rid m' m'' \<Longrightarrow> same_mgr rid m m''"
  by (simp add: same_mgr_def)

text \<open>Freeing a request.\<close>

lemma mgr_free_ok:
  assumes acc: "kv_acc (pre @ m # post) e p"
  shows "\<exists>m' p'. mgr_free rid m p = Inr (m', p') \<and> kv_acc (pre @ m' # post) e p' \<and> same_shape p p' \<and>
    req_to_blocks m' = (req_to_blocks m)(rid := []) \<and> num_cached_block m' = (num_cached_block m)(rid := None) \<and>
    (\<forall>a. hash_of p' a = hash_of p a) \<and> same_mgr rid m m'"
proof -
  let ?bs = "req_to_blocks m rid" and ?m = "(set_table rid [] m)\<lparr>num_cached_block := (num_cached_block m)(rid := None)\<rparr>"
  from kv_accD(1) [OF acc] obtain xs where xs: "pool_inv p xs" by blast
  have ok: "mgr_ok p m" using kv_accD(2) [OF acc] by simp
  have t: "table_ok (usable p) ?bs" using ok by (rule mgr_okD)
  have el: "\<forall>a\<in>set (rev ?bs). usable p a \<and> 0 < ref_of p a \<or> a = Blk 0"
    using t acc_in_table [OF acc, of m _ rid] unfolding table_ok_def by auto
  have d: "distinct (filter (usable p) (rev ?bs))" using t unfolding table_ok_def rev_filter [symmetric] by simp
  from free_blocks_ok [OF xs el d] obtain p' xs' where p': "free_blocks (rev ?bs) p = Inr p'" "pool_inv p' xs'"
    "\<And>b. ref_of p' b = ref_of p b - int (count_list ?bs b)" "\<And>b. hash_of p' b = hash_of p b" "same_shape p p'"
    unfolding same_shape_def by (auto dest: free_blocks_events touch_events)
  have refs: "mgr_refs ?m a + count_list ?bs a = mgr_refs m a" for a
    using mgr_refs_set_table [OF mgr_okD(1) [OF ok], of rid "[]" a] mgr_refs_cong [of ?m "set_table rid [] m"] by simp
  have "finite {x. ((req_to_blocks m)(rid := [])) x \<noteq> []}"
    by (rule finite_subset [OF _ mgr_okD(1) [OF ok]]) auto
  with ok have "mgr_ok p ?m" unfolding mgr_ok_def by (simp add: table_ok_def)
  then have "mgr_ok p' ?m" using p'(4,5) unfolding same_shape_def by (blast intro: mgr_ok_frame)
  moreover have "mgr_ok p' m2" if "m2 \<in> set (pre @ post)" for m2
    using acc_others [OF acc _ p'(5)] that p'(4) by auto
  moreover have "ref_of p' a \<le> 1" if "usable p a" "hash_of p' a = None" for a
    using kv_accD(4) [OF acc that(1)] that(2) p'(3,4) by (metis diff_le_eq le_add_same_cancel1 of_nat_0_le_iff order_trans)
  moreover have "ref_of p' a + int (mgr_refs m a + e a) = ref_of p a + int (mgr_refs ?m a + e a)" for a
    using refs [of a] p'(3) [of a] by simp
  ultimately have "kv_acc (pre @ ?m # post) e p'" using p'(2,5) by (intro kv_acc_replace [OF acc]) auto
  then show ?thesis using p' unfolding mgr_free_def by (auto simp: same_mgr_def)
qed

text \<open>Removing skipped blocks: the caller must not skip past the table, nor past its cached part.\<close>

definition skippable :: "string \<Rightarrow> int \<Rightarrow> bool \<Rightarrow> kv_manager \<Rightarrow> bool" where
  "skippable rid num_computed caching m \<longleftrightarrow> (skips_blocks (mgr_spec m) \<longrightarrow>
     first_useful_block rid num_computed m \<le> int (length (req_to_blocks m rid)) \<and>
     (caching \<longrightarrow> (\<forall>n. num_cached_block m rid = Some n \<longrightarrow> first_useful_block rid num_computed m \<le> n)))"

lemma mgr_remove_skipped_ok:
  assumes acc: "kv_acc (pre @ m # post) e p" and sk: "skippable rid n (enable_caching p) m"
  shows "\<exists>m' p'. mgr_remove_skipped_blocks rid n m p = Inr (m', p') \<and> kv_acc (pre @ m' # post) e p' \<and>
    same_shape p p' \<and> (\<forall>a. hash_of p' a = hash_of p a) \<and> same_mgr rid m m' \<and>
    length (req_to_blocks m' rid) = length (req_to_blocks m rid) \<and> num_cached_block m' = num_cached_block m \<and>
    (\<forall>i. first_useful_block rid n m \<le> int i \<longrightarrow> req_to_blocks m' rid ! i = req_to_blocks m rid ! i)"
proof (cases "skips_blocks (mgr_spec m)")
  case False
  with acc show ?thesis by (simp add: mgr_remove_skipped_blocks_def)
next
  case True
  let ?bs = "req_to_blocks m rid" and ?n = "nat (first_useful_block rid n m)"
  from kv_accD(1) [OF acc] obtain xs where xs: "pool_inv p xs" by blast
  have ok: "mgr_ok p m" using kv_accD(2) [OF acc] by simp
  have nl: "?n \<le> length ?bs" using sk True by (simp add: skippable_def) linarith
  from skip_loop_spec [OF nl, of "Blk 0" "[]"] obtain k where k: "k \<le> ?n"
    "skip_loop (Blk 0) ?n ?bs [] = Inr (rev (drop k (take ?n ?bs)), take k ?bs @ replicate (?n - k) (Blk 0) @ drop ?n ?bs)"
    "Blk 0 \<notin> set (drop k (take ?n ?bs))" by auto
  let ?rm = "rev (drop k (take ?n ?bs))" and ?t = "take k ?bs @ replicate (?n - k) (Blk 0) @ drop ?n ?bs"
  have t: "table_ok (usable p) ?bs" using ok by (rule mgr_okD)
  have sub: "set ?rm \<subseteq> set ?bs" by (auto dest: in_set_dropD in_set_takeD)
  have el: "\<forall>a\<in>set ?rm. usable p a \<and> 0 < ref_of p a \<or> a = Blk 0"
    using t sub acc_in_table [OF acc, of m _ rid] unfolding table_ok_def by auto
  have "?bs = take k ?bs @ drop k (take ?n ?bs) @ drop ?n ?bs"
    using k(1) nl by (metis append_take_drop_id append.assoc min.absorb1 take_take)
  then have "distinct (filter (usable p) (take k ?bs @ drop k (take ?n ?bs) @ drop ?n ?bs))"
    using t unfolding table_ok_def by simp
  then have d: "distinct (filter (usable p) ?rm)" unfolding rev_filter [symmetric] by simp
  from free_blocks_ok [OF xs el d] obtain p' xs' where p': "free_blocks ?rm p = Inr p'" "pool_inv p' xs'"
    "\<And>b. ref_of p' b = ref_of p b - int (count_list ?rm b)" "\<And>b. hash_of p' b = hash_of p b" "same_shape p p'"
    unfolding same_shape_def by (auto dest: free_blocks_events touch_events)
  have nu: "\<not> usable p (Blk 0)" by (rule not_usable_null)
  let ?m = "set_table rid ?t m"
  have refs: "mgr_refs ?m a + count_list ?rm a = mgr_refs m a" if "usable p a" for a
    using mgr_refs_set_table [OF mgr_okD(1) [OF ok], of rid ?t a] count_skipped [OF k(1) nl, of a "Blk 0"] that nu
    by (cases "a = Blk 0") auto
  have "mgr_ok p ?m"
  proof (rule mgr_ok_table [OF ok table_ok_skipped [OF t k(1) nl nu]])
    show "?t = []" if "\<not> is_cross_attention (mgr_spec m)" "num_cached_block m rid = None"
      using mgr_okD(7) [OF ok that] nl k(1) by simp
    show "hashed_prefix (usable p) (hash_of p) c ?t" if "enable_caching p" "num_cached_block m rid = Some c" for c
    proof (rule hashed_prefix_skipped [OF mgr_okD(9) [OF ok that] k(1) _ nu])
      have "0 \<le> c" using mgr_okD(9) [OF ok that] by (simp add: hashed_prefix_def)
      then show "int ?n \<le> c" using sk True that by (simp add: skippable_def)
    qed
  qed
  then have "mgr_ok p' ?m" using p'(4,5) unfolding same_shape_def by (blast intro: mgr_ok_frame)
  moreover have "mgr_ok p' m2" if "m2 \<in> set (pre @ post)" for m2
    using acc_others [OF acc _ p'(5)] that p'(4) by auto
  moreover have "ref_of p' a \<le> 1" if "usable p a" "hash_of p' a = None" for a
    using kv_accD(4) [OF acc that(1)] that(2) p'(3,4) by (metis diff_le_eq le_add_same_cancel1 of_nat_0_le_iff order_trans)
  moreover have "ref_of p' a + int (mgr_refs m a + e a) = ref_of p a + int (mgr_refs ?m a + e a)" if "usable p a" for a
    using refs [OF that] p'(3) [of a] by simp
  ultimately have "kv_acc (pre @ ?m # post) e p'" using p'(2,5) by (intro kv_acc_replace [OF acc]) auto
  moreover have "length ?t = length ?bs" using k(1) nl by simp
  moreover have "mgr_remove_skipped_blocks rid n m p = Inr (?m, p')"
    using True k(2) p'(1) mgr_okD(2) [OF ok] by (simp add: mgr_remove_skipped_blocks_def)
  moreover have "same_mgr rid m ?m" by (simp add: same_mgr_def)
  moreover have "?t ! i = ?bs ! i" if "first_useful_block rid n m \<le> int i" for i
  proof -
    have "length (take k ?bs @ replicate (?n - k) (Blk 0)) = ?n" "?n \<le> i" using k(1) nl that by auto
    then show ?thesis using nl by (metis append.assoc nth_append nth_drop not_le le_add_diff_inverse)
  qed
  ultimately show ?thesis using p'(4,5) by (intro exI [of _ ?m] exI [of _ p']) simp
qed

text \<open>Saving the touched blocks of a prefix cache hit.\<close>

definition hit_ok :: "block_pool \<Rightarrow> addr list \<Rightarrow> bool" where
  "hit_ok p bs \<longleftrightarrow> table_ok (usable p) bs \<and> (\<forall>a\<in>set bs. usable p a \<longrightarrow> hash_of p a \<noteq> None)"

definition savable :: "string \<Rightarrow> addr list \<Rightarrow> kv_manager \<Rightarrow> bool" where
  "savable rid bs m \<longleftrightarrow> bs = [] \<or> (num_cached_block m rid = None \<and> \<not> is_cross_attention (mgr_spec m))"

lemma mgr_save_ok:
  assumes acc: "kv_acc (pre @ m # post) (\<lambda>a. count_list bs a + e a) p" and h: "hit_ok p bs" and sv: "savable rid bs m"
  shows "\<exists>m'. mgr_save_new_computed_blocks rid bs m = Inr m' \<and> kv_acc (pre @ m' # post) e p \<and> same_mgr rid m m' \<and>
    req_to_blocks m' rid = req_to_blocks m rid @ bs \<and>
    (is_cross_attention (mgr_spec m) \<longrightarrow> m' = m) \<and>
    (\<not> is_cross_attention (mgr_spec m) \<longrightarrow> num_cached_block m' rid =
      (case num_cached_block m rid of None \<Rightarrow> Some (int (length bs)) | Some n \<Rightarrow> Some n))"
proof (cases "is_cross_attention (mgr_spec m) \<or> num_cached_block m rid \<noteq> None")
  case True
  then have "bs = []" using sv by (auto simp: savable_def)
  with True acc show ?thesis by (auto simp: mgr_save_new_computed_blocks_def)
next
  case False
  let ?m = "(set_table rid bs m)\<lparr>num_cached_block := (num_cached_block m)(rid \<mapsto> int (length bs))\<rparr>"
  from kv_accD(1) [OF acc] obtain xs where xs: "pool_inv p xs" by blast
  have ok: "mgr_ok p m" using kv_accD(2) [OF acc] by simp
  have t: "req_to_blocks m rid = []" using mgr_okD(7) [OF ok] False by simp
  have "hashed_prefix (usable p) (hash_of p) (int (length bs)) bs"
    using h by (auto simp: hashed_prefix_def hit_ok_def)
  moreover have "finite {x. ((req_to_blocks m)(rid := bs)) x \<noteq> []}"
    by (rule finite_subset [of _ "insert rid {x. req_to_blocks m x \<noteq> []}"]) (use mgr_okD(1) [OF ok] in auto)
  ultimately have "mgr_ok p ?m" using ok h False unfolding mgr_ok_def hit_ok_def by simp
  moreover have "mgr_refs ?m a = mgr_refs m a + count_list bs a" for a
    using mgr_refs_set_table [OF mgr_okD(1) [OF ok], of rid bs a] t mgr_refs_cong [of ?m "set_table rid bs m"] by simp
  ultimately have "kv_acc (pre @ ?m # post) e p" using kv_accD(2,4) [OF acc]
    by (intro kv_acc_replace [OF acc xs]) auto
  moreover have "mgr_save_new_computed_blocks rid bs m = Inr ?m" using False t
    by (simp add: mgr_save_new_computed_blocks_def)
  moreover have "same_mgr rid m ?m" by (simp add: same_mgr_def)
  ultimately show ?thesis using t False by (intro exI [of _ ?m]) auto
qed

text \<open>Allocating new blocks.\<close>

lemma count_list_distinct: "distinct xs \<Longrightarrow> count_list xs a = (if a \<in> set xs then 1 else 0)"
  by (induction xs) auto

definition blocks_needed :: "string \<Rightarrow> int \<Rightarrow> kv_manager \<Rightarrow> int" where
  "blocks_needed rid n m =
     cdiv (slot_tokens m n) (mgr_block_size m) - int (length (req_to_blocks m rid))"

lemma free_list_unused:
  assumes "pool_inv p xs" and "a \<in> set xs"
  shows "usable p a" "ref_of p a = 0"
  using reach_parts(3) [OF assms(1)] assms(2) by (auto simp: refs_ok_def)

lemma mgr_allocate_ok:
  assumes acc: "kv_acc (pre @ m # post) e p" and fr: "blocks_needed rid n m \<le> get_num_free_blocks p"
    and nc: "\<not> is_cross_attention (mgr_spec m) \<Longrightarrow> num_cached_block m rid \<noteq> None"
  shows "\<exists>new m' p'. mgr_allocate_new_blocks rid n m p = Inr (new, m', p') \<and> kv_acc (pre @ m' # post) e p' \<and>
    same_shape p p' \<and> same_mgr rid m m' \<and> req_to_blocks m' rid = req_to_blocks m rid @ new \<and>
    num_cached_block m' = num_cached_block m \<and> length new = nat (blocks_needed rid n m) \<and>
    get_num_free_blocks p' = get_num_free_blocks p - int (length new) \<and>
    (\<forall>a. usable p a \<longrightarrow> 0 < ref_of p a \<longrightarrow> hash_of p' a = hash_of p a)"
proof (cases "blocks_needed rid n m \<le> 0")
  case True
  with acc show ?thesis by (auto simp: mgr_allocate_new_blocks_def blocks_needed_def)
next
  case False
  let ?bs = "req_to_blocks m rid" and ?k = "nat (blocks_needed rid n m)"
  from kv_accD(1) [OF acc] obtain xs where xs: "pool_inv p xs" by blast
  have ok: "mgr_ok p m" using kv_accD(2) [OF acc] by simp
  have free: "get_num_free_blocks p = int (length xs)" using reach_parts(4) [OF xs] .
  from get_new_blocks_ok [OF xs, of "blocks_needed rid n m"] fr free False
  obtain p' where p': "get_new_blocks (blocks_needed rid n m) p = Inr (take ?k xs, p')" "pool_inv p' (drop ?k xs)"
    "\<And>b. ref_of p' b = (if b \<in> set (take ?k xs) then 1 else ref_of p b)"
    "\<And>b. hash_of p' b = (if b \<in> set (take ?k xs) then None else hash_of p b)" "same_shape p p'"
    unfolding same_shape_def by (auto dest: get_new_blocks_events)
  let ?new = "take ?k xs" and ?m = "set_table rid (?bs @ take ?k xs) m"
  have new: "usable p a" "ref_of p a = 0" if "a \<in> set ?new" for a
    using free_list_unused [OF xs in_set_takeD [OF that]] by auto
  have t: "table_ok (usable p) ?bs" using ok by (rule mgr_okD)
  have used: "0 < ref_of p a" if "a \<in> set ?bs" "usable p a" for a
    using acc_in_table [OF acc _ that] by simp
  have dx: "distinct xs" using reach_parts(3) [OF xs] by (simp add: refs_ok_def)
  have t': "table_ok (usable p) (?bs @ ?new)"
    using t new used dx unfolding table_ok_def by fastforce
  have hu: "hash_of p' a = hash_of p a" if "0 < ref_of p a" for a
    using that new(2) [of a] p'(4) [of a] by auto
  have refs: "mgr_refs ?m a = mgr_refs m a + count_list ?new a" for a
    using mgr_refs_set_table [OF mgr_okD(1) [OF ok], of rid "?bs @ ?new" a] by (simp add: count_list_append)
  have us: "usable p' = usable p" using p'(5) by (rule same_shapeD)
  have ok': "mgr_ok p' m" using acc_others [OF acc _ p'(5)] hu by simp
  have "mgr_ok p' ?m"
  proof (rule mgr_ok_table [OF ok'])
    show "table_ok (usable p') (?bs @ ?new)" using t' us by simp
    show "?bs @ ?new = []" if "\<not> is_cross_attention (mgr_spec m)" "num_cached_block m rid = None"
      using that nc by simp
    show "hashed_prefix (usable p') (hash_of p') c (?bs @ ?new)"
      if "enable_caching p'" "num_cached_block m rid = Some c" for c
      using mgr_okD(9) [OF ok' that] new(1) p'(4) us unfolding hashed_prefix_def by auto
  qed
  moreover have "mgr_ok p' m2" if "m2 \<in> set (pre @ post)" for m2
    using acc_others [OF acc _ p'(5)] that hu by auto
  moreover have "ref_of p' a \<le> 1" if "usable p a" "hash_of p' a = None" for a
    using kv_accD(4) [OF acc that(1)] that(2) p'(3,4) by auto
  moreover have "ref_of p' a + int (mgr_refs m a + e a) = ref_of p a + int (mgr_refs ?m a + e a)" for a
    using refs [of a] p'(3) [of a] new(2) [of a] distinct_take [OF dx, of ?k]
    by (simp add: count_list_distinct)
  ultimately have "kv_acc (pre @ ?m # post) e p'" using p'(2,5) by (intro kv_acc_replace [OF acc]) auto
  moreover have "mgr_allocate_new_blocks rid n m p = Inr (?new, ?m, p')"
    using False p'(1) by (simp add: mgr_allocate_new_blocks_def blocks_needed_def Let_def)
  moreover have "length ?new = ?k" using fr free by simp
  moreover have "get_num_free_blocks p' = get_num_free_blocks p - int (length ?new)"
    using reach_parts(4) [OF p'(2)] free fr False by simp
  moreover have "same_mgr rid m ?m" by (simp add: same_mgr_def)
  ultimately show ?thesis using p'(5) hu by (intro exI [of _ ?new] exI [of _ ?m] exI [of _ p']) auto
qed

text \<open>Caching the full blocks of a request.\<close>

definition cache_ready :: "request \<Rightarrow> int \<Rightarrow> (addr \<Rightarrow> bool) \<Rightarrow> bool \<Rightarrow> kv_manager \<Rightarrow> bool" where
  "cache_ready r n us ev m \<longleftrightarrow> \<not> is_cross_attention (mgr_spec m) \<and> (ev \<longrightarrow> lora_request r = None) \<and>
     (case num_cached_block m (request_id r) of
        None \<Rightarrow> False
      | Some c \<Rightarrow>
          c \<le> n div mgr_block_size m \<and> n div mgr_block_size m \<le> int (length (req_to_blocks m (request_id r))) \<and>
          n div mgr_block_size m \<le> int (length (block_hashes r)) \<and>
          (c = 0 \<or> us (req_to_blocks m (request_id r) ! nat (c - 1))))"

lemma mgr_cache_ok:
  assumes acc: "kv_acc (pre @ m # post) e p" and ca: "enable_caching p" and rd: "cache_ready r n (usable p) (enable_kv_cache_events p) m"
  shows "\<exists>m' p'. mgr_cache_blocks r n m p = Inr (m', p') \<and> kv_acc (pre @ m' # post) e p' \<and> same_shape p p' \<and>
    same_mgr (request_id r) m m' \<and> req_to_blocks m' = req_to_blocks m \<and>
    num_cached_block m' = (num_cached_block m)(request_id r \<mapsto> n div mgr_block_size m) \<and>
    get_num_free_blocks p' = get_num_free_blocks p"
proof -
  let ?rid = "request_id r" and ?bs = "req_to_blocks m (request_id r)" and ?nf = "n div mgr_block_size m"
  from rd obtain c where c: "num_cached_block m ?rid = Some c" "c \<le> ?nf" "?nf \<le> int (length ?bs)"
    "?nf \<le> int (length (block_hashes r))" "c = 0 \<or> usable p (?bs ! nat (c - 1))"
    and cr: "\<not> is_cross_attention (mgr_spec m)" "enable_kv_cache_events p \<longrightarrow> lora_request r = None"
    by (auto simp: cache_ready_def split: option.splits)
  let ?new = "drop (nat c) (take (nat ?nf) ?bs)" and ?m = "m\<lparr>num_cached_block := (num_cached_block m)(?rid \<mapsto> ?nf)\<rparr>"
  from kv_accD(1) [OF acc] obtain xs where xs: "pool_inv p xs" by blast
  have ok: "mgr_ok p m" using kv_accD(2) [OF acc] by simp
  have hp: "hashed_prefix (usable p) (hash_of p) c ?bs" using mgr_okD(9) [OF ok ca c(1)] .
  then have c0: "0 \<le> c" and pre: "\<And>a. a \<in> set (take (nat c) ?bs) \<Longrightarrow> usable p a \<Longrightarrow> hash_of p a \<noteq> None"
    and suf: "\<And>a. a \<in> set (drop (nat c) ?bs) \<Longrightarrow> usable p a \<and> hash_of p a = None" by (auto simp: hashed_prefix_def)
  have dd: "distinct (drop (nat c) ?bs)"
  proof -
    have "filter (usable p) (drop (nat c) ?bs) = drop (nat c) ?bs" using suf by (intro filter_True) auto
    moreover have "distinct (filter (usable p) (take (nat c) ?bs @ drop (nat c) ?bs))"
      using mgr_okD(6) [OF ok, of ?rid] unfolding table_ok_def by simp
    ultimately show ?thesis by (simp del: append_take_drop_id)
  qed
  have split: "drop (nat c) ?bs = ?new @ drop (nat ?nf) ?bs"
    using c(2) c0 by (metis append_take_drop_id drop_append drop_drop drop_take le_add_diff_inverse2 nat_mono take_drop)
  have new: "usable p a" "hash_of p a = None" if "a \<in> set ?new" for a
    using suf [of a] that unfolding split by auto
  have parent: "hash_of p (?bs ! nat (c - 1)) \<noteq> None" if "c \<noteq> 0"
  proof -
    have i: "nat (c - 1) < nat c" "nat c \<le> length ?bs" using that c0 c(2,3) by auto
    then have "?bs ! nat (c - 1) \<in> set (take (nat c) ?bs)" by (auto simp: in_set_conv_nth intro!: exI [of _ "nat (c - 1)"])
    then show ?thesis using pre c(5) that by blast
  qed
  have "cacheable r ?bs c ?nf p"
    using ca c c0 new dd parent cr(2) unfolding cacheable_def split by auto
  from cache_full_blocks_ok [OF xs this mgr_okD(4,5) [OF ok], of "mgr_block_size m"]
  obtain p' where p': "cache_full_blocks r ?bs c ?nf (mgr_block_size m) (kv_cache_group_id m) p = Inr p'" "pool_inv p' xs"
    "\<And>b. ref_of p' b = ref_of p b" "\<And>b. b \<notin> set ?new \<Longrightarrow> hash_of p' b = hash_of p b"
    "\<And>i. nat c \<le> i \<Longrightarrow> i < nat ?nf \<Longrightarrow> hash_of p' (?bs ! i) \<noteq> None" "same_shape p p'"
    unfolding same_shape_def using cache_full_blocks_events by blast
  have newh: "hash_of p' a \<noteq> None" if a: "a \<in> set ?new" for a
  proof -
    from a obtain i where i: "i < length ?new" "a = ?new ! i" by (metis in_set_conv_nth)
    then have "nat c + i < nat ?nf" "nat c + i < length (take (nat ?nf) ?bs)" by auto
    then have "a = ?bs ! (nat c + i)" using i by (simp add: nth_take)
    then show ?thesis using p'(5) [of "nat c + i"] \<open>nat c + i < nat ?nf\<close> by simp
  qed
  have us: "usable p' = usable p" using p'(6) by (rule same_shapeD)
  have sub: "a \<in> set ?bs" if "a \<in> set ?new" for a using in_set_takeD [OF in_set_dropD [OF that]] .
  have own: "a \<notin> set ?new" if "a \<in> set (req_to_blocks m x)" "x \<noteq> ?rid" for a x
    using acc_exclusive(2) [OF acc sub new, of a x] that by blast
  have oth: "a \<notin> set ?new" if "m2 \<in> set (pre @ post)" "a \<in> set (req_to_blocks m2 x)" for a m2 x
    using acc_exclusive(1) [OF acc sub new, of a m2 x] that by blast
  have "hashed_prefix (usable p') (hash_of p') ?nf ?bs"
  proof -
    have "hash_of p' a \<noteq> None" if "a \<in> set (take (nat ?nf) ?bs)" "usable p a" for a
    proof (cases "a \<in> set ?new")
      case False
      have "take (nat ?nf) ?bs = take (nat c) ?bs @ ?new"
        using c(2) c0 by (metis append_take_drop_id min.absorb1 nat_mono take_take)
      with that(1) False have "a \<in> set (take (nat c) ?bs)" by (metis Un_iff set_append)
      then show ?thesis using pre that(2) p'(4) [OF False] by simp
    qed (rule newh)
    moreover have "usable p a \<and> hash_of p' a = None" if "a \<in> set (drop (nat ?nf) ?bs)" for a
      using suf [of a] that dd p'(4) [of a] unfolding split by auto
    ultimately show ?thesis using c c0 unfolding hashed_prefix_def us by auto
  qed
  moreover have "hashed_prefix (usable p') (hash_of p') k (req_to_blocks m x)"
    if "num_cached_block m x = Some k" "x \<noteq> ?rid" for x k
    using mgr_okD(9) [OF ok ca that(1)] own [OF _ that(2)] p'(4) in_set_takeD in_set_dropD
    unfolding hashed_prefix_def us by metis
  ultimately have "mgr_ok p' ?m" using ok cr(1) unfolding mgr_ok_def us by auto
  moreover have "mgr_ok p' m2" if m2: "m2 \<in> set (pre @ post)" for m2
  proof (rule mgr_ok_frame [of p m2])
    show "mgr_ok p m2" using kv_accD(2) [OF acc] m2 by auto
    show "num_gpu_blocks p' = num_gpu_blocks p" "enable_caching p' = enable_caching p"
      using p'(6) by (simp_all add: same_shape_def)
    show "hash_of p' a = hash_of p a" if "a \<in> set (req_to_blocks m2 x)" for x a
      using p'(4) oth [OF m2 that] .
  qed
  moreover have "ref_of p' a \<le> 1" if "usable p a" "hash_of p' a = None" for a
    using kv_accD(4) [OF acc that(1)] that(2) p'(3,4) newh [of a] by metis
  moreover have "mgr_refs ?m = mgr_refs m" by (rule mgr_refs_cong) simp
  ultimately have "kv_acc (pre @ ?m # post) e p'" using p'(2,3,6) by (intro kv_acc_replace [OF acc]) auto
  moreover have "mgr_cache_blocks r n m p = Inr (?m, p')" using p'(1) c(1) cr(1) by (simp add: mgr_cache_blocks_def Let_def)
  moreover have "same_mgr ?rid m ?m" by (simp add: same_mgr_def)
  moreover have "get_num_free_blocks p' = get_num_free_blocks p"
    using reach_parts(4) [OF xs] reach_parts(4) [OF p'(2)] by simp
  ultimately show ?thesis using p'(6) by (intro exI [of _ ?m] exI [of _ p']) simp
qed

section \<open>The five loops\<close>

text \<open>The pool seen from the loop's start: same shape and same hashes of the blocks in use.\<close>

definition unhashed_changes :: "block_pool \<Rightarrow> block_pool \<Rightarrow> bool" where
  "unhashed_changes p0 p \<longleftrightarrow> same_shape p0 p \<and> (\<forall>a. hash_of p a = hash_of p0 a)"

interpretation free_loop: manager_loop "quiet (mgr_free rid)"
  "\<lambda>pre post p. kv_acc (pre @ post) e p \<and> unhashed_changes p0 p"
  "\<lambda>i m v m'. same_mgr rid m m' \<and> req_to_blocks m' = (req_to_blocks m)(rid := []) \<and> num_cached_block m' = (num_cached_block m)(rid := None)"
  for rid e p0
proof
  fix pre m post p
  assume "kv_acc (pre @ m # post) e p \<and> unhashed_changes p0 p"
  then show "\<exists>v m' p'. quiet (mgr_free rid) (length pre) m p = Inr (v, m', p') \<and>
      (kv_acc ((pre @ [m']) @ post) e p' \<and> unhashed_changes p0 p') \<and>
      same_mgr rid m m' \<and> req_to_blocks m' = (req_to_blocks m)(rid := []) \<and> num_cached_block m' = (num_cached_block m)(rid := None)"
    using mgr_free_ok [of pre m post e p rid] by (auto simp: quiet_def unhashed_changes_def dest: same_shape_trans)
qed

interpretation skip_loop: manager_loop "quiet (mgr_remove_skipped_blocks rid n)"
  "\<lambda>pre post p. kv_acc (pre @ post) e p \<and> unhashed_changes p0 p \<and> (\<forall>m\<in>set post. skippable rid n (enable_caching p0) m)"
  "\<lambda>i m v m'. same_mgr rid m m' \<and> length (req_to_blocks m' rid) = length (req_to_blocks m rid) \<and>
     num_cached_block m' = num_cached_block m \<and>
     (\<forall>i. first_useful_block rid n m \<le> int i \<longrightarrow> req_to_blocks m' rid ! i = req_to_blocks m rid ! i)"
  for rid n e p0
proof
  fix pre m post p
  assume a: "kv_acc (pre @ m # post) e p \<and> unhashed_changes p0 p \<and>
    (\<forall>m\<in>set (m # post). skippable rid n (enable_caching p0) m)"
  then have "skippable rid n (enable_caching p) m" by (simp add: unhashed_changes_def same_shape_def)
  from mgr_remove_skipped_ok [OF conjunct1 [OF a] this] a
  show "\<exists>v m' p'. quiet (mgr_remove_skipped_blocks rid n) (length pre) m p = Inr (v, m', p') \<and>
      (kv_acc ((pre @ [m']) @ post) e p' \<and> unhashed_changes p0 p' \<and>
       (\<forall>m\<in>set post. skippable rid n (enable_caching p0) m)) \<and>
      same_mgr rid m m' \<and> length (req_to_blocks m' rid) = length (req_to_blocks m rid) \<and>
      num_cached_block m' = num_cached_block m \<and>
     (\<forall>i. first_useful_block rid n m \<le> int i \<longrightarrow> req_to_blocks m' rid ! i = req_to_blocks m rid ! i)"
    by (auto simp: quiet_def unhashed_changes_def dest: same_shape_trans)
qed

definition saved :: "string \<Rightarrow> addr list \<Rightarrow> kv_manager \<Rightarrow> kv_manager \<Rightarrow> bool" where
  "saved rid bs m m' \<longleftrightarrow> same_mgr rid m m' \<and> req_to_blocks m' rid = req_to_blocks m rid @ bs \<and>
     (\<not> is_cross_attention (mgr_spec m) \<longrightarrow> num_cached_block m' rid =
        (case num_cached_block m rid of None \<Rightarrow> Some (int (length bs)) | Some n \<Rightarrow> Some n))"

lemma concat_drop_Suc: "i < length xs \<Longrightarrow> concat (drop i xs) = xs ! i @ concat (drop (Suc i) xs)"
  by (simp add: Cons_nth_drop_Suc [symmetric])

interpretation save_loop: manager_loop "save_step rid hits"
  "\<lambda>pre post p. kv_acc (pre @ post) (count_list (concat (drop (length pre) hits))) p \<and> p = p0 \<and>
     length hits = length pre + length post \<and> (\<forall>bs\<in>set hits. hit_ok p0 bs) \<and>
     (\<forall>j<length post. savable rid (hits ! (length pre + j)) (post ! j))"
  "\<lambda>i m v m'. saved rid (hits ! i) m m'" for rid hits p0
proof
  fix pre post :: "kv_manager list" and m p
  let ?i = "length pre"
  assume a: "kv_acc (pre @ m # post) (count_list (concat (drop ?i hits))) p \<and> p = p0 \<and>
     length hits = ?i + length (m # post) \<and> (\<forall>bs\<in>set hits. hit_ok p0 bs) \<and>
     (\<forall>j<length (m # post). savable rid (hits ! (?i + j)) ((m # post) ! j))"
  then have i: "?i < length hits" by simp
  have "count_list (concat (drop ?i hits)) = (\<lambda>a. count_list (hits ! ?i) a + count_list (concat (drop (Suc ?i) hits)) a)"
    using concat_drop_Suc [OF i] by (simp add: fun_eq_iff)
  with a have acc: "kv_acc (pre @ m # post) (\<lambda>a. count_list (hits ! ?i) a + count_list (concat (drop (Suc ?i) hits)) a) p"
    by metis
  have "hit_ok p (hits ! ?i)" "savable rid (hits ! ?i) m" using a i by auto
  from mgr_save_ok [OF acc this] obtain m' where m': "mgr_save_new_computed_blocks rid (hits ! ?i) m = Inr m'"
    "kv_acc (pre @ m' # post) (count_list (concat (drop (Suc ?i) hits))) p" "saved rid (hits ! ?i) m m'"
    unfolding saved_def by blast
  have "savable rid (hits ! (Suc ?i + j)) (post ! j)" if "j < length post" for j
  proof -
    have "Suc j < length (m # post)" using that by simp
    with a have "savable rid (hits ! (?i + Suc j)) ((m # post) ! Suc j)" by blast
    then show ?thesis by simp
  qed
  with a m' i show "\<exists>v m' p'. save_step rid hits ?i m p = Inr (v, m', p') \<and>
     (kv_acc ((pre @ [m']) @ post) (count_list (concat (drop (length (pre @ [m'])) hits))) p' \<and> p' = p0 \<and>
      length hits = length (pre @ [m']) + length post \<and> (\<forall>bs\<in>set hits. hit_ok p0 bs) \<and>
      (\<forall>j<length post. savable rid (hits ! (length (pre @ [m']) + j)) (post ! j))) \<and> saved rid (hits ! ?i) m m'"
    by (intro exI [of _ "()"] exI [of _ m'] exI [of _ p]) (auto simp: save_step_def)
qed

definition clamped_need :: "string \<Rightarrow> int \<Rightarrow> int \<Rightarrow> kv_manager \<Rightarrow> int" where
  "clamped_need rid n enc m = max 0 (blocks_needed rid (if is_cross_attention (mgr_spec m) then enc else n) m)"

interpretation alloc_loop: manager_loop "alloc_step rid n enc"
  "\<lambda>pre post p. kv_acc (pre @ post) e p \<and> same_shape p0 p \<and>
     (\<Sum>m\<leftarrow>post. clamped_need rid n enc m) \<le> get_num_free_blocks p \<and>
     (\<forall>m\<in>set post. \<not> is_cross_attention (mgr_spec m) \<longrightarrow> num_cached_block m rid \<noteq> None)"
  "\<lambda>i m new m'. same_mgr rid m m' \<and> req_to_blocks m' rid = req_to_blocks m rid @ new \<and>
     num_cached_block m' = num_cached_block m \<and> int (length new) = clamped_need rid n enc m" for rid n enc e p0
proof
  fix pre post :: "kv_manager list" and m :: kv_manager and p
  define N where "N = (if is_cross_attention (mgr_spec m) then enc else n)"
  assume a: "kv_acc (pre @ m # post) e p \<and> same_shape p0 p \<and>
     (\<Sum>m\<leftarrow>m # post. clamped_need rid n enc m) \<le> get_num_free_blocks p \<and>
     (\<forall>m\<in>set (m # post). \<not> is_cross_attention (mgr_spec m) \<longrightarrow> num_cached_block m rid \<noteq> None)"
  have "0 \<le> (\<Sum>m\<leftarrow>post. clamped_need rid n enc m)" by (intro sum_list_nonneg) (auto simp: clamped_need_def)
  moreover have "clamped_need rid n enc m + (\<Sum>m\<leftarrow>post. clamped_need rid n enc m) \<le> get_num_free_blocks p"
    using a by simp
  moreover have "blocks_needed rid N m \<le> clamped_need rid n enc m" by (simp add: clamped_need_def N_def)
  ultimately have "blocks_needed rid N m \<le> get_num_free_blocks p" by linarith
  moreover have "num_cached_block m rid \<noteq> None" if "\<not> is_cross_attention (mgr_spec m)" using a that by simp
  ultimately obtain new m' p' where
    s: "mgr_allocate_new_blocks rid N m p = Inr (new, m', p')" "kv_acc (pre @ m' # post) e p'" "same_shape p p'"
      "same_mgr rid m m'" "req_to_blocks m' rid = req_to_blocks m rid @ new" "num_cached_block m' = num_cached_block m"
      "length new = nat (blocks_needed rid N m)" "get_num_free_blocks p' = get_num_free_blocks p - int (length new)"
    using mgr_allocate_ok [OF conjunct1 [OF a], of rid N] by blast
  have l: "int (length new) = clamped_need rid n enc m" using s(7) by (simp add: clamped_need_def N_def)
  have "(\<Sum>m\<leftarrow>post. clamped_need rid n enc m) \<le> get_num_free_blocks p'" using a s(8) l by simp
  with s l a show "\<exists>v m' p'. alloc_step rid n enc (length pre) m p = Inr (v, m', p') \<and>
      (kv_acc ((pre @ [m']) @ post) e p' \<and> same_shape p0 p' \<and>
       (\<Sum>m\<leftarrow>post. clamped_need rid n enc m) \<le> get_num_free_blocks p' \<and>
       (\<forall>m\<in>set post. \<not> is_cross_attention (mgr_spec m) \<longrightarrow> num_cached_block m rid \<noteq> None)) \<and>
      same_mgr rid m m' \<and> req_to_blocks m' rid = req_to_blocks m rid @ v \<and>
      num_cached_block m' = num_cached_block m \<and> int (length v) = clamped_need rid n enc m"
    by (intro exI [of _ new] exI [of _ m'] exI [of _ p']) (auto simp: alloc_step_def N_def [symmetric] intro: same_shape_trans)
qed

interpretation cache_loop: manager_loop "quiet (mgr_cache_blocks r n)"
  "\<lambda>pre post p. kv_acc (pre @ post) e p \<and> same_shape p0 p \<and> enable_caching p0 \<and>
     get_num_free_blocks p = get_num_free_blocks p0 \<and> (\<forall>m\<in>set post. cache_ready r n (usable p0) (enable_kv_cache_events p0) m)"
  "\<lambda>i m v m'. same_mgr (request_id r) m m' \<and> req_to_blocks m' = req_to_blocks m \<and>
     num_cached_block m' = (num_cached_block m)(request_id r \<mapsto> n div mgr_block_size m)" for r n e p0
proof
  fix pre post :: "kv_manager list" and m p
  assume a: "kv_acc (pre @ m # post) e p \<and> same_shape p0 p \<and> enable_caching p0 \<and>
     get_num_free_blocks p = get_num_free_blocks p0 \<and> (\<forall>m\<in>set (m # post). cache_ready r n (usable p0) (enable_kv_cache_events p0) m)"
  then have "usable p = usable p0" "enable_caching p" "enable_kv_cache_events p = enable_kv_cache_events p0" using same_shapeD by auto
  with a have "enable_caching p" "cache_ready r n (usable p) (enable_kv_cache_events p) m" by auto
  from mgr_cache_ok [OF conjunct1 [OF a] this] a
  show "\<exists>v m' p'. quiet (mgr_cache_blocks r n) (length pre) m p = Inr (v, m', p') \<and>
      (kv_acc ((pre @ [m']) @ post) e p' \<and> same_shape p0 p' \<and> enable_caching p0 \<and>
       get_num_free_blocks p' = get_num_free_blocks p0 \<and> (\<forall>m\<in>set post. cache_ready r n (usable p0) (enable_kv_cache_events p0) m)) \<and>
      same_mgr (request_id r) m m' \<and> req_to_blocks m' = req_to_blocks m \<and>
      num_cached_block m' = (num_cached_block m)(request_id r \<mapsto> n div mgr_block_size m)"
    by (auto simp: quiet_def dest: same_shape_trans)
qed

end
