(* ===== verification/Prefix_Hits.thy ===== *)
theory Prefix_Hits
  imports KV_Accounting
begin

text \<open>
  What a prefix cache lookup returns, for each class of manager: the longest usable prefix, with
  the blocks of every group at the positions the attention reads. A block is cached when every
  group of the lookup has a block with its hash.
\<close>

section \<open>Cached hashes\<close>

definition cached_in :: "block_pool \<Rightarrow> int list \<Rightarrow> bytes \<Rightarrow> bool" where
  "cached_in p gids h \<longleftrightarrow> (\<forall>g\<in>set gids. \<exists>a. hash_of p a = Some (h @ be_digits 4 g))"

definition holds_hash :: "block_pool \<Rightarrow> int \<Rightarrow> bytes \<Rightarrow> addr \<Rightarrow> bool" where
  "holds_hash p g h a \<longleftrightarrow> usable p a \<and> hash_of p a = Some (h @ be_digits 4 g)"

definition valid_groups :: "int list \<Rightarrow> bool" where
  "valid_groups gids \<longleftrightarrow> gids \<noteq> [] \<and> (\<forall>g\<in>set gids. 0 \<le> g \<and> g < 2 ^ 32)"

text \<open>A lookup returns one non-empty list of blocks, or nothing.\<close>

lemma lookup_cases:
  assumes "cache_ok p" and "valid_groups gids"
  obtains (hit) b bs where "get_cached_block h gids p = Inr (Some (b # bs))" "cached_in p gids h"
      "list_all2 (\<lambda>g a. holds_hash p g h a) gids (b # bs)"
  | (miss) "get_cached_block h gids p = Inr None" "\<not> cached_in p gids h"
proof -
  obtain res where res: "get_cached_block h gids p = Inr res"
    using get_cached_block_total [of gids h p] assms(2) by (auto simp: valid_groups_def)
  show thesis
  proof (cases res)
    case None
    then show thesis using get_cached_block_complete [OF assms(1), of h gids] res miss by (auto simp: cached_in_def)
  next
    case (Some as)
    with res have l: "list_all2 (\<lambda>g a. holds_hash p g h a) gids as"
      using get_cached_block_sound [OF assms(1)] by (simp add: holds_hash_def)
    have "\<exists>a. hash_of p a = Some (h @ be_digits 4 g)" if "g \<in> set gids" for g
    proof -
      from that obtain i where "i < length gids" "gids ! i = g" by (auto simp: in_set_conv_nth)
      then show ?thesis using list_all2_nthD [OF l, of i] by (auto simp: holds_hash_def)
    qed
    then have "cached_in p gids h" by (simp add: cached_in_def)
    moreover have "as \<noteq> []" using l assms(2) by (auto simp: valid_groups_def)
    ultimately show thesis using res Some l hit by (cases as) auto
  qed
qed

text \<open>Lists of blocks, one per group, that hold the hashes of a list of blocks of tokens.\<close>

definition holds_hashes :: "block_pool \<Rightarrow> int list \<Rightarrow> bytes list \<Rightarrow> addr list list \<Rightarrow> bool" where
  "holds_hashes p gids hs cols \<longleftrightarrow> list_all2 (\<lambda>g col. list_all2 (holds_hash p g) hs col) gids cols"

lemma list_all2_map2:
  assumes "list_all2 P gs cs" and "list_all2 Q gs bs" and "\<And>g c b. P g c \<Longrightarrow> Q g b \<Longrightarrow> R g (f c b)"
  shows "list_all2 R gs (map2 f cs bs)"
  using assms unfolding list_all2_conv_all_nth by simp

lemma list_all2_snoc: "list_all2 P xs ys \<Longrightarrow> P x y \<Longrightarrow> list_all2 P (xs @ [x]) (ys @ [y])"
  by (simp add: list_all2_appendI)

lemma holds_hashes_Nil: "holds_hashes p gids [] (replicate (length gids) [])"
  by (simp add: holds_hashes_def list_all2_conv_all_nth)

lemma holds_hashes_append_hit:
  assumes "holds_hashes p gids hs cols" and "list_all2 (\<lambda>g a. holds_hash p g h a) gids bs"
  shows "holds_hashes p gids (hs @ [h]) (append_hit cols bs)"
  using assms unfolding holds_hashes_def append_hit_def by (rule list_all2_map2) (rule list_all2_snoc)

lemma hit_loop_longest:
  assumes "cache_ok p" and "valid_groups gids" and "holds_hashes p gids pre cols"
  shows "\<exists>cols'. hit_loop gids p hs cols = Inr cols' \<and>
    holds_hashes p gids (pre @ takeWhile (cached_in p gids) hs) cols'"
  using assms(3)
proof (induction hs arbitrary: pre cols)
  case Nil
  then show ?case by simp
next
  case (Cons h hs)
  show ?case
  proof (cases rule: lookup_cases [OF assms(1,2), of h, case_names hit miss])
    case (hit b bs)
    from Cons.IH [OF holds_hashes_append_hit [OF Cons.prems hit(3)]] hit show ?thesis by simp
  next
    case miss
    with Cons.prems show ?thesis by simp
  qed
qed

text \<open>The same behind a number of null blocks.\<close>

definition padded :: "block_pool \<Rightarrow> nat \<Rightarrow> bytes list \<Rightarrow> int \<Rightarrow> addr list \<Rightarrow> bool" where
  "padded p s hs g col \<longleftrightarrow> (\<exists>c. col = replicate s (null_block p) @ c \<and> list_all2 (holds_hash p g) hs c)"

lemma padded_snoc: "padded p s hs g col \<Longrightarrow> holds_hash p g h a \<Longrightarrow> padded p s (hs @ [h]) g (col @ [a])"
  unfolding padded_def by (auto intro: list_all2_snoc)

lemma chunk_loop_longest:
  assumes "cache_ok p" and "valid_groups gids" and "j + length js \<le> length hashes" and "js = [j..<j + length js]"
    and "list_all2 (padded p s pre) gids cols"
  shows "\<exists>cols'. chunk_loop hashes gids p js cols = Inr cols' \<and>
    list_all2 (padded p s (pre @ takeWhile (cached_in p gids) (take (length js) (drop j hashes)))) gids cols'"
  using assms(3-)
proof (induction js arbitrary: j pre cols)
  case Nil
  then show ?case by simp
next
  case (Cons i js)
  have "i # js = j # [Suc j..<Suc j + length js]" using Cons.prems(2) by (simp add: upt_conv_Cons del: upt_Suc)
  then have i: "i = j" "js = [Suc j..<Suc j + length js]" by auto
  have j: "j < length hashes" using Cons.prems(1) by simp
  have d: "take (Suc (length js)) (drop j hashes) = hashes ! j # take (length js) (drop (Suc j) hashes)"
    using j by (simp add: Cons_nth_drop_Suc [symmetric])
  show ?case
  proof (cases rule: lookup_cases [OF assms(1,2), of "hashes ! j", case_names hit miss])
    case (hit b bs)
    have "list_all2 (padded p s (pre @ [hashes ! j])) gids (append_hit cols (b # bs))"
      using Cons.prems(3) hit(3) unfolding append_hit_def by (rule list_all2_map2) (rule padded_snoc)
    from Cons.IH [OF _ i(2) this] Cons.prems(1) hit i(1) j d show ?thesis by simp
  next
    case miss
    with Cons.prems(3) i(1) j d show ?thesis by simp
  qed
qed

section \<open>Sliding windows\<close>

text \<open>A prefix of \<open>K\<close> blocks serves a window that needs its last \<open>need\<close> blocks.\<close>

definition window_valid :: "block_pool \<Rightarrow> int list \<Rightarrow> bytes list \<Rightarrow> int \<Rightarrow> nat \<Rightarrow> bool" where
  "window_valid p gids hashes need K \<longleftrightarrow> (\<forall>i<K. int K \<le> int i + need \<longrightarrow> cached_in p gids (hashes ! i))"

text \<open>A column whose last blocks hold their hashes and whose blocks before are null or hold theirs.\<close>

definition window_col :: "block_pool \<Rightarrow> bytes list \<Rightarrow> int \<Rightarrow> nat \<Rightarrow> nat \<Rightarrow> int \<Rightarrow> addr list \<Rightarrow> bool" where
  "window_col p hashes N lo til g col \<longleftrightarrow> int (length col) = N \<and>
     (\<forall>i<lo. col ! i = null_block p) \<and> (\<forall>i. lo \<le> i \<and> i < til \<longrightarrow> holds_hash p g (hashes ! i) (col ! i))"

lemma window_col_set:
  assumes "window_col p hashes N (Suc i) k g col" and "holds_hash p g (hashes ! i) a" and "int i < N"
  shows "window_col p hashes N i k g (col[i := a])"
  using assms unfolding window_col_def by (auto simp: nth_list_update less_Suc_eq Suc_le_eq)

lemma window_loop_longest:
  assumes "cache_ok p" and "valid_groups gids" and "1 \<le> need" and "N \<le> length hashes"
    and "n + run \<le> N" and "int run < need" and "\<forall>i. n \<le> i \<and> i < n + run \<longrightarrow> cached_in p gids (hashes ! i)"
    and "\<forall>K. n + run < K \<and> K \<le> N \<longrightarrow> \<not> window_valid p gids hashes need K"
    and "list_all2 (window_col p hashes (int N) n (n + run)) gids cols"
  shows "\<exists>K lo cols'. window_loop hashes gids p need n run cols = Inr cols' \<and> K \<le> N \<and>
    window_valid p gids hashes need K \<and> (\<forall>K'. K < K' \<and> K' \<le> N \<longrightarrow> \<not> window_valid p gids hashes need K') \<and>
    (lo = 0 \<and> int K < need \<or> int lo + need = int K) \<and> list_all2 (window_col p hashes (int K) lo K) gids cols'"
  using assms(5-)
proof (induction n arbitrary: run cols)
  case 0
  have "list_all2 (window_col p hashes (int run) 0 run) gids (map (take run) cols)"
    using 0(1,5) unfolding list.rel_map by (auto simp: window_col_def elim!: list_all2_mono)
  with 0 show ?case by (intro exI [of _ run] exI [of _ 0]) (auto simp: window_valid_def)
next
  case (Suc i)
  have i: "i < length hashes" "i < N" using Suc.prems(1) assms(4) by auto
  show ?case
  proof (cases rule: lookup_cases [OF assms(1,2), of "hashes ! i", case_names hit miss])
    case (hit b bs)
    let ?cols = "map2 (\<lambda>c b. c[i := b]) cols (b # bs)"
    have c: "list_all2 (window_col p hashes (int N) i (i + Suc run)) gids ?cols"
      using Suc.prems(5) hit(3) by (rule list_all2_map2) (use i(2) in \<open>simp add: window_col_set\<close>)
    have r: "\<forall>j. i \<le> j \<and> j < i + Suc run \<longrightarrow> cached_in p gids (hashes ! j)"
    proof (intro allI impI)
      fix j assume j: "i \<le> j \<and> j < i + Suc run"
      show "cached_in p gids (hashes ! j)"
        using Suc.prems(3) hit(2) j by (cases "j = i") auto
    qed
    show ?thesis
    proof (cases "int (Suc run) \<ge> need")
      case True
      let ?K = "i + Suc run"
      have w: "window_loop hashes gids p need (Suc i) run cols = Inr (map (take ?K) ?cols)"
        using hit(1) i True by (simp add: Let_def)
      have "window_valid p gids hashes need ?K" using r Suc.prems(2) True by (auto simp: window_valid_def)
      moreover have "list_all2 (window_col p hashes (int ?K) i ?K) gids (map (take ?K) ?cols)"
        using c Suc.prems(1) unfolding list.rel_map by (auto simp: window_col_def elim!: list_all2_mono)
      moreover have "int i + need = int ?K" using True Suc.prems(2) by simp
      ultimately show ?thesis using w Suc.prems(1,4) by (intro exI [of _ ?K] exI [of _ i]) auto
    next
      case False
      have "window_loop hashes gids p need (Suc i) run cols = window_loop hashes gids p need i (Suc run) ?cols"
        using hit(1) i False by (simp add: Let_def)
      then show ?thesis using Suc.IH [of "Suc run" ?cols] c r Suc.prems(1,4) False by simp
    qed
  next
    case miss
    have inv: "\<not> window_valid p gids hashes need K" if "i < K" "K \<le> N" for K
    proof (cases "Suc i + run < K")
      case False
      then have "int K \<le> int i + need" using Suc.prems(2) by simp
      with miss(2) that(1) show ?thesis by (auto simp: window_valid_def)
    qed (use Suc.prems(4) that in blast)
    have "list_all2 (window_col p hashes (int N) i (i + 0)) gids cols"
      using Suc.prems(5) by (auto simp: window_col_def elim!: list_all2_mono)
    moreover have "window_loop hashes gids p need (Suc i) run cols = window_loop hashes gids p need i 0 cols"
      using miss(1) i by simp
    moreover have "i + 0 \<le> N" "int 0 < need" "\<forall>j. i \<le> j \<and> j < i + 0 \<longrightarrow> cached_in p gids (hashes ! j)"
      "\<forall>K. i + 0 < K \<and> K \<le> N \<longrightarrow> \<not> window_valid p gids hashes need K"
      using i(2) assms(3) inv by auto
    ultimately show ?thesis using Suc.IH [of 0 cols] by (simp only:)
  qed
qed

section \<open>Lookups\<close>

text \<open>A column of a hit: every block is null or holds the hash of its position.\<close>

definition hit_col :: "block_pool \<Rightarrow> bytes list \<Rightarrow> nat \<Rightarrow> int \<Rightarrow> addr list \<Rightarrow> bool" where
  "hit_col p hashes K g col \<longleftrightarrow> length col = K \<and>
     (\<forall>i<K. col ! i = null_block p \<or> holds_hash p g (hashes ! i) (col ! i))"

lemma hit_col_take: "hit_col p hashes K g col \<Longrightarrow> k \<le> K \<Longrightarrow> hit_col p hashes k g (take k col)"
  by (auto simp: hit_col_def)

definition eagle_length :: "bool \<Rightarrow> nat \<Rightarrow> nat" where
  "eagle_length use_eagle K = (if use_eagle then K - 1 else K)"

lemma eagle_length_le: "eagle_length e K \<le> K" by (simp add: eagle_length_def)

lemma drop_last_hit_ok:
  assumes "cols \<noteq> []" and "\<forall>c\<in>set cols. length c = K"
  shows "drop_last_hit e cols = Inr (map (take (eagle_length e K)) cols)"
proof -
  have t: "map (take K) cols = cols" using assms(2) by (intro map_idI) simp
  have b: "map (take (K - 1)) cols = map butlast cols" using assms(2) by (simp add: butlast_conv_take)
  show ?thesis
  proof (cases "e \<and> K \<noteq> 0")
    case True
    then have "[] \<notin> set cols" using assms by auto
    with True b assms(1) show ?thesis by (cases cols) (auto simp: drop_last_hit_def eagle_length_def)
  next
    case False
    then show ?thesis using t assms by (cases cols) (auto simp: drop_last_hit_def eagle_length_def)
  qed
qed

lemma drop_last_hit_cols:
  assumes "valid_groups gids" and "list_all2 (\<lambda>g col. length col = K \<and> P g col) gids cols"
  shows "drop_last_hit e cols = Inr (map (take (eagle_length e K)) cols)"
proof (rule drop_last_hit_ok)
  show "cols \<noteq> []" using assms by (auto simp: valid_groups_def)
  show "\<forall>c\<in>set cols. length c = K" using assms(2) by (auto simp: list_all2_conv_all_nth in_set_conv_nth)
qed

lemma full_hit_cols:
  fixes hashes :: "bytes list" and max_length dcp :: int and spec :: kv_cache_spec and gids :: "int list" and p :: block_pool
  assumes "cache_ok p" and "valid_groups gids" and "0 \<le> max_length" and "0 < scaled_block_size (spec_block_size spec) dcp"
  defines "M \<equiv> nat (max_length div scaled_block_size (spec_block_size spec) dcp)"
  defines "L \<equiv> length (takeWhile (cached_in p gids) (take M hashes))"
  shows "\<exists>hits. full_find_longest_cache_hit hashes max_length gids p spec e dcp = Inr hits \<and>
    list_all2 (\<lambda>g col. list_all2 (holds_hash p g) (take (eagle_length e L) hashes) col) gids hits"
proof -
  let ?W = "takeWhile (cached_in p gids) (take M hashes)"
  have nn: "\<not> max_length div scaled_block_size (spec_block_size spec) dcp < 0"
    using assms(3,4) by (simp add: pos_imp_zdiv_neg_iff)
  from hit_loop_longest [OF assms(1,2) holds_hashes_Nil, of "take M hashes"] obtain cols where
    cols: "hit_loop gids p (take M hashes) (replicate (length gids) []) = Inr cols"
    "list_all2 (\<lambda>g col. list_all2 (holds_hash p g) ?W col) gids cols" by (auto simp: holds_hashes_def)
  have "list_all2 (\<lambda>g col. length col = L \<and> list_all2 (holds_hash p g) ?W col) gids cols"
    using cols(2) by (auto simp: L_def elim!: list_all2_mono dest: list_all2_lengthD)
  from drop_last_hit_cols [OF assms(2) this] have d: "drop_last_hit e cols = Inr (map (take (eagle_length e L)) cols)" .
  have "?W = take L hashes"
    unfolding L_def by (metis min.absorb1 takeWhile_eq_take length_take length_takeWhile_le min.bounded_iff take_take)
  moreover have "eagle_length e L \<le> L" by (rule eagle_length_le)
  ultimately have "take (eagle_length e L) ?W = take (eagle_length e L) hashes" by (simp add: min_def)
  then have "list_all2 (\<lambda>g col. list_all2 (holds_hash p g) (take (eagle_length e L) hashes) col) gids
      (map (take (eagle_length e L)) cols)"
    using cols(2) unfolding list.rel_map by (metis (no_types, lifting) list_all2_mono list_all2_takeI)
  with cols(1) d nn show ?thesis
    by (simp add: full_find_longest_cache_hit_def Let_def M_def)
qed

lemma window_hit_cols:
  fixes hashes :: "bytes list" and max_length window :: int and a :: attention_spec and e :: bool
  assumes "cache_ok p" and "valid_groups gids" and "0 < attn_block_size a" and "2 \<le> window"
  defines "N \<equiv> nat (max_length div attn_block_size a)"
  defines "need \<equiv> cdiv (window - 1) (attn_block_size a) + (if e then 1 else 0)"
  assumes "N \<le> length hashes"
  shows "\<exists>K lo hits. window_find_longest_cache_hit hashes max_length gids p a window e 1 = Inr hits \<and> K \<le> N \<and>
    window_valid p gids hashes need K \<and> (\<forall>K'. K < K' \<and> K' \<le> N \<longrightarrow> \<not> window_valid p gids hashes need K') \<and>
    (lo = 0 \<and> int K < need \<or> int lo + need = int K) \<and>
    list_all2 (\<lambda>g col. \<exists>c. col = take (eagle_length e K) c \<and> window_col p hashes (int K) lo K g c) gids hits"
proof -
  have "1 \<le> cdiv (window - 1) (attn_block_size a)"
    using cdiv_least [OF assms(3), of "window - 1" 0] cdiv_lower [OF assms(3), of "window - 1"] assms(3,4)
    by (smt (verit) mult_nonneg_nonneg zero_less_mult_iff)
  then have need: "1 \<le> need" by (simp add: need_def)
  let ?c0 = "replicate (length gids) (replicate N (null_block p))"
  have c0: "list_all2 (window_col p hashes (int N) N (N + 0)) gids ?c0"
    by (auto simp: list_all2_conv_all_nth window_col_def)
  have "\<forall>i. N \<le> i \<and> i < N + 0 \<longrightarrow> cached_in p gids (hashes ! i)"
    "\<forall>K. N + 0 < K \<and> K \<le> N \<longrightarrow> \<not> window_valid p gids hashes need K" "N + 0 \<le> N" "int 0 < need"
    using need by auto
  note l = window_loop_longest [OF assms(1,2) need assms(7) this(3,4,1,2) c0]
  then obtain K lo cols where l: "window_loop hashes gids p need N 0 ?c0 = Inr cols" "K \<le> N" "window_valid p gids hashes need K"
    "\<forall>K'. K < K' \<and> K' \<le> N \<longrightarrow> \<not> window_valid p gids hashes need K'" "lo = 0 \<and> int K < need \<or> int lo + need = int K"
    "list_all2 (window_col p hashes (int K) lo K) gids cols" by auto
  have "list_all2 (\<lambda>g col. length col = K \<and> window_col p hashes (int K) lo K g col) gids cols"
    using l(6) by (auto simp: window_col_def elim!: list_all2_mono)
  from drop_last_hit_cols [OF assms(2) this, of e] have
    "window_find_longest_cache_hit hashes max_length gids p a window e 1 = Inr (map (take (eagle_length e K)) cols)"
    using l(1) by (simp add: window_find_longest_cache_hit_def Let_def N_def need_def)
  moreover have "list_all2 (\<lambda>g col. \<exists>c. col = take (eagle_length e K) c \<and> window_col p hashes (int K) lo K g c) gids
      (map (take (eagle_length e K)) cols)"
    using l(6) unfolding list.rel_map by (auto elim!: list_all2_mono)
  ultimately show ?thesis using l by blast
qed

lemma takeWhile_take:
  "length (takeWhile P (take n xs)) \<le> n" "takeWhile P (take n xs) = take (length (takeWhile P (take n xs))) xs"
proof -
  let ?w = "takeWhile P (take n xs)"
  have "length ?w \<le> length (take n xs)" by (rule length_takeWhile_le)
  then show l: "length ?w \<le> n" by simp
  have "?w = take (length ?w) (take n xs)" by (rule takeWhile_eq_take)
  also have "\<dots> = take (length ?w) xs" using l by (simp add: min_def)
  finally show "?w = take (length ?w) xs" .
qed

lemma chunk_hit_cols:
  fixes hashes :: "bytes list" and max_length chunk :: int and a :: attention_spec
  assumes "cache_ok p" and "valid_groups gids" and "0 < attn_block_size a" and "0 < chunk" and "0 \<le> max_length"
  defines "N \<equiv> nat (max_length div attn_block_size a)"
  assumes "N \<le> length hashes"
  shows "\<exists>K hits. chunk_find_longest_cache_hit hashes max_length gids p a chunk False 1 = Inr hits \<and> K \<le> N \<and>
    list_all2 (hit_col p hashes K) gids hits"
proof -
  define idx where "idx = (if max_length > 0 then max_length div chunk * chunk else 0)"
  define st where "st = nat (idx div attn_block_size a)"
  have "max_length div chunk * chunk = max_length - max_length mod chunk" by (simp add: minus_mod_eq_div_mult)
  moreover have "0 \<le> max_length mod chunk" "max_length mod chunk \<le> max_length"
    using assms(4,5) by (simp_all add: zmod_le_nonneg_dividend)
  ultimately have "idx \<le> max_length" "0 \<le> idx" using assms(5) by (auto simp: idx_def)
  then have st: "st \<le> N" unfolding st_def N_def by (intro nat_mono zdiv_mono1) (use assms(3) in auto)
  let ?W = "takeWhile (cached_in p gids) (take (N - st) (drop st hashes))"
  have "list_all2 (padded p st []) gids (replicate (length gids) (replicate st (null_block p)))"
    by (auto simp: list_all2_conv_all_nth padded_def)
  with chunk_loop_longest [OF assms(1,2), of st "[st..<N]" hashes st "[]"] st assms(7) obtain cols where
    cols: "chunk_loop hashes gids p [st..<N] (replicate (length gids) (replicate st (null_block p))) = Inr cols"
    "list_all2 (padded p st ?W) gids cols" by auto
  note W = takeWhile_take(2) [of "cached_in p gids" "N - st" "drop st hashes"]
    takeWhile_take(1) [of "cached_in p gids" "N - st" "drop st hashes"]
  have "hit_col p hashes (st + length ?W) g col" if "padded p st ?W g col" for g col
  proof -
    from that obtain c where c: "col = replicate st (null_block p) @ c" "list_all2 (holds_hash p g) ?W c"
      by (auto simp: padded_def)
    have "holds_hash p g (hashes ! (st + j)) (c ! j)" if "j < length ?W" for j
    proof -
      have "?W ! j = drop st hashes ! j" using that by (subst W(1)) (rule nth_take)
      also have "\<dots> = hashes ! (st + j)" using st assms(7) by simp
      finally have "?W ! j = hashes ! (st + j)" .
      then show ?thesis using list_all2_nthD [OF c(2) that] by simp
    qed
    then show ?thesis using c(1) list_all2_lengthD [OF c(2)] unfolding hit_col_def
      by (auto simp: nth_append) (metis add.commute less_diff_conv2 le_add_diff_inverse not_le)
  qed
  then have "list_all2 (hit_col p hashes (st + length ?W)) gids cols" using cols(2) by (rule list_all2_mono [rotated])
  moreover have "st + length ?W \<le> N" using st W(2) by simp
  ultimately show ?thesis using cols(1)
    by (auto simp: chunk_find_longest_cache_hit_def Let_def N_def st_def idx_def)
qed

definition spec_ok :: "kv_cache_spec \<Rightarrow> bool \<Rightarrow> int \<Rightarrow> bool" where
  "spec_ok spec e dcp \<longleftrightarrow> 0 < spec_block_size spec \<and>
     (case spec of
        FullAttentionSpec _ _ _ \<Rightarrow> 0 < dcp
      | SlidingWindowSpec _ window \<Rightarrow> 2 \<le> window \<and> dcp = 1
      | ChunkedLocalAttentionSpec _ chunk \<Rightarrow> 0 < chunk \<and> \<not> e \<and> dcp = 1
      | MambaSpec _ _ _ _ _ _ \<Rightarrow> dcp = 1
      | _ \<Rightarrow> False)"

lemma scaled_block_size_1 [simp]: "scaled_block_size bs 1 = bs" by (simp add: scaled_block_size_def)

lemma scaled_pos: "0 < bs \<Longrightarrow> 0 < dcp \<Longrightarrow> 0 < scaled_block_size bs dcp" by (simp add: scaled_block_size_def)

lemma div_bound: "0 < (b::int) \<Longrightarrow> 0 \<le> n \<Longrightarrow> K \<le> nat (n div b) \<Longrightarrow> int K * b \<le> n"
proof -
  assume b: "0 < b" and n: "0 \<le> n" and K: "K \<le> nat (n div b)"
  have "0 \<le> n div b" using b n by (simp add: pos_imp_zdiv_nonneg_iff)
  with K have "int K * b \<le> (n div b) * b" using b by (intro mult_right_mono) auto
  also have "\<dots> = n - n mod b" by (simp add: minus_mod_eq_div_mult)
  also have "\<dots> \<le> n" using b by simp
  finally show ?thesis .
qed

text \<open>Every lookup succeeds, stays within the allowed length and returns columns of one length.\<close>

lemma find_longest_hit:
  assumes c: "cache_ok p" and v: "valid_groups gids" and ok: "spec_ok spec e dcp" and m: "0 \<le> max_length"
    and h: "nat (max_length div scaled_block_size (spec_block_size spec) dcp) \<le> length hashes"
  shows "\<exists>K hits. find_longest_cache_hit hashes max_length gids p spec e dcp = Inr hits \<and>
    list_all2 (hit_col p hashes K) gids hits \<and>
    K \<le> nat (max_length div scaled_block_size (spec_block_size spec) dcp)"
proof (cases spec)
  case (FullAttentionSpec a w ch)
  let ?M = "nat (max_length div scaled_block_size (spec_block_size spec) dcp)"
  let ?L = "length (takeWhile (cached_in p gids) (take ?M hashes))"
  have "0 < scaled_block_size (spec_block_size spec) dcp" using ok FullAttentionSpec by (simp add: spec_ok_def scaled_pos)
  from full_hit_cols [OF c v m this, of hashes e] obtain hits where
    hits: "full_find_longest_cache_hit hashes max_length gids p spec e dcp = Inr hits"
      "list_all2 (\<lambda>g col. list_all2 (holds_hash p g) (take (eagle_length e ?L) hashes) col) gids hits" by blast
  have le: "eagle_length e ?L \<le> ?M" using eagle_length_le [of e ?L] takeWhile_take(1) [of "cached_in p gids" ?M hashes] by simp
  have "list_all2 (hit_col p hashes (eagle_length e ?L)) gids hits"
    using hits(2) by (rule list_all2_mono) (use le h in \<open>auto simp: hit_col_def list_all2_conv_all_nth\<close>)
  then show ?thesis using hits(1) le FullAttentionSpec by (auto simp: find_longest_cache_hit_def)
next
  case (SlidingWindowSpec a w)
  then have s: "0 < attn_block_size a" "2 \<le> w" "dcp = 1" using ok by (auto simp: spec_ok_def)
  then have h': "nat (max_length div attn_block_size a) \<le> length hashes" using h SlidingWindowSpec by simp
  from window_hit_cols [OF c v s(1,2) h', of e] obtain K lo hits where
    hits: "window_find_longest_cache_hit hashes max_length gids p a w e 1 = Inr hits" "K \<le> nat (max_length div attn_block_size a)"
      "list_all2 (\<lambda>g col. \<exists>c. col = take (eagle_length e K) c \<and> window_col p hashes (int K) lo K g c) gids hits" by blast
  have "list_all2 (hit_col p hashes (eagle_length e K)) gids hits"
    using hits(3)
  proof (rule list_all2_mono)
    fix g col
    assume "\<exists>c. col = take (eagle_length e K) c \<and> window_col p hashes (int K) lo K g c"
    then obtain c where "col = take (eagle_length e K) c" "hit_col p hashes K g c"
      by (auto simp: window_col_def hit_col_def) (metis not_le)
    then show "hit_col p hashes (eagle_length e K) g col" using hit_col_take [OF _ eagle_length_le] by blast
  qed
  then show ?thesis using hits(1,2) s(3) SlidingWindowSpec eagle_length_le [of e K]
    by (auto simp: find_longest_cache_hit_def)
next
  case (ChunkedLocalAttentionSpec a ch)
  then have s: "0 < attn_block_size a" "0 < ch" "dcp = 1" "\<not> e" using ok by (auto simp: spec_ok_def)
  then have h': "nat (max_length div attn_block_size a) \<le> length hashes" using h ChunkedLocalAttentionSpec by simp
  from chunk_hit_cols [OF c v s(1,2) m h'] show ?thesis using s ChunkedLocalAttentionSpec
    by (auto simp: find_longest_cache_hit_def)
next
  case (MambaSpec bs sh dt pad ty sp)
  have "list_all2 (hit_col p hashes 0) gids (replicate (length gids) [])"
    by (simp add: list_all2_conv_all_nth hit_col_def)
  then show ?thesis using ok MambaSpec by (auto simp: find_longest_cache_hit_def spec_ok_def intro!: exI [of _ 0])
qed (use ok in \<open>auto simp: spec_ok_def\<close>)

text \<open>Hits are well-formed tables when the hashes of the request are distinct.\<close>

lemma hit_col_ok:
  assumes "hit_col p hashes K g col" and "K \<le> length hashes" and "distinct hashes" and n: "null_block p = Blk 0"
  shows "hit_ok p col"
proof -
  have el: "col ! i = Blk 0 \<or> holds_hash p g (hashes ! i) (col ! i)" if "i < length col" for i
    using assms(1) that n by (auto simp: hit_col_def)
  have inj: "i = j" if "i < length col" "j < length col" "usable p (col ! i)" "col ! i = col ! j" for i j
  proof -
    have "holds_hash p g (hashes ! i) (col ! i)" "holds_hash p g (hashes ! j) (col ! i)"
      using el [OF that(1)] el [OF that(2)] that(3,4) not_usable_null [of p] by auto
    then have "hashes ! i = hashes ! j" by (simp add: holds_hash_def)
    then show ?thesis using assms(1-3) that(1,2) by (auto simp: hit_col_def nth_eq_iff_index_eq)
  qed
  have "distinct (filter (usable p) col)"
  proof -
    have "distinct (map ((!) col) (filter (\<lambda>i. usable p (col ! i)) [0..<length col]))"
      unfolding distinct_map by (auto simp: inj_on_def intro: inj)
    moreover have "map ((!) col) (filter (\<lambda>i. usable p (col ! i)) [0..<length col]) =
        filter (usable p) (map ((!) col) [0..<length col])"
      by (simp add: filter_map o_def)
    ultimately show ?thesis by (simp add: map_nth)
  qed
  moreover have "\<forall>a\<in>set col. a = Blk 0 \<or> usable p a \<and> hash_of p a \<noteq> None"
    using el unfolding holds_hash_def by (metis in_set_conv_nth option.distinct(1))
  ultimately show ?thesis using not_usable_null [of p] unfolding hit_ok_def table_ok_def by auto
qed

section \<open>Lookups of a coordinator\<close>

text \<open>The coordinator's class fits its groups; \<open>B\<close> is the block size all of them share.\<close>

definition coord_ok :: "int \<Rightarrow> coordinator \<Rightarrow> bool" where
  "coord_ok B c \<longleftrightarrow>
     (case coord_class c of
        KVCacheCoordinatorNoPrefixCache \<Rightarrow> \<not> coord_enable_caching c
      | UnitaryKVCacheCoordinator spec bs dcp \<Rightarrow>
          length (single_type_managers c) = 1 \<and> spec_ok spec (coord_use_eagle c) dcp \<and>
          bs = scaled_block_size (spec_block_size spec) dcp \<and> bs = B \<and> coord_enable_caching c
      | HybridKVCacheCoordinator full_ids other_ids full_spec other_spec _ \<Rightarrow>
          length (single_type_managers c) = length full_ids + length other_ids \<and>
          valid_groups full_ids \<and> valid_groups other_ids \<and>
          spec_ok full_spec (coord_use_eagle c) 1 \<and> spec_ok other_spec (coord_use_eagle c) 1 \<and>
          spec_block_size full_spec = B \<and> spec_block_size other_spec = B \<and> coord_enable_caching c)"

lemma list_all2_cols:
  assumes "list_all2 (hit_col p hashes K) gids hits" and "valid_groups gids"
  shows "\<forall>col\<in>set hits. \<exists>g. hit_col p hashes K g col" "py_nth hits 0 = Inr (hits ! 0)" "length (hits ! 0) = K"
    "length hits = length gids"
proof -
  have l: "length hits = length gids" using assms(1) by (metis list_all2_lengthD)
  have ne: "hits \<noteq> []" using l assms(2) by (auto simp: valid_groups_def)
  show "\<forall>col\<in>set hits. \<exists>g. hit_col p hashes K g col"
    using assms(1) by (metis in_set_conv_nth list_all2_conv_all_nth)
  show "py_nth hits 0 = Inr (hits ! 0)" using ne by (simp add: py_nth_def)
  show "length (hits ! 0) = K" using list_all2_nthD [OF assms(1), of 0] ne assms(2) by (auto simp: hit_col_def valid_groups_def)
  show "length hits = length gids" by (rule l)
qed

lemma coord_find_ok:
  assumes c: "cache_ok (coord_pool c)" and ok: "coord_ok B c" and m: "0 \<le> max_length"
    and h: "nat (max_length div B) \<le> length hashes"
  shows "\<exists>K hits. coord_find_longest_cache_hit hashes max_length c = Inr (hits, int K * B) \<and>
    length hits = length (single_type_managers c) \<and> int K * B \<le> max_length \<and> (K = 0 \<or> K \<le> nat (max_length div B)) \<and>
    (\<forall>col\<in>set hits. \<exists>g. hit_col (coord_pool c) hashes K g col)"
proof (cases "coord_class c")
  case KVCacheCoordinatorNoPrefixCache
  with m show ?thesis by (auto simp: coord_find_longest_cache_hit_def hit_col_def intro!: exI [of _ 0])
next
  case (UnitaryKVCacheCoordinator spec bs dcp)
  have u: "length (single_type_managers c) = 1" "spec_ok spec (coord_use_eagle c) dcp" "bs = B"
    "bs = scaled_block_size (spec_block_size spec) dcp" using ok UnitaryKVCacheCoordinator by (auto simp: coord_ok_def)
  have v: "valid_groups [0]" by (simp add: valid_groups_def)
  have B: "0 < B" using u by (auto simp: spec_ok_def scaled_block_size_def split: kv_cache_spec.splits)
  from find_longest_hit [OF c v u(2) m, of hashes] h u(3,4) obtain K hits where
    k: "find_longest_cache_hit hashes max_length [0] (coord_pool c) spec (coord_use_eagle c) dcp = Inr hits"
    "list_all2 (hit_col (coord_pool c) hashes K) [0] hits" "K \<le> nat (max_length div B)" by auto
  note l = list_all2_cols [OF k(2) v]
  have "coord_find_longest_cache_hit hashes max_length c = Inr (hits, int K * B)"
    using k(1) l(2,3) u(3) UnitaryKVCacheCoordinator by (simp add: coord_find_longest_cache_hit_def)
  then show ?thesis using l(1,4) u(1) k(3) div_bound [OF B m k(3)] by auto
next
  case (HybridKVCacheCoordinator fi oi fs os ff)
  have u: "length (single_type_managers c) = length fi + length oi" "valid_groups fi" "valid_groups oi"
    "spec_ok fs (coord_use_eagle c) 1" "spec_ok os (coord_use_eagle c) 1" "spec_block_size fs = B" "spec_block_size os = B"
    using ok HybridKVCacheCoordinator by (auto simp: coord_ok_def)
  have B: "0 < B" using u(4,6) by (simp add: spec_ok_def)
  from find_longest_hit [OF c u(2,4) m, of hashes] h u(6) obtain K1 h1 where
    k1: "find_longest_cache_hit hashes max_length fi (coord_pool c) fs (coord_use_eagle c) 1 = Inr h1"
    "list_all2 (hit_col (coord_pool c) hashes K1) fi h1" "K1 \<le> nat (max_length div B)" by auto
  note l1 = list_all2_cols [OF k1(2) u(2)]
  have m2: "0 \<le> int K1 * B" "nat (int K1 * B div B) = K1" using B by auto
  from find_longest_hit [OF c u(3,5) m2(1), of hashes] k1(3) h u(7) m2(2) obtain K hits where
    k: "find_longest_cache_hit hashes (int K1 * B) oi (coord_pool c) os (coord_use_eagle c) 1 = Inr hits"
    "list_all2 (hit_col (coord_pool c) hashes K) oi hits" "K \<le> K1" by auto
  note l = list_all2_cols [OF k(2) u(3)]
  have b: "nat (int K * B div B) = K" "int K * B mod B = 0" using B by auto
  let ?h1 = "map (take K) h1"
  have "coord_find_longest_cache_hit hashes max_length c = Inr (if ff then ?h1 @ hits else hits @ ?h1, int K * B)"
    using k1(1) l1(2,3) k(1) l(2,3) u(6,7) b B HybridKVCacheCoordinator
    by (simp add: coord_find_longest_cache_hit_def Let_def)
  moreover have "\<forall>col\<in>set ?h1. \<exists>g. hit_col (coord_pool c) hashes K g col"
  proof
    fix col assume "col \<in> set ?h1"
    then obtain col' g where "col = take K col'" "hit_col (coord_pool c) hashes K1 g col'" using l1(1) by auto
    then show "\<exists>g. hit_col (coord_pool c) hashes K g col" using hit_col_take k(3) by blast
  qed
  moreover have "int K * B \<le> max_length" using div_bound [OF B m] k(3) k1(3) by simp
  ultimately show ?thesis using l(1,4) l1(4) u(1) k(3) k1(3) 
    by (intro exI [of _ K] exI [of _ "if ff then ?h1 @ hits else hits @ ?h1"]) auto
qed

section \<open>Properties\<close>

text \<open>
  C30: a prefix cache lookup for full attention returns the longest cached prefix. For a reachable
  pool, the columns of the result hold the hashes of exactly the leading blocks, up to the allowed
  length, that every group has cached, less one block when the speculative decoder has to
  recompute the last one.
\<close>

theorem full_hit_longest:
  assumes "pool_reach n True p" and "gids \<noteq> []" and "\<forall>g\<in>set gids. 0 \<le> g \<and> g < 2 ^ 32"
    and "0 \<le> max_length" and "0 < spec_block_size spec" and "0 < dcp"
  shows "\<exists>hits. full_find_longest_cache_hit hashes max_length gids p spec use_eagle dcp = Inr hits \<and>
    (let cached = takeWhile (\<lambda>h. \<forall>g\<in>set gids. \<exists>a. hash_of p a = Some (h @ be_digits 4 g))
                    (take (nat (max_length div (if dcp > 1 then spec_block_size spec * dcp else spec_block_size spec))) hashes)
     in list_all2 (\<lambda>g col. list_all2 (\<lambda>h a. usable p a \<and> hash_of p a = Some (h @ be_digits 4 g))
          (if use_eagle then take (length cached - 1) hashes else take (length cached) hashes) col) gids hits)"
proof -
  from pool_reach_inv [OF assms(1)] obtain xs where "pool_inv p xs" by blast
  then have "cache_ok p" by (rule reach_parts)
  from full_hit_cols [OF this _ assms(4) scaled_pos [OF assms(5,6)], of gids hashes use_eagle] assms(2,3)
  show ?thesis by (auto simp: valid_groups_def eagle_length_def Let_def scaled_block_size_def cached_in_def [abs_def]
      holds_hash_def [abs_def])
qed

theorem full_hit_longest_witness:
  "\<exists>p. BlockPool 4 True False False = Inr p \<and>
     full_find_longest_cache_hit [[1], [2]] 32 [0] p
       (FullAttentionSpec \<lparr>attn_block_size = 16, num_kv_heads = 1, head_size = 1, attn_dtype = ''half'', use_mla = False\<rparr> None None)
       False 1 = Inr [[]]"
proof -
  let ?a = "\<lparr>attn_block_size = 16, num_kv_heads = 1, head_size = 1, attn_dtype = ''half'', use_mla = False\<rparr>"
  from BlockPool_inv [of 4 True False False] obtain p where p: "BlockPool 4 True False False = Inr p"
    "\<forall>a. hash_of p a = None" by auto
  from full_hit_longest [OF reach_init [OF p(1)], of "[0]" 32 "FullAttentionSpec ?a None None" 1 "[[1], [2]]" False]
  show ?thesis using p by (auto simp: Let_def list_all2_Cons1)
qed

text \<open>
  C31: a prefix cache lookup for sliding-window attention returns the longest prefix that serves the window. The last
  blocks the window reads, one more with speculative decoding by EAGLE, are all cached, no longer prefix within the
  allowed length has this, and the returned columns hold these blocks, with null blocks before them; with EAGLE the
  last block is dropped from the columns, so that it is computed again.
\<close>

theorem window_hit_longest:
  fixes hashes :: "bytes list" and use_eagle :: bool
  assumes "pool_reach n True p" and "gids \<noteq> []" and "\<forall>g\<in>set gids. 0 \<le> g \<and> g < 2 ^ 32"
    and "0 < attn_block_size a" and "2 \<le> window" and "nat (max_length div attn_block_size a) \<le> length hashes"
  shows "\<exists>K hits. window_find_longest_cache_hit hashes max_length gids p a window use_eagle 1 = Inr hits \<and>
    (let need = cdiv (window - 1) (attn_block_size a) + (if use_eagle then 1 else 0)
     in K \<le> nat (max_length div attn_block_size a) \<and> window_valid p gids hashes need K \<and>
        (\<forall>K'. K < K' \<and> K' \<le> nat (max_length div attn_block_size a) \<longrightarrow> \<not> window_valid p gids hashes need K') \<and>
        list_all2 (\<lambda>g col. length col = (if use_eagle then K - 1 else K) \<and>
          (\<forall>i<length col. if int K \<le> int i + need
             then usable p (col ! i) \<and> hash_of p (col ! i) = Some (hashes ! i @ be_digits 4 g)
             else col ! i = null_block p)) gids hits)"
proof -
  let ?need = "cdiv (window - 1) (attn_block_size a) + (if use_eagle then 1 else 0)"
  from pool_reach_inv [OF assms(1)] obtain xs where "pool_inv p xs" by blast
  then have "cache_ok p" by (rule reach_parts)
  moreover have "valid_groups gids" using assms(2,3) by (simp add: valid_groups_def)
  ultimately obtain K lo hits where
    k: "window_find_longest_cache_hit hashes max_length gids p a window use_eagle 1 = Inr hits"
    "K \<le> nat (max_length div attn_block_size a)" "window_valid p gids hashes ?need K"
    "\<forall>K'. K < K' \<and> K' \<le> nat (max_length div attn_block_size a) \<longrightarrow> \<not> window_valid p gids hashes ?need K'"
    "lo = 0 \<and> int K < ?need \<or> int lo + ?need = int K"
    and c: "list_all2 (\<lambda>g col. \<exists>c. col = take (eagle_length use_eagle K) c \<and> window_col p hashes (int K) lo K g c) gids hits"
    using window_hit_cols [of p gids a window max_length hashes use_eagle, OF _ _ assms(4,5,6)] by blast
  have "length col = (if use_eagle then K - 1 else K) \<and> (\<forall>i<length col. if int K \<le> int i + ?need
      then usable p (col ! i) \<and> hash_of p (col ! i) = Some (hashes ! i @ be_digits 4 g) else col ! i = null_block p)"
    if w: "window_col p hashes (int K) lo K g c'" "col = take (eagle_length use_eagle K) c'" for g col c'
  proof -
    have l: "length col = eagle_length use_eagle K" "length c' = K" using w eagle_length_le [of use_eagle K] by (auto simp: window_col_def)
    have "if int K \<le> int i + ?need then usable p (col ! i) \<and> hash_of p (col ! i) = Some (hashes ! i @ be_digits 4 g) else col ! i = null_block p"
      if "i < length col" for i
    proof -
      have i: "i < K" "col ! i = c' ! i" using that l w(2) eagle_length_le [of use_eagle K] by auto
      show ?thesis
      proof (cases "int K \<le> int i + ?need")
        case True
        then have "lo \<le> i" using k(5) by linarith
        then show ?thesis using w(1) i True by (simp add: window_col_def holds_hash_def)
      next
        case False
        then have "i < lo" using k(5) i(1) by linarith
        then show ?thesis using w(1) i False by (simp add: window_col_def)
      qed
    qed
    then show ?thesis using l by (simp add: eagle_length_def)
  qed
  note col = this
  have "list_all2 (\<lambda>g col. length col = (if use_eagle then K - 1 else K) \<and> (\<forall>i<length col. if int K \<le> int i + ?need
      then usable p (col ! i) \<and> hash_of p (col ! i) = Some (hashes ! i @ be_digits 4 g) else col ! i = null_block p)) gids hits"
    using c by (rule list_all2_mono) (use col in blast)
  with k(1-4) show ?thesis unfolding Let_def by blast
qed

theorem window_hit_longest_witness:
  "\<exists>p. BlockPool 4 True False False = Inr p \<and>
     (\<exists>hits. window_find_longest_cache_hit [[1], [2]] 32 [0] p
       \<lparr>attn_block_size = 16, num_kv_heads = 1, head_size = 1, attn_dtype = ''half'', use_mla = False\<rparr> 17 True 1 = Inr hits)"
proof -
  let ?a = "\<lparr>attn_block_size = 16, num_kv_heads = 1, head_size = 1, attn_dtype = ''half'', use_mla = False\<rparr>"
  from BlockPool_inv [of 4 True False False] obtain p where p: "BlockPool 4 True False False = Inr p" by auto
  from window_hit_longest [OF reach_init [OF p], of "[0]" ?a 17 32 "[[1], [2]]" True]
  show ?thesis using p by (auto simp: Let_def)
qed

end
