(* ===== verification/KV_Manager.thy ===== *)
theory KV_Manager
  imports Prefix_Hits
begin

text \<open>
  \<^verbatim>\<open>KVCacheManager\<close> of \<^verbatim>\<open>vllm/v1/core/kv_cache_manager.py\<close>, the scheduler's interface to the KV cache:
  prefix cache lookups, slot allocation, freeing, statistics. The clock is an argument.
\<close>

section \<open>State\<close>

text \<open>\<^verbatim>\<open>KVCacheBlocks\<close>: one list of blocks per group.\<close>

type_synonym KVCacheBlocks = "addr list list"

definition blocks_add :: "KVCacheBlocks \<Rightarrow> KVCacheBlocks \<Rightarrow> KVCacheBlocks" where
  "blocks_add xs ys = map2 (@) xs ys"

definition blocks_get_block_ids :: "bool \<Rightarrow> block_pool \<Rightarrow> KVCacheBlocks \<Rightarrow> int list list option" where
  "blocks_get_block_ids allow_none p bs =
     (if allow_none \<and> (\<forall>g\<in>set bs. g = []) then None
      else Some (map (map (\<lambda>a. block_id (pool_heap p a))) bs))"

definition get_unhashed_block_ids :: "block_pool \<Rightarrow> KVCacheBlocks \<Rightarrow> int list result" where
  "get_unhashed_block_ids p bs =
     (case bs of
        [g] \<Rightarrow> Inr (map (\<lambda>a. block_id (pool_heap p a)) (filter (\<lambda>a. block_hash (pool_heap p a) = None) g))
      | _ \<Rightarrow> Inl AssertionError)"

definition new_empty :: "KVCacheBlocks \<Rightarrow> KVCacheBlocks" where
  "new_empty bs = replicate (length bs) []"

record prefix_cache_stats =
  stats_reset :: bool
  stats_requests :: int
  stats_queries :: int
  stats_hits :: int

definition PrefixCacheStats :: prefix_cache_stats where
  "PrefixCacheStats = \<lparr>stats_reset = False, stats_requests = 0, stats_queries = 0, stats_hits = 0\<rparr>"

record kv_cache_manager =
  km_max_model_len :: int
  km_enable_caching :: bool
  km_use_eagle :: bool
  km_log_stats :: bool
  km_stats :: "prefix_cache_stats option"
  recent_prefix_cache_lookups :: "(real \<times> int \<times> int) list"
  km_block_size :: "int option"
  km_coordinator :: coordinator
  num_kv_cache_groups :: nat

abbreviation km_pool :: "kv_cache_manager \<Rightarrow> block_pool" where
  "km_pool k \<equiv> coord_pool (km_coordinator k)"

abbreviation km_managers :: "kv_cache_manager \<Rightarrow> kv_manager list" where
  "km_managers k \<equiv> single_type_managers (km_coordinator k)"

definition KVCacheManager ::
  "bool \<Rightarrow> KVCacheConfig \<Rightarrow> int \<Rightarrow> bool \<Rightarrow> bool \<Rightarrow> bool \<Rightarrow> bool \<Rightarrow> int \<Rightarrow> kv_cache_manager result" where
  "KVCacheManager use_int cfg max_model_len caching use_eagle log_stats kv_events dcp =
     (let sizes = map (\<lambda>g. spec_block_size (group_spec g)) (kv_cache_groups cfg)
      in rbind
        (if \<not> caching then Inr None
         else case remdups sizes of
           [bs] \<Rightarrow>
             if dcp > 1
             then (if length (kv_cache_groups cfg) = 1 then Inr (Some (bs * dcp)) else Inl AssertionError)
             else Inr (Some bs)
         | _ \<Rightarrow> Inl AssertionError) (\<lambda>bs.
          rbind (get_kv_cache_coordinator use_int cfg max_model_len use_eagle caching kv_events dcp) (\<lambda>c.
            Inr \<lparr>km_max_model_len = max_model_len, km_enable_caching = caching, km_use_eagle = use_eagle,
                 km_log_stats = log_stats, km_stats = (if log_stats then Some PrefixCacheStats else None),
                 recent_prefix_cache_lookups = [], km_block_size = bs, km_coordinator = c,
                 num_kv_cache_groups = length (kv_cache_groups cfg)\<rparr>)))"

section \<open>Statistics\<close>

definition usage :: "kv_cache_manager \<Rightarrow> real" where
  "usage k = get_usage (km_pool k)"

definition make_prefix_cache_stats :: "kv_cache_manager \<Rightarrow> prefix_cache_stats option \<times> kv_cache_manager" where
  "make_prefix_cache_stats k =
     (if \<not> km_log_stats k then (None, k) else (km_stats k, k\<lparr>km_stats := Some PrefixCacheStats\<rparr>))"

text \<open>The snapshot: queried tokens, hit tokens, hit rate if anything was queried, window.\<close>

definition get_recent_prefix_cache_stats ::
  "real \<Rightarrow> real \<Rightarrow> kv_cache_manager \<Rightarrow> (int \<times> int \<times> real option \<times> real) \<times> kv_cache_manager" where
  "get_recent_prefix_cache_stats now window_s k =
     (if \<not> km_enable_caching k then ((0, 0, None, window_s), k)
      else
        let cutoff = now - max 0 window_s;
            recent = dropWhile (\<lambda>(t, _, _). t < cutoff) (recent_prefix_cache_lookups k);
            queries = (\<Sum>(_, q, _)\<leftarrow>recent. q);
            hits = (\<Sum>(_, _, h)\<leftarrow>recent. h)
        in ((queries, hits, if queries > 0 then Some (of_int hits / of_int queries) else None, window_s),
            k\<lparr>recent_prefix_cache_lookups := recent\<rparr>))"

text \<open>\<^verbatim>\<open>deque(maxlen=n)\<close>: appending to a full deque drops its oldest element.\<close>

definition deque_append :: "nat \<Rightarrow> 'a \<Rightarrow> 'a list \<Rightarrow> 'a list" where
  "deque_append n x xs = drop (length xs + 1 - n) (xs @ [x])"

section \<open>Lookup\<close>

definition create_empty_block_list :: "kv_cache_manager \<Rightarrow> KVCacheBlocks" where
  "create_empty_block_list k = replicate (num_kv_cache_groups k) []"

definition skips_prefix_cache :: "request \<Rightarrow> bool" where
  "skips_prefix_cache r = (case sampling_params_of r of Some sp \<Rightarrow> sp_prompt_logprobs sp \<noteq> None | None \<Rightarrow> False)"

definition get_computed_blocks ::
  "real \<Rightarrow> request \<Rightarrow> kv_cache_manager \<Rightarrow> ((KVCacheBlocks \<times> int) \<times> kv_cache_manager) result" where
  "get_computed_blocks now r k =
     (if \<not> km_enable_caching k \<or> skips_prefix_cache r then Inr ((create_empty_block_list k, 0), k)
      else rbind (coord_find_longest_cache_hit (block_hashes r) (num_tokens r - 1) (km_coordinator k)) (\<lambda>(hits, n).
        let k = k\<lparr>recent_prefix_cache_lookups :=
                   deque_append 4096 (now, num_tokens r, n) (recent_prefix_cache_lookups k)\<rparr>
        in if \<not> km_log_stats k then Inr ((hits, n), k)
           else case km_stats k of
             None \<Rightarrow> Inl AssertionError
           | Some st \<Rightarrow>
               Inr ((hits, n), k\<lparr>km_stats := Some (st\<lparr>stats_requests := stats_requests st + 1,
                 stats_queries := stats_queries st + num_tokens r, stats_hits := stats_hits st + n\<rparr>)\<rparr>)))"

section \<open>Allocation\<close>

definition allocate_slots ::
  "request \<Rightarrow> int \<Rightarrow> int \<Rightarrow> KVCacheBlocks option \<Rightarrow> int \<Rightarrow> bool \<Rightarrow> int \<Rightarrow> kv_cache_manager \<Rightarrow>
   (KVCacheBlocks option \<times> kv_cache_manager) result" where
  "allocate_slots r num_new_tokens num_new_computed new_computed num_lookahead delay_cache num_encoder k =
     (if num_new_tokens = 0 then Inl ValueError
      else
        let hits = (case new_computed of Some bs \<Rightarrow> bs | None \<Rightarrow> replicate (length (coord_groups (km_coordinator k))) [])
        in rbind (remove_skipped_blocks (request_id r) (num_computed_tokens r) (km_coordinator k)) (\<lambda>c.
          let num_computed = num_computed_tokens r + num_new_computed;
              num_need_slot = min (num_computed + num_new_tokens + num_lookahead) (km_max_model_len k)
          in rbind (get_num_blocks_to_allocate (request_id r) num_need_slot hits num_encoder c) (\<lambda>num_blocks.
            if num_blocks > get_num_free_blocks (coord_pool c) then Inr (None, k\<lparr>km_coordinator := c\<rparr>)
            else
              rbind (if km_enable_caching k then rbind (touch hits (coord_pool c)) (\<lambda>p. Inr (c\<lparr>coord_pool := p\<rparr>))
                     else if \<exists>h\<in>set hits. h \<noteq> [] then Inl AssertionError else Inr c) (\<lambda>c.
                rbind (save_new_computed_blocks (request_id r) hits c) (\<lambda>c.
                  rbind (allocate_new_blocks (request_id r) num_need_slot num_encoder c) (\<lambda>(new, c).
                    if \<not> km_enable_caching k \<or> delay_cache then Inr (Some new, k\<lparr>km_coordinator := c\<rparr>)
                    else
                      let num_to_cache = min (num_computed + num_new_tokens) (num_tokens r)
                      in rbind (coord_cache_blocks r num_to_cache c) (\<lambda>c.
                        Inr (Some new, k\<lparr>km_coordinator := c\<rparr>))))))))"

definition km_free :: "request \<Rightarrow> kv_cache_manager \<Rightarrow> kv_cache_manager result" where
  "km_free r k = rbind (coord_free (request_id r) (km_coordinator k)) (\<lambda>c. Inr (k\<lparr>km_coordinator := c\<rparr>))"

definition reset_prefix_cache :: "kv_cache_manager \<Rightarrow> (bool \<times> kv_cache_manager) result" where
  "reset_prefix_cache k =
     (case pool_reset_prefix_cache (km_pool k) of (ok, p) \<Rightarrow>
        if \<not> ok then Inr (False, k)
        else
          let k = k\<lparr>km_coordinator := (km_coordinator k)\<lparr>coord_pool := p\<rparr>, recent_prefix_cache_lookups := []\<rparr>
          in if \<not> km_log_stats k then Inr (True, k)
             else case km_stats k of
               None \<Rightarrow> Inl AssertionError
             | Some st \<Rightarrow> Inr (True, k\<lparr>km_stats := Some (st\<lparr>stats_reset := True\<rparr>)\<rparr>))"

definition get_num_common_prefix_blocks :: "request \<Rightarrow> int \<Rightarrow> kv_cache_manager \<Rightarrow> int list result" where
  "get_num_common_prefix_blocks r num_running k =
     (if status r \<noteq> RUNNING then Inl AssertionError
      else Inr (coord_num_common_prefix_blocks (request_id r) num_running (km_coordinator k)))"

definition km_take_events :: "kv_cache_manager \<Rightarrow> kv_event list \<times> kv_cache_manager" where
  "km_take_events k =
     (case pool_take_events (km_pool k) of (evs, p) \<Rightarrow>
        (evs, k\<lparr>km_coordinator := (km_coordinator k)\<lparr>coord_pool := p\<rparr>\<rparr>))"

definition get_blocks :: "string \<Rightarrow> kv_cache_manager \<Rightarrow> KVCacheBlocks" where
  "get_blocks rid k = coord_get_blocks rid (km_coordinator k)"

definition get_block_ids :: "string \<Rightarrow> kv_cache_manager \<Rightarrow> int list list" where
  "get_block_ids rid k = the (blocks_get_block_ids False (km_pool k) (get_blocks rid k))"

definition cache_blocks :: "request \<Rightarrow> int \<Rightarrow> kv_cache_manager \<Rightarrow> kv_cache_manager result" where
  "cache_blocks r num_computed k =
     (if km_enable_caching k
      then rbind (coord_cache_blocks r num_computed (km_coordinator k)) (\<lambda>c. Inr (k\<lparr>km_coordinator := c\<rparr>))
      else Inr k)"

section \<open>Touching the blocks of a hit\<close>

definition evictable :: "block_pool \<Rightarrow> addr list \<Rightarrow> int" where
  "evictable p bs = int (length (filter (\<lambda>a. ref_cnt (pool_heap p a) = 0 \<and> \<not> is_null (pool_heap p a)) bs))"

lemma touch_acc:
  assumes acc: "kv_acc ms (\<lambda>_. 0) p" and h: "\<forall>bs\<in>set hits. hit_ok p bs"
  shows "\<exists>p'. touch hits p = Inr p' \<and> kv_acc ms (count_list (concat hits)) p' \<and> same_shape p p' \<and>
    (\<forall>a. hash_of p' a = hash_of p a) \<and>
    get_num_free_blocks p - (\<Sum>bs\<leftarrow>hits. evictable p bs) \<le> get_num_free_blocks p'"
proof -
  from kv_accD(1) [OF acc] obtain xs where xs: "pool_inv p xs" by blast
  have el: "\<forall>a\<in>set (concat hits). usable p a \<or> a = Blk 0" using h by (auto simp: hit_ok_def table_ok_def)
  from touch_ok [OF xs el] obtain p' where p': "touch hits p = Inr p'"
    "pool_inv p' (filter (\<lambda>a. a \<notin> set (concat hits)) xs)"
    "\<And>b. ref_of p' b = ref_of p b + int (count_list (concat hits) b)" "\<And>b. hash_of p' b = hash_of p b" "same_shape p p'"
    unfolding same_shape_def by (auto dest: touch_events)
  have us: "usable p' = usable p" using p'(5) by (rule same_shapeD)
  have "mgr_ok p' m" if "m \<in> set ms" for m using acc_others [OF acc that p'(5)] p'(4) by simp
  moreover have "ref_of p' a \<le> 1" if "usable p a" "hash_of p' a = None" for a
  proof -
    have "hash_of p a = None" using that(2) p'(4) by simp
    then have "a \<notin> set (concat hits)" using h that(1) unfolding hit_ok_def by (metis set_concat UN_iff)
    then show ?thesis using kv_accD(4) [OF acc that(1)] that(2) p'(3,4) by simp
  qed
  moreover have "ref_of p' a = int (total_refs ms a + count_list (concat hits) a)" if "usable p a" for a
    using kv_accD(3) [OF acc that] p'(3) by simp
  ultimately have k: "kv_acc ms (count_list (concat hits)) p'" unfolding kv_acc_def us using p'(2) by blast
  have pf: "pool_frame p" using reach_parts(6) [OF xs] .
  have dx: "distinct xs" using reach_parts(3) [OF xs] by (simp add: refs_ok_def)
  let ?E = "\<lambda>bs. filter (\<lambda>a. ref_of p a = 0 \<and> \<not> is_null (pool_heap p a)) bs"
  have "length (filter (\<lambda>a. a \<in> set (concat hits)) xs) = card (set (filter (\<lambda>a. a \<in> set (concat hits)) xs))"
    using dx by (metis distinct_card distinct_filter)
  also have "set (filter (\<lambda>a. a \<in> set (concat hits)) xs) \<subseteq> set (?E (concat hits))"
    using free_list_unused [OF xs] usable_not_null [OF pf] by auto
  then have "card (set (filter (\<lambda>a. a \<in> set (concat hits)) xs)) \<le> card (set (?E (concat hits)))"
    by (intro card_mono) auto
  also have "\<dots> \<le> length (?E (concat hits))" by (rule card_length)
  finally have "length (filter (\<lambda>a. a \<in> set (concat hits)) xs) \<le> length (?E (concat hits))" .
  moreover have "int (length (?E (concat hs))) = (\<Sum>bs\<leftarrow>hs. evictable p bs)" for hs
    by (induction hs) (auto simp: evictable_def)
  moreover have "length xs = length (filter (\<lambda>a. a \<in> set (concat hits)) xs) + length (filter (\<lambda>a. a \<notin> set (concat hits)) xs)"
    by (rule sum_length_filter_compl [symmetric])
  ultimately have "get_num_free_blocks p - (\<Sum>bs\<leftarrow>hits. evictable p bs) \<le> get_num_free_blocks p'"
    using reach_parts(4) [OF xs] reach_parts(4) [OF p'(2)] by (smt (verit) of_nat_add of_nat_le_iff)
  with p' k show ?thesis by blast
qed

section \<open>Counting blocks\<close>

text \<open>Blocks a manager still lacks once the hit is saved, before clamping at zero.\<close>

definition need_after :: "string \<Rightarrow> int \<Rightarrow> int \<Rightarrow> addr list \<Rightarrow> kv_manager \<Rightarrow> int" where
  "need_after rid n enc hit m =
     blocks_needed rid (if is_cross_attention (mgr_spec m) then enc else n) m - int (length hit)"

lemma blocks_to_allocate_sum:
  assumes "length hits = i + length ms" and "\<forall>j<length ms. is_cross_attention (mgr_spec (ms ! j)) \<longrightarrow> hits ! (i + j) = []"
  shows "blocks_to_allocate_from rid n hits enc p i ms =
    Inr (\<Sum>j<length ms. need_after rid n enc (hits ! (i + j)) (ms ! j) + evictable p (hits ! (i + j)))"
  using assms
proof (induction ms arbitrary: i)
  case Nil
  then show ?case by simp
next
  case (Cons m ms)
  have IH: "blocks_to_allocate_from rid n hits enc p (Suc i) ms =
    Inr (\<Sum>j<length ms. need_after rid n enc (hits ! (Suc i + j)) (ms ! j) + evictable p (hits ! (Suc i + j)))"
  proof (rule Cons.IH)
    show "length hits = Suc i + length ms" using Cons.prems(1) by simp
    show "\<forall>j<length ms. is_cross_attention (mgr_spec (ms ! j)) \<longrightarrow> hits ! (Suc i + j) = []"
      using Cons.prems(2) by (metis add_Suc_shift length_Cons not_less_eq nth_Cons_Suc)
  qed
  have i: "py_nth hits (int i) = Inr (hits ! i)" using Cons.prems(1) by simp
  have cr: "is_cross_attention (mgr_spec m) \<Longrightarrow> hits ! i = []" using Cons.prems(2) by force
  have "(if is_cross_attention (mgr_spec m) then Inr (mgr_num_blocks_to_allocate rid enc [] p m)
         else rbind (py_nth hits (int i)) (\<lambda>bs. Inr (mgr_num_blocks_to_allocate rid n bs p m))) =
      Inr (need_after rid n enc (hits ! i) m + evictable p (hits ! i))"
    using i cr by (auto simp: mgr_num_blocks_to_allocate_def need_after_def blocks_needed_def evictable_def Let_def)
  then show ?case using IH
    by (simp add: sum.lessThan_Suc_shift del: sum.lessThan_Suc)
qed

section \<open>The manager's invariant\<close>

text \<open>Accounting over all block tables, and a coordinator that fits the block size \<open>B\<close>.\<close>

definition km_inv :: "int \<Rightarrow> kv_cache_manager \<Rightarrow> bool" where
  "km_inv B k \<longleftrightarrow> kv_inv (km_managers k) (km_pool k) \<and> coord_ok B (km_coordinator k) \<and>
     enable_caching (km_pool k) = km_enable_caching k \<and>
     coord_enable_caching (km_coordinator k) = km_enable_caching k \<and>
     length (coord_groups (km_coordinator k)) = length (km_managers k) \<and>
     num_kv_cache_groups k = length (km_managers k) \<and> (km_log_stats k \<longrightarrow> km_stats k \<noteq> None) \<and>
     (km_enable_caching k \<longrightarrow> (\<forall>m\<in>set (km_managers k). mgr_block_size m = B))"

lemma coord_ok_update:
  assumes "coord_ok B c" and "length ms = length (single_type_managers c)"
  shows "coord_ok B (c\<lparr>single_type_managers := ms, coord_pool := p\<rparr>)"
  using assms by (simp add: coord_ok_def split: coordinator_class.splits)

text \<open>What a loop over the managers leaves of the invariant besides the accounting.\<close>

lemma km_inv_update:
  assumes inv: "km_inv B k" and acc: "kv_inv ms p" and sh: "same_shape (km_pool k) p"
    and l: "length ms = length (km_managers k)"
    and bs: "\<And>j. j < length ms \<Longrightarrow> mgr_block_size (ms ! j) = mgr_block_size (km_managers k ! j)"
  shows "km_inv B (k\<lparr>km_coordinator := (km_coordinator k)\<lparr>single_type_managers := ms, coord_pool := p\<rparr>\<rparr>)"
proof -
  have "\<forall>m\<in>set ms. mgr_block_size m = B" if "km_enable_caching k"
    using inv that bs l unfolding km_inv_def by (metis in_set_conv_nth)
  then show ?thesis using inv acc sh l coord_ok_update [of B "km_coordinator k" ms p]
    unfolding km_inv_def same_shape_def by simp
qed

section \<open>The stages of an allocation\<close>

abbreviation with_managers :: "coordinator \<Rightarrow> kv_manager list \<Rightarrow> block_pool \<Rightarrow> coordinator" where
  "with_managers c ms p \<equiv> c\<lparr>single_type_managers := ms, coord_pool := p\<rparr>"

lemma skip_stage:
  assumes "kv_inv (single_type_managers c) (coord_pool c)"
    and "\<forall>m\<in>set (single_type_managers c). skippable rid n (enable_caching (coord_pool c)) m"
  shows "\<exists>ms p. remove_skipped_blocks rid n c = Inr (with_managers c ms p) \<and> kv_inv ms p \<and>
    unhashed_changes (coord_pool c) p \<and> length ms = length (single_type_managers c) \<and>
    (\<forall>j<length ms. same_mgr rid (single_type_managers c ! j) (ms ! j) \<and>
       length (req_to_blocks (ms ! j) rid) = length (req_to_blocks (single_type_managers c ! j) rid) \<and>
       num_cached_block (ms ! j) = num_cached_block (single_type_managers c ! j) \<and>
       (\<forall>i. first_useful_block rid n (single_type_managers c ! j) \<le> int i \<longrightarrow>
          req_to_blocks (ms ! j) rid ! i = req_to_blocks (single_type_managers c ! j) rid ! i))"
proof -
  have "kv_acc ([] @ single_type_managers c) (\<lambda>_. 0) (coord_pool c) \<and> unhashed_changes (coord_pool c) (coord_pool c) \<and>
      (\<forall>m\<in>set (single_type_managers c). skippable rid n (enable_caching (coord_pool c)) m)"
    using assms by (simp add: unhashed_changes_def)
  from skip_loop.on_managers [OF this] obtain vs ms p where
    "on_managers (quiet (mgr_remove_skipped_blocks rid n)) c = Inr (vs, with_managers c ms p)" and rest:
    "kv_acc (ms @ []) (\<lambda>_. 0) p" "unhashed_changes (coord_pool c) p" "length ms = length (single_type_managers c)"
    "\<forall>j<length ms. same_mgr rid (single_type_managers c ! j) (ms ! j) \<and>
       length (req_to_blocks (ms ! j) rid) = length (req_to_blocks (single_type_managers c ! j) rid) \<and>
       num_cached_block (ms ! j) = num_cached_block (single_type_managers c ! j) \<and>
       (\<forall>i. first_useful_block rid n (single_type_managers c ! j) \<le> int i \<longrightarrow>
          req_to_blocks (ms ! j) rid ! i = req_to_blocks (single_type_managers c ! j) rid ! i)" by blast
  then have "remove_skipped_blocks rid n c = Inr (with_managers c ms p)" by (simp add: remove_skipped_blocks_def)
  with rest show ?thesis by (intro exI [of _ ms] exI [of _ p]) simp
qed

lemma save_stage:
  assumes acc: "kv_acc (single_type_managers c) (count_list (concat hits)) (coord_pool c)"
    and l: "length hits = length (single_type_managers c)" and h: "\<forall>bs\<in>set hits. hit_ok (coord_pool c) bs"
    and s: "\<forall>j<length (single_type_managers c). savable rid (hits ! j) (single_type_managers c ! j)"
  shows "\<exists>ms. save_new_computed_blocks rid hits c = Inr (with_managers c ms (coord_pool c)) \<and>
    kv_inv ms (coord_pool c) \<and> length ms = length (single_type_managers c) \<and>
    (\<forall>j<length ms. saved rid (hits ! j) (single_type_managers c ! j) (ms ! j))"
proof -
  have "kv_acc ([] @ single_type_managers c) (count_list (concat (drop (length ([] :: kv_manager list)) hits))) (coord_pool c) \<and>
     coord_pool c = coord_pool c \<and> length hits = length ([] :: kv_manager list) + length (single_type_managers c) \<and>
     (\<forall>bs\<in>set hits. hit_ok (coord_pool c) bs) \<and>
     (\<forall>j<length (single_type_managers c). savable rid (hits ! (length ([] :: kv_manager list) + j)) (single_type_managers c ! j))"
    using assms by simp
  from save_loop.on_managers [OF this] obtain vs ms p where
    m: "on_managers (save_step rid hits) c = Inr (vs, with_managers c ms p)"
      "kv_acc ms (count_list (concat (drop (length ms) hits))) p" "p = coord_pool c" "length ms = length (single_type_managers c)"
      "\<forall>j<length ms. saved rid (hits ! j) (single_type_managers c ! j) (ms ! j)" by auto
  have "count_list (concat (drop (length ms) hits)) = (\<lambda>_. 0)" using l m(4) by (simp add: fun_eq_iff)
  with m show ?thesis by (auto simp: save_new_computed_blocks_def)
qed

lemma alloc_stage:
  assumes "kv_inv (single_type_managers c) (coord_pool c)"
    and "(\<Sum>m\<leftarrow>single_type_managers c. clamped_need rid n enc m) \<le> get_num_free_blocks (coord_pool c)"
    and "\<forall>m\<in>set (single_type_managers c). \<not> is_cross_attention (mgr_spec m) \<longrightarrow> num_cached_block m rid \<noteq> None"
  shows "\<exists>new ms p. allocate_new_blocks rid n enc c = Inr (new, with_managers c ms p) \<and> kv_inv ms p \<and>
    same_shape (coord_pool c) p \<and> length ms = length (single_type_managers c) \<and> length new = length ms \<and>
    (\<forall>j<length ms. same_mgr rid (single_type_managers c ! j) (ms ! j) \<and>
       req_to_blocks (ms ! j) rid = req_to_blocks (single_type_managers c ! j) rid @ new ! j \<and>
       num_cached_block (ms ! j) = num_cached_block (single_type_managers c ! j) \<and>
       int (length (new ! j)) = clamped_need rid n enc (single_type_managers c ! j))"
proof -
  have "kv_acc ([] @ single_type_managers c) (\<lambda>_. 0) (coord_pool c) \<and> same_shape (coord_pool c) (coord_pool c) \<and>
     (\<Sum>m\<leftarrow>single_type_managers c. clamped_need rid n enc m) \<le> get_num_free_blocks (coord_pool c) \<and>
     (\<forall>m\<in>set (single_type_managers c). \<not> is_cross_attention (mgr_spec m) \<longrightarrow> num_cached_block m rid \<noteq> None)"
    using assms by simp
  from alloc_loop.on_managers [OF this] obtain new ms p where
    "on_managers (alloc_step rid n enc) c = Inr (new, with_managers c ms p)" "kv_acc (ms @ []) (\<lambda>_. 0) p"
    "same_shape (coord_pool c) p" "length new = length (single_type_managers c)" "length ms = length (single_type_managers c)"
    "\<forall>j<length ms. same_mgr rid (single_type_managers c ! j) (ms ! j) \<and>
       req_to_blocks (ms ! j) rid = req_to_blocks (single_type_managers c ! j) rid @ new ! j \<and>
       num_cached_block (ms ! j) = num_cached_block (single_type_managers c ! j) \<and>
       int (length (new ! j)) = clamped_need rid n enc (single_type_managers c ! j)" by blast
  then show ?thesis unfolding allocate_new_blocks_def by (intro exI [of _ new] exI [of _ ms] exI [of _ p]) simp
qed

lemma cache_stage:
  assumes "kv_inv (single_type_managers c) (coord_pool c)" and "enable_caching (coord_pool c)"
    and "\<forall>m\<in>set (single_type_managers c). cache_ready r n (usable (coord_pool c)) (enable_kv_cache_events (coord_pool c)) m"
  shows "\<exists>ms p. coord_cache_blocks r n c = Inr (with_managers c ms p) \<and> kv_inv ms p \<and>
    same_shape (coord_pool c) p \<and> length ms = length (single_type_managers c) \<and>
    (\<forall>j<length ms. same_mgr (request_id r) (single_type_managers c ! j) (ms ! j) \<and>
       req_to_blocks (ms ! j) = req_to_blocks (single_type_managers c ! j) \<and>
       num_cached_block (ms ! j) = (num_cached_block (single_type_managers c ! j))
         (request_id r \<mapsto> n div mgr_block_size (single_type_managers c ! j)))"
proof -
  have "kv_acc ([] @ single_type_managers c) (\<lambda>_. 0) (coord_pool c) \<and> same_shape (coord_pool c) (coord_pool c) \<and>
     enable_caching (coord_pool c) \<and> get_num_free_blocks (coord_pool c) = get_num_free_blocks (coord_pool c) \<and>
     (\<forall>m\<in>set (single_type_managers c). cache_ready r n (usable (coord_pool c)) (enable_kv_cache_events (coord_pool c)) m)"
    using assms by simp
  from cache_loop.on_managers [OF this] obtain vs ms p where
    "on_managers (quiet (mgr_cache_blocks r n)) c = Inr (vs, with_managers c ms p)" and rest:
    "kv_acc (ms @ []) (\<lambda>_. 0) p" "same_shape (coord_pool c) p" "length ms = length (single_type_managers c)"
    "\<forall>j<length ms. same_mgr (request_id r) (single_type_managers c ! j) (ms ! j) \<and>
       req_to_blocks (ms ! j) = req_to_blocks (single_type_managers c ! j) \<and>
       num_cached_block (ms ! j) = (num_cached_block (single_type_managers c ! j))
         (request_id r \<mapsto> n div mgr_block_size (single_type_managers c ! j))" by blast
  then have "coord_cache_blocks r n c = Inr (with_managers c ms p)" by (simp add: coord_cache_blocks_def)
  with rest show ?thesis by (intro exI [of _ ms] exI [of _ p]) simp
qed

lemma free_stage:
  assumes "kv_inv (single_type_managers c) (coord_pool c)"
  shows "\<exists>ms p. coord_free rid c = Inr (with_managers c ms p) \<and> kv_inv ms p \<and>
    unhashed_changes (coord_pool c) p \<and> length ms = length (single_type_managers c) \<and>
    (\<forall>j<length ms. same_mgr rid (single_type_managers c ! j) (ms ! j) \<and> req_to_blocks (ms ! j) = (req_to_blocks (single_type_managers c ! j))(rid := []) \<and>
       num_cached_block (ms ! j) = (num_cached_block (single_type_managers c ! j))(rid := None))"
proof -
  have "kv_acc ([] @ single_type_managers c) (\<lambda>_. 0) (coord_pool c) \<and> unhashed_changes (coord_pool c) (coord_pool c)"
    using assms by (simp add: unhashed_changes_def)
  from free_loop.on_managers [OF this] obtain vs ms p where
    "on_managers (quiet (mgr_free rid)) c = Inr (vs, with_managers c ms p)" and rest:
    "kv_acc (ms @ []) (\<lambda>_. 0) p" "unhashed_changes (coord_pool c) p" "length ms = length (single_type_managers c)"
    "\<forall>j<length ms. same_mgr rid (single_type_managers c ! j) (ms ! j) \<and> req_to_blocks (ms ! j) = (req_to_blocks (single_type_managers c ! j))(rid := []) \<and>
       num_cached_block (ms ! j) = (num_cached_block (single_type_managers c ! j))(rid := None)" by blast
  then have "coord_free rid c = Inr (with_managers c ms p)" by (simp add: coord_free_def)
  with rest show ?thesis by (intro exI [of _ ms] exI [of _ p]) simp
qed

section \<open>Slot allocation\<close>

definition the_hits :: "kv_cache_manager \<Rightarrow> KVCacheBlocks option \<Rightarrow> KVCacheBlocks" where
  "the_hits k new_computed =
     (case new_computed of Some bs \<Rightarrow> bs | None \<Rightarrow> replicate (length (coord_groups (km_coordinator k))) [])"

text \<open>
  What the scheduler owes a call of \<^verbatim>\<open>allocate_slots\<close> for one manager: a hit only for a request that
  has no blocks yet, nothing skipped past the table or its cached part, and, when full blocks are
  cached, counts that do not go back and enough block hashes.
\<close>

definition mgr_ready :: "request \<Rightarrow> int \<Rightarrow> bool \<Rightarrow> bool \<Rightarrow> (addr \<Rightarrow> bool) \<Rightarrow> bool \<Rightarrow> int \<Rightarrow> int \<Rightarrow> addr list \<Rightarrow> kv_manager \<Rightarrow> bool" where
  "mgr_ready r enc caching caches us ev need_slot to_cache hit m \<longleftrightarrow>
     savable (request_id r) hit m \<and> skippable (request_id r) (num_computed_tokens r) caching m \<and>
     (caching \<or> hit = []) \<and>
     (caches \<longrightarrow> \<not> is_cross_attention (mgr_spec m) \<and> (ev \<longrightarrow> lora_request r = None) \<and>
        to_cache div mgr_block_size m \<le> int (length (block_hashes r)) \<and>
        to_cache div mgr_block_size m \<le>
          max (int (length (req_to_blocks m (request_id r)) + length hit)) (cdiv (slot_tokens m need_slot) (mgr_block_size m)) \<and>
        (case num_cached_block m (request_id r) of
           None \<Rightarrow> int (length hit) \<le> to_cache div mgr_block_size m \<and> (hit = [] \<or> us (last hit))
         | Some c \<Rightarrow> c \<le> to_cache div mgr_block_size m \<and>
             (c = 0 \<or> us (req_to_blocks m (request_id r) ! nat (c - 1)) \<and>
               first_useful_block (request_id r) (num_computed_tokens r) m < c)))"

text \<open>
  A call that is ready. The check for free blocks adds up the needs of the groups, which may be negative;
  the needs are mixed when one group lacks blocks while another has more than enough.
\<close>

definition need_slot_of :: "request \<Rightarrow> int \<Rightarrow> int \<Rightarrow> int \<Rightarrow> kv_cache_manager \<Rightarrow> int" where
  "need_slot_of r num_new num_hit lookahead k =
     min (num_computed_tokens r + num_hit + num_new + lookahead) (km_max_model_len k)"

definition alloc_ready :: "request \<Rightarrow> int \<Rightarrow> int \<Rightarrow> KVCacheBlocks option \<Rightarrow> int \<Rightarrow> bool \<Rightarrow> int \<Rightarrow> kv_cache_manager \<Rightarrow> bool" where
  "alloc_ready r num_new num_hit new_computed lookahead delay enc k \<longleftrightarrow>
     (let hits = the_hits k new_computed; n = need_slot_of r num_new num_hit lookahead k; ms = km_managers k;
          to_cache = min (num_computed_tokens r + num_hit + num_new) (num_tokens r)
      in num_new \<noteq> 0 \<and> length hits = length ms \<and> (\<forall>bs\<in>set hits. hit_ok (km_pool k) bs) \<and>
         (\<forall>j<length ms. mgr_ready r enc (km_enable_caching k) (km_enable_caching k \<and> \<not> delay)
            (usable (km_pool k)) (enable_kv_cache_events (km_pool k)) n to_cache (hits ! j) (ms ! j)))"

definition mixed_needs :: "request \<Rightarrow> int \<Rightarrow> int \<Rightarrow> KVCacheBlocks option \<Rightarrow> int \<Rightarrow> int \<Rightarrow> kv_cache_manager \<Rightarrow> bool" where
  "mixed_needs r num_new num_hit new_computed lookahead enc k \<longleftrightarrow>
     (let need = (\<lambda>j. need_after (request_id r) (need_slot_of r num_new num_hit lookahead k) enc (the_hits k new_computed ! j) (km_managers k ! j))
      in (\<exists>i<length (km_managers k). need i < 0) \<and> (\<exists>j<length (km_managers k). 0 < need j))"

lemma need_saved: "saved rid hit m m' \<Longrightarrow> clamped_need rid n enc m' = max 0 (need_after rid n enc hit m)"
  by (simp add: saved_def same_mgr_def clamped_need_def need_after_def blocks_needed_def slot_tokens_def)

lemma need_skipped:
  "same_mgr rid m m' \<Longrightarrow> length (req_to_blocks m' rid) = length (req_to_blocks m rid) \<Longrightarrow>
     need_after rid n enc hit m' = need_after rid n enc hit m"
  by (simp add: same_mgr_def need_after_def blocks_needed_def slot_tokens_def)

lemma hit_ok_unhashed: "unhashed_changes p p' \<Longrightarrow> hit_ok p' bs = hit_ok p bs"
  unfolding unhashed_changes_def hit_ok_def using same_shapeD(1) [of p p'] by auto

lemma touch_stage:
  assumes acc: "kv_inv (single_type_managers c) (coord_pool c)" and h: "\<forall>bs\<in>set hits. hit_ok (coord_pool c) bs"
    and e: "caching \<or> (\<forall>bs\<in>set hits. bs = [])"
  shows "\<exists>p'. (if caching then rbind (touch hits (coord_pool c)) (\<lambda>p. Inr (c\<lparr>coord_pool := p\<rparr>))
               else if \<exists>bs\<in>set hits. bs \<noteq> [] then Inl AssertionError else Inr c) = Inr (c\<lparr>coord_pool := p'\<rparr>) \<and>
    kv_acc (single_type_managers c) (count_list (concat hits)) p' \<and> unhashed_changes (coord_pool c) p' \<and>
    get_num_free_blocks (coord_pool c) - (\<Sum>bs\<leftarrow>hits. evictable (coord_pool c) bs) \<le> get_num_free_blocks p'"
proof (cases caching)
  case True
  from touch_acc [OF acc h] True show ?thesis by (auto simp: unhashed_changes_def)
next
  case False
  then have n: "\<forall>bs\<in>set hits. bs = []" using e by blast
  then have cc: "concat hits = []" by simp
  have "count_list (concat hits) = (\<lambda>_. 0)" unfolding cc by (simp add: fun_eq_iff)
  moreover have "0 \<le> (\<Sum>bs\<leftarrow>hits. evictable (coord_pool c) bs)" by (intro sum_list_nonneg) (auto simp: evictable_def)
  ultimately show ?thesis using acc n False
    by (intro exI [of _ "coord_pool c"]) (auto simp: unhashed_changes_def)
qed

lemma clamp_sum_le:
  fixes f g :: "nat \<Rightarrow> int"
  assumes "(\<forall>j<n. 0 \<le> f j) \<or> (\<forall>j<n. f j \<le> 0)" and "(\<Sum>j<n. f j + g j) \<le> a" and "a - (\<Sum>j<n. g j) \<le> b" and "0 \<le> b"
  shows "(\<Sum>j<n. max 0 (f j)) \<le> b"
  using assms(1)
proof
  assume "\<forall>j<n. 0 \<le> f j"
  then have "(\<Sum>j<n. max 0 (f j)) = (\<Sum>j<n. f j)" by (intro sum.cong) auto
  also have "\<dots> \<le> b" using assms(2,3) by (simp add: sum.distrib)
  finally show ?thesis .
next
  assume "\<forall>j<n. f j \<le> 0"
  then have "(\<Sum>j<n. max 0 (f j)) = (\<Sum>j<n. 0)" by (intro sum.cong) auto
  then show ?thesis using assms(4) by simp
qed

lemma ready_cached:
  assumes ok: "mgr_ok p m" and ca: "enable_caching p" and rd: "mgr_ready r enc True True (usable p) (enable_kv_cache_events p) n to_cache hit m"
    and sk: "same_mgr (request_id r) m m1" "length (req_to_blocks m1 (request_id r)) = length (req_to_blocks m (request_id r))"
      "num_cached_block m1 = num_cached_block m"
      "\<And>i. first_useful_block (request_id r) (num_computed_tokens r) m \<le> int i \<Longrightarrow>
         req_to_blocks m1 (request_id r) ! i = req_to_blocks m (request_id r) ! i"
    and sv: "saved (request_id r) hit m1 m2"
    and al: "same_mgr (request_id r) m2 m3" "req_to_blocks m3 (request_id r) = req_to_blocks m2 (request_id r) @ new"
      "num_cached_block m3 = num_cached_block m2" "int (length new) = clamped_need (request_id r) n enc m2"
  shows "cache_ready r to_cache (usable p) (enable_kv_cache_events p) m3"
proof -
  let ?rid = "request_id r" and ?q = "to_cache div mgr_block_size m"
  have cr: "\<not> is_cross_attention (mgr_spec m)" and lo: "enable_kv_cache_events p \<longrightarrow> lora_request r = None" and q1: "?q \<le> int (length (block_hashes r))"
    and q2: "?q \<le> max (int (length (req_to_blocks m ?rid) + length hit)) (cdiv (slot_tokens m n) (mgr_block_size m))"
    using rd by (auto simp: mgr_ready_def)
  have eq: "mgr_spec m3 = mgr_spec m" "mgr_block_size m3 = mgr_block_size m" "slot_tokens m2 = slot_tokens m"
    "mgr_block_size m2 = mgr_block_size m" "mgr_spec m2 = mgr_spec m" "mgr_spec m1 = mgr_spec m"
    using sk(1) sv al(1) by (auto simp: same_mgr_def saved_def slot_tokens_def fun_eq_iff)
  have t: "req_to_blocks m3 ?rid = req_to_blocks m1 ?rid @ hit @ new" using sv al(2) by (simp add: saved_def)
  have len: "int (length (req_to_blocks m3 ?rid)) =
      max (int (length (req_to_blocks m ?rid) + length hit)) (cdiv (slot_tokens m n) (mgr_block_size m))"
    using al(2,4) sv sk(2) cr eq by (simp add: saved_def clamped_need_def blocks_needed_def)
  have nc: "num_cached_block m3 ?rid = (case num_cached_block m ?rid of None \<Rightarrow> Some (int (length hit)) | Some c \<Rightarrow> Some c)"
    using sv al(3) sk(3) cr eq by (simp add: saved_def)
  show ?thesis
  proof (cases "num_cached_block m ?rid")
    case None
    then have e: "req_to_blocks m ?rid = []" using mgr_okD(7) [OF ok cr] by simp
    have "int (length hit) \<le> ?q" "hit = [] \<or> usable p (last hit)" using rd None by (auto simp: mgr_ready_def)
    moreover have "req_to_blocks m3 ?rid ! nat (int (length hit) - 1) = last hit" if "hit \<noteq> []"
    proof -
      have "nat (int (length hit) - 1) = length hit - 1" "length hit - 1 < length hit" using that by auto
      then show ?thesis using t e sk(2) that by (simp add: nth_append last_conv_nth)
    qed
    ultimately show ?thesis using nc None cr lo q1 q2 len eq by (cases "hit = []") (simp_all add: cache_ready_def)
  next
    case (Some c)
    have hp: "0 \<le> c" "c \<le> int (length (req_to_blocks m ?rid))"
      using mgr_okD(9) [OF ok ca Some] by (auto simp: hashed_prefix_def)
    have "c \<le> ?q" "c = 0 \<or> usable p (req_to_blocks m ?rid ! nat (c - 1)) \<and>
        first_useful_block ?rid (num_computed_tokens r) m < c" using rd Some by (auto simp: mgr_ready_def)
    moreover have "req_to_blocks m3 ?rid ! nat (c - 1) = req_to_blocks m ?rid ! nat (c - 1)"
      if "c \<noteq> 0" "first_useful_block ?rid (num_computed_tokens r) m < c"
    proof -
      have "nat (c - 1) < length (req_to_blocks m1 ?rid)" using hp that sk(2) by auto
      then have "req_to_blocks m3 ?rid ! nat (c - 1) = req_to_blocks m1 ?rid ! nat (c - 1)" unfolding t by (rule nth_append_left)
      also have "\<dots> = req_to_blocks m ?rid ! nat (c - 1)" using that hp by (intro sk(4)) auto
      finally show ?thesis .
    qed
    ultimately show ?thesis using nc Some cr lo q1 q2 len eq by (cases "c = 0") (simp_all add: cache_ready_def)
  qed
qed

lemma sum_list_lt: "(\<Sum>x\<leftarrow>xs. f x) = (\<Sum>j<length xs. f (xs ! j))"
  by (simp add: sum_list_sum_nth atLeast0LessThan)

text \<open>How a manager looks after its skipped blocks were removed.\<close>

definition skipped :: "request \<Rightarrow> kv_manager \<Rightarrow> kv_manager \<Rightarrow> bool" where
  "skipped r m m' \<longleftrightarrow> same_mgr (request_id r) m m' \<and>
     length (req_to_blocks m' (request_id r)) = length (req_to_blocks m (request_id r)) \<and>
     num_cached_block m' = num_cached_block m \<and>
     (\<forall>i. first_useful_block (request_id r) (num_computed_tokens r) m \<le> int i \<longrightarrow>
        req_to_blocks m' (request_id r) ! i = req_to_blocks m (request_id r) ! i)"

lemma alloc_readyD:
  assumes "alloc_ready r num_new num_hit new_computed lookahead delay enc k"
  shows "num_new \<noteq> 0" "length (the_hits k new_computed) = length (km_managers k)"
    "\<forall>bs\<in>set (the_hits k new_computed). hit_ok (km_pool k) bs"
    "j < length (km_managers k) \<Longrightarrow> mgr_ready r enc (km_enable_caching k) (km_enable_caching k \<and> \<not> delay) (usable (km_pool k))
       (enable_kv_cache_events (km_pool k))
       (need_slot_of r num_new num_hit lookahead k) (min (num_computed_tokens r + num_hit + num_new) (num_tokens r))
       (the_hits k new_computed ! j) (km_managers k ! j)"
  using assms unfolding alloc_ready_def Let_def by blast+

lemma skip_first:
  assumes inv: "km_inv B k" and rd: "alloc_ready r num_new num_hit new_computed lookahead delay enc k"
  shows "\<exists>ms p. remove_skipped_blocks (request_id r) (num_computed_tokens r) (km_coordinator k) =
      Inr (with_managers (km_coordinator k) ms p) \<and> kv_inv ms p \<and> unhashed_changes (km_pool k) p \<and>
    length ms = length (km_managers k) \<and> (\<forall>j<length ms. skipped r (km_managers k ! j) (ms ! j))"
proof -
  have acc: "kv_inv (km_managers k) (km_pool k)" and ca: "enable_caching (km_pool k) = km_enable_caching k"
    using inv by (simp_all add: km_inv_def)
  have "\<forall>m\<in>set (km_managers k). skippable (request_id r) (num_computed_tokens r) (enable_caching (km_pool k)) m"
    using alloc_readyD(4) [OF rd] ca by (auto simp: all_set_conv_all_nth mgr_ready_def)
  from skip_stage [OF acc this] show ?thesis unfolding skipped_def .
qed

lemma needed_blocks:
  assumes rd: "alloc_ready r num_new num_hit new_computed lookahead delay enc k"
    and l: "length ms = length (km_managers k)" and sk: "\<forall>j<length ms. skipped r (km_managers k ! j) (ms ! j)"
  shows "get_num_blocks_to_allocate (request_id r) n (the_hits k new_computed) enc (with_managers c ms p) =
    Inr (\<Sum>j<length (km_managers k). need_after (request_id r) n enc (the_hits k new_computed ! j) (km_managers k ! j) +
      evictable p (the_hits k new_computed ! j))"
proof -
  have "is_cross_attention (mgr_spec (ms ! j)) \<longrightarrow> the_hits k new_computed ! j = []" if "j < length ms" for j
    using alloc_readyD(4) [OF rd, of j] sk l that by (auto simp: mgr_ready_def savable_def skipped_def same_mgr_def)
  then have "blocks_to_allocate_from (request_id r) n (the_hits k new_computed) enc p 0 ms =
      Inr (\<Sum>j<length ms. need_after (request_id r) n enc (the_hits k new_computed ! (0 + j)) (ms ! j) +
        evictable p (the_hits k new_computed ! (0 + j)))"
    using alloc_readyD(2) [OF rd] l by (intro blocks_to_allocate_sum) auto
  moreover have "need_after (request_id r) n enc h (ms ! j) = need_after (request_id r) n enc h (km_managers k ! j)"
    if "j < length ms" for h j using sk that by (intro need_skipped) (auto simp: skipped_def)
  ultimately show ?thesis using l by (simp add: get_num_blocks_to_allocate_def)
qed

lemma touch_nothing: "\<forall>bs\<in>set hits. bs = [] \<Longrightarrow> touch hits p = Inr p"
  by (induction hits) (auto simp: touch_def)

text \<open>
  Touching and saving the hit takes no more free blocks than were counted for it, and leaves the needs of the groups.
\<close>

lemma save_second:
  assumes inv: "km_inv B k" and rd: "alloc_ready r num_new num_hit new_computed lookahead delay enc k"
    and acc: "kv_inv ms1 p1" and un: "unhashed_changes (km_pool k) p1" and l: "length ms1 = length (km_managers k)"
    and sk: "\<forall>j<length ms1. skipped r (km_managers k ! j) (ms1 ! j)"
    and n: "n = need_slot_of r num_new num_hit lookahead k" and c: "c = with_managers (km_coordinator k) ms1 p1"
  shows "\<exists>p2 ms2. (if km_enable_caching k then rbind (touch (the_hits k new_computed) p1) (\<lambda>p. Inr (c\<lparr>coord_pool := p\<rparr>))
         else if \<exists>bs\<in>set (the_hits k new_computed). bs \<noteq> [] then Inl AssertionError else Inr c) = Inr (c\<lparr>coord_pool := p2\<rparr>) \<and>
    save_new_computed_blocks (request_id r) (the_hits k new_computed) (c\<lparr>coord_pool := p2\<rparr>) = Inr (with_managers c ms2 p2) \<and>
    kv_inv ms2 p2 \<and> unhashed_changes p1 p2 \<and> length ms2 = length ms1 \<and>
    (\<forall>j<length ms2. saved (request_id r) (the_hits k new_computed ! j) (ms1 ! j) (ms2 ! j)) \<and>
    (\<Sum>m\<leftarrow>ms2. clamped_need (request_id r) n enc m) =
      (\<Sum>j<length (km_managers k). max 0 (need_after (request_id r) n enc (the_hits k new_computed ! j) (km_managers k ! j))) \<and>
    get_num_free_blocks p1 - (\<Sum>j<length (km_managers k). evictable p1 (the_hits k new_computed ! j)) \<le> get_num_free_blocks p2 \<and>
    ((\<forall>bs\<in>set (the_hits k new_computed). bs = []) \<longrightarrow> p2 = p1)"
proof -
  let ?rid = "request_id r" and ?ms = "km_managers k" and ?hits = "the_hits k new_computed"
  note rdD = alloc_readyD [OF rd]
  have cp: "coord_pool c = p1" "single_type_managers c = ms1" using c by simp_all
  have hk1: "\<forall>bs\<in>set ?hits. hit_ok p1 bs" using rdD(3) hit_ok_unhashed [OF un] by blast
  have em: "km_enable_caching k \<or> (\<forall>bs\<in>set ?hits. bs = [])"
    using rdD(2,4) by (auto simp: all_set_conv_all_nth mgr_ready_def)
  from touch_stage [of c, unfolded cp, OF acc hk1 em] obtain p2 where
    t: "(if km_enable_caching k then rbind (touch ?hits p1) (\<lambda>p. Inr (c\<lparr>coord_pool := p\<rparr>))
         else if \<exists>bs\<in>set ?hits. bs \<noteq> [] then Inl AssertionError else Inr c) = Inr (c\<lparr>coord_pool := p2\<rparr>)"
      "kv_acc ms1 (count_list (concat ?hits)) p2" "unhashed_changes p1 p2"
      "get_num_free_blocks p1 - (\<Sum>bs\<leftarrow>?hits. evictable p1 bs) \<le> get_num_free_blocks p2" by blast
  have hk2: "\<forall>bs\<in>set ?hits. hit_ok p2 bs" using hk1 hit_ok_unhashed [OF t(3)] by blast
  have sv1: "\<forall>j<length ms1. savable ?rid (?hits ! j) (ms1 ! j)"
    using rdD(4) sk l by (auto simp: mgr_ready_def savable_def skipped_def same_mgr_def)
  from save_stage [of "c\<lparr>coord_pool := p2\<rparr>" ?hits ?rid] t(2) rdD(2) l hk2 sv1 cp obtain ms2 where
    s2: "save_new_computed_blocks ?rid ?hits (c\<lparr>coord_pool := p2\<rparr>) = Inr (with_managers c ms2 p2)" "kv_inv ms2 p2"
      "length ms2 = length ms1" "\<forall>j<length ms2. saved ?rid (?hits ! j) (ms1 ! j) (ms2 ! j)" by auto
  have "clamped_need ?rid n enc (ms2 ! j) = max 0 (need_after ?rid n enc (?hits ! j) (?ms ! j))" if "j < length ms2" for j
    using need_saved s2(3,4) sk that need_skipped [of ?rid "?ms ! j" "ms1 ! j"] by (auto simp: skipped_def)
  then have "(\<Sum>m\<leftarrow>ms2. clamped_need ?rid n enc m) = (\<Sum>j<length ?ms. max 0 (need_after ?rid n enc (?hits ! j) (?ms ! j)))"
    unfolding sum_list_lt using s2(3) l by (intro sum.cong) auto
  moreover have "get_num_free_blocks p1 - (\<Sum>j<length ?ms. evictable p1 (?hits ! j)) \<le> get_num_free_blocks p2"
    using t(4) rdD(2) by (simp add: sum_list_lt)
  moreover have "p2 = p1" if "\<forall>bs\<in>set ?hits. bs = []"
  proof -
    have "touch ?hits p1 = Inr p1" using that by (rule touch_nothing)
    then have "c = c\<lparr>coord_pool := p2\<rparr>" using t(1) that cp(1) by (auto split: if_splits)
    from arg_cong [OF this, of coord_pool] show ?thesis using cp(1) by simp
  qed
  ultimately show ?thesis using t(1,3) s2 by blast
qed

text \<open>What a granted allocation leaves of one manager.\<close>

definition granted :: "request \<Rightarrow> int \<Rightarrow> int \<Rightarrow> addr list \<Rightarrow> addr list \<Rightarrow> kv_manager \<Rightarrow> kv_manager \<Rightarrow> bool" where
  "granted r n enc hit new m m' \<longleftrightarrow> same_mgr (request_id r) m m' \<and>
     int (length new) = max 0 (need_after (request_id r) n enc hit m) \<and>
     (\<exists>kept. length kept = length (req_to_blocks m (request_id r)) \<and>
        req_to_blocks m' (request_id r) = kept @ hit @ new)"

lemma allocate_last:
  assumes inv: "km_inv B k" and rd: "alloc_ready r num_new num_hit new_computed lookahead delay enc k"
    and l: "length ms1 = length (km_managers k)" "length ms2 = length (km_managers k)"
    and sk: "\<forall>j<length ms1. skipped r (km_managers k ! j) (ms1 ! j)" and sh: "same_shape (km_pool k) p2"
    and sv: "\<forall>j<length ms2. saved (request_id r) (the_hits k new_computed ! j) (ms1 ! j) (ms2 ! j)"
    and acc: "kv_inv ms2 p2" and n: "n = need_slot_of r num_new num_hit lookahead k"
    and f: "(\<Sum>m\<leftarrow>ms2. clamped_need (request_id r) n enc m) \<le> get_num_free_blocks p2"
  defines "c \<equiv> with_managers (km_coordinator k) ms2 p2"
  shows "\<exists>new ms p. rbind (allocate_new_blocks (request_id r) n enc c) (\<lambda>(new, c).
       if \<not> km_enable_caching k \<or> delay then Inr (Some new, k\<lparr>km_coordinator := c\<rparr>)
       else rbind (coord_cache_blocks r (min (num_computed_tokens r + num_hit + num_new) (num_tokens r)) c) (\<lambda>c.
         Inr (Some new, k\<lparr>km_coordinator := c\<rparr>))) =
      Inr (Some new, k\<lparr>km_coordinator := with_managers (km_coordinator k) ms p\<rparr>) \<and>
    kv_inv ms p \<and> same_shape (km_pool k) p \<and> length ms = length (km_managers k) \<and> length new = length ms \<and>
    (\<forall>j<length ms. granted r n enc (the_hits k new_computed ! j) (new ! j) (km_managers k ! j) (ms ! j))"
proof -
  let ?rid = "request_id r" and ?ms = "km_managers k" and ?hits = "the_hits k new_computed"
  let ?q = "min (num_computed_tokens r + num_hit + num_new) (num_tokens r)"
  note rdD = alloc_readyD [OF rd]
  have cp: "coord_pool c = p2" "single_type_managers c = ms2" by (simp_all add: c_def)
  have "\<forall>m\<in>set ms2. \<not> is_cross_attention (mgr_spec m) \<longrightarrow> num_cached_block m ?rid \<noteq> None"
    using sv by (auto simp: all_set_conv_all_nth saved_def same_mgr_def split: option.splits)
  from alloc_stage [of c, unfolded cp, OF acc f this] obtain new ms3 p3 where
    a: "allocate_new_blocks ?rid n enc c = Inr (new, with_managers c ms3 p3)" "kv_inv ms3 p3" "same_shape p2 p3"
      "length ms3 = length ms2" "length new = length ms3"
    and r3: "\<And>j. j < length ms3 \<Longrightarrow> same_mgr ?rid (ms2 ! j) (ms3 ! j) \<and>
       req_to_blocks (ms3 ! j) ?rid = req_to_blocks (ms2 ! j) ?rid @ new ! j \<and>
       num_cached_block (ms3 ! j) = num_cached_block (ms2 ! j) \<and>
       int (length (new ! j)) = clamped_need ?rid n enc (ms2 ! j)" by blast
  have g: "granted r n enc (?hits ! j) (new ! j) (?ms ! j) m'"
    if "j < length ms3" "same_mgr ?rid (ms3 ! j) m'" "req_to_blocks m' ?rid = req_to_blocks (ms3 ! j) ?rid" for j m'
  proof -
    have s: "skipped r (?ms ! j) (ms1 ! j)" "saved ?rid (?hits ! j) (ms1 ! j) (ms2 ! j)" using sk sv that(1) a(4) l by auto
    then have "same_mgr ?rid (?ms ! j) m'"
      using that(2) r3 [OF that(1)] unfolding skipped_def saved_def by (meson same_mgr_trans)
    then show ?thesis using that r3 [OF that(1)] s need_saved [OF s(2), of n enc] need_skipped [of ?rid "?ms ! j" "ms1 ! j"]
      by (auto simp: granted_def skipped_def saved_def)
  qed
  have sh3: "same_shape (km_pool k) p3" using sh a(3) by (rule same_shape_trans)
  show ?thesis
  proof (cases "\<not> km_enable_caching k \<or> delay")
    case True
    with a g l sh3 show ?thesis by (intro exI [of _ new] exI [of _ ms3] exI [of _ p3]) (auto simp: c_def)
  next
    case False
    have ca: "enable_caching (km_pool k)" using inv False by (simp add: km_inv_def)
    then have ca3: "enable_caching p3" using sh3 by (simp add: same_shape_def)
    have "cache_ready r ?q (usable p3) (enable_kv_cache_events p3) (ms3 ! j)" if "j < length ms3" for j
    proof -
      have "kv_inv ?ms (km_pool k)" "?ms ! j \<in> set ?ms" using inv that a(4) l by (simp_all add: km_inv_def)
      then have "mgr_ok (km_pool k) (?ms ! j)" by (rule kv_accD)
      then have "cache_ready r ?q (usable (km_pool k)) (enable_kv_cache_events (km_pool k)) (ms3 ! j)"
        using ca rdD(4) [of j] that False sk sv r3 [OF that] a(4) l n
        by (intro ready_cached [of "km_pool k" "?ms ! j" r enc n ?q "?hits ! j" "ms1 ! j" "ms2 ! j" "ms3 ! j" "new ! j"])
          (auto simp: skipped_def)
      then show ?thesis using same_shapeD(1,3) [OF sh3] by simp
    qed
    then have "\<forall>m\<in>set ms3. cache_ready r ?q (usable p3) (enable_kv_cache_events p3) m" by (simp add: all_set_conv_all_nth)
    then obtain ms4 p4 where
      d: "coord_cache_blocks r ?q (with_managers c ms3 p3) = Inr (with_managers c ms4 p4)" "kv_inv ms4 p4" "same_shape p3 p4"
        "length ms4 = length ms3" "\<And>j. j < length ms4 \<Longrightarrow> same_mgr ?rid (ms3 ! j) (ms4 ! j) \<and>
          req_to_blocks (ms4 ! j) = req_to_blocks (ms3 ! j)"
      using cache_stage [of "with_managers c ms3 p3" r ?q] a(2) ca3 by auto
    with a(1,4,5) g l False same_shape_trans [OF sh3 d(3)] show ?thesis
      by (intro exI [of _ new] exI [of _ ms4] exI [of _ p4]) (auto simp: c_def)
  qed
qed

text \<open>When the groups together lack more blocks than are free, the allocation raises somewhere in the loop.\<close>

lemma alloc_each_short:
  assumes "kv_acc (pre @ ms) e p" and "get_num_free_blocks p < (\<Sum>m\<leftarrow>ms. clamped_need rid n enc m)"
    and "\<forall>m\<in>set ms. \<not> is_cross_attention (mgr_spec m) \<longrightarrow> num_cached_block m rid \<noteq> None"
  shows "each_manager (alloc_step rid n enc) i ms p = Inl ValueError"
  using assms
proof (induction ms arbitrary: pre p i)
  case Nil
  then show ?case using kv_accD(1) [OF Nil(1)] reach_parts(4) by fastforce
next
  case (Cons m ms)
  let ?n = "if is_cross_attention (mgr_spec m) then enc else n"
  have free: "0 \<le> get_num_free_blocks p" using kv_accD(1) [OF Cons.prems(1)] reach_parts(4) by fastforce
  show ?case
  proof (cases "blocks_needed rid ?n m \<le> get_num_free_blocks p")
    case True
    have "\<not> is_cross_attention (mgr_spec m) \<Longrightarrow> num_cached_block m rid \<noteq> None" using Cons.prems(3) by simp
    from mgr_allocate_ok [OF Cons.prems(1) True this] obtain new m' p' where
      a: "mgr_allocate_new_blocks rid ?n m p = Inr (new, m', p')" "kv_acc (pre @ m' # ms) e p'"
        "length new = nat (blocks_needed rid ?n m)" "get_num_free_blocks p' = get_num_free_blocks p - int (length new)" by blast
    have "int (length new) = clamped_need rid n enc m" using a(3) by (simp add: clamped_need_def)
    then have "get_num_free_blocks p' < (\<Sum>m\<leftarrow>ms. clamped_need rid n enc m)" using Cons.prems(2) a(4) by simp
    from Cons.IH [of "pre @ [m']", OF _ this, of "Suc i"] a(2) Cons.prems(3)
    have "each_manager (alloc_step rid n enc) (Suc i) ms p' = Inl ValueError" by simp
    moreover have "alloc_step rid n enc i m p = Inr (new, m', p')" using a(1) by (simp add: alloc_step_def)
    ultimately show ?thesis by simp
  next
    case False
    then have "\<not> blocks_needed rid ?n m \<le> 0" using free by simp
    then have "mgr_allocate_new_blocks rid ?n m p = Inl ValueError"
      using False by (simp add: mgr_allocate_new_blocks_def blocks_needed_def get_new_blocks_def Let_def)
    then show ?thesis by (simp add: alloc_step_def)
  qed
qed

lemma saved_cached: "saved rid hit m m' \<Longrightarrow> \<not> is_cross_attention (mgr_spec m') \<Longrightarrow> num_cached_block m' rid \<noteq> None"
  by (auto simp: saved_def same_mgr_def split: option.splits)

text \<open>
  The three outcomes of \<^verbatim>\<open>allocate_slots\<close>: no memory, when the needs added up exceed what is free; an error, when they
  do not but the blocks that have to be allocated do; and otherwise the blocks.
\<close>

lemma allocate_slots_cases:
  assumes inv: "km_inv B k" and rd: "alloc_ready r num_new num_hit new_computed lookahead delay enc k"
  defines "n \<equiv> need_slot_of r num_new num_hit lookahead k" and "hits \<equiv> the_hits k new_computed"
  defines "need \<equiv> \<lambda>j. need_after (request_id r) n enc (hits ! j) (km_managers k ! j)" and "N \<equiv> length (km_managers k)"
  shows "\<exists>ms1 p1 f. remove_skipped_blocks (request_id r) (num_computed_tokens r) (km_coordinator k) = Inr (with_managers (km_coordinator k) ms1 p1) \<and>
    get_num_free_blocks p1 - (\<Sum>j<N. evictable p1 (hits ! j)) \<le> f \<and> 0 \<le> f \<and> ((\<forall>bs\<in>set hits. bs = []) \<longrightarrow> f = get_num_free_blocks p1) \<and>
    (if get_num_free_blocks p1 < (\<Sum>j<N. need j + evictable p1 (hits ! j))
     then \<exists>k'. allocate_slots r num_new num_hit new_computed lookahead delay enc k = Inr (None, k') \<and> km_inv B k' \<and>
       km_block_size k' = km_block_size k \<and> length (km_managers k') = N \<and> km_pool k' = p1 \<and>
       (\<forall>j<N. skipped r (km_managers k ! j) (km_managers k' ! j))
     else if f < (\<Sum>j<N. max 0 (need j)) then allocate_slots r num_new num_hit new_computed lookahead delay enc k = Inl ValueError
     else \<exists>new k'. allocate_slots r num_new num_hit new_computed lookahead delay enc k = Inr (Some new, k') \<and> km_inv B k' \<and>
       km_block_size k' = km_block_size k \<and> length (km_managers k') = N \<and> length new = N \<and>
       (\<forall>j<N. granted r n enc (hits ! j) (new ! j) (km_managers k ! j) (km_managers k' ! j)))"
proof -
  let ?S = "\<lambda>p. \<Sum>j<N. need j + evictable p (hits ! j)"
  from skip_first [OF inv rd] obtain ms1 p1 where
    s1: "remove_skipped_blocks (request_id r) (num_computed_tokens r) (km_coordinator k) = Inr (with_managers (km_coordinator k) ms1 p1)"
      "kv_inv ms1 p1" "unhashed_changes (km_pool k) p1" "length ms1 = length (km_managers k)"
      "\<forall>j<length ms1. skipped r (km_managers k ! j) (ms1 ! j)" by blast
  define c where "c = with_managers (km_coordinator k) ms1 p1"
  have cp: "coord_pool c = p1" by (simp add: c_def)
  have num: "get_num_blocks_to_allocate (request_id r) n hits enc c = Inr (?S p1)"
    unfolding c_def hits_def need_def N_def by (rule needed_blocks [OF rd s1(4,5)])
  have unf: "allocate_slots r num_new num_hit new_computed lookahead delay enc k =
    (if ?S p1 > get_num_free_blocks p1 then Inr (None, k\<lparr>km_coordinator := c\<rparr>)
     else rbind (if km_enable_caching k then rbind (touch hits p1) (\<lambda>p. Inr (c\<lparr>coord_pool := p\<rparr>))
                 else if \<exists>h\<in>set hits. h \<noteq> [] then Inl AssertionError else Inr c) (\<lambda>c.
       rbind (save_new_computed_blocks (request_id r) hits c) (\<lambda>c.
         rbind (allocate_new_blocks (request_id r) n enc c) (\<lambda>(new, c).
           if \<not> km_enable_caching k \<or> delay then Inr (Some new, k\<lparr>km_coordinator := c\<rparr>)
           else rbind (coord_cache_blocks r (min (num_computed_tokens r + num_hit + num_new) (num_tokens r)) c) (\<lambda>c.
             Inr (Some new, k\<lparr>km_coordinator := c\<rparr>))))))"
    unfolding allocate_slots_def Let_def the_hits_def [symmetric] need_slot_of_def [symmetric] n_def [symmetric]
      hits_def [symmetric] using alloc_readyD(1) [OF rd] s1(1) [folded c_def] num cp by simp
  have inv': "km_inv B (k\<lparr>km_coordinator := with_managers (km_coordinator k) ms p\<rparr>)"
    if "kv_inv ms p" "same_shape (km_pool k) p" "length ms = length (km_managers k)"
      "\<And>j. j < length ms \<Longrightarrow> same_mgr (request_id r) (km_managers k ! j) (ms ! j)" for ms p
    using that by (intro km_inv_update [OF inv]) (auto simp: same_mgr_def)
  from save_second [OF inv rd s1(2-5) refl refl] obtain p2 ms2 where
    s2: "(if km_enable_caching k then rbind (touch hits p1) (\<lambda>p. Inr (c\<lparr>coord_pool := p\<rparr>))
       else if \<exists>bs\<in>set hits. bs \<noteq> [] then Inl AssertionError else Inr c) = Inr (c\<lparr>coord_pool := p2\<rparr>)"
    "save_new_computed_blocks (request_id r) hits (c\<lparr>coord_pool := p2\<rparr>) = Inr (with_managers c ms2 p2)"
    "kv_inv ms2 p2" "unhashed_changes p1 p2" "length ms2 = length ms1"
    "\<forall>j<length ms2. saved (request_id r) (hits ! j) (ms1 ! j) (ms2 ! j)"
    "(\<Sum>m\<leftarrow>ms2. clamped_need (request_id r) n enc m) = (\<Sum>j<N. max 0 (need j))"
    "get_num_free_blocks p1 - (\<Sum>j<N. evictable p1 (hits ! j)) \<le> get_num_free_blocks p2" "(\<forall>bs\<in>set hits. bs = []) \<longrightarrow> p2 = p1"
    unfolding c_def n_def hits_def need_def N_def by blast
  have f0: "0 \<le> get_num_free_blocks p2" using kv_accD(1) [OF s2(3)] reach_parts(4) by fastforce
  have "if get_num_free_blocks p1 < ?S p1
     then \<exists>k'. allocate_slots r num_new num_hit new_computed lookahead delay enc k = Inr (None, k') \<and> km_inv B k' \<and>
       km_block_size k' = km_block_size k \<and> length (km_managers k') = N \<and> km_pool k' = p1 \<and>
       (\<forall>j<N. skipped r (km_managers k ! j) (km_managers k' ! j))
     else if get_num_free_blocks p2 < (\<Sum>j<N. max 0 (need j)) then allocate_slots r num_new num_hit new_computed lookahead delay enc k = Inl ValueError
     else \<exists>new k'. allocate_slots r num_new num_hit new_computed lookahead delay enc k = Inr (Some new, k') \<and> km_inv B k' \<and>
       km_block_size k' = km_block_size k \<and> length (km_managers k') = N \<and> length new = N \<and>
       (\<forall>j<N. granted r n enc (hits ! j) (new ! j) (km_managers k ! j) (km_managers k' ! j))"
  proof (cases "get_num_free_blocks p1 < ?S p1")
    case True
    then show ?thesis using unf s1 inv' [of ms1 p1] by (simp add: c_def unhashed_changes_def skipped_def N_def)
  next
    case le: False
    show ?thesis
    proof (cases "get_num_free_blocks p2 < (\<Sum>j<N. max 0 (need j))")
      case True
      have "\<forall>m\<in>set ms2. \<not> is_cross_attention (mgr_spec m) \<longrightarrow> num_cached_block m (request_id r) \<noteq> None"
        using s2(6) saved_cached by (metis in_set_conv_nth)
      then have "each_manager (alloc_step (request_id r) n enc) 0 ms2 p2 = Inl ValueError"
        using alloc_each_short [of "[]" ms2 "\<lambda>_. 0" p2 "request_id r" n enc 0] s2(3,7) True by simp
      then have "allocate_new_blocks (request_id r) n enc (with_managers c ms2 p2) = Inl ValueError"
        by (simp add: allocate_new_blocks_def on_managers_def)
      then show ?thesis using unf le True s2(1,2) by simp
    next
      case False
      then have f: "(\<Sum>m\<leftarrow>ms2. clamped_need (request_id r) n enc m) \<le> get_num_free_blocks p2" using s2(7) by simp
      have sh: "same_shape (km_pool k) p2" using s1(3) s2(4) by (auto simp: unhashed_changes_def intro: same_shape_trans)
      from allocate_last [OF inv rd s1(4) _ s1(5) sh s2(6) [unfolded hits_def] s2(3) n_def [THEN meta_eq_to_obj_eq] f] s2(5) s1(4)
      obtain new ms p where a: "kv_inv ms p" "same_shape (km_pool k) p" "length ms = length (km_managers k)" "length new = length ms"
        "\<forall>j<length ms. granted r n enc (hits ! j) (new ! j) (km_managers k ! j) (ms ! j)"
        "allocate_slots r num_new num_hit new_computed lookahead delay enc k =
          Inr (Some new, k\<lparr>km_coordinator := with_managers (km_coordinator k) ms p\<rparr>)"
        using unf le s2(1,2) by (auto simp: c_def hits_def)
      then show ?thesis using le False inv' [of ms p] by (simp add: granted_def N_def)
    qed
  qed
  then show ?thesis using s1(1) s2(8,9) f0 by (intro exI [of _ ms1] exI [of _ p1] exI [of _ "get_num_free_blocks p2"]) simp
qed

text \<open>When all groups agree on the direction, nothing is raised.\<close>

lemma allocate_slots_ok:
  assumes inv: "km_inv B k" and rd: "alloc_ready r num_new num_hit new_computed lookahead delay enc k"
  defines "n \<equiv> need_slot_of r num_new num_hit lookahead k" and "hits \<equiv> the_hits k new_computed"
  shows "allocate_slots r num_new num_hit new_computed lookahead delay enc k = Inl ValueError \<and>
      mixed_needs r num_new num_hit new_computed lookahead enc k \<or>
    (\<exists>res k'. allocate_slots r num_new num_hit new_computed lookahead delay enc k = Inr (res, k') \<and> km_inv B k' \<and> km_block_size k' = km_block_size k \<and>
    length (km_managers k') = length (km_managers k) \<and>
    (case res of
       None \<Rightarrow> get_num_free_blocks (km_pool k') <
           (\<Sum>j<length (km_managers k). need_after (request_id r) n enc (hits ! j) (km_managers k ! j) +
              evictable (km_pool k') (hits ! j)) \<and>
         (\<forall>j<length (km_managers k). skipped r (km_managers k ! j) (km_managers k' ! j))
     | Some new \<Rightarrow> length new = length (km_managers k) \<and>
         (\<forall>j<length (km_managers k). granted r n enc (hits ! j) (new ! j) (km_managers k ! j) (km_managers k' ! j))))"
proof -
  let ?need = "\<lambda>j. need_after (request_id r) n enc (hits ! j) (km_managers k ! j)" and ?N = "length (km_managers k)"
  from allocate_slots_cases [OF inv rd] obtain p1 f where
    f: "get_num_free_blocks p1 - (\<Sum>j<?N. evictable p1 (hits ! j)) \<le> f" "0 \<le> f"
    and c: "if get_num_free_blocks p1 < (\<Sum>j<?N. ?need j + evictable p1 (hits ! j))
     then \<exists>k'. allocate_slots r num_new num_hit new_computed lookahead delay enc k = Inr (None, k') \<and> km_inv B k' \<and>
       km_block_size k' = km_block_size k \<and> length (km_managers k') = ?N \<and> km_pool k' = p1 \<and>
       (\<forall>j<?N. skipped r (km_managers k ! j) (km_managers k' ! j))
     else if f < (\<Sum>j<?N. max 0 (?need j)) then allocate_slots r num_new num_hit new_computed lookahead delay enc k = Inl ValueError
     else \<exists>new k'. allocate_slots r num_new num_hit new_computed lookahead delay enc k = Inr (Some new, k') \<and> km_inv B k' \<and>
       km_block_size k' = km_block_size k \<and> length (km_managers k') = ?N \<and> length new = ?N \<and>
       (\<forall>j<?N. granted r n enc (hits ! j) (new ! j) (km_managers k ! j) (km_managers k' ! j))"
    unfolding n_def hits_def by blast
  consider (short) "get_num_free_blocks p1 < (\<Sum>j<?N. ?need j + evictable p1 (hits ! j))"
    | (raises) "(\<Sum>j<?N. ?need j + evictable p1 (hits ! j)) \<le> get_num_free_blocks p1" "f < (\<Sum>j<?N. max 0 (?need j))"
    | (granted) "(\<Sum>j<?N. ?need j + evictable p1 (hits ! j)) \<le> get_num_free_blocks p1" "(\<Sum>j<?N. max 0 (?need j)) \<le> f" by linarith
  then show ?thesis
  proof cases
    case short
    with c obtain k' where "allocate_slots r num_new num_hit new_computed lookahead delay enc k = Inr (None, k')" "km_inv B k'"
      "km_block_size k' = km_block_size k" "length (km_managers k') = ?N" "km_pool k' = p1"
      "\<forall>j<?N. skipped r (km_managers k ! j) (km_managers k' ! j)" by auto
    then show ?thesis using short by (intro disjI2 exI [of _ None] exI [of _ k']) simp
  next
    case raises
    have "\<not> ((\<forall>j<?N. 0 \<le> ?need j) \<or> (\<forall>j<?N. ?need j \<le> 0))"
      using clamp_sum_le [OF _ raises(1) f] raises(2) by (meson not_less)
    then have "mixed_needs r num_new num_hit new_computed lookahead enc k"
      unfolding mixed_needs_def Let_def n_def [symmetric] hits_def [symmetric] by (meson not_less)
    then show ?thesis using c raises by simp
  next
    case granted
    with c obtain new k' where "allocate_slots r num_new num_hit new_computed lookahead delay enc k = Inr (Some new, k')" "km_inv B k'"
      "km_block_size k' = km_block_size k" "length (km_managers k') = ?N" "length new = ?N"
      "\<forall>j<?N. granted r n enc (hits ! j) (new ! j) (km_managers k ! j) (km_managers k' ! j)" by auto
    then show ?thesis by (intro disjI2 exI [of _ "Some new"] exI [of _ k']) simp
  qed
qed

lemma one_group_not_mixed: "length (km_managers k) = 1 \<Longrightarrow> \<not> mixed_needs r num_new num_hit new_computed lookahead enc k"
  by (auto simp: mixed_needs_def Let_def)

section \<open>Construction\<close>

text \<open>Configurations the engine can start with.\<close>

definition config_ok :: "KVCacheConfig \<Rightarrow> bool \<Rightarrow> bool \<Rightarrow> int \<Rightarrow> bool" where
  "config_ok cfg caching use_eagle dcp \<longleftrightarrow> 0 < num_blocks cfg \<and> int (length (kv_cache_groups cfg)) < 2 ^ 32 \<and> 0 < dcp \<and>
     (\<forall>g\<in>set (kv_cache_groups cfg). 0 < spec_block_size (group_spec g) \<and> (caching \<longrightarrow> spec_ok (group_spec g) use_eagle dcp))"

lemma make_managers_ok:
  assumes "make_managers p dcp i gs = Inr ms" and "0 \<le> i" and "i + int (length gs) < 2 ^ 32" and "0 < dcp"
    and "\<forall>g\<in>set gs. 0 < spec_block_size (group_spec g) \<and> (enable_caching p \<longrightarrow> \<not> is_cross_attention (group_spec g))"
    and "null_block p = Blk 0"
  shows "length ms = length gs \<and> (\<forall>m\<in>set ms. mgr_ok p m \<and> req_to_blocks m = (\<lambda>_. []) \<and>
    (\<exists>g\<in>set gs. mgr_block_size m = scaled_block_size (spec_block_size (group_spec g)) dcp))"
  using assms
proof (induction gs arbitrary: i ms)
  case Nil
  then show ?case by simp
next
  case (Cons g gs)
  from Cons.prems(1) obtain m ms' where m: "get_manager_for_kv_cache_spec (group_spec g) p i dcp = Inr m"
    "make_managers p dcp (i + 1) gs = Inr ms'" "ms = m # ms'" by auto
  have m': "m = \<lparr>mgr_spec = group_spec g, mgr_block_size = scaled_block_size (spec_block_size (group_spec g)) dcp,
      req_to_blocks = (\<lambda>_. []), num_cached_block = Map.empty, kv_cache_group_id = i, mgr_null_block = null_block p\<rparr>"
    using m(1) by (auto simp: get_manager_for_kv_cache_spec_def scaled_block_size_def split: kv_cache_spec.splits)
  have "mgr_ok p m" using Cons.prems unfolding m' by (auto simp: mgr_ok_def table_ok_def scaled_pos)
  with Cons.IH [OF m(2)] Cons.prems m(3) show ?case unfolding m' by auto
qed

definition ids_ok :: "int \<Rightarrow> (kv_cache_spec \<Rightarrow> bool) \<Rightarrow> kv_cache_spec option \<times> int list \<Rightarrow> bool" where
  "ids_ok i P st \<longleftrightarrow> (fst st = None \<longleftrightarrow> snd st = []) \<and> (\<forall>x\<in>set (snd st). 0 \<le> x \<and> x < i) \<and> (\<forall>s. fst st = Some s \<longrightarrow> P s)"

lemma note_group_ok:
  assumes "note_group i s st = Inr st'" and "ids_ok i P st" and "0 \<le> i" and "P s"
  shows "ids_ok (i + 1) P st' \<and> length (snd st') = Suc (length (snd st))"
  using assms by (fastforce simp: note_group_def ids_ok_def split: prod.splits option.splits if_splits)

lemma ids_ok_mono: "ids_ok i P st \<Longrightarrow> i \<le> j \<Longrightarrow> ids_ok j P st" by (auto simp: ids_ok_def)

lemma split_groups_ok:
  assumes "split_groups i gs (full, oth) = Inr (full', oth')" and "ids_ok i P full" and "ids_ok i P oth" and "0 \<le> i"
    and "\<forall>g\<in>set gs. P (group_spec g)"
  shows "length (snd full') + length (snd oth') = length (snd full) + length (snd oth) + length gs \<and>
    ids_ok (i + int (length gs)) P full' \<and> ids_ok (i + int (length gs)) P oth'"
  using assms
proof (induction gs arbitrary: i full oth)
  case Nil
  then show ?case by simp
next
  case (Cons g gs)
  show ?case
  proof (cases "is_full_attention (group_spec g)")
    case True
    with Cons.prems(1) obtain st where n: "note_group i (group_spec g) full = Inr st"
      "split_groups (i + 1) gs (st, oth) = Inr (full', oth')" by auto
    have "P (group_spec g)" using Cons.prems(5) by simp
    note st = note_group_ok [OF n(1) Cons.prems(2,4) this]
    have "ids_ok (i + 1) P oth" using Cons.prems(3) by (rule ids_ok_mono) simp
    with Cons.IH [OF n(2)] st Cons.prems(4,5) show ?thesis by (simp add: algebra_simps)
  next
    case False
    with Cons.prems(1) obtain st where n: "note_group i (group_spec g) oth = Inr st"
      "split_groups (i + 1) gs (full, st) = Inr (full', oth')" by auto
    have "P (group_spec g)" using Cons.prems(5) by simp
    note st = note_group_ok [OF n(1) Cons.prems(3,4) this]
    have "ids_ok (i + 1) P full" using Cons.prems(2) by (rule ids_ok_mono) simp
    with Cons.IH [OF n(2)] st Cons.prems(4,5) show ?thesis by (simp add: algebra_simps)
  qed
qed

lemma verify_and_split_ok:
  assumes "verify_and_split_kv_cache_groups caching groups = Inr cls" and "int (length groups) < 2 ^ 32"
    and "\<forall>g\<in>set groups. P (group_spec g)"
  shows "\<exists>fi oi fs os ff. cls = HybridKVCacheCoordinator fi oi fs os ff \<and> P fs \<and> P os \<and> valid_groups fi \<and> valid_groups oi \<and>
    length groups = length fi + length oi"
proof -
  from assms(1) obtain full oth where
    s: "split_groups 0 groups ((None, []), (None, [])) = Inr (full, oth)" unfolding verify_and_split_kv_cache_groups_def by auto
  from split_groups_ok [OF s, of P] assms(3) have
    k: "length (snd full) + length (snd oth) = length groups" "ids_ok (int (length groups)) P full" "ids_ok (int (length groups)) P oth"
    by (auto simp: ids_ok_def)
  with assms(1) s obtain fs os where f: "fst full = Some fs" "fst oth = Some os"
    and c: "cls = HybridKVCacheCoordinator (snd full) (snd oth) fs os True \<or> cls = HybridKVCacheCoordinator (snd full) (snd oth) fs os False"
    by (cases full; cases oth) (auto simp: verify_and_split_kv_cache_groups_def split: option.splits if_splits)
  have "valid_groups (snd full)" "valid_groups (snd oth)"
    using k(2,3) f assms(2) by (auto simp: ids_ok_def valid_groups_def)
  then show ?thesis using c f k by (auto simp: ids_ok_def)
qed

lemma KVCacheCoordinator_ok:
  assumes "KVCacheCoordinator use_int cfg mml eagle ca ev dcp cls = Inr c" and "config_ok cfg ca eagle dcp"
  shows "kv_inv (single_type_managers c) (coord_pool c)" "enable_caching (coord_pool c) = ca" "coord_enable_caching c = ca"
    "coord_groups c = kv_cache_groups cfg" "length (single_type_managers c) = length (kv_cache_groups cfg)"
    "coord_class c = cls" "coord_use_eagle c = eagle"
    "\<forall>m\<in>set (single_type_managers c). \<exists>g\<in>set (kv_cache_groups cfg).
       mgr_block_size m = scaled_block_size (spec_block_size (group_spec g)) dcp"
proof -
  from assms(1) obtain p ms where p: "BlockPool (num_blocks cfg) ca ev use_int = Inr p"
    and ms: "make_managers p dcp 0 (kv_cache_groups cfg) = Inr ms"
    and c: "c = \<lparr>coord_groups = kv_cache_groups cfg, coord_max_model_len = mml, coord_enable_caching = ca,
      coord_pool = p, coord_use_eagle = eagle, single_type_managers = ms, coord_class = cls\<rparr>"
    by (auto simp: KVCacheCoordinator_def)
  from BlockPool_inv [of "num_blocks cfg" ca ev use_int] p assms(2) have
    pi: "pool_inv p (map Blk [1..<nat (num_blocks cfg)])" "enable_caching p = ca" "\<forall>a. ref_of p a = 0 \<and> hash_of p a = None"
    by (auto simp: config_ok_def)
  have nb: "null_block p = Blk 0" using reach_parts(6) [OF pi(1)] by (simp add: pool_frame_def)
  have "\<not> is_cross_attention s" if "spec_ok s eagle dcp" for s using that by (cases s) (auto simp: spec_ok_def)
  then have mk: "length ms = length (kv_cache_groups cfg)" "\<forall>m\<in>set ms. mgr_ok p m \<and> req_to_blocks m = (\<lambda>_. []) \<and>
      (\<exists>g\<in>set (kv_cache_groups cfg). mgr_block_size m = scaled_block_size (spec_block_size (group_spec g)) dcp)"
    using make_managers_ok [OF ms] assms(2) pi(2) nb by (auto simp: config_ok_def)
  have "total_refs ms a = 0" for a
    using mk(2) unfolding total_refs_def by (simp add: mgr_refs_def)
  then show "kv_inv (single_type_managers c) (coord_pool c)" using pi mk unfolding c kv_acc_def by auto
  show "enable_caching (coord_pool c) = ca" "coord_enable_caching c = ca" "coord_groups c = kv_cache_groups cfg"
    "length (single_type_managers c) = length (kv_cache_groups cfg)" "coord_class c = cls" "coord_use_eagle c = eagle"
    "\<forall>m\<in>set (single_type_managers c). \<exists>g\<in>set (kv_cache_groups cfg).
       mgr_block_size m = scaled_block_size (spec_block_size (group_spec g)) dcp"
    using c mk pi(2) by simp_all
qed

definition km_B :: "kv_cache_manager \<Rightarrow> int" where
  "km_B k = (case km_block_size k of Some b \<Rightarrow> b | None \<Rightarrow> 0)"

lemma remdups_single: "remdups xs = [b] \<Longrightarrow> x \<in> set xs \<Longrightarrow> x = b"
  by (metis empty_iff empty_set insert_iff list.simps(15) set_remdups)

lemma KVCacheManager_inv:
  assumes k: "KVCacheManager use_int cfg mml caching eagle lg ev dcp = Inr k" and ok: "config_ok cfg caching eagle dcp"
  shows "km_inv (km_B k) k"
proof (cases caching)
  case False
  from k False obtain c where c: "KVCacheCoordinator use_int cfg mml eagle False ev dcp KVCacheCoordinatorNoPrefixCache = Inr c"
    and kk: "k = \<lparr>km_max_model_len = mml, km_enable_caching = caching, km_use_eagle = eagle, km_log_stats = lg,
      km_stats = (if lg then Some PrefixCacheStats else None), recent_prefix_cache_lookups = [], km_block_size = None,
      km_coordinator = c, num_kv_cache_groups = length (kv_cache_groups cfg)\<rparr>"
    by (auto simp: KVCacheManager_def get_kv_cache_coordinator_def Let_def)
  from KVCacheCoordinator_ok [OF c] ok False show ?thesis unfolding kk km_inv_def coord_ok_def by simp
next
  case True
  let ?gs = "kv_cache_groups cfg"
  from k True obtain b c where b: "remdups (map (\<lambda>g. spec_block_size (group_spec g)) ?gs) = [b]" "dcp > 1 \<longrightarrow> length ?gs = 1"
    and c: "get_kv_cache_coordinator use_int cfg mml eagle True ev dcp = Inr c"
    and kk: "k = \<lparr>km_max_model_len = mml, km_enable_caching = caching, km_use_eagle = eagle, km_log_stats = lg,
      km_stats = (if lg then Some PrefixCacheStats else None), recent_prefix_cache_lookups = [],
      km_block_size = Some (scaled_block_size b dcp), km_coordinator = c, num_kv_cache_groups = length ?gs\<rparr>"
    by (auto simp: KVCacheManager_def Let_def scaled_block_size_def split: list.splits if_splits)
  have sz: "spec_block_size (group_spec g) = b" if "g \<in> set ?gs" for g
    using remdups_single [OF b(1)] that by auto
  have B: "km_B k = scaled_block_size b dcp" using kk by (simp add: km_B_def)
  have inv: "km_inv (km_B k) k" if "KVCacheCoordinator use_int cfg mml eagle True ev dcp cls = Inr c0"
    "c = c0\<lparr>coord_class := coord_class c\<rparr>" "coord_ok (scaled_block_size b dcp) c" for cls c0
  proof -
    note f = KVCacheCoordinator_ok [OF that(1)]
    have e: "single_type_managers c = single_type_managers c0" "coord_pool c = coord_pool c0" "coord_groups c = coord_groups c0"
      "coord_enable_caching c = coord_enable_caching c0" by (subst that(2), simp)+
    show ?thesis using f ok True sz that(3) B unfolding km_inv_def kk by (auto simp: e)
  qed
  show ?thesis
  proof (cases "\<exists>g. ?gs = [g]")
    case True
    then obtain g where g: "?gs = [g]" by blast
    let ?cls = "UnitaryKVCacheCoordinator (group_spec g) (scaled_block_size (spec_block_size (group_spec g)) dcp) dcp"
    have c': "KVCacheCoordinator use_int cfg mml eagle True ev dcp ?cls = Inr c"
      using c g by (simp add: get_kv_cache_coordinator_def Let_def)
    from KVCacheCoordinator_ok [OF c'] ok g \<open>caching\<close> sz show ?thesis
      by (intro inv [OF c']) (auto simp: coord_ok_def config_ok_def)
  next
    case False
    then obtain c0 cls where c0: "KVCacheCoordinator use_int cfg mml eagle True ev dcp KVCacheCoordinatorNoPrefixCache = Inr c0"
      "dcp = 1" "verify_and_split_kv_cache_groups True ?gs = Inr cls" "c = c0\<lparr>coord_class := cls\<rparr>"
      using c by (auto simp: get_kv_cache_coordinator_def Let_def split: list.splits if_splits)
    have "\<forall>g\<in>set ?gs. spec_ok (group_spec g) eagle 1 \<and> spec_block_size (group_spec g) = b"
      using ok \<open>caching\<close> sz c0(2) by (auto simp: config_ok_def)
    from verify_and_split_ok [OF c0(3) _ this] ok obtain fi oi fs os ff where
      "cls = HybridKVCacheCoordinator fi oi fs os ff" "spec_ok fs eagle 1" "spec_ok os eagle 1" "spec_block_size fs = b"
      "spec_block_size os = b" "valid_groups fi" "valid_groups oi" "length ?gs = length fi + length oi"
      by (auto simp: config_ok_def)
    with KVCacheCoordinator_ok [OF c0(1)] ok \<open>caching\<close> c0(2,4) show ?thesis
      by (intro inv [OF c0(1)]) (auto simp: coord_ok_def)
  qed
qed

section \<open>The other operations\<close>

lemma reset_refs: "pool_reset_prefix_cache p = (b, p') \<Longrightarrow> ref_of p' a = ref_of p a"
  using reset_hashes [of "map Blk [0..<nat (num_gpu_blocks p)]" "p\<lparr>cached_block_hash_to_block := Map.empty\<rparr>"]
  by (auto simp: pool_reset_prefix_cache_def Let_def add_event_def split: if_splits)

text \<open>A request that can be looked up: it has tokens, hashes for all its full blocks, and no hash twice.\<close>

definition lookup_ready :: "request \<Rightarrow> int \<Rightarrow> bool" where
  "lookup_ready r B \<longleftrightarrow> 0 < num_tokens r \<and> nat ((num_tokens r - 1) div B) \<le> length (block_hashes r) \<and> distinct (block_hashes r)"

lemma km_inv_frame:
  assumes "km_inv B k" and "km_coordinator k' = km_coordinator k" and "km_enable_caching k' = km_enable_caching k"
    and "num_kv_cache_groups k' = num_kv_cache_groups k" and "km_log_stats k' \<longrightarrow> km_stats k' \<noteq> None"
  shows "km_inv B k'"
  using assms by (simp add: km_inv_def)

lemma get_computed_blocks_ok:
  assumes inv: "km_inv B k" and rd: "lookup_ready r B"
  shows "\<exists>hits K k'. get_computed_blocks now r k = Inr ((hits, int K * B), k') \<and> km_inv B k' \<and>
    km_coordinator k' = km_coordinator k \<and> km_enable_caching k' = km_enable_caching k \<and>
    km_max_model_len k' = km_max_model_len k \<and> km_block_size k' = km_block_size k \<and>
    length hits = length (km_managers k) \<and> int K * B \<le> num_tokens r - 1 \<and>
    (\<forall>bs\<in>set hits. length bs = K \<and> hit_ok (km_pool k) bs) \<and>
    (\<not> km_enable_caching k \<longrightarrow> K = 0) \<and> (K = 0 \<or> K \<le> length (block_hashes r))"
proof (cases "\<not> km_enable_caching k \<or> skips_prefix_cache r")
  case True
  then show ?thesis using inv rd
    by (intro exI [of _ "create_empty_block_list k"] exI [of _ 0] exI [of _ k])
      (auto simp: get_computed_blocks_def create_empty_block_list_def km_inv_def hit_ok_def table_ok_def lookup_ready_def)
next
  case False
  from kv_accD(1) [of "km_managers k" _ "km_pool k"] inv obtain xs where xs: "pool_inv (km_pool k) xs" by (auto simp: km_inv_def)
  have nb: "null_block (km_pool k) = Blk 0" using reach_parts(6) [OF xs] by (simp add: pool_frame_def)
  have "coord_ok B (km_coordinator k)" "0 \<le> num_tokens r - 1" using inv rd by (auto simp: km_inv_def lookup_ready_def)
  from coord_find_ok [OF reach_parts(2) [OF xs] this, of "block_hashes r"] rd obtain K hits where
    h: "coord_find_longest_cache_hit (block_hashes r) (num_tokens r - 1) (km_coordinator k) = Inr (hits, int K * B)"
      "length hits = length (km_managers k)" "int K * B \<le> num_tokens r - 1" "K = 0 \<or> K \<le> nat ((num_tokens r - 1) div B)"
      "\<forall>col\<in>set hits. \<exists>g. hit_col (km_pool k) (block_hashes r) K g col" by (auto simp: lookup_ready_def)
  have K: "K \<le> length (block_hashes r)" using h(4) rd by (auto simp: lookup_ready_def)
  have hk: "length bs = K \<and> hit_ok (km_pool k) bs" if "bs \<in> set hits" for bs
    using h(5) that hit_col_ok [OF _ K _ nb] rd by (auto simp: lookup_ready_def hit_col_def)
  let ?k1 = "k\<lparr>recent_prefix_cache_lookups := deque_append 4096 (now, num_tokens r, int K * B) (recent_prefix_cache_lookups k)\<rparr>"
  have "\<exists>k'. get_computed_blocks now r k = Inr ((hits, int K * B), k') \<and> km_inv B k' \<and>
    km_coordinator k' = km_coordinator k \<and> km_enable_caching k' = km_enable_caching k \<and>
    km_max_model_len k' = km_max_model_len k \<and> km_block_size k' = km_block_size k"
  proof (cases "km_log_stats k")
    case True
    then obtain st where st: "km_stats k = Some st" using inv by (auto simp: km_inv_def)
    with False h(1) True km_inv_frame [OF inv] show ?thesis by (auto simp: get_computed_blocks_def Let_def)
  next
    case nl: False
    with False h(1) km_inv_frame [OF inv, of ?k1] show ?thesis by (auto simp: get_computed_blocks_def Let_def)
  qed
  with h(2,3) hk K False show ?thesis by blast
qed

lemma km_free_ok:
  assumes inv: "km_inv B k"
  shows "\<exists>k'. km_free r k = Inr k' \<and> km_inv B k' \<and> km_block_size k' = km_block_size k \<and> length (km_managers k') = length (km_managers k) \<and>
    unhashed_changes (km_pool k) (km_pool k') \<and>
    (\<forall>j<length (km_managers k). req_to_blocks (km_managers k' ! j) = (req_to_blocks (km_managers k ! j))(request_id r := []) \<and>
       num_cached_block (km_managers k' ! j) = (num_cached_block (km_managers k ! j))(request_id r := None))"
proof -
  have "kv_inv (km_managers k) (km_pool k)" using inv by (simp add: km_inv_def)
  from free_stage [OF this, of "request_id r"] obtain ms p where
    f: "coord_free (request_id r) (km_coordinator k) = Inr (with_managers (km_coordinator k) ms p)" "kv_inv ms p"
      "unhashed_changes (km_pool k) p" "length ms = length (km_managers k)"
      "\<forall>j<length ms. same_mgr (request_id r) (km_managers k ! j) (ms ! j) \<and>
         req_to_blocks (ms ! j) = (req_to_blocks (km_managers k ! j))(request_id r := []) \<and>
         num_cached_block (ms ! j) = (num_cached_block (km_managers k ! j))(request_id r := None)" by blast
  have "km_inv B (k\<lparr>km_coordinator := with_managers (km_coordinator k) ms p\<rparr>)"
    using f by (intro km_inv_update [OF inv]) (auto simp: unhashed_changes_def same_mgr_def)
  with f show ?thesis by (simp add: km_free_def)
qed

lemma reset_prefix_cache_ok:
  assumes inv: "km_inv B k"
  shows "\<exists>b k'. reset_prefix_cache k = Inr (b, k') \<and> km_inv B k' \<and> km_block_size k' = km_block_size k"
proof -
  let ?p = "km_pool k" and ?ms = "km_managers k"
  have acc: "kv_inv ?ms ?p" using inv by (simp add: km_inv_def)
  from kv_accD(1) [OF acc] obtain xs where xs: "pool_inv ?p xs" by blast
  obtain b p where r: "pool_reset_prefix_cache ?p = (b, p)" by (cases "pool_reset_prefix_cache ?p")
  note ri = reset_inv [OF xs r]
  have sh: "same_shape ?p p" using ri(2,3) reset_prefix_cache_events [OF r] by (simp add: same_shape_def)
  show ?thesis
  proof (cases b)
    case False
    with r inv show ?thesis by (auto simp: reset_prefix_cache_def)
  next
    case True
    then have z: "\<And>a. usable ?p a \<Longrightarrow> ref_of ?p a = 0" using ri(4) by blast
    have "ref_of p a = ref_of ?p a" for a
      using r reset_refs [OF r] by simp
    then have "kv_inv ?ms p"
      using acc ri(1) sh z acc_others [OF acc _ sh] unfolding kv_acc_def same_shapeD(1) [OF sh] by auto
    then have "km_inv B (k\<lparr>km_coordinator := with_managers (km_coordinator k) ?ms p\<rparr>)"
      using sh by (intro km_inv_update [OF inv]) auto
    then have "km_inv B (k\<lparr>km_coordinator := (km_coordinator k)\<lparr>coord_pool := p\<rparr>, recent_prefix_cache_lookups := [], km_stats := st\<rparr>)"
      if "km_log_stats k \<longrightarrow> st \<noteq> None" for st using that by (simp add: km_inv_def)
    from this [of "km_stats k"] this [of "Some x" for x] inv r True show ?thesis
      by (auto simp: reset_prefix_cache_def Let_def km_inv_def split: option.splits)
  qed
qed

section \<open>Reachable managers\<close>

inductive km_reach :: "kv_cache_manager \<Rightarrow> bool" where
  kr_init: "KVCacheManager use_int cfg mml caching eagle lg ev dcp = Inr k \<Longrightarrow> config_ok cfg caching eagle dcp \<Longrightarrow> km_reach k"
| kr_lookup: "km_reach k \<Longrightarrow> lookup_ready r (km_B k) \<Longrightarrow> get_computed_blocks now r k = Inr (res, k') \<Longrightarrow> km_reach k'"
| kr_alloc: "km_reach k \<Longrightarrow> alloc_ready r num_new num_hit new_computed lookahead delay enc k \<Longrightarrow>
    allocate_slots r num_new num_hit new_computed lookahead delay enc k = Inr (res, k') \<Longrightarrow> km_reach k'"
| kr_free: "km_reach k \<Longrightarrow> km_free r k = Inr k' \<Longrightarrow> km_reach k'"
| kr_reset: "km_reach k \<Longrightarrow> reset_prefix_cache k = Inr (b, k') \<Longrightarrow> km_reach k'"
| kr_stats: "km_reach k \<Longrightarrow> get_recent_prefix_cache_stats now w k = (st, k') \<Longrightarrow> km_reach k'"
| kr_make_stats: "km_reach k \<Longrightarrow> make_prefix_cache_stats k = (st, k') \<Longrightarrow> km_reach k'"

lemma km_reach_inv: "km_reach k \<Longrightarrow> km_inv (km_B k) k"
proof (induction rule: km_reach.induct)
  case (kr_init use_int cfg mml caching eagle lg ev dcp k)
  then show ?case by (rule KVCacheManager_inv)
next
  case (kr_lookup k r now res k')
  from get_computed_blocks_ok [OF kr_lookup.IH kr_lookup.hyps(2), of now] kr_lookup.hyps(3)
  have "km_inv (km_B k) k'" "km_block_size k' = km_block_size k" by auto
  then show ?case unfolding km_B_def by simp
next
  case (kr_alloc k r num_new num_hit new_computed lookahead delay enc res k')
  from allocate_slots_ok [OF kr_alloc.IH kr_alloc.hyps(2)] kr_alloc.hyps(3)
  have "km_inv (km_B k) k'" "km_block_size k' = km_block_size k" by auto
  then show ?case unfolding km_B_def by simp
next
  case (kr_free k r k')
  from km_free_ok [OF kr_free.IH, of r] kr_free.hyps(2) have "km_inv (km_B k) k'" "km_block_size k' = km_block_size k" by auto
  then show ?case unfolding km_B_def by simp
next
  case (kr_reset k b k')
  from reset_prefix_cache_ok [OF kr_reset.IH] kr_reset.hyps(2) have "km_inv (km_B k) k'" "km_block_size k' = km_block_size k" by auto
  then show ?case unfolding km_B_def by simp
next
  case (kr_stats k now w st k')
  then show ?case by (auto simp: get_recent_prefix_cache_stats_def Let_def km_inv_def km_B_def split: if_splits)
next
  case (kr_make_stats k st k')
  then show ?case by (auto simp: make_prefix_cache_stats_def km_inv_def km_B_def split: if_splits)
qed

section \<open>Fresh requests on a model with full attention\<close>

lemma full_lookup_usable:
  assumes "cache_ok (coord_pool c)" and "coord_class c = UnitaryKVCacheCoordinator (FullAttentionSpec a w ch) B dcp"
    and "spec_ok (FullAttentionSpec a w ch) e dcp" and "0 \<le> max_length"
    and "coord_find_longest_cache_hit hashes max_length c = Inr (hits, n)" and "col \<in> set hits" and "x \<in> set col"
  shows "usable (coord_pool c) x"
proof -
  let ?s = "FullAttentionSpec a w ch" and ?p = "coord_pool c"
  have v: "valid_groups [0]" by (simp add: valid_groups_def)
  have "0 < scaled_block_size (spec_block_size ?s) dcp" using assms(3) by (simp add: spec_ok_def scaled_pos)
  note full_hit_cols [OF assms(1) v assms(4) this, of hashes "coord_use_eagle c"]
  then obtain hs ys where h: "full_find_longest_cache_hit hashes max_length [0] ?p ?s (coord_use_eagle c) dcp = Inr hs"
    "list_all2 (\<lambda>g col. list_all2 (holds_hash ?p g) ys col) [0] hs" by blast
  have "hits = hs" using assms(2,5) h(1) by (auto simp: coord_find_longest_cache_hit_def find_longest_cache_hit_def)
  with h(2) assms(6) have "list_all2 (holds_hash ?p 0) ys col" by (auto simp: list_all2_Cons1)
  then show ?thesis using assms(7) unfolding list_all2_conv_all_nth by (metis holds_hash_def in_set_conv_nth)
qed

lemma fresh_alloc_ready:
  assumes m: "km_managers k = [m]" "mgr_spec m = FullAttentionSpec a w ch" "mgr_block_size m = B" "0 < B"
    and r: "num_cached_block m (request_id r) = None" "req_to_blocks m (request_id r) = []" "num_computed_tokens r = 0"
      "lora_request r = None" "num_tokens r \<le> km_max_model_len k" "int (length (block_hashes r)) = num_tokens r div B"
    and h: "hit_ok (km_pool k) hit" "\<forall>x\<in>set hit. usable (km_pool k) x" and ca: "km_enable_caching k"
    and n: "0 < n" "int (length hit) * B + n \<le> num_tokens r"
  shows "alloc_ready r n (int (length hit) * B) (Some [hit]) 0 False 0 k"
    "need_after (request_id r) (need_slot_of r n (int (length hit) * B) 0 k) 0 hit m =
       cdiv (int (length hit) * B + n) B - int (length hit)"
    "0 \<le> need_after (request_id r) (need_slot_of r n (int (length hit) * B) 0 k) 0 hit m"
proof -
  let ?h = "int (length hit) * B"
  have ns: "need_slot_of r n ?h 0 k = ?h + n" using r(3,5) n(2) by (simp add: need_slot_of_def)
  show need: "need_after (request_id r) (need_slot_of r n ?h 0 k) 0 hit m = cdiv (?h + n) B - int (length hit)"
    using m r(2) by (simp add: ns need_after_def blocks_needed_def slot_tokens_def)
  have "?h + n \<le> cdiv (?h + n) B * B" using m(4) by (rule cdiv_lower)
  then have lt: "int (length hit) * B < cdiv (?h + n) B * B" using n(1) by linarith
  then have le: "int (length hit) < cdiv (?h + n) B" using m(4) by (simp add: mult_less_cancel_right)
  then show nn: "0 \<le> need_after (request_id r) (need_slot_of r n ?h 0 k) 0 hit m" unfolding need by simp
  have q: "int (length hit) \<le> (?h + n) div B" using m(4) n(1) zdiv_mono1 [of ?h "?h + n" B] by simp
  have "x div B * B \<le> x" for x using m(4) by (simp add: minus_mod_eq_div_mult [symmetric])
  then have "(?h + n) div B * B \<le> ?h + n" .
  then have "(?h + n) div B * B \<le> cdiv (?h + n) B * B" using \<open>?h + n \<le> cdiv (?h + n) B * B\<close> by linarith
  then have q2: "(?h + n) div B \<le> cdiv (?h + n) B" using m(4) by (simp add: mult_le_cancel_right)
  have q3: "(?h + n) div B \<le> int (length (block_hashes r))" unfolding r(6) using m(4) n(2) by (intro zdiv_mono1) auto
  have "hit = [] \<or> usable (km_pool k) (last hit)" using h(2) last_in_set by blast
  then have "mgr_ready r 0 True True (usable (km_pool k)) (enable_kv_cache_events (km_pool k)) (?h + n) (?h + n) hit m"
    using m r q q2 q3 by (simp add: mgr_ready_def savable_def skippable_def slot_tokens_def max_def)
  moreover have "min (?h + n) (num_tokens r) = ?h + n" using n(2) by simp
  ultimately show "alloc_ready r n ?h (Some [hit]) 0 False 0 k"
    using m(1) h ca n(1) nn r(3) by (simp add: alloc_ready_def Let_def the_hits_def ns)
qed

text \<open>An example: one group of full attention with five blocks of two tokens.\<close>

definition example_attention :: attention_spec where
  "example_attention = \<lparr>attn_block_size = 2, num_kv_heads = 1, head_size = 8, attn_dtype = ''half'', use_mla = False\<rparr>"

definition example_config :: "kv_cache_spec list \<Rightarrow> KVCacheConfig" where
  "example_config specs = \<lparr>num_blocks = 5, kv_cache_tensors = [],
     kv_cache_groups = map (\<lambda>s. \<lparr>layer_names = [], group_spec = s\<rparr>) specs\<rparr>"

definition example_request :: request where
  "example_request = (text_request ''r'' [10, 11, 12, 13, 14])\<lparr>block_hashes := [[1], [2]]\<rparr>"

lemma example_manager:
  "\<exists>k m. KVCacheManager False (example_config [FullAttentionSpec example_attention None None]) 8 True False False False 1 = Inr k \<and>
     km_reach k \<and> km_managers k = [m] \<and> mgr_spec m = FullAttentionSpec example_attention None None \<and>
     coord_class (km_coordinator k) = UnitaryKVCacheCoordinator (FullAttentionSpec example_attention None None) 2 1 \<and>
     num_cached_block m = Map.empty \<and> (\<forall>rid. req_to_blocks m rid = []) \<and> mgr_block_size m = 2 \<and>
     km_enable_caching k \<and> km_max_model_len k = 8 \<and> km_B k = 2"
proof -
  let ?cfg = "example_config [FullAttentionSpec example_attention None None]"
  have ok: "config_ok ?cfg True False 1"
    by (simp add: config_ok_def example_config_def example_attention_def spec_ok_def)
  from BlockPool_inv [of 5 True False False] obtain p where p: "BlockPool 5 True False False = Inr p" by auto
  have "\<exists>k m. KVCacheManager False ?cfg 8 True False False False 1 = Inr k \<and> km_managers k = [m] \<and>
     mgr_spec m = FullAttentionSpec example_attention None None \<and>
     coord_class (km_coordinator k) = UnitaryKVCacheCoordinator (FullAttentionSpec example_attention None None) 2 1 \<and>
     num_cached_block m = Map.empty \<and> (\<forall>rid. req_to_blocks m rid = []) \<and> mgr_block_size m = 2 \<and>
     km_enable_caching k \<and> km_max_model_len k = 8 \<and> km_B k = 2"
    using p by (simp add: KVCacheManager_def get_kv_cache_coordinator_def KVCacheCoordinator_def example_config_def
        example_attention_def get_manager_for_kv_cache_spec_def Let_def scaled_block_size_def km_B_def)
  with kr_init [OF _ ok] show ?thesis by blast
qed

section \<open>Properties\<close>

text \<open>
  C3: the accounting of the KV cache. In every reachable manager the reference count of a block is
  the number of its occurrences in the block tables of all groups and requests, so a block is on
  the free list exactly when no table mentions it; and a block whose content is not hashed yet is
  in one table at most.
\<close>

theorem kv_cache_accounting:
  assumes "km_reach k"
  shows "(\<forall>a. usable (km_pool k) a \<longrightarrow>
      ref_of (km_pool k) a = int (\<Sum>m\<leftarrow>km_managers k. \<Sum>rid | req_to_blocks m rid \<noteq> []. count_list (req_to_blocks m rid) a)) \<and>
    (\<exists>xs. get_all_free_blocks (free_block_queue (km_pool k)) = Some (Inr xs) \<and>
      (\<forall>a. usable (km_pool k) a \<longrightarrow> (a \<in> set xs \<longleftrightarrow> (\<forall>m\<in>set (km_managers k). \<forall>rid. a \<notin> set (req_to_blocks m rid))))) \<and>
    (\<forall>a. usable (km_pool k) a \<longrightarrow> hash_of (km_pool k) a = None \<longrightarrow> ref_of (km_pool k) a \<le> 1)"
proof -
  have acc: "kv_inv (km_managers k) (km_pool k)" using km_reach_inv [OF assms] by (simp add: km_inv_def)
  from kv_accD(1) [OF acc] obtain xs where xs: "pool_inv (km_pool k) xs" by blast
  have "a \<in> set xs \<longleftrightarrow> (\<forall>m\<in>set (km_managers k). \<forall>rid. a \<notin> set (req_to_blocks m rid))" if a: "usable (km_pool k) a" for a
  proof -
    have "a \<in> set xs \<longleftrightarrow> ref_of (km_pool k) a = 0" using reach_parts(3) [OF xs] a by (auto simp: refs_ok_def)
    also have "\<dots> \<longleftrightarrow> total_refs (km_managers k) a = 0" using kv_accD(3) [OF acc a] by simp
    also have "\<dots> \<longleftrightarrow> (\<forall>m\<in>set (km_managers k). mgr_refs m a = 0)" by (simp add: total_refs_def)
    also have "\<dots> \<longleftrightarrow> (\<forall>m\<in>set (km_managers k). \<forall>rid. a \<notin> set (req_to_blocks m rid))"
    proof (intro ball_cong refl)
      fix m assume "m \<in> set (km_managers k)"
      then have "finite {rid. req_to_blocks m rid \<noteq> []}" using mgr_okD(1) kv_accD(2) [OF acc] by blast
      then show "mgr_refs m a = 0 \<longleftrightarrow> (\<forall>rid. a \<notin> set (req_to_blocks m rid))"
        by (simp add: mgr_refs_def count_list_0_iff) (metis empty_iff empty_set)
    qed
    finally show ?thesis .
  qed
  then show ?thesis using kv_accD(3,4) [OF acc] reach_parts(5) [OF xs] by (auto simp: total_refs_def mgr_refs_def)
qed

theorem kv_cache_accounting_witness:
  "\<exists>k. KVCacheManager False (example_config [FullAttentionSpec example_attention None None]) 8 True False False False 1 = Inr k \<and>
     (\<forall>a. usable (km_pool k) a \<longrightarrow> hash_of (km_pool k) a = None \<longrightarrow> ref_of (km_pool k) a \<le> 1)"
  using example_manager kv_cache_accounting by blast



text \<open>
  C29: scheduling a fresh request on a model with full attention. Looking up its prefix and then
  allocating slots for more of its tokens never raises and never caches too much: the hit is a
  multiple of the block size short of the whole request, and unless memory is short the request
  then owns exactly the blocks of the hit followed by new ones, just enough for its tokens.
\<close>

theorem fresh_request_slots:
  assumes "km_reach k" and "km_managers k = [m]" and "mgr_spec m = FullAttentionSpec a w ch" and "km_enable_caching k"
    and "coord_class (km_coordinator k) = UnitaryKVCacheCoordinator (FullAttentionSpec a w ch) B dcp"
    and "num_cached_block m (request_id r) = None" and "num_computed_tokens r = 0" and "lora_request r = None"
    and "0 < num_tokens r" and "num_tokens r \<le> km_max_model_len k"
    and "distinct (block_hashes r)" and "int (length (block_hashes r)) = num_tokens r div B"
  shows "\<exists>hit h k1. get_computed_blocks now r k = Inr (([hit], h), k1) \<and> h = int (length hit) * B \<and> h < num_tokens r \<and>
    (\<forall>n. 0 < n \<and> h + n \<le> num_tokens r \<longrightarrow>
      (\<exists>res k2. allocate_slots r n h (Some [hit]) 0 False 0 k1 = Inr (res, k2) \<and> km_reach k2 \<and>
        (case res of
           None \<Rightarrow> get_num_free_blocks (km_pool k2) < cdiv (h + n) B - int (length hit) + evictable (km_pool k2) hit
         | Some new \<Rightarrow> \<exists>bs. new = [bs] \<and> get_blocks (request_id r) k2 = [hit @ bs] \<and>
             int (length (hit @ bs)) = cdiv (h + n) B)))"
proof -
  note inv = km_reach_inv [OF assms(1)]
  have co: "coord_ok (km_B k) (km_coordinator k)" and acc: "kv_inv [m] (km_pool k)" using inv assms(2) by (auto simp: km_inv_def)
  have B: "km_B k = B" and so: "spec_ok (FullAttentionSpec a w ch) (coord_use_eagle (km_coordinator k)) dcp"
    and bs: "mgr_block_size m = B" using co assms(2,4,5) inv by (auto simp: coord_ok_def km_inv_def)
  have ok: "mgr_ok (km_pool k) m" using kv_accD(2) [OF acc] by simp
  have B0: "0 < B" using mgr_okD(3) [OF ok] bs by simp
  have t: "req_to_blocks m (request_id r) = []" using mgr_okD(7) [OF ok] assms(3,6) by simp
  have lr: "lookup_ready r (km_B k)"
    using assms(9,11,12) B0 zdiv_mono1 [of "num_tokens r - 1" "num_tokens r" B] by (simp add: lookup_ready_def B)
  from get_computed_blocks_ok [OF inv lr, of now] obtain hits K k1 where
    g: "get_computed_blocks now r k = Inr ((hits, int K * B), k1)" "km_coordinator k1 = km_coordinator k" "km_enable_caching k1"
      "km_max_model_len k1 = km_max_model_len k" "length hits = length (km_managers k)" "int K * B \<le> num_tokens r - 1"
      "\<forall>bs\<in>set hits. length bs = K \<and> hit_ok (km_pool k) bs" using assms(4) B by auto
  then obtain hit where hit: "hits = [hit]" "length hit = K" "hit_ok (km_pool k) hit"
    using assms(2) by (cases hits) (auto simp: length_Suc_conv)
  from kv_accD(1) [OF acc] obtain xs where "pool_inv (km_pool k) xs" by blast
  then have cok: "cache_ok (km_pool k)" by (rule reach_parts)
  have us: "\<forall>x\<in>set hit. usable (km_pool k) x"
  proof (cases "skips_prefix_cache r")
    case True
    with g(1) hit(1) have "[hit] = replicate (num_kv_cache_groups k) []"
      by (auto simp: get_computed_blocks_def create_empty_block_list_def)
    then have "hit = []" by (cases "num_kv_cache_groups k") auto
    then show ?thesis by simp
  next
    case False
    with g(1) assms(4) have "coord_find_longest_cache_hit (block_hashes r) (num_tokens r - 1) (km_coordinator k) = Inr (hits, int K * B)"
      by (auto simp: get_computed_blocks_def Let_def split: if_splits option.splits)
    then show ?thesis using full_lookup_usable [OF cok assms(5) so, of "num_tokens r - 1" "block_hashes r" hits] assms(9) hit(1) by auto
  qed
  have r1: "km_reach k1" using assms(1) lr g(1) by (rule kr_lookup)
  have "\<exists>res k2. allocate_slots r n (int K * B) (Some [hit]) 0 False 0 k1 = Inr (res, k2) \<and> km_reach k2 \<and>
        (case res of
           None \<Rightarrow> get_num_free_blocks (km_pool k2) < cdiv (int K * B + n) B - int (length hit) + evictable (km_pool k2) hit
         | Some new \<Rightarrow> \<exists>bs. new = [bs] \<and> get_blocks (request_id r) k2 = [hit @ bs] \<and>
             int (length (hit @ bs)) = cdiv (int K * B + n) B)" if n: "0 < n" "int K * B + n \<le> num_tokens r" for n
  proof -
    note fr = fresh_alloc_ready [of k1 m a w ch B r hit n]
    have f: "alloc_ready r n (int K * B) (Some [hit]) 0 False 0 k1"
      "need_after (request_id r) (need_slot_of r n (int K * B) 0 k1) 0 hit m = cdiv (int K * B + n) B - int (length hit)"
      "0 \<le> need_after (request_id r) (need_slot_of r n (int K * B) 0 k1) 0 hit m"
      using fr assms bs B0 t g hit us n by simp_all
    have mk: "km_managers k1 = [m]" and hk: "the_hits k1 (Some [hit]) = [hit]" using assms(2) g(2) by (simp_all add: the_hits_def)
    have "\<not> mixed_needs r n (int K * B) (Some [hit]) 0 0 k1" by (rule one_group_not_mixed) (simp add: mk)
    with allocate_slots_ok [OF km_reach_inv [OF r1] f(1), unfolded mk hk] obtain res k2 where
      al: "allocate_slots r n (int K * B) (Some [hit]) 0 False 0 k1 = Inr (res, k2)" and l: "length (km_managers k2) = length [m]" and
      c: "case res of
         None \<Rightarrow> get_num_free_blocks (km_pool k2) <
             (\<Sum>j<length [m]. need_after (request_id r) (need_slot_of r n (int K * B) 0 k1) 0 ([hit] ! j) ([m] ! j) +
                evictable (km_pool k2) ([hit] ! j)) \<and> (\<forall>j<length [m]. skipped r ([m] ! j) (km_managers k2 ! j))
       | Some new \<Rightarrow> length new = length [m] \<and>
           (\<forall>j<length [m]. granted r (need_slot_of r n (int K * B) 0 k1) 0 ([hit] ! j) (new ! j) ([m] ! j) (km_managers k2 ! j))"
      by blast
    have r2: "km_reach k2" using r1 f(1) al by (rule kr_alloc)
    show ?thesis
    proof (cases res)
      case None
      then show ?thesis using al c r2 f(2) by simp
    next
      case (Some new)
      then obtain bs where bs: "new = [bs]" using c by (auto simp: length_Suc_conv)
      have "get_blocks (request_id r) k2 = [hit @ bs]" "int (length (hit @ bs)) = cdiv (int K * B + n) B"
        using c Some bs l t f(2,3) by (auto simp: granted_def get_blocks_def coord_get_blocks_def length_Suc_conv)
      then show ?thesis using al r2 Some bs by simp
    qed
  qed
  then show ?thesis using g(1,6) hit(1,2) by (intro exI [of _ hit] exI [of _ "int K * B"] exI [of _ k1]) auto
qed

theorem fresh_request_slots_witness:
  "\<exists>k hit h k1. KVCacheManager False (example_config [FullAttentionSpec example_attention None None]) 8 True False False False 1 = Inr k \<and>
     get_computed_blocks 0 example_request k = Inr (([hit], h), k1) \<and> h < 5 \<and>
     (\<exists>res k2. allocate_slots example_request (5 - h) h (Some [hit]) 0 False 0 k1 = Inr (res, k2))"
proof -
  from example_manager obtain k m where k:
    "KVCacheManager False (example_config [FullAttentionSpec example_attention None None]) 8 True False False False 1 = Inr k" "km_reach k"
    "km_managers k = [m]" "mgr_spec m = FullAttentionSpec example_attention None None"
    "coord_class (km_coordinator k) = UnitaryKVCacheCoordinator (FullAttentionSpec example_attention None None) 2 1"
    "num_cached_block m = Map.empty" "km_enable_caching k" "km_max_model_len k = 8" by blast
  have r: "num_cached_block m (request_id example_request) = None" "num_computed_tokens example_request = 0"
    "lora_request example_request = None" "num_tokens example_request = 5" "distinct (block_hashes example_request)"
    "length (block_hashes example_request) = 2"
    using k(6) by (simp_all add: example_request_def text_request_def num_tokens_def)
  have "0 < num_tokens example_request" "num_tokens example_request \<le> km_max_model_len k"
    "int (length (block_hashes example_request)) = num_tokens example_request div 2" using r k(8) by simp_all
  from fresh_request_slots [OF k(2-4) k(7) k(5) r(1-3) this(1,2) r(5) this(3), of 0] r(4) obtain hit h k1 where
    g: "get_computed_blocks 0 example_request k = Inr (([hit], h), k1)" "h < 5"
      "\<forall>n. 0 < n \<and> h + n \<le> 5 \<longrightarrow> (\<exists>res k2. allocate_slots example_request n h (Some [hit]) 0 False 0 k1 = Inr (res, k2))" by metis
  from g(3) [rule_format, of "5 - h"] g(1,2) k(1) show ?thesis by auto
qed

text \<open>
  C32: memory is over-committed when needs are mixed. The needs of the groups are added up, negative ones included,
  and the sum is compared with the free blocks: blocks one group holds beyond its need, such as those of the encoder
  in the decoding steps of an encoder-decoder request, hide what another group lacks. For every reachable manager and
  every call without a prefix hit, the allocation raises \<^verbatim>\<open>ValueError\<close>, where it should report that memory is short,
  exactly when the sum fits into the free blocks and the blocks that really have to be allocated do not.
\<close>

theorem allocation_overcommit:
  assumes "km_reach k" and "alloc_ready r num_new num_hit None lookahead delay enc k"
  shows "\<exists>c. remove_skipped_blocks (request_id r) (num_computed_tokens r) (km_coordinator k) = Inr c \<and>
    (let n = min (num_computed_tokens r + num_hit + num_new + lookahead) (km_max_model_len k); free = get_num_free_blocks (coord_pool c);
         need = (\<lambda>j. need_after (request_id r) n enc [] (km_managers k ! j)); N = length (km_managers k)
     in allocate_slots r num_new num_hit None lookahead delay enc k = Inl ValueError \<longleftrightarrow>
          (\<Sum>j<N. need j) \<le> free \<and> free < (\<Sum>j<N. max 0 (need j)))"
proof -
  let ?n = "need_slot_of r num_new num_hit lookahead k" and ?hits = "the_hits k None" and ?N = "length (km_managers k)"
  let ?need = "\<lambda>j. need_after (request_id r) ?n enc (?hits ! j) (km_managers k ! j)"
  have e: "\<forall>bs\<in>set ?hits. bs = []" by (simp add: the_hits_def)
  have nth: "?hits ! j = []" if "j < ?N" for j using that e alloc_readyD(2) [OF assms(2)] by (metis nth_mem)
  then have ev: "(\<Sum>j<?N. f j + evictable p (?hits ! j)) = (\<Sum>j<?N. f j)" for p f by (intro sum.cong) (simp_all add: evictable_def)
  have nd: "(\<Sum>j<?N. g (need_after (request_id r) ?n enc [] (km_managers k ! j))) = (\<Sum>j<?N. g (?need j))" for g :: "int \<Rightarrow> int"
    using nth by (intro sum.cong) simp_all
  from allocate_slots_cases [OF km_reach_inv [OF assms(1)] assms(2)] e obtain ms1 p1 where
    p: "remove_skipped_blocks (request_id r) (num_computed_tokens r) (km_coordinator k) = Inr (with_managers (km_coordinator k) ms1 p1)"
    and c: "if get_num_free_blocks p1 < (\<Sum>j<?N. ?need j + evictable p1 (?hits ! j))
     then \<exists>k'. allocate_slots r num_new num_hit None lookahead delay enc k = Inr (None, k')
     else if get_num_free_blocks p1 < (\<Sum>j<?N. max 0 (?need j)) then allocate_slots r num_new num_hit None lookahead delay enc k = Inl ValueError
     else \<exists>new k'. allocate_slots r num_new num_hit None lookahead delay enc k = Inr (Some new, k')"
    by (auto split: if_splits)
  have "allocate_slots r num_new num_hit None lookahead delay enc k = Inl ValueError \<longleftrightarrow>
      (\<Sum>j<?N. ?need j) \<le> get_num_free_blocks p1 \<and> get_num_free_blocks p1 < (\<Sum>j<?N. max 0 (?need j))"
    using c unfolding ev by (auto split: if_splits)
  then show ?thesis using p nd [of "\<lambda>x. x"] nd [of "max 0"] unfolding Let_def need_slot_of_def [symmetric] by simp
qed

text \<open>
  An encoder-decoder model with four free blocks: the first step takes three, and a step that then needs two more
  raises with one free block left, since the two blocks of the encoder are counted against them.
\<close>

lemma plain_alloc_ready:
  assumes "num_new \<noteq> 0" and "\<not> km_enable_caching k" and "length (coord_groups (km_coordinator k)) = length (km_managers k)"
    and "\<forall>m\<in>set (km_managers k). \<not> skips_blocks (mgr_spec m)"
  shows "alloc_ready r num_new num_hit None lookahead delay enc k"
  using assms by (auto simp: alloc_ready_def Let_def the_hits_def mgr_ready_def savable_def skippable_def hit_ok_def table_ok_def)

theorem allocation_overcommit_witness:
  "\<exists>k res k1 c. KVCacheManager False (example_config [FullAttentionSpec example_attention None None, CrossAttentionSpec example_attention]) 20 False False False False 1 = Inr k \<and>
     allocate_slots example_request 2 0 None 0 False 4 k = Inr (res, k1) \<and>
     remove_skipped_blocks ''r'' 2 (km_coordinator k1) = Inr c \<and>
     get_num_free_blocks (coord_pool c) < (\<Sum>j<2. max 0 (need_after ''r'' 5 0 [] (km_managers k1 ! j))) \<and>
     allocate_slots (example_request\<lparr>num_computed_tokens := 2\<rparr>) 3 0 None 0 False 0 k1 = Inl ValueError"
proof -
  let ?cfg = "example_config [FullAttentionSpec example_attention None None, CrossAttentionSpec example_attention]"
  let ?r = "example_request\<lparr>num_computed_tokens := 2\<rparr>"
  let ?view = "\<lambda>k. (km_enable_caching k, length (coord_groups (km_coordinator k)), map (skips_blocks \<circ> mgr_spec) (km_managers k), km_max_model_len k)"
  have eval: "rbind (KVCacheManager False ?cfg 20 False False False False 1) (\<lambda>k.
      rbind (allocate_slots example_request 2 0 None 0 False 4 k) (\<lambda>(res, k1).
        Inr (?view k, ?view k1, case allocate_slots ?r 3 0 None 0 False 0 k1 of Inl e \<Rightarrow> Some e | Inr _ \<Rightarrow> None))) =
    Inr ((False, 2, [False, False], 20), (False, 2, [False, False], 20), Some ValueError)" by code_simp
  from rbind_eq_Inr [THEN iffD1, OF eval] obtain k where k: "KVCacheManager False ?cfg 20 False False False False 1 = Inr k"
    and e: "rbind (allocate_slots example_request 2 0 None 0 False 4 k) (\<lambda>(res, k1).
        Inr (?view k, ?view k1, case allocate_slots ?r 3 0 None 0 False 0 k1 of Inl e \<Rightarrow> Some e | Inr _ \<Rightarrow> None)) =
      Inr ((False, 2, [False, False], 20), (False, 2, [False, False], 20), Some ValueError)" by blast
  from rbind_eq_Inr [THEN iffD1, OF e] obtain x where x: "allocate_slots example_request 2 0 None 0 False 4 k = Inr x" by blast
  obtain res k1 where "x = (res, k1)" by (cases x)
  with x e have k1: "allocate_slots example_request 2 0 None 0 False 4 k = Inr (res, k1)" "?view k = (False, 2, [False, False], 20)"
    "?view k1 = (False, 2, [False, False], 20)" "allocate_slots ?r 3 0 None 0 False 0 k1 = Inl ValueError"
    by (auto split: sum.splits)
  have ready: "alloc_ready r n 0 None 0 False enc x" if "?view x = (False, 2, [False, False], 20)" "n \<noteq> 0" for r n enc x
  proof (rule plain_alloc_ready)
    have "map (skips_blocks \<circ> mgr_spec) (km_managers x) = [False, False]" using that(1) by simp
    from arg_cong [OF this, of length] have l: "length (km_managers x) = 2" by simp
    then show "length (coord_groups (km_coordinator x)) = length (km_managers x)" using that(1) by simp
    have "True \<notin> set (map (skips_blocks \<circ> mgr_spec) (km_managers x))" using that(1) by (simp del: set_map)
    then show "\<forall>m\<in>set (km_managers x). \<not> skips_blocks (mgr_spec m)" by (auto simp: image_iff)
  qed (use that in auto)
  have "km_reach k" by (rule kr_init [OF k]) (simp add: config_ok_def example_config_def example_attention_def)
  from kr_alloc [OF this ready [OF k1(2)] k1(1)] have "km_reach k1" by simp
  from allocation_overcommit [OF this ready [OF k1(3), where n = 3]] obtain c where
    c: "remove_skipped_blocks (request_id ?r) (num_computed_tokens ?r) (km_coordinator k1) = Inr c"
      "get_num_free_blocks (coord_pool c) < (\<Sum>j<length (km_managers k1). max 0 (need_after (request_id ?r)
         (min (num_computed_tokens ?r + 0 + 3 + 0) (km_max_model_len k1)) 0 [] (km_managers k1 ! j)))"
    using k1(4) unfolding Let_def by fastforce
  moreover have "length (km_managers k1) = 2" "km_max_model_len k1 = 20" using k1(3) by (auto simp: map_eq_Cons_conv)
  ultimately show ?thesis using k k1(1,4) by (auto simp: example_request_def text_request_def)
qed

end
