(* ===== verification/KV_Config.thy ===== *)
theory KV_Config
  imports KV_Spec
begin

text \<open>
  The configuration of the KV cache, \<^verbatim>\<open>vllm/v1/core/kv_cache_utils.py\<close> from \<^verbatim>\<open>max_memory_usage_bytes\<close>
  on: whether memory suffices, the longest context that fits, the grouping of the layers and the
  tensors they share. The dictionary from layer names to specifications is an association list in
  insertion order. Messages written to the log are left out; the numbers computed for them are
  kept where computing them may raise.
\<close>

section \<open>Memory a request takes\<close>

type_synonym layer_specs = "(string \<times> kv_cache_spec) list"

fun max_memory_usage_bytes :: "(string \<Rightarrow> int) \<Rightarrow> vllm_config \<Rightarrow> kv_cache_spec list \<Rightarrow> int result" where
  "max_memory_usage_bytes ds cfg [] = Inr 0"
| "max_memory_usage_bytes ds cfg (s # ss) =
     rbind (layer_max_memory_usage_bytes ds cfg s) (\<lambda>a.
       rbind (max_memory_usage_bytes ds cfg ss) (\<lambda>b. Inr (a + b)))"

text \<open>The probe of the binary search writes the model length into the configuration.\<close>

definition fits_in_memory :: "(string \<Rightarrow> int) \<Rightarrow> kv_cache_spec list \<Rightarrow> int \<Rightarrow> int \<Rightarrow> vllm_config \<Rightarrow> (bool \<times> vllm_config) result" where
  "fits_in_memory ds specs available model_len cfg =
     (let cfg = cfg\<lparr>max_model_len_of := model_len\<rparr>
      in rbind (max_memory_usage_bytes ds cfg specs) (\<lambda>memory_needed. Inr (memory_needed \<le> available, cfg)))"

function estimate_loop ::
  "(string \<Rightarrow> int) \<Rightarrow> kv_cache_spec list \<Rightarrow> int \<Rightarrow> int \<Rightarrow> int \<Rightarrow> int \<Rightarrow> vllm_config \<Rightarrow> (int \<times> vllm_config) result" where
  "estimate_loop ds specs available left right res cfg =
     (if left \<le> right then
        rbind (fits_in_memory ds specs available ((left + right) div 2) cfg) (\<lambda>(ok, cfg).
          if ok then estimate_loop ds specs available ((left + right) div 2 + 1) right ((left + right) div 2) cfg
          else estimate_loop ds specs available left ((left + right) div 2 - 1) res cfg)
      else Inr (res, cfg))"
  by auto
termination
  by (relation "measure (\<lambda>(_, _, _, left, right, _, _). nat (right - left + 1))") auto

declare estimate_loop.simps [simp del]

definition estimate_max_model_len :: "(string \<Rightarrow> int) \<Rightarrow> vllm_config \<Rightarrow> layer_specs \<Rightarrow> int \<Rightarrow> (int \<times> vllm_config) result" where
  "estimate_max_model_len ds cfg specs available =
     (let current_max = max_model_len_of cfg; values = map snd specs
      in rbind (fits_in_memory ds values available 1 cfg) (\<lambda>(ok, cfg).
           if \<not> ok then Inr (0, cfg) else estimate_loop ds values available 1 current_max 1 cfg))"

definition check_enough_kv_cache_memory :: "(string \<Rightarrow> int) \<Rightarrow> vllm_config \<Rightarrow> layer_specs \<Rightarrow> int \<Rightarrow> unit result" where
  "check_enough_kv_cache_memory ds cfg specs available =
     (if specs = [] then Inr ()
      else if available \<le> 0 then Inl ValueError
      else rbind (max_memory_usage_bytes ds cfg (map snd specs)) (\<lambda>needed.
        if needed > available
        then rbind (estimate_max_model_len ds cfg specs available) (\<lambda>_. Inl ValueError)
        else Inr ()))"

section \<open>Groups of layers\<close>

fun lookup_layers :: "layer_specs \<Rightarrow> string list \<Rightarrow> kv_cache_spec list result" where
  "lookup_layers specs [] = Inr []"
| "lookup_layers specs (l # ls) =
     (case map_of specs l of
        None \<Rightarrow> Inl KeyError
      | Some s \<Rightarrow> rbind (lookup_layers specs ls) (\<lambda>ss. Inr (s # ss)))"

fun create_kv_cache_group_specs :: "layer_specs \<Rightarrow> string list list \<Rightarrow> KVCacheGroupSpec list result" where
  "create_kv_cache_group_specs specs [] = Inr []"
| "create_kv_cache_group_specs specs (names # groups) =
     rbind (lookup_layers specs names) (\<lambda>layer_specs.
       rbind (spec_merge layer_specs) (\<lambda>merged.
         rbind (create_kv_cache_group_specs specs groups) (\<lambda>gs.
           Inr (\<lparr>layer_names = names, group_spec = merged\<rparr> # gs))))"

text \<open>Only \<^verbatim>\<open>AssertionError\<close> is caught: merging two different windows raises \<^verbatim>\<open>ValueError\<close> to the caller.\<close>

definition is_kv_cache_type_uniform :: "layer_specs \<Rightarrow> bool result" where
  "is_kv_cache_type_uniform specs =
     (case spec_merge (map snd specs) of
        Inl AssertionError \<Rightarrow> Inr False
      | Inl e \<Rightarrow> Inl e
      | Inr _ \<Rightarrow> Inr True)"

fun all_page_sizes :: "(string \<Rightarrow> int) \<Rightarrow> kv_cache_spec list \<Rightarrow> int list result" where
  "all_page_sizes ds [] = Inr []"
| "all_page_sizes ds (s # ss) =
     rbind (page_size_bytes ds s) (\<lambda>n. rbind (all_page_sizes ds ss) (\<lambda>ns. Inr (n # ns)))"

definition get_uniform_page_size :: "(string \<Rightarrow> int) \<Rightarrow> layer_specs \<Rightarrow> int result" where
  "get_uniform_page_size ds specs =
     rbind (all_page_sizes ds (map snd specs)) (\<lambda>ns.
       case remdups ns of [n] \<Rightarrow> Inr n | _ \<Rightarrow> Inl AssertionError)"

definition is_kv_cache_page_size_uniform :: "(string \<Rightarrow> int) \<Rightarrow> layer_specs \<Rightarrow> bool result" where
  "is_kv_cache_page_size_uniform ds specs =
     rbind (all_page_sizes ds (map snd specs)) (\<lambda>ns. Inr (length (remdups ns) = 1))"

definition get_max_concurrency_for_kv_cache_config :: "(string \<Rightarrow> int) \<Rightarrow> vllm_config \<Rightarrow> KVCacheConfig \<Rightarrow> real result" where
  "get_max_concurrency_for_kv_cache_config ds cfg c =
     (case kv_cache_groups c of
        [] \<Rightarrow> Inl ValueError
      | g # gs \<Rightarrow>
          (let num_layer_per_group = int (Max (set (map (\<lambda>g. length (layer_names g)) (g # gs))))
           in rbind (max_memory_usage_bytes ds cfg (map group_spec (g # gs))) (\<lambda>bytes.
                rbind (page_size_bytes ds (group_spec g)) (\<lambda>page.
                  let memory_per_block = page * num_layer_per_group;
                      num_block_per_request = cdiv (num_layer_per_group * bytes) memory_per_block
                  in if memory_per_block = 0 \<or> num_block_per_request = 0 then Inl ZeroDivisionError
                     else Inr (of_int (num_blocks c) / of_int num_block_per_request)))))"

definition get_num_blocks :: "vllm_config \<Rightarrow> int \<Rightarrow> int \<Rightarrow> int \<Rightarrow> int result" where
  "get_num_blocks cfg num_layers available page_size =
     (if page_size = 0 \<or> num_layers = 0 then Inl ZeroDivisionError
      else Inr (case num_gpu_blocks_override cfg of
          Some n \<Rightarrow> n
        | None \<Rightarrow> max (available div page_size div num_layers) 0))"

definition get_kv_cache_config_uniform_type :: "(string \<Rightarrow> int) \<Rightarrow> vllm_config \<Rightarrow> layer_specs \<Rightarrow> int \<Rightarrow> KVCacheConfig result" where
  "get_kv_cache_config_uniform_type ds cfg specs available =
     rbind (get_uniform_page_size ds specs) (\<lambda>page_size.
       rbind (get_num_blocks cfg (int (length specs)) available page_size) (\<lambda>n.
         rbind (create_kv_cache_group_specs specs [map fst specs]) (\<lambda>groups.
           let c = \<lparr>num_blocks = n,
                    kv_cache_tensors = map (\<lambda>(name, _). \<lparr>tensor_size = page_size * n, shared_by = [name]\<rparr>) specs,
                    kv_cache_groups = groups\<rparr>
           in rbind (get_max_concurrency_for_kv_cache_config ds cfg c) (\<lambda>_. Inr c))))"

section \<open>Hybrid models\<close>

text \<open>\<^verbatim>\<open>same_type_layers[layer_spec].append(layer_name)\<close> on a \<^verbatim>\<open>defaultdict\<close>.\<close>

fun add_layer :: "string \<Rightarrow> kv_cache_spec \<Rightarrow> (kv_cache_spec \<times> string list) list \<Rightarrow> (kv_cache_spec \<times> string list) list" where
  "add_layer l s [] = [(s, [l])]"
| "add_layer l s ((s', ls) # rest) = (if s' = s then (s', ls @ [l]) # rest else (s', ls) # add_layer l s rest)"

definition same_type_layers :: "layer_specs \<Rightarrow> (kv_cache_spec \<times> string list) list" where
  "same_type_layers specs = foldl (\<lambda>acc (l, s). add_layer l s acc) [] specs"

text \<open>\<^verbatim>\<open>[layers[i:i + group_size] for i in range(0, len(layers), group_size)]\<close>.\<close>

definition split_layers :: "nat \<Rightarrow> 'a list \<Rightarrow> 'a list list" where
  "split_layers group_size layers =
     map (\<lambda>k. take group_size (drop (k * group_size) layers)) [0..<(length layers + group_size - 1) div group_size]"

definition pool_layers :: "string list list \<Rightarrow> nat \<Rightarrow> string list" where
  "pool_layers grouped i = concat (map (\<lambda>g. if i < length g then [g ! i] else []) grouped)"

definition get_kv_cache_config_uniform_page_size :: "(string \<Rightarrow> int) \<Rightarrow> vllm_config \<Rightarrow> layer_specs \<Rightarrow> int \<Rightarrow> KVCacheConfig result" where
  "get_kv_cache_config_uniform_page_size ds cfg specs available =
     (let types = same_type_layers specs
      in if types = [] then Inl ValueError
         else
           let group_size = Min (set (map (\<lambda>(_, ls). length ls) types));
               grouped = concat (map (\<lambda>(_, ls). split_layers group_size ls) types)
           in rbind (create_kv_cache_group_specs specs grouped) (\<lambda>groups.
                rbind (get_uniform_page_size ds specs) (\<lambda>page_size.
                  rbind (get_num_blocks cfg (int group_size) available page_size) (\<lambda>n.
                    let c = \<lparr>num_blocks = n,
                             kv_cache_tensors = map (\<lambda>i. \<lparr>tensor_size = page_size * n, shared_by = pool_layers grouped i\<rparr>) [0..<group_size],
                             kv_cache_groups = groups\<rparr>
                    in rbind (get_max_concurrency_for_kv_cache_config ds cfg c) (\<lambda>_. Inr c)))))"

definition get_kv_cache_config_attention_free :: KVCacheConfig where
  "get_kv_cache_config_attention_free = \<lparr>num_blocks = 1, kv_cache_tensors = [], kv_cache_groups = []\<rparr>"

fun to_full_attention :: "kv_cache_spec \<Rightarrow> kv_cache_spec" where
  "to_full_attention (SlidingWindowSpec a window) = FullAttentionSpec a (Some window) None"
| "to_full_attention (ChunkedLocalAttentionSpec a chunk) = FullAttentionSpec a None (Some chunk)"
| "to_full_attention s = s"

definition unify_hybrid_kv_cache_specs :: "layer_specs \<Rightarrow> layer_specs result" where
  "unify_hybrid_kv_cache_specs specs =
     rbind (is_kv_cache_type_uniform specs) (\<lambda>uniform.
       if uniform then Inr specs
       else
         let values = map snd specs;
             has_full_attention = (\<exists>s\<in>set values. case s of FullAttentionSpec _ _ _ \<Rightarrow> True | _ \<Rightarrow> False);
             has_sliding_window = (\<exists>s\<in>set values. case s of SlidingWindowSpec _ _ \<Rightarrow> True | _ \<Rightarrow> False);
             has_chunked = (\<exists>s\<in>set values. case s of ChunkedLocalAttentionSpec _ _ \<Rightarrow> True | _ \<Rightarrow> False);
             specs = (if has_full_attention \<and> (has_sliding_window \<or> has_chunked)
                      then map (\<lambda>(l, s). (l, to_full_attention s)) specs else specs)
         in rbind (is_kv_cache_type_uniform specs) (\<lambda>uniform.
              if uniform then Inr specs else Inl ValueError))"

text \<open>The configuration, and the dictionary as the call leaves it.\<close>

definition get_kv_cache_config :: "(string \<Rightarrow> int) \<Rightarrow> vllm_config \<Rightarrow> layer_specs \<Rightarrow> int \<Rightarrow> (KVCacheConfig \<times> layer_specs) result" where
  "get_kv_cache_config ds cfg specs available =
     rbind (check_enough_kv_cache_memory ds cfg specs available) (\<lambda>_.
       rbind (if disable_hybrid_kv_cache_manager cfg then unify_hybrid_kv_cache_specs specs else Inr specs) (\<lambda>specs.
         if specs = [] then Inr (get_kv_cache_config_attention_free, specs)
         else rbind (is_kv_cache_type_uniform specs) (\<lambda>uniform.
           if uniform then rbind (get_kv_cache_config_uniform_type ds cfg specs available) (\<lambda>c. Inr (c, specs))
           else rbind (is_kv_cache_page_size_uniform ds specs) (\<lambda>same_page.
             if same_page then rbind (get_kv_cache_config_uniform_page_size ds cfg specs available) (\<lambda>c. Inr (c, specs))
             else Inl NotImplementedError))))"

section \<open>Configurations of all workers\<close>

text \<open>
  The sort key of a group, the class name and \<^verbatim>\<open>astuple\<close> of its specification. Tuples compare by their
  first differing element; \<^verbatim>\<open>None\<close> and data types have no order, and booleans are integers.
\<close>

datatype sort_key = KInt int | KStr string | KNone | KDtype string | KTuple "sort_key list"

definition key_option :: "int option \<Rightarrow> sort_key" where
  "key_option x = (case x of None \<Rightarrow> KNone | Some n \<Rightarrow> KInt n)"

definition attention_key :: "attention_spec \<Rightarrow> sort_key list" where
  "attention_key a = [KInt (attn_block_size a), KInt (num_kv_heads a), KInt (head_size a), KDtype (attn_dtype a),
     KInt (if use_mla a then 1 else 0)]"

fun spec_sort_key :: "kv_cache_spec \<Rightarrow> sort_key" where
  "spec_sort_key (FullAttentionSpec a w c) =
     KTuple [KStr ''FullAttentionSpec'', KTuple (attention_key a @ [key_option w, key_option c])]"
| "spec_sort_key (ChunkedLocalAttentionSpec a c) = KTuple [KStr ''ChunkedLocalAttentionSpec'', KTuple (attention_key a @ [KInt c])]"
| "spec_sort_key (SlidingWindowSpec a w) = KTuple [KStr ''SlidingWindowSpec'', KTuple (attention_key a @ [KInt w])]"
| "spec_sort_key (MambaSpec bs shapes dtypes padded mtype num_spec) =
     KTuple [KStr ''MambaSpec'', KTuple [KInt bs, KTuple (map (\<lambda>sh. KTuple (map KInt sh)) shapes), KTuple (map KDtype dtypes),
       key_option padded, KStr mtype, KInt num_spec]]"
| "spec_sort_key (EncoderOnlyAttentionSpec a) = KTuple [KStr ''EncoderOnlyAttentionSpec'', KTuple (attention_key a)]"
| "spec_sort_key (CrossAttentionSpec a) = KTuple [KStr ''CrossAttentionSpec'', KTuple (attention_key a)]"

fun str_less :: "string \<Rightarrow> string \<Rightarrow> bool" where
  "str_less _ [] = False"
| "str_less [] (_ # _) = True"
| "str_less (c # cs) (d # ds) =
     (if c = d then str_less cs ds else (of_char c :: nat) < of_char d)"

text \<open>\<open>None\<close> is \<^verbatim>\<open>TypeError\<close>.\<close>

fun key_less :: "sort_key \<Rightarrow> sort_key \<Rightarrow> bool option" and keys_less :: "sort_key list \<Rightarrow> sort_key list \<Rightarrow> bool option" where
  "key_less (KInt m) (KInt n) = Some (m < n)"
| "key_less (KStr s) (KStr t) = Some (str_less s t)"
| "key_less (KTuple xs) (KTuple ys) = keys_less xs ys"
| "key_less _ _ = None"
| "keys_less _ [] = Some False"
| "keys_less [] (_ # _) = Some True"
| "keys_less (x # xs) (y # ys) = (if x = y then keys_less xs ys else key_less x y)"

fun insert_group :: "KVCacheGroupSpec \<Rightarrow> KVCacheGroupSpec list \<Rightarrow> KVCacheGroupSpec list" where
  "insert_group g [] = [g]"
| "insert_group g (h # hs) =
     (if key_less (spec_sort_key (group_spec g)) (spec_sort_key (group_spec h)) = Some True
      then g # h # hs else h # insert_group g hs)"

text \<open>
  \<^verbatim>\<open>list.sort\<close> with this key: stable, and an exception if two keys have no order, because a sort has to
  compare a pair of them to order the keys that agree with them up to the first difference.
\<close>

definition sort_groups :: "KVCacheGroupSpec list \<Rightarrow> KVCacheGroupSpec list result" where
  "sort_groups gs =
     (if \<exists>g\<in>set gs. \<exists>h\<in>set gs. key_less (spec_sort_key (group_spec g)) (spec_sort_key (group_spec h)) = None
      then Inl TypeError
      else Inr (foldl (\<lambda>acc g. insert_group g acc) [] gs))"

fun sort_all_groups :: "KVCacheConfig list \<Rightarrow> KVCacheConfig list result" where
  "sort_all_groups [] = Inr []"
| "sort_all_groups (c # cs) =
     rbind (sort_groups (kv_cache_groups c)) (\<lambda>gs. rbind (sort_all_groups cs) (\<lambda>cs. Inr (c\<lparr>kv_cache_groups := gs\<rparr> # cs)))"

definition unify_kv_cache_configs :: "KVCacheConfig list \<Rightarrow> KVCacheConfig list result" where
  "unify_kv_cache_configs configs =
     rbind (sort_all_groups configs) (\<lambda>configs.
       case configs of
         [] \<Rightarrow> Inl ValueError
       | c0 # rest \<Rightarrow>
           if \<not> (\<forall>c\<in>set rest. \<forall>(g, h)\<in>set (zip (kv_cache_groups c0) (kv_cache_groups c)). group_spec g = group_spec h)
           then Inl AssertionError
           else
             let min_num_blocks = Min (set (map num_blocks configs))
             in Inr (map (\<lambda>c. c\<lparr>num_blocks := min_num_blocks\<rparr>) configs))"

section \<open>Prefix caching metrics\<close>

text \<open>\<^verbatim>\<open>PrefixCachingMetrics\<close>, the same file: the hit rate over the most recent requests.\<close>

record prefix_caching_metrics =
  max_recent_requests :: int
  aggregated_requests :: int
  aggregated_query_total :: int
  aggregated_query_hit :: int
  query_queue :: "(int \<times> int \<times> int) list"

definition PrefixCachingMetrics :: "int \<Rightarrow> prefix_caching_metrics" where
  "PrefixCachingMetrics n = \<lparr>max_recent_requests = n, aggregated_requests = 0, aggregated_query_total = 0,
     aggregated_query_hit = 0, query_queue = []\<rparr>"

definition metrics_reset :: "prefix_caching_metrics \<Rightarrow> prefix_caching_metrics" where
  "metrics_reset m = m\<lparr>aggregated_requests := 0, aggregated_query_total := 0, aggregated_query_hit := 0, query_queue := []\<rparr>"

definition metrics_observe :: "bool \<Rightarrow> int \<times> int \<times> int \<Rightarrow> prefix_caching_metrics \<Rightarrow> prefix_caching_metrics" where
  "metrics_observe was_reset st m =
     (let m = (if was_reset then metrics_reset m else m);
          (requests, queries, hits) = st;
          m = m\<lparr>query_queue := query_queue m @ [st], aggregated_requests := aggregated_requests m + requests,
               aggregated_query_total := aggregated_query_total m + queries,
               aggregated_query_hit := aggregated_query_hit m + hits\<rparr>
      in if aggregated_requests m > max_recent_requests m
         then (case query_queue m of
             [] \<Rightarrow> m
           | (old_requests, old_queries, old_hits) # rest \<Rightarrow>
               m\<lparr>query_queue := rest, aggregated_requests := aggregated_requests m - old_requests,
                 aggregated_query_total := aggregated_query_total m - old_queries,
                 aggregated_query_hit := aggregated_query_hit m - old_hits\<rparr>)
         else m)"

definition hit_rate :: "prefix_caching_metrics \<Rightarrow> real" where
  "hit_rate m =
     (if aggregated_query_total m = 0 then 0 else of_int (aggregated_query_hit m) / of_int (aggregated_query_total m))"

section \<open>The binary search\<close>

text \<open>A specification whose memory use is defined and grows with the model length.\<close>

fun spec_sizes_ok :: "(string \<Rightarrow> int) \<Rightarrow> vllm_config \<Rightarrow> kv_cache_spec \<Rightarrow> bool" where
  "spec_sizes_ok ds cfg (FullAttentionSpec a _ _) = (0 < attn_block_size a \<and> 0 \<le> attention_page_size_bytes ds a)"
| "spec_sizes_ok ds cfg (ChunkedLocalAttentionSpec a _) = (0 < attn_block_size a \<and> 0 \<le> attention_page_size_bytes ds a)"
| "spec_sizes_ok ds cfg (SlidingWindowSpec a _) =
     (0 < attn_block_size a \<and> 0 \<le> attention_page_size_bytes ds a \<and> decode_context_parallel_size cfg = 1)"
| "spec_sizes_ok ds cfg (MambaSpec _ shapes dtypes pad _ _) = (\<exists>n. mamba_page_size_bytes ds shapes dtypes pad = Inr n)"
| "spec_sizes_ok ds cfg (EncoderOnlyAttentionSpec _) = True"
| "spec_sizes_ok ds cfg (CrossAttentionSpec _) = True"

text \<open>Bytes a request of length \<open>n\<close> takes in all layers.\<close>

definition needed_bytes :: "(string \<Rightarrow> int) \<Rightarrow> vllm_config \<Rightarrow> kv_cache_spec list \<Rightarrow> int \<Rightarrow> int" where
  "needed_bytes ds cfg specs n = projr (max_memory_usage_bytes ds (cfg\<lparr>max_model_len_of := n\<rparr>) specs)"

lemma layer_max_memory_mono:
  assumes "spec_sizes_ok ds cfg s" and "m \<le> n"
  shows "\<exists>a b. layer_max_memory_usage_bytes ds (cfg\<lparr>max_model_len_of := m\<rparr>) s = Inr a \<and>
    layer_max_memory_usage_bytes ds (cfg\<lparr>max_model_len_of := n\<rparr>) s = Inr b \<and> a \<le> b"
proof -
  have c: "cdiv x bs * page \<le> cdiv y bs * page" if "x \<le> y" "0 < bs" "0 \<le> page" for x y bs page
    using that by (intro mult_right_mono cdiv_mono) auto
  have c1: "(cdiv x bs + 1) * page \<le> (cdiv y bs + 1) * page" if "x \<le> y" "0 < bs" "0 \<le> page" for x y bs page
    using cdiv_mono [OF that(2,1)] that(3) by (intro mult_right_mono) auto
  have d: "cdiv m k \<le> cdiv n k" if "1 < k" for k using cdiv_mono [of k m n] that assms(2) by simp
  show ?thesis using assms
    by (cases s) (auto simp: layer_max_memory_usage_bytes_def full_max_memory_def chunked_max_memory_def
        window_max_memory_def cross_max_memory_def Let_def d intro!: c c1)
qed

lemma max_memory_mono:
  assumes "\<forall>s\<in>set specs. spec_sizes_ok ds cfg s" and "m \<le> n"
  shows "max_memory_usage_bytes ds (cfg\<lparr>max_model_len_of := m\<rparr>) specs = Inr (needed_bytes ds cfg specs m)"
    and "needed_bytes ds cfg specs m \<le> needed_bytes ds cfg specs n"
proof -
  have "\<exists>a b. max_memory_usage_bytes ds (cfg\<lparr>max_model_len_of := m\<rparr>) specs = Inr a \<and>
    max_memory_usage_bytes ds (cfg\<lparr>max_model_len_of := n\<rparr>) specs = Inr b \<and> a \<le> b"
    using assms(1)
  proof (induction specs)
    case Nil
    then show ?case by simp
  next
    case (Cons s specs)
    from layer_max_memory_mono [OF _ assms(2), of ds cfg s] Cons.prems obtain a b where
      "layer_max_memory_usage_bytes ds (cfg\<lparr>max_model_len_of := m\<rparr>) s = Inr a"
      "layer_max_memory_usage_bytes ds (cfg\<lparr>max_model_len_of := n\<rparr>) s = Inr b" "a \<le> b" by auto
    moreover from Cons obtain c d where "max_memory_usage_bytes ds (cfg\<lparr>max_model_len_of := m\<rparr>) specs = Inr c"
      "max_memory_usage_bytes ds (cfg\<lparr>max_model_len_of := n\<rparr>) specs = Inr d" "c \<le> d" by auto
    ultimately show ?case by simp
  qed
  then show "max_memory_usage_bytes ds (cfg\<lparr>max_model_len_of := m\<rparr>) specs = Inr (needed_bytes ds cfg specs m)"
    "needed_bytes ds cfg specs m \<le> needed_bytes ds cfg specs n" by (auto simp: needed_bytes_def)
qed

lemma fits_in_memory_needed:
  assumes "\<forall>s\<in>set specs. spec_sizes_ok ds cfg s"
  shows "fits_in_memory ds specs available n (cfg\<lparr>max_model_len_of := k\<rparr>) =
    Inr (needed_bytes ds cfg specs n \<le> available, cfg\<lparr>max_model_len_of := n\<rparr>)"
  using max_memory_mono(1) [OF assms order_refl, of n] by (simp add: fits_in_memory_def Let_def)

text \<open>The loop keeps: all lengths below \<open>left\<close> fit and none above \<open>right\<close> does.\<close>

lemma estimate_loop_greatest:
  assumes ok: "\<forall>s\<in>set specs. spec_sizes_ok ds cfg s"
    and "left - 1 \<le> res" and "res \<le> right" and "needed_bytes ds cfg specs res \<le> available"
    and "\<forall>n>right. n \<le> N \<longrightarrow> available < needed_bytes ds cfg specs n"
  shows "\<exists>n k. estimate_loop ds specs available left right res (cfg\<lparr>max_model_len_of := k0\<rparr>) = Inr (n, cfg\<lparr>max_model_len_of := k\<rparr>) \<and>
    left - 1 \<le> n \<and> n \<le> right \<and> needed_bytes ds cfg specs n \<le> available \<and>
    (\<forall>m>n. m \<le> N \<longrightarrow> available < needed_bytes ds cfg specs m)"
  using assms(2-5)
proof (induction "nat (right - left + 1)" arbitrary: left right res k0 rule: less_induct)
  case less
  let ?mid = "(left + right) div 2" and ?need = "needed_bytes ds cfg specs"
  show ?case
  proof (cases "left \<le> right")
    case False
    then have "right = res" using less.prems by simp
    then show ?thesis using less.prems False
      by (subst estimate_loop.simps) (auto intro!: exI [of _ k0])
  next
    case True
    then have mid: "left \<le> ?mid" "?mid \<le> right" by auto
    note step = estimate_loop.simps [of ds specs available left right res "cfg\<lparr>max_model_len_of := k0\<rparr>"]
    show ?thesis
    proof (cases "?need ?mid \<le> available")
      case fits: True
      have rm: "left - 1 \<le> n" "left - 1 \<le> ?mid" if "?mid \<le> n" for n using mid that by auto
      have "nat (right - (?mid + 1) + 1) < nat (right - left + 1)" using mid True by simp
      from less.hyps [OF this, of ?mid ?mid] less.prems fits mid obtain n k where
        "estimate_loop ds specs available (?mid + 1) right ?mid (cfg\<lparr>max_model_len_of := ?mid\<rparr>) = Inr (n, cfg\<lparr>max_model_len_of := k\<rparr>)"
        "?mid \<le> n" "n \<le> right" "?need n \<le> available" "\<forall>m>n. m \<le> N \<longrightarrow> available < ?need m" by auto
      then show ?thesis using True fits mid rm fits_in_memory_needed [OF ok]
        by (intro exI [of _ n] exI [of _ k]) (simp add: step)
    next
      case fits: False
      have "\<not> ?mid \<le> res" using max_memory_mono(2) [OF ok, of ?mid res] less.prems(3) fits by linarith
      then have le: "res \<le> ?mid - 1" by simp
      have up: "\<forall>n>?mid - 1. n \<le> N \<longrightarrow> available < ?need n"
      proof (intro allI impI)
        fix n assume "?mid - 1 < n"
        then have "?need ?mid \<le> ?need n" by (intro max_memory_mono(2) [OF ok]) simp
        then show "available < ?need n" using fits by simp
      qed
      have "nat (?mid - 1 - left + 1) < nat (right - left + 1)" using mid True by simp
      from less.hyps [OF this less.prems(1) le less.prems(3) up, of ?mid] mid obtain n k where
        "estimate_loop ds specs available left (?mid - 1) res (cfg\<lparr>max_model_len_of := ?mid\<rparr>) = Inr (n, cfg\<lparr>max_model_len_of := k\<rparr>)"
        "left - 1 \<le> n" "n \<le> ?mid - 1" "?need n \<le> available" "\<forall>m>n. m \<le> N \<longrightarrow> available < ?need m" by auto
      then show ?thesis using True fits mid fits_in_memory_needed [OF ok]
        by (intro exI [of _ n] exI [of _ k]) (simp add: step)
    qed
  qed
qed

section \<open>Layout of the tensors\<close>

lemma create_groups_names: "create_kv_cache_group_specs specs names = Inr gs \<Longrightarrow> map layer_names gs = names"
  by (induction names arbitrary: gs) auto

lemma lookup_layers_map_of: "lookup_layers specs ls = Inr ss \<Longrightarrow> map (map_of specs) ls = map Some ss"
  by (induction ls arbitrary: ss) (auto split: option.splits)

lemma full_merge_fields:
  assumes "full_attention_merge ss = Inr m"
  shows "\<exists>a w c. m = FullAttentionSpec a w c \<and> (\<forall>s\<in>set ss. \<exists>w c. s = FullAttentionSpec a w c)"
proof -
  have none: "None \<notin> set (map full_fields ss)"
    using assms unfolding full_attention_merge_def Let_def by (cases "None \<in> set (map full_fields ss)") simp_all
  have nf: "\<exists>a w c. s = FullAttentionSpec a w c" if "s \<in> set ss" for s
    using none that by (cases s) (auto simp: image_iff)
  from assms obtain a w c where m: "m = FullAttentionSpec a w c" and
    f: "\<forall>s\<in>set ss. fst (the (full_fields s)) = a"
    by (auto simp: full_attention_merge_def Let_def split_beta split: if_splits list.splits)
  have "\<exists>w c. s = FullAttentionSpec a w c" if "s \<in> set ss" for s
    using nf [OF that] f that by force
  with m show ?thesis by blast
qed

lemma merge_keeps_sizes:
  assumes "spec_merge ss = Inr m" and "s \<in> set ss"
  shows "spec_block_size s = spec_block_size m \<and> page_size_bytes ds s = page_size_bytes ds m"
proof (cases "\<exists>a w c. hd ss = FullAttentionSpec a w c")
  case True
  then have "full_attention_merge ss = Inr m" using assms by (auto simp: spec_merge_def split: list.splits)
  from full_merge_fields [OF this] assms(2) show ?thesis by auto
next
  case False
  then have "base_merge ss = Inr m" using assms by (auto simp: spec_merge_def split: list.splits kv_cache_spec.splits)
  then show ?thesis using assms(2) by (auto simp: base_merge_def split: list.splits if_splits)
qed

lemma create_groups_sizes:
  assumes "create_kv_cache_group_specs specs names = Inr gs" and "g \<in> set gs" and "l \<in> set (layer_names g)"
  shows "\<exists>s. map_of specs l = Some s \<and> spec_block_size s = spec_block_size (group_spec g) \<and>
    page_size_bytes ds s = page_size_bytes ds (group_spec g)"
  using assms
proof (induction names arbitrary: gs)
  case Nil
  then show ?case by simp
next
  case (Cons ns names)
  from Cons.prems(1) obtain ss m gs' where n: "lookup_layers specs ns = Inr ss" "spec_merge ss = Inr m"
    "create_kv_cache_group_specs specs names = Inr gs'" "gs = \<lparr>layer_names = ns, group_spec = m\<rparr> # gs'" by auto
  show ?case
  proof (cases "g \<in> set gs'")
    case True
    then show ?thesis using Cons.IH [OF n(3) _ Cons.prems(3)] by blast
  next
    case False
    then have g: "g = \<lparr>layer_names = ns, group_spec = m\<rparr>" using Cons.prems(2) n(4) by auto
    then have "map_of specs l \<in> set (map (map_of specs) ns)" using Cons.prems(3) by simp
    then have "map_of specs l \<in> set (map Some ss)" unfolding lookup_layers_map_of [OF n(1)] .
    then show ?thesis using merge_keeps_sizes [OF n(2), of _ ds] g by auto
  qed
qed

lemma add_layer_mset: "mset (concat (map snd (add_layer l s acc))) = add_mset l (mset (concat (map snd acc)))"
  by (induction l s acc rule: add_layer.induct) auto

lemma add_layer_nonempty: "\<forall>(s, ls)\<in>set acc. ls \<noteq> [] \<Longrightarrow> \<forall>(s, ls)\<in>set (add_layer l s acc). ls \<noteq> []"
  by (induction l s acc rule: add_layer.induct) auto

lemma same_type_layers_ok:
  "mset (concat (map snd (same_type_layers specs))) = mset (map fst specs)"
  "\<forall>(s, ls)\<in>set (same_type_layers specs). ls \<noteq> []"
proof -
  have "mset (concat (map snd (foldl (\<lambda>acc (l, s). add_layer l s acc) acc specs))) =
      mset (concat (map snd acc)) + mset (map fst specs)" for acc
    by (induction specs arbitrary: acc) (auto simp: add_layer_mset)
  from this [of "[]"] show "mset (concat (map snd (same_type_layers specs))) = mset (map fst specs)"
    by (simp add: same_type_layers_def)
  have "\<forall>(s, ls)\<in>set (foldl (\<lambda>acc (l, s). add_layer l s acc) acc specs). ls \<noteq> []" if "\<forall>(s, ls)\<in>set acc. ls \<noteq> []" for acc
    using that
  proof (induction specs arbitrary: acc)
    case Nil
    then show ?case by simp
  next
    case (Cons x specs)
    have "\<forall>(s, ls)\<in>set (add_layer (fst x) (snd x) acc). ls \<noteq> []" using Cons.prems by (rule add_layer_nonempty)
    from Cons.IH [OF this] show ?case by (simp add: split_beta)
  qed
  from this [of "[]"] show "\<forall>(s, ls)\<in>set (same_type_layers specs). ls \<noteq> []" by (simp add: same_type_layers_def)
qed

lemma concat_split_layers:
  assumes "0 < g"
  shows "concat (split_layers g xs) = xs"
proof -
  have "concat (map (\<lambda>k. take g (drop (k * g) xs)) [0..<n]) = take (n * g) xs" for n
  proof (induction n)
    case (Suc n)
    then show ?case using take_add [of "n * g" g xs] by (simp add: add.commute)
  qed simp
  moreover have "length xs \<le> (length xs + g - 1) div g * g"
    using dividend_less_div_times [OF assms, of "length xs + g - 1"] by linarith
  ultimately show ?thesis by (simp add: split_layers_def)
qed

lemma split_layers_le: "l \<in> set (split_layers g xs) \<Longrightarrow> length l \<le> g"
  by (auto simp: split_layers_def)

lemma column_concat: "length x \<le> g \<Longrightarrow> concat (map (\<lambda>i. if i < length x then [x ! i] else []) [0..<g]) = x"
proof -
  assume l: "length x \<le> g"
  have "concat (map (\<lambda>i. if i < length x then [x ! i] else []) [0..<n]) = take n x" for n
    by (induction n) (auto simp: take_Suc_conv_app_nth)
  with l show ?thesis by simp
qed

lemma concat_map_append_mset: "mset (concat (map (\<lambda>i. f i @ g i) xs)) = mset (concat (map f xs)) + mset (concat (map g xs))"
  by (induction xs) auto

lemma pool_layers_mset:
  "\<forall>g\<in>set grouped. length g \<le> n \<Longrightarrow> mset (concat (map (pool_layers grouped) [0..<n])) = mset (concat grouped)"
proof (induction grouped)
  case Nil
  then show ?case by (simp add: pool_layers_def)
next
  case (Cons x grouped)
  have "pool_layers (x # grouped) = (\<lambda>i. (if i < length x then [x ! i] else []) @ pool_layers grouped i)"
    by (simp add: pool_layers_def fun_eq_iff)
  with Cons show ?case by (simp add: concat_map_append_mset column_concat)
qed

lemma pool_layers_one_per_group:
  assumes "distinct (concat grouped)" and "g \<in> set grouped"
  shows "length (filter (\<lambda>l. l \<in> set g) (pool_layers grouped i)) \<le> 1"
proof -
  from split_list [OF assms(2)] obtain as bs where g: "grouped = as @ g # bs" by blast
  have sub: "set (pool_layers gs i) \<subseteq> set (concat gs)" for gs by (auto simp: pool_layers_def split: if_splits)
  have "set (concat as) \<inter> set g = {}" "set (concat bs) \<inter> set g = {}" using assms(1) unfolding g by auto
  then have e: "filter (\<lambda>l. l \<in> set g) (pool_layers as i) = []" "filter (\<lambda>l. l \<in> set g) (pool_layers bs i) = []"
    using sub [of as] sub [of bs] by (auto simp: filter_empty_conv)
  have "pool_layers grouped i = pool_layers as i @ (if i < length g then [g ! i] else []) @ pool_layers bs i"
    by (simp add: g pool_layers_def)
  then show ?thesis using e by simp
qed

lemma get_num_blocks_fits:
  assumes "get_num_blocks cfg (int n) available page = Inr b" and "num_gpu_blocks_override cfg = None" and "0 < available"
  shows "int n * (page * b) \<le> available"
proof -
  have b: "b = max (available div page div int n) 0" and n: "0 < n" "page \<noteq> 0"
    using assms by (auto simp: get_num_blocks_def split: if_splits)
  show ?thesis
  proof (cases "page > 0")
    case True
    have "int n * (page * (available div page div int n)) = page * (available div page div int n * int n)" by simp
    also have "\<dots> \<le> page * (available div page)"
      using True n by (intro mult_left_mono) (simp_all add: minus_mod_eq_div_mult [symmetric])
    also have "\<dots> \<le> available" using True by (simp add: minus_mod_eq_mult_div [symmetric])
    finally show ?thesis using assms(3) by (simp add: b max_def)
  next
    case False
    then have "available div page \<le> 0" using n(2) assms(3) by (simp add: div_nonneg_neg_le0)
    then have "available div page div int n \<le> 0" using n by (simp add: div_nonpos_pos_le0)
    then show ?thesis using assms(3) by (simp add: b)
  qed
qed

definition layout_ok :: "(string \<Rightarrow> int) \<Rightarrow> int option \<Rightarrow> layer_specs \<Rightarrow> int \<Rightarrow> KVCacheConfig \<Rightarrow> bool" where
  "layout_ok ds override specs available c \<longleftrightarrow>
     mset (concat (map layer_names (kv_cache_groups c))) = mset (map fst specs) \<and>
     mset (concat (map shared_by (kv_cache_tensors c))) = mset (map fst specs) \<and>
     (\<forall>g\<in>set (kv_cache_groups c). \<forall>t\<in>set (kv_cache_tensors c).
        length (filter (\<lambda>l. l \<in> set (layer_names g)) (shared_by t)) \<le> 1) \<and>
     (\<forall>g\<in>set (kv_cache_groups c). \<forall>l\<in>set (layer_names g). \<exists>s. map_of specs l = Some s \<and>
        spec_block_size s = spec_block_size (group_spec g) \<and> page_size_bytes ds s = page_size_bytes ds (group_spec g)) \<and>
     (\<exists>page. get_uniform_page_size ds specs = Inr page \<and> (\<forall>t\<in>set (kv_cache_tensors c). tensor_size t = page * num_blocks c)) \<and>
     (case override of Some n \<Rightarrow> num_blocks c = n | None \<Rightarrow> sum_list (map tensor_size (kv_cache_tensors c)) \<le> available)"

lemma sum_list_const_map: "(\<And>x. x \<in> set xs \<Longrightarrow> f x = k) \<Longrightarrow> sum_list (map f xs) = int (length xs) * k"
  by (induction xs) (auto simp: algebra_simps)

lemma uniform_type_layout:
  assumes "get_kv_cache_config_uniform_type ds cfg specs available = Inr c"
    and "0 < available"
  shows "layout_ok ds (num_gpu_blocks_override cfg) specs available c"
proof -
  from assms(1) obtain page n gs where p: "get_uniform_page_size ds specs = Inr page"
    "get_num_blocks cfg (int (length specs)) available page = Inr n"
    "create_kv_cache_group_specs specs [map fst specs] = Inr gs"
    "c = \<lparr>num_blocks = n, kv_cache_tensors = map (\<lambda>(name, _). \<lparr>tensor_size = page * n, shared_by = [name]\<rparr>) specs, kv_cache_groups = gs\<rparr>"
    by (auto simp: get_kv_cache_config_uniform_type_def Let_def)
  have names: "map layer_names (kv_cache_groups c) = [map fst specs]" using create_groups_names [OF p(3)] p(4) by simp
  have sb: "map shared_by (kv_cache_tensors c) = map (\<lambda>x. [fst x]) specs" by (simp add: p(4) split_beta)
  have "concat (map (\<lambda>x. [fst x]) specs) = map fst specs" by (induction specs) auto
  then have layers: "mset (concat (map shared_by (kv_cache_tensors c))) = mset (map fst specs)" unfolding sb by simp
  have "sum_list (map tensor_size (kv_cache_tensors c)) = int (length (kv_cache_tensors c)) * (page * n)"
    by (intro sum_list_const_map) (auto simp: p(4))
  then have "case num_gpu_blocks_override cfg of Some n \<Rightarrow> num_blocks c = n | None \<Rightarrow> sum_list (map tensor_size (kv_cache_tensors c)) \<le> available"
    using get_num_blocks_fits [OF p(2) _ assms(2)] p(2) by (auto simp: p(4) get_num_blocks_def split: option.split if_splits)
  moreover have "length (filter (\<lambda>l. l \<in> set (layer_names g)) (shared_by t)) \<le> 1" if "t \<in> set (kv_cache_tensors c)" for g t
    using that by (auto simp: p(4))
  ultimately show ?thesis
    unfolding layout_ok_def names using layers p(1) create_groups_sizes [OF p(3), of _ _ ds] by (simp add: p(4) split_beta)
qed

lemma uniform_page_size_layout:
  assumes "get_kv_cache_config_uniform_page_size ds cfg specs available = Inr c"
    and "0 < available" and d: "distinct (map fst specs)"
  shows "layout_ok ds (num_gpu_blocks_override cfg) specs available c"
proof -
  let ?types = "same_type_layers specs"
  let ?lens = "set (map (\<lambda>(_, ls). length ls) ?types)"
  define g where "g = Min ?lens"
  define grouped where "grouped = concat (map (\<lambda>(_, ls). split_layers g ls) ?types)"
  from assms(1) have ne: "?types \<noteq> []" by (auto simp: get_kv_cache_config_uniform_page_size_def Let_def)
  with assms(1) obtain page n gs where p: "create_kv_cache_group_specs specs grouped = Inr gs"
    "get_uniform_page_size ds specs = Inr page" "get_num_blocks cfg (int g) available page = Inr n"
    "c = \<lparr>num_blocks = n, kv_cache_tensors = map (\<lambda>i. \<lparr>tensor_size = page * n, shared_by = pool_layers grouped i\<rparr>) [0..<g], kv_cache_groups = gs\<rparr>"
    unfolding get_kv_cache_config_uniform_page_size_def Let_def g_def grouped_def by auto
  have "g \<in> ?lens" unfolding g_def using ne by (intro Min_in) auto
  then have g0: "0 < g" using same_type_layers_ok(2) [of specs] by auto
  have "concat (concat (map (\<lambda>(_, ls). split_layers g ls) ts)) = concat (map snd ts)" for ts :: "(kv_cache_spec \<times> string list) list"
    by (induction ts) (auto simp: concat_split_layers [OF g0])
  then have ms: "mset (concat grouped) = mset (map fst specs)" using same_type_layers_ok(1) unfolding grouped_def by metis
  then have dg: "distinct (concat grouped)" using d by (metis distinct_count_atmost_1 set_mset_mset)
  have le: "\<forall>x\<in>set grouped. length x \<le> g" unfolding grouped_def by (auto dest: split_layers_le)
  have names: "map layer_names (kv_cache_groups c) = grouped" using create_groups_names [OF p(1)] p(4) by simp
  have "map shared_by (kv_cache_tensors c) = map (pool_layers grouped) [0..<g]" by (simp add: p(4))
  then have layers: "mset (concat (map shared_by (kv_cache_tensors c))) = mset (map fst specs)"
    using pool_layers_mset [OF le] ms by simp
  have "sum_list (map tensor_size (kv_cache_tensors c)) = int (length (kv_cache_tensors c)) * (page * n)"
    by (intro sum_list_const_map) (auto simp: p(4))
  then have "case num_gpu_blocks_override cfg of Some n \<Rightarrow> num_blocks c = n | None \<Rightarrow> sum_list (map tensor_size (kv_cache_tensors c)) \<le> available"
    using get_num_blocks_fits [OF p(3) _ assms(2)] p(3) by (auto simp: p(4) get_num_blocks_def split: option.split if_splits)
  moreover have "length (filter (\<lambda>l. l \<in> set (layer_names x)) (shared_by t)) \<le> 1"
    if "x \<in> set (kv_cache_groups c)" and t: "t \<in> set (kv_cache_tensors c)" for x t
  proof -
    have "layer_names x \<in> set grouped" using that(1) names by (metis image_eqI list.set_map)
    moreover obtain i where "shared_by t = pool_layers grouped i" using t by (auto simp: p(4))
    ultimately show ?thesis using pool_layers_one_per_group [OF dg] by simp
  qed
  ultimately show ?thesis
    unfolding layout_ok_def names using ms layers p(2) create_groups_sizes [OF p(1), of _ _ ds] by (simp add: p(4))
qed

lemma unify_keeps_layers: "unify_hybrid_kv_cache_specs specs = Inr specs' \<Longrightarrow> map fst specs' = map fst specs"
  by (auto simp: unify_hybrid_kv_cache_specs_def Let_def split_beta comp_def split: if_splits)

lemma get_kv_cache_config_layout:
  assumes "get_kv_cache_config ds cfg specs available = Inr (c, specs')" and "specs \<noteq> []"
    and "distinct (map fst specs)"
  shows "layout_ok ds (num_gpu_blocks_override cfg) specs' available c \<and> map fst specs' = map fst specs"
proof -
  have av: "0 < available" using assms(1,2)
    by (auto simp: get_kv_cache_config_def check_enough_kv_cache_memory_def split: if_splits)
  have k: "map fst specs' = map fst specs" using assms(1) unify_keeps_layers [of specs specs']
    by (auto simp: get_kv_cache_config_def split: if_splits)
  then have "specs' \<noteq> []" and d: "distinct (map fst specs')" using assms(2,3) by auto
  then consider "get_kv_cache_config_uniform_type ds cfg specs' available = Inr c"
    | "get_kv_cache_config_uniform_page_size ds cfg specs' available = Inr c"
    using assms(1) by (auto simp: get_kv_cache_config_def split: if_splits)
  then show ?thesis using uniform_type_layout uniform_page_size_layout [OF _ _ d] av k by cases auto
qed

section \<open>Unified configurations\<close>

lemma insert_group_mset: "mset (insert_group g gs) = add_mset g (mset gs)"
  by (induction gs) auto

lemma sort_groups_mset:
  assumes "sort_groups gs = Inr gs'"
  shows "mset gs' = mset gs"
proof -
  have "mset (foldl (\<lambda>acc g. insert_group g acc) acc xs) = mset acc + mset xs" for acc xs
    by (induction xs arbitrary: acc) (auto simp: insert_group_mset)
  then show ?thesis using assms by (auto simp: sort_groups_def split: if_splits)
qed

lemma sort_all_groups_ok:
  "sort_all_groups cs = Inr cs' \<Longrightarrow>
     list_all2 (\<lambda>c c'. \<exists>gs. c' = c\<lparr>kv_cache_groups := gs\<rparr> \<and> mset gs = mset (kv_cache_groups c)) cs cs'"
  by (induction cs arbitrary: cs') (auto dest: sort_groups_mset)

text \<open>
  After unification every worker has the least number of blocks, its own groups in sorted order, and
  the specifications of the first worker as far as both lists of groups reach.
\<close>

lemma unify_kv_cache_configs_consistent:
  assumes "unify_kv_cache_configs cs = Inr cs'"
  shows "list_all2 (\<lambda>c c'. kv_cache_tensors c' = kv_cache_tensors c \<and> num_blocks c' = Min (num_blocks ` set cs) \<and>
      mset (kv_cache_groups c') = mset (kv_cache_groups c)) cs cs'"
    and "c \<in> set cs' \<Longrightarrow> k < length (kv_cache_groups c) \<Longrightarrow> k < length (kv_cache_groups (hd cs')) \<Longrightarrow>
      group_spec (kv_cache_groups c ! k) = group_spec (kv_cache_groups (hd cs') ! k)"
proof -
  from assms obtain ds where sorted: "sort_all_groups cs = Inr ds" by (auto simp: unify_kv_cache_configs_def)
  with assms obtain d0 dr where "ds = d0 # dr" by (cases ds) (auto simp: unify_kv_cache_configs_def)
  with assms sorted have ds: "sort_all_groups cs = Inr ds" "ds \<noteq> []"
    "cs' = map (\<lambda>c. c\<lparr>num_blocks := Min (set (map num_blocks ds))\<rparr>) ds"
    "\<forall>c\<in>set (tl ds). \<forall>(g, h)\<in>set (zip (kv_cache_groups (hd ds)) (kv_cache_groups c)). group_spec g = group_spec h"
    by (auto simp: unify_kv_cache_configs_def Let_def split: if_splits)
  note s = sort_all_groups_ok [OF ds(1)]
  have "map num_blocks ds = map num_blocks cs" using s by (induction rule: list_all2_induct) auto
  then have "Min (set (map num_blocks ds)) = Min (num_blocks ` set cs)" by simp
  then show "list_all2 (\<lambda>c c'. kv_cache_tensors c' = kv_cache_tensors c \<and> num_blocks c' = Min (num_blocks ` set cs) \<and>
      mset (kv_cache_groups c') = mset (kv_cache_groups c)) cs cs'"
    unfolding ds(3) list_all2_map2 using s by (auto elim!: list_all2_mono)
  assume c: "c \<in> set cs'" and k: "k < length (kv_cache_groups c)" "k < length (kv_cache_groups (hd cs'))"
  have h: "kv_cache_groups (hd cs') = kv_cache_groups (hd ds)" using ds(2,3) by (cases ds) auto
  from c obtain d where d: "d \<in> set ds" "kv_cache_groups c = kv_cache_groups d" unfolding ds(3) by auto
  show "group_spec (kv_cache_groups c ! k) = group_spec (kv_cache_groups (hd cs') ! k)"
  proof (cases "d \<in> set (tl ds)")
    case True
    have "(kv_cache_groups (hd ds) ! k, kv_cache_groups d ! k) \<in> set (zip (kv_cache_groups (hd ds)) (kv_cache_groups d))"
      using k h d(2) by (auto simp: set_zip)
    then show ?thesis using ds(4) True h d(2) by fastforce
  next
    case False
    then have "d = hd ds" using d(1) by (cases ds) auto
    then show ?thesis using h d(2) by simp
  qed
qed

text \<open>The check stops at the shorter list of groups: workers whose numbers of groups differ are accepted.\<close>

lemma unify_accepts_missing_groups:
  assumes "specs \<noteq> []" and "\<forall>s\<in>set specs. \<forall>t\<in>set specs. key_less (spec_sort_key s) (spec_sort_key t) \<noteq> None"
  shows "\<exists>cs. unify_kv_cache_configs
    [\<lparr>num_blocks = 4, kv_cache_tensors = [], kv_cache_groups = []\<rparr>,
     \<lparr>num_blocks = 5, kv_cache_tensors = [], kv_cache_groups = map (\<lambda>s. \<lparr>layer_names = [''l''], group_spec = s\<rparr>) specs\<rparr>] = Inr cs \<and>
    kv_cache_groups (hd cs) = [] \<and> kv_cache_groups (last cs) \<noteq> []"
proof -
  let ?gs = "map (\<lambda>s. \<lparr>layer_names = [''l''], group_spec = s\<rparr>) specs"
  obtain gs where gs: "sort_groups ?gs = Inr gs" using assms(2) by (auto simp: sort_groups_def)
  moreover have "gs \<noteq> []" using sort_groups_mset [OF gs] assms(1) by auto
  ultimately show ?thesis by (auto simp: unify_kv_cache_configs_def Let_def sort_groups_def [of "[]"])
qed

section \<open>Metrics\<close>

text \<open>The totals are those of the observations in the queue.\<close>

definition metrics_ok :: "prefix_caching_metrics \<Rightarrow> bool" where
  "metrics_ok m \<longleftrightarrow> aggregated_requests m = sum_list (map fst (query_queue m)) \<and>
     aggregated_query_total m = sum_list (map (fst \<circ> snd) (query_queue m)) \<and>
     aggregated_query_hit m = sum_list (map (snd \<circ> snd) (query_queue m)) \<and>
     (\<forall>(r, q, h)\<in>set (query_queue m). 0 \<le> h \<and> h \<le> q)"

lemma metrics_observe_ok:
  assumes "metrics_ok m" and "0 \<le> hits" and "hits \<le> queries"
  shows "metrics_ok (metrics_observe was_reset (requests, queries, hits) m)"
proof -
  let ?st = "(requests, queries, hits)"
  have step: "metrics_ok (metrics_observe False ?st m)" if m: "metrics_ok m" for m
  proof -
    let ?q = "query_queue m @ [?st]"
    obtain old_r old_q old_h rest where q: "?q = (old_r, old_q, old_h) # rest" by (cases ?q) auto
    have all: "\<forall>(r, q, h)\<in>set ?q. 0 \<le> h \<and> h \<le> q" using m assms(2,3) by (auto simp: metrics_ok_def)
    have "sum_list (map f (query_queue m)) + f ?st = f (old_r, old_q, old_h) + sum_list (map f rest)" for f :: "int \<times> int \<times> int \<Rightarrow> int"
      using arg_cong [OF q, of "\<lambda>q. sum_list (map f q)"] by simp
    from this [of fst] this [of "fst \<circ> snd"] this [of "snd \<circ> snd"] all m show ?thesis
      unfolding q metrics_ok_def metrics_observe_def by (auto simp: Let_def q)
  qed
  have "metrics_observe was_reset ?st m = metrics_observe False ?st (if was_reset then metrics_reset m else m)"
    by (simp add: metrics_observe_def)
  moreover have "metrics_ok (metrics_reset m)" by (simp add: metrics_reset_def metrics_ok_def)
  ultimately show ?thesis using step assms(1) by simp
qed

lemma hit_rate_range:
  assumes "metrics_ok m"
  shows "0 \<le> hit_rate m \<and> hit_rate m \<le> 1"
proof -
  have "0 \<le> sum_list (map (snd \<circ> snd) xs) \<and> sum_list (map (snd \<circ> snd) xs) \<le> sum_list (map (fst \<circ> snd) xs)"
    if "\<forall>(r, q, h)\<in>set xs. 0 \<le> h \<and> h \<le> q" for xs :: "(int \<times> int \<times> int) list"
    using that by (induction xs) auto
  from this [of "query_queue m"] have "0 \<le> aggregated_query_hit m" "aggregated_query_hit m \<le> aggregated_query_total m"
    using assms by (auto simp: metrics_ok_def)
  then show ?thesis by (auto simp: hit_rate_def divide_simps)
qed

section \<open>Properties\<close>

text \<open>
  C34: the binary search for the longest context ends and is right: it returns 0 if not even one
  token fits, and otherwise the greatest model length up to the configured one whose memory is
  available, so that exactly the lengths up to the result fit.
\<close>

theorem estimate_max_model_len_greatest:
  assumes "\<forall>(l, s)\<in>set specs. spec_sizes_ok ds cfg s" and "1 \<le> max_model_len_of cfg"
  shows "\<exists>n cfg'. estimate_max_model_len ds cfg specs available = Inr (n, cfg') \<and> 0 \<le> n \<and> n \<le> max_model_len_of cfg \<and>
    (\<forall>m. 1 \<le> m \<and> m \<le> max_model_len_of cfg \<longrightarrow>
       (\<exists>bytes. max_memory_usage_bytes ds (cfg\<lparr>max_model_len_of := m\<rparr>) (map snd specs) = Inr bytes \<and>
          (bytes \<le> available \<longleftrightarrow> m \<le> n)))"
proof -
  let ?ss = "map snd specs" and ?top = "max_model_len_of cfg"
  let ?need = "needed_bytes ds cfg ?ss"
  have ok: "\<forall>s\<in>set ?ss. spec_sizes_ok ds cfg s" using assms(1) by auto
  have first: "fits_in_memory ds ?ss available 1 cfg = Inr (?need 1 \<le> available, cfg\<lparr>max_model_len_of := 1\<rparr>)"
    using fits_in_memory_needed [OF ok, of available 1 "?top"] by simp
  have "\<exists>n cfg'. estimate_max_model_len ds cfg specs available = Inr (n, cfg') \<and> 0 \<le> n \<and> n \<le> ?top \<and>
    (\<forall>m. 1 \<le> m \<and> m \<le> ?top \<longrightarrow> (?need m \<le> available \<longleftrightarrow> m \<le> n))"
  proof (cases "?need 1 \<le> available")
    case False
    have "\<not> ?need m \<le> available" if "1 \<le> m" for m using max_memory_mono(2) [OF ok that] False by linarith
    then show ?thesis using False first assms(2) by (auto simp: estimate_max_model_len_def Let_def)
  next
    case True
    from estimate_loop_greatest [OF ok, of 1 1 ?top available ?top 1] True assms(2) obtain n k where
      n: "estimate_loop ds ?ss available 1 ?top 1 (cfg\<lparr>max_model_len_of := 1\<rparr>) = Inr (n, cfg\<lparr>max_model_len_of := k\<rparr>)"
        "0 \<le> n" "n \<le> ?top" "?need n \<le> available" "\<forall>m>n. m \<le> ?top \<longrightarrow> available < ?need m" by auto
    have "?need m \<le> available \<longleftrightarrow> m \<le> n" if "m \<le> ?top" for m
      using max_memory_mono(2) [OF ok, of m n] n(4,5) that by (meson leI not_le order_trans)
    then show ?thesis using n True first by (auto simp: estimate_max_model_len_def Let_def)
  qed
  then show ?thesis using max_memory_mono(1) [OF ok order_refl] by auto
qed

definition example_layers :: layer_specs where
  "example_layers =
     (let a = \<lparr>attn_block_size = 2, num_kv_heads = 1, head_size = 8, attn_dtype = ''half'', use_mla = False\<rparr>
      in [(''full.0'', FullAttentionSpec a None None), (''sw.0'', SlidingWindowSpec a 4), (''sw.1'', SlidingWindowSpec a 4)])"

definition example_vllm_config :: "bool \<Rightarrow> vllm_config" where
  "example_vllm_config no_hybrid = \<lparr>max_model_len_of = 8, decode_context_parallel_size = 1, max_num_batched_tokens = 4,
     max_encoder_len = 0, disable_hybrid_kv_cache_manager = no_hybrid, num_gpu_blocks_override = None\<rparr>"

theorem estimate_max_model_len_greatest_witness:
  "\<exists>n cfg'. estimate_max_model_len (\<lambda>_. 2) (example_vllm_config False) example_layers 700 = Inr (n, cfg') \<and> n \<le> 8 \<and>
     (\<exists>bytes. max_memory_usage_bytes (\<lambda>_. 2) (example_vllm_config False) (map snd example_layers) = Inr bytes \<and> (bytes \<le> 700 \<longleftrightarrow> 8 \<le> n))"
proof -
  have "\<forall>(l, s)\<in>set example_layers. spec_sizes_ok (\<lambda>_. 2) (example_vllm_config False) s" "1 \<le> max_model_len_of (example_vllm_config False)"
    by (auto simp: example_layers_def example_vllm_config_def Let_def attention_page_size_bytes_def)
  from estimate_max_model_len_greatest [OF this, of 700] obtain n cfg' where
    n: "estimate_max_model_len (\<lambda>_. 2) (example_vllm_config False) example_layers 700 = Inr (n, cfg')" "n \<le> max_model_len_of (example_vllm_config False)"
    "\<forall>m. 1 \<le> m \<and> m \<le> max_model_len_of (example_vllm_config False) \<longrightarrow>
       (\<exists>bytes. max_memory_usage_bytes (\<lambda>_. 2) ((example_vllm_config False)\<lparr>max_model_len_of := m\<rparr>) (map snd example_layers) = Inr bytes \<and> (bytes \<le> 700 \<longleftrightarrow> m \<le> n))"
    by blast
  from n(3) [rule_format, of 8] n(1,2) show ?thesis by (auto simp: example_vllm_config_def)
qed

text \<open>
  C35: the layout of the KV cache. When a configuration is found, every layer is in exactly one
  group and in exactly one tensor, no tensor is shared by two layers of a group, so that layers
  sharing memory have different block tables; the layers of a group have the block size and the
  page size of its specification; every tensor holds one page per block, and together they fit in
  the memory, unless the number of blocks is set by \<^verbatim>\<open>num_gpu_blocks_override\<close>: then it is that number, whatever
  memory there is.
\<close>

theorem kv_cache_config_layout:
  assumes "get_kv_cache_config ds cfg specs available = Inr (c, specs')" and "specs \<noteq> []"
    and "distinct (map fst specs)"
  shows "map fst specs' = map fst specs \<and>
     mset (concat (map layer_names (kv_cache_groups c))) = mset (map fst specs) \<and>
     mset (concat (map shared_by (kv_cache_tensors c))) = mset (map fst specs) \<and>
     (\<forall>g\<in>set (kv_cache_groups c). \<forall>t\<in>set (kv_cache_tensors c).
        length (filter (\<lambda>l. l \<in> set (layer_names g)) (shared_by t)) \<le> 1) \<and>
     (\<forall>g\<in>set (kv_cache_groups c). \<forall>l\<in>set (layer_names g). \<exists>s. map_of specs' l = Some s \<and>
        spec_block_size s = spec_block_size (group_spec g) \<and> page_size_bytes ds s = page_size_bytes ds (group_spec g)) \<and>
     (\<exists>page. get_uniform_page_size ds specs' = Inr page \<and> (\<forall>t\<in>set (kv_cache_tensors c). tensor_size t = page * num_blocks c)) \<and>
     (case num_gpu_blocks_override cfg of
        Some n \<Rightarrow> num_blocks c = n
      | None \<Rightarrow> sum_list (map tensor_size (kv_cache_tensors c)) \<le> available)"
proof -
  have k: "map fst specs' = map fst specs" and l: "layout_ok ds (num_gpu_blocks_override cfg) specs' available c" using get_kv_cache_config_layout [OF assms] by simp_all
  then show ?thesis unfolding layout_ok_def k by blast
qed

lemma example_kv_cache_config:
  "get_kv_cache_config (\<lambda>_. 2) (example_vllm_config False) example_layers 1000 =
     Inr (\<lparr>num_blocks = 15, kv_cache_tensors = [\<lparr>tensor_size = 960, shared_by = [''full.0'', ''sw.0'', ''sw.1'']\<rparr>],
        kv_cache_groups = map (\<lambda>(l, s). \<lparr>layer_names = [l], group_spec = s\<rparr>) example_layers\<rparr>, example_layers)"
  by code_simp

theorem kv_cache_config_layout_witness:
  "\<exists>c. get_kv_cache_config (\<lambda>_. 2) (example_vllm_config False) example_layers 1000 = Inr (c, example_layers) \<and>
     mset (concat (map shared_by (kv_cache_tensors c))) = {#''full.0'', ''sw.0'', ''sw.1''#} \<and>
     sum_list (map tensor_size (kv_cache_tensors c)) \<le> 1000"
proof -
  have "example_layers \<noteq> []" "distinct (map fst example_layers)" "num_gpu_blocks_override (example_vllm_config False) = None"
    "mset (map fst example_layers) = {#''full.0'', ''sw.0'', ''sw.1''#}"
    by (simp_all add: example_layers_def example_vllm_config_def Let_def)
  with kv_cache_config_layout [OF example_kv_cache_config this(1,2)] example_kv_cache_config show ?thesis by fastforce
qed

end
