(* ===== verification/Capacity.thy ===== *)
theory Capacity
  imports KV_Manager KV_Config
begin

text \<open>
  The configuration of \<^verbatim>\<open>get_kv_cache_config\<close> and the manager built from it: whether the memory check
  at start-up leaves enough blocks for the longest request the engine accepts.
\<close>

lemma le_div_iff_mult_le: "0 < b \<Longrightarrow> j \<le> a div b \<longleftrightarrow> j * b \<le> a" for a b j :: int
proof
  assume b: "0 < b" and "j \<le> a div b"
  then have "j * b \<le> a div b * b" by (intro mult_right_mono) auto
  also have "\<dots> \<le> a" using b by (simp add: minus_mod_eq_div_mult [symmetric])
  finally show "j * b \<le> a" .
next
  assume b: "0 < b" and "j * b \<le> a"
  then have "j * b div b \<le> a div b" by (intro zdiv_mono1) auto
  then show "j \<le> a div b" using b by simp
qed

section \<open>A manager with one group of full attention\<close>

lemma full_attention_manager:
  assumes "kv_cache_groups c = [g]" and "group_spec g = FullAttentionSpec a w ch" and "0 < attn_block_size a" and "0 < num_blocks c"
  shows "\<exists>k m. KVCacheManager use_int c mml True eagle lg ev 1 = Inr k \<and> km_reach k \<and> km_managers k = [m] \<and>
     mgr_spec m = FullAttentionSpec a w ch \<and> mgr_block_size m = attn_block_size a \<and> num_cached_block m = Map.empty \<and>
     (\<forall>rid. req_to_blocks m rid = []) \<and> km_enable_caching k \<and> km_max_model_len k = mml \<and>
     get_num_free_blocks (km_pool k) = num_blocks c - 1"
proof -
  have ok: "config_ok c True eagle 1" using assms by (simp add: config_ok_def spec_ok_def)
  from BlockPool_inv [OF assms(4), of True ev use_int] obtain p where
    p: "BlockPool (num_blocks c) True ev use_int = Inr p" "pool_inv p (map Blk [1..<nat (num_blocks c)])" by blast
  have "get_num_free_blocks p = num_blocks c - 1" using reach_parts(4) [OF p(2)] assms(4) by simp
  then have "\<exists>k m. KVCacheManager use_int c mml True eagle lg ev 1 = Inr k \<and> km_managers k = [m] \<and>
     mgr_spec m = FullAttentionSpec a w ch \<and> mgr_block_size m = attn_block_size a \<and> num_cached_block m = Map.empty \<and>
     (\<forall>rid. req_to_blocks m rid = []) \<and> km_enable_caching k \<and> km_max_model_len k = mml \<and>
     get_num_free_blocks (km_pool k) = num_blocks c - 1"
    using p(1) assms by (simp add: KVCacheManager_def get_kv_cache_coordinator_def KVCacheCoordinator_def
        get_manager_for_kv_cache_spec_def Let_def scaled_block_size_def)
  with kr_init [OF _ ok] show ?thesis by blast
qed

text \<open>With nothing cached for it, a request gets slots exactly when its blocks are free.\<close>

lemma fresh_allocation_decision:
  assumes k: "km_reach k" and m: "km_managers k = [m]" "mgr_spec m = FullAttentionSpec a w ch" "mgr_block_size m = B" "0 < B"
    and r: "num_cached_block m (request_id r) = None" "req_to_blocks m (request_id r) = []" "num_computed_tokens r = 0"
      "lora_request r = None" "num_tokens r \<le> km_max_model_len k" "int (length (block_hashes r)) = num_tokens r div B"
    and ca: "km_enable_caching k" and n: "0 < n" "n \<le> num_tokens r"
  shows "\<exists>res k'. allocate_slots r n 0 (Some [[]]) 0 False 0 k = Inr (res, k') \<and> km_reach k' \<and>
    (res = None \<longleftrightarrow> get_num_free_blocks (km_pool k) < cdiv n B)"
proof -
  let ?c = "km_coordinator k"
  have h: "hit_ok (km_pool k) []" by (simp add: hit_ok_def table_ok_def)
  have al: "alloc_ready r n 0 (Some [[]]) 0 False 0 k"
    using fresh_alloc_ready(1) [OF m r h _ ca n(1)] n(2) by simp
  have "\<not> mixed_needs r n 0 (Some [[]]) 0 0 k" by (rule one_group_not_mixed) (simp add: m(1))
  with allocate_slots_ok [OF km_reach_inv [OF k] al] obtain res k' where
    e: "allocate_slots r n 0 (Some [[]]) 0 False 0 k = Inr (res, k')" by blast
  have skip: "remove_skipped_blocks (request_id r) 0 ?c = Inr ?c"
    using m(1,2) by (simp add: remove_skipped_blocks_def on_managers_def quiet_def mgr_remove_skipped_blocks_def)
  have need: "get_num_blocks_to_allocate (request_id r) n [[]] 0 ?c = Inr (cdiv n B)"
    using m r(2) by (simp add: get_num_blocks_to_allocate_def mgr_num_blocks_to_allocate_def slot_tokens_def py_nth_def)
  have mn: "min n (km_max_model_len k) = n" using n(2) r(5) by simp
  have "res = None \<longleftrightarrow> get_num_free_blocks (km_pool k) < cdiv n B"
    using e n(1) r(3) skip need mn by (auto simp: allocate_slots_def Let_def split: if_splits)
  then show ?thesis using e kr_alloc [OF k al e] by blast
qed

section \<open>The configuration of a model with full attention\<close>

lemma full_attention_config:
  assumes c: "get_kv_cache_config ds cfg specs available = Inr (c, specs')" and ne: "specs \<noteq> []"
    and full: "\<forall>(l, s)\<in>set specs. s = FullAttentionSpec a None None" and ov: "num_gpu_blocks_override cfg = None"
  shows "kv_cache_groups c = [\<lparr>layer_names = map fst specs, group_spec = FullAttentionSpec a None None\<rparr>] \<and>
    num_blocks c = max (available div attention_page_size_bytes ds a div int (length specs)) 0"
proof -
  let ?f = "FullAttentionSpec a None None"
  have vs: "map snd specs = replicate (length specs) ?f" using full by (induction specs) auto
  have mr: "spec_merge (replicate n ?f) = Inr ?f" if "0 < n" for n
  proof -
    obtain j where n: "n = Suc j" using \<open>0 < n\<close> by (cases n) auto
    have "full_attention_merge (replicate n ?f) = Inr ?f"
      by (simp add: full_attention_merge_def Let_def n somes_def merge_window_sizes_def)
    then show ?thesis by (simp add: spec_merge_def n)
  qed
  have u: "is_kv_cache_type_uniform specs = Inr True" using mr [of "length specs"] ne by (simp add: is_kv_cache_type_uniform_def vs)
  have s': "specs' = specs" using c u by (auto simp: get_kv_cache_config_def unify_hybrid_kv_cache_specs_def split: if_splits)
  have t: "get_kv_cache_config_uniform_type ds cfg specs available = Inr c"
    using c u ne s' by (auto simp: get_kv_cache_config_def unify_hybrid_kv_cache_specs_def split: if_splits)
  have "all_page_sizes ds (replicate n ?f) = Inr (replicate n (attention_page_size_bytes ds a))" for n by (induction n) auto
  moreover have "remdups (replicate n x) = [x]" if "0 < n" for n and x :: int using that by (induction n) auto
  ultimately have pg: "get_uniform_page_size ds specs = Inr (attention_page_size_bytes ds a)"
    using ne by (simp add: get_uniform_page_size_def vs)
  from t pg obtain gs where "create_kv_cache_group_specs specs [map fst specs] = Inr gs" "kv_cache_groups c = gs"
    "get_num_blocks cfg (int (length specs)) available (attention_page_size_bytes ds a) = Inr (num_blocks c)"
    by (auto simp: get_kv_cache_config_uniform_type_def Let_def)
  moreover from this obtain ss where ss: "lookup_layers specs (map fst specs) = Inr ss" and
    gs: "\<exists>m. spec_merge ss = Inr m \<and> gs = [\<lparr>layer_names = map fst specs, group_spec = m\<rparr>]" by auto
  moreover have "ss = replicate (length specs) ?f"
  proof -
    have "map_of specs (fst x) = Some ?f" if x: "x \<in> set specs" for x
    proof -
      obtain s where "map_of specs (fst x) = Some s"
        using x weak_map_of_SomeI [of "fst x" "snd x" specs] by auto
      moreover from map_of_SomeD [OF this] full have "s = ?f" by auto
      ultimately show ?thesis by simp
    qed
    then have "map (map_of specs) (map fst specs) = replicate (length specs) (Some ?f)" by (simp add: list_eq_iff_nth_eq)
    then show ?thesis using lookup_layers_map_of [OF ss] by (metis (no_types, lifting) length_map length_replicate list.inj_map_strong map_replicate option.inject)
  qed
  ultimately show ?thesis using mr [of "length specs"] ne ov by (auto simp: get_num_blocks_def split: if_splits)
qed

section \<open>Property\<close>

text \<open>
  C33: the memory check is short by one block. A model with full attention in every layer starts when
  its memory holds the blocks of one request of the greatest length. The pool keeps one block back
  as the null block, so the empty cache grants slots to such a request only if the memory holds one
  block more; in between, the engine starts and can never run the request.
\<close>

theorem longest_request_needs_spare_block:
  assumes "get_kv_cache_config ds cfg specs available = Inr (c, specs')" and "specs \<noteq> []"
    and "\<forall>(l, s)\<in>set specs. s = FullAttentionSpec a None None" and "num_gpu_blocks_override cfg = None"
    and "decode_context_parallel_size cfg = 1" and "0 < attn_block_size a" and "0 < attention_page_size_bytes ds a"
    and "num_tokens r = max_model_len_of cfg" and "0 < num_tokens r" and "num_computed_tokens r = 0" and "lora_request r = None"
    and "int (length (block_hashes r)) = num_tokens r div attn_block_size a"
  shows "int (length specs) * (cdiv (num_tokens r) (attn_block_size a) * attention_page_size_bytes ds a) \<le> available \<and>
    (\<exists>k res k'. KVCacheManager use_int c (max_model_len_of cfg) True eagle lg ev 1 = Inr k \<and>
       allocate_slots r (num_tokens r) 0 (Some [[]]) 0 False 0 k = Inr (res, k') \<and>
       (res \<noteq> None \<longleftrightarrow>
          int (length specs) * ((cdiv (num_tokens r) (attn_block_size a) + 1) * attention_page_size_bytes ds a) \<le> available))"
proof -
  let ?N = "num_tokens r" and ?B = "attn_block_size a" and ?page = "attention_page_size_bytes ds a" and ?L = "int (length specs)"
  have L: "0 < ?L" using assms(2) by simp
  from full_attention_config [OF assms(1-4)] have g: "kv_cache_groups c = [\<lparr>layer_names = map fst specs, group_spec = FullAttentionSpec a None None\<rparr>]"
    and nb: "num_blocks c = max (available div ?page div ?L) 0" by simp_all
  have q: "j \<le> available div ?page div ?L \<longleftrightarrow> ?L * (j * ?page) \<le> available" for j
    using L assms(7) by (simp add: le_div_iff_mult_le ac_simps)
  have "max_memory_usage_bytes ds cfg (replicate n (FullAttentionSpec a None None)) = Inr (int n * (cdiv ?N ?B * ?page))" for n
    using assms(5,8) by (induction n) (simp_all add: layer_max_memory_usage_bytes_def full_max_memory_def Let_def algebra_simps)
  moreover have "map snd specs = replicate (length specs) (FullAttentionSpec a None None)" using assms(3) by (induction specs) auto
  ultimately have need: "max_memory_usage_bytes ds cfg (map snd specs) = Inr (?L * (cdiv ?N ?B * ?page))" by simp
  have enough: "?L * (cdiv ?N ?B * ?page) \<le> available"
    using assms(1,2) need by (auto simp: get_kv_cache_config_def check_enough_kv_cache_memory_def split: if_splits)
  have "0 < cdiv ?N ?B" using assms(6,9) cdiv_lower [of ?B ?N] by (smt (verit) mult_nonneg_nonpos2 zero_less_mult_iff)
  moreover have "cdiv ?N ?B \<le> num_blocks c" using enough q [of "cdiv ?N ?B"] nb by simp
  ultimately have n0: "0 < num_blocks c" by simp
  from full_attention_manager [OF g _ assms(6) n0, of None None use_int "max_model_len_of cfg" eagle lg ev] obtain k m where
    k: "KVCacheManager use_int c (max_model_len_of cfg) True eagle lg ev 1 = Inr k" "km_reach k" "km_managers k = [m]"
      "mgr_spec m = FullAttentionSpec a None None" "mgr_block_size m = ?B" "num_cached_block m = Map.empty"
      "\<forall>rid. req_to_blocks m rid = []" "km_enable_caching k" "km_max_model_len k = max_model_len_of cfg"
      "get_num_free_blocks (km_pool k) = num_blocks c - 1" by auto
  from fresh_allocation_decision [OF k(2-5) assms(6) _ _ assms(10,11) _ assms(12) k(8) assms(9) order_refl] k(6,7,9) assms(8)
  obtain res k' where r: "allocate_slots r ?N 0 (Some [[]]) 0 False 0 k = Inr (res, k')"
    "res = None \<longleftrightarrow> num_blocks c - 1 < cdiv ?N ?B" by (auto simp: k(10))
  have "res \<noteq> None \<longleftrightarrow> ?L * ((cdiv ?N ?B + 1) * ?page) \<le> available"
    using r(2) nb n0 q [of "cdiv ?N ?B + 1"] by auto
  with k(1) r(1) enough show ?thesis by blast
qed

theorem longest_request_needs_spare_block_witness:
  "\<exists>c k k'. get_kv_cache_config (\<lambda>_. 2) (example_vllm_config False)
       [(''l'', FullAttentionSpec example_attention None None)] 256 = Inr (c, [(''l'', FullAttentionSpec example_attention None None)]) \<and>
     KVCacheManager False c 8 True False False False 1 = Inr k \<and>
     allocate_slots ((text_request ''r'' [1, 2, 3, 4, 5, 6, 7, 8])\<lparr>block_hashes := [[1], [2], [3], [4]]\<rparr>) 8 0 (Some [[]]) 0 False 0 k = Inr (None, k')"
proof -
  let ?specs = "[(''l'', FullAttentionSpec example_attention None None)]"
  let ?r = "(text_request ''r'' [1, 2, 3, 4, 5, 6, 7, 8])\<lparr>block_hashes := [[1], [2], [3], [4]]\<rparr>"
  have c: "\<exists>c. get_kv_cache_config (\<lambda>_. 2) (example_vllm_config False) ?specs 256 = Inr (c, ?specs)"
    by (intro exI) code_simp
  then obtain c where c: "get_kv_cache_config (\<lambda>_. 2) (example_vllm_config False) ?specs 256 = Inr (c, ?specs)" by blast
  have f: "num_tokens ?r = 8" "cdiv 8 2 = 4" "attn_block_size example_attention = 2" "attention_page_size_bytes (\<lambda>_. 2) example_attention = 64"
    "max_model_len_of (example_vllm_config False) = 8" by code_simp+
  from longest_request_needs_spare_block [OF c, of example_attention ?r False False False False] f
  show ?thesis using c by (auto simp: example_vllm_config_def text_request_def)
qed

end
