(* ===== verification/Heapq.thy ===== *)
theory Heapq
  imports Mars_Prelude
begin

text \<open>
  The binary heap of Python's standard library, as the request queues use it: \<^verbatim>\<open>heappush\<close>,
  \<^verbatim>\<open>heappop\<close> and \<^verbatim>\<open>heapify\<close> on a list, with the sift loops of the library. Comparing two entries
  may raise (a tuple whose last component is an object without an order), so the comparison
  returns a result. The theory shows that on entries whose comparison is a linear order of keys
  the heap operations keep the heap property and the multiset of entries, and that the front
  entry is a minimum.
\<close>

type_synonym 'a cmp = "'a \<Rightarrow> 'a \<Rightarrow> bool result"

definition parent_pos :: "nat \<Rightarrow> nat" where
  "parent_pos i = (i - 1) div 2"

lemma parent_pos_less: "0 < i \<Longrightarrow> parent_pos i < i"
  by (simp add: parent_pos_def)

function siftdown :: "'a cmp \<Rightarrow> 'a list \<Rightarrow> 'a \<Rightarrow> nat \<Rightarrow> nat \<Rightarrow> 'a list result" where
  "siftdown lt h x start pos =
     (if pos > start then
        rbind (lt x (h ! parent_pos pos)) (\<lambda>less.
          if less then siftdown lt (h[pos := h ! parent_pos pos]) x start (parent_pos pos)
          else Inr (h[pos := x]))
      else Inr (h[pos := x]))"
  by pat_completeness auto
termination
  by (relation "measure (\<lambda>(_, _, _, _, pos). pos)") (auto simp: parent_pos_less)

declare siftdown.simps [simp del]

definition min_child :: "'a cmp \<Rightarrow> 'a list \<Rightarrow> nat \<Rightarrow> nat result" where
  "min_child lt h c =
     (if c + 1 < length h
      then rbind (lt (h ! c) (h ! (c + 1))) (\<lambda>less. Inr (if \<not> less then c + 1 else c))
      else Inr c)"

lemma min_child_cases: "min_child lt h c = Inr d \<Longrightarrow> c < length h \<Longrightarrow> (d = c \<or> d = c + 1) \<and> d < length h"
  by (auto simp: min_child_def split: if_splits)

function siftup_loop :: "'a cmp \<Rightarrow> 'a list \<Rightarrow> nat \<Rightarrow> ('a list \<times> nat) result" where
  "siftup_loop lt h pos =
     (if 2 * pos + 1 < length h then
        rbind (min_child lt h (2 * pos + 1)) (\<lambda>c. siftup_loop lt (h[pos := h ! c]) c)
      else Inr (h, pos))"
  by pat_completeness auto
termination
  by (relation "measure (\<lambda>(_, h, pos). length h - pos)") (auto dest!: min_child_cases)

declare siftup_loop.simps [simp del]

definition siftup :: "'a cmp \<Rightarrow> 'a list \<Rightarrow> nat \<Rightarrow> 'a list result" where
  "siftup lt h pos = rbind (siftup_loop lt h pos) (\<lambda>(h', p). siftdown lt h' (h ! pos) pos p)"

definition heappush :: "'a cmp \<Rightarrow> 'a list \<Rightarrow> 'a \<Rightarrow> 'a list result" where
  "heappush lt h x = siftdown lt (h @ [x]) x 0 (length h)"

definition heappop :: "'a cmp \<Rightarrow> 'a list \<Rightarrow> ('a \<times> 'a list) result" where
  "heappop lt h =
     (if h = [] then Inl IndexError
      else let lastelt = last h; h' = butlast h
           in if h' = [] then Inr (lastelt, h')
              else rbind (siftup lt (h'[0 := lastelt]) 0) (\<lambda>h''. Inr (hd h', h'')))"

definition heapify :: "'a cmp \<Rightarrow> 'a list \<Rightarrow> 'a list result" where
  "heapify lt h = rfold (\<lambda>i h. siftup lt h i) (rev [0..<length h div 2]) h"

section \<open>The heap property\<close>

text \<open>Edges below position \<open>k\<close> are in order; \<open>e\<close> may be exempt from its parent edge.\<close>

definition edges_ok :: "('a \<Rightarrow> 'k::linorder) \<Rightarrow> nat \<Rightarrow> (nat \<Rightarrow> bool) \<Rightarrow> 'a list \<Rightarrow> bool" where
  "edges_ok key k ex h \<longleftrightarrow>
     (\<forall>i. 0 < i \<and> i < length h \<and> k \<le> parent_pos i \<and> \<not> ex i \<longrightarrow> key (h ! parent_pos i) \<le> key (h ! i))"

definition is_heap :: "('a \<Rightarrow> 'k::linorder) \<Rightarrow> 'a list \<Rightarrow> bool" where
  "is_heap key h \<longleftrightarrow> edges_ok key 0 (\<lambda>_. False) h"

definition orders :: "'a cmp \<Rightarrow> ('a \<Rightarrow> 'k::linorder) \<Rightarrow> 'a set \<Rightarrow> bool" where
  "orders lt key S \<longleftrightarrow> (\<forall>x\<in>S. \<forall>y\<in>S. lt x y = Inr (key x < key y))"

lemma ordersD: "orders lt key S \<Longrightarrow> x \<in> S \<Longrightarrow> y \<in> S \<Longrightarrow> lt x y = Inr (key x < key y)"
  by (simp add: orders_def)

lemma orders_mono: "orders lt key S \<Longrightarrow> T \<subseteq> S \<Longrightarrow> orders lt key T"
  by (auto simp: orders_def)

lemma heap_front_min:
  assumes "is_heap key h" and "i < length h"
  shows "key (h ! 0) \<le> key (h ! i)"
  using assms(2)
proof (induction i rule: less_induct)
  case (less i)
  show ?case
  proof (cases "i = 0")
    case False
    then have "key (h ! 0) \<le> key (h ! parent_pos i)" using less parent_pos_less [of i] by force
    also have "\<dots> \<le> key (h ! i)" using assms(1) False less.prems by (simp add: is_heap_def edges_ok_def)
    finally show ?thesis .
  qed simp
qed

text \<open>Positions below \<open>k\<close> in the tree.\<close>

function below :: "nat \<Rightarrow> nat \<Rightarrow> bool" where
  "below k p = (if p \<le> k then p = k else below k (parent_pos p))"
  by pat_completeness auto
termination
  by (relation "measure snd") (auto simp: parent_pos_less)

declare below.simps [simp del]

lemma below_refl [simp]: "below k k" by (simp add: below.simps)

lemma below_ge: "below k p \<Longrightarrow> k \<le> p"
  by (subst (asm) below.simps) (auto split: if_splits)

lemma below_parent: "below k p \<Longrightarrow> k < p \<Longrightarrow> below k (parent_pos p) \<and> k \<le> parent_pos p"
  using below_ge [of k "parent_pos p"] by (subst (asm) below.simps) auto

lemma below_zero: "below 0 p"
  by (induction p rule: less_induct) (subst below.simps, auto simp: parent_pos_less)

lemma child_below:
  assumes "below k p" and "c = 2 * p + 1 \<or> c = 2 * p + 2"
  shows "below k c" "parent_pos c = p"
proof -
  show p: "parent_pos c = p" using assms(2) by (auto simp: parent_pos_def)
  have "k < c" using assms below_ge [OF assms(1)] by auto
  then show "below k c" using assms(1) p by (subst below.simps) simp
qed

lemma mset_swap_update:
  assumes "i < length h" "j < length h" "i \<noteq> j"
  shows "mset ((h[i := h ! j])[j := x]) = mset (h[i := x])"
proof -
  have eq: "(h[i := h ! j])[j := x] = (h[i := x])[i := (h[i := x]) ! j, j := (h[i := x]) ! i]"
    using assms by (simp add: list_update_swap)
  show ?thesis unfolding eq by (rule mset_swap) (use assms in simp_all)
qed

section \<open>Sifting\<close>

text \<open>
  The hole at \<open>pos\<close> is about to receive \<open>x\<close>: every other edge is in order, and the children of the
  hole are not below its parent.
\<close>

definition hole_ok :: "('a \<Rightarrow> 'k::linorder) \<Rightarrow> nat \<Rightarrow> 'a list \<Rightarrow> 'a \<Rightarrow> nat \<Rightarrow> bool" where
  "hole_ok key k h x pos \<longleftrightarrow>
     pos < length h \<and> below k pos \<and> edges_ok key k (\<lambda>i. i = pos) (h[pos := x]) \<and>
     (k < pos \<longrightarrow> (\<forall>c. 0 < c \<and> c < length h \<and> parent_pos c = pos \<longrightarrow> key (h ! parent_pos pos) \<le> key (h ! c)))"

lemma siftdown_step_hole:
  assumes ok: "hole_ok key k h x pos" and k: "k < pos" and less: "key x < key (h ! parent_pos pos)"
  shows "hole_ok key k (h[pos := h ! parent_pos pos]) x (parent_pos pos)"
proof -
  let ?pp = "parent_pos pos" and ?h' = "(h[pos := h ! parent_pos pos])[parent_pos pos := x]"
  have pos: "pos < length h" "below k pos" and e: "edges_ok key k (\<lambda>i. i = pos) (h[pos := x])"
    and ch: "\<And>c. 0 < c \<Longrightarrow> c < length h \<Longrightarrow> parent_pos c = pos \<Longrightarrow> key (h ! ?pp) \<le> key (h ! c)"
    using ok k by (auto simp: hole_ok_def)
  have pp: "?pp < pos" "k \<le> ?pp" "below k ?pp"
    using k below_parent [OF pos(2) k] parent_pos_less [of pos] by auto
  have edge: "key (h ! parent_pos i) \<le> key (h ! i)"
    if "0 < i" "i < length h" "k \<le> parent_pos i" "i \<noteq> pos" "parent_pos i \<noteq> pos" for i
    using e that by (auto simp: edges_ok_def)
  have E: "key (?h' ! parent_pos i) \<le> key (?h' ! i)"
    if i: "0 < i" "i < length h" "k \<le> parent_pos i" "i \<noteq> ?pp" for i
  proof -
    consider "i = pos" | "i \<noteq> pos" "parent_pos i = pos" | "i \<noteq> pos" "parent_pos i \<noteq> pos" "parent_pos i = ?pp"
      | "i \<noteq> pos" "parent_pos i \<noteq> pos" "parent_pos i \<noteq> ?pp" by blast
    then show ?thesis
    proof cases
      case 1
      then show ?thesis using less pos(1) pp(1) by simp
    next
      case 2
      then have "key (h ! ?pp) \<le> key (h ! i)" using ch i by blast
      then show ?thesis using 2 i pos(1) pp(1) by simp
    next
      case 3
      then have "key (h ! ?pp) \<le> key (h ! i)" using edge i by metis
      then show ?thesis using 3 i less pos(1) pp(1) by simp
    next
      case 4
      then show ?thesis using edge [OF i(1-3)] i by simp
    qed
  qed
  have "key (h[pos := h ! ?pp] ! parent_pos ?pp) \<le> key (h[pos := h ! ?pp] ! c)"
    if c: "k < ?pp" "0 < c" "c < length h" "parent_pos c = ?pp" for c
  proof -
    have "k \<le> parent_pos ?pp" using below_parent [OF pp(3) c(1)] by simp
    moreover have "parent_pos ?pp < ?pp" using c(1) by (intro parent_pos_less) simp
    moreover from this have "parent_pos ?pp \<noteq> pos" using pp(1) by linarith
    ultimately have up: "key (h ! parent_pos ?pp) \<le> key (h ! ?pp)"
      using edge [of ?pp] c(1) pp(1) pos(1) by auto
    show ?thesis
    proof (cases "c = pos")
      case True
      then show ?thesis using up \<open>parent_pos ?pp < ?pp\<close> pp(1) pos(1) by simp
    next
      case False
      then have "key (h ! ?pp) \<le> key (h ! c)" using edge [of c] c pp by auto
      then show ?thesis using up False \<open>parent_pos ?pp < ?pp\<close> pp(1) by simp
    qed
  qed
  then show ?thesis using E pp pos(1) by (auto simp: hole_ok_def edges_ok_def)
qed

lemma hole_ok_filled:
  assumes ok: "hole_ok key k h x pos" and stop: "pos \<le> k \<or> \<not> key x < key (h ! parent_pos pos)"
  shows "edges_ok key k (\<lambda>_. False) (h[pos := x])"
proof -
  have pos: "pos < length h" "below k pos" and e: "edges_ok key k (\<lambda>i. i = pos) (h[pos := x])"
    using ok by (auto simp: hole_ok_def)
  have "key (h[pos := x] ! parent_pos pos) \<le> key (h[pos := x] ! pos)" if "0 < pos" "k \<le> parent_pos pos"
  proof -
    have "parent_pos pos < pos" using that(1) by (rule parent_pos_less)
    then show ?thesis using stop that pos(1) by auto
  qed
  with e show ?thesis unfolding edges_ok_def by blast
qed

lemma siftdown_correct:
  assumes "hole_ok key k h x pos" and "orders lt key (insert x (set h))"
  shows "\<exists>h'. siftdown lt h x k pos = Inr h' \<and> edges_ok key k (\<lambda>_. False) h' \<and> mset h' = mset (h[pos := x])"
  using assms
proof (induction pos arbitrary: h rule: less_induct)
  case (less pos)
  let ?pp = "parent_pos pos"
  have len: "pos < length h" using less.prems(1) by (simp add: hole_ok_def)
  show ?case
  proof (cases "pos > k")
    case False
    then show ?thesis
      using hole_ok_filled [OF less.prems(1)] by (simp add: siftdown.simps)
  next
    case True
    then have pp: "?pp < pos" by (intro parent_pos_less) simp
    then have lt: "lt x (h ! ?pp) = Inr (key x < key (h ! ?pp))"
      using ordersD [OF less.prems(2)] len by simp
    show ?thesis
    proof (cases "key x < key (h ! ?pp)")
      case False
      then show ?thesis using lt True hole_ok_filled [OF less.prems(1)] by (simp add: siftdown.simps)
    next
      case less': True
      have "set (h[pos := h ! ?pp]) \<subseteq> set h" using len pp by (auto dest!: set_update_subset_insert [THEN subsetD])
      then have "orders lt key (insert x (set (h[pos := h ! ?pp])))"
        using less.prems(2) by (auto intro: orders_mono)
      with less.IH [OF pp siftdown_step_hole [OF less.prems(1) True less']] obtain h'
        where "siftdown lt (h[pos := h ! ?pp]) x k ?pp = Inr h'" "edges_ok key k (\<lambda>_. False) h'"
          "mset h' = mset (h[pos := h ! ?pp, ?pp := x])" by blast
      then show ?thesis
        using lt less' True mset_swap_update [of pos h ?pp x] len pp
        by (simp add: siftdown.simps [of lt h x k pos])
    qed
  qed
qed

text \<open>Before the first step the hole is the root of the subtree; the loop moves it to a leaf.\<close>

definition up_ok :: "('a \<Rightarrow> 'k::linorder) \<Rightarrow> nat \<Rightarrow> 'a list \<Rightarrow> nat \<Rightarrow> bool" where
  "up_ok key k h pos \<longleftrightarrow>
     pos < length h \<and> below k pos \<and>
     (\<forall>i. 0 < i \<and> i < length h \<and> k \<le> parent_pos i \<and> i \<noteq> pos \<and> parent_pos i \<noteq> pos \<longrightarrow>
        key (h ! parent_pos i) \<le> key (h ! i)) \<and>
     (k < pos \<longrightarrow> (\<forall>c. 0 < c \<and> c < length h \<and> parent_pos c = pos \<longrightarrow> key (h ! parent_pos pos) \<le> key (h ! c)))"

lemma min_child_correct:
  assumes "orders lt key (set h)" and c: "c < length h" "c = 2 * pos + 1"
  shows "\<exists>d. min_child lt h c = Inr d \<and> d < length h \<and> (d = 2 * pos + 1 \<or> d = 2 * pos + 2) \<and>
    (\<forall>e. 0 < e \<and> e < length h \<and> parent_pos e = pos \<longrightarrow> key (h ! d) \<le> key (h ! e))"
proof -
  have ch: "e = c \<or> e = c + 1" if "0 < e" "parent_pos e = pos" for e
    using that c(2) by (auto simp: parent_pos_def)
  show ?thesis
  proof (cases "c + 1 < length h")
    case True
    then have "lt (h ! c) (h ! (c + 1)) = Inr (key (h ! c) < key (h ! (c + 1)))"
      using assms by (intro ordersD [OF assms(1)]) auto
    with True have mc: "min_child lt h c = Inr (if key (h ! c) < key (h ! (c + 1)) then c else c + 1)"
      by (simp add: min_child_def)
    have "key (h ! (if key (h ! c) < key (h ! (c + 1)) then c else c + 1)) \<le> key (h ! e)"
      if "0 < e" "parent_pos e = pos" for e
      using ch [OF that] by auto
    with mc True c show ?thesis by auto
  next
    case False
    then have "min_child lt h c = Inr c" by (simp add: min_child_def)
    moreover have "h ! c = h ! e" if "0 < e" "e < length h" "parent_pos e = pos" for e
      using ch [OF that(1,3)] that(2) False by auto
    ultimately show ?thesis using c by auto
  qed
qed

lemma siftup_step:
  assumes ok: "up_ok key k h pos" and d: "d < length h" "d = 2 * pos + 1 \<or> d = 2 * pos + 2"
    and min: "\<forall>e. 0 < e \<and> e < length h \<and> parent_pos e = pos \<longrightarrow> key (h ! d) \<le> key (h ! e)"
  shows "up_ok key k (h[pos := h ! d]) d"
proof -
  have pos: "pos < length h" "below k pos"
    and e: "\<And>i. 0 < i \<Longrightarrow> i < length h \<Longrightarrow> k \<le> parent_pos i \<Longrightarrow> i \<noteq> pos \<Longrightarrow> parent_pos i \<noteq> pos \<Longrightarrow>
        key (h ! parent_pos i) \<le> key (h ! i)"
    and up: "\<And>c. k < pos \<Longrightarrow> 0 < c \<Longrightarrow> c < length h \<Longrightarrow> parent_pos c = pos \<Longrightarrow> key (h ! parent_pos pos) \<le> key (h ! c)"
    using ok by (auto simp: up_ok_def)
  note db = child_below [OF pos(2) d(2)]
  have dpos: "pos < d" "0 < d" using d(2) by auto
  let ?h = "h[pos := h ! d]"
  have "key (?h ! parent_pos i) \<le> key (?h ! i)"
    if i: "0 < i" "i < length h" "k \<le> parent_pos i" "i \<noteq> d" "parent_pos i \<noteq> d" for i
  proof -
    consider "i = pos" | "i \<noteq> pos" "parent_pos i = pos" | "i \<noteq> pos" "parent_pos i \<noteq> pos" by blast
    then show ?thesis
    proof cases
      case 1
      have "parent_pos pos \<noteq> pos" using i(1) 1 parent_pos_less [of pos] by force
      moreover have "k < pos" using i(1,3) 1 parent_pos_less [of pos] by simp
      ultimately show ?thesis using up [of d] 1 d(1) dpos(2) db(2) pos(1) by simp
    next
      case 2
      then show ?thesis using min i pos(1) by simp
    next
      case 3
      then show ?thesis using e i by simp
    qed
  qed
  moreover have "key (?h ! parent_pos d) \<le> key (?h ! c)" if c: "0 < c" "c < length h" "parent_pos c = d" for c
  proof -
    have "c \<noteq> pos" using c parent_pos_less [of c] dpos by force
    moreover have "key (h ! d) \<le> key (h ! c)"
      using e [of c] c dpos \<open>c \<noteq> pos\<close> below_ge [OF db(1)] by simp
    ultimately show ?thesis using pos(1) by (simp add: db(2))
  qed
  ultimately show ?thesis using d(1) db(1) by (auto simp: up_ok_def)
qed

lemma siftup_loop_correct:
  assumes "up_ok key k h pos" and "orders lt key (set h)"
  shows "\<exists>h' p. siftup_loop lt h pos = Inr (h', p) \<and> up_ok key k h' p \<and> length h' \<le> 2 * p + 1 \<and>
    length h' = length h \<and> set h' \<subseteq> set h \<and> (\<forall>x. mset (h'[p := x]) = mset (h[pos := x]))"
  using assms
proof (induction "length h - pos" arbitrary: h pos rule: less_induct)
  case less
  have pos: "pos < length h" using less.prems(1) by (simp add: up_ok_def)
  show ?case
  proof (cases "2 * pos + 1 < length h")
    case False
    with less.prems show ?thesis by (subst siftup_loop.simps) auto
  next
    case True
    from min_child_correct [OF less.prems(2) True refl] obtain d
      where d: "min_child lt h (2 * pos + 1) = Inr d" "d < length h" "d = 2 * pos + 1 \<or> d = 2 * pos + 2"
        "\<forall>e. 0 < e \<and> e < length h \<and> parent_pos e = pos \<longrightarrow> key (h ! d) \<le> key (h ! e)" by blast
    let ?h = "h[pos := h ! d]"
    have sub: "set ?h \<subseteq> set h" using d(2) by (auto dest!: set_update_subset_insert [THEN subsetD])
    have "length ?h - d < length h - pos" using d(2,3) pos by auto
    moreover have "orders lt key (set ?h)" using less.prems(2) sub by (rule orders_mono)
    ultimately obtain h' p where hp: "siftup_loop lt ?h d = Inr (h', p)" "up_ok key k h' p" "length h' \<le> 2 * p + 1"
      "length h' = length ?h" "set h' \<subseteq> set ?h" "\<forall>x. mset (h'[p := x]) = mset (?h[d := x])"
      using less.hyps siftup_step [OF less.prems(1) d(2-4)] by blast
    have "mset (?h[d := x]) = mset (h[pos := x])" for x
      using d(2,3) pos by (intro mset_swap_update) auto
    with hp sub True d(1) show ?thesis by (subst siftup_loop.simps) auto
  qed
qed

lemma siftup_correct:
  assumes "edges_ok key (Suc k) (\<lambda>_. False) h" and k: "k < length h" and ord: "orders lt key (set h)"
  shows "\<exists>h'. siftup lt h k = Inr h' \<and> edges_ok key k (\<lambda>_. False) h' \<and> mset h' = mset h"
proof -
  have "up_ok key k h k"
    using assms(1) k unfolding up_ok_def edges_ok_def
    by (auto simp: le_Suc_eq)
  from siftup_loop_correct [OF this ord] obtain h' p where hp: "siftup_loop lt h k = Inr (h', p)"
    "up_ok key k h' p" "length h' \<le> 2 * p + 1" "set h' \<subseteq> set h" "\<forall>x. mset (h'[p := x]) = mset (h[k := x])" by blast
  have leaf: "parent_pos i \<noteq> p" if "0 < i" "i < length h'" for i
    using that hp(3) by (auto simp: parent_pos_def)
  have hole: "hole_ok key k h' (h ! k) p"
    using hp(2) leaf unfolding hole_ok_def up_ok_def edges_ok_def by (auto simp: nth_list_update)
  have "orders lt key (insert (h ! k) (set h'))"
    using ord hp(4) k by (auto intro: orders_mono)
  from siftdown_correct [OF hole this] obtain h'' where "siftdown lt h' (h ! k) k p = Inr h''" "edges_ok key k (\<lambda>_. False) h''"
    "mset h'' = mset (h'[p := h ! k])" by blast
  then show ?thesis using hp(1,5) by (simp add: siftup_def)
qed

section \<open>The operations\<close>

lemma heappush_correct:
  assumes "is_heap key h" and "orders lt key (insert x (set h))"
  shows "\<exists>h'. heappush lt h x = Inr h' \<and> is_heap key h' \<and> mset h' = add_mset x (mset h)"
proof -
  have p: "parent_pos i < length h" "parent_pos i \<noteq> length h" if "0 < i" "i \<le> length h" for i
    using parent_pos_less [OF that(1)] that by simp_all
  have "hole_ok key 0 (h @ [x]) x (length h)"
    unfolding hole_ok_def edges_ok_def
    using assms(1) below_zero p
    by (auto simp: is_heap_def edges_ok_def nth_append less_Suc_eq)
  from siftdown_correct [OF this, of lt] assms(2) show ?thesis
    by (auto simp: heappush_def is_heap_def)
qed

lemma is_heap_butlast: "is_heap key h \<Longrightarrow> is_heap key (butlast h)"
proof -
  assume h: "is_heap key h"
  have "key (butlast h ! parent_pos i) \<le> key (butlast h ! i)" if "0 < i" "i < length (butlast h)" for i
    using h that parent_pos_less [of i] by (auto simp: is_heap_def edges_ok_def nth_butlast)
  then show ?thesis by (simp add: is_heap_def edges_ok_def)
qed

lemma heappop_correct:
  assumes hp: "is_heap key h" and ne: "h \<noteq> []" and ord: "orders lt key (set h)"
  shows "\<exists>h'. heappop lt h = Inr (h ! 0, h') \<and> is_heap key h' \<and> add_mset (h ! 0) (mset h') = mset h"
proof (cases "butlast h = []")
  case True
  then obtain x where "h = [x]" using ne by (cases h) (auto split: if_splits)
  then show ?thesis by (simp add: heappop_def is_heap_def edges_ok_def)
next
  case False
  let ?b = "butlast h"
  let ?g = "?b[0 := last h]"
  have h: "h = ?b @ [last h]" using ne by simp
  have len: "0 < length ?b" using False by (simp only: length_greater_0_conv) simp
  have b0: "?b ! 0 = h ! 0" "hd ?b = h ! 0" 
    using False nth_butlast [OF len] by (simp_all add: hd_conv_nth)
  have ms: "add_mset (h ! 0) (mset ?g) = mset h"
  proof -
    have "mset ?g = add_mset (last h) (mset ?b - {#?b ! 0#})" using len by (rule mset_update)
    moreover have "?b ! 0 \<in># mset ?b" using len by (simp only: set_mset_mset nth_mem)
    moreover have "mset h = add_mset (last h) (mset ?b)" by (subst h) simp
    ultimately show ?thesis using b0 by simp
  qed
  have "edges_ok key (Suc 0) (\<lambda>_. False) ?g"
  proof -
    have "key (?g ! parent_pos i) \<le> key (?g ! i)" if "0 < i" "i < length ?b" "Suc 0 \<le> parent_pos i" for i
      using is_heap_butlast [OF hp] that by (simp add: is_heap_def edges_ok_def)
    then show ?thesis by (simp add: edges_ok_def)
  qed
  moreover have "set_mset (mset ?g) \<subseteq> set_mset (mset h)" by (metis ms set_mset_add_mset_insert subset_insertI)
  then have "orders lt key (set ?g)" using ord by (auto intro: orders_mono)
  ultimately obtain h' where "siftup lt ?g 0 = Inr h'" "is_heap key h'" "mset h' = mset ?g"
    using siftup_correct [of key 0 ?g lt] len by (auto simp: is_heap_def)
  then show ?thesis using ne False b0 ms by (simp add: heappop_def Let_def)
qed

lemma heapify_correct:
  assumes "orders lt key (set h)"
  shows "\<exists>h'. heapify lt h = Inr h' \<and> is_heap key h' \<and> mset h' = mset h"
proof -
  have "\<exists>h'. rfold (\<lambda>i h. siftup lt h i) (rev [0..<k]) h = Inr h' \<and> is_heap key h' \<and> mset h' = mset h"
    if "edges_ok key k (\<lambda>_. False) h" "k \<le> length h" "orders lt key (set h)" for k h
    using that
  proof (induction k arbitrary: h)
    case 0
    then show ?case by (simp add: is_heap_def)
  next
    case (Suc k)
    from siftup_correct [of key k h lt] Suc.prems obtain h1 where h1: "siftup lt h k = Inr h1"
      "edges_ok key k (\<lambda>_. False) h1" "mset h1 = mset h" by auto
    then have "k \<le> length h1" "set h1 = set h" using Suc.prems by (auto dest: mset_eq_length mset_eq_setD)
    with Suc.IH [OF h1(2)] h1 Suc.prems show ?case by simp
  qed
  moreover have "edges_ok key (length h div 2) (\<lambda>_. False) h"
    by (auto simp: edges_ok_def parent_pos_def)
  ultimately show ?thesis using assms by (simp add: heapify_def)
qed

section \<open>Emptying a heap\<close>

lemma siftdown_length: "siftdown lt h x k pos = Inr h' \<Longrightarrow> length h' = length h"
proof (induction pos arbitrary: h rule: less_induct)
  case (less pos)
  have "length h' = length (h[pos := h ! parent_pos pos])"
    if "k < pos" "siftdown lt (h[pos := h ! parent_pos pos]) x k (parent_pos pos) = Inr h'"
    using that less.IH [OF parent_pos_less] by blast
  with less.prems show ?case
    by (auto simp: siftdown.simps [of lt h x k pos] split: if_splits)
qed

lemma siftdown_mset:
  "siftdown lt h x k pos = Inr h' \<Longrightarrow> pos < length h \<Longrightarrow> mset h' = mset (h[pos := x])"
proof (induction pos arbitrary: h rule: less_induct)
  case (less pos)
  show ?case
  proof (cases "k < pos \<and> lt x (h ! parent_pos pos) = Inr True")
    case True
    then have p: "parent_pos pos < pos" by (intro parent_pos_less) simp
    from True less.prems(1) have "siftdown lt (h[pos := h ! parent_pos pos]) x k (parent_pos pos) = Inr h'"
      by (simp add: siftdown.simps [of lt h x k pos])
    with less.IH [OF p this] less.prems(2) p show ?thesis by (simp add: mset_swap_update)
  next
    case False
    with less.prems(1) show ?thesis by (auto simp: siftdown.simps [of lt h x k pos] split: if_splits)
  qed
qed

lemma siftup_loop_length: "siftup_loop lt h pos = Inr (h', p) \<Longrightarrow> length h' = length h"
proof (induction lt h pos rule: siftup_loop.induct)
  case (1 lt h pos)
  from "1.prems" show ?case
    by (subst (asm) siftup_loop.simps) (auto split: if_splits dest: "1.IH" [rotated 2])
qed

lemma heappop_length: "heappop lt h = Inr (x, h') \<Longrightarrow> length h = Suc (length h')"
  by (cases h rule: rev_cases)
    (auto simp: heappop_def Let_def siftup_def split: if_splits dest!: siftdown_length siftup_loop_length)

function heap_drain :: "'a cmp \<Rightarrow> 'a list \<Rightarrow> 'a list result" where
  "heap_drain lt h =
     (if h = [] then Inr []
      else rbind (heappop lt h) (\<lambda>p. rbind (heap_drain lt (snd p)) (\<lambda>r. Inr (fst p # r))))"
  by pat_completeness auto
termination
  by (relation "measure (\<lambda>(_, h). length h)") (auto dest: heappop_length)

declare heap_drain.simps [simp del]

lemma heap_drain_correct:
  assumes "is_heap key h" and "orders lt key (set h)"
  shows "\<exists>r. heap_drain lt h = Inr r \<and> sorted (map key r) \<and> mset r = mset h"
  using assms
proof (induction "length h" arbitrary: h)
  case 0
  then show ?case by (simp add: heap_drain.simps)
next
  case (Suc n)
  then have ne: "h \<noteq> []" by auto
  from heappop_correct [OF Suc.prems(1) ne Suc.prems(2)] obtain h'
    where h': "heappop lt h = Inr (h ! 0, h')" "is_heap key h'" "add_mset (h ! 0) (mset h') = mset h" by blast
  from h'(3) have sub: "set h' \<subseteq> set h" by (metis set_mset_add_mset_insert set_mset_mset subset_insertI)
  with Suc.prems(2) have "orders lt key (set h')" by (rule orders_mono)
  with Suc.hyps heappop_length [OF h'(1)] h'(2) obtain r
    where r: "heap_drain lt h' = Inr r" "sorted (map key r)" "mset r = mset h'" by force
  have "key (h ! 0) \<le> key y" if "y \<in> set r" for y
    using that r(3) sub heap_front_min [OF Suc.prems(1)] by (metis in_set_conv_nth mset_eq_setD subsetD)
  then have "sorted (map key (h ! 0 # r))" using r(2) by simp
  moreover have "heap_drain lt h = Inr (h ! 0 # r)" using ne h'(1) r(1) by (simp add: heap_drain.simps [of lt h])
  ultimately show ?case using h'(3) r(3) by (metis mset.simps(2))
qed

text \<open>With distinct keys, popping the front of a heap is taking the head of its sorted list.\<close>

lemma heappop_sorted:
  assumes hp: "is_heap key h" and ne: "h \<noteq> []" and ord: "orders lt key (set h)" and inj: "inj_on key (set h)"
  shows "\<exists>h'. heappop lt h = Inr (h ! 0, h') \<and> is_heap key h' \<and> add_mset (h ! 0) (mset h') = mset h \<and>
    sort_key key h = h ! 0 # sort_key key h'"
proof -
  from heappop_correct [OF hp ne ord] obtain h' where h': "heappop lt h = Inr (h ! 0, h')" "is_heap key h'"
    "add_mset (h ! 0) (mset h') = mset h" by blast
  have "set h' \<subseteq> set h" using h'(3) by (metis set_mset_add_mset_insert set_mset_mset subset_insertI)
  then have "key (h ! 0) \<le> key y" if "y \<in> set h'" for y
    using that heap_front_min [OF hp] by (metis in_set_conv_nth subsetD)
  then have "sorted (map key (h ! 0 # sort_key key h'))" by simp
  moreover have "mset h = mset (h ! 0 # sort_key key h')" using h'(3) by simp
  ultimately have "sort_key key h = h ! 0 # sort_key key h'" using inj by (intro sort_key_inj_key_eq)
  with h' show ?thesis by blast
qed

lemma heap_drain_sort:
  assumes "is_heap key h" and "orders lt key (set h)" and "inj_on key (set h)"
  shows "heap_drain lt h = Inr (sort_key key h)"
  using heap_drain_correct [OF assms(1,2)] sort_key_inj_key_eq [of h _ key] assms(3) by metis

end
