(* ===== verification/Request_Queue.thy ===== *)
theory Request_Queue
  imports Heapq Request_Model "HOL-Library.Product_Lexorder" "HOL-Library.List_Lexorder" "HOL-Library.Char_ord"
begin

text \<open>
  The waiting queues of \<^verbatim>\<open>vllm/v1/core/sched/request_queue.py\<close>: first come first served, priority,
  the job-level order of Continuum, the multi-level queues of Autellix and the tiered heap of
  MARS with its lazy deletion. A queue holds references to request objects, which are request
  ids; attributes a queue orders by (priority, arrival time, prompt length, job) do not change
  while a request lives.
\<close>

datatype SchedulingPolicy =
    FCFS | PRIORITY | CONTINUUM | CONTINUUM_DY | AUTELLIX | INFERCEPT | INFERCEPT_SWAP | LIGHTLLM | MARS

type_synonym req_ref = string

section \<open>First come, first served\<close>

type_synonym deque = "req_ref list"

definition fcfs_add_request :: "request \<Rightarrow> deque \<Rightarrow> deque" where
  "fcfs_add_request r q = q @ [request_id r]"

definition fcfs_pop_request :: "deque \<Rightarrow> (req_ref \<times> deque) result" where
  "fcfs_pop_request q = (case q of [] \<Rightarrow> Inl IndexError | r # q' \<Rightarrow> Inr (r, q'))"

definition fcfs_peek_request :: "deque \<Rightarrow> req_ref result" where
  "fcfs_peek_request q = (case q of [] \<Rightarrow> Inl IndexError | r # _ \<Rightarrow> Inr r)"

definition fcfs_prepend_request :: "req_ref \<Rightarrow> deque \<Rightarrow> deque" where
  "fcfs_prepend_request r q = r # q"

text \<open>\<^verbatim>\<open>extendleft(reversed(requests))\<close>.\<close>

definition fcfs_prepend_requests :: "deque \<Rightarrow> deque \<Rightarrow> deque" where
  "fcfs_prepend_requests rs q = fold (#) (rev rs) q"

definition deque_remove :: "req_ref \<Rightarrow> deque \<Rightarrow> deque result" where
  "deque_remove r q = (if r \<in> set q then Inr (remove1 r q) else Inl ValueError)"

definition deque_remove_requests :: "req_ref list \<Rightarrow> deque \<Rightarrow> deque" where
  "deque_remove_requests rs q = filter (\<lambda>x. x \<notin> set rs) q"

section \<open>Priority\<close>

text \<open>
  Heap entries are tuples ending in the request object, which has no order: comparing two
  entries that agree on priority and arrival time but are different requests raises.
\<close>

type_synonym prio_entry = "int \<times> real \<times> req_ref"

fun prio_lt :: "prio_entry cmp" where
  "prio_lt (p, t, r) (p', t', r') =
     (if p \<noteq> p' then Inr (p < p') else if t \<noteq> t' then Inr (t < t')
      else if r = r' then Inr False else Inl TypeError)"

type_synonym prio_queue = "prio_entry list"

definition prio_add_request :: "request \<Rightarrow> prio_queue \<Rightarrow> prio_queue result" where
  "prio_add_request r h = heappush prio_lt h (priority r, arrival_time r, request_id r)"

definition prio_pop_request :: "prio_queue \<Rightarrow> (req_ref \<times> prio_queue) result" where
  "prio_pop_request h =
     (if h = [] then Inl IndexError else rbind (heappop prio_lt h) (\<lambda>((_, _, r), h'). Inr (r, h')))"

definition prio_peek_request :: "prio_queue \<Rightarrow> req_ref result" where
  "prio_peek_request h = (if h = [] then Inl IndexError else (case h ! 0 of (_, _, r) \<Rightarrow> Inr r))"

definition prio_prepend_requests :: "request list \<Rightarrow> prio_queue \<Rightarrow> prio_queue result" where
  "prio_prepend_requests rs = rfold prio_add_request rs"

definition prio_remove_request :: "req_ref \<Rightarrow> prio_queue \<Rightarrow> prio_queue result" where
  "prio_remove_request x h = heapify prio_lt (filter (\<lambda>(p, t, r). r \<noteq> x) h)"

definition prio_remove_requests :: "req_ref list \<Rightarrow> prio_queue \<Rightarrow> prio_queue result" where
  "prio_remove_requests xs h = heapify prio_lt (filter (\<lambda>(p, t, r). r \<notin> set xs) h)"

definition prio_iter :: "prio_queue \<Rightarrow> req_ref list result" where
  "prio_iter h = rbind (heap_drain prio_lt h) (\<lambda>es. Inr (map (\<lambda>(_, _, r). r) es))"

section \<open>Continuum\<close>

text \<open>The object store gives the job and arrival time of a queued request.\<close>

record cont_queue =
  cq_deque :: deque
  job_id_first_entry_time :: "string option \<rightharpoonup> real"

definition note_job :: "request \<Rightarrow> cont_queue \<Rightarrow> cont_queue" where
  "note_job r q =
     (if job_id_first_entry_time q (job_id r) = None
      then q\<lparr>job_id_first_entry_time := (job_id_first_entry_time q)(job_id r \<mapsto> arrival_time r)\<rparr> else q)"

definition cont_add_request :: "request \<Rightarrow> cont_queue \<Rightarrow> cont_queue" where
  "cont_add_request r q = (let q = note_job r q in q\<lparr>cq_deque := cq_deque q @ [request_id r]\<rparr>)"

definition cont_prepend_request :: "request \<Rightarrow> cont_queue \<Rightarrow> cont_queue" where
  "cont_prepend_request r q = (let q = note_job r q in q\<lparr>cq_deque := request_id r # cq_deque q\<rparr>)"

definition cont_prepend_requests :: "request list \<Rightarrow> cont_queue \<Rightarrow> cont_queue" where
  "cont_prepend_requests rs q =
     (let q = fold note_job rs q
      in q\<lparr>cq_deque := fcfs_prepend_requests (map request_id rs) (cq_deque q)\<rparr>)"

definition job_entry_time :: "(req_ref \<Rightarrow> request) \<Rightarrow> cont_queue \<Rightarrow> req_ref \<Rightarrow> real" where
  "job_entry_time obj q r =
     (case job_id_first_entry_time q (job_id (obj r)) of Some t \<Rightarrow> t | None \<Rightarrow> arrival_time (obj r))"

text \<open>The scan with \<^verbatim>\<open>earliest_entry_time = inf\<close>: a later request must be strictly earlier.\<close>

fun earliest :: "(req_ref \<Rightarrow> real) \<Rightarrow> (req_ref \<times> real) option \<Rightarrow> req_ref list \<Rightarrow> (req_ref \<times> real) option" where
  "earliest time best [] = best"
| "earliest time best (r # rs) =
     earliest time
       (case best of
          None \<Rightarrow> Some (r, time r)
        | Some (b, t) \<Rightarrow> if time r < t then Some (r, time r) else best) rs"

definition cont_peek_request ::
  "(req_ref \<Rightarrow> request) \<Rightarrow> (req_ref \<times> real) list \<Rightarrow> cont_queue \<Rightarrow> req_ref result" where
  "cont_peek_request obj pinned q =
     (if cq_deque q = [] then Inl IndexError
      else
        let jobs = map (\<lambda>(r, _). job_id (obj r)) pinned
        in case earliest (job_entry_time obj q) None
                  (filter (\<lambda>r. job_id (obj r) \<in> set jobs) (cq_deque q)) of
             Some (r, _) \<Rightarrow> Inr r
           | None \<Rightarrow>
               (case earliest (job_entry_time obj q) None (cq_deque q) of
                  Some (r, _) \<Rightarrow> Inr r
                | None \<Rightarrow> Inl IndexError))"

definition cont_remove_request :: "req_ref \<Rightarrow> cont_queue \<Rightarrow> cont_queue result" where
  "cont_remove_request r q = rbind (deque_remove r (cq_deque q)) (\<lambda>d. Inr (q\<lparr>cq_deque := d\<rparr>))"

definition cont_remove_requests :: "req_ref list \<Rightarrow> cont_queue \<Rightarrow> cont_queue" where
  "cont_remove_requests rs q = q\<lparr>cq_deque := deque_remove_requests rs (cq_deque q)\<rparr>"

definition cont_pop_request ::
  "(req_ref \<Rightarrow> request) \<Rightarrow> (req_ref \<times> real) list \<Rightarrow> cont_queue \<Rightarrow> (req_ref \<times> cont_queue) result" where
  "cont_pop_request obj pinned q =
     rbind (cont_peek_request obj pinned q) (\<lambda>r.
       rbind (cont_remove_request r q) (\<lambda>q'. Inr (r, q')))"

section \<open>Autellix\<close>

record autellix_queue =
  num_queues :: int
  aq_queues :: "deque list"
  req_to_q_idx :: "(req_ref \<times> int) list"

definition AutellixRequestQueue :: "int \<Rightarrow> autellix_queue result" where
  "AutellixRequestQueue n =
     (if n \<le> 0 then Inl ValueError
      else Inr \<lparr>num_queues = n, aq_queues = replicate (nat n) [], req_to_q_idx = []\<rparr>)"

definition clamp_q_idx :: "autellix_queue \<Rightarrow> int \<Rightarrow> int" where
  "clamp_q_idx q i = max 0 (min i (num_queues q - 1))"

text \<open>The optional attribute \<^verbatim>\<open>_autellix_q_idx\<close> of a request, 0 when it is not set.\<close>

definition get_q_idx :: "autellix_queue \<Rightarrow> int option \<Rightarrow> int" where
  "get_q_idx q attr = clamp_q_idx q (case attr of Some i \<Rightarrow> i | None \<Rightarrow> 0)"

definition aut_put :: "(deque \<Rightarrow> deque) \<Rightarrow> int option \<Rightarrow> req_ref \<Rightarrow> autellix_queue \<Rightarrow> autellix_queue" where
  "aut_put f attr r q =
     (let i = get_q_idx q attr
      in q\<lparr>aq_queues := (aq_queues q)[nat i := f (aq_queues q ! nat i)],
           req_to_q_idx := AList.update r i (req_to_q_idx q)\<rparr>)"

definition aut_add_request :: "request \<times> int option \<Rightarrow> autellix_queue \<Rightarrow> autellix_queue" where
  "aut_add_request ra q =
     aut_put (\<lambda>d. d @ [request_id (fst ra)]) (snd ra) (request_id (fst ra)) q"

definition aut_prepend_request :: "req_ref \<times> int option \<Rightarrow> autellix_queue \<Rightarrow> autellix_queue" where
  "aut_prepend_request ra q = aut_put (\<lambda>d. fst ra # d) (snd ra) (fst ra) q"

definition aut_prepend_requests :: "(req_ref \<times> int option) list \<Rightarrow> autellix_queue \<Rightarrow> autellix_queue" where
  "aut_prepend_requests rs q = fold aut_prepend_request (rev rs) q"

fun first_nonempty :: "deque list \<Rightarrow> (req_ref \<times> deque list) option" where
  "first_nonempty [] = None"
| "first_nonempty ([] # ds) = map_option (\<lambda>(r, ds'). (r, [] # ds')) (first_nonempty ds)"
| "first_nonempty ((r # d) # ds) = Some (r, d # ds)"

definition aut_pop_request :: "autellix_queue \<Rightarrow> (req_ref \<times> autellix_queue) result" where
  "aut_pop_request q =
     (case first_nonempty (aq_queues q) of
        None \<Rightarrow> Inl IndexError
      | Some (r, ds) \<Rightarrow> Inr (r, q\<lparr>aq_queues := ds, req_to_q_idx := AList.delete r (req_to_q_idx q)\<rparr>))"

definition aut_peek_request :: "autellix_queue \<Rightarrow> req_ref result" where
  "aut_peek_request q =
     (case first_nonempty (aq_queues q) of None \<Rightarrow> Inl IndexError | Some (r, _) \<Rightarrow> Inr r)"

fun remove_first_in :: "req_ref \<Rightarrow> deque list \<Rightarrow> deque list option" where
  "remove_first_in r [] = None"
| "remove_first_in r (d # ds) =
     (if r \<in> set d then Some (remove1 r d # ds) else map_option ((#) d) (remove_first_in r ds))"

definition aut_remove_request :: "req_ref \<Rightarrow> autellix_queue \<Rightarrow> autellix_queue result" where
  "aut_remove_request r q =
     (let drop_id = (\<lambda>ds. q\<lparr>aq_queues := ds, req_to_q_idx := AList.delete r (req_to_q_idx q)\<rparr>);
          slow = (case remove_first_in r (aq_queues q) of
                    Some ds \<Rightarrow> Inr (drop_id ds) | None \<Rightarrow> Inl ValueError)
      in case map_of (req_to_q_idx q) r of
           None \<Rightarrow> slow
         | Some i \<Rightarrow>
             rbind (py_nth (aq_queues q) i) (\<lambda>d.
               if r \<in> set d then Inr (drop_id ((aq_queues q)[nat i := remove1 r d])) else slow))"

definition aut_remove_requests :: "req_ref list \<Rightarrow> autellix_queue \<Rightarrow> autellix_queue result" where
  "aut_remove_requests rs =
     rfold (\<lambda>r q. case aut_remove_request r q of Inl ValueError \<Rightarrow> Inr q | res \<Rightarrow> res) rs"

definition aut_iter :: "autellix_queue \<Rightarrow> req_ref list" where
  "aut_iter q = concat (aq_queues q)"

definition aut_reversed :: "autellix_queue \<Rightarrow> req_ref list" where
  "aut_reversed q = concat (map rev (rev (aq_queues q)))"

section \<open>MARS\<close>

text \<open>Heap entries: level, order, arrival time, request id, version; compared as tuples.\<close>

type_synonym mars_key = "int \<times> int \<times> real"
type_synonym mars_entry = "int \<times> int \<times> real \<times> req_ref \<times> int"

definition mars_lt :: "mars_entry cmp" where
  "mars_lt x y = Inr (x < y)"

record mars_queue =
  prompt_len_thresholds :: "int list"
  mq_heap :: "mars_entry list"
  mq_requests :: "(req_ref \<times> req_ref) list"
  mq_version :: "(req_ref \<times> int) list"
  mq_key_by_id :: "(req_ref \<times> mars_key) list"
  mq_seq :: int
  mq_prepend_seq :: int

definition MarsRequestQueue :: mars_queue where
  "MarsRequestQueue = \<lparr>prompt_len_thresholds = [2048, 8192, 32768], mq_heap = [], mq_requests = [],
     mq_version = [], mq_key_by_id = [], mq_seq = 0, mq_prepend_seq = 0\<rparr>"

fun level_in :: "int list \<Rightarrow> int \<Rightarrow> int" where
  "level_in [] prompt_len = 0"
| "level_in (t # ts) prompt_len = (if prompt_len \<le> t then 0 else 1 + level_in ts prompt_len)"

definition mars_get_level :: "request \<Rightarrow> mars_queue \<Rightarrow> int" where
  "mars_get_level r q = level_in (prompt_len_thresholds q) (num_prompt_tokens r)"

definition mars_push :: "req_ref \<Rightarrow> real \<Rightarrow> int \<Rightarrow> int \<Rightarrow> mars_queue \<Rightarrow> mars_queue result" where
  "mars_push rid arrival level ord q =
     (let version = (case map_of (mq_version q) rid of Some v \<Rightarrow> v | None \<Rightarrow> 0) + 1
      in rbind (heappush mars_lt (mq_heap q) (level, ord, arrival, rid, version)) (\<lambda>h.
           Inr (q\<lparr>mq_version := AList.update rid version (mq_version q),
                  mq_requests := AList.update rid rid (mq_requests q),
                  mq_key_by_id := AList.update rid (level, ord, arrival) (mq_key_by_id q),
                  mq_heap := h\<rparr>)))"

text \<open>A heap entry is live when its request is queued under the entry's version.\<close>

definition live_entry :: "mars_queue \<Rightarrow> mars_entry \<Rightarrow> bool" where
  "live_entry q e =
     (case e of (_, _, _, rid, version) \<Rightarrow>
        map_of (mq_requests q) rid \<noteq> None \<and> map_of (mq_version q) rid = Some version)"

function purge_heap :: "(mars_entry \<Rightarrow> bool) \<Rightarrow> mars_entry list \<Rightarrow> mars_entry list result" where
  "purge_heap live h =
     (if h = [] then Inr []
      else if live (h ! 0) then Inr h
      else rbind (heappop mars_lt h) (\<lambda>p. purge_heap live (snd p)))"
  by pat_completeness auto
termination
  by (relation "measure (\<lambda>(_, h). length h)") (auto dest: heappop_length)

declare purge_heap.simps [simp del]

definition mars_purge :: "mars_queue \<Rightarrow> mars_queue result" where
  "mars_purge q = rbind (purge_heap (live_entry q) (mq_heap q)) (\<lambda>h. Inr (q\<lparr>mq_heap := h\<rparr>))"

definition mars_add_request :: "request \<Rightarrow> mars_queue \<Rightarrow> mars_queue result" where
  "mars_add_request r q =
     mars_push (request_id r) (arrival_time r) (mars_get_level r q) (mq_seq q + 1)
       (q\<lparr>mq_seq := mq_seq q + 1\<rparr>)"

definition mars_prepend_request :: "request \<Rightarrow> mars_queue \<Rightarrow> mars_queue result" where
  "mars_prepend_request r q =
     mars_push (request_id r) (arrival_time r) 0 (mq_prepend_seq q - 1)
       (q\<lparr>mq_prepend_seq := mq_prepend_seq q - 1\<rparr>)"

definition mars_prepend_requests :: "request list \<Rightarrow> mars_queue \<Rightarrow> mars_queue result" where
  "mars_prepend_requests rs = rfold mars_prepend_request rs"

definition mars_remove_request :: "req_ref \<Rightarrow> mars_queue \<Rightarrow> mars_queue" where
  "mars_remove_request rid q =
     q\<lparr>mq_requests := AList.delete rid (mq_requests q), mq_version := AList.delete rid (mq_version q),
       mq_key_by_id := AList.delete rid (mq_key_by_id q)\<rparr>"

definition mars_remove_requests :: "req_ref list \<Rightarrow> mars_queue \<Rightarrow> mars_queue" where
  "mars_remove_requests = fold mars_remove_request"

definition mars_pop_request :: "mars_queue \<Rightarrow> (req_ref \<times> mars_queue) result" where
  "mars_pop_request q =
     rbind (mars_purge q) (\<lambda>q.
       if mq_heap q = [] then Inl IndexError
       else rbind (heappop mars_lt (mq_heap q)) (\<lambda>((_, _, _, rid, _), h).
         case map_of (mq_requests q) rid of
           None \<Rightarrow> Inl KeyError
         | Some r \<Rightarrow> Inr (r, (mars_remove_request rid q)\<lparr>mq_heap := h\<rparr>)))"

definition mars_peek_request :: "mars_queue \<Rightarrow> (req_ref \<times> mars_queue) result" where
  "mars_peek_request q =
     rbind (mars_purge q) (\<lambda>q.
       if mq_heap q = [] then Inl IndexError
       else (case mq_heap q ! 0 of (_, _, _, rid, _) \<Rightarrow>
         case map_of (mq_requests q) rid of None \<Rightarrow> Inl KeyError | Some r \<Rightarrow> Inr (r, q)))"

definition mars_len :: "mars_queue \<Rightarrow> int" where
  "mars_len q = int (length (mq_requests q))"

text \<open>\<^verbatim>\<open>__iter__\<close>: ids sorted by key, then the object of each.\<close>

definition mars_iter :: "mars_queue \<Rightarrow> req_ref list" where
  "mars_iter q = map (\<lambda>(rid, _). the (map_of (mq_requests q) rid)) (sort_key snd (mq_key_by_id q))"

section \<open>Choosing a queue\<close>

datatype request_queue =
    FcfsQ deque | PrioQ prio_queue | ContQ cont_queue | AutQ autellix_queue | MarsQ mars_queue

definition create_request_queue :: "SchedulingPolicy \<Rightarrow> request_queue result" where
  "create_request_queue policy =
     (case policy of
        PRIORITY \<Rightarrow> Inr (PrioQ [])
      | FCFS \<Rightarrow> Inr (FcfsQ [])
      | CONTINUUM \<Rightarrow> Inr (ContQ \<lparr>cq_deque = [], job_id_first_entry_time = Map.empty\<rparr>)
      | CONTINUUM_DY \<Rightarrow> Inr (ContQ \<lparr>cq_deque = [], job_id_first_entry_time = Map.empty\<rparr>)
      | AUTELLIX \<Rightarrow> rbind (AutellixRequestQueue 4) (\<lambda>q. Inr (AutQ q))
      | INFERCEPT \<Rightarrow> Inr (FcfsQ [])
      | INFERCEPT_SWAP \<Rightarrow> Inr (FcfsQ [])
      | LIGHTLLM \<Rightarrow> Inr (FcfsQ [])
      | MARS \<Rightarrow> Inr (MarsQ MarsRequestQueue))"

section \<open>The interface the scheduler relies on\<close>

primrec pop_times :: "('q \<Rightarrow> (req_ref \<times> 'q) result) \<Rightarrow> nat \<Rightarrow> 'q \<Rightarrow> (req_ref list \<times> 'q) result" where
  "pop_times pop 0 q = Inr ([], q)"
| "pop_times pop (Suc n) q =
     rbind (pop q) (\<lambda>(r, q'). rbind (pop_times pop n q') (\<lambda>(rs, q''). Inr (r # rs, q'')))"

text \<open>
  \<open>iter\<close> is the policy order \<^verbatim>\<open>__iter__\<close> shows; popping and peeking follow it, and adding keeps
  every queued request and adds one.
\<close>

locale waiting_queue =
  fixes inv :: "'q \<Rightarrow> bool"
    and iter :: "'q \<Rightarrow> req_ref list"
    and id_of :: "'e \<Rightarrow> req_ref"
    and can_add :: "'e \<Rightarrow> 'q \<Rightarrow> bool"
    and add :: "'e \<Rightarrow> 'q \<Rightarrow> 'q result"
    and pop :: "'q \<Rightarrow> (req_ref \<times> 'q) result"
    and peek :: "'q \<Rightarrow> (req_ref \<times> 'q) result"
  assumes pop_front: "inv q \<Longrightarrow> iter q = r # rs \<Longrightarrow> \<exists>q'. pop q = Inr (r, q') \<and> inv q' \<and> iter q' = rs"
    and pop_empty: "inv q \<Longrightarrow> iter q = [] \<Longrightarrow> pop q = Inl IndexError"
    and peek_front: "inv q \<Longrightarrow> iter q = r # rs \<Longrightarrow> \<exists>q'. peek q = Inr (r, q') \<and> inv q' \<and> iter q' = iter q"
    and add_one: "inv q \<Longrightarrow> can_add e q \<Longrightarrow>
      \<exists>q'. add e q = Inr q' \<and> inv q' \<and> mset (iter q') = add_mset (id_of e) (mset (iter q))"
begin

lemma pop_times_take:
  "inv q \<Longrightarrow> n \<le> length (iter q) \<Longrightarrow>
    \<exists>q'. pop_times pop n q = Inr (take n (iter q), q') \<and> inv q' \<and> iter q' = drop n (iter q)"
proof (induction n arbitrary: q)
  case 0
  then show ?case by simp
next
  case (Suc n)
  then obtain r rs where it: "iter q = r # rs" by (cases "iter q") auto
  from pop_front [OF Suc.prems(1) it] obtain q1 where q1: "pop q = Inr (r, q1)" "inv q1" "iter q1 = rs" by blast
  with Suc.IH [of q1] Suc.prems(2) it show ?case by auto
qed

text \<open>Popping until the queue is empty hands out every request once, in policy order.\<close>

lemma drain:
  assumes "inv q"
  shows "\<exists>q'. pop_times pop (length (iter q)) q = Inr (iter q, q') \<and> pop q' = Inl IndexError"
  using pop_times_take [OF assms, of "length (iter q)"] pop_empty by auto

text \<open>An added request is handed out after at most as many pops as there were requests.\<close>

lemma added_is_served:
  assumes "inv q" and "can_add e q"
  shows "\<exists>q1. add e q = Inr q1 \<and> (\<exists>k rs q2. k \<le> length (iter q) \<and>
    pop_times pop (Suc k) q1 = Inr (rs, q2) \<and> last rs = id_of e)"
proof -
  from add_one [OF assms] obtain q1 where q1: "add e q = Inr q1" "inv q1"
    "mset (iter q1) = add_mset (id_of e) (mset (iter q))" by blast
  then have "id_of e \<in> set (iter q1)" by (metis set_mset_mset union_single_eq_member)
  then obtain k where k: "k < length (iter q1)" "iter q1 ! k = id_of e" by (auto simp: in_set_conv_nth)
  have "length (iter q1) = Suc (length (iter q))" using q1(3) by (metis size_add_mset size_mset)
  then have le: "k \<le> length (iter q)" using k(1) by simp
  have last: "last (take (Suc k) (iter q1)) = id_of e" using k by (simp add: take_Suc_conv_app_nth)
  obtain q2 where "pop_times pop (Suc k) q1 = Inr (take (Suc k) (iter q1), q2)"
    using pop_times_take [OF q1(2), of "Suc k"] k(1) by auto
  with q1(1) le last show ?thesis by blast
qed

end

subsection \<open>First come, first served\<close>

interpretation fcfs: waiting_queue "\<lambda>_. True" "\<lambda>q. q" request_id "\<lambda>_ _. True"
  "\<lambda>r q. Inr (fcfs_add_request r q)" fcfs_pop_request "\<lambda>q. rbind (fcfs_peek_request q) (\<lambda>r. Inr (r, q))"
  by unfold_locales (auto simp: fcfs_pop_request_def fcfs_peek_request_def fcfs_add_request_def)

lemma fcfs_prepend_requests_append: "fcfs_prepend_requests rs q = rs @ q"
proof -
  have "fold (#) xs q = rev xs @ q" for xs :: deque by (induction xs arbitrary: q) auto
  then show ?thesis by (simp add: fcfs_prepend_requests_def)
qed

subsection \<open>Priority\<close>

definition prio_key :: "prio_entry \<Rightarrow> int \<times> real" where
  "prio_key e = (fst e, fst (snd e))"

definition prio_ref :: "prio_entry \<Rightarrow> req_ref" where
  "prio_ref e = snd (snd e)"

definition prio_inv :: "prio_queue \<Rightarrow> bool" where
  "prio_inv h \<longleftrightarrow> is_heap prio_key h \<and> inj_on prio_key (set h)"

definition prio_order :: "prio_queue \<Rightarrow> req_ref list" where
  "prio_order h = map prio_ref (sort_key prio_key h)"

lemma prio_orders: "inj_on prio_key S \<Longrightarrow> orders prio_lt prio_key S"
  by (fastforce simp: orders_def prio_key_def inj_on_def less_prod_def)

lemma prio_iter_order: "prio_inv h \<Longrightarrow> prio_iter h = Inr (prio_order h)"
  using heap_drain_sort [of prio_key h prio_lt] prio_orders [of "set h"]
  by (auto simp: prio_inv_def prio_iter_def prio_order_def prio_ref_def intro: map_cong)

text \<open>No queued request has the same priority and arrival time.\<close>

definition prio_can_add :: "request \<Rightarrow> prio_queue \<Rightarrow> bool" where
  "prio_can_add r h \<longleftrightarrow> (priority r, arrival_time r) \<notin> prio_key ` set h"

lemma prio_pop:
  assumes inv: "prio_inv h" and it: "prio_order h = r # rs"
  shows "\<exists>h'. prio_pop_request h = Inr (r, h') \<and> prio_inv h' \<and> prio_order h' = rs"
    and "prio_peek_request h = Inr r"
proof -
  have ne: "h \<noteq> []" using it by (auto simp: prio_order_def)
  from inv have hp: "is_heap prio_key h" "inj_on prio_key (set h)" by (auto simp: prio_inv_def)
  from heappop_sorted [OF hp(1) ne prio_orders [OF hp(2)] hp(2)] obtain h' where
    h': "heappop prio_lt h = Inr (h ! 0, h')" "is_heap prio_key h'" "add_mset (h ! 0) (mset h') = mset h"
      "sort_key prio_key h = h ! 0 # sort_key prio_key h'" by blast
  have "set h' \<subseteq> set h" using h'(3) by (metis set_mset_add_mset_insert set_mset_mset subset_insertI)
  with hp(2) have "prio_inv h'" using h'(2) by (auto simp: prio_inv_def intro: inj_on_subset)
  moreover have r: "prio_ref (h ! 0) = r" "prio_order h' = rs" using it h'(4) by (simp_all add: prio_order_def)
  moreover have "prio_pop_request h = Inr (prio_ref (h ! 0), h')"
    using ne h'(1) by (cases "h ! 0") (simp add: prio_pop_request_def prio_ref_def)
  ultimately show "\<exists>h'. prio_pop_request h = Inr (r, h') \<and> prio_inv h' \<and> prio_order h' = rs" by auto
  show "prio_peek_request h = Inr r"
    using ne r(1) by (cases "h ! 0") (simp add: prio_peek_request_def prio_ref_def)
qed

lemma prio_add:
  assumes inv: "prio_inv h" and c: "prio_can_add r h"
  shows "\<exists>h'. prio_add_request r h = Inr h' \<and> prio_inv h' \<and>
    mset (prio_order h') = add_mset (request_id r) (mset (prio_order h))"
proof -
  let ?e = "(priority r, arrival_time r, request_id r)"
  have "prio_key ?e \<notin> prio_key ` set h" using c by (simp add: prio_can_add_def prio_key_def)
  then have inj: "inj_on prio_key (insert ?e (set h))"
    using inv by (auto simp: prio_inv_def)
  from heappush_correct [OF _ prio_orders [OF inj]] inv obtain h'
    where h': "heappush prio_lt h ?e = Inr h'" "is_heap prio_key h'" "mset h' = add_mset ?e (mset h)"
    by (auto simp: prio_inv_def)
  then have "set h' = insert ?e (set h)" by (metis set_mset_add_mset_insert set_mset_mset)
  with h' inj show ?thesis
    by (auto simp: prio_add_request_def prio_inv_def prio_order_def prio_ref_def)
qed

interpretation prio: waiting_queue prio_inv prio_order request_id prio_can_add prio_add_request
  prio_pop_request "\<lambda>h. rbind (prio_peek_request h) (\<lambda>r. Inr (r, h))"
proof unfold_locales
  fix h assume "prio_order h = []"
  then have "sort_key prio_key h = []" by (simp add: prio_order_def)
  then have "h = []" by (metis set_empty set_sort)
  then show "prio_pop_request h = Inl IndexError" by (simp add: prio_pop_request_def)
qed (simp_all add: prio_pop prio_add)

lemma prio_remove_order:
  assumes "prio_inv h"
  shows "\<exists>h'. prio_remove_requests xs h = Inr h' \<and> prio_inv h' \<and>
    prio_order h' = filter (\<lambda>r. r \<notin> set xs) (prio_order h)"
proof -
  let ?f = "filter (\<lambda>(p, t, r). r \<notin> set xs) h"
  from assms have inj: "inj_on prio_key (set h)" by (simp add: prio_inv_def)
  then have injf: "inj_on prio_key (set ?f)" by (rule inj_on_subset) auto
  from heapify_correct [OF prio_orders [OF injf]] obtain h' where h': "heapify prio_lt ?f = Inr h'"
    "is_heap prio_key h'" "mset h' = mset ?f" by blast
  have f: "?f = filter (\<lambda>e. prio_ref e \<notin> set xs) h" by (auto simp: prio_ref_def intro!: filter_cong)
  have "sort_key prio_key h' = filter (\<lambda>e. prio_ref e \<notin> set xs) (sort_key prio_key h)"
  proof (rule sort_key_inj_key_eq)
    show "mset h' = mset (filter (\<lambda>e. prio_ref e \<notin> set xs) (sort_key prio_key h))"
      using h'(3) unfolding f by (simp add: mset_filter)
    show "inj_on prio_key (set h')" using injf h'(3) by (metis mset_eq_setD)
    show "sorted (map prio_key (filter (\<lambda>e. prio_ref e \<notin> set xs) (sort_key prio_key h)))"
      by (intro sorted_filter) simp
  qed
  then have "prio_order h' = filter (\<lambda>r. r \<notin> set xs) (prio_order h)"
    by (simp add: prio_order_def filter_map comp_def)
  with h' injf show ?thesis by (metis prio_remove_requests_def prio_inv_def mset_eq_setD)
qed

subsection \<open>Autellix\<close>

definition aut_inv :: "autellix_queue \<Rightarrow> bool" where
  "aut_inv q \<longleftrightarrow> 0 < num_queues q \<and> length (aq_queues q) = nat (num_queues q)"

lemma first_nonempty_concat:
  "concat ds = r # rs \<Longrightarrow> \<exists>ds'. first_nonempty ds = Some (r, ds') \<and> concat ds' = rs \<and> length ds' = length ds"
proof (induction ds rule: first_nonempty.induct)
  case (2 ds)
  then show ?case by auto
qed auto

lemma first_nonempty_None: "concat ds = [] \<Longrightarrow> first_nonempty ds = None"
  by (induction ds rule: first_nonempty.induct) auto

lemma get_q_idx_range: "aut_inv q \<Longrightarrow> nat (get_q_idx q attr) < length (aq_queues q)"
  by (auto simp: get_q_idx_def clamp_q_idx_def aut_inv_def split: option.splits)

lemma mset_concat_update:
  "i < length ds \<Longrightarrow> mset (concat (ds[i := d])) + mset (ds ! i) = mset (concat ds) + mset d"
proof (induction ds arbitrary: i)
  case (Cons x ds)
  then show ?case by (cases i) (auto simp: union_assoc union_commute)
qed simp

interpretation aut: waiting_queue aut_inv aut_iter "\<lambda>e. request_id (fst e)" "\<lambda>_ _. True"
  "\<lambda>e q. Inr (aut_add_request e q)" aut_pop_request "\<lambda>q. rbind (aut_peek_request q) (\<lambda>r. Inr (r, q))"
proof unfold_locales
  fix q r rs assume q: "aut_inv q" "aut_iter q = r # rs"
  from first_nonempty_concat [of "aq_queues q" r rs] q show "\<exists>q'. aut_pop_request q = Inr (r, q') \<and> aut_inv q' \<and> aut_iter q' = rs"
    by (auto simp: aut_iter_def aut_pop_request_def aut_inv_def)
  from first_nonempty_concat [of "aq_queues q" r rs] q
  show "\<exists>q'. rbind (aut_peek_request q) (\<lambda>r. Inr (r, q)) = Inr (r, q') \<and> aut_inv q' \<and> aut_iter q' = aut_iter q"
    by (auto simp: aut_iter_def aut_peek_request_def)
next
  fix q assume "aut_iter q = []"
  then show "aut_pop_request q = Inl IndexError"
    by (simp add: aut_iter_def aut_pop_request_def first_nonempty_None del: concat_eq_Nil_conv)
next
  fix q and e :: "request \<times> int option" assume q: "aut_inv q"
  let ?i = "nat (get_q_idx q (snd e))"
  have "mset (aut_iter (aut_add_request e q)) = add_mset (request_id (fst e)) (mset (aut_iter q))"
    using mset_concat_update [OF get_q_idx_range [OF q], of "snd e" "aq_queues q ! ?i @ [request_id (fst e)]"]
    by (simp add: aut_iter_def aut_add_request_def aut_put_def Let_def)
  then show "\<exists>q'. Inr (aut_add_request e q) = Inr q' \<and> aut_inv q' \<and>
      mset (aut_iter q') = add_mset (request_id (fst e)) (mset (aut_iter q))"
    using q by (auto simp: aut_inv_def aut_add_request_def aut_put_def Let_def)
qed

subsection \<open>MARS\<close>

definition entry_id :: "mars_entry \<Rightarrow> req_ref" where
  "entry_id e = fst (snd (snd (snd e)))"

definition key_entry :: "req_ref \<Rightarrow> mars_key \<Rightarrow> int \<Rightarrow> mars_entry" where
  "key_entry rid k v = (fst k, fst (snd k), snd (snd k), rid, v)"

definition key_order :: "req_ref \<times> mars_key \<Rightarrow> int" where
  "key_order x = fst (snd (snd x))"

text \<open>
  The three dictionaries list the same requests; each queued request has its current entry in the
  heap, no two entries belong to the same request, and the order numbers are unique.
\<close>

definition mars_inv :: "mars_queue \<Rightarrow> bool" where
  "mars_inv q \<longleftrightarrow>
     is_heap (\<lambda>e. e) (mq_heap q) \<and> distinct (map entry_id (mq_heap q)) \<and>
     distinct (map fst (mq_key_by_id q)) \<and>
     mq_requests q = map (\<lambda>(r, _). (r, r)) (mq_key_by_id q) \<and>
     map fst (mq_version q) = map fst (mq_key_by_id q) \<and>
     (\<forall>(rid, k) \<in> set (mq_key_by_id q).
        \<exists>v. map_of (mq_version q) rid = Some v \<and> key_entry rid k v \<in> set (mq_heap q)) \<and>
     distinct (map key_order (mq_key_by_id q)) \<and>
     (\<forall>(rid, l, n, a) \<in> set (mq_key_by_id q). 0 \<le> l \<and>
        (0 < n \<and> n \<le> mq_seq q \<or> mq_prepend_seq q \<le> n \<and> n < 0 \<and> l = 0)) \<and>
     0 \<le> mq_seq q \<and> mq_prepend_seq q \<le> 0"

lemma mars_invD:
  assumes "mars_inv q"
  shows "is_heap (\<lambda>e. e) (mq_heap q)" "distinct (map entry_id (mq_heap q))" "distinct (map fst (mq_key_by_id q))"
    "mq_requests q = map (\<lambda>(r, _). (r, r)) (mq_key_by_id q)" "map fst (mq_version q) = map fst (mq_key_by_id q)"
    "(rid, k) \<in> set (mq_key_by_id q) \<Longrightarrow> \<exists>v. map_of (mq_version q) rid = Some v \<and> key_entry rid k v \<in> set (mq_heap q)"
    "distinct (map key_order (mq_key_by_id q))"
    "(rid, l, n, a) \<in> set (mq_key_by_id q) \<Longrightarrow> 0 \<le> l \<and>
        (0 < n \<and> n \<le> mq_seq q \<or> mq_prepend_seq q \<le> n \<and> n < 0 \<and> l = 0)"
    "0 \<le> mq_seq q" "mq_prepend_seq q \<le> 0"
  using assms unfolding mars_inv_def by blast+

lemma mars_requests_lookup:
  "mars_inv q \<Longrightarrow> map_of (mq_requests q) rid = (if rid \<in> fst ` set (mq_key_by_id q) then Some rid else None)"
proof -
  have "map_of (map (\<lambda>(r, _). (r, r)) ks) rid = (if rid \<in> fst ` set ks then Some rid else None)" for ks :: "(req_ref \<times> mars_key) list"
    by (induction ks) auto
  then show "mars_inv q \<Longrightarrow> ?thesis" using mars_invD(4) [of q] by simp
qed

lemma mars_iter_keys: "mars_inv q \<Longrightarrow> mars_iter q = map fst (sort_key snd (mq_key_by_id q))"
  by (auto simp: mars_iter_def mars_requests_lookup image_iff intro!: map_cong) (metis fst_conv)

lemma mars_keys_inj: "mars_inv q \<Longrightarrow> inj_on snd (set (mq_key_by_id q))"
  using mars_invD(7) [of q] unfolding distinct_map inj_on_def key_order_def by metis

lemma mars_orders: "orders mars_lt (\<lambda>e. e) S"
  by (simp add: orders_def mars_lt_def)

lemma entry_id_key_entry [simp]: "entry_id (key_entry rid k v) = rid"
  by (simp add: entry_id_def key_entry_def)

lemma key_entry_le: "key_entry rid k v \<le> key_entry rid' k' v' \<Longrightarrow> k \<le> k'"
  by (auto simp: key_entry_def less_eq_prod_def less_prod_def)

lemma live_entry_iff:
  assumes "mars_inv q" and "e \<in> set (mq_heap q)"
  shows "live_entry q e \<longleftrightarrow> (\<exists>rid k v. (rid, k) \<in> set (mq_key_by_id q) \<and> e = key_entry rid k v)"
proof
  assume "live_entry q e"
  then have "entry_id e \<in> fst ` set (mq_key_by_id q)"
    using mars_requests_lookup [OF assms(1)]
    by (cases e) (auto simp: live_entry_def entry_id_def split: if_splits)
  then obtain k where k: "(entry_id e, k) \<in> set (mq_key_by_id q)" by auto
  from mars_invD(6) [OF assms(1) k] obtain v where "key_entry (entry_id e) k v \<in> set (mq_heap q)" by blast
  with assms(2) mars_invD(2) [OF assms(1)] have "e = key_entry (entry_id e) k v"
    by (metis distinct_map entry_id_key_entry inj_onD)
  with k show "\<exists>rid k v. (rid, k) \<in> set (mq_key_by_id q) \<and> e = key_entry rid k v" by blast
next
  assume "\<exists>rid k v. (rid, k) \<in> set (mq_key_by_id q) \<and> e = key_entry rid k v"
  then obtain rid k v where k: "(rid, k) \<in> set (mq_key_by_id q)" "e = key_entry rid k v" by blast
  from mars_invD(6) [OF assms(1) k(1)] obtain w where w: "map_of (mq_version q) rid = Some w"
    "key_entry rid k w \<in> set (mq_heap q)" by blast
  with k(2) assms(2) mars_invD(2) [OF assms(1)] have "key_entry rid k w = e"
    by (metis distinct_map entry_id_key_entry inj_onD)
  with w k mars_requests_lookup [OF assms(1)] show "live_entry q e"
    by (force simp: live_entry_def key_entry_def)
qed

lemma purge_heap_correct:
  assumes "is_heap (\<lambda>e. e) h"
  shows "\<exists>h'. purge_heap live h = Inr h' \<and> is_heap (\<lambda>e. e) h' \<and> mset h' \<subseteq># mset h \<and>
    (\<forall>e\<in>set h. live e \<longrightarrow> e \<in> set h') \<and> (h' = [] \<or> live (h' ! 0))"
  using assms
proof (induction "length h" arbitrary: h)
  case 0
  then show ?case by (simp add: purge_heap.simps)
next
  case (Suc n)
  then have ne: "h \<noteq> []" by auto
  show ?case
  proof (cases "live (h ! 0)")
    case True
    then show ?thesis using ne Suc.prems by (subst purge_heap.simps) auto
  next
    case False
    from heappop_correct [OF Suc.prems ne mars_orders] obtain h1 where
      h1: "heappop mars_lt h = Inr (h ! 0, h1)" "is_heap (\<lambda>e. e) h1" "add_mset (h ! 0) (mset h1) = mset h" by blast
    have "n = length h1" using Suc.hyps(2) heappop_length [OF h1(1)] by simp
    from Suc.hyps(1) [OF this h1(2)] obtain h' where h': "purge_heap live h1 = Inr h'"
      "is_heap (\<lambda>e. e) h'" "mset h' \<subseteq># mset h1" "\<forall>e\<in>set h1. live e \<longrightarrow> e \<in> set h'" "h' = [] \<or> live (h' ! 0)" by blast
    have "e \<in> set h1" if "e \<in> set h" "live e" for e
      using that h1(3) False by (metis insertE set_mset_add_mset_insert set_mset_mset)
    moreover have "mset h' \<subseteq># add_mset (h ! 0) (mset h1)" using h'(3) by (rule subset_mset.order_trans) simp
    moreover have "purge_heap live h = Inr h'"
      by (subst purge_heap.simps) (simp add: ne False h1(1) h'(1))
    ultimately show ?thesis using h'(2,4,5) unfolding h1(3) by blast
  qed
qed

lemma distinct_submset: "mset xs \<subseteq># mset ys \<Longrightarrow> distinct ys \<Longrightarrow> distinct xs"
proof -
  assume sub: "mset xs \<subseteq># mset ys" and d: "distinct ys"
  have "count (mset xs) a = (if a \<in> set xs then 1 else 0)" for a
  proof (cases "a \<in> set xs")
    case True
    then have "a \<in> set ys" using sub by (metis mset_subset_eqD set_mset_mset)
    with d have "count (mset ys) a = 1" by (simp add: distinct_count_atmost_1)
    moreover have "count (mset xs) a \<le> count (mset ys) a" using sub by (rule mset_subset_eq_count)
    moreover have "0 < count (mset xs) a" using True by simp
    ultimately show ?thesis using True by (simp del: count_greater_zero_iff)
  next
    case False
    then show ?thesis by (simp add: count_eq_zero_iff)
  qed
  then show "distinct xs" by (simp add: distinct_count_atmost_1)
qed

lemma mars_inv_subheap:
  assumes inv: "mars_inv q" and "is_heap (\<lambda>e. e) h" "mset h \<subseteq># mset (mq_heap q)"
    and "\<forall>e\<in>set (mq_heap q). live_entry q e \<longrightarrow> e \<in> set h"
  shows "mars_inv (q\<lparr>mq_heap := h\<rparr>)"
proof -
  have "mset (map entry_id h) \<subseteq># mset (map entry_id (mq_heap q))" using assms(3) by (simp add: image_mset_subseteq_mono)
  then have d: "distinct (map entry_id h)" using mars_invD(2) [OF inv] by (rule distinct_submset)
  have "\<exists>v. map_of (mq_version q) rid = Some v \<and> key_entry rid k v \<in> set h" if "(rid, k) \<in> set (mq_key_by_id q)" for rid k
    using mars_invD(6) [OF inv that] assms(4) live_entry_iff [OF inv] that by blast
  then show ?thesis using inv assms(2) d unfolding mars_inv_def by auto
qed

lemma mars_purge_correct:
  assumes inv: "mars_inv q"
  shows "\<exists>h. mars_purge q = Inr (q\<lparr>mq_heap := h\<rparr>) \<and> mars_inv (q\<lparr>mq_heap := h\<rparr>) \<and>
    (if mq_key_by_id q = [] then h = []
     else h \<noteq> [] \<and> (\<exists>k v. h ! 0 = key_entry (hd (mars_iter q)) k v \<and>
       (hd (mars_iter q), k) = hd (sort_key snd (mq_key_by_id q))))"
proof -
  from purge_heap_correct [OF mars_invD(1) [OF inv], of "live_entry q"] obtain h where
    h: "purge_heap (live_entry q) (mq_heap q) = Inr h" "is_heap (\<lambda>e. e) h" "mset h \<subseteq># mset (mq_heap q)"
      "\<forall>e\<in>set (mq_heap q). live_entry q e \<longrightarrow> e \<in> set h" "h = [] \<or> live_entry q (h ! 0)" by blast
  have sub: "set h \<subseteq> set (mq_heap q)" using h(3) by (metis set_mset_mono set_mset_mset)
  have in_h: "\<exists>v. key_entry rid k v \<in> set h" if "(rid, k) \<in> set (mq_key_by_id q)" for rid k
    using mars_invD(6) [OF inv that] live_entry_iff [OF inv] h(4) that by blast
  have front: "\<exists>rid k v. (rid, k) \<in> set (mq_key_by_id q) \<and> h ! 0 = key_entry rid k v" if "h \<noteq> []"
  proof -
    have "h ! 0 \<in> set h" using that by simp
    then have "h ! 0 \<in> set (mq_heap q)" using sub by blast
    moreover have "live_entry q (h ! 0)" using that h(5) by simp
    ultimately show ?thesis using live_entry_iff [OF inv] by simp
  qed
  have "if mq_key_by_id q = [] then h = []
     else h \<noteq> [] \<and> (\<exists>k v. h ! 0 = key_entry (hd (mars_iter q)) k v \<and>
       (hd (mars_iter q), k) = hd (sort_key snd (mq_key_by_id q)))"
  proof (cases "mq_key_by_id q = []")
    case True
    then show ?thesis using front by auto
  next
    case False
    then obtain rid0 k0 where "(rid0, k0) \<in> set (mq_key_by_id q)" by (cases "mq_key_by_id q") auto
    from in_h [OF this] have ne: "h \<noteq> []" by auto
    from front [OF ne] obtain rid k v where f: "(rid, k) \<in> set (mq_key_by_id q)" "h ! 0 = key_entry rid k v" by blast
    have le: "k \<le> k'" if m: "(rid', k') \<in> set (mq_key_by_id q)" for rid' k'
    proof -
      from in_h [OF m] obtain v' i where "i < length h" "h ! i = key_entry rid' k' v'" by (auto simp: in_set_conv_nth)
      with heap_front_min [OF h(2)] f(2) show ?thesis using key_entry_le by metis
    qed
    let ?s = "sort_key snd (mq_key_by_id q)"
    have sne: "?s \<noteq> []" using False by (metis set_empty set_sort)
    then have hd_in: "hd ?s \<in> set (mq_key_by_id q)" using hd_in_set [OF sne] by simp
    have "snd (hd ?s) \<le> k"
    proof -
      have "(rid, k) \<in> set ?s" using f(1) by simp
      moreover have "sorted (map snd ?s)" by simp
      ultimately show ?thesis using sne by (cases ?s) auto
    qed
    with le [of "fst (hd ?s)" "snd (hd ?s)"] hd_in have "snd (hd ?s) = k" by simp
    then have "hd ?s = (rid, k)" using inj_onD [OF mars_keys_inj [OF inv] _ hd_in f(1)] by simp
    moreover from this have "hd (mars_iter q) = rid" using mars_iter_keys [OF inv] sne by (simp add: hd_map)
    ultimately have "h ! 0 = key_entry (hd (mars_iter q)) k v" "(hd (mars_iter q), k) = hd ?s" using f(2) by simp_all
    then show ?thesis using ne False by (simp only: if_False) blast
  qed
  moreover have "mars_purge q = Inr (q\<lparr>mq_heap := h\<rparr>)" by (simp add: mars_purge_def h(1))
  ultimately show ?thesis using mars_inv_subheap [OF inv h(2-4)] by blast
qed

lemma AList_delete_filter: "AList.delete r xs = filter (\<lambda>x. fst x \<noteq> r) xs"
  by (auto simp: AList.delete_eq intro: filter_cong)

lemma sort_key_delete_front:
  assumes "sort_key snd ks = (rid, k) # rest" "distinct (map fst ks)" "inj_on snd (set ks)"
  shows "sort_key snd (AList.delete rid ks) = rest"
proof (rule sort_key_inj_key_eq)
  have ms: "mset ks = add_mset (rid, k) (mset rest)" using assms(1) by (metis mset.simps(2) mset_sort)
  then have "rid \<notin> fst ` set rest"
  proof -
    have "mset (map fst ks) = add_mset rid (mset (map fst rest))" using ms by simp
    then have "distinct (rid # map fst rest)" using assms(2) by (metis distinct_submset mset.simps(2) subset_mset.order_refl)
    then show ?thesis by simp
  qed
  then have "filter_mset (\<lambda>x. fst x \<noteq> rid) (mset rest) = mset rest"
    by (intro filter_mset_eq_conv [THEN iffD2]) auto
  then show "mset (AList.delete rid ks) = mset rest"
    using ms by (simp add: AList_delete_filter mset_filter)
  show "inj_on snd (set (AList.delete rid ks))"
    using assms(3) by (rule inj_on_subset) (auto simp: AList_delete_filter)
  show "sorted (map snd rest)" using assms(1) sorted_sort_key [of snd ks] by simp
qed

lemma map_fst_filter: "map fst (filter (\<lambda>x. fst x \<noteq> r) xs) = filter (\<lambda>y. y \<noteq> r) (map fst xs)"
  by (induction xs) auto

lemma mars_remove_inv:
  assumes inv: "mars_inv q"
  shows "mars_inv (mars_remove_request rid q)"
proof -
  note d = mars_invD [OF inv]
  let ?q = "mars_remove_request rid q" and ?F = "\<lambda>xs. filter (\<lambda>x. fst x \<noteq> rid) xs"
  have fields: "mq_heap ?q = mq_heap q" "mq_key_by_id ?q = ?F (mq_key_by_id q)" "mq_requests ?q = filter (\<lambda>x. fst x \<noteq> rid) (mq_requests q)"
    "mq_version ?q = filter (\<lambda>x. fst x \<noteq> rid) (mq_version q)" "mq_seq ?q = mq_seq q" "mq_prepend_seq ?q = mq_prepend_seq q"
    by (simp_all add: mars_remove_request_def AList_delete_filter)
  have v: "map_of (filter (\<lambda>x. fst x \<noteq> rid) (mq_version q)) r = map_of (mq_version q) r" if "r \<noteq> rid" for r
    using that by (simp add: AList.delete_conv flip: AList_delete_filter)
  have "filter (\<lambda>x. fst x \<noteq> rid) (mq_requests q) = map (\<lambda>(r, _). (r, r)) (?F (mq_key_by_id q))"
    unfolding d(4) by (simp add: filter_map comp_def case_prod_unfold)
  moreover have "\<forall>(r, k)\<in>set (?F (mq_key_by_id q)).
      \<exists>w. map_of (filter (\<lambda>x. fst x \<noteq> rid) (mq_version q)) r = Some w \<and> key_entry r k w \<in> set (mq_heap q)"
  proof clarify
    fix r k1 k2 k3
    assume a: "(r, k1, k2, k3) \<in> set (?F (mq_key_by_id q))"
    then have "r \<noteq> rid" and m: "(r, k1, k2, k3) \<in> set (mq_key_by_id q)" by simp_all
    then show "\<exists>w. map_of (filter (\<lambda>x. fst x \<noteq> rid) (mq_version q)) r = Some w \<and> key_entry r (k1, k2, k3) w \<in> set (mq_heap q)"
      unfolding v [OF \<open>r \<noteq> rid\<close>] using d(6) by blast
  qed
  moreover have "map fst (filter (\<lambda>x. fst x \<noteq> rid) (mq_version q)) = map fst (?F (mq_key_by_id q))"
    unfolding map_fst_filter d(5) ..
  ultimately show ?thesis
    unfolding mars_inv_def fields using d(1-3,7,9,10) by (auto simp: distinct_map_filter dest: d(8))
qed

lemma mars_iter_Nil: "mars_inv q \<Longrightarrow> mars_iter q = [] \<longleftrightarrow> mq_key_by_id q = []"
  using mars_iter_keys [of q] by (metis map_is_Nil_conv set_empty set_sort)

lemma mars_front:
  assumes inv: "mars_inv q" and it: "mars_iter q = r # rs"
  obtains h k v where "mars_purge q = Inr (q\<lparr>mq_heap := h\<rparr>)" "mars_inv (q\<lparr>mq_heap := h\<rparr>)" "h \<noteq> []"
    "h ! 0 = key_entry r k v" "sort_key snd (mq_key_by_id q) = (r, k) # tl (sort_key snd (mq_key_by_id q))"
    "map_of (mq_requests q) r = Some r"
proof -
  have ne: "mq_key_by_id q \<noteq> []" using mars_iter_Nil [OF inv] it by auto
  from mars_purge_correct [OF inv] ne it obtain h k v where h: "mars_purge q = Inr (q\<lparr>mq_heap := h\<rparr>)"
    "mars_inv (q\<lparr>mq_heap := h\<rparr>)" "h \<noteq> []" "h ! 0 = key_entry r k v" "(r, k) = hd (sort_key snd (mq_key_by_id q))"
    by auto
  have sne: "sort_key snd (mq_key_by_id q) \<noteq> []" using ne by (metis set_empty set_sort)
  then have s: "sort_key snd (mq_key_by_id q) = (r, k) # tl (sort_key snd (mq_key_by_id q))"
    using h(5) by (metis list.collapse)
  then have "(r, k) \<in> set (mq_key_by_id q)" by (metis list.set_intros(1) set_sort)
  then have "map_of (mq_requests q) r = Some r" using mars_requests_lookup [OF inv] by force
  with h s show ?thesis using that by blast
qed

lemma mars_pop:
  assumes inv: "mars_inv q" and it: "mars_iter q = r # rs"
  shows "\<exists>q'. mars_pop_request q = Inr (r, q') \<and> mars_inv q' \<and> mars_iter q' = rs"
proof -
  from mars_front [OF inv it] obtain h k v where f: "mars_purge q = Inr (q\<lparr>mq_heap := h\<rparr>)"
    "mars_inv (q\<lparr>mq_heap := h\<rparr>)" "h \<noteq> []" "h ! 0 = key_entry r k v"
    "sort_key snd (mq_key_by_id q) = (r, k) # tl (sort_key snd (mq_key_by_id q))" "map_of (mq_requests q) r = Some r" .
  have hp: "is_heap (\<lambda>e. e) h" "distinct (map entry_id h)" using mars_invD(1,2) [OF f(2)] by simp_all
  from heappop_correct [OF hp(1) f(3) mars_orders] obtain h1 where h1: "heappop mars_lt h = Inr (h ! 0, h1)"
    "is_heap (\<lambda>e. e) h1" "add_mset (h ! 0) (mset h1) = mset h" by blast
  let ?q = "mars_remove_request r (q\<lparr>mq_heap := h\<rparr>)"
  have inv1: "mars_inv ?q" using f(2) by (rule mars_remove_inv)
  have keep: "\<forall>e\<in>set (mq_heap ?q). live_entry ?q e \<longrightarrow> e \<in> set h1"
  proof (intro ballI impI)
    fix e assume e: "e \<in> set (mq_heap ?q)" "live_entry ?q e"
    then obtain rid k' v' where m: "(rid, k') \<in> set (mq_key_by_id ?q)" "e = key_entry rid k' v'"
      using live_entry_iff [OF inv1] by blast
    then have "rid \<noteq> r" by (simp add: mars_remove_request_def AList_delete_filter)
    then have "e \<noteq> h ! 0" using m(2) f(4) by (metis entry_id_key_entry)
    moreover have "e \<in># add_mset (h ! 0) (mset h1)"
      using e(1) unfolding h1(3) by (simp add: mars_remove_request_def)
    ultimately show "e \<in> set h1" by simp
  qed
  have "mset h1 \<subseteq># mset (mq_heap ?q)"
    using h1(3) by (simp add: mars_remove_request_def flip: h1(3))
  from mars_inv_subheap [OF inv1 h1(2) this keep] have inv2: "mars_inv (?q\<lparr>mq_heap := h1\<rparr>)" .
  have "mars_pop_request q = Inr (r, ?q\<lparr>mq_heap := h1\<rparr>)"
    using f h1(1) by (simp add: mars_pop_request_def key_entry_def)
  moreover have "mars_iter (?q\<lparr>mq_heap := h1\<rparr>) = rs"
  proof -
    have "sort_key snd (AList.delete r (mq_key_by_id q)) = tl (sort_key snd (mq_key_by_id q))"
      using f(5) mars_invD(3) [OF inv] mars_keys_inj [OF inv] by (rule sort_key_delete_front)
    moreover have "rs = map fst (tl (sort_key snd (mq_key_by_id q)))"
      using it mars_iter_keys [OF inv] by (metis list.sel(3) map_tl)
    ultimately show ?thesis unfolding mars_iter_keys [OF inv2] by (simp add: mars_remove_request_def)
  qed
  ultimately show ?thesis using inv2 by blast
qed

lemma mars_peek:
  assumes inv: "mars_inv q" and it: "mars_iter q = r # rs"
  shows "\<exists>q'. mars_peek_request q = Inr (r, q') \<and> mars_inv q' \<and> mars_iter q' = mars_iter q"
proof -
  from mars_front [OF inv it] obtain h k v where f: "mars_purge q = Inr (q\<lparr>mq_heap := h\<rparr>)"
    "mars_inv (q\<lparr>mq_heap := h\<rparr>)" "h \<noteq> []" "h ! 0 = key_entry r k v" "map_of (mq_requests q) r = Some r" .
  then have "mars_peek_request q = Inr (r, q\<lparr>mq_heap := h\<rparr>)" by (simp add: mars_peek_request_def key_entry_def)
  with f(2) show ?thesis by (auto simp: mars_iter_def)
qed

lemma mars_pop_empty: "mars_inv q \<Longrightarrow> mars_iter q = [] \<Longrightarrow> mars_pop_request q = Inl IndexError"
  using mars_purge_correct [of q] mars_iter_Nil [of q] by (auto simp: mars_pop_request_def)

lemma mars_remove_iter:
  "mars_inv q \<Longrightarrow> mars_iter (mars_remove_request rid q) = filter (\<lambda>r. r \<noteq> rid) (mars_iter q)"
  using mars_iter_keys [OF mars_remove_inv, of q rid] mars_iter_keys [of q]
  by (simp add: mars_remove_request_def AList_delete_filter map_fst_filter flip: filter_sort)

lemma AList_update_fresh: "k \<notin> fst ` set xs \<Longrightarrow> AList.update k v xs = xs @ [(k, v)]"
  by (induction xs) auto

text \<open>No entry of the heap, live or stale, belongs to the request.\<close>

definition mars_fresh :: "req_ref \<Rightarrow> mars_queue \<Rightarrow> bool" where
  "mars_fresh rid q \<longleftrightarrow> rid \<notin> entry_id ` set (mq_heap q)"

lemma mars_fresh_keys: "mars_inv q \<Longrightarrow> mars_fresh rid q \<Longrightarrow> rid \<notin> fst ` set (mq_key_by_id q)"
  using mars_invD(6) [of q rid] by (force simp: mars_fresh_def)

lemma mars_push_fresh:
  assumes inv: "mars_inv q" and fr: "mars_fresh rid q"
    and new: "n \<notin> key_order ` set (mq_key_by_id q)" "mq_seq q \<le> sq" "ps \<le> mq_prepend_seq q" "0 \<le> level"
      "0 < n \<and> n \<le> sq \<or> ps \<le> n \<and> n < 0 \<and> level = 0"
  shows "\<exists>q'. mars_push rid a level n (q\<lparr>mq_seq := sq, mq_prepend_seq := ps\<rparr>) = Inr q' \<and> mars_inv q' \<and>
    mq_key_by_id q' = mq_key_by_id q @ [(rid, level, n, a)]"
proof -
  note d = mars_invD [OF inv]
  let ?k = "(level, n, a)"
  have nk: "rid \<notin> fst ` set (mq_key_by_id q)" using mars_fresh_keys [OF inv fr] .
  then have nv: "rid \<notin> fst ` set (mq_version q)" "rid \<notin> fst ` set (mq_requests q)"
    using arg_cong [OF d(5), of set] d(4) by force+
  then have v0: "map_of (mq_version q) rid = None" by (simp add: map_of_eq_None_iff)
  from heappush_correct [OF d(1) mars_orders] obtain h where h: "heappush mars_lt (mq_heap q) (key_entry rid ?k 1) = Inr h"
    "is_heap (\<lambda>e. e) h" "mset h = add_mset (key_entry rid ?k 1) (mset (mq_heap q))" by blast
  define q' where "q' = q\<lparr>mq_heap := h, mq_version := mq_version q @ [(rid, 1)], mq_requests := mq_requests q @ [(rid, rid)],
      mq_key_by_id := mq_key_by_id q @ [(rid, ?k)], mq_seq := sq, mq_prepend_seq := ps\<rparr>"
  have run: "mars_push rid a level n (q\<lparr>mq_seq := sq, mq_prepend_seq := ps\<rparr>) = Inr q'"
    using h(1) by (simp add: mars_push_def v0 key_entry_def AList_update_fresh nk nv q'_def)
  have set_h: "set h = insert (key_entry rid ?k 1) (set (mq_heap q))" using h(3) by (metis set_mset_add_mset_insert set_mset_mset)
  have "mset (map entry_id h) = mset (rid # map entry_id (mq_heap q))" using h(3) by simp
  moreover have "distinct (rid # map entry_id (mq_heap q))" using d(2) fr by (simp add: mars_fresh_def)
  ultimately have dh: "distinct (map entry_id h)" by (metis distinct_submset subset_mset.order_refl)
  have ent: "\<forall>(r, k)\<in>set (mq_key_by_id q'). \<exists>v. map_of (mq_version q') r = Some v \<and> key_entry r k v \<in> set (mq_heap q')"
  proof clarify
    fix r k1 k2 k3 assume "(r, k1, k2, k3) \<in> set (mq_key_by_id q')"
    then consider "(r, k1, k2, k3) \<in> set (mq_key_by_id q)" | "(r, k1, k2, k3) = (rid, ?k)" by (auto simp: q'_def)
    then show "\<exists>v. map_of (mq_version q') r = Some v \<and> key_entry r (k1, k2, k3) v \<in> set (mq_heap q')"
    proof cases
      case 1
      from d(6) [OF 1] show ?thesis by (auto simp: q'_def set_h map_add_Some_iff)
    next
      case 2
      then show ?thesis using v0 by (auto simp: q'_def set_h map_add_def)
    qed
  qed
  have bnd: "\<forall>(r, l, m, b)\<in>set (mq_key_by_id q'). 0 \<le> l \<and> (0 < m \<and> m \<le> mq_seq q' \<or> mq_prepend_seq q' \<le> m \<and> m < 0 \<and> l = 0)"
    using new d(8) by (auto simp: q'_def) fastforce+
  have dk: "distinct (map fst (mq_key_by_id q'))" "distinct (map key_order (mq_key_by_id q'))"
    using d(3,7) nk new(1) by (auto simp: q'_def key_order_def)
  have "mars_inv q'"
    unfolding mars_inv_def using h(2) dh ent bnd dk d(4,5,9,10) new(2,3) by (simp add: q'_def)
  with run show ?thesis by (auto simp: q'_def)
qed

definition level_of :: "mars_queue \<Rightarrow> req_ref \<Rightarrow> int" where
  "level_of q rid = fst (the (map_of (mq_key_by_id q) rid))"

lemma level_of_key: "mars_inv q \<Longrightarrow> (rid, l, n, a) \<in> set (mq_key_by_id q) \<Longrightarrow> level_of q rid = l"
  using mars_invD(3) [of q] by (simp add: level_of_def map_of_is_SomeI)

lemma level_in_nonneg: "0 \<le> level_in ts n"
  by (induction ts n rule: level_in.induct) auto

text \<open>Sorting one more key in: behind every key of a level up to its own, before the rest.\<close>

lemma sort_key_snoc_level:
  fixes ks :: "(req_ref \<times> mars_key) list"
  assumes inj: "inj_on snd (set (ks @ [(rid, l, n, a)]))"
    and ord: "\<forall>(r, l', n', a')\<in>set ks. n' < n"
  shows "sort_key snd (ks @ [(rid, l, n, a)]) =
    filter (\<lambda>x. fst (snd x) \<le> l) (sort_key snd ks) @ (rid, l, n, a) # filter (\<lambda>x. l < fst (snd x)) (sort_key snd ks)"
    (is "_ = ?A @ ?x # ?B")
proof (rule sort_key_inj_key_eq [OF _ inj])
  have "mset ?A + mset ?B = mset ks"
    by (simp add: mset_filter not_le [symmetric] flip: multiset_partition)
  then show "mset (ks @ [(rid, l, n, a)]) = mset (?A @ ?x # ?B)" by simp
  have "\<forall>x\<in>set ?A. snd x \<le> (l, n, a)" using ord by (fastforce simp: less_eq_prod_def)
  moreover have "\<forall>x\<in>set ?B. (l, n, a) \<le> snd x" by (auto simp: less_eq_prod_def)
  moreover have "\<forall>x\<in>set ?A. \<forall>y\<in>set ?B. snd x \<le> snd y" by (auto simp: less_eq_prod_def)
  ultimately show "sorted (map snd (?A @ ?x # ?B))"
    by (auto simp: sorted_append intro: sorted_filter)
qed

lemma mars_add_order:
  assumes inv: "mars_inv q" and fr: "mars_fresh (request_id r) q"
  shows "\<exists>q'. mars_add_request r q = Inr q' \<and> mars_inv q' \<and>
    mars_iter q' = filter (\<lambda>x. level_of q x \<le> mars_get_level r q) (mars_iter q) @ request_id r #
      filter (\<lambda>x. mars_get_level r q < level_of q x) (mars_iter q)"
proof -
  note d = mars_invD [OF inv]
  let ?l = "mars_get_level r q" and ?n = "mq_seq q + 1" and ?id = "request_id r" and ?a = "arrival_time r"
  have old: "\<forall>(r, l', n', a')\<in>set (mq_key_by_id q). n' < ?n" using d(8) d(9) by fastforce
  then have "?n \<notin> key_order ` set (mq_key_by_id q)" by (force simp: key_order_def)
  moreover have "0 \<le> ?l" by (simp add: mars_get_level_def level_in_nonneg)
  ultimately obtain q' where q': "mars_push ?id ?a ?l ?n (q\<lparr>mq_seq := ?n, mq_prepend_seq := mq_prepend_seq q\<rparr>) = Inr q'"
    "mars_inv q'" "mq_key_by_id q' = mq_key_by_id q @ [(?id, ?l, ?n, ?a)]"
    using mars_push_fresh [OF inv fr, of ?n ?n "mq_prepend_seq q" ?l ?a] d(9) by force
  have lv: "filter (\<lambda>x. P (fst (snd x))) (sort_key snd (mq_key_by_id q)) =
      filter (\<lambda>x. P (level_of q (fst x))) (sort_key snd (mq_key_by_id q))" for P
    by (rule filter_cong [OF refl]) (auto simp: level_of_key [OF inv])
  have "sort_key snd (mq_key_by_id q @ [(?id, ?l, ?n, ?a)]) =
      filter (\<lambda>x. fst (snd x) \<le> ?l) (sort_key snd (mq_key_by_id q)) @ (?id, ?l, ?n, ?a) #
      filter (\<lambda>x. ?l < fst (snd x)) (sort_key snd (mq_key_by_id q))"
    using mars_keys_inj [OF q'(2)] old unfolding q'(3) by (rule sort_key_snoc_level)
  then have "mars_iter q' = map fst (filter (\<lambda>x. level_of q (fst x) \<le> ?l) (sort_key snd (mq_key_by_id q))) @ ?id #
      map fst (filter (\<lambda>x. ?l < level_of q (fst x)) (sort_key snd (mq_key_by_id q)))"
    unfolding mars_iter_keys [OF q'(2)] q'(3) by (simp add: lv [of "\<lambda>y. y \<le> ?l"] lv [of "\<lambda>y. ?l < y"])
  then have "mars_iter q' = filter (\<lambda>x. level_of q x \<le> ?l) (mars_iter q) @ ?id # filter (\<lambda>x. ?l < level_of q x) (mars_iter q)"
    by (simp add: mars_iter_keys [OF inv] filter_map comp_def)
  moreover have "mars_add_request r q = Inr q'" using q'(1) by (simp add: mars_add_request_def)
  ultimately show ?thesis using q'(2) by blast
qed

lemma mars_prepend_front:
  assumes inv: "mars_inv q" and fr: "mars_fresh (request_id r) q"
  shows "\<exists>q'. mars_prepend_request r q = Inr q' \<and> mars_inv q' \<and> mars_iter q' = request_id r # mars_iter q"
proof -
  note d = mars_invD [OF inv]
  let ?n = "mq_prepend_seq q - 1" and ?id = "request_id r" and ?a = "arrival_time r"
  have old: "?n < n' \<and> 0 \<le> l'" if "(r, l', n', a') \<in> set (mq_key_by_id q)" for r l' n' a'
    using d(8) [OF that] d(10) by linarith
  then have "?n \<notin> key_order ` set (mq_key_by_id q)" by (force simp: key_order_def)
  then obtain q' where q': "mars_push ?id ?a 0 ?n (q\<lparr>mq_seq := mq_seq q, mq_prepend_seq := ?n\<rparr>) = Inr q'"
    "mars_inv q'" "mq_key_by_id q' = mq_key_by_id q @ [(?id, 0, ?n, ?a)]"
    using mars_push_fresh [OF inv fr, of ?n "mq_seq q" ?n 0 ?a] d(10) by force
  have "sort_key snd (mq_key_by_id q') = (?id, 0, ?n, ?a) # sort_key snd (mq_key_by_id q)"
  proof (rule sort_key_inj_key_eq [OF _ mars_keys_inj [OF q'(2)]])
    have "\<forall>x\<in>set (mq_key_by_id q). (0, ?n, ?a) \<le> snd x" using old by (fastforce simp: less_eq_prod_def)
    then show "sorted (map snd ((?id, 0, ?n, ?a) # sort_key snd (mq_key_by_id q)))" by simp
  qed (simp add: q'(3))
  then have "mars_iter q' = ?id # mars_iter q" by (simp add: mars_iter_keys [OF q'(2)] mars_iter_keys [OF inv])
  moreover have "mars_prepend_request r q = Inr q'" using q'(1) by (simp add: mars_prepend_request_def)
  ultimately show ?thesis using q'(2) by blast
qed

lemma mars_prepend_fresh:
  assumes "mars_prepend_request r q = Inr q'" and "mars_fresh x q" and "x \<noteq> request_id r"
  shows "mars_fresh x q'"
proof -
  from assms(1) obtain e where e: "heappush mars_lt (mq_heap q) e = Inr (mq_heap q')" "entry_id e = request_id r"
    by (auto simp: mars_prepend_request_def mars_push_def Let_def entry_id_def split: option.splits)
  from siftdown_mset [OF e(1) [unfolded heappush_def]] have "mset (mq_heap q') = add_mset e (mset (mq_heap q))" by simp
  then have "set (mq_heap q') = insert e (set (mq_heap q))" by (metis set_mset_add_mset_insert set_mset_mset)
  then show ?thesis using assms(2,3) e(2) by (simp add: mars_fresh_def)
qed

lemma MarsRequestQueue_inv: "mars_inv MarsRequestQueue"
  by (simp add: mars_inv_def MarsRequestQueue_def is_heap_def edges_ok_def)

interpretation mars: waiting_queue mars_inv mars_iter request_id "\<lambda>r. mars_fresh (request_id r)"
  mars_add_request mars_pop_request mars_peek_request
proof unfold_locales
  fix q and r :: request assume "mars_inv q" "mars_fresh (request_id r) q"
  from mars_add_order [OF this] show "\<exists>q'. mars_add_request r q = Inr q' \<and> mars_inv q' \<and>
      mset (mars_iter q') = add_mset (request_id r) (mset (mars_iter q))"
    by (auto simp: mset_filter not_le [symmetric] simp flip: multiset_partition)
qed (simp_all add: mars_pop mars_pop_empty, metis mars_peek)

subsection \<open>Continuum\<close>

lemma earliest_min:
  assumes "earliest time best rs = Some (r, t)" and "\<forall>b u. best = Some (b, u) \<longrightarrow> u = time b"
  shows "t = time r \<and> (best = Some (r, t) \<or> r \<in> set rs) \<and> (\<forall>x\<in>set rs. time r \<le> time x) \<and>
    (\<forall>b u. best = Some (b, u) \<longrightarrow> time r \<le> u)"
  using assms
proof (induction time best rs rule: earliest.induct)
  case (1 time best)
  then show ?case by simp
next
  case (2 time best x rs)
  let ?b = "case best of None \<Rightarrow> Some (x, time x) | Some (b, t) \<Rightarrow> if time x < t then Some (x, time x) else best"
  have ok: "\<forall>b u. ?b = Some (b, u) \<longrightarrow> u = time b" using "2.prems"(2) by (auto split: option.splits)
  have e: "earliest time ?b rs = Some (r, t)" using "2.prems"(1) by simp
  from "2.IH" [OF e ok] show ?case by (auto split: option.splits if_splits)
qed

lemma earliest_None: "earliest time best rs = None \<longleftrightarrow> best = None \<and> rs = []"
  by (induction time best rs rule: earliest.induct) (auto split: option.splits)

section \<open>Properties\<close>

text \<open>A MARS queue under any calls in which a request is not queued again while an entry of it is in the heap.\<close>

inductive mars_reach :: "mars_queue \<Rightarrow> bool" where
  mreach_new: "mars_reach MarsRequestQueue"
| mreach_add: "mars_reach q \<Longrightarrow> mars_fresh (request_id r) q \<Longrightarrow> mars_add_request r q = Inr q' \<Longrightarrow> mars_reach q'"
| mreach_prepend: "mars_reach q \<Longrightarrow> mars_fresh (request_id r) q \<Longrightarrow> mars_prepend_request r q = Inr q' \<Longrightarrow> mars_reach q'"
| mreach_pop: "mars_reach q \<Longrightarrow> mars_pop_request q = Inr (x, q') \<Longrightarrow> mars_reach q'"
| mreach_peek: "mars_reach q \<Longrightarrow> mars_peek_request q = Inr (x, q') \<Longrightarrow> mars_reach q'"
| mreach_remove: "mars_reach q \<Longrightarrow> mars_reach (mars_remove_request rid q)"

lemma mars_peek_empty: "mars_inv q \<Longrightarrow> mars_iter q = [] \<Longrightarrow> mars_peek_request q = Inl IndexError"
  using mars_purge_correct [of q] mars_iter_Nil [of q] by (auto simp: mars_peek_request_def)

lemma mars_reach_inv: "mars_reach q \<Longrightarrow> mars_inv q"
proof (induction rule: mars_reach.induct)
  case (mreach_add q r q')
  then show ?case using mars_add_order [of q r] by auto
next
  case (mreach_prepend q r q')
  then show ?case using mars_prepend_front [of q r] by auto
next
  case (mreach_pop q x q')
  then show ?case using mars_pop [of q] mars_pop_empty [of q] by (cases "mars_iter q") fastforce+
next
  case (mreach_peek q x q')
  then show ?case using mars_peek [of q] mars_peek_empty [of q] by (cases "mars_iter q") fastforce+
qed (simp_all add: MarsRequestQueue_inv mars_remove_inv)

text \<open>
  C21: the MARS queue is a tiered queue. In every reachable queue, peek and pop return the request
  iteration shows first and pop leaves the rest in order; an added request goes behind every
  request of its own or a higher tier and before all lower tiers; a prepended request goes first;
  removing a request keeps the order of the others. None of these calls raises except on an empty
  queue.
\<close>

theorem mars_queue_policy:
  assumes "mars_reach q"
  shows "(case mars_iter q of
       [] \<Rightarrow> mars_pop_request q = Inl IndexError \<and> mars_peek_request q = Inl IndexError
     | x # xs \<Rightarrow> (\<exists>q'. mars_pop_request q = Inr (x, q') \<and> mars_iter q' = xs) \<and>
         (\<exists>q'. mars_peek_request q = Inr (x, q') \<and> mars_iter q' = x # xs)) \<and>
    (\<forall>r. mars_fresh (request_id r) q \<longrightarrow>
       (\<exists>q'. mars_add_request r q = Inr q' \<and> mars_iter q' =
          filter (\<lambda>x. level_of q x \<le> mars_get_level r q) (mars_iter q) @ request_id r #
          filter (\<lambda>x. mars_get_level r q < level_of q x) (mars_iter q)) \<and>
       (\<exists>q'. mars_prepend_request r q = Inr q' \<and> mars_iter q' = request_id r # mars_iter q)) \<and>
    (\<forall>rid. mars_iter (mars_remove_request rid q) = filter (\<lambda>x. x \<noteq> rid) (mars_iter q))"
proof -
  have inv: "mars_inv q" using assms by (rule mars_reach_inv)
  have front: "case mars_iter q of
       [] \<Rightarrow> mars_pop_request q = Inl IndexError \<and> mars_peek_request q = Inl IndexError
     | x # xs \<Rightarrow> (\<exists>q'. mars_pop_request q = Inr (x, q') \<and> mars_iter q' = xs) \<and>
         (\<exists>q'. mars_peek_request q = Inr (x, q') \<and> mars_iter q' = x # xs)"
  proof (cases "mars_iter q")
    case Nil
    then show ?thesis using mars_pop_empty [OF inv] mars_peek_empty [OF inv] by simp
  next
    case (Cons x xs)
    then show ?thesis using mars_pop [OF inv Cons] mars_peek [OF inv Cons] by auto
  qed
  show ?thesis
    by (intro conjI front allI impI mars_remove_iter [OF inv])
      (use mars_add_order [OF inv] mars_prepend_front [OF inv] in blast)+
qed

theorem mars_queue_policy_witness:
  "\<exists>q. mars_add_request (text_request ''a'' [1, 2]) MarsRequestQueue = Inr q \<and>
     mars_iter q = [''a''] \<and> mars_iter (mars_remove_request ''a'' q) = []"
proof -
  have f: "mars_fresh ''a'' MarsRequestQueue" by (simp add: mars_fresh_def MarsRequestQueue_def)
  have i: "mars_iter MarsRequestQueue = []" by (simp add: mars_iter_def MarsRequestQueue_def)
  have r: "request_id (text_request ''a'' [1, 2]) = ''a''" by (simp add: text_request_def)
  from mars_queue_policy [OF mreach_new] f i obtain q where
    q: "mars_add_request (text_request ''a'' [1, 2]) MarsRequestQueue = Inr q" "mars_iter q = [''a'']"
    by (metis append_Nil filter.simps(1) r)
  have "mars_reach q" using mreach_add [OF mreach_new _ q(1)] f r by simp
  from mars_queue_policy [OF this] q show ?thesis by simp
qed

text \<open>
  C22: no starvation by the queue itself: a request added to a reachable MARS queue is handed out
  after at most as many further pops as there were requests waiting.
\<close>

theorem mars_added_is_served:
  assumes "mars_reach q" and "mars_fresh (request_id r) q"
  shows "\<exists>q1. mars_add_request r q = Inr q1 \<and> (\<exists>k rs q2. k \<le> length (mars_iter q) \<and>
    pop_times mars_pop_request (Suc k) q1 = Inr (rs, q2) \<and> last rs = request_id r)"
  using mars.added_is_served [OF mars_reach_inv [OF assms(1)]] assms(2) by simp

theorem mars_added_is_served_witness:
  "\<exists>q1 rs q2. mars_add_request (text_request ''a'' [1, 2]) MarsRequestQueue = Inr q1 \<and>
    pop_times mars_pop_request (Suc 0) q1 = Inr (rs, q2) \<and> last rs = ''a''"
proof -
  have f: "mars_fresh (request_id (text_request ''a'' [1, 2])) MarsRequestQueue"
    by (simp add: mars_fresh_def MarsRequestQueue_def)
  have "mars_iter MarsRequestQueue = []" by (simp add: mars_iter_def MarsRequestQueue_def)
  with mars_added_is_served [OF mreach_new f] show ?thesis by (auto simp: text_request_def)
qed

text \<open>In a reachable queue every current version is 1: no request is pushed while an entry of it is there.\<close>

lemma mars_push_versions:
  assumes "mars_push rid a l n q = Inr q'" and "map_of (mq_version q) rid = None" and "\<forall>y v. map_of (mq_version q) y = Some v \<longrightarrow> v = 1"
  shows "\<forall>y v. map_of (mq_version q') y = Some v \<longrightarrow> v = 1"
  using assms by (auto simp: mars_push_def update_conv' split: if_splits)

lemma mars_fresh_version: "mars_inv q \<Longrightarrow> mars_fresh rid q \<Longrightarrow> map_of (mq_version q) rid = None"
  using mars_fresh_keys [of q rid] arg_cong [OF mars_invD(5) [of q], of set] by (force simp: map_of_eq_None_iff)

lemma mars_reach_versions: "mars_reach q \<Longrightarrow> \<forall>y v. map_of (mq_version q) y = Some v \<longrightarrow> v = 1"
proof (induction rule: mars_reach.induct)
  case (mreach_add q r q')
  then show ?case using mars_fresh_version [OF mars_reach_inv] by (auto simp: mars_add_request_def dest!: mars_push_versions)
next
  case (mreach_prepend q r q')
  then show ?case using mars_fresh_version [OF mars_reach_inv] by (auto simp: mars_prepend_request_def dest!: mars_push_versions)
next
  case (mreach_pop q x q')
  then show ?case
    by (auto simp: mars_pop_request_def mars_purge_def mars_remove_request_def AList.delete_conv' split: if_splits option.splits)
next
  case (mreach_peek q x q')
  then show ?case by (auto simp: mars_peek_request_def mars_purge_def split: if_splits option.splits prod.splits)
qed (auto simp: MarsRequestQueue_def mars_remove_request_def AList.delete_conv')

text \<open>Removing the first request and queueing it again: the dictionaries are those of a fresh push, the heap has one entry more.\<close>

lemma mars_readd_push:
  fixes r :: request
  assumes inv: "mars_inv q" and x: "request_id r = x"
  defines "k \<equiv> (mars_get_level r q, mq_seq q + 1, arrival_time r)" and "q1 \<equiv> mars_remove_request x q"
  shows "\<exists>h q'. mars_add_request r q1 = Inr q' \<and> mq_heap q' = h \<and> is_heap (\<lambda>e. e) h \<and> set h = insert (key_entry x k 1) (set (mq_heap q)) \<and>
    mq_version q' = mq_version q1 @ [(x, 1)] \<and> mq_requests q' = mq_requests q1 @ [(x, x)] \<and> mq_key_by_id q' = mq_key_by_id q1 @ [(x, k)]"
proof -
  have no: "x \<notin> fst ` set (mq_version q1)" "x \<notin> fst ` set (mq_requests q1)" "x \<notin> fst ` set (mq_key_by_id q1)"
    by (auto simp: q1_def mars_remove_request_def AList_delete_filter)
  have eq: "mq_heap q1 = mq_heap q" "mq_seq q1 = mq_seq q" "mars_get_level r q1 = mars_get_level r q"
    by (simp_all add: q1_def mars_remove_request_def mars_get_level_def)
  from heappush_correct [OF mars_invD(1) [OF inv] mars_orders] obtain h where h: "heappush mars_lt (mq_heap q) (key_entry x k 1) = Inr h"
    "is_heap (\<lambda>e. e) h" "mset h = add_mset (key_entry x k 1) (mset (mq_heap q))" by blast
  have "set h = insert (key_entry x k 1) (set (mq_heap q))" using h(3) by (metis set_mset_add_mset_insert set_mset_mset)
  moreover have "map_of (mq_version q1) x = None" using no(1) by (simp add: map_of_eq_None_iff)
  ultimately show ?thesis using h(1,2) no eq x
    by (simp add: mars_add_request_def mars_push_def AList_update_fresh k_def key_entry_def)
qed

lemma mars_first_key:
  assumes inv: "mars_inv q" and it: "mars_iter q = x # xs"
  obtains k where "(x, k) \<in> set (mq_key_by_id q)" "\<forall>y\<in>set (mq_key_by_id q). k \<le> snd y"
    "sort_key snd (AList.delete x (mq_key_by_id q)) = tl (sort_key snd (mq_key_by_id q))" "map fst (tl (sort_key snd (mq_key_by_id q))) = xs"
proof -
  from mars_front [OF inv it] obtain k where s: "sort_key snd (mq_key_by_id q) = (x, k) # tl (sort_key snd (mq_key_by_id q))" by metis
  have "sorted (map snd (sort_key snd (mq_key_by_id q)))" by simp
  then have "\<forall>y\<in>set (sort_key snd (mq_key_by_id q)). k \<le> snd y" by (subst (asm) s, subst s) auto
  moreover have "(x, k) \<in> set (mq_key_by_id q)" using s by (metis list.set_intros(1) set_sort)
  ultimately show ?thesis
    using that [of k] sort_key_delete_front [OF s mars_invD(3) [OF inv] mars_keys_inj [OF inv]] it mars_iter_keys [OF inv]
    by (auto simp: map_tl)
qed

lemma mars_readd_pops_stale:
  assumes inv: "mars_inv q" and one: "\<forall>y v. map_of (mq_version q) y = Some v \<longrightarrow> v = 1" and it: "mars_iter q = x # xs"
    and h: "is_heap (\<lambda>e. e) (mq_heap q')" "set (mq_heap q') = insert (key_entry x k' 1) (set (mq_heap q))"
    and v: "mq_version q' = mq_version (mars_remove_request x q) @ [(x, 1)]"
    and r: "mq_requests q' = mq_requests (mars_remove_request x q) @ [(x, x)]"
  shows "\<exists>q''. mars_pop_request q' = Inr (x, q'')"
proof -
  from mars_first_key [OF inv it] obtain k where k: "(x, k) \<in> set (mq_key_by_id q)" "\<forall>y\<in>set (mq_key_by_id q). k \<le> snd y" .
  from mars_invD(6) [OF inv k(1)] one have stale: "key_entry x k 1 \<in> set (mq_heap q')" using h(2) by fastforce
  have vx: "map_of (mq_version q') x = Some 1" "map_of (mq_requests q') x = Some x"
    using v r by (auto simp: mars_remove_request_def map_add_def AList.delete_conv')
  have vy: "map_of (mq_version q') y = map_of (mq_version q) y" "map_of (mq_requests q') y = map_of (mq_requests q) y" if "y \<noteq> x" for y
    using that v r by (auto simp: mars_remove_request_def map_add_def AList.delete_conv' split: option.splits)
  from purge_heap_correct [OF h(1), of "live_entry q'"] obtain g where
    g: "purge_heap (live_entry q') (mq_heap q') = Inr g" "is_heap (\<lambda>e. e) g" "mset g \<subseteq># mset (mq_heap q')"
      "\<forall>e\<in>set (mq_heap q'). live_entry q' e \<longrightarrow> e \<in> set g" "g = [] \<or> live_entry q' (g ! 0)" by blast
  have "live_entry q' (key_entry x k 1)" using vx by (simp add: live_entry_def key_entry_def)
  with g(4) stale have in_g: "key_entry x k 1 \<in> set g" by blast
  then have ne: "g \<noteq> []" by auto
  have le: "g ! 0 \<le> key_entry x k 1" using in_g heap_front_min [OF g(2)] by (metis in_set_conv_nth)
  have live: "live_entry q' (g ! 0)" using g(5) ne by simp
  have mem: "g ! 0 \<in> set (mq_heap q')" using g(3) ne by (metis nth_mem length_greater_0_conv mset_subset_eqD set_mset_mset)
  have id: "entry_id (g ! 0) = x"
  proof (rule ccontr)
    assume y: "entry_id (g ! 0) \<noteq> x"
    then have "g ! 0 \<in> set (mq_heap q)" using mem h(2) by (metis entry_id_key_entry insertE)
    moreover have "live_entry q (g ! 0)" using live vy y by (cases "g ! 0") (simp add: live_entry_def entry_id_def)
    ultimately obtain y k2 w where e: "(y, k2) \<in> set (mq_key_by_id q)" "g ! 0 = key_entry y k2 w" using live_entry_iff [OF inv] by blast
    then have "k2 \<le> k" "k \<le> k2" using le key_entry_le k(2) by (metis, fastforce)
    then have "(y, k2) = (x, k)" using inj_onD [OF mars_keys_inj [OF inv] _ e(1) k(1)] by simp
    then show False using y e(2) by simp
  qed
  from heappop_correct [OF g(2) ne mars_orders] obtain g1 where "heappop mars_lt g = Inr (g ! 0, g1)" by blast
  then show ?thesis using g(1) ne id vx(2) by (cases "g ! 0") (simp add: mars_pop_request_def mars_purge_def entry_id_def)
qed

text \<open>
  C23: queueing a request again after it was removed resurrects its old heap entry. Removal forgets the version, so
  the new push reuses version 1 and the stale entry counts as live again. Whatever a reachable queue holds, if its
  first request is removed and then queued again, iteration shows it behind every request of its own or a higher
  tier, and yet it is still the one that is popped next.
\<close>

theorem mars_readd_resurrects_stale_entry:
  fixes r :: request
  assumes "mars_reach q" and "mars_iter q = x # xs" and "request_id r = x"
  shows "\<exists>q' q''. mars_add_request r (mars_remove_request x q) = Inr q' \<and>
    mars_iter q' = filter (\<lambda>y. level_of q y \<le> mars_get_level r q) xs @ x # filter (\<lambda>y. mars_get_level r q < level_of q y) xs \<and>
    mars_pop_request q' = Inr (x, q'')"
proof -
  let ?q1 = "mars_remove_request x q" and ?l = "mars_get_level r q" and ?n = "mq_seq q + 1" and ?a = "arrival_time r"
  have inv: "mars_inv q" using assms(1) by (rule mars_reach_inv)
  have inv1: "mars_inv ?q1" using inv by (rule mars_remove_inv)
  from mars_readd_push [OF inv assms(3)] obtain q' where p: "mars_add_request r ?q1 = Inr q'" "is_heap (\<lambda>e. e) (mq_heap q')"
    "set (mq_heap q') = insert (key_entry x (?l, ?n, ?a) 1) (set (mq_heap q))" "mq_version q' = mq_version ?q1 @ [(x, 1)]"
    "mq_requests q' = mq_requests ?q1 @ [(x, x)]" "mq_key_by_id q' = mq_key_by_id ?q1 @ [(x, ?l, ?n, ?a)]" by blast
  from mars_first_key [OF inv assms(2)] have s: "sort_key snd (mq_key_by_id ?q1) = tl (sort_key snd (mq_key_by_id q))"
    "map fst (tl (sort_key snd (mq_key_by_id q))) = xs" by (auto simp: mars_remove_request_def)
  have old: "\<forall>(y, l', n', a')\<in>set (mq_key_by_id ?q1). n' < ?n"
    using mars_invD(8) [OF inv1] mars_invD(9) [OF inv] by (fastforce simp: mars_remove_request_def)
  have inj: "inj_on snd (set (mq_key_by_id ?q1 @ [(x, ?l, ?n, ?a)]))" using mars_keys_inj [OF inv1] old by (fastforce simp: inj_on_def)
  have req: "mq_requests q' = map (\<lambda>(y, _). (y, y)) (mq_key_by_id q')" using mars_invD(4) [OF inv1] p(5,6) by simp
  have "map_of (map (\<lambda>(y, _). (y, y)) ks) z = (if z \<in> fst ` set ks then Some z else None)" for ks :: "(req_ref \<times> mars_key) list" and z
    by (induction ks) auto
  then have "mars_iter q' = map fst (sort_key snd (mq_key_by_id q'))" unfolding mars_iter_def req by (force intro!: map_cong)
  also have "\<dots> = map fst (filter (\<lambda>y. fst (snd y) \<le> ?l) (sort_key snd (mq_key_by_id ?q1))) @ x # map fst (filter (\<lambda>y. ?l < fst (snd y)) (sort_key snd (mq_key_by_id ?q1)))"
    unfolding p(6) sort_key_snoc_level [OF inj old] by simp
  also have "\<dots> = filter (\<lambda>y. level_of q y \<le> ?l) xs @ x # filter (\<lambda>y. ?l < level_of q y) xs"
  proof -
    have "filter (\<lambda>y. P (fst (snd y))) (sort_key snd (mq_key_by_id ?q1)) = filter (\<lambda>y. P (level_of q (fst y))) (sort_key snd (mq_key_by_id ?q1))" for P
      by (rule filter_cong [OF refl]) (auto simp: mars_remove_request_def AList_delete_filter level_of_key [OF inv])
    from this [of "\<lambda>y. y \<le> ?l"] this [of "\<lambda>y. ?l < y"] show ?thesis unfolding s(2) [symmetric] s(1) by (simp add: filter_map comp_def)
  qed
  finally have "mars_iter q' = filter (\<lambda>y. level_of q y \<le> ?l) xs @ x # filter (\<lambda>y. ?l < level_of q y) xs" .
  with p(1) mars_readd_pops_stale [OF inv mars_reach_versions [OF assms(1)] assms(2) p(2-5)] show ?thesis by blast
qed

theorem mars_readd_resurrects_stale_entry_witness:
  "\<exists>q q' q''. rfold mars_add_request [text_request ''a'' [1], text_request ''b'' [1]] MarsRequestQueue = Inr q \<and>
     mars_add_request (text_request ''a'' [1]) (mars_remove_request ''a'' q) = Inr q' \<and> mars_iter q' = [''b'', ''a''] \<and>
     mars_pop_request q' = Inr (''a'', q'')"
proof -
  let ?a = "text_request ''a'' [1]" and ?b = "text_request ''b'' [1]"
  have "rbind (mars_add_request ?a MarsRequestQueue) (\<lambda>q1. Inr (entry_id ` set (mq_heap q1))) = Inr {''a''}"
    "rbind (mars_add_request ?a MarsRequestQueue) (\<lambda>q1. rbind (mars_add_request ?b q1) (\<lambda>q2.
       Inr (mars_iter q2, level_of q2 ''b'', mars_get_level ?a q2))) = Inr ([''a'', ''b''], 0, 0)"
    by code_simp+
  then obtain q1 q2 where q: "mars_add_request ?a MarsRequestQueue = Inr q1" "entry_id ` set (mq_heap q1) = {''a''}"
    "mars_add_request ?b q1 = Inr q2" "mars_iter q2 = [''a'', ''b'']" "level_of q2 ''b'' = 0" "mars_get_level ?a q2 = 0" by auto
  have "mars_reach q1" by (rule mreach_add [OF mreach_new _ q(1)]) (simp add: mars_fresh_def MarsRequestQueue_def)
  then have "mars_reach q2" by (rule mreach_add [OF _ _ q(3)]) (simp add: mars_fresh_def q(2) text_request_def)
  from mars_readd_resurrects_stale_entry [OF this q(4), of ?a] q show ?thesis by (simp add: text_request_def)
qed

text \<open>
  C24: the priority queue serves by priority and then arrival time. Whatever sequence of requests
  with pairwise different (priority, arrival time) is added to an empty queue, adding never
  raises, and popping until the queue is empty returns exactly these requests sorted by
  (priority, arrival time).
\<close>

theorem prio_queue_sorts:
  assumes "distinct (map (\<lambda>r. (priority r, arrival_time r)) rs)"
  shows "\<exists>h h'. rfold prio_add_request rs [] = Inr h \<and>
    pop_times prio_pop_request (length rs) h = Inr (map request_id (sort_key (\<lambda>r. (priority r, arrival_time r)) rs), h')"
proof -
  let ?e = "\<lambda>r. (priority r, arrival_time r, request_id r)"
  have add: "\<exists>h. rfold prio_add_request rs h0 = Inr h \<and> prio_inv h \<and> mset h = mset (map ?e rs) + mset h0"
    if "prio_inv h0" "distinct (map (\<lambda>r. (priority r, arrival_time r)) rs)"
      "\<forall>r\<in>set rs. (priority r, arrival_time r) \<notin> prio_key ` set h0" for h0 and rs :: "request list"
    using that
  proof (induction rs arbitrary: h0)
    case Nil
    then show ?case by simp
  next
    case (Cons r rs)
    have "inj_on prio_key (insert (?e r) (set h0))"
      using Cons.prems by (auto simp: prio_inv_def prio_key_def)
    with heappush_correct [OF _ prio_orders [OF this]] Cons.prems(1) obtain h1 where
      h1: "prio_add_request r h0 = Inr h1" "is_heap prio_key h1" "mset h1 = add_mset (?e r) (mset h0)"
      by (auto simp: prio_inv_def prio_add_request_def)
    have s1: "set h1 = insert (?e r) (set h0)" using h1(3) by (metis set_mset_add_mset_insert set_mset_mset)
    with h1 \<open>inj_on prio_key (insert (?e r) (set h0))\<close> have "prio_inv h1" by (simp add: prio_inv_def)
    moreover have "\<forall>r\<in>set rs. (priority r, arrival_time r) \<notin> prio_key ` set h1"
      using Cons.prems(2,3) unfolding s1 by (auto simp: prio_key_def image_iff)
    ultimately show ?case using Cons.IH [of h1] Cons.prems(2) h1 by auto
  qed
  have "prio_inv []" by (simp add: prio_inv_def is_heap_def edges_ok_def)
  from add [OF this assms] obtain h where h: "rfold prio_add_request rs [] = Inr h" "prio_inv h" "mset h = mset (map ?e rs)" by auto
  have "sort_key prio_key h = map ?e (sort_key (\<lambda>r. (priority r, arrival_time r)) rs)"
  proof (rule sort_key_inj_key_eq)
    show "inj_on prio_key (set h)" using h(2) by (simp add: prio_inv_def)
    have "map prio_key (map ?e (sort_key (\<lambda>r. (priority r, arrival_time r)) rs)) =
        map (\<lambda>r. (priority r, arrival_time r)) (sort_key (\<lambda>r. (priority r, arrival_time r)) rs)"
      by (simp add: prio_key_def)
    then show "sorted (map prio_key (map ?e (sort_key (\<lambda>r. (priority r, arrival_time r)) rs)))" by (metis sorted_sort_key)
  qed (simp add: h(3))
  then have ord: "prio_order h = map request_id (sort_key (\<lambda>r. (priority r, arrival_time r)) rs)"
    by (simp add: prio_order_def prio_ref_def)
  have "length (prio_order h) = length rs" using ord by simp
  with prio.drain [OF h(2)] ord h(1) show ?thesis by auto
qed

theorem prio_queue_sorts_witness:
  "\<exists>h h'. rfold prio_add_request [text_request ''a'' [1], (text_request ''b'' [1])\<lparr>priority := -1\<rparr>] [] = Inr h \<and>
     pop_times prio_pop_request 2 h = Inr ([''b'', ''a''], h')"
  using prio_queue_sorts [of "[text_request ''a'' [1], (text_request ''b'' [1])\<lparr>priority := -1\<rparr>]"]
  by (auto simp: text_request_def numeral_2_eq_2)

text \<open>
  Two different requests with the same priority and arrival time cannot both be queued: the
  heap then compares the request objects, which have no order, and the second addition raises
  \<^verbatim>\<open>TypeError\<close>.
\<close>

lemma prio_queue_tie_raises:
  assumes "priority r = priority r'" "arrival_time r = arrival_time r'" "request_id r \<noteq> request_id r'"
  shows "\<exists>h. prio_add_request r [] = Inr h \<and> prio_add_request r' h = Inl TypeError"
  using assms by (simp add: prio_add_request_def heappush_def siftdown.simps parent_pos_def)

lemma prio_queue_tie_raises_witness:
  "\<exists>h. prio_add_request (text_request ''a'' [1]) [] = Inr h \<and> prio_add_request (text_request ''b'' [1]) h = Inl TypeError"
  by (rule prio_queue_tie_raises) (simp_all add: text_request_def)

text \<open>
  Putting back the requests a scheduling step skipped. The scheduler prepends each skipped
  request to a second queue and then prepends that queue: with the FCFS queue the skipped
  requests come back in the opposite of the order they were waiting in, with the MARS queue in
  the same order.
\<close>

lemma skipped_requests_order:
  assumes "mars_reach q" and "mars_reach sk" and "mars_iter sk = []" and "distinct (map request_id rs)"
    and "\<forall>r\<in>set rs. mars_fresh (request_id r) q \<and> mars_fresh (request_id r) sk"
  shows "fcfs_prepend_requests (fold fcfs_prepend_request ids []) w = rev ids @ w \<and>
    (\<exists>s q'. rfold mars_prepend_request rs sk = Inr s \<and> mars_iter s = rev (map request_id rs) \<and>
       mars_prepend_requests (rev rs) q = Inr q' \<and> mars_iter q' = map request_id rs @ mars_iter q)"
proof -
  have f: "fold fcfs_prepend_request ids d = rev ids @ d" for d ids
    by (induction ids arbitrary: d) (auto simp: fcfs_prepend_request_def)
  have m: "\<exists>q'. rfold mars_prepend_request rs q = Inr q' \<and> mars_iter q' = rev (map request_id rs) @ mars_iter q"
    if "mars_inv q" "distinct (map request_id rs)" "\<forall>r\<in>set rs. mars_fresh (request_id r) q" for q rs
    using that
  proof (induction rs arbitrary: q)
    case Nil
    then show ?case by simp
  next
    case (Cons r rs)
    from mars_prepend_front [of q r] Cons.prems obtain q1 where q1: "mars_prepend_request r q = Inr q1" "mars_inv q1"
      "mars_iter q1 = request_id r # mars_iter q" by auto
    have "mars_fresh (request_id x) q1" if "x \<in> set rs" for x
      using that Cons.prems(2,3) by (intro mars_prepend_fresh [OF q1(1)]) (auto simp: image_iff)
    with Cons.IH [OF q1(2)] Cons.prems(2) q1 show ?case by auto
  qed
  have "distinct (map request_id (rev rs))" using assms(4) by (metis distinct_rev rev_map)
  with m [of sk rs] m [of q "rev rs"] assms mars_reach_inv [of q] mars_reach_inv [of sk] show ?thesis
    by (auto simp: fcfs_prepend_requests_append f mars_prepend_requests_def rev_map)
qed

lemma skipped_requests_order_witness:
  "fcfs_prepend_requests (fold fcfs_prepend_request [''a'', ''b''] []) [''c''] = [''b'', ''a'', ''c''] \<and>
   (\<exists>q'. mars_prepend_requests (rev [text_request ''a'' [1], text_request ''b'' [1]]) MarsRequestQueue = Inr q' \<and>
      mars_iter q' = [''a'', ''b''])"
proof -
  have "mars_fresh x MarsRequestQueue" for x by (simp add: mars_fresh_def MarsRequestQueue_def)
  moreover have "mars_iter MarsRequestQueue = []" by (simp add: mars_iter_def MarsRequestQueue_def)
  ultimately show ?thesis
    using skipped_requests_order [OF mreach_new mreach_new, of "[text_request ''a'' [1], text_request ''b'' [1]]" "[''a'', ''b'']" "[''c'']"]
    by (auto simp: text_request_def)
qed

text \<open>
  C25: the Continuum queue prefers pinned jobs. Peeking a non-empty queue returns a queued request;
  if any queued request belongs to a pinned job, the returned one does, and no eligible request's
  job entered the queue earlier. Popping removes exactly this request.
\<close>

theorem cont_queue_policy:
  fixes obj :: "req_ref \<Rightarrow> request" and pinned :: "(req_ref \<times> real) list" and q :: cont_queue
  assumes "cq_deque q \<noteq> []"
  defines "pj \<equiv> set (map (\<lambda>(r, _). job_id (obj r)) pinned)"
  defines "el \<equiv> (if \<exists>r\<in>set (cq_deque q). job_id (obj r) \<in> pj
      then filter (\<lambda>r. job_id (obj r) \<in> pj) (cq_deque q) else cq_deque q)"
  shows "\<exists>r. cont_peek_request obj pinned q = Inr r \<and> r \<in> set el \<and>
    (\<forall>x\<in>set el. job_entry_time obj q r \<le> job_entry_time obj q x) \<and>
    cont_pop_request obj pinned q = Inr (r, q\<lparr>cq_deque := remove1 r (cq_deque q)\<rparr>)"
proof -
  have "el \<noteq> []" using assms(1) by (auto simp: el_def filter_empty_conv)
  then obtain r t where e: "earliest (job_entry_time obj q) None el = Some (r, t)"
    using earliest_None [of "job_entry_time obj q" None el] by (cases "earliest (job_entry_time obj q) None el") auto
  from earliest_min [OF e] have r: "r \<in> set el" "\<forall>x\<in>set el. job_entry_time obj q r \<le> job_entry_time obj q x" by auto
  have "cont_peek_request obj pinned q = Inr r"
  proof (cases "\<exists>r\<in>set (cq_deque q). job_id (obj r) \<in> pj")
    case True
    then show ?thesis using assms(1) e by (simp add: cont_peek_request_def el_def pj_def)
  next
    case False
    then have "filter (\<lambda>r. job_id (obj r) \<in> pj) (cq_deque q) = []" by (simp add: filter_empty_conv)
    with False show ?thesis using assms(1) e by (simp add: cont_peek_request_def el_def pj_def)
  qed
  moreover have "r \<in> set (cq_deque q)" using r(1) by (auto simp: el_def split: if_splits)
  ultimately show ?thesis using r by (simp add: cont_pop_request_def cont_remove_request_def deque_remove_def)
qed

theorem cont_queue_policy_witness:
  "\<exists>q'. cont_pop_request (\<lambda>r. (text_request r [1])\<lparr>job_id := Some r\<rparr>) [(''b'', 0)]
     \<lparr>cq_deque = [''a'', ''b''], job_id_first_entry_time = Map.empty\<rparr> = Inr (''b'', q')"
  using cont_queue_policy [where q = "\<lparr>cq_deque = [''a'', ''b''], job_id_first_entry_time = Map.empty\<rparr>"
      and obj = "\<lambda>r. (text_request r [1])\<lparr>job_id := Some r\<rparr>" and pinned = "[(''b'', 0)]"]
  by auto

end
