(* ===== verification/Mars_Policy.thy ===== *)
theory Mars_Policy
  imports Request_Queue
begin

text \<open>
  The MARS policy functions of \<^verbatim>\<open>vllm/v1/core/sched/scheduler.py\<close>: feedback and remaining-work levels,
  aging, token quanta, the order of the running list, feedback after a request was scheduled, and
  the admission window with its overflow queue. Times are real numbers; \<^verbatim>\<open>//\<close> on them is the floor
  of the quotient.
\<close>

section \<open>State\<close>

record mars_state =
  ms_policy :: SchedulingPolicy
  ms_objects :: "req_ref \<Rightarrow> request"
  ms_running :: "req_ref list"
  ms_waiting :: mars_queue
  ms_overflow :: deque
  mars_level_by_req_id :: "req_ref \<rightharpoonup> int"
  mars_last_scheduled_by_req_id :: "req_ref \<rightharpoonup> real"
  mars_level_quanta :: "int list"
  mars_aging_interval_s :: real
  mars_active_window_size :: int
  ms_max_num_scheduled_tokens :: int

text \<open>The values \<^verbatim>\<open>Scheduler.__init__\<close> sets; the token budget comes from the configuration.\<close>

definition init_mars_state :: "(req_ref \<Rightarrow> request) \<Rightarrow> int \<Rightarrow> mars_state" where
  "init_mars_state obj budget = \<lparr>ms_policy = MARS, ms_objects = obj, ms_running = [],
     ms_waiting = MarsRequestQueue, ms_overflow = [], mars_level_by_req_id = Map.empty,
     mars_last_scheduled_by_req_id = Map.empty, mars_level_quanta = [2048, 1024, 512, 256],
     mars_aging_interval_s = 30, mars_active_window_size = 30, ms_max_num_scheduled_tokens = budget\<rparr>"

section \<open>Levels\<close>

definition mars_remaining_level :: "mars_state \<Rightarrow> request \<Rightarrow> int option \<Rightarrow> int" where
  "mars_remaining_level s r nct =
     (let n = (case nct of None \<Rightarrow> num_computed_tokens r | Some k \<Rightarrow> k)
      in if n \<ge> num_prompt_tokens r then 0
         else let remaining_prompt = num_prompt_tokens r - n
              in if remaining_prompt \<le> 2048 then 0
                 else if remaining_prompt \<le> 8192 then 1
                 else if remaining_prompt \<le> 32768 then 2
                 else int (length (mars_level_quanta s)) - 1)"

definition feedback_level :: "mars_state \<Rightarrow> req_ref \<Rightarrow> int" where
  "feedback_level s rid = (case mars_level_by_req_id s rid of Some l \<Rightarrow> l | None \<Rightarrow> 0)"

definition last_scheduled :: "mars_state \<Rightarrow> real \<Rightarrow> req_ref \<Rightarrow> real" where
  "last_scheduled s now rid =
     (case mars_last_scheduled_by_req_id s rid of
        Some t \<Rightarrow> t
      | None \<Rightarrow> now - mars_aging_interval_s s * (real (length (mars_level_quanta s)) + 1))"

definition mars_effective_level :: "mars_state \<Rightarrow> request \<Rightarrow> real \<Rightarrow> int option \<Rightarrow> int" where
  "mars_effective_level s r now nct =
     (let base_level = max (feedback_level s (request_id r)) (mars_remaining_level s r nct)
      in if mars_aging_interval_s s \<le> 0 then base_level
         else let boost = \<lfloor>(now - last_scheduled s now (request_id r)) / mars_aging_interval_s s\<rfloor>
              in max 0 (base_level - boost))"

definition mars_quantum_for_level :: "mars_state \<Rightarrow> int \<Rightarrow> int" where
  "mars_quantum_for_level s level =
     (let level = max 0 (min level (int (length (mars_level_quanta s)) - 1))
      in min (mars_level_quanta s ! nat level) (ms_max_num_scheduled_tokens s))"

definition mars_sort_key :: "mars_state \<Rightarrow> real \<Rightarrow> req_ref \<Rightarrow> int \<times> real \<times> real" where
  "mars_sort_key s now x =
     (let r = ms_objects s x
      in (mars_effective_level s r now None, last_scheduled s now (request_id r), arrival_time r))"

definition mars_reorder_running :: "real \<Rightarrow> mars_state \<Rightarrow> mars_state" where
  "mars_reorder_running now s = s\<lparr>ms_running := sort_key (mars_sort_key s now) (ms_running s)\<rparr>"

section \<open>Feedback\<close>

definition remaining_after :: "request \<Rightarrow> int \<Rightarrow> int" where
  "remaining_after r num_scheduled =
     num_tokens_with_spec r + num_output_placeholders r - num_computed_tokens r - num_scheduled"

definition mars_on_scheduled :: "request \<Rightarrow> int \<Rightarrow> int \<Rightarrow> real \<Rightarrow> mars_state \<Rightarrow> mars_state" where
  "mars_on_scheduled r num_scheduled quantum now s =
     (let rid = request_id r;
          s = s\<lparr>mars_last_scheduled_by_req_id := (mars_last_scheduled_by_req_id s)(rid \<mapsto> now)\<rparr>
      in if num_computed_tokens r \<ge> num_prompt_tokens r
         then s\<lparr>mars_level_by_req_id := (mars_level_by_req_id s)(rid \<mapsto> 0)\<rparr>
         else
           let current_level = feedback_level s rid;
               max_level = int (length (mars_level_quanta s)) - 1
           in if num_scheduled \<ge> quantum \<and> remaining_after r num_scheduled > 0
              then s\<lparr>mars_level_by_req_id :=
                (mars_level_by_req_id s)(rid \<mapsto> min (current_level + 1) max_level)\<rparr>
              else s)"

section \<open>The admission window\<close>

text \<open>One iteration: pop the overflow queue, reset the feedback of the request, add it to the waiting queue.\<close>

definition admit_one :: "req_ref \<Rightarrow> deque \<Rightarrow> mars_state \<Rightarrow> mars_state result" where
  "admit_one x rest s =
     (let rid = request_id (ms_objects s x);
          s = s\<lparr>ms_overflow := rest,
                mars_level_by_req_id := (mars_level_by_req_id s)(rid \<mapsto> 0),
                mars_last_scheduled_by_req_id := (mars_last_scheduled_by_req_id s)(rid := None)\<rparr>
      in rbind (mars_add_request (ms_objects s x) (ms_waiting s)) (\<lambda>w. Inr (s\<lparr>ms_waiting := w\<rparr>)))"

lemma admit_one_overflow: "admit_one x rest s = Inr s' \<Longrightarrow> ms_overflow s' = rest"
  by (auto simp: admit_one_def Let_def)

function admit_loop :: "mars_state \<Rightarrow> mars_state result" where
  "admit_loop s =
     (case ms_overflow s of
        [] \<Rightarrow> Inr s
      | x # rest \<Rightarrow>
          if int (length (ms_running s)) + mars_len (ms_waiting s) < mars_active_window_size s
          then rbind (admit_one x rest s) admit_loop
          else Inr s)"
  by pat_completeness auto
termination
  by (relation "measure (\<lambda>s. length (ms_overflow s))") (auto dest: admit_one_overflow)

declare admit_loop.simps [simp del]

definition mars_admit_overflow :: "mars_state \<Rightarrow> mars_state result" where
  "mars_admit_overflow s = (if ms_policy s \<noteq> MARS then Inr s else admit_loop s)"

section \<open>Bounds\<close>

text \<open>Feedback levels index the table of quanta.\<close>

definition levels_ok :: "mars_state \<Rightarrow> bool" where
  "levels_ok s \<longleftrightarrow> mars_level_quanta s \<noteq> [] \<and>
     (\<forall>rid l. mars_level_by_req_id s rid = Some l \<longrightarrow> 0 \<le> l \<and> l < int (length (mars_level_quanta s)))"

lemma feedback_level_range:
  "levels_ok s \<Longrightarrow> 0 \<le> feedback_level s rid \<and> feedback_level s rid < int (length (mars_level_quanta s))"
  by (auto simp: levels_ok_def feedback_level_def split: option.splits)

lemma mars_remaining_level_range:
  "length (mars_level_quanta s) \<ge> 3 \<Longrightarrow> 0 \<le> mars_remaining_level s r nct \<and>
     mars_remaining_level s r nct < int (length (mars_level_quanta s))"
  by (cases "mars_level_quanta s") (auto simp: mars_remaining_level_def Let_def)

lemma on_scheduled_levels_ok: "levels_ok s \<Longrightarrow> levels_ok (mars_on_scheduled r n q now s)"
proof -
  assume ok: "levels_ok s"
  let ?s = "s\<lparr>mars_last_scheduled_by_req_id := (mars_last_scheduled_by_req_id s)(request_id r \<mapsto> now)\<rparr>"
  have "levels_ok ?s" using ok by (simp add: levels_ok_def)
  from feedback_level_range [OF this, of "request_id r"] ok show ?thesis
    by (auto simp: mars_on_scheduled_def Let_def levels_ok_def)
qed

lemma init_levels_ok: "levels_ok (init_mars_state obj b)"
  by (simp add: levels_ok_def init_mars_state_def)

definition base_level :: "mars_state \<Rightarrow> request \<Rightarrow> int option \<Rightarrow> int" where
  "base_level s r nct = max (feedback_level s (request_id r)) (mars_remaining_level s r nct)"

lemma base_level_range:
  "levels_ok s \<Longrightarrow> length (mars_level_quanta s) \<ge> 3 \<Longrightarrow>
     0 \<le> base_level s r nct \<and> base_level s r nct < int (length (mars_level_quanta s))"
  using feedback_level_range [of s "request_id r"] mars_remaining_level_range [of s r nct]
  by (auto simp: base_level_def)

lemma effective_level_aged:
  assumes "0 < mars_aging_interval_s s"
  shows "mars_effective_level s r now nct =
    max 0 (base_level s r nct - \<lfloor>(now - last_scheduled s now (request_id r)) / mars_aging_interval_s s\<rfloor>)"
  using assms by (simp add: mars_effective_level_def base_level_def Let_def)

text \<open>Everything that writes the feedback state: one scheduled request, admission, and changes by the rest of the scheduler.\<close>

inductive mars_policy_reach :: "int \<Rightarrow> mars_state \<Rightarrow> bool" for budget where
  mp_init: "mars_policy_reach budget (init_mars_state obj budget)"
| mp_scheduled: "mars_policy_reach budget s \<Longrightarrow> mars_policy_reach budget (mars_on_scheduled r n q now s)"
| mp_reorder: "mars_policy_reach budget s \<Longrightarrow> mars_policy_reach budget (mars_reorder_running now s)"
| mp_admit: "mars_policy_reach budget s \<Longrightarrow> mars_admit_overflow s = Inr s' \<Longrightarrow> mars_policy_reach budget s'"
| mp_env: "mars_policy_reach budget s \<Longrightarrow>
    mars_policy_reach budget (s\<lparr>ms_objects := obj, ms_running := run, ms_waiting := w, ms_overflow := ov\<rparr>)"

definition fixed_config :: "int \<Rightarrow> mars_state \<Rightarrow> bool" where
  "fixed_config budget s \<longleftrightarrow> (\<forall>rid l. mars_level_by_req_id s rid = Some l \<longrightarrow> 0 \<le> l \<and> l < 4) \<and>
     mars_level_quanta s = [2048, 1024, 512, 256] \<and>
     mars_aging_interval_s s = 30 \<and> ms_max_num_scheduled_tokens s = budget \<and> mars_active_window_size s = 30"

lemma fixed_config_iff: "fixed_config budget s \<longleftrightarrow> levels_ok s \<and> mars_level_quanta s = [2048, 1024, 512, 256] \<and>
     mars_aging_interval_s s = 30 \<and> ms_max_num_scheduled_tokens s = budget \<and> mars_active_window_size s = 30"
  by (auto simp: fixed_config_def levels_ok_def)

lemma on_scheduled_config [simp]:
  "mars_level_quanta (mars_on_scheduled r n q now s) = mars_level_quanta s"
  "mars_aging_interval_s (mars_on_scheduled r n q now s) = mars_aging_interval_s s"
  "ms_max_num_scheduled_tokens (mars_on_scheduled r n q now s) = ms_max_num_scheduled_tokens s"
  "mars_active_window_size (mars_on_scheduled r n q now s) = mars_active_window_size s"
  by (simp_all add: mars_on_scheduled_def Let_def)

lemma admit_one_config:
  "admit_one x rest s = Inr s' \<Longrightarrow> fixed_config b s \<Longrightarrow> fixed_config b s'"
  by (auto simp: admit_one_def Let_def fixed_config_def split: if_splits)

lemma admit_loop_config: "admit_loop s = Inr s' \<Longrightarrow> fixed_config b s \<Longrightarrow> fixed_config b s'"
proof (induction s rule: admit_loop.induct)
  case (1 s)
  show ?case
  proof (cases "ms_overflow s")
    case Nil
    with "1.prems" show ?thesis by (simp add: admit_loop.simps [of s])
  next
    case (Cons x rest)
    show ?thesis
    proof (cases "int (length (ms_running s)) + mars_len (ms_waiting s) < mars_active_window_size s")
      case True
      with Cons "1.prems"(1) obtain s1 where "admit_one x rest s = Inr s1" "admit_loop s1 = Inr s'"
        by (auto simp: admit_loop.simps [of s])
      with "1.IH" [OF Cons True] "1.prems"(2) show ?thesis using admit_one_config by blast
    next
      case False
      with Cons "1.prems" show ?thesis by (simp add: admit_loop.simps [of s])
    qed
  qed
qed

lemma mars_policy_reach_config: "mars_policy_reach budget s \<Longrightarrow> fixed_config budget s"
proof (induction rule: mars_policy_reach.induct)
  case (mp_init obj)
  then show ?case by (simp add: fixed_config_def init_mars_state_def)
next
  case (mp_scheduled s r n q now)
  then show ?case by (simp add: fixed_config_iff on_scheduled_levels_ok)
next
  case (mp_reorder s now)
  then show ?case by (simp add: fixed_config_def mars_reorder_running_def)
next
  case (mp_admit s s')
  then show ?case using admit_loop_config by (auto simp: mars_admit_overflow_def split: if_splits)
next
  case (mp_env s obj run w ov)
  then show ?case by (simp add: fixed_config_def)
qed

section \<open>Filling the window\<close>

lemma mars_len_iter: "mars_inv q \<Longrightarrow> mars_len q = int (length (mars_iter q))"
  using mars_invD(4) [of q] by (simp add: mars_len_def mars_iter_def)

lemma mars_add_fresh:
  assumes "mars_add_request r q = Inr q'" and "mars_fresh x q" and "x \<noteq> request_id r"
  shows "mars_fresh x q'"
proof -
  from assms(1) obtain e where e: "heappush mars_lt (mq_heap q) e = Inr (mq_heap q')" "entry_id e = request_id r"
    by (auto simp: mars_add_request_def mars_push_def Let_def entry_id_def split: option.splits)
  from siftdown_mset [OF e(1) [unfolded heappush_def]] have "mset (mq_heap q') = add_mset e (mset (mq_heap q))" by simp
  then have "set (mq_heap q') = insert e (set (mq_heap q))" by (metis set_mset_add_mset_insert set_mset_mset)
  then show ?thesis using assms(2,3) e(2) by (simp add: mars_fresh_def)
qed

definition can_admit :: "mars_state \<Rightarrow> bool" where
  "can_admit s \<longleftrightarrow> mars_inv (ms_waiting s) \<and> distinct (ms_overflow s) \<and>
     (\<forall>x\<in>set (ms_overflow s). request_id (ms_objects s x) = x \<and> mars_fresh x (ms_waiting s))"

definition admitted :: "nat \<Rightarrow> mars_state \<Rightarrow> mars_state \<Rightarrow> bool" where
  "admitted k s s' \<longleftrightarrow> ms_overflow s' = drop k (ms_overflow s) \<and> k \<le> length (ms_overflow s) \<and>
     mars_inv (ms_waiting s') \<and> ms_running s' = ms_running s \<and>
     mset (mars_iter (ms_waiting s')) = mset (take k (ms_overflow s)) + mset (mars_iter (ms_waiting s)) \<and>
     (\<forall>x. x \<in> set (take k (ms_overflow s)) \<longrightarrow> feedback_level s' x = 0 \<and> mars_last_scheduled_by_req_id s' x = None)"

lemma admit_one_ok:
  assumes "can_admit s" and ov: "ms_overflow s = x # rest"
  shows "\<exists>s1. admit_one x rest s = Inr s1 \<and> can_admit s1 \<and> ms_overflow s1 = rest \<and> ms_running s1 = ms_running s \<and>
    mset (mars_iter (ms_waiting s1)) = add_mset x (mset (mars_iter (ms_waiting s))) \<and>
    mars_active_window_size s1 = mars_active_window_size s \<and>
    mars_level_by_req_id s1 = (mars_level_by_req_id s)(x \<mapsto> 0) \<and>
    mars_last_scheduled_by_req_id s1 = (mars_last_scheduled_by_req_id s)(x := None)"
proof -
  have x: "request_id (ms_objects s x) = x" "mars_fresh x (ms_waiting s)" "mars_inv (ms_waiting s)"
    using assms by (auto simp: can_admit_def)
  from mars.add_one [of "ms_waiting s" "ms_objects s x"] x obtain w where w:
    "mars_add_request (ms_objects s x) (ms_waiting s) = Inr w" "mars_inv w"
    "mset (mars_iter w) = add_mset x (mset (mars_iter (ms_waiting s)))" by auto
  have "mars_fresh y w" if "y \<in> set rest" for y
    using that assms x by (intro mars_add_fresh [OF w(1)]) (auto simp: can_admit_def)
  with w x assms show ?thesis by (auto simp: admit_one_def Let_def can_admit_def)
qed

lemma admit_loop_ok:
  assumes "can_admit s"
  shows "\<exists>s' k. admit_loop s = Inr s' \<and> admitted k s s' \<and>
    (ms_overflow s' = [] \<or> mars_active_window_size s \<le> int (length (ms_running s')) + mars_len (ms_waiting s')) \<and>
    (0 < k \<longrightarrow> int (length (ms_running s')) + mars_len (ms_waiting s') \<le> mars_active_window_size s) \<and>
    (\<forall>y. y \<notin> set (ms_overflow s) \<longrightarrow> mars_level_by_req_id s' y = mars_level_by_req_id s y \<and>
       mars_last_scheduled_by_req_id s' y = mars_last_scheduled_by_req_id s y)"
  using assms
proof (induction "length (ms_overflow s)" arbitrary: s)
  case 0
  then show ?case
    by (intro exI [of _ s] exI [of _ 0]) (auto simp: admit_loop.simps [of s] admitted_def can_admit_def)
next
  case (Suc n)
  then obtain x rest where ov: "ms_overflow s = x # rest" by (cases "ms_overflow s") auto
  show ?case
  proof (cases "int (length (ms_running s)) + mars_len (ms_waiting s) < mars_active_window_size s")
    case False
    with ov Suc.prems show ?thesis
      by (intro exI [of _ s] exI [of _ 0]) (auto simp: admit_loop.simps [of s] admitted_def can_admit_def)
  next
    case True
    from admit_one_ok [OF Suc.prems ov] obtain s1 where s1: "admit_one x rest s = Inr s1" "can_admit s1"
      "ms_overflow s1 = rest" "ms_running s1 = ms_running s"
      "mset (mars_iter (ms_waiting s1)) = add_mset x (mset (mars_iter (ms_waiting s)))"
      "mars_active_window_size s1 = mars_active_window_size s"
      "mars_level_by_req_id s1 = (mars_level_by_req_id s)(x \<mapsto> 0)"
      "mars_last_scheduled_by_req_id s1 = (mars_last_scheduled_by_req_id s)(x := None)" by blast
    have "n = length (ms_overflow s1)" using Suc.hyps(2) ov s1(3) by simp
    from Suc.hyps(1) [OF this s1(2)] obtain s' k where IH: "admit_loop s1 = Inr s'" "admitted k s1 s'"
      "ms_overflow s' = [] \<or> mars_active_window_size s1 \<le> int (length (ms_running s')) + mars_len (ms_waiting s')"
      "0 < k \<longrightarrow> int (length (ms_running s')) + mars_len (ms_waiting s') \<le> mars_active_window_size s1"
      "\<forall>y. y \<notin> set (ms_overflow s1) \<longrightarrow> mars_level_by_req_id s' y = mars_level_by_req_id s1 y \<and>
         mars_last_scheduled_by_req_id s' y = mars_last_scheduled_by_req_id s1 y" by blast
    have xn: "x \<notin> set rest" using Suc.prems ov by (simp add: can_admit_def)
    have len1: "mars_len (ms_waiting s1) = mars_len (ms_waiting s) + 1"
      using arg_cong [OF s1(5), of size] s1(2) Suc.prems by (simp add: can_admit_def mars_len_iter)
    have "int (length (ms_running s')) + mars_len (ms_waiting s') \<le> mars_active_window_size s"
    proof (cases "k = 0")
      case True
      have "length (mars_iter (ms_waiting s')) = length (mars_iter (ms_waiting s1))"
        using IH(2) True by (auto simp: admitted_def dest: mset_eq_length)
      then have "mars_len (ms_waiting s') = mars_len (ms_waiting s1)"
        using IH(2) s1(2) mars_len_iter by (simp add: admitted_def can_admit_def)
      then show ?thesis using \<open>int (length (ms_running s)) + mars_len (ms_waiting s) < mars_active_window_size s\<close>
          IH(2) len1 s1(4) by (simp add: admitted_def)
    qed (use IH(4) s1(6) in simp)
    moreover have "admitted (Suc k) s s'"
      using IH(2,5) s1 ov xn by (auto simp: admitted_def feedback_level_def)
    moreover have "admit_loop s = Inr s'" using True ov s1(1) IH(1) by (simp add: admit_loop.simps [of s])
    moreover have "mars_level_by_req_id s' y = mars_level_by_req_id s y \<and>
        mars_last_scheduled_by_req_id s' y = mars_last_scheduled_by_req_id s y" if "y \<notin> set (ms_overflow s)" for y
      using IH(5) that unfolding s1(3,7,8) ov by simp
    ultimately show ?thesis using IH(3) unfolding s1(6) by blast
  qed
qed

section \<open>Properties\<close>

text \<open>
  C26: levels and aging. In every reachable policy state a request last scheduled at a past time has as its effective
  level its base level (the larger of feedback and remaining-work level, at most 3) less one for each full aging
  interval of 30 seconds it has waited, and 0 once that many intervals have passed: a request that has waited less
  than one interval is at its base level, the level never rises while the request waits, and after as many
  intervals as its base level, so at most three, it is at the top. The quantum of every level is positive and within
  the token budget.
\<close>

theorem mars_aging:
  assumes "mars_policy_reach budget s" and "0 < budget"
    and "mars_last_scheduled_by_req_id s (request_id r) = Some t" and "t \<le> now"
  shows "0 \<le> base_level s r nct \<and> base_level s r nct \<le> 3 \<and>
    (\<forall>k::nat. t + 30 * real k \<le> now \<and> now < t + 30 * (real k + 1) \<longrightarrow>
       mars_effective_level s r now nct = max 0 (base_level s r nct - int k)) \<and>
    (\<forall>later\<ge>now. mars_effective_level s r later nct \<le> mars_effective_level s r now nct) \<and>
    (t + 30 * real_of_int (base_level s r nct) \<le> now \<longleftrightarrow> mars_effective_level s r now nct = 0) \<and>
    0 < mars_quantum_for_level s l \<and> mars_quantum_for_level s l \<le> budget"
proof -
  have c: "fixed_config budget s" using assms(1) by (rule mars_policy_reach_config)
  then have q: "mars_level_quanta s = [2048, 1024, 512, 256]" and i: "mars_aging_interval_s s = 30"
    and b: "ms_max_num_scheduled_tokens s = budget" and ok: "levels_ok s" by (simp_all add: fixed_config_iff)
  have base: "0 \<le> base_level s r nct" "base_level s r nct \<le> 3"
    using base_level_range [OF ok, of r nct] q by simp_all
  have eff: "mars_effective_level s r u nct = max 0 (base_level s r nct - \<lfloor>(u - t) / 30\<rfloor>)" for u
    using effective_level_aged [of s r u nct] i assms(3) by (simp add: last_scheduled_def)
  have "mars_effective_level s r now nct = max 0 (base_level s r nct - int k)"
    if "t + 30 * real k \<le> now" "now < t + 30 * (real k + 1)" for k :: nat
  proof -
    have "\<lfloor>(now - t) / 30\<rfloor> = int k" using that by (intro floor_unique) (auto simp: field_simps)
    then show ?thesis by (simp add: eff)
  qed
  moreover have "mars_effective_level s r later nct \<le> mars_effective_level s r now nct" if "now \<le> later" for later
  proof -
    have "\<lfloor>(now - t) / 30\<rfloor> \<le> \<lfloor>(later - t) / 30\<rfloor>" using that by (intro floor_mono) simp
    then show ?thesis by (simp add: eff)
  qed
  moreover have "t + 30 * real_of_int (base_level s r nct) \<le> now \<longleftrightarrow> mars_effective_level s r now nct = 0"
  proof -
    have "mars_effective_level s r now nct = 0 \<longleftrightarrow> base_level s r nct \<le> \<lfloor>(now - t) / 30\<rfloor>" by (auto simp: eff)
    also have "\<dots> \<longleftrightarrow> t + 30 * real_of_int (base_level s r nct) \<le> now" by (auto simp: le_floor_iff field_simps)
    finally show ?thesis by simp
  qed
  moreover have "0 < mars_quantum_for_level s l \<and> mars_quantum_for_level s l \<le> budget"
  proof -
    define j where "j = nat (max 0 (min l 3))"
    then have "j \<in> {0, 1, 2, 3}" by auto
    then have "0 < [2048, 1024, 512, 256::int] ! j" by auto
    then show ?thesis using assms(2) b q by (simp add: mars_quantum_for_level_def j_def)
  qed
  ultimately show ?thesis using base by blast
qed

text \<open>A prompt of 40000 tokens: level 3 at first, 1 after 70 seconds, and the top level after 90.\<close>

theorem mars_aging_witness:
  "let r = (text_request ''a'' [])\<lparr>num_prompt_tokens := 40000\<rparr>;
       s = mars_on_scheduled r 256 2048 0 (init_mars_state (\<lambda>x. text_request x []) 8192)
   in base_level s r None = 3 \<and> mars_effective_level s r 70 None = 1 \<and> mars_effective_level s r 90 None = 0"
proof -
  let ?r = "(text_request ''a'' [])\<lparr>num_prompt_tokens := 40000\<rparr>"
  let ?s = "mars_on_scheduled ?r 256 2048 0 (init_mars_state (\<lambda>x. text_request x []) 8192)"
  have r: "mars_policy_reach 8192 ?s" by (intro mp_scheduled mp_init)
  have l: "mars_last_scheduled_by_req_id ?s (request_id ?r) = Some 0"
    by (simp add: mars_on_scheduled_def Let_def)
  have b: "base_level ?s ?r None = 3"
    by (simp add: base_level_def feedback_level_def mars_remaining_level_def mars_on_scheduled_def Let_def
        text_request_def init_mars_state_def remaining_after_def num_tokens_with_spec_def)
  have "\<forall>k::nat. 0 + 30 * real k \<le> 70 \<and> 70 < 0 + 30 * (real k + 1) \<longrightarrow>
      mars_effective_level ?s ?r 70 None = max 0 (base_level ?s ?r None - int k)"
    using mars_aging [OF r _ l, where now = 70 and nct = None] by simp
  from this [rule_format, of 2] b have "mars_effective_level ?s ?r 70 None = 1" by simp
  moreover have "mars_effective_level ?s ?r 90 None = 0"
    using mars_aging [OF r _ l, where now = 90 and nct = None] b by simp
  ultimately show ?thesis using b by (simp add: Let_def)
qed

text \<open>
  A request that was never scheduled is always at the top level, whatever its remaining
  prompt: the substitute time of its last scheduling lies one interval more than the number of
  levels in the past, so aging cancels every initial level.
\<close>

lemma mars_unscheduled_is_top_level:
  assumes "mars_policy_reach budget s" and "mars_last_scheduled_by_req_id s (request_id r) = None"
  shows "mars_effective_level s r now nct = 0"
proof -
  have c: "fixed_config budget s" using assms(1) by (rule mars_policy_reach_config)
  then have q: "mars_level_quanta s = [2048, 1024, 512, 256]" and i: "mars_aging_interval_s s = 30"
    and ok: "levels_ok s" by (simp_all add: fixed_config_iff)
  have "base_level s r nct < 4" using base_level_range [OF ok, of r nct] q by simp
  then show ?thesis using effective_level_aged [of s r now nct] i q assms(2) by (simp add: last_scheduled_def)
qed

lemma mars_unscheduled_is_top_level_witness:
  "mars_remaining_level (init_mars_state (\<lambda>x. text_request x []) 8192) ((text_request ''a'' [])\<lparr>num_prompt_tokens := 40000\<rparr>) None = 3 \<and>
   mars_effective_level (init_mars_state (\<lambda>x. text_request x []) 8192) ((text_request ''a'' [])\<lparr>num_prompt_tokens := 40000\<rparr>) 0 None = 0"
  using mars_unscheduled_is_top_level [OF mp_init, of "\<lambda>x. text_request x []" 8192 "(text_request ''a'' [])\<lparr>num_prompt_tokens := 40000\<rparr>" 0 None]
  by (simp add: init_mars_state_def mars_remaining_level_def text_request_def)

text \<open>
  Feedback. Scheduling a request records the time; a request in its decode phase returns to
  level 0; a request in prefill that used its whole quantum and has work left moves down one
  level, at most to the lowest, and otherwise keeps its level; no other request is affected.
\<close>

lemma mars_feedback:
  fixes r :: request and n q :: int and now :: real
  assumes "mars_policy_reach budget s"
  defines "s' \<equiv> mars_on_scheduled r n q now s"
  shows "mars_last_scheduled_by_req_id s' (request_id r) = Some now \<and>
    feedback_level s' (request_id r) =
      (if num_prompt_tokens r \<le> num_computed_tokens r then 0
       else if q \<le> n \<and> 0 < remaining_after r n then min (feedback_level s (request_id r) + 1) 3
       else feedback_level s (request_id r)) \<and>
    (\<forall>x. x \<noteq> request_id r \<longrightarrow> feedback_level s' x = feedback_level s x \<and>
       mars_last_scheduled_by_req_id s' x = mars_last_scheduled_by_req_id s x)"
proof -
  have "mars_level_quanta s = [2048, 1024, 512, 256]"
    using mars_policy_reach_config [OF assms(1)] by (simp add: fixed_config_iff)
  then show ?thesis by (simp add: s'_def mars_on_scheduled_def Let_def feedback_level_def)
qed

lemma mars_feedback_witness:
  "feedback_level (mars_on_scheduled ((text_request ''a'' [])\<lparr>num_prompt_tokens := 4000, all_token_ids := replicate 4 0\<rparr>) 2 2 5
     (init_mars_state (\<lambda>x. text_request x []) 8192)) ''a'' = 1"
  using mars_feedback [OF mp_init, where r = "(text_request ''a'' [])\<lparr>num_prompt_tokens := 4000, all_token_ids := replicate 4 0\<rparr>"
      and n = 2 and q = 2 and now = 5]
  by (simp add: text_request_def remaining_after_def num_tokens_with_spec_def feedback_level_def init_mars_state_def)

text \<open>
  Reordering the running list is a stable sort by effective level, then time of last service,
  then arrival: it keeps exactly the running requests, and every request precedes those with a
  larger key.
\<close>

lemma mars_reorder_sorts:
  "mset (ms_running (mars_reorder_running now s)) = mset (ms_running s) \<and>
   sorted (map (mars_sort_key s now) (ms_running (mars_reorder_running now s))) \<and>
   (\<forall>k. filter (\<lambda>x. mars_sort_key s now x = k) (ms_running (mars_reorder_running now s)) =
      filter (\<lambda>x. mars_sort_key s now x = k) (ms_running s))"
  by (simp add: mars_reorder_running_def sort_key_stable)

text \<open>
  C27: the admission window. Admitting from the overflow queue terminates without raising; it moves
  a prefix of the overflow queue into the waiting queue, in order of arrival and with fresh
  feedback state, until the overflow queue is empty or running and waiting requests fill the
  window, and never beyond it.
\<close>

theorem mars_admission_window:
  assumes "ms_policy s = MARS" and "can_admit s"
  shows "\<exists>s' k. mars_admit_overflow s = Inr s' \<and> admitted k s s' \<and>
    (ms_overflow s' = [] \<or> mars_active_window_size s \<le> int (length (ms_running s')) + mars_len (ms_waiting s')) \<and>
    (0 < k \<longrightarrow> int (length (ms_running s')) + mars_len (ms_waiting s') \<le> mars_active_window_size s)"
  using admit_loop_ok [OF assms(2)] assms(1) by (auto simp: mars_admit_overflow_def)

theorem mars_admission_window_witness:
  "\<exists>s'. mars_admit_overflow ((init_mars_state (\<lambda>x. text_request x [1]) 8192)\<lparr>ms_overflow := [''a'', ''b'']\<rparr>) = Inr s' \<and>
     ms_overflow s' = []"
proof -
  let ?s = "(init_mars_state (\<lambda>x. text_request x [1]) 8192)\<lparr>ms_overflow := [''a'', ''b'']\<rparr>"
  have c: "can_admit ?s"
    by (simp add: can_admit_def init_mars_state_def MarsRequestQueue_inv text_request_def mars_fresh_def)
      (simp add: MarsRequestQueue_def)
  have p: "ms_policy ?s = MARS" by (simp add: init_mars_state_def)
  from mars_admission_window [OF p c] obtain s' k where s': "mars_admit_overflow ?s = Inr s'" "admitted k ?s s'"
    "ms_overflow s' = [] \<or> mars_active_window_size ?s \<le> int (length (ms_running s')) + mars_len (ms_waiting s')" by blast
  have "mars_iter MarsRequestQueue = []" by (simp add: mars_iter_def MarsRequestQueue_def)
  then have "mset (mars_iter (ms_waiting s')) = mset (take k [''a'', ''b''])"
    using s'(2) by (simp add: admitted_def init_mars_state_def)
  then have "length (mars_iter (ms_waiting s')) = length (take k [''a'', ''b''])" by (rule mset_eq_length)
  then have "length (mars_iter (ms_waiting s')) \<le> 2" by simp
  moreover have "mars_len (ms_waiting s') = int (length (mars_iter (ms_waiting s')))" "ms_running s' = []"
    using s'(2) by (auto simp: admitted_def mars_len_iter init_mars_state_def)
  ultimately have "ms_overflow s' = []" using s'(3) by (simp add: init_mars_state_def)
  with s'(1) show ?thesis by blast
qed

end
