(* ===== verification/Encoder_Cache.thy ===== *)
theory Encoder_Cache
  imports Request_Model
begin

text \<open>
  \<^verbatim>\<open>EncoderCacheManager\<close> of \<^verbatim>\<open>vllm/v1/core/encoder_cache_manager.py\<close>, which counts the slots that encoder
  outputs of multimodal inputs take and remembers which requests use them, and its callers in
  \<^verbatim>\<open>vllm/v1/core/sched/scheduler.py\<close>. Entries are named by the identifier of the input.
\<close>

section \<open>State\<close>

type_synonym mm_hash = "string option"

record encoder_cache =
  cache_size :: int
  num_free_slots :: int
  num_freeable_slots :: int
  cached :: "mm_hash \<rightharpoonup> string set"
  freeable :: "(mm_hash \<times> int) list"
  freed :: "mm_hash list"

definition EncoderCacheManager :: "int \<Rightarrow> encoder_cache" where
  "EncoderCacheManager n = \<lparr>cache_size = n, num_free_slots = n, num_freeable_slots = n, cached = Map.empty,
     freeable = [], freed = []\<rparr>"

section \<open>Operations\<close>

definition check_and_update_cache :: "request \<Rightarrow> int \<Rightarrow> encoder_cache \<Rightarrow> (bool \<times> encoder_cache) result" where
  "check_and_update_cache r input_id c =
     rbind (py_nth (mm_hashes r) input_id) (\<lambda>h.
       case cached c h of
         None \<Rightarrow> Inr (False, c)
       | Some refs \<Rightarrow>
           rbind (if refs = {}
                  then (case map_of (freeable c) h of
                      None \<Rightarrow> Inl KeyError
                    | Some n \<Rightarrow> Inr (c\<lparr>freeable := AList.delete h (freeable c), num_freeable_slots := num_freeable_slots c - n\<rparr>))
                  else Inr c) (\<lambda>c.
             Inr (True, c\<lparr>cached := (cached c)(h \<mapsto> insert (request_id r) refs)\<rparr>)))"

text \<open>The eviction loop, oldest entry first; \<^verbatim>\<open>popitem\<close> on an empty dictionary raises.\<close>

fun evict_entries :: "int \<Rightarrow> (mm_hash \<times> int) list \<Rightarrow> encoder_cache \<Rightarrow> encoder_cache result" where
  "evict_entries n [] c = (if n > num_free_slots c then Inl KeyError else Inr c)"
| "evict_entries n ((h, k) # fs) c =
     (if n > num_free_slots c
      then if cached c h = None then Inl KeyError
           else evict_entries n fs (c\<lparr>freeable := fs, cached := (cached c)(h := None), freed := freed c @ [h],
                  num_free_slots := num_free_slots c + k\<rparr>)
      else Inr c)"

definition can_allocate :: "request \<Rightarrow> int \<Rightarrow> int \<Rightarrow> int \<Rightarrow> encoder_cache \<Rightarrow> (bool \<times> encoder_cache) result" where
  "can_allocate r input_id encoder_compute_budget num_tokens_to_schedule c =
     rbind (get_num_encoder_tokens r input_id) (\<lambda>n.
       if n > encoder_compute_budget then Inr (False, c)
       else if n + num_tokens_to_schedule \<le> num_free_slots c then Inr (True, c)
       else if n + num_tokens_to_schedule > num_freeable_slots c then Inr (False, c)
       else rbind (evict_entries (n + num_tokens_to_schedule) (freeable c) c) (\<lambda>c. Inr (True, c)))"

definition enc_allocate :: "request \<Rightarrow> int \<Rightarrow> encoder_cache \<Rightarrow> encoder_cache result" where
  "enc_allocate r input_id c =
     rbind (py_nth (mm_hashes r) input_id) (\<lambda>h.
       rbind (get_num_encoder_tokens r input_id) (\<lambda>n.
         if num_free_slots c < n \<or> num_freeable_slots c < n then Inl AssertionError
         else
           let refs = (case cached c h of None \<Rightarrow> {} | Some refs \<Rightarrow> refs)
           in Inr (c\<lparr>cached := (cached c)(h \<mapsto> insert (request_id r) refs),
                     num_free_slots := num_free_slots c - n, num_freeable_slots := num_freeable_slots c - n\<rparr>)))"

definition get_cached_input_ids :: "request \<Rightarrow> encoder_cache \<Rightarrow> int list" where
  "get_cached_input_ids r c =
     map int (filter (\<lambda>i. cached c (mm_hashes r ! i) \<noteq> None) [0..<length (mm_hashes r)])"

definition free_encoder_input :: "request \<Rightarrow> int \<Rightarrow> encoder_cache \<Rightarrow> encoder_cache result" where
  "free_encoder_input r input_id c =
     rbind (py_nth (mm_hashes r) input_id) (\<lambda>h.
       case cached c h of
         None \<Rightarrow> Inr c
       | Some refs \<Rightarrow>
           if refs = {} then Inr c
           else
             let refs = refs - {request_id r};
                 c = c\<lparr>cached := (cached c)(h \<mapsto> refs)\<rparr>
             in if refs \<noteq> {} then Inr c
                else rbind (get_num_encoder_tokens r input_id) (\<lambda>n.
                  Inr (c\<lparr>freeable := AList.update h n (freeable c), num_freeable_slots := num_freeable_slots c + n\<rparr>)))"

text \<open>The ids are kept in a Python set, whose iteration order is the argument \<open>order\<close>.\<close>

definition enc_free :: "(int list \<Rightarrow> int list) \<Rightarrow> request \<Rightarrow> encoder_cache \<Rightarrow> encoder_cache result" where
  "enc_free order r c = rfold (free_encoder_input r) (order (get_cached_input_ids r c)) c"

definition get_freed_mm_hashes :: "encoder_cache \<Rightarrow> mm_hash list \<times> encoder_cache" where
  "get_freed_mm_hashes c = (freed c, c\<lparr>freed := []\<rparr>)"

section \<open>Use by the scheduler\<close>

text \<open>The loop of \<^verbatim>\<open>_try_schedule_encoder_inputs\<close>; \<open>hs\<close> and \<open>tot\<close> are its temporary trackers.\<close>

fun encoder_input_loop ::
  "request \<Rightarrow> bool \<Rightarrow> bool \<Rightarrow> int \<Rightarrow> (int \<times> mm_feature) list \<Rightarrow> int list \<Rightarrow> mm_hash set \<Rightarrow> int \<Rightarrow> int \<Rightarrow> int \<Rightarrow> encoder_cache \<Rightarrow>
   (int list \<times> int \<times> int \<times> encoder_cache) result" where
  "encoder_input_loop r encdec no_chunk nct [] ids hs tot num_new budget c = Inr (ids, num_new, budget, c)"
| "encoder_input_loop r encdec no_chunk nct ((i, f) # fs) ids hs tot num_new budget c =
     (if mm_offset f \<ge> nct + num_new then Inr (ids, num_new, budget, c)
      else if encdec \<and> nct > 0
      then (if mm_offset f \<noteq> 0 then Inl AssertionError
            else encoder_input_loop r encdec no_chunk nct fs ids hs tot num_new budget c)
      else if mm_offset f + mm_length f \<le> nct
      then encoder_input_loop r encdec no_chunk nct fs ids hs tot num_new budget c
      else rbind (if encdec then Inr (False, c)
                  else if mm_identifier f \<in> hs then Inr (True, c)
                  else check_and_update_cache r i c) (\<lambda>(skip, c).
        if skip then encoder_input_loop r encdec no_chunk nct fs ids hs tot num_new budget c
        else if no_chunk \<and> nct < mm_offset f \<and> nct + num_new < mm_offset f + mm_length f
        then Inr (ids, mm_offset f - nct, budget, c)
        else rbind (can_allocate r i budget tot c) (\<lambda>(ok, c).
          if \<not> ok then Inr (ids, if nct < mm_offset f then mm_offset f - nct else 0, budget, c)
          else encoder_input_loop r encdec no_chunk nct fs (ids @ [i]) (insert (mm_identifier f) hs)
                 (tot + mm_length f) num_new (budget - mm_length f) c)))"

definition try_schedule_encoder_inputs ::
  "bool \<Rightarrow> bool \<Rightarrow> request \<Rightarrow> int \<Rightarrow> int \<Rightarrow> int \<Rightarrow> encoder_cache \<Rightarrow> (int list \<times> int \<times> int \<times> encoder_cache) result" where
  "try_schedule_encoder_inputs encdec no_chunk r nct num_new budget c =
     (if num_new = 0 \<or> \<not> has_encoder_inputs r then Inr ([], num_new, budget, c)
      else encoder_input_loop r encdec no_chunk nct
             (zip (map int [0..<length (mm_features r)]) (mm_features r)) [] {} 0 num_new budget c)"

definition free_encoder_inputs :: "(int list \<Rightarrow> int list) \<Rightarrow> bool \<Rightarrow> request \<Rightarrow> encoder_cache \<Rightarrow> encoder_cache result" where
  "free_encoder_inputs order encdec r c =
     rfold (\<lambda>i c. rbind (py_nth (mm_features r) i) (\<lambda>f.
       if encdec \<and> num_computed_tokens r > 0 then free_encoder_input r i c
       else if mm_offset f + mm_length f \<le> num_computed_tokens r then free_encoder_input r i c
       else Inr c)) (order (get_cached_input_ids r c)) c"

section \<open>Invariant\<close>

text \<open>
  \<open>sz\<close> gives the encoder tokens of an identifier: equal identifiers stand for equal inputs. Slots are
  conserved, and an entry is freeable exactly when no request refers to it.
\<close>

definition enc_inv :: "(mm_hash \<Rightarrow> int) \<Rightarrow> encoder_cache \<Rightarrow> bool" where
  "enc_inv sz c \<longleftrightarrow> finite (dom (cached c)) \<and> distinct (map fst (freeable c)) \<and>
     (\<forall>h n. (h, n) \<in> set (freeable c) \<longrightarrow> n = sz h) \<and>
     (\<forall>h. h \<in> fst ` set (freeable c) \<longleftrightarrow> cached c h = Some {}) \<and>
     num_free_slots c = cache_size c - (\<Sum>h\<in>dom (cached c). sz h) \<and>
     num_freeable_slots c = num_free_slots c + sum_list (map snd (freeable c)) \<and> 0 \<le> num_free_slots c"

definition sizes_ok :: "(mm_hash \<Rightarrow> int) \<Rightarrow> request \<Rightarrow> bool" where
  "sizes_ok sz r \<longleftrightarrow> (\<forall>h. 0 \<le> sz h) \<and> (\<forall>f\<in>set (mm_features r). mm_length f = sz (mm_identifier f))"

lemma EncoderCacheManager_inv: "0 \<le> n \<Longrightarrow> enc_inv sz (EncoderCacheManager n)"
  by (simp add: EncoderCacheManager_def enc_inv_def)

lemma input_facts:
  assumes "i < length (mm_features r)"
  shows "py_nth (mm_hashes r) (int i) = Inr (mm_identifier (mm_features r ! i))"
    "get_num_encoder_tokens r (int i) = Inr (mm_length (mm_features r ! i))"
  using assms by (simp_all add: mm_hashes_def get_num_encoder_tokens_def)

lemma enc_invD:
  assumes "enc_inv sz c"
  shows "finite (dom (cached c))" "distinct (map fst (freeable c))" "\<And>h n. (h, n) \<in> set (freeable c) \<Longrightarrow> n = sz h"
    "\<And>h. h \<in> fst ` set (freeable c) \<longleftrightarrow> cached c h = Some {}" "num_free_slots c = cache_size c - (\<Sum>h\<in>dom (cached c). sz h)"
    "num_freeable_slots c = num_free_slots c + sum_list (map snd (freeable c))" "0 \<le> num_free_slots c"
  using assms unfolding enc_inv_def by blast+

lemma freeable_nonneg: "enc_inv sz c \<Longrightarrow> \<forall>h. 0 \<le> sz h \<Longrightarrow> 0 \<le> sum_list (map snd (freeable c))"
  by (intro sum_list_nonneg) (force dest: enc_invD(3))

lemma delete_sum: "distinct (map fst xs) \<Longrightarrow> map_of xs h = Some n \<Longrightarrow>
    sum_list (map snd (AList.delete h xs)) = sum_list (map snd xs) - (n :: int)"
proof (induction xs)
  case (Cons x xs)
  have "AList.delete h xs = xs" if "h \<notin> fst ` set xs" using that by (simp add: delete_idem)
  with Cons show ?case by (cases x) (auto split: if_splits)
qed simp

lemma check_and_update_cache_ok:
  assumes inv: "enc_inv sz c" and i: "i < length (mm_features r)"
  defines "h \<equiv> mm_identifier (mm_features r ! i)"
  shows "\<exists>c'. check_and_update_cache r (int i) c = Inr (cached c h \<noteq> None, c') \<and> enc_inv sz c' \<and>
    num_free_slots c' = num_free_slots c \<and> dom (cached c') = dom (cached c) \<and>
    (\<forall>h refs. cached c h = Some refs \<longrightarrow> (\<exists>refs'. cached c' h = Some refs' \<and> refs \<subseteq> refs')) \<and>
    (cached c h \<noteq> None \<longrightarrow> (\<exists>refs. cached c' h = Some refs \<and> request_id r \<in> refs))"
proof (cases "cached c h")
  case None
  then show ?thesis using inv input_facts(1) [OF i] by (simp add: check_and_update_cache_def h_def)
next
  case (Some refs)
  note D = enc_invD [OF inv]
  define c1 where "c1 = (if refs = {} then c\<lparr>freeable := AList.delete h (freeable c), num_freeable_slots := num_freeable_slots c - sz h\<rparr> else c)"
  let ?c = "c1\<lparr>cached := (cached c)(h \<mapsto> insert (request_id r) refs)\<rparr>"
  have mf: "map_of (freeable c) h = Some (sz h)" if "refs = {}"
  proof -
    have "h \<in> fst ` set (freeable c)" using D(4) Some that by simp
    then obtain n where "(h, n) \<in> set (freeable c)" by force
    then show ?thesis using D(2,3) by (metis map_of_is_SomeI)
  qed
  have eq: "check_and_update_cache r (int i) c = Inr (True, ?c)"
    using Some mf input_facts(1) [OF i] by (auto simp: check_and_update_cache_def h_def [symmetric] c1_def)
  have hd: "insert h (dom (cached c)) = dom (cached c)" using Some by auto
  have d: "dom ((cached c)(h \<mapsto> insert (request_id r) refs)) = dom (cached c)" using Some by auto
  have "enc_inv sz ?c"
  proof (cases "refs = {}")
    case True
    have "set (AList.delete h (freeable c)) \<subseteq> set (freeable c)" by (auto simp: AList.delete_eq)
    moreover have "fst ` set (AList.delete h (freeable c)) = fst ` set (freeable c) - {h}" by (auto simp: AList.delete_eq image_iff)
    ultimately show ?thesis using D True delete_sum [OF D(2) mf [OF True]] unfolding enc_inv_def
      by (auto simp: c1_def hd distinct_delete)
  next
    case False
    then show ?thesis using D Some unfolding enc_inv_def by (auto simp: c1_def hd)
  qed
  with eq d Some show ?thesis by (intro exI [of _ ?c]) (auto simp: c1_def)
qed

lemma evict_entries_ok:
  assumes "enc_inv sz c" and "\<forall>h. 0 \<le> sz h" and "freeable c = fs" and "n \<le> num_freeable_slots c"
  shows "\<exists>c'. evict_entries n fs c = Inr c' \<and> enc_inv sz c' \<and> n \<le> num_free_slots c' \<and> num_free_slots c \<le> num_free_slots c' \<and>
    dom (cached c') \<subseteq> dom (cached c) \<and> (\<forall>h refs. cached c h = Some refs \<longrightarrow> refs \<noteq> {} \<longrightarrow> cached c' h = Some refs)"
  using assms
proof (induction fs arbitrary: c)
  case Nil
  then show ?case using enc_invD(6) [OF Nil.prems(1)] by simp
next
  case (Cons x fs)
  note D = enc_invD [OF Cons.prems(1)]
  obtain h k where x: "x = (h, k)" by (cases x)
  have h: "cached c h = Some {}" "k = sz h" using D(3,4) Cons.prems(3) x by force+
  show ?case
  proof (cases "n > num_free_slots c")
    case False
    then show ?thesis using Cons.prems(1) x by auto
  next
    case True
    let ?c = "c\<lparr>freeable := fs, cached := (cached c)(h := None), freed := freed c @ [h], num_free_slots := num_free_slots c + k\<rparr>"
    have sm: "(\<Sum>g\<in>dom (cached c) - {h}. sz g) = (\<Sum>g\<in>dom (cached c). sz g) - sz h"
      using D(1) h(1) sum.remove [of "dom (cached c)" h sz] by (simp add: domI)
    have nh: "h \<notin> fst ` set fs" and df: "distinct (map fst fs)" using D(2) Cons.prems(3) x by auto
    have fk: "g \<in> fst ` set fs \<longleftrightarrow> g \<noteq> h \<and> cached c g = Some {}" for g
      using D(4) [of g] Cons.prems(3) x nh by auto
    have "enc_inv sz ?c" unfolding enc_inv_def
    proof (intro conjI allI impI)
      show "g \<in> fst ` set (freeable ?c) \<longleftrightarrow> cached ?c g = Some {}" for g using fk by simp
      show "k' = sz g" if "(g, k') \<in> set (freeable ?c)" for g k' using that D(3) Cons.prems(3) by simp
      show "num_free_slots ?c = cache_size ?c - (\<Sum>g\<in>dom (cached ?c). sz g)" using D(5) h(2) sm by simp
      show "num_freeable_slots ?c = num_free_slots ?c + sum_list (map snd (freeable ?c))" using D(6) Cons.prems(3) x by simp
      show "0 \<le> num_free_slots ?c" using D(7) h(2) Cons.prems(2) by simp
    qed (use D(1) df in simp_all)
    from Cons.IH [OF this Cons.prems(2)] Cons.prems(4) obtain c' where ev:
      "evict_entries n fs ?c = Inr c'" "enc_inv sz c'" "n \<le> num_free_slots c'" "num_free_slots c + k \<le> num_free_slots c'"
      "dom (cached c') \<subseteq> dom ((cached c)(h := None))" "\<forall>g refs. ((cached c)(h := None)) g = Some refs \<longrightarrow> refs \<noteq> {} \<longrightarrow> cached c' g = Some refs"
      by (auto simp: fun_upd_def)
    have "0 \<le> k" using h(2) Cons.prems(2) by simp
    then have "num_free_slots c \<le> num_free_slots c'" using ev(4) by simp
    moreover have "dom (cached c') \<subseteq> dom (cached c)" using ev(5) by (auto split: if_splits)
    moreover have "cached c' g = Some refs" if "cached c g = Some refs" "refs \<noteq> {}" for g refs
      using ev(6) that h(1) by (cases "g = h") auto
    ultimately show ?thesis using ev(1-3) True x h(1) by (intro exI [of _ c']) simp
  qed
qed

lemma can_allocate_ok:
  assumes inv: "enc_inv sz c" and sz: "sizes_ok sz r" and i: "i < length (mm_features r)"
  defines "n \<equiv> mm_length (mm_features r ! i)"
  shows "\<exists>c'. can_allocate r (int i) budget tot c = Inr (n \<le> budget \<and> n + tot \<le> num_freeable_slots c, c') \<and> enc_inv sz c' \<and>
    (n \<le> budget \<and> n + tot \<le> num_freeable_slots c \<longrightarrow> n + tot \<le> num_free_slots c') \<and> num_free_slots c \<le> num_free_slots c' \<and>
    dom (cached c') \<subseteq> dom (cached c) \<and> (\<forall>h refs. cached c h = Some refs \<longrightarrow> refs \<noteq> {} \<longrightarrow> cached c' h = Some refs)"
proof -
  have nn: "\<forall>h. 0 \<le> sz h" using sz by (simp add: sizes_ok_def)
  have le: "num_free_slots c \<le> num_freeable_slots c" using freeable_nonneg [OF inv nn] enc_invD(6) [OF inv] by simp
  note t = input_facts(2) [OF i, folded n_def]
  consider "budget < n" | "n \<le> budget" "n + tot \<le> num_free_slots c" | "n \<le> budget" "num_freeable_slots c < n + tot"
    | "n \<le> budget" "num_free_slots c < n + tot" "n + tot \<le> num_freeable_slots c" using le by linarith
  then show ?thesis
  proof cases
    case 4
    from evict_entries_ok [OF inv nn refl 4(3)] obtain c' where
      "evict_entries (n + tot) (freeable c) c = Inr c'" "enc_inv sz c'" "n + tot \<le> num_free_slots c'" "num_free_slots c \<le> num_free_slots c'"
      "dom (cached c') \<subseteq> dom (cached c)" "\<forall>h refs. cached c h = Some refs \<longrightarrow> refs \<noteq> {} \<longrightarrow> cached c' h = Some refs" by blast
    then show ?thesis using 4 by (intro exI [of _ c']) (simp add: can_allocate_def t)
  qed (use inv le in \<open>auto simp: can_allocate_def t\<close>)
qed

lemma enc_allocate_ok:
  assumes inv: "enc_inv sz c" and sz: "sizes_ok sz r" and i: "i < length (mm_features r)"
  defines "h \<equiv> mm_identifier (mm_features r ! i)"
  assumes h: "cached c h = None" and fit: "sz h \<le> num_free_slots c"
  shows "\<exists>c'. enc_allocate r (int i) c = Inr c' \<and> enc_inv sz c' \<and> cached c' = (cached c)(h \<mapsto> {request_id r}) \<and>
    num_free_slots c' = num_free_slots c - sz h"
proof -
  note D = enc_invD [OF inv]
  have n: "mm_length (mm_features r ! i) = sz h" using sz i by (simp add: sizes_ok_def h_def)
  have "sz h \<le> num_freeable_slots c" using freeable_nonneg [OF inv] sz fit D(6) by (simp add: sizes_ok_def)
  then have eq: "enc_allocate r (int i) c = Inr (c\<lparr>cached := (cached c)(h \<mapsto> {request_id r}),
      num_free_slots := num_free_slots c - sz h, num_freeable_slots := num_freeable_slots c - sz h\<rparr>)" (is "_ = Inr ?c")
    using h fit input_facts [OF i] n by (simp add: enc_allocate_def h_def)
  have "(\<Sum>g\<in>insert h (dom (cached c)). sz g) = sz h + (\<Sum>g\<in>dom (cached c). sz g)" using D(1) h by (intro sum.insert) auto
  then have "enc_inv sz ?c" using D h fit unfolding enc_inv_def by auto
  with eq show ?thesis by simp
qed

lemma update_append: "h \<notin> fst ` set xs \<Longrightarrow> AList.update h k xs = xs @ [(h, k)]"
  by (induction xs) auto

lemma free_encoder_input_ok:
  assumes inv: "enc_inv sz c" and sz: "sizes_ok sz r" and i: "i < length (mm_features r)"
  shows "\<exists>c'. free_encoder_input r (int i) c = Inr c' \<and> enc_inv sz c' \<and> num_free_slots c' = num_free_slots c \<and>
    dom (cached c') = dom (cached c)"
proof -
  let ?h = "mm_identifier (mm_features r ! i)"
  note D = enc_invD [OF inv]
  note t = input_facts [OF i]
  have n: "mm_length (mm_features r ! i) = sz ?h" using sz i by (simp add: sizes_ok_def)
  show ?thesis
  proof (cases "\<exists>refs. cached c ?h = Some refs \<and> refs \<noteq> {}")
    case False
    then show ?thesis using inv t by (auto simp: free_encoder_input_def split: option.splits)
  next
    case True
    then obtain refs where refs: "cached c ?h = Some refs" "refs \<noteq> {}" by blast
    have hd: "insert ?h (dom (cached c)) = dom (cached c)" using refs by auto
    have "?h \<notin> fst ` set (freeable c)" using D(4) refs by simp
    then have up: "AList.update ?h k (freeable c) = freeable c @ [(?h, k)]" for k by (simp add: update_append)
    let ?c1 = "c\<lparr>cached := (cached c)(?h \<mapsto> refs - {request_id r})\<rparr>"
    let ?c2 = "?c1\<lparr>freeable := freeable c @ [(?h, sz ?h)], num_freeable_slots := num_freeable_slots c + sz ?h\<rparr>"
    have "enc_inv sz ?c1" if "refs - {request_id r} \<noteq> {}" using D refs that unfolding enc_inv_def by (auto simp: hd)
    moreover have "enc_inv sz ?c2" if "refs - {request_id r} = {}" using D refs that \<open>?h \<notin> fst ` set (freeable c)\<close>
      unfolding enc_inv_def by (auto simp: hd)
    ultimately show ?thesis using refs t n up hd by (auto simp: free_encoder_input_def Let_def)
  qed
qed

lemma free_inputs_ok:
  assumes "enc_inv sz c" and "sizes_ok sz r" and "\<forall>i\<in>set ids. \<exists>j<length (mm_features r). i = int j"
  shows "\<exists>c'. rfold (free_encoder_input r) ids c = Inr c' \<and> enc_inv sz c' \<and> num_free_slots c' = num_free_slots c"
  using assms
proof (induction ids arbitrary: c)
  case (Cons i ids)
  from free_encoder_input_ok [OF Cons.prems(1,2)] Cons.prems(3) obtain c1 where
    "free_encoder_input r i c = Inr c1" "enc_inv sz c1" "num_free_slots c1 = num_free_slots c" by fastforce
  with Cons.IH [OF this(2) Cons.prems(2)] Cons.prems(3) show ?case by auto
qed simp

section \<open>Scheduling encoder inputs\<close>

abbreviation input_hash :: "request \<Rightarrow> nat \<Rightarrow> mm_hash" where
  "input_hash r i \<equiv> mm_identifier (mm_features r ! i)"

text \<open>The input is scheduled now, or cached and referenced by the request.\<close>

definition covered :: "request \<Rightarrow> nat list \<Rightarrow> encoder_cache \<Rightarrow> mm_hash \<Rightarrow> bool" where
  "covered r ids c h \<longleftrightarrow> h \<in> input_hash r ` set ids \<or> (\<exists>refs. cached c h = Some refs \<and> request_id r \<in> refs)"

text \<open>Inputs picked so far: each once, none cached, and all fit in the free slots.\<close>

definition picked :: "(mm_hash \<Rightarrow> int) \<Rightarrow> request \<Rightarrow> nat list \<Rightarrow> encoder_cache \<Rightarrow> bool" where
  "picked sz r ids c \<longleftrightarrow> set ids \<subseteq> {..<length (mm_features r)} \<and> distinct (map (input_hash r) ids) \<and>
     (\<forall>i\<in>set ids. cached c (input_hash r i) = None) \<and> (\<Sum>i\<leftarrow>ids. sz (input_hash r i)) \<le> num_free_slots c"

lemma covered_mono:
  assumes "covered r ids c h" and "set ids \<subseteq> set ids'"
    and "\<forall>h refs. cached c h = Some refs \<longrightarrow> refs \<noteq> {} \<longrightarrow> (\<exists>refs'. cached c' h = Some refs' \<and> refs \<subseteq> refs')"
  shows "covered r ids' c' h"
  using assms unfolding covered_def by blast

lemma picked_mono:
  assumes "picked sz r ids c" and "dom (cached c') \<subseteq> dom (cached c)" and "num_free_slots c \<le> num_free_slots c'"
  shows "picked sz r ids c'"
  using assms unfolding picked_def by (metis domIff order_trans subsetD)

lemma allocate_picked:
  assumes "enc_inv sz c" and "sizes_ok sz r" and "picked sz r ids c"
  shows "\<exists>c'. rfold (enc_allocate r) (map int ids) c = Inr c' \<and> enc_inv sz c' \<and>
    (\<forall>h. covered r ids c h \<longrightarrow> (\<exists>refs. cached c' h = Some refs \<and> request_id r \<in> refs))"
  using assms
proof (induction ids arbitrary: c)
  case Nil
  then show ?case by (simp add: covered_def)
next
  case (Cons i ids)
  let ?h = "input_hash r i"
  have nn: "0 \<le> (\<Sum>i\<leftarrow>ids. sz (input_hash r i))" using Cons.prems(2) by (intro sum_list_nonneg) (auto simp: sizes_ok_def)
  have i: "i < length (mm_features r)" "cached c ?h = None" "sz ?h \<le> num_free_slots c"
    using Cons.prems(3) nn by (auto simp: picked_def)
  from enc_allocate_ok [OF Cons.prems(1,2) i] obtain c1 where c1: "enc_allocate r (int i) c = Inr c1" "enc_inv sz c1"
    "cached c1 = (cached c)(?h \<mapsto> {request_id r})" "num_free_slots c1 = num_free_slots c - sz ?h" by blast
  have "picked sz r ids c1" using Cons.prems(3) c1(3,4) by (auto simp: picked_def image_iff)
  from Cons.IH [OF c1(2) Cons.prems(2) this] obtain c' where
    c': "rfold (enc_allocate r) (map int ids) c1 = Inr c'" "enc_inv sz c'"
    "\<forall>h. covered r ids c1 h \<longrightarrow> (\<exists>refs. cached c' h = Some refs \<and> request_id r \<in> refs)" by blast
  have "covered r ids c1 h" if "covered r (i # ids) c h" for h using that c1(3) i(2) by (auto simp: covered_def)
  with c' c1(1) show ?case by auto
qed

lemma encoder_input_loop_ok:
  assumes sz: "sizes_ok sz r" and "set js \<subseteq> {..<length (mm_features r)}" and "sorted (map (\<lambda>j. mm_offset (mm_features r ! j)) js)"
    and "enc_inv sz c" and "picked sz r ids c" and "hs = input_hash r ` set ids" and "tot = (\<Sum>i\<leftarrow>ids. sz (input_hash r i))"
    and "0 \<le> num_new" and "0 \<le> budget"
  shows "\<exists>ids' num budget' c'. encoder_input_loop r False no_chunk nct (map (\<lambda>j. (int j, mm_features r ! j)) js) (map int ids) hs tot num_new budget c =
      Inr (map int ids', num, budget', c') \<and> enc_inv sz c' \<and> picked sz r ids' c' \<and> 0 \<le> num \<and> num \<le> num_new \<and>
      0 \<le> budget' \<and> budget' + (\<Sum>i\<leftarrow>ids'. sz (input_hash r i)) = budget + tot \<and>
      (\<forall>h. covered r ids c h \<longrightarrow> covered r ids' c' h) \<and>
      (0 < num \<longrightarrow> (\<forall>j\<in>set js. mm_offset (mm_features r ! j) < nct + num \<and>
         nct < mm_offset (mm_features r ! j) + mm_length (mm_features r ! j) \<longrightarrow> covered r ids' c' (input_hash r j)))"
  using assms(2-9)
proof (induction js arbitrary: ids hs tot budget c)
  case Nil
  then show ?case by auto
next
  case (Cons j js)
  let ?f = "mm_features r ! j"
  let ?loop = "\<lambda>fs ids hs tot budget c. encoder_input_loop r False no_chunk nct (map (\<lambda>j. (int j, mm_features r ! j)) fs) (map int ids) hs tot num_new budget c"
  have j: "j < length (mm_features r)" and js: "set js \<subseteq> {..<length (mm_features r)}" "sorted (map (\<lambda>j. mm_offset (mm_features r ! j)) js)"
    and later: "\<And>k. k \<in> set js \<Longrightarrow> mm_offset ?f \<le> mm_offset (mm_features r ! k)" using Cons.prems by auto
  have len: "mm_length ?f = sz (input_hash r j)" using sz j by (simp add: sizes_ok_def)
  note stop = Cons.prems(3,4,6-8)
  consider (behind) "mm_offset ?f \<ge> nct + num_new" | (computed) "mm_offset ?f < nct + num_new" "mm_offset ?f + mm_length ?f \<le> nct"
    | (needed) "mm_offset ?f < nct + num_new" "nct < mm_offset ?f + mm_length ?f" by linarith
  then show ?case
  proof cases
    case behind
    have "?loop (j # js) ids hs tot budget c = Inr (map int ids, num_new, budget, c)" using behind by simp
    moreover have "\<forall>k\<in>set (j # js). \<not> mm_offset (mm_features r ! k) < nct + num_new" using behind later by fastforce
    ultimately show ?thesis using stop by auto
  next
    case computed
    have "?loop (j # js) ids hs tot budget c = ?loop js ids hs tot budget c" using computed by simp
    with Cons.IH [OF js Cons.prems(3-8)] computed(2) show ?thesis by auto
  next
    case needed
    define chk where "chk = (if mm_identifier ?f \<in> hs then Inr (True, c) else check_and_update_cache r (int j) c)"
    have "\<exists>skip c1. chk = Inr (skip, c1) \<and> enc_inv sz c1 \<and> picked sz r ids c1 \<and> (\<forall>h. covered r ids c h \<longrightarrow> covered r ids c1 h) \<and>
       (if skip then covered r ids c1 (input_hash r j) else cached c1 (input_hash r j) = None \<and> input_hash r j \<notin> hs)"
    proof (cases "mm_identifier ?f \<in> hs")
      case True
      then show ?thesis using Cons.prems by (auto simp: chk_def covered_def)
    next
      case False
      from check_and_update_cache_ok [OF Cons.prems(3) j] obtain c1 where c1:
        "check_and_update_cache r (int j) c = Inr (cached c (input_hash r j) \<noteq> None, c1)" "enc_inv sz c1"
        "num_free_slots c1 = num_free_slots c" "dom (cached c1) = dom (cached c)"
        "\<forall>h refs. cached c h = Some refs \<longrightarrow> (\<exists>refs'. cached c1 h = Some refs' \<and> refs \<subseteq> refs')"
        "cached c (input_hash r j) \<noteq> None \<longrightarrow> (\<exists>refs. cached c1 (input_hash r j) = Some refs \<and> request_id r \<in> refs)" by blast
      have "picked sz r ids c1" by (rule picked_mono [OF Cons.prems(4)]) (simp_all add: c1)
      moreover have "covered r ids c1 h" if "covered r ids c h" for h by (rule covered_mono [OF that]) (use c1(5) in auto)
      moreover have "cached c1 (input_hash r j) = None" if "cached c (input_hash r j) = None" using that c1(4) by (metis domIff)
      ultimately show ?thesis using c1(1,2,6) False by (auto simp: chk_def covered_def)
    qed
    then obtain skip c1 where chk: "chk = Inr (skip, c1)" and c1: "enc_inv sz c1" "picked sz r ids c1"
      and cov: "\<forall>h. covered r ids c h \<longrightarrow> covered r ids c1 h"
      and sk: "if skip then covered r ids c1 (input_hash r j) else cached c1 (input_hash r j) = None \<and> input_hash r j \<notin> hs" by blast
    have unf: "?loop (j # js) ids hs tot budget c = (if skip then ?loop js ids hs tot budget c1
        else if no_chunk \<and> nct < mm_offset ?f \<and> nct + num_new < mm_offset ?f + mm_length ?f
        then Inr (map int ids, mm_offset ?f - nct, budget, c1)
        else rbind (can_allocate r (int j) budget tot c1) (\<lambda>(ok, c).
          if \<not> ok then Inr (map int ids, if nct < mm_offset ?f then mm_offset ?f - nct else 0, budget, c)
          else encoder_input_loop r False no_chunk nct (map (\<lambda>j. (int j, mm_features r ! j)) js) (map int ids @ [int j])
                 (insert (mm_identifier ?f) hs) (tot + mm_length ?f) num_new (budget - mm_length ?f) c))"
      using needed chk unfolding chk_def by simp
    have cut: "\<forall>k\<in>set (j # js). \<not> mm_offset (mm_features r ! k) < nct + (mm_offset ?f - nct)" using later by fastforce
    consider (skip) skip | (chunk) "\<not> skip" "no_chunk \<and> nct < mm_offset ?f \<and> nct + num_new < mm_offset ?f + mm_length ?f"
      | (alloc) "\<not> skip" "\<not> (no_chunk \<and> nct < mm_offset ?f \<and> nct + num_new < mm_offset ?f + mm_length ?f)" by blast
    then show ?thesis
    proof cases
      case skip
      from Cons.IH [OF js c1 Cons.prems(5-8)] obtain ids' num budget' c' where
        "?loop js ids hs tot budget c1 = Inr (map int ids', num, budget', c')" "enc_inv sz c'" "picked sz r ids' c'" "0 \<le> num" "num \<le> num_new"
        "0 \<le> budget'" "budget' + (\<Sum>i\<leftarrow>ids'. sz (input_hash r i)) = budget + tot" "\<forall>h. covered r ids c1 h \<longrightarrow> covered r ids' c' h"
        "0 < num \<longrightarrow> (\<forall>j\<in>set js. mm_offset (mm_features r ! j) < nct + num \<and>
           nct < mm_offset (mm_features r ! j) + mm_length (mm_features r ! j) \<longrightarrow> covered r ids' c' (input_hash r j))" by blast
      then show ?thesis unfolding unf using skip sk cov by (intro exI [of _ ids'] exI [of _ num] exI [of _ budget'] exI [of _ c']) simp
    next
      case chunk
      then show ?thesis unfolding unf using c1 cov cut needed(1) stop by (auto intro!: exI [of _ ids])
    next
      case alloc
      from can_allocate_ok [OF c1(1) sz j, of budget tot] obtain ok c2 where c2: "can_allocate r (int j) budget tot c1 = Inr (ok, c2)"
        "ok \<longrightarrow> mm_length ?f \<le> budget \<and> mm_length ?f + tot \<le> num_free_slots c2" "enc_inv sz c2"
        "num_free_slots c1 \<le> num_free_slots c2" "dom (cached c2) \<subseteq> dom (cached c1)"
        "\<forall>h refs. cached c1 h = Some refs \<longrightarrow> refs \<noteq> {} \<longrightarrow> cached c2 h = Some refs" by auto
      have p2: "picked sz r ids c2" by (rule picked_mono [OF c1(2) c2(5,4)])
      have cov2: "covered r ids' c2 h" if "covered r ids c h" "set ids \<subseteq> set ids'" for ids' h
        by (rule covered_mono [of r ids c1]) (use that cov c2(6) in auto)
      show ?thesis
      proof (cases ok)
        case False
        then show ?thesis unfolding unf using alloc c2(1,3) p2 cov2 cut needed stop
          by (intro exI [of _ ids] exI [of _ "if nct < mm_offset ?f then mm_offset ?f - nct else 0"] exI [of _ budget] exI [of _ c2]) auto
      next
        case True
        have n2: "cached c2 (input_hash r j) = None" using sk alloc(1) c2(5) by (metis domIff subsetD)
        have "picked sz r (ids @ [j]) c2"
          using p2 n2 sk alloc(1) j c2(2) True Cons.prems(5,6) len by (auto simp: picked_def)
        from Cons.IH [OF js c2(3) this, of "insert (mm_identifier ?f) hs" "tot + mm_length ?f" "budget - mm_length ?f"] Cons.prems(5,6,7) c2(2) True len
        obtain ids' num budget' c' where res:
          "?loop js (ids @ [j]) (insert (mm_identifier ?f) hs) (tot + mm_length ?f) (budget - mm_length ?f) c2 = Inr (map int ids', num, budget', c')"
          "enc_inv sz c'" "picked sz r ids' c'" "0 \<le> num" "num \<le> num_new"
          "0 \<le> budget'" "budget' + (\<Sum>i\<leftarrow>ids'. sz (input_hash r i)) = budget + tot" "\<forall>h. covered r (ids @ [j]) c2 h \<longrightarrow> covered r ids' c' h"
          "0 < num \<longrightarrow> (\<forall>j\<in>set js. mm_offset (mm_features r ! j) < nct + num \<and>
             nct < mm_offset (mm_features r ! j) + mm_length (mm_features r ! j) \<longrightarrow> covered r ids' c' (input_hash r j))" by auto
        have "covered r (ids @ [j]) c2 (input_hash r j)" by (simp add: covered_def)
        then have here: "covered r ids' c' (input_hash r j)" using res(8) by blast
        have "covered r (ids @ [j]) c2 h" if "covered r ids c h" for h by (rule cov2 [OF that]) auto
        then have "covered r ids' c' h" if "covered r ids c h" for h using that res(8) by blast
        moreover have "?loop (j # js) ids hs tot budget c = Inr (map int ids', num, budget', c')"
          unfolding unf using alloc c2(1) True res(1) by auto
        moreover have "0 < num \<longrightarrow> (\<forall>j\<in>set (j # js). mm_offset (mm_features r ! j) < nct + num \<and>
             nct < mm_offset (mm_features r ! j) + mm_length (mm_features r ! j) \<longrightarrow> covered r ids' c' (input_hash r j))"
          using res(9) here by simp
        ultimately show ?thesis using res(2-7) by blast
      qed
    qed
  qed
qed

section \<open>Properties\<close>

text \<open>
  C36: scheduling encoder inputs on a decoder-only model. The search never raises, keeps slots
  conserved, grants no more decoder tokens and no more encoder tokens than asked for, and
  allocating the inputs it chose never fails an assertion; afterwards every encoder output that
  the granted decoder tokens need is in the cache and held by the request.
\<close>

theorem encoder_inputs_fit:
  assumes "enc_inv sz c" and "sizes_ok sz r" and "sorted (map mm_offset (mm_features r))" and "0 \<le> num_new" and "0 \<le> budget"
  shows "\<exists>ids num budget' c' c''. try_schedule_encoder_inputs False no_chunk r nct num_new budget c = Inr (ids, num, budget', c') \<and>
    0 \<le> num \<and> num \<le> num_new \<and> 0 \<le> budget' \<and> budget' \<le> budget \<and>
    rfold (enc_allocate r) ids c' = Inr c'' \<and> enc_inv sz c'' \<and>
    (\<forall>f\<in>set (mm_features r). 0 < num \<and> mm_offset f < nct + num \<and> nct < mm_offset f + mm_length f \<longrightarrow>
       (\<exists>refs. cached c'' (mm_identifier f) = Some refs \<and> request_id r \<in> refs))"
proof (cases "num_new = 0 \<or> \<not> has_encoder_inputs r")
  case True
  then show ?thesis using assms by (auto simp: try_schedule_encoder_inputs_def has_encoder_inputs_def)
next
  case False
  let ?js = "[0..<length (mm_features r)]"
  have "map (\<lambda>j. mm_offset (mm_features r ! j)) ?js = map mm_offset (mm_features r)" by (intro nth_equalityI) simp_all
  then have so: "sorted (map (\<lambda>j. mm_offset (mm_features r ! j)) ?js)" using assms(3) by simp
  have z: "zip (map int ?js) (mm_features r) = map (\<lambda>j. (int j, mm_features r ! j)) ?js" by (intro nth_equalityI) simp_all
  have p: "picked sz r [] c" using enc_invD(7) [OF assms(1)] by (simp add: picked_def)
  have sub: "set ?js \<subseteq> {..<length (mm_features r)}" by auto
  from encoder_input_loop_ok [OF assms(2) sub so assms(1) p refl refl assms(4,5), of no_chunk nct] obtain ids num budget' c' where
    l: "encoder_input_loop r False no_chunk nct (map (\<lambda>j. (int j, mm_features r ! j)) ?js) (map int []) (input_hash r ` set [])
        (\<Sum>i\<leftarrow>[]. sz (input_hash r i)) num_new budget c = Inr (map int ids, num, budget', c')" "enc_inv sz c'" "picked sz r ids c'" "0 \<le> num" "num \<le> num_new" "0 \<le> budget'"
      "budget' + (\<Sum>i\<leftarrow>ids. sz (input_hash r i)) = budget + (\<Sum>i\<leftarrow>[]. sz (input_hash r i))"
      "0 < num \<longrightarrow> (\<forall>j\<in>set ?js. mm_offset (mm_features r ! j) < nct + num \<and>
         nct < mm_offset (mm_features r ! j) + mm_length (mm_features r ! j) \<longrightarrow> covered r ids c' (input_hash r j))" by blast
  have "0 \<le> (\<Sum>i\<leftarrow>ids. sz (input_hash r i))" using assms(2) by (intro sum_list_nonneg) (auto simp: sizes_ok_def)
  then have b: "budget' \<le> budget" using l(7) by simp
  from allocate_picked [OF l(2) assms(2) l(3)] obtain c'' where
    a: "rfold (enc_allocate r) (map int ids) c' = Inr c''" "enc_inv sz c''"
      "\<forall>h. covered r ids c' h \<longrightarrow> (\<exists>refs. cached c'' h = Some refs \<and> request_id r \<in> refs)" by blast
  have "\<exists>refs. cached c'' (mm_identifier f) = Some refs \<and> request_id r \<in> refs"
    if "f \<in> set (mm_features r)" "0 < num" "mm_offset f < nct + num" "nct < mm_offset f + mm_length f" for f
  proof -
    from that(1) obtain j where j: "j < length (mm_features r)" "f = mm_features r ! j" by (metis in_set_conv_nth)
    then have "covered r ids c' (input_hash r j)" using l(8) that(2-4) by simp
    then show ?thesis using a(3) j(2) by blast
  qed
  moreover have "try_schedule_encoder_inputs False no_chunk r nct num_new budget c = Inr (map int ids, num, budget', c')"
    using l(1) False z by (simp add: try_schedule_encoder_inputs_def)
  ultimately show ?thesis using l(4-6) a(1,2) b by blast
qed

definition image_request :: "string \<Rightarrow> request" where
  "image_request rid = (text_request rid [1, 2, 3, 4, 5, 6])\<lparr>mm_features :=
     [\<lparr>mm_offset = 0, mm_length = 2, mm_identifier = Some ''img''\<rparr>, \<lparr>mm_offset = 3, mm_length = 2, mm_identifier = Some ''img2''\<rparr>]\<rparr>"

theorem encoder_inputs_fit_witness:
  "\<exists>ids num budget' c' c''. try_schedule_encoder_inputs False False (image_request ''r'') 0 6 8 (EncoderCacheManager 4) = Inr (ids, num, budget', c') \<and>
     num \<le> 6 \<and> rfold (enc_allocate (image_request ''r'')) ids c' = Inr c'' \<and> enc_inv (\<lambda>_. 2) c''"
proof -
  have "enc_inv (\<lambda>_. 2) (EncoderCacheManager 4)" "sizes_ok (\<lambda>_. 2) (image_request ''r'')" "sorted (map mm_offset (mm_features (image_request ''r'')))"
    by (simp_all add: EncoderCacheManager_inv sizes_ok_def image_request_def)
  from encoder_inputs_fit [OF this, of 6 8 False 0] show ?thesis by auto
qed

text \<open>Requests that share their one input, as the prompts of an encoder-decoder model do for equal audio.\<close>

definition shares_input :: "mm_feature \<Rightarrow> request list \<Rightarrow> bool" where
  "shares_input f rs \<longleftrightarrow> distinct (map request_id rs) \<and> (\<forall>r\<in>set rs. mm_features r = [f])"

definition refs_in :: "encoder_cache \<Rightarrow> mm_hash \<Rightarrow> string set" where
  "refs_in c h = (case cached c h of None \<Rightarrow> {} | Some refs \<Rightarrow> refs)"

lemma if_twice: "(if P then x else if P then y else z) = (if P then x else z)"
  by simp

lemma allocate_shared:
  assumes "\<forall>r\<in>set rs. mm_features r = [f]" and "0 \<le> mm_length f" and "int (length rs) * mm_length f \<le> num_free_slots c"
    and "num_free_slots c \<le> num_freeable_slots c" and "rs \<noteq> []"
  shows "rfold (\<lambda>r. enc_allocate r 0) rs c = Inr (c\<lparr>cached := (cached c)(mm_identifier f \<mapsto> request_id ` set rs \<union> refs_in c (mm_identifier f)),
    num_free_slots := num_free_slots c - int (length rs) * mm_length f,
    num_freeable_slots := num_freeable_slots c - int (length rs) * mm_length f\<rparr>)"
  using assms
proof (induction rs arbitrary: c)
  case (Cons r rs)
  let ?h = "mm_identifier f" and ?n = "mm_length f"
  define c1 where "c1 = c\<lparr>cached := (cached c)(?h \<mapsto> insert (request_id r) (refs_in c ?h)), num_free_slots := num_free_slots c - ?n,
    num_freeable_slots := num_freeable_slots c - ?n\<rparr>"
  have "0 \<le> int (length rs) * ?n" using Cons.prems(2) by simp
  then have n: "?n \<le> num_free_slots c" using Cons.prems(3) by (simp add: algebra_simps)
  then have a: "enc_allocate r 0 c = Inr c1"
    using input_facts [of 0 r] Cons.prems(1,4) by (simp add: enc_allocate_def refs_in_def c1_def Let_def)
  show ?case
  proof (cases "rs = []")
    case True
    then show ?thesis using a by (simp add: c1_def fun_upd_def)
  next
    case False
    have "rfold (\<lambda>r. enc_allocate r 0) rs c1 = Inr (c1\<lparr>cached := (cached c1)(?h \<mapsto> request_id ` set rs \<union> refs_in c1 ?h),
        num_free_slots := num_free_slots c1 - int (length rs) * ?n, num_freeable_slots := num_freeable_slots c1 - int (length rs) * ?n\<rparr>)"
      using Cons.prems False by (intro Cons.IH) (auto simp: c1_def algebra_simps)
    then show ?thesis using a by (simp add: c1_def refs_in_def algebra_simps fun_upd_def if_twice)
  qed
qed simp

lemma free_shared:
  assumes "shares_input f rs" and "cached c (mm_identifier f) = Some (request_id ` set rs)" and "rs \<noteq> []" and "\<forall>x. order [x] = [x]"
  shows "rfold (enc_free order) rs c = Inr (c\<lparr>cached := (cached c)(mm_identifier f \<mapsto> {}),
    freeable := AList.update (mm_identifier f) (mm_length f) (freeable c), num_freeable_slots := num_freeable_slots c + mm_length f\<rparr>)"
  using assms(1-3)
proof (induction rs arbitrary: c)
  case (Cons r rs)
  let ?h = "mm_identifier f"
  have f: "mm_features r = [f]" "request_id r \<notin> request_id ` set rs" "shares_input f rs"
    using Cons.prems(1) by (auto simp: shares_input_def)
  then have ids: "get_cached_input_ids r c = [0]" using Cons.prems(2) by (simp add: get_cached_input_ids_def mm_hashes_def)
  have refs: "insert (request_id r) (request_id ` set rs) - {request_id r} = request_id ` set rs" using f(2) by auto
  have e: "enc_free order r c = free_encoder_input r 0 c" using ids assms(4) by (simp add: enc_free_def rbind_def split: sum.split)
  show ?case
  proof (cases "rs = []")
    case True
    then show ?thesis using e f(1) Cons.prems(2) input_facts [of 0 r] by (simp add: free_encoder_input_def Let_def fun_upd_def)
  next
    case False
    let ?c = "c\<lparr>cached := (cached c)(?h \<mapsto> request_id ` set rs)\<rparr>"
    have "enc_free order r c = Inr ?c"
      using e f(1) Cons.prems(2) refs False input_facts [of 0 r] by (simp add: free_encoder_input_def Let_def fun_upd_def)
    then show ?thesis using Cons.IH [OF f(3), of ?c] False by (simp add: fun_upd_def if_twice)
  qed
qed simp

text \<open>
  C37: encoder-decoder models leak encoder slots. Their requests are given an encoder input without looking it up: it is
  charged again even if it is cached. When any number of requests that share their input have been allocated it and
  are all done, the cache holds it once, unused and evictable, but only the slots of one copy can be had back; the
  slots of all the other copies are gone for good.
\<close>

theorem encoder_decoder_leaks_slots:
  assumes "shares_input f rs" and "rs \<noteq> []" and "mm_offset f = 0" and "0 < mm_length f" and "\<forall>x. order [x] = [x]"
    and "cached c (mm_identifier f) = None" and "int (length rs) * mm_length f \<le> num_free_slots c" and "num_free_slots c \<le> num_freeable_slots c"
  shows "(\<forall>r\<in>set rs. \<forall>c' num_new budget. mm_length f \<le> num_free_slots c' \<and> mm_length f \<le> budget \<and> 0 < num_new \<longrightarrow>
      try_schedule_encoder_inputs True no_chunk r 0 num_new budget c' = Inr ([0], num_new, budget - mm_length f, c')) \<and>
    (\<exists>c1 c2. rfold (\<lambda>r. enc_allocate r 0) rs c = Inr c1 \<and> rfold (enc_free order) rs c1 = Inr c2 \<and>
      cached c2 = (cached c)(mm_identifier f \<mapsto> {}) \<and> freeable c2 = AList.update (mm_identifier f) (mm_length f) (freeable c) \<and>
      num_free_slots c2 = num_free_slots c - int (length rs) * mm_length f \<and>
      num_freeable_slots c2 = num_freeable_slots c - (int (length rs) - 1) * mm_length f)"
proof (intro conjI ballI allI impI)
  fix r and c' :: encoder_cache and num_new budget :: int
  assume r: "r \<in> set rs" and b: "mm_length f \<le> num_free_slots c' \<and> mm_length f \<le> budget \<and> 0 < num_new"
  have "mm_features r = [f]" using assms(1) r by (simp add: shares_input_def)
  then show "try_schedule_encoder_inputs True no_chunk r 0 num_new budget c' = Inr ([0], num_new, budget - mm_length f, c')"
    using assms(3,4) b input_facts [of 0 r] by (simp add: try_schedule_encoder_inputs_def has_encoder_inputs_def can_allocate_def)
next
  let ?h = "mm_identifier f" and ?n = "mm_length f" and ?k = "int (length rs)"
  define c1 where "c1 = c\<lparr>cached := (cached c)(?h \<mapsto> request_id ` set rs), num_free_slots := num_free_slots c - ?k * ?n,
    num_freeable_slots := num_freeable_slots c - ?k * ?n\<rparr>"
  have "rfold (\<lambda>r. enc_allocate r 0) rs c = Inr c1"
    using allocate_shared [of rs f c] assms by (simp add: shares_input_def refs_in_def c1_def)
  moreover from free_shared [OF assms(1) _ assms(2,5), of c1] have "rfold (enc_free order) rs c1 =
      Inr (c1\<lparr>cached := (cached c1)(?h \<mapsto> {}), freeable := AList.update ?h ?n (freeable c1), num_freeable_slots := num_freeable_slots c1 + ?n\<rparr>)"
    by (simp add: c1_def)
  ultimately show "\<exists>c1 c2. rfold (\<lambda>r. enc_allocate r 0) rs c = Inr c1 \<and> rfold (enc_free order) rs c1 = Inr c2 \<and>
      cached c2 = (cached c)(?h \<mapsto> {}) \<and> freeable c2 = AList.update ?h ?n (freeable c) \<and>
      num_free_slots c2 = num_free_slots c - ?k * ?n \<and> num_freeable_slots c2 = num_freeable_slots c - (?k - 1) * ?n"
    by (simp add: c1_def algebra_simps)
qed

text \<open>Three requests for the same audio in a cache of seven slots: four of the slots are lost.\<close>

definition audio_request :: "string \<Rightarrow> request" where
  "audio_request rid = (text_request rid [1, 2])\<lparr>mm_features := [\<lparr>mm_offset = 0, mm_length = 2, mm_identifier = Some ''audio''\<rparr>]\<rparr>"

theorem encoder_decoder_leaks_slots_witness:
  "\<exists>c1 c2. rfold (\<lambda>r. enc_allocate r 0) (map audio_request [''a'', ''b'', ''c'']) (EncoderCacheManager 7) = Inr c1 \<and>
     rfold (enc_free (\<lambda>ids. ids)) (map audio_request [''a'', ''b'', ''c'']) c1 = Inr c2 \<and>
     cached c2 (Some ''audio'') = Some {} \<and> num_freeable_slots c2 = 3"
  using encoder_decoder_leaks_slots [of "\<lparr>mm_offset = 0, mm_length = 2, mm_identifier = Some ''audio''\<rparr>" "map audio_request [''a'', ''b'', ''c'']"
      "\<lambda>ids. ids" "EncoderCacheManager 7" False]
  by (auto simp: shares_input_def audio_request_def text_request_def EncoderCacheManager_def)

end
