(* ===== verification/Estimator.thy ===== *)
theory Estimator
  imports Request_Model
begin

text \<open>
  \<^verbatim>\<open>ToolCallEstimator\<close> of \<^verbatim>\<open>vllm/v1/core/estimate_with_func.py\<close>: the history of each agent program, moving
  averages of tool execution times, the cost estimates InferCept compares, and the time to live
  Continuum gives a retained KV cache. The environment enters as functions from a prefix or a
  variable name to a parsed value (\<open>None\<close> when unset or not a number, which the code treats
  alike), the clock as an argument, and tokenizer plus output parser as one function.
\<close>

section \<open>State\<close>

datatype history_record = Arrival real | Departure real "string option"

record estimator =
  func_call_to_exec_time :: "string \<rightharpoonup> real"
  record_func_call_to_exec_time :: "string \<rightharpoonup> real list"
  record_all_exec_times :: "real list"
  job_to_history :: "string \<rightharpoonup> history_record list"

definition ToolCallEstimator :: estimator where
  "ToolCallEstimator = \<lparr>func_call_to_exec_time = Map.empty, record_func_call_to_exec_time = Map.empty,
     record_all_exec_times = [], job_to_history = Map.empty\<rparr>"

text \<open>\<^verbatim>\<open>request.job_id or request.request_id\<close>: an empty job id counts as none.\<close>

definition history_key :: "request \<Rightarrow> string" where
  "history_key r = (case job_id r of Some j \<Rightarrow> if j = [] then request_id r else j | None \<Rightarrow> request_id r)"

definition get_func_call_exec_time :: "estimator \<Rightarrow> string \<Rightarrow> real option" where
  "get_func_call_exec_time e f = func_call_to_exec_time e f"

section \<open>History\<close>

definition update_func_call_exec_time :: "real \<Rightarrow> string \<Rightarrow> estimator \<Rightarrow> estimator" where
  "update_func_call_exec_time now key e =
     (case job_to_history e key of
        None \<Rightarrow> e
      | Some [] \<Rightarrow> e
      | Some h \<Rightarrow>
          (case last h of
             Departure t (Some f) \<Rightarrow>
               (let exec_time = now - t;
                    recs = (case record_func_call_to_exec_time e f of None \<Rightarrow> [exec_time] | Some l \<Rightarrow> l @ [exec_time])
                in e\<lparr>record_func_call_to_exec_time := (record_func_call_to_exec_time e)(f \<mapsto> recs),
                     record_all_exec_times := record_all_exec_times e @ [exec_time],
                     func_call_to_exec_time :=
                       (func_call_to_exec_time e)(f \<mapsto> sum_list recs / real (length recs))\<rparr>)
           | _ \<Rightarrow> e))"

fun last_departure_call :: "history_record list \<Rightarrow> string option" where
  "last_departure_call [] = None"
| "last_departure_call (Departure _ f # _) = f"
| "last_departure_call (Arrival _ # h) = last_departure_call h"

definition add_history :: "string \<Rightarrow> history_record \<Rightarrow> estimator \<Rightarrow> estimator" where
  "add_history key rec e =
     e\<lparr>job_to_history := (job_to_history e)(key \<mapsto>
        (case job_to_history e key of Some h \<Rightarrow> h | None \<Rightarrow> []) @ [rec])\<rparr>"

text \<open>\<^verbatim>\<open>request_arrives\<close>: the history of a known key is never empty, but \<^verbatim>\<open>history[-1]\<close> could raise.\<close>

definition est_request_arrives :: "real \<Rightarrow> request \<Rightarrow> estimator \<Rightarrow> (request \<times> estimator) result" where
  "est_request_arrives now r e =
     (let key = history_key r
      in case job_to_history e key of
           None \<Rightarrow> Inr (r, add_history key (Arrival (arrival_time r)) e)
         | Some h \<Rightarrow>
             if h = [] then Inl IndexError
             else
               let derived = last_departure_call (rev h);
                   r' = (case last_func_call r of None \<Rightarrow> r\<lparr>last_func_call := derived\<rparr> | Some _ \<Rightarrow> r)
               in Inr (r', add_history key (Arrival (arrival_time r)) (update_func_call_exec_time now key e)))"

text \<open>\<^verbatim>\<open>request_finished\<close>: a missing call name is parsed from the detokenized output, if that works.\<close>

definition est_request_finished ::
  "(int list \<Rightarrow> string option) option \<Rightarrow> real \<Rightarrow> request \<Rightarrow> estimator \<Rightarrow> request \<times> estimator" where
  "est_request_finished parse_output now r e =
     (let call = (case this_func_call r of
                    Some f \<Rightarrow> Some f
                  | None \<Rightarrow> (case parse_output of
                      None \<Rightarrow> None
                    | Some p \<Rightarrow> if output_token_ids r \<noteq> [] then p (output_token_ids r) else None));
          r' = r\<lparr>this_func_call := call\<rparr>
      in (r', add_history (history_key r) (Departure now call) e))"

section \<open>Cost estimates\<close>

record est_env =
  env_quad :: "string \<Rightarrow> string \<Rightarrow> (real \<times> real \<times> real) option"
  env_num :: "string \<Rightarrow> string \<Rightarrow> real option"

fun first_some :: "('a \<Rightarrow> 'b option) \<Rightarrow> 'a list \<Rightarrow> 'b option" where
  "first_some f [] = None"
| "first_some f (x # xs) = (case f x of Some y \<Rightarrow> Some y | None \<Rightarrow> first_some f xs)"

definition env_prefixes :: "string \<Rightarrow> string list \<Rightarrow> string list" where
  "env_prefixes p fallbacks =
     fold (\<lambda>q ps. if q \<noteq> [] \<and> q \<notin> set ps then ps @ [q] else ps) (p # fallbacks) []"

definition quad_value :: "real \<times> real \<times> real \<Rightarrow> real \<Rightarrow> real" where
  "quad_value abc x = (case abc of (a, b, c) \<Rightarrow> max 0 (a * x * x + b * x + c))"

definition estimate_prefill_reload_s :: "est_env \<Rightarrow> string \<Rightarrow> int \<Rightarrow> real" where
  "estimate_prefill_reload_s env prefix prompt_tokens =
     (let x = real_of_int (max 0 prompt_tokens);
          ps = env_prefixes prefix [''CONTINUUM'']
      in case first_some (env_quad env ''PREFILL_RELOAD_QUAD'') ps of
           Some abc \<Rightarrow> quad_value abc x
         | None \<Rightarrow>
             (case first_some (env_num env ''PREFILL_RELOAD_S_PER_TOKEN'') ps of
                Some v \<Rightarrow> max 0 (v * x)
              | None \<Rightarrow> max 0 (2 / 10000 * x)))"

definition estimate_swap_transfer_s :: "est_env \<Rightarrow> string \<Rightarrow> int \<Rightarrow> real" where
  "estimate_swap_transfer_s env prefix context_tokens =
     (let x = real_of_int (max 0 context_tokens);
          ps = env_prefixes prefix [''LMCACHE'']
      in case first_some (env_quad env ''SWAP_TRANSFER_QUAD'') ps of
           Some abc \<Rightarrow> quad_value abc x
         | None \<Rightarrow>
             (let out = first_some (env_num env ''SWAP_OUT_S_PER_TOKEN'') ps;
                  inn = first_some (env_num env ''SWAP_IN_S_PER_TOKEN'') ps;
                  part = (\<lambda>v. case v of Some c \<Rightarrow> max 0 (c * x) | None \<Rightarrow> 0)
              in if out \<noteq> None \<or> inn \<noteq> None then part out + part inn
                 else (case first_some (env_num env ''SWAP_S_PER_TOKEN'') ps of
                     Some v \<Rightarrow> max 0 (v * x)
                   | None \<Rightarrow>
                       (case first_some (env_num env ''SWAP_FIXED_S'') ps of
                          Some v \<Rightarrow> max 0 v
                        | None \<Rightarrow> max 0 (4 / 100000 * x)))))"

definition estimate_tool_hold_s :: "est_env \<Rightarrow> string \<Rightarrow> string option \<Rightarrow> estimator \<Rightarrow> real" where
  "estimate_tool_hold_s env prefix tool e =
     (let known = (case tool of Some f \<Rightarrow> if f \<noteq> [] then get_func_call_exec_time e f else None | None \<Rightarrow> None)
      in case known of
           Some t \<Rightarrow> max 0 t
         | None \<Rightarrow>
             (case env_num env ''DEFAULT_TOOL_TIME_S'' prefix of Some v \<Rightarrow> max 0 v | None \<Rightarrow> max 0 2))"

section \<open>Time to live\<close>

definition ttl_reward :: "real list \<Rightarrow> real \<Rightarrow> real \<Rightarrow> real" where
  "ttl_reward records base tau =
     real (length (filter (\<lambda>t. t \<le> tau) records)) / real (length records) * base - tau"

text \<open>The scan over the candidates; \<open>None\<close> stands for the initial reward of minus infinity.\<close>

fun best_tau :: "(real \<Rightarrow> real) \<Rightarrow> (real \<times> real) option \<Rightarrow> real list \<Rightarrow> (real \<times> real) option" where
  "best_tau reward best [] = best"
| "best_tau reward best (tau # taus) =
     best_tau reward
       (case best of
          None \<Rightarrow> Some (tau, reward tau)
        | Some (b, w) \<Rightarrow> if reward tau > w then Some (tau, reward tau) else best) taus"

definition ttl_candidates :: "real list \<Rightarrow> real list" where
  "ttl_candidates records = sort (remdups (0 # filter (\<lambda>t. t \<ge> 0) records))"

definition calc_ttl_continuum_dynamic ::
  "estimator \<Rightarrow> string option \<Rightarrow> real \<Rightarrow> real \<Rightarrow> real \<Rightarrow> nat \<Rightarrow> real \<Rightarrow> real" where
  "calc_ttl_continuum_dynamic e tool prefill_reload_s queue_delay_s eta K default_ttl_s =
     (case tool of
        None \<Rightarrow> 0
      | Some f \<Rightarrow>
          let base = queue_delay_s * eta + prefill_reload_s
          in if base \<le> 0 then 0
             else
               let global_records = record_all_exec_times e;
                   tool_records = (case record_func_call_to_exec_time e f of Some l \<Rightarrow> l | None \<Rightarrow> [])
               in if length global_records \<le> K then max 0 default_ttl_s
                  else
                    let records = (if length tool_records > K then tool_records else global_records)
                    in if records = [] then 0
                       else (case best_tau (ttl_reward records base) None (ttl_candidates records) of
                           None \<Rightarrow> 0
                         | Some (tau, reward) \<Rightarrow> if reward \<le> 0 then 0 else tau))"

definition set_up_pin :: "estimator \<Rightarrow> request \<Rightarrow> real" where
  "set_up_pin e r =
     (case this_func_call r of
        None \<Rightarrow> 0
      | Some f \<Rightarrow>
          (let t = (case get_func_call_exec_time e f of Some t \<Rightarrow> t | None \<Rightarrow> 0)
           in if t > 2 then 0 else 2))"

section \<open>Lemmas\<close>

lemma best_tau_max:
  assumes "best_tau reward best taus = Some (b, w)" and "\<forall>c u. best = Some (c, u) \<longrightarrow> u = reward c"
  shows "w = reward b \<and> (best = Some (b, w) \<or> b \<in> set taus) \<and> (\<forall>t\<in>set taus. reward t \<le> reward b) \<and>
    (\<forall>c u. best = Some (c, u) \<longrightarrow> u \<le> reward b)"
  using assms
proof (induction reward best taus rule: best_tau.induct)
  case (1 reward best)
  then show ?case by simp
next
  case (2 reward best t taus)
  let ?b = "case best of None \<Rightarrow> Some (t, reward t) | Some (b, w) \<Rightarrow> if reward t > w then Some (t, reward t) else best"
  have ok: "\<forall>c u. ?b = Some (c, u) \<longrightarrow> u = reward c" using "2.prems"(2) by (auto split: option.splits)
  have e: "best_tau reward ?b taus = Some (b, w)" using "2.prems"(1) by simp
  from "2.IH" [OF e ok] show ?case by (auto split: option.splits if_splits)
qed

lemma best_tau_Some: "taus \<noteq> [] \<or> best \<noteq> None \<Longrightarrow> best_tau reward best taus \<noteq> None"
  by (induction reward best taus rule: best_tau.induct) (auto split: option.splits)

lemma ttl_candidates_set: "set (ttl_candidates records) = insert 0 {t \<in> set records. t \<ge> 0}"
  by (auto simp: ttl_candidates_def)

text \<open>Below a candidate nothing is gained: between two recorded times the hit rate is constant.\<close>

lemma reward_dominated:
  assumes "0 \<le> tau" and "0 \<le> base"
  shows "\<exists>c\<in>set (ttl_candidates records). c \<le> tau \<and> ttl_reward records base tau \<le> ttl_reward records base c"
proof -
  let ?C = "{c \<in> set (ttl_candidates records). c \<le> tau}"
  define m where "m = Max ?C"
  have fin: "finite ?C" and ne: "?C \<noteq> {}" using assms(1) by (auto simp: ttl_candidates_set)
  then have m: "m \<in> ?C" unfolding m_def by (rule Max_in)
  have "t \<le> m" if "t \<in> set records" "t \<le> tau" for t
  proof (cases "t \<ge> 0")
    case True
    then have "t \<in> ?C" using that by (simp add: ttl_candidates_set)
    then show ?thesis unfolding m_def using fin by (rule Max_ge [rotated])
  next
    case False
    moreover have "0 \<le> m" using m by (auto simp: ttl_candidates_set)
    ultimately show ?thesis by simp
  qed
  then have "filter (\<lambda>t. t \<le> tau) records = filter (\<lambda>t. t \<le> m) records"
    using m by (intro filter_cong) auto
  then have "ttl_reward records base tau \<le> ttl_reward records base m"
    using m by (simp add: ttl_reward_def)
  with m show ?thesis by blast
qed

text \<open>The averages are the means of the records, and a known program has a non-empty history.\<close>

definition mean_ok :: "real list \<Rightarrow> real list option \<Rightarrow> real option \<Rightarrow> bool" where
  "mean_ok all recs t =
     (case recs of
        None \<Rightarrow> t = None
      | Some l \<Rightarrow> l \<noteq> [] \<and> set l \<subseteq> set all \<and> t = Some (sum_list l / real (length l)))"

definition est_ok :: "estimator \<Rightarrow> bool" where
  "est_ok e \<longleftrightarrow>
     (\<forall>f. mean_ok (record_all_exec_times e) (record_func_call_to_exec_time e f) (func_call_to_exec_time e f)) \<and>
     (\<forall>k h. job_to_history e k = Some h \<longrightarrow> h \<noteq> [])"

inductive est_reach :: "estimator \<Rightarrow> bool" where
  er_init: "est_reach ToolCallEstimator"
| er_arrive: "est_reach e \<Longrightarrow> est_request_arrives now r e = Inr (r', e') \<Longrightarrow> est_reach e'"
| er_finish: "est_reach e \<Longrightarrow> est_request_finished po now r e = (r', e') \<Longrightarrow> est_reach e'"

lemma update_est_ok: "est_ok e \<Longrightarrow> est_ok (update_func_call_exec_time now k e)"
proof -
  assume ok: "est_ok e"
  show ?thesis
  proof (cases "\<exists>h t f. job_to_history e k = Some h \<and> h \<noteq> [] \<and> last h = Departure t (Some f)")
    case False
    then have "update_func_call_exec_time now k e = e"
      by (auto simp: update_func_call_exec_time_def split: option.splits list.splits history_record.splits)
    with ok show ?thesis by simp
  next
    case True
    then obtain h t f where h: "job_to_history e k = Some h" "h \<noteq> []" "last h = Departure t (Some f)" by blast
    let ?l = "case record_func_call_to_exec_time e f of None \<Rightarrow> [now - t] | Some l \<Rightarrow> l @ [now - t]"
    have u: "update_func_call_exec_time now k e = e\<lparr>
        record_func_call_to_exec_time := (record_func_call_to_exec_time e)(f \<mapsto> ?l),
        record_all_exec_times := record_all_exec_times e @ [now - t],
        func_call_to_exec_time := (func_call_to_exec_time e)(f \<mapsto> sum_list ?l / real (length ?l))\<rparr>"
      using h by (cases h) (simp_all add: update_func_call_exec_time_def Let_def)
    have "mean_ok (record_all_exec_times e @ [now - t]) (Some ?l) (Some (sum_list ?l / real (length ?l)))"
      using ok by (auto simp: est_ok_def mean_ok_def split: option.splits)
    moreover have "mean_ok (record_all_exec_times e @ [now - t]) rs v" if "mean_ok (record_all_exec_times e) rs v" for rs v
      using that by (auto simp: mean_ok_def split: option.splits)
    ultimately show ?thesis using ok unfolding u by (simp add: est_ok_def)
  qed
qed

lemma add_history_est_ok: "est_ok e \<Longrightarrow> est_ok (add_history k rec e)"
  by (simp add: est_ok_def add_history_def)

lemma est_reach_ok: "est_reach e \<Longrightarrow> est_ok e"
proof (induction rule: est_reach.induct)
  case er_init
  then show ?case by (simp add: est_ok_def mean_ok_def ToolCallEstimator_def)
next
  case (er_arrive e now r r' e')
  then show ?case
    by (auto simp: est_request_arrives_def Let_def update_est_ok add_history_est_ok split: option.splits if_splits)
next
  case (er_finish e po now r r' e')
  then show ?case by (auto simp: est_request_finished_def Let_def add_history_est_ok)
qed

section \<open>Properties\<close>

text \<open>
  The estimator's averages. After any sequence of arrivals and departures, an arrival never
  raises, and the execution time reported for a tool is the mean of the times recorded for it,
  all of which are in the global record.
\<close>

lemma estimator_averages:
  assumes "est_reach e"
  shows "(\<exists>r' e'. est_request_arrives now r e = Inr (r', e')) \<and>
    (case get_func_call_exec_time e f of
       None \<Rightarrow> record_func_call_to_exec_time e f = None
     | Some t \<Rightarrow> \<exists>l. record_func_call_to_exec_time e f = Some l \<and> l \<noteq> [] \<and>
         t = sum_list l / real (length l) \<and> set l \<subseteq> set (record_all_exec_times e))"
proof -
  have ok: "est_ok e" using assms by (rule est_reach_ok)
  have "\<exists>r' e'. est_request_arrives now r e = Inr (r', e')"
    using ok by (auto simp: est_ok_def est_request_arrives_def Let_def split: option.splits)
  moreover have "mean_ok (record_all_exec_times e) (record_func_call_to_exec_time e f) (func_call_to_exec_time e f)"
    using ok by (simp add: est_ok_def)
  ultimately show ?thesis by (auto simp: mean_ok_def get_func_call_exec_time_def split: option.splits)
qed

lemma estimator_averages_witness:
  "(\<exists>r' e'. est_request_arrives 5 (text_request ''a'' [1])
      (snd (est_request_finished None 3 ((text_request ''a'' [1])\<lparr>this_func_call := Some ''ls''\<rparr>) ToolCallEstimator)) = Inr (r', e'))"
proof -
  let ?p = "est_request_finished None 3 ((text_request ''a'' [1])\<lparr>this_func_call := Some ''ls''\<rparr>) ToolCallEstimator"
  have "est_reach (snd ?p)" by (rule er_finish [OF er_init, of None 3 "(text_request ''a'' [1])\<lparr>this_func_call := Some ''ls''\<rparr>" "fst ?p"]) simp
  from estimator_averages [OF this, of 5 "text_request ''a'' [1]" "''ls''"] show ?thesis by blast
qed

text \<open>
  C28: Continuum's time to live is optimal. Once more than \<open>K\<close> execution times are recorded and the
  reload cost is positive, the returned time is not negative and no other non-negative time, not
  only no other recorded one, earns a larger expected reward on the records it was computed from.
\<close>

theorem continuum_ttl_optimal:
  fixes e :: estimator and f :: string and K :: nat
    and queue_delay_s eta prefill_reload_s default_ttl_s :: real
  assumes "K < length (record_all_exec_times e)" and "0 < queue_delay_s * eta + prefill_reload_s"
  defines "tr \<equiv> (case record_func_call_to_exec_time e f of Some l \<Rightarrow> l | None \<Rightarrow> [])"
  defines "records \<equiv> (if K < length tr then tr else record_all_exec_times e)"
  defines "ttl \<equiv> calc_ttl_continuum_dynamic e (Some f) prefill_reload_s queue_delay_s eta K default_ttl_s"
  defines "base \<equiv> queue_delay_s * eta + prefill_reload_s"
  shows "0 \<le> ttl \<and> (\<forall>tau\<ge>0. ttl_reward records base tau \<le> ttl_reward records base ttl)"
proof -
  let ?R = "ttl_reward records base"
  have ne: "records \<noteq> []" using assms(1) by (auto simp: records_def)
  have "ttl_candidates records \<noteq> []" using ttl_candidates_set [of records] by auto
  then obtain b w where b: "best_tau ?R None (ttl_candidates records) = Some (b, w)"
    using best_tau_Some [of "ttl_candidates records" None ?R] by auto
  from best_tau_max [OF b] have m: "w = ?R b" "b \<in> set (ttl_candidates records)"
    "\<forall>t\<in>set (ttl_candidates records). ?R t \<le> ?R b" by auto
  have ttl: "ttl = (if w \<le> 0 then 0 else b)"
    unfolding ttl_def calc_ttl_continuum_dynamic_def
    using assms(1,2) ne b unfolding records_def tr_def base_def by (simp add: Let_def)
  have "0 \<le> b" using m(2) by (auto simp: ttl_candidates_set)
  have "0 \<le> ?R 0" using assms(2) by (simp add: ttl_reward_def base_def)
  moreover have "?R 0 \<le> w" using m by (simp add: ttl_candidates_set)
  ultimately have best: "w = ?R ttl" using ttl m(1) by auto
  have "?R tau \<le> ?R ttl" if "0 \<le> tau" for tau
    using reward_dominated [OF that, of base records] assms(2) m best by (force simp: base_def)
  with ttl \<open>0 \<le> b\<close> show ?thesis by auto
qed

theorem continuum_ttl_optimal_witness:
  "0 \<le> calc_ttl_continuum_dynamic (ToolCallEstimator\<lparr>record_all_exec_times := [1, 2]\<rparr>) (Some ''ls'') 5 0 1 1 2"
  using continuum_ttl_optimal [where e = "ToolCallEstimator\<lparr>record_all_exec_times := [1, 2]\<rparr>" and K = 1
      and queue_delay_s = 0 and eta = 1 and prefill_reload_s = 5 and f = "''ls''" and default_ttl_s = 2]
  by simp

end
