(* ===== verification/Infercept.thy ===== *)
theory Infercept
  imports Estimator Request_Queue
begin

text \<open>
  The InferCept policy of \<^verbatim>\<open>vllm/v1/core/sched/scheduler.py\<close>: whether the KV cache of a finished tool-call
  request is kept, moved out or dropped, by comparing the token-seconds each choice wastes. The
  environment variable that enables swapping and the class name of the KV connector are arguments.
\<close>

section \<open>Strings\<close>

text \<open>\<^verbatim>\<open>str.isspace\<close> on the characters below 256, and \<^verbatim>\<open>str.strip\<close>, \<^verbatim>\<open>str.lower\<close> on ASCII letters.\<close>

definition is_space :: "char \<Rightarrow> bool" where
  "is_space c \<longleftrightarrow> (of_char c :: nat) \<in> {9, 10, 11, 12, 13, 28, 29, 30, 31, 32, 133, 160}"

definition str_strip :: "string \<Rightarrow> string" where
  "str_strip s = rev (dropWhile is_space (rev (dropWhile is_space s)))"

definition str_lower :: "string \<Rightarrow> string" where
  "str_lower s = map (\<lambda>c. let n = of_char c :: nat in if 65 \<le> n \<and> n \<le> 90 then char_of (n + 32) else c) s"

definition truthy_env :: "string option \<Rightarrow> bool" where
  "truthy_env v = (str_lower (str_strip (case v of Some s \<Rightarrow> s | None \<Rightarrow> [])) \<in> {''1'', ''true'', ''yes'', ''on''})"

section \<open>Costs\<close>

definition infercept_context_tokens :: "int \<Rightarrow> request \<Rightarrow> int" where
  "infercept_context_tokens max_model_len r = max 0 (min (num_tokens r) max_model_len)"

definition infercept_other_running_tokens :: "int \<Rightarrow> request list \<Rightarrow> request \<Rightarrow> int" where
  "infercept_other_running_tokens max_model_len running r =
     (\<Sum>q\<leftarrow>filter (\<lambda>q. request_id q \<noteq> request_id r) running. infercept_context_tokens max_model_len q)"

definition infercept_preserve_cost_s_tokens :: "real \<Rightarrow> int \<Rightarrow> real" where
  "infercept_preserve_cost_s_tokens hold_s context_tokens = max 0 hold_s * real_of_int (max 0 context_tokens)"

definition infercept_chunked_discard_cost_s_tokens :: "real \<Rightarrow> int \<Rightarrow> int \<Rightarrow> real" where
  "infercept_chunked_discard_cost_s_tokens prefill_reload_s context_tokens other_running_tokens =
     (let total_tokens = max 0 context_tokens + max 0 other_running_tokens
      in max 0 prefill_reload_s * real_of_int total_tokens / 2)"

definition infercept_swap_cost_s_tokens :: "real \<Rightarrow> int \<Rightarrow> real" where
  "infercept_swap_cost_s_tokens transfer_s context_tokens = max 0 transfer_s * real_of_int (max 0 context_tokens)"

section \<open>Decisions\<close>

datatype kv_action = Evict | Preserve | Swap

record infercept_decision =
  dec_action :: kv_action
  dec_context_tokens :: int
  dec_hold_s :: "real option"
  dec_costs :: "(kv_action \<times> real) list"

definition infercept_policy_enabled :: "SchedulingPolicy \<Rightarrow> bool" where
  "infercept_policy_enabled p \<longleftrightarrow> p \<in> {INFERCEPT, INFERCEPT_SWAP}"

definition infercept_swap_available :: "SchedulingPolicy \<Rightarrow> string option \<Rightarrow> string option \<Rightarrow> bool" where
  "infercept_swap_available p connector enable_env =
     (case connector of
        None \<Rightarrow> False
      | Some cls \<Rightarrow>
          if p = INFERCEPT_SWAP then cls = ''SelectiveLMCacheConnectorV1''
          else if \<not> truthy_env enable_env then False
          else cls = ''SelectiveLMCacheConnectorV1'')"

definition infercept_should_pin :: "SchedulingPolicy \<Rightarrow> request \<Rightarrow> bool" where
  "infercept_should_pin p r =
     (if \<not> infercept_policy_enabled p then False
      else if job_id r = None then False
      else if is_last_step r \<noteq> Some False then False
      else case this_func_call r of None \<Rightarrow> False | Some f \<Rightarrow> str_strip f \<noteq> [])"

definition infercept_pin_ttl_s :: "est_env \<Rightarrow> int \<Rightarrow> request list \<Rightarrow> request \<Rightarrow> real" where
  "infercept_pin_ttl_s env max_model_len running r =
     (let c_i = infercept_context_tokens max_model_len r
      in if c_i \<le> 0 then 0
         else
           let c_other = infercept_other_running_tokens max_model_len running r;
               t_fwd = estimate_prefill_reload_s env ''INFERCEPT'' c_i;
               discard_cost = infercept_chunked_discard_cost_s_tokens t_fwd c_i c_other
           in if discard_cost \<le> 0 then 0 else max 0 (discard_cost / real_of_int c_i))"

fun tie_order :: "kv_action \<Rightarrow> int" where
  "tie_order Evict = 0"
| "tie_order Swap = 1"
| "tie_order Preserve = 2"

text \<open>\<^verbatim>\<open>min(costs, key=lambda k: (costs[k], tie_order[k]))\<close>.\<close>

fun cheapest :: "kv_action \<times> real \<Rightarrow> (kv_action \<times> real) list \<Rightarrow> kv_action" where
  "cheapest (a, c) [] = a"
| "cheapest (a, c) ((b, d) # rest) =
     cheapest (if d < c \<or> (d = c \<and> tie_order b < tie_order a) then (b, d) else (a, c)) rest"

definition infercept_choose_kv_action ::
  "est_env \<Rightarrow> estimator \<Rightarrow> SchedulingPolicy \<Rightarrow> string option \<Rightarrow> string option \<Rightarrow> int \<Rightarrow> request list \<Rightarrow> request \<Rightarrow> infercept_decision option" where
  "infercept_choose_kv_action env e p connector enable_env max_model_len running r =
     (if \<not> infercept_should_pin p r then None
      else
        let c_i = infercept_context_tokens max_model_len r
        in if c_i \<le> 0 then Some \<lparr>dec_action = Evict, dec_context_tokens = c_i, dec_hold_s = None, dec_costs = []\<rparr>
           else
             let c_other = infercept_other_running_tokens max_model_len running r;
                 hold_s = estimate_tool_hold_s env ''INFERCEPT'' (this_func_call r) e;
                 prefill_reload_s = estimate_prefill_reload_s env ''INFERCEPT'' c_i;
                 evict_cost = infercept_chunked_discard_cost_s_tokens prefill_reload_s c_i c_other;
                 preserve_cost = infercept_preserve_cost_s_tokens hold_s c_i;
                 swap = (if infercept_swap_available p connector enable_env
                         then [(Swap, infercept_swap_cost_s_tokens (estimate_swap_transfer_s env ''INFERCEPT'' c_i) c_i)] else []);
                 costs = [(Evict, evict_cost), (Preserve, preserve_cost)] @ swap
             in Some \<lparr>dec_action = cheapest (Evict, evict_cost) ((Preserve, preserve_cost) # swap), dec_context_tokens = c_i,
                      dec_hold_s = Some hold_s, dec_costs = costs\<rparr>)"

section \<open>Properties\<close>

lemma cheapest_least:
  "\<exists>d. (cheapest (a, c) xs, d) \<in> set ((a, c) # xs) \<and>
    (\<forall>(b, e)\<in>set ((a, c) # xs). d < e \<or> (d = e \<and> tie_order (cheapest (a, c) xs) \<le> tie_order b))"
proof (induction xs arbitrary: a c)
  case Nil
  then show ?case by simp
next
  case (Cons x xs)
  obtain b e where x: "x = (b, e)" by (cases x)
  define w where "w = (if e < c \<or> (e = c \<and> tie_order b < tie_order a) then (b, e) else (a, c))"
  obtain w1 w2 where w: "w = (w1, w2)" by (cases w)
  have sub: "set ((w1, w2) # xs) \<subseteq> set ((a, c) # x # xs)" using w w_def x by (auto split: if_splits)
  from Cons.IH [of w1 w2] obtain d where d: "(cheapest (w1, w2) xs, d) \<in> set ((w1, w2) # xs)"
    "\<forall>(b, e)\<in>set ((w1, w2) # xs). d < e \<or> (d = e \<and> tie_order (cheapest (w1, w2) xs) \<le> tie_order b)"
    by (elim exE conjE) (erule (1) that)
  have eq: "cheapest (a, c) (x # xs) = cheapest (w1, w2) xs" using w w_def x by simp
  have "\<forall>(b, e)\<in>set ((a, c) # x # xs). d < e \<or> (d = e \<and> tie_order (cheapest (w1, w2) xs) \<le> tie_order b)"
    using d(2) w w_def x by (auto split: if_splits)
  with d(1) sub show ?case unfolding eq by blast
qed

text \<open>
  C38: the InferCept decision. For a tool call with a context, the choice has the least cost in
  token-seconds among eviction, preservation and, when a connector offers it, swapping; on a tie
  it prefers eviction to swapping to preservation. The cache is preserved only if the expected
  tool time is below the break-even time, at which preserving costs as much as recomputing.
\<close>

theorem infercept_cheapest_action:
  assumes "infercept_choose_kv_action env e p connector enable_env max_model_len running r = Some d"
    and "0 < infercept_context_tokens max_model_len r"
  shows "let c = real_of_int (infercept_context_tokens max_model_len r);
      other = real_of_int (infercept_other_running_tokens max_model_len running r);
      reload = estimate_prefill_reload_s env ''INFERCEPT'' (infercept_context_tokens max_model_len r);
      hold = estimate_tool_hold_s env ''INFERCEPT'' (this_func_call r) e;
      transfer = estimate_swap_transfer_s env ''INFERCEPT'' (infercept_context_tokens max_model_len r);
      costs = [(Evict, max 0 reload * (c + other) / 2), (Preserve, max 0 hold * c)] @
        (if infercept_swap_available p connector enable_env then [(Swap, max 0 transfer * c)] else [])
    in (\<exists>k. (dec_action d, k) \<in> set costs \<and>
         (\<forall>(a, k')\<in>set costs. k < k' \<or> (k = k' \<and> tie_order (dec_action d) \<le> tie_order a))) \<and>
       (dec_action d = Preserve \<longrightarrow> hold < infercept_pin_ttl_s env max_model_len running r)"
proof -
  define c where "c = infercept_context_tokens max_model_len r"
  define other where "other = infercept_other_running_tokens max_model_len running r"
  define ev where "ev = infercept_chunked_discard_cost_s_tokens (estimate_prefill_reload_s env ''INFERCEPT'' c) c other"
  define hold where "hold = estimate_tool_hold_s env ''INFERCEPT'' (this_func_call r) e"
  define pr where "pr = infercept_preserve_cost_s_tokens hold c"
  define sw where "sw = (if infercept_swap_available p connector enable_env
     then [(Swap, infercept_swap_cost_s_tokens (estimate_swap_transfer_s env ''INFERCEPT'' c) c)] else [])"
  have c: "0 < c" using assms(2) by (simp add: c_def)
  have other: "0 \<le> other" unfolding other_def infercept_other_running_tokens_def
    by (intro sum_list_nonneg) (auto simp: infercept_context_tokens_def)
  have pin: "infercept_should_pin p r" using assms(1) by (rule contrapos_pp) (simp add: infercept_choose_kv_action_def)
  have a: "dec_action d = cheapest (Evict, ev) ((Preserve, pr) # sw)"
    using assms(1) pin c unfolding infercept_choose_kv_action_def Let_def c_def [symmetric] other_def [symmetric]
      ev_def [symmetric] hold_def [symmetric] pr_def [symmetric] sw_def [symmetric] by (auto simp del: cheapest.simps)
  have evc: "ev = max 0 (estimate_prefill_reload_s env ''INFERCEPT'' c) * (real_of_int c + real_of_int other) / 2"
    using c other by (simp add: ev_def infercept_chunked_discard_cost_s_tokens_def)
  have prc: "pr = max 0 hold * real_of_int c" using c by (simp add: pr_def infercept_preserve_cost_s_tokens_def)
  from cheapest_least [of Evict ev "(Preserve, pr) # sw"] obtain k where k: "(dec_action d, k) \<in> set ((Evict, ev) # (Preserve, pr) # sw)"
    "\<forall>(b, k')\<in>set ((Evict, ev) # (Preserve, pr) # sw). k < k' \<or> (k = k' \<and> tie_order (dec_action d) \<le> tie_order b)"
    unfolding a [symmetric] by (elim exE conjE) (erule (1) that)
  have ttl: "hold < infercept_pin_ttl_s env max_model_len running r" if P: "dec_action d = Preserve"
  proof -
    have "k = pr" using k(1) P by (auto simp: sw_def split: if_splits)
    then have lt: "pr < ev" using k(2) P by auto
    have "0 \<le> pr" using prc c by simp
    with lt have "0 < ev" by simp
    have "max 0 hold < ev / real_of_int c" using lt c unfolding prc by (subst pos_less_divide_eq) simp_all
    then show ?thesis using c \<open>0 < ev\<close>
      by (simp add: infercept_pin_ttl_s_def Let_def c_def [symmetric] other_def [symmetric] ev_def [symmetric])
  qed
  have costs: "[(Evict, max 0 (estimate_prefill_reload_s env ''INFERCEPT'' c) * (real_of_int c + real_of_int other) / 2),
      (Preserve, max 0 hold * real_of_int c)] @ (if infercept_swap_available p connector enable_env
      then [(Swap, max 0 (estimate_swap_transfer_s env ''INFERCEPT'' c) * real_of_int c)] else []) = (Evict, ev) # (Preserve, pr) # sw"
    using c by (simp add: evc prc sw_def infercept_swap_cost_s_tokens_def)
  show ?thesis unfolding Let_def c_def [symmetric] other_def [symmetric] hold_def [symmetric] costs using k ttl by blast
qed

definition tool_request :: request where
  "tool_request = (text_request ''r'' [1, 2, 3, 4])\<lparr>job_id := Some ''job'', is_last_step := Some False, this_func_call := Some ''ls''\<rparr>"

definition no_env :: est_env where
  "no_env = \<lparr>env_quad = (\<lambda>_ _. None), env_num = (\<lambda>_ _. None)\<rparr>"

theorem infercept_cheapest_action_witness:
  "\<exists>d. infercept_choose_kv_action no_env ToolCallEstimator INFERCEPT None None 8 [] tool_request = Some d \<and>
     (dec_action d = Preserve \<longrightarrow> estimate_tool_hold_s no_env ''INFERCEPT'' (Some ''ls'') ToolCallEstimator < infercept_pin_ttl_s no_env 8 [] tool_request)"
proof -
  have pin: "infercept_should_pin INFERCEPT tool_request" by code_simp
  have ctx: "infercept_context_tokens 8 tool_request = 4" by code_simp
  then obtain d where d: "infercept_choose_kv_action no_env ToolCallEstimator INFERCEPT None None 8 [] tool_request = Some d"
    using pin by (simp add: infercept_choose_kv_action_def Let_def)
  from infercept_cheapest_action [OF d] ctx
  have "dec_action d = Preserve \<longrightarrow> estimate_tool_hold_s no_env ''INFERCEPT'' (this_func_call tool_request) ToolCallEstimator < infercept_pin_ttl_s no_env 8 [] tool_request"
    unfolding Let_def by simp
  then show ?thesis using d by (auto simp: tool_request_def)
qed

end
