(* ===== verification/LightLLM.thy ===== *)
theory LightLLM
  imports Request_Model
begin

text \<open>
  \<^verbatim>\<open>vllm/v1/core/sched/lightllm_policy.py\<close>: the admission test of LightLLM's chunked prefill, which
  estimates the peak number of tokens in memory if a waiting request is admitted, and the moving
  average of output lengths it relies on. Floating-point numbers are real numbers.
\<close>

section \<open>Configuration\<close>

record lightllm_config =
  router_token_ratio :: real
  router_max_wait_tokens :: int
  ll_chunk_size :: int
  batch_max_tokens :: int

definition LightLLMAdmissionConfig :: "real \<Rightarrow> int \<Rightarrow> int \<Rightarrow> int \<Rightarrow> lightllm_config result" where
  "LightLLMAdmissionConfig ratio wait chunk batch =
     (if \<not> (0 \<le> ratio \<and> ratio \<le> 1) then Inl ValueError
      else if wait < 0 then Inl ValueError
      else if chunk \<le> 0 then Inl ValueError
      else if batch \<le> 0 then Inl ValueError
      else if chunk > batch then Inl ValueError
      else Inr \<lparr>router_token_ratio = ratio, router_max_wait_tokens = wait, ll_chunk_size = chunk, batch_max_tokens = batch\<rparr>)"

definition prefill_admission_budget :: "lightllm_config \<Rightarrow> int" where
  "prefill_admission_budget cfg = batch_max_tokens cfg * 2"

section \<open>Requests\<close>

record lightllm_state =
  ll_input_len :: int
  ll_output_len :: int
  ll_kv_len :: int
  ll_max_new_tokens :: int
  ll_ignore_eos :: bool
  ll_request_id :: "string option"

definition LightLLMRequestState :: "int \<Rightarrow> int \<Rightarrow> int \<Rightarrow> int \<Rightarrow> bool \<Rightarrow> string option \<Rightarrow> lightllm_state result" where
  "LightLLMRequestState input_len output_len kv_len max_new ignore_eos rid =
     (if input_len < 0 \<or> output_len < 0 \<or> kv_len < 0 \<or> max_new < 0 then Inl ValueError
      else Inr \<lparr>ll_input_len = input_len, ll_output_len = output_len, ll_kv_len = kv_len,
                ll_max_new_tokens = max_new, ll_ignore_eos = ignore_eos, ll_request_id = rid\<rparr>)"

text \<open>\<^verbatim>\<open>int(1.1 * n)\<close> for a natural number \<open>n\<close>: the double nearest 1.1 is a little above it.\<close>

definition token_tuple :: "bool \<Rightarrow> int \<Rightarrow> lightllm_config \<Rightarrow> lightllm_state \<Rightarrow> int \<times> int" where
  "token_tuple is_busy ema_output_len cfg st =
     (let estimated_max_output =
            (if ll_ignore_eos st \<or> is_busy then ll_max_new_tokens st
             else min (ll_max_new_tokens st) (max (11 * ll_output_len st div 10) ema_output_len));
          a_len = max (ll_input_len st + ll_output_len st + 1) (ll_kv_len st + 1);
          remaining_prefill = ll_input_len st + ll_output_len st - ll_kv_len st;
          prefill_chunks = (remaining_prefill + ll_chunk_size cfg - 1) div ll_chunk_size cfg;
          b_len = prefill_chunks * (router_max_wait_tokens cfg + 1) + estimated_max_output - ll_output_len st - 1
      in (a_len, max 0 b_len + 16))"

definition decode_need_tokens :: "int \<Rightarrow> lightllm_state \<Rightarrow> int" where
  "decode_need_tokens chunk st = min (max 0 (ll_input_len st + ll_output_len st - ll_kv_len st)) chunk"

definition first_router_need_tokens :: "int \<Rightarrow> lightllm_state \<Rightarrow> int" where
  "first_router_need_tokens chunk st = min (ll_input_len st + ll_output_len st) chunk"

definition is_decode_step :: "lightllm_state \<Rightarrow> bool" where
  "is_decode_step st \<longleftrightarrow> ll_kv_len st + 1 = ll_input_len st + ll_output_len st"

definition has_prefill_work :: "lightllm_state list \<Rightarrow> bool" where
  "has_prefill_work states = (\<exists>st\<in>set states. \<not> is_decode_step st)"

section \<open>The controller\<close>

datatype admission_reason = ADMITTED | TOKEN_CAPACITY | REQUEST_LIMIT | PREFILL_BUDGET

record lightllm_decision =
  ll_admitted :: bool
  ll_reason :: admission_reason
  ll_peak_tokens :: int
  ll_prefill_tokens :: int
  ll_is_busy :: bool

record lightllm_controller =
  ll_config :: lightllm_config
  max_total_tokens :: int
  running_max_req_size :: int
  ema_output_len :: int
  ema_alpha :: real

definition LightLLMAdmissionController :: "lightllm_config \<Rightarrow> int \<Rightarrow> int \<Rightarrow> lightllm_controller result" where
  "LightLLMAdmissionController cfg tot req_size =
     (if tot \<le> 0 then Inl ValueError
      else if req_size \<le> 0 then Inl ValueError
      else Inr \<lparr>ll_config = cfg, max_total_tokens = tot, running_max_req_size = req_size, ema_output_len = 2048, ema_alpha = 1 / 2\<rparr>)"

definition ll_busy :: "lightllm_controller \<Rightarrow> int \<Rightarrow> bool result" where
  "ll_busy c active_kv_tokens =
     (if active_kv_tokens < 0 then Inl ValueError
      else Inr (real_of_int active_kv_tokens / real_of_int (max_total_tokens c) \<ge> router_token_ratio (ll_config c)))"

text \<open>The scan over the tuples in descending order of \<open>b_len\<close>.\<close>

fun peak_loop :: "int \<Rightarrow> int \<Rightarrow> int \<Rightarrow> (int \<times> int) list \<Rightarrow> int" where
  "peak_loop index cumulative_a peak [] = peak"
| "peak_loop index cumulative_a peak ((a_len, b_len) # rest) =
     peak_loop (index + 1) (cumulative_a + a_len) (max peak (b_len * index + (cumulative_a + a_len))) rest"

definition estimate_peak_tokens :: "lightllm_controller \<Rightarrow> bool \<Rightarrow> lightllm_state list \<Rightarrow> int" where
  "estimate_peak_tokens c is_busy states =
     (let token_tuples = map (token_tuple is_busy (ema_output_len c) (ll_config c)) states
      in peak_loop 1 0 0 (sort_key (\<lambda>(_, b). - b) token_tuples))"

definition ll_evaluate :: "lightllm_controller \<Rightarrow> lightllm_state list \<Rightarrow> lightllm_state \<Rightarrow> int \<Rightarrow> lightllm_decision result" where
  "ll_evaluate c active candidate active_kv_tokens =
     rbind (ll_busy c active_kv_tokens) (\<lambda>is_busy.
       let proposed = active @ [candidate];
           peak_tokens = estimate_peak_tokens c is_busy proposed;
           chunk = ll_chunk_size (ll_config c);
           prefill_tokens = (\<Sum>st\<leftarrow>active. decode_need_tokens chunk st) + first_router_need_tokens chunk candidate;
           reason = (if peak_tokens \<ge> max_total_tokens c then TOKEN_CAPACITY
                     else if int (length proposed) > running_max_req_size c then REQUEST_LIMIT
                     else if prefill_tokens > prefill_admission_budget (ll_config c) then PREFILL_BUDGET
                     else ADMITTED)
       in Inr \<lparr>ll_admitted = (reason = ADMITTED), ll_reason = reason, ll_peak_tokens = peak_tokens,
               ll_prefill_tokens = prefill_tokens, ll_is_busy = is_busy\<rparr>)"

text \<open>\<^verbatim>\<open>int(x)\<close> truncates; the average is never negative.\<close>

definition update_output_ema :: "int \<Rightarrow> lightllm_controller \<Rightarrow> (int \<times> lightllm_controller) result" where
  "update_output_ema output_tokens c =
     (if output_tokens < 0 then Inl ValueError
      else
        let observed = max output_tokens 64;
            avg = real_of_int (ema_output_len c) * (1 - ema_alpha c) + real_of_int observed * ema_alpha c;
            ema = max 64 (if avg \<ge> 0 then \<lfloor>avg\<rfloor> else \<lceil>avg\<rceil>)
        in Inr (ema, c\<lparr>ema_output_len := ema, ema_alpha := max (4 / 100) (ema_alpha c * (8 / 10))\<rparr>))"

section \<open>The peak\<close>

text \<open>
  Tokens in memory after \<open>t\<close> further steps if every request holds \<open>a\<close> tokens now, gains one per step
  and leaves after \<open>b\<close> steps.
\<close>

definition footprint :: "(int \<times> int) list \<Rightarrow> int \<Rightarrow> int" where
  "footprint ts t = (\<Sum>(a, b)\<leftarrow>ts. if t \<le> b then a + t else 0)"

definition prefix_peak :: "int \<Rightarrow> int \<Rightarrow> (int \<times> int) list \<Rightarrow> nat \<Rightarrow> int" where
  "prefix_peak index cum ts k = snd (ts ! k) * (index + int k) + (cum + sum_list (map fst (take (Suc k) ts)))"

lemma prefix_peak_Cons:
  "prefix_peak index cum ((a, b) # ts) 0 = b * index + (cum + a)"
  "prefix_peak index cum ((a, b) # ts) (Suc k) = prefix_peak (index + 1) (cum + a) ts k"
  by (simp_all add: prefix_peak_def algebra_simps)

lemma peak_loop_upper:
  "peak \<le> peak_loop index cum peak ts \<and> (\<forall>k<length ts. prefix_peak index cum ts k \<le> peak_loop index cum peak ts)"
proof (induction index cum peak ts rule: peak_loop.induct)
  case (2 index cum peak a b ts)
  have "prefix_peak index cum ((a, b) # ts) k \<le> peak_loop index cum peak ((a, b) # ts)" if "k < length ((a, b) # ts)" for k
    using "2.IH" that by (cases k) (auto simp: prefix_peak_Cons)
  then show ?case using "2.IH" by auto
qed simp

lemma peak_loop_attained:
  "peak_loop index cum peak ts = peak \<or> (\<exists>k<length ts. peak_loop index cum peak ts = prefix_peak index cum ts k)"
proof (induction index cum peak ts rule: peak_loop.induct)
  case (2 index cum peak a b ts)
  let ?p = "max peak (b * index + (cum + a))"
  consider "peak_loop (index + 1) (cum + a) ?p ts = ?p"
    | k where "k < length ts" "peak_loop (index + 1) (cum + a) ?p ts = prefix_peak (index + 1) (cum + a) ts k" using "2.IH" by blast
  then show ?case
  proof cases
    case 1
    then show ?thesis by (cases "b * index + (cum + a) \<le> peak") (auto simp: prefix_peak_Cons intro!: exI [of _ 0])
  next
    case 2
    then show ?thesis by (auto simp: prefix_peak_Cons intro!: exI [of _ "Suc k"])
  qed
qed simp

lemma footprint_prefix:
  assumes "sorted (map (\<lambda>(_, b). - b) ts)"
  shows "footprint ts t = (let k = length (takeWhile (\<lambda>(_, b). t \<le> b) ts) in sum_list (map fst (take k ts)) + int k * t)"
proof -
  have "sum_list (map (\<lambda>(a, b). if t \<le> b then a + t else 0) ts) = sum_list (map fst (takeWhile (\<lambda>(_, b). t \<le> b) ts)) + int (length (takeWhile (\<lambda>(_, b). t \<le> b) ts)) * t"
    using assms
  proof (induction ts)
    case (Cons x ts)
    obtain a b where x: "x = (a, b)" by (cases x)
    show ?case
    proof (cases "t \<le> b")
      case True
      then show ?thesis using Cons x by (simp add: algebra_simps)
    next
      case False
      then have "\<forall>(a', b')\<in>set ts. \<not> t \<le> b'" using Cons.prems x by fastforce
      then have "sum_list (map (\<lambda>(a, b). if t \<le> b then a + t else 0) ts) = 0" by (induction ts) auto
      with False x show ?thesis by simp
    qed
  qed simp
  moreover have "takeWhile (\<lambda>(_, b). t \<le> b) ts = take (length (takeWhile (\<lambda>(_, b). t \<le> b) ts)) ts" by (rule takeWhile_eq_take)
  ultimately show ?thesis unfolding footprint_def Let_def by metis
qed

lemma footprint_le_peak:
  assumes "sorted (map (\<lambda>(_, b). - b) ts)"
  shows "footprint ts t \<le> peak_loop 1 0 0 ts"
proof -
  let ?k = "length (takeWhile (\<lambda>(_, b). t \<le> b) ts)"
  note f = footprint_prefix [OF assms, of t, unfolded Let_def]
  show ?thesis
  proof (cases ?k)
    case 0
    then show ?thesis using f peak_loop_upper [of 0 1 0 ts] by simp
  next
    case (Suc j)
    then have j: "j < ?k" "j < length ts" using length_takeWhile_le [of "\<lambda>(_, b). t \<le> b" ts] by auto
    have "case ts ! j of (_, b) \<Rightarrow> t \<le> b"
      using nth_mem [OF j(1)] takeWhile_nth [OF j(1)] by (auto dest: set_takeWhileD)
    then have "t \<le> snd (ts ! j)" by (simp add: split_beta)
    then have "int ?k * t \<le> snd (ts ! j) * (1 + int j)" using Suc by (simp add: mult.commute mult_left_mono)
    then have "footprint ts t \<le> prefix_peak 1 0 ts j" using f Suc by (simp add: prefix_peak_def)
    also have "\<dots> \<le> peak_loop 1 0 0 ts" using peak_loop_upper [of 0 1 0 ts] j(2) by blast
    finally show ?thesis .
  qed
qed

lemma prefix_peak_le_footprint:
  assumes s: "sorted (map (\<lambda>(_, b). - b) ts)" and k: "k < length ts" and pos: "\<forall>(a, b)\<in>set ts. 0 \<le> a \<and> 0 \<le> b"
  shows "prefix_peak 1 0 ts k \<le> footprint ts (snd (ts ! k))"
proof -
  let ?t = "snd (ts ! k)"
  have ge: "?t \<le> snd (ts ! j)" if "j \<le> k" for j
    using sorted_nth_mono [OF s that] k that by (simp add: split_beta)
  have "\<forall>x\<in>set (take (Suc k) ts). ?t \<le> snd x"
  proof
    fix x assume "x \<in> set (take (Suc k) ts)"
    then obtain i where "i \<le> k" "x = ts ! i" by (auto simp: in_set_conv_nth less_Suc_eq_le)
    then show "?t \<le> snd x" using ge by simp
  qed
  then have pre: "(\<Sum>(a, b)\<leftarrow>take (Suc k) ts. if ?t \<le> b then a + ?t else 0) = (\<Sum>x\<leftarrow>take (Suc k) ts. fst x + ?t)"
    by (intro arg_cong [of _ _ sum_list] map_cong) (auto simp: split_beta)
  have t0: "0 \<le> ?t" using pos nth_mem [OF k] by (auto simp: split_beta)
  have post: "0 \<le> (\<Sum>(a, b)\<leftarrow>drop (Suc k) ts. if ?t \<le> b then a + ?t else 0)"
    using pos t0 by (intro sum_list_nonneg) (auto dest!: in_set_dropD)
  have "footprint ts ?t = (\<Sum>(a, b)\<leftarrow>take (Suc k) ts @ drop (Suc k) ts. if ?t \<le> b then a + ?t else 0)"
    unfolding footprint_def by simp
  also have "\<dots> = (\<Sum>x\<leftarrow>take (Suc k) ts. fst x + ?t) + (\<Sum>(a, b)\<leftarrow>drop (Suc k) ts. if ?t \<le> b then a + ?t else 0)"
    unfolding map_append sum_list.append pre ..
  finally have "(\<Sum>x\<leftarrow>take (Suc k) ts. fst x + ?t) \<le> footprint ts ?t" using post by simp
  moreover have "(\<Sum>x\<leftarrow>take (Suc k) ts. fst x + ?t) = sum_list (map fst (take (Suc k) ts)) + int (Suc k) * ?t"
    using k by (simp add: sum_list_addf sum_list_triv)
  ultimately show ?thesis by (simp add: prefix_peak_def algebra_simps)
qed

lemma footprint_mset: "mset ts = mset us \<Longrightarrow> footprint ts t = footprint us t"
proof -
  assume m: "mset ts = mset us"
  have "sum_list (map f xs) = (\<Sum>x\<in>#mset xs. f x)" for f :: "int \<times> int \<Rightarrow> int" and xs
    by (simp only: sum_mset_sum_list flip: mset_map)
  then show ?thesis unfolding footprint_def by (simp only: m)
qed

section \<open>Properties\<close>

text \<open>
  C39: the peak estimate is the peak. Sorting the requests by remaining lifetime and scanning once
  gives the greatest number of tokens in memory at any future step, if each request holds the
  tokens estimated for it, gains one per step and leaves at the end of its estimated lifetime.
\<close>

theorem estimate_peak_is_peak:
  assumes "states \<noteq> []" and "\<forall>st\<in>set states. 0 \<le> ll_kv_len st"
  shows "let ts = map (token_tuple is_busy (ema_output_len c) (ll_config c)) states
    in (\<forall>t. footprint ts t \<le> estimate_peak_tokens c is_busy states) \<and>
       (\<exists>t\<ge>0. footprint ts t = estimate_peak_tokens c is_busy states)"
proof -
  define ts where "ts = map (token_tuple is_busy (ema_output_len c) (ll_config c)) states"
  define us where "us = sort_key (\<lambda>(_, b). - b) ts"
  have s: "sorted (map (\<lambda>(_, b). - b) us)" by (simp add: us_def)
  have m: "mset us = mset ts" by (simp add: us_def)
  have e: "estimate_peak_tokens c is_busy states = peak_loop 1 0 0 us" by (simp add: estimate_peak_tokens_def us_def ts_def)
  have "\<forall>(a, b)\<in>set ts. 0 < a \<and> 0 \<le> b" using assms(2) by (auto simp: ts_def token_tuple_def Let_def)
  then have pos: "\<forall>(a, b)\<in>set us. 0 < a \<and> 0 \<le> b" using m by (metis set_mset_mset)
  have up: "footprint ts t \<le> peak_loop 1 0 0 us" for t using footprint_le_peak [OF s] footprint_mset [OF m] by simp
  have ne: "0 < length us" using assms(1) m by (simp add: us_def ts_def)
  have "peak_loop 1 0 0 us \<noteq> 0"
  proof -
    have "0 < fst (us ! 0) \<and> 0 \<le> snd (us ! 0)" using pos nth_mem [OF ne] by (auto simp: split_beta)
    then have "0 < prefix_peak 1 0 us 0" using ne by (simp add: prefix_peak_def take_Suc_conv_app_nth)
    also have "\<dots> \<le> peak_loop 1 0 0 us" using peak_loop_upper [of 0 1 0 us] ne by blast
    finally show ?thesis by simp
  qed
  then obtain k where k: "k < length us" "peak_loop 1 0 0 us = prefix_peak 1 0 us k" using peak_loop_attained [of 1 0 0 us] by blast
  have "peak_loop 1 0 0 us \<le> footprint us (snd (us ! k))"
    unfolding k(2) using pos by (intro prefix_peak_le_footprint [OF s k(1)]) force
  moreover have "0 \<le> snd (us ! k)" using pos nth_mem [OF k(1)] by (auto simp: split_beta)
  ultimately have "\<exists>t\<ge>0. footprint ts t = peak_loop 1 0 0 us" using up footprint_mset [OF m] by (metis antisym)
  then show ?thesis using up by (simp add: e ts_def [symmetric] Let_def)
qed

theorem estimate_peak_is_peak_witness:
  "\<exists>t\<ge>0. footprint [(3, 17), (4, 16)] t =
     estimate_peak_tokens \<lparr>ll_config = \<lparr>router_token_ratio = 1, router_max_wait_tokens = 0, ll_chunk_size = 4, batch_max_tokens = 8\<rparr>,
       max_total_tokens = 100, running_max_req_size = 4, ema_output_len = 1, ema_alpha = 1 / 2\<rparr> False
       [\<lparr>ll_input_len = 2, ll_output_len = 0, ll_kv_len = 0, ll_max_new_tokens = 9, ll_ignore_eos = False, ll_request_id = None\<rparr>,
        \<lparr>ll_input_len = 3, ll_output_len = 0, ll_kv_len = 3, ll_max_new_tokens = 9, ll_ignore_eos = False, ll_request_id = None\<rparr>]"
  using estimate_peak_is_peak [of "[\<lparr>ll_input_len = 2, ll_output_len = 0, ll_kv_len = 0, ll_max_new_tokens = 9, ll_ignore_eos = False, ll_request_id = None\<rparr>,
        \<lparr>ll_input_len = 3, ll_output_len = 0, ll_kv_len = 3, ll_max_new_tokens = 9, ll_ignore_eos = False, ll_request_id = None\<rparr>]" False
        "\<lparr>ll_config = \<lparr>router_token_ratio = 1, router_max_wait_tokens = 0, ll_chunk_size = 4, batch_max_tokens = 8\<rparr>,
       max_total_tokens = 100, running_max_req_size = 4, ema_output_len = 1, ema_alpha = 1 / 2\<rparr>"]
  unfolding Let_def by (simp add: token_tuple_def)

section \<open>The moving average\<close>

lemma update_output_ema_range:
  assumes "update_output_ema n c = Inr (ema, c')" and "0 \<le> ema_alpha c" and "ema_alpha c \<le> 1" and "64 \<le> ema_output_len c"
  shows "64 \<le> ema" "ema \<le> max (ema_output_len c) (max n 64)" "ema_output_len c' = ema"
    "4 / 100 \<le> ema_alpha c'" "ema_alpha c \<le> 1 / 2 \<Longrightarrow> ema_alpha c' \<le> 1 / 2"
proof -
  let ?m = "max (ema_output_len c) (max n 64)"
  let ?avg = "real_of_int (ema_output_len c) * (1 - ema_alpha c) + real_of_int (max n 64) * ema_alpha c"
  have "?avg \<le> real_of_int ?m * (1 - ema_alpha c) + real_of_int ?m * ema_alpha c"
    using assms(2,3) by (intro add_mono mult_right_mono) auto
  also have "\<dots> = real_of_int ?m" by (simp add: algebra_simps)
  finally have a: "?avg \<le> real_of_int ?m" .
  have "0 \<le> ?avg" using assms(2-4) by (intro add_nonneg_nonneg mult_nonneg_nonneg) auto
  then have e: "ema = max 64 \<lfloor>?avg\<rfloor>" and c': "c' = c\<lparr>ema_output_len := ema, ema_alpha := max (4 / 100) (ema_alpha c * (8 / 10))\<rparr>"
    using assms(1) by (auto simp: update_output_ema_def Let_def split: if_splits)
  have "\<lfloor>?avg\<rfloor> \<le> ?m" using a by (simp add: floor_le_iff)
  then show "64 \<le> ema" "ema \<le> ?m" "ema_output_len c' = ema" "4 / 100 \<le> ema_alpha c'" "ema_alpha c \<le> 1 / 2 \<Longrightarrow> ema_alpha c' \<le> 1 / 2"
    using assms(2) by (auto simp: e c')
qed

end
