(* ===== verification/Sched_State.thy ===== *)
theory Sched_State
  imports KV_Manager Mars_Policy Encoder_Cache Infercept LightLLM
begin

text \<open>
  The state of \<^verbatim>\<open>Scheduler\<close> in \<^verbatim>\<open>vllm/v1/core/sched/scheduler.py\<close> as far as the life cycle of requests and
  the agent policies use it, and the operations on retained (pinned) requests, on Continuum's
  statistics and of the Autellix policy. Request objects live in a store indexed by request id;
  queues hold ids. Attributes the policies attach to a request object are a separate store.
\<close>

section \<open>State\<close>

record req_attrs =
  at_q_idx :: "int option"
  at_model_tokens :: "int option"
  at_quanta_left :: "int option"
  at_wait_tokens :: "int option"
  at_service :: "int option"
  at_kv_action :: "kv_action option"
  at_kv_decision :: "infercept_decision option"

definition no_attrs :: req_attrs where
  "no_attrs = \<lparr>at_q_idx = None, at_model_tokens = None, at_quanta_left = None, at_wait_tokens = None, at_service = None,
     at_kv_action = None, at_kv_decision = None\<rparr>"

text \<open>The running sums of Continuum's regression between turns served and turns left.\<close>

record eta_sums =
  eta_n :: int
  eta_sum_x :: real
  eta_sum_y :: real
  eta_sum_x2 :: real
  eta_sum_y2 :: real
  eta_sum_xy :: real

text \<open>A LightLLM waiting request whose cached prefix is held: the blocks and the tokens they cover.\<close>

record lightllm_preview =
  pv_blocks :: KVCacheBlocks
  pv_hit_tokens :: int
  pv_signature :: "(int \<times> bytes option) list"
  pv_is_prefill :: bool

text \<open>
  Dictionaries with a default are functions. Of the interception recorder only the jobs it knows
  matter: recording an event of an unknown job raises \<^verbatim>\<open>KeyError\<close>.
\<close>

record sched =
  sc_policy :: SchedulingPolicy
  sc_max_model_len :: int
  sc_max_num_scheduled_tokens :: int
  sc_max_num_running_reqs :: nat
  sc_block_size :: nat
  sc_long_prefill_threshold :: int
  sc_chunked_prefill :: bool
  sc_no_chunked_mm :: bool
  sc_max_encoder_tokens :: int
  sc_num_lookahead :: int
  sc_num_spec :: nat
  sc_max_loras :: "int option"
  sc_use_pp :: bool
  sc_async :: bool
  sc_log_stats :: bool
  sc_encdec :: bool
  sc_whisper :: bool
  sc_encdec_len :: int
  sc_objs :: "req_ref \<Rightarrow> request"
  sc_attrs :: "req_ref \<Rightarrow> req_attrs"
  sc_requests :: "req_ref list"
  sc_waiting :: request_queue
  sc_running :: "req_ref list"
  sc_pinned :: "(req_ref \<times> real) list"
  sc_kv :: kv_cache_manager
  sc_estimator :: estimator
  sc_encoder :: encoder_cache
  sc_recorded :: "string option set"
  sc_finished_req_ids :: "req_ref set"
  sc_finished_dict :: "(int \<times> req_ref set) list option"
  sc_finished_recving :: "req_ref set"
  sc_evicted_at :: "req_ref \<rightharpoonup> real"
  sc_first_entry :: "string option \<rightharpoonup> real"
  sc_queue_delay_samples :: "real list"
  sc_program_served :: "string \<Rightarrow> int"
  sc_program_k_history :: "string \<rightharpoonup> int list"
  sc_eta :: eta_sums
  sc_aut_service :: "string \<Rightarrow> int"
  sc_aut_wait :: "string \<Rightarrow> int"
  sc_aut_beta :: real
  sc_aut_level_quanta :: "int list"
  sc_aut_thresholds :: "int list"
  sc_aut_fcfs_after :: int
  sc_aut_finished_jobs :: "string set"
  sc_aut_fcfs_mode :: bool
  sc_mars_overflow :: deque
  sc_mars_levels :: "req_ref \<rightharpoonup> int"
  sc_mars_last :: "req_ref \<rightharpoonup> real"
  sc_mars_window :: int
  sc_lightllm :: "lightllm_controller option"
  sc_ll_chunk :: int
  sc_ll_deferred :: "(req_ref \<times> lightllm_preview) list"

text \<open>
  What an operation reads from outside: the two clocks, once per operation; the environment; the
  output parser; the KV connector; the structured-output manager and the block hasher of the
  requests. A step asks the connector at most once for each waiting request.
\<close>

record sched_world =
  w_now :: real
  w_mono :: real
  w_env :: est_env
  w_swap_env :: "string option"
  w_parse :: "(int list \<Rightarrow> string option) option"
  w_connector_class :: "string option"
  w_conn_finished :: "request \<Rightarrow> int list \<Rightarrow> bool \<times> (string \<times> string) list option"
  w_conn_matched :: "request \<Rightarrow> int \<Rightarrow> int option \<times> bool"
  w_grammar_ready :: "request \<Rightarrow> bool"
  w_should_advance :: "request \<Rightarrow> bool"
  w_validate_tokens :: "request \<Rightarrow> int list \<Rightarrow> int list"
  w_hasher :: "block_hasher option"
  w_set_order :: "int list \<Rightarrow> int list"

section \<open>The waiting queue behind its interface\<close>

definition wq_len :: "request_queue \<Rightarrow> int" where
  "wq_len q = (case q of
       FcfsQ d \<Rightarrow> int (length d) | PrioQ h \<Rightarrow> int (length h) | ContQ c \<Rightarrow> int (length (cq_deque c))
     | AutQ a \<Rightarrow> (\<Sum>d\<leftarrow>aq_queues a. int (length d)) | MarsQ m \<Rightarrow> mars_len m)"

definition wq_iter :: "request_queue \<Rightarrow> req_ref list result" where
  "wq_iter q = (case q of
       FcfsQ d \<Rightarrow> Inr d | PrioQ h \<Rightarrow> prio_iter h | ContQ c \<Rightarrow> Inr (cq_deque c) | AutQ a \<Rightarrow> Inr (aut_iter a)
     | MarsQ m \<Rightarrow> Inr (mars_iter m))"

definition wq_add_request :: "request \<Rightarrow> int option \<Rightarrow> request_queue \<Rightarrow> request_queue result" where
  "wq_add_request r q_idx q = (case q of
       FcfsQ d \<Rightarrow> Inr (FcfsQ (fcfs_add_request r d))
     | PrioQ h \<Rightarrow> rbind (prio_add_request r h) (\<lambda>h. Inr (PrioQ h))
     | ContQ c \<Rightarrow> Inr (ContQ (cont_add_request r c))
     | AutQ a \<Rightarrow> Inr (AutQ (aut_add_request (r, q_idx) a))
     | MarsQ m \<Rightarrow> rbind (mars_add_request r m) (\<lambda>m. Inr (MarsQ m)))"

definition wq_remove_request :: "req_ref \<Rightarrow> request_queue \<Rightarrow> request_queue result" where
  "wq_remove_request x q = (case q of
       FcfsQ d \<Rightarrow> rbind (deque_remove x d) (\<lambda>d. Inr (FcfsQ d))
     | PrioQ h \<Rightarrow> rbind (prio_remove_request x h) (\<lambda>h. Inr (PrioQ h))
     | ContQ c \<Rightarrow> rbind (cont_remove_request x c) (\<lambda>c. Inr (ContQ c))
     | AutQ a \<Rightarrow> rbind (aut_remove_request x a) (\<lambda>a. Inr (AutQ a))
     | MarsQ m \<Rightarrow> Inr (MarsQ (mars_remove_request x m)))"

definition wq_remove_requests :: "req_ref list \<Rightarrow> request_queue \<Rightarrow> request_queue result" where
  "wq_remove_requests xs q = (case q of
       FcfsQ d \<Rightarrow> Inr (FcfsQ (deque_remove_requests xs d))
     | PrioQ h \<Rightarrow> rbind (prio_remove_requests xs h) (\<lambda>h. Inr (PrioQ h))
     | ContQ c \<Rightarrow> Inr (ContQ (cont_remove_requests xs c))
     | AutQ a \<Rightarrow> rbind (aut_remove_requests xs a) (\<lambda>a. Inr (AutQ a))
     | MarsQ m \<Rightarrow> Inr (MarsQ (mars_remove_requests xs m)))"

text \<open>
  Continuum's queue needs the retained requests to choose; calling its \<^verbatim>\<open>pop_request\<close> without
  arguments is a \<^verbatim>\<open>TypeError\<close>.
\<close>

definition wq_peek_request :: "(req_ref \<Rightarrow> request) \<Rightarrow> (req_ref \<times> real) list \<Rightarrow> request_queue \<Rightarrow> (req_ref \<times> request_queue) result" where
  "wq_peek_request obj pinned q = (case q of
       FcfsQ d \<Rightarrow> rbind (fcfs_peek_request d) (\<lambda>x. Inr (x, q))
     | PrioQ h \<Rightarrow> rbind (prio_peek_request h) (\<lambda>x. Inr (x, q))
     | ContQ c \<Rightarrow> rbind (cont_peek_request obj pinned c) (\<lambda>x. Inr (x, q))
     | AutQ a \<Rightarrow> rbind (aut_peek_request a) (\<lambda>x. Inr (x, q))
     | MarsQ m \<Rightarrow> rbind (mars_peek_request m) (\<lambda>(x, m). Inr (x, MarsQ m)))"

definition wq_pop_request :: "request_queue \<Rightarrow> (req_ref \<times> request_queue) result" where
  "wq_pop_request q = (case q of
       FcfsQ d \<Rightarrow> rbind (fcfs_pop_request d) (\<lambda>(x, d). Inr (x, FcfsQ d))
     | PrioQ h \<Rightarrow> rbind (prio_pop_request h) (\<lambda>(x, h). Inr (x, PrioQ h))
     | ContQ c \<Rightarrow> Inl TypeError
     | AutQ a \<Rightarrow> rbind (aut_pop_request a) (\<lambda>(x, a). Inr (x, AutQ a))
     | MarsQ m \<Rightarrow> rbind (mars_pop_request m) (\<lambda>(x, m). Inr (x, MarsQ m)))"

definition wq_pop_pinned :: "(req_ref \<Rightarrow> request) \<Rightarrow> (req_ref \<times> real) list \<Rightarrow> request_queue \<Rightarrow> (req_ref \<times> request_queue) result" where
  "wq_pop_pinned obj pinned q = (case q of
       ContQ c \<Rightarrow> rbind (cont_pop_request obj pinned c) (\<lambda>(x, c). Inr (x, ContQ c))
     | _ \<Rightarrow> wq_pop_request q)"

definition wq_prepend_request :: "request \<Rightarrow> int option \<Rightarrow> request_queue \<Rightarrow> request_queue result" where
  "wq_prepend_request r q_idx q = (case q of
       FcfsQ d \<Rightarrow> Inr (FcfsQ (fcfs_prepend_request (request_id r) d))
     | PrioQ h \<Rightarrow> rbind (prio_add_request r h) (\<lambda>h. Inr (PrioQ h))
     | ContQ c \<Rightarrow> Inr (ContQ (cont_prepend_request r c))
     | AutQ a \<Rightarrow> Inr (AutQ (aut_prepend_request (request_id r, q_idx) a))
     | MarsQ m \<Rightarrow> rbind (mars_prepend_request r m) (\<lambda>m. Inr (MarsQ m)))"

definition wq_prepend_requests :: "(req_ref \<Rightarrow> request) \<Rightarrow> (req_ref \<Rightarrow> int option) \<Rightarrow> req_ref list \<Rightarrow> request_queue \<Rightarrow> request_queue result" where
  "wq_prepend_requests obj q_idx xs q = (case q of
       FcfsQ d \<Rightarrow> Inr (FcfsQ (fcfs_prepend_requests xs d))
     | PrioQ h \<Rightarrow> rbind (prio_prepend_requests (map obj xs) h) (\<lambda>h. Inr (PrioQ h))
     | ContQ c \<Rightarrow> Inr (ContQ (cont_prepend_requests (map obj xs) c))
     | AutQ a \<Rightarrow> Inr (AutQ (aut_prepend_requests (map (\<lambda>x. (x, q_idx x)) xs) a))
     | MarsQ m \<Rightarrow> rbind (mars_prepend_requests (map obj xs) m) (\<lambda>m. Inr (MarsQ m)))"

section \<open>The part of the state the MARS policy works on\<close>

definition mars_view :: "sched \<Rightarrow> mars_state" where
  "mars_view s = \<lparr>ms_policy = sc_policy s, ms_objects = sc_objs s, ms_running = sc_running s,
     ms_waiting = (case sc_waiting s of MarsQ m \<Rightarrow> m | _ \<Rightarrow> MarsRequestQueue), ms_overflow = sc_mars_overflow s,
     mars_level_by_req_id = sc_mars_levels s, mars_last_scheduled_by_req_id = sc_mars_last s,
     mars_level_quanta = [2048, 1024, 512, 256], mars_aging_interval_s = 30, mars_active_window_size = sc_mars_window s,
     ms_max_num_scheduled_tokens = sc_max_num_scheduled_tokens s\<rparr>"

definition with_mars :: "mars_state \<Rightarrow> sched \<Rightarrow> sched" where
  "with_mars m s = s\<lparr>sc_running := ms_running m,
     sc_waiting := (case sc_waiting s of MarsQ _ \<Rightarrow> MarsQ (ms_waiting m) | q \<Rightarrow> q), sc_mars_overflow := ms_overflow m,
     sc_mars_levels := mars_level_by_req_id m, sc_mars_last := mars_last_scheduled_by_req_id m\<rparr>"

section \<open>Retained requests\<close>

definition record_event_of :: "string option \<Rightarrow> sched \<Rightarrow> unit result" where
  "record_event_of job s = (if job \<in> sc_recorded s then Inr () else Inl KeyError)"

definition pin_request :: "real \<Rightarrow> req_ref \<Rightarrow> real \<Rightarrow> sched \<Rightarrow> sched result" where
  "pin_request now x length_of_pin s =
     rbind (record_event_of (job_id (sc_objs s x)) s) (\<lambda>_.
       Inr (s\<lparr>sc_pinned := sc_pinned s @ [(x, now + length_of_pin)]\<rparr>))"

definition unpin_request :: "req_ref \<Rightarrow> real \<Rightarrow> sched \<Rightarrow> sched result" where
  "unpin_request x end_time s =
     (if (x, end_time) \<notin> set (sc_pinned s) then Inl ValueError
      else rbind (record_event_of (job_id (sc_objs s x)) s) (\<lambda>_.
        rbind (km_free (sc_objs s x) (sc_kv s)) (\<lambda>k.
          Inr (s\<lparr>sc_pinned := remove1 (x, end_time) (sc_pinned s), sc_kv := k\<rparr>))))"

definition unpin_requests_regular :: "real \<Rightarrow> sched \<Rightarrow> sched result" where
  "unpin_requests_regular now s =
     rbind (wq_iter (sc_waiting s)) (\<lambda>waiting.
       let waiting_job_ids = map (\<lambda>x. job_id (sc_objs s x)) waiting
       in rfold (\<lambda>(x, end_time) s.
            if job_id (sc_objs s x) \<notin> set waiting_job_ids \<and> now \<ge> end_time
            then unpin_request x end_time s else Inr s) (sc_pinned s) s)"

definition is_pinned :: "request \<Rightarrow> sched \<Rightarrow> bool" where
  "is_pinned r s = (\<exists>(x, _)\<in>set (sc_pinned s). job_id (sc_objs s x) = job_id r)"

text \<open>The scan for the latest end of a pin: the first of the greatest.\<close>

fun latest_pin :: "(req_ref \<times> real) option \<Rightarrow> (req_ref \<times> real) list \<Rightarrow> (req_ref \<times> real) option" where
  "latest_pin best [] = best"
| "latest_pin best ((x, t) # ps) =
     latest_pin (case best of None \<Rightarrow> Some (x, t) | Some (_, u) \<Rightarrow> if t > u then Some (x, t) else best) ps"

text \<open>The scan for the latest job among the running requests; a job without an entry time raises.\<close>

fun latest_job :: "(req_ref \<Rightarrow> real option) \<Rightarrow> (req_ref \<Rightarrow> bool) \<Rightarrow> (req_ref \<times> real) option \<Rightarrow> req_ref list \<Rightarrow>
    (req_ref \<times> real) option result" where
  "latest_job entry ok best [] = Inr best"
| "latest_job entry ok best (x # xs) =
     (case entry x of
        None \<Rightarrow> Inl TypeError
      | Some t \<Rightarrow>
          latest_job entry ok
            (if (case best of None \<Rightarrow> True | Some (_, u) \<Rightarrow> t > u) \<and> ok x then Some (x, t) else best) xs)"

definition pop_running_request_based_on_last_step :: "sched \<Rightarrow> (req_ref \<times> bool \<times> sched) result" where
  "pop_running_request_based_on_last_step s =
     (if length (sc_running s) \<le> 1
      then (case latest_pin None (sc_pinned s) of
          Some (x, t) \<Rightarrow> Inr (x, True, s\<lparr>sc_pinned := remove1 (x, t) (sc_pinned s)\<rparr>)
        | None \<Rightarrow> Inl IndexError)
      else
        let entry = (\<lambda>x. sc_first_entry s (job_id (sc_objs s x)));
            pop = (\<lambda>x. Inr (x, False, s\<lparr>sc_running := remove1 x (sc_running s)\<rparr>))
        in rbind (latest_job entry (\<lambda>x. is_last_step (sc_objs s x) \<noteq> Some True) None (sc_running s)) (\<lambda>best.
          case best of
            Some (x, _) \<Rightarrow> pop x
          | None \<Rightarrow> rbind (latest_job entry (\<lambda>_. True) None (sc_running s)) (\<lambda>best.
              case best of Some (x, _) \<Rightarrow> pop x | None \<Rightarrow> Inl IndexError)))"

section \<open>Continuum\<close>

definition continuum_queue_delay_s :: "sched \<Rightarrow> real" where
  "continuum_queue_delay_s s =
     (if sc_queue_delay_samples s = [] then 0
      else sum_list (sc_queue_delay_samples s) / real (length (sc_queue_delay_samples s)))"

definition continuum_eta :: "eta_sums \<Rightarrow> real" where
  "continuum_eta e =
     (if eta_n e < 2 then 1
      else
        let n = real_of_int (eta_n e);
            num = n * eta_sum_xy e - eta_sum_x e * eta_sum_y e;
            den_x = n * eta_sum_x2 e - eta_sum_x e * eta_sum_x e;
            den_y = n * eta_sum_y2 e - eta_sum_y e * eta_sum_y e
        in if den_x \<le> 0 \<or> den_y \<le> 0 then 1
           else - (max (-1) (min 1 (num / sqrt (den_x * den_y)))))"

definition eta_observe :: "int \<Rightarrow> int \<Rightarrow> eta_sums \<Rightarrow> eta_sums" where
  "eta_observe tot k e =
     (let x = real_of_int k; y = real_of_int (tot - k)
      in \<lparr>eta_n = eta_n e + 1, eta_sum_x = eta_sum_x e + x, eta_sum_y = eta_sum_y e + y,
          eta_sum_x2 = eta_sum_x2 e + x * x, eta_sum_y2 = eta_sum_y2 e + y * y, eta_sum_xy = eta_sum_xy e + x * y\<rparr>)"

section \<open>Autellix\<close>

fun level_below :: "int list \<Rightarrow> int \<Rightarrow> int" where
  "level_below [] service = 0"
| "level_below (t # ts) service = (if service < t then 0 else 1 + level_below ts service)"

definition autellix_level_for_service :: "sched \<Rightarrow> int \<Rightarrow> int" where
  "autellix_level_for_service s service = level_below (sc_aut_thresholds s) service"

definition autellix_quantum_for_level :: "sched \<Rightarrow> int \<Rightarrow> int" where
  "autellix_quantum_for_level s level =
     (let level = max 0 (min level (int (length (sc_aut_level_quanta s)) - 1))
      in min (sc_aut_level_quanta s ! nat level) (sc_max_num_scheduled_tokens s))"

definition attr_or :: "int \<Rightarrow> int option \<Rightarrow> int" where
  "attr_or d v = (case v of Some n \<Rightarrow> n | None \<Rightarrow> d)"

definition autellix_reorder_running :: "sched \<Rightarrow> sched" where
  "autellix_reorder_running s =
     s\<lparr>sc_running := sort_key (\<lambda>x. (attr_or 0 (at_q_idx (sc_attrs s x)), arrival_time (sc_objs s x))) (sc_running s)\<rparr>"

definition set_attrs :: "req_ref \<Rightarrow> (req_attrs \<Rightarrow> req_attrs) \<Rightarrow> sched \<Rightarrow> sched" where
  "set_attrs x f s = s\<lparr>sc_attrs := (sc_attrs s)(x := f (sc_attrs s x))\<rparr>"

definition autellix_on_scheduled :: "req_ref \<Rightarrow> int \<Rightarrow> int \<Rightarrow> sched \<Rightarrow> sched" where
  "autellix_on_scheduled x num_scheduled quantum s =
     (let s = set_attrs x (\<lambda>a. a\<lparr>at_model_tokens := Some (attr_or 0 (at_model_tokens a) + num_scheduled),
                at_quanta_left := Some (attr_or quantum (at_quanta_left a) - num_scheduled)\<rparr>) s
      in if num_scheduled \<ge> quantum \<and> remaining_after (sc_objs s x) num_scheduled > 0
         then
           let new_level = min (attr_or 0 (at_q_idx (sc_attrs s x)) + 1) (int (length (sc_aut_level_quanta s)) - 1)
           in set_attrs x (\<lambda>a. a\<lparr>at_q_idx := Some new_level,
                at_quanta_left := Some (autellix_quantum_for_level s new_level)\<rparr>) s
         else s)"

definition should_promote :: "sched \<Rightarrow> req_ref \<Rightarrow> bool" where
  "should_promote s x =
     (let a = sc_attrs s x; pid = history_key (sc_objs s x);
          wait_total = sc_aut_wait s pid + attr_or 0 (at_wait_tokens a);
          service_total = sc_aut_service s pid + attr_or 0 (at_model_tokens a)
      in if attr_or 0 (at_q_idx a) \<le> 0 then False
         else if service_total \<le> 0 then False
         else real_of_int wait_total / real_of_int service_total \<ge> sc_aut_beta s)"

definition promote :: "req_ref \<Rightarrow> sched \<Rightarrow> sched" where
  "promote x s = set_attrs x (\<lambda>a. a\<lparr>at_q_idx := Some 0, at_quanta_left := Some (autellix_quantum_for_level s 0),
     at_wait_tokens := Some 0, at_model_tokens := Some 0\<rparr>) s"

definition autellix_apply_antistarvation :: "sched \<Rightarrow> sched result" where
  "autellix_apply_antistarvation s =
     (if sc_policy s \<noteq> AUTELLIX then Inr s
      else rbind (wq_iter (sc_waiting s)) (\<lambda>waiting.
        rbind (rfold (\<lambda>x s. rbind (wq_remove_request x (sc_waiting s)) (\<lambda>q.
                 let s = promote x (s\<lparr>sc_waiting := q\<rparr>)
                 in rbind (wq_add_request (sc_objs s x) (at_q_idx (sc_attrs s x)) (sc_waiting s)) (\<lambda>q.
                      Inr (s\<lparr>sc_waiting := q\<rparr>))))
               (filter (should_promote s) waiting) s) (\<lambda>s.
          Inr (fold (\<lambda>x s. if should_promote s x then promote x s else s) (sc_running s) s))))"

definition autellix_maybe_switch_to_fcfs :: "sched \<Rightarrow> sched result" where
  "autellix_maybe_switch_to_fcfs s =
     (if sc_policy s \<noteq> AUTELLIX then Inr s
      else if sc_aut_fcfs_mode s then Inr s
      else if sc_aut_fcfs_after s \<le> 0 then Inr s
      else if int (card (sc_aut_finished_jobs s)) < sc_aut_fcfs_after s then Inr s
      else rbind (wq_iter (sc_waiting s)) (\<lambda>waiting.
        let key = (\<lambda>x. (arrival_time (sc_objs s x), request_id (sc_objs s x)))
        in Inr (s\<lparr>sc_waiting := FcfsQ (map (\<lambda>x. request_id (sc_objs s x)) (sort_key key waiting)),
                  sc_running := sort_key key (sc_running s), sc_policy := FCFS, sc_aut_fcfs_mode := True\<rparr>)))"

end
