(* ===== verification/Sched_Life.thy ===== *)
theory Sched_Life
  imports Sched_State
begin

text \<open>
  The life cycle of a request in \<^verbatim>\<open>Scheduler\<close> (\<^verbatim>\<open>vllm/v1/core/sched/scheduler.py\<close>): arrival, new output tokens,
  finishing or abortion, and what becomes of its KV blocks: freed at once, or retained for the next
  turn of the same agent program.
\<close>

section \<open>Finishing\<close>

definition infercept_prepare_finished_request :: "sched_world \<Rightarrow> req_ref \<Rightarrow> sched \<Rightarrow> sched" where
  "infercept_prepare_finished_request w x s =
     (case infercept_choose_kv_action (w_env w) (sc_estimator s) (sc_policy s) (w_connector_class w) (w_swap_env w)
             (sc_max_model_len s) (map (sc_objs s) (sc_running s)) (sc_objs s x) of
        None \<Rightarrow> set_attrs x (\<lambda>a. a\<lparr>at_kv_action := None, at_kv_decision := None\<rparr>) s
      | Some d \<Rightarrow> set_attrs x (\<lambda>a. a\<lparr>at_kv_action := Some (dec_action d), at_kv_decision := Some d\<rparr>) s)"

definition forget_request :: "req_ref \<Rightarrow> sched \<Rightarrow> sched result" where
  "forget_request x s = (if x \<in> set (sc_requests s) then Inr (s\<lparr>sc_requests := remove1 x (sc_requests s)\<rparr>) else Inl KeyError)"

definition free_and_forget :: "req_ref \<Rightarrow> sched \<Rightarrow> sched result" where
  "free_and_forget x s = rbind (km_free (sc_objs s x) (sc_kv s)) (\<lambda>k. forget_request x (s\<lparr>sc_kv := k\<rparr>))"

definition pin_and_forget :: "real \<Rightarrow> req_ref \<Rightarrow> real \<Rightarrow> sched \<Rightarrow> sched result" where
  "pin_and_forget now x length_of_pin s = rbind (pin_request now x length_of_pin s) (forget_request x)"

text \<open>How long Continuum retains the blocks of a request that is not the last of its program.\<close>

definition continuum_length_of_pin :: "sched_world \<Rightarrow> request \<Rightarrow> sched \<Rightarrow> real" where
  "continuum_length_of_pin w r s =
     (if sc_policy s = CONTINUUM then set_up_pin (sc_estimator s) r
      else calc_ttl_continuum_dynamic (sc_estimator s) (this_func_call r)
             (estimate_prefill_reload_s (w_env w) ''CONTINUUM'' (num_tokens r))
             (continuum_queue_delay_s s) (continuum_eta (sc_eta s)) 100 2)"

definition free_blocks_of :: "sched_world \<Rightarrow> req_ref \<Rightarrow> sched \<Rightarrow> sched result" where
  "free_blocks_of w x s =
     (let r = sc_objs s x
      in if \<not> is_finished r then Inl AssertionError
         else rbind (rfold (\<lambda>(y, end_time) s. if job_id (sc_objs s y) = job_id r then unpin_request y end_time s else Inr s)
                       (sc_pinned s) s) (\<lambda>s.
           let s = s\<lparr>sc_mars_levels := (sc_mars_levels s)(x := None), sc_mars_last := (sc_mars_last s)(x := None)\<rparr>;
               hold = (case at_kv_decision (sc_attrs s x) of
                         Some d \<Rightarrow> (case dec_hold_s d of Some h \<Rightarrow> h | None \<Rightarrow> 0) | None \<Rightarrow> 0)
           in case at_kv_action (sc_attrs s x) of
                Some Preserve \<Rightarrow>
                  if hold > 1 / 100 then pin_and_forget (w_now w) x hold s else free_and_forget x s
              | Some _ \<Rightarrow> free_and_forget x s
              | None \<Rightarrow>
                  let pin = (if sc_policy s \<in> {CONTINUUM, CONTINUUM_DY} \<and> is_last_step r \<noteq> Some True
                             then continuum_length_of_pin w r s else 0)
                  in if pin > 1 / 100 then pin_and_forget (w_now w) x pin s
                     else if infercept_should_pin (sc_policy s) r \<and>
                       infercept_pin_ttl_s (w_env w) (sc_max_model_len s) (map (sc_objs s) (sc_running s)) r > 1 / 100
                     then pin_and_forget (w_now w) x
                            (infercept_pin_ttl_s (w_env w) (sc_max_model_len s) (map (sc_objs s) (sc_running s)) r) s
                     else free_and_forget x s))"

text \<open>Continuum's bookkeeping when a turn of a program ends.\<close>

definition continuum_on_finished :: "request \<Rightarrow> sched \<Rightarrow> sched" where
  "continuum_on_finished r s =
     (case job_id r of
        None \<Rightarrow> s
      | Some job \<Rightarrow>
          let tot = sc_program_served s job + 1
          in if is_last_step r = Some True
             then s\<lparr>sc_eta := fold (eta_observe tot) (case sc_program_k_history s job of Some ks \<Rightarrow> ks | None \<Rightarrow> []) (sc_eta s),
                    sc_program_k_history := (sc_program_k_history s)(job := None),
                    sc_program_served := (sc_program_served s)(job := 0)\<rparr>
             else s\<lparr>sc_program_served := (sc_program_served s)(job := tot)\<rparr>)"

definition autellix_on_finished :: "req_ref \<Rightarrow> sched \<Rightarrow> sched" where
  "autellix_on_finished x s =
     (if sc_policy s \<noteq> AUTELLIX then s
      else
        let r = sc_objs s x; a = sc_attrs s x; pid = history_key r;
            done = (is_last_step r = Some True);
            service = max (sc_aut_service s pid) (attr_or 0 (at_service a) + attr_or 0 (at_model_tokens a));
            wait = sc_aut_wait s pid + attr_or 0 (at_wait_tokens a);
            s = s\<lparr>sc_aut_service := (sc_aut_service s)(pid := if done then 0 else service),
                 sc_aut_wait := (sc_aut_wait s)(pid := if done then 0 else wait)\<rparr>;
            job_over = done \<or> (job_id r \<noteq> None \<and> this_func_call r = None)
        in if sc_aut_fcfs_after s > 0 \<and> job_over
           then s\<lparr>sc_aut_finished_jobs := insert pid (sc_aut_finished_jobs s)\<rparr> else s)"

text \<open>LightLLM gives up the hold on a cached prefix, in reverse order of the blocks.\<close>

definition lightllm_release_prefix_blocks :: "lightllm_preview \<Rightarrow> sched \<Rightarrow> sched result" where
  "lightllm_release_prefix_blocks pv s =
     (if pv_signature pv = [] then Inr s
      else rbind (free_blocks (rev (concat (pv_blocks pv))) (km_pool (sc_kv s))) (\<lambda>p.
        Inr (s\<lparr>sc_kv := (sc_kv s)\<lparr>km_coordinator := (km_coordinator (sc_kv s))\<lparr>coord_pool := p\<rparr>\<rparr>\<rparr>)))"

definition lightllm_drop_deferred :: "req_ref \<Rightarrow> sched \<Rightarrow> sched result" where
  "lightllm_drop_deferred x s =
     (case map_of (sc_ll_deferred s) x of
        None \<Rightarrow> Inr s
      | Some pv \<Rightarrow> lightllm_release_prefix_blocks pv (s\<lparr>sc_ll_deferred := AList.delete x (sc_ll_deferred s)\<rparr>))"

definition lightllm_on_finished :: "req_ref \<Rightarrow> sched \<Rightarrow> sched result" where
  "lightllm_on_finished x s =
     (if sc_policy s \<noteq> LIGHTLLM then Inr s
      else rbind (lightllm_drop_deferred x s) (\<lambda>s.
        if status (sc_objs s x) \<in> {FINISHED_STOPPED, FINISHED_LENGTH_CAPPED}
        then (case sc_lightllm s of
            None \<Rightarrow> Inl AssertionError
          | Some c \<Rightarrow> rbind (update_output_ema (num_output_tokens (sc_objs s x)) c) (\<lambda>(_, c). Inr (s\<lparr>sc_lightllm := Some c\<rparr>)))
        else Inr s))"

text \<open>\<^verbatim>\<open>(block_ids, ) = get_block_ids(...)\<close> unpacks exactly one group.\<close>

definition connector_finished :: "sched_world \<Rightarrow> req_ref \<Rightarrow> sched \<Rightarrow> (bool \<times> (string \<times> string) list option) result" where
  "connector_finished w x s =
     (if w_connector_class w = None then Inr (False, None)
      else case get_block_ids x (sc_kv s) of
        [ids] \<Rightarrow> Inr (w_conn_finished w (sc_objs s x) ids)
      | _ \<Rightarrow> Inl ValueError)"

definition note_finished :: "req_ref \<Rightarrow> sched \<Rightarrow> sched" where
  "note_finished x s =
     s\<lparr>sc_finished_req_ids := insert x (sc_finished_req_ids s),
       sc_finished_dict := map_option (\<lambda>d. AList.update (client_index (sc_objs s x))
         (insert x (case map_of d (client_index (sc_objs s x)) of Some xs \<Rightarrow> xs | None \<Rightarrow> {})) d) (sc_finished_dict s)\<rparr>"

definition free_request :: "sched_world \<Rightarrow> req_ref \<Rightarrow> sched \<Rightarrow> ((string \<times> string) list option \<times> sched) result" where
  "free_request w x s =
     (if \<not> is_finished (sc_objs s x) then Inl AssertionError
      else rbind (lightllm_on_finished x s) (\<lambda>s.
        let (r, e) = est_request_finished (w_parse w) (w_now w) (sc_objs s x) (sc_estimator s);
            s = s\<lparr>sc_objs := (sc_objs s)(x := r), sc_estimator := e\<rparr>
        in rbind (record_event_of (job_id r) s) (\<lambda>_.
          let s = infercept_prepare_finished_request w x (autellix_on_finished x (continuum_on_finished r s))
          in rbind (connector_finished w x s) (\<lambda>(delay_free_blocks, kv_xfer_params).
            rbind (enc_free (w_set_order w) r (sc_encoder s)) (\<lambda>enc.
              let s = note_finished x (s\<lparr>sc_encoder := enc\<rparr>)
              in rbind (if delay_free_blocks then Inr s else free_blocks_of w x s) (\<lambda>s. Inr (kv_xfer_params, s)))))))"

definition finish_one :: "sched_world \<Rightarrow> RequestStatus \<Rightarrow> req_ref \<Rightarrow> sched \<Rightarrow> sched result" where
  "finish_one w finished_status x s =
     rbind (free_request w x (s\<lparr>sc_objs := (sc_objs s)(x := (sc_objs s x)\<lparr>status := finished_status\<rparr>)\<rparr>)) (\<lambda>(_, s). Inr s)"

text \<open>
  \<^verbatim>\<open>finish_requests\<close>. The ids, a Python set when several are given, come as a duplicate-free list in
  the order of iteration.
\<close>

definition finish_requests :: "sched_world \<Rightarrow> req_ref list \<Rightarrow> RequestStatus \<Rightarrow> sched \<Rightarrow> sched result" where
  "finish_requests w ids finished_status s =
     (if \<not> status_is_finished finished_status then Inl AssertionError
      else
        let valid = filter (\<lambda>x. x \<in> set (sc_requests s)) ids;
            of_running = filter (\<lambda>x. status (sc_objs s x) = RUNNING) valid;
            of_waiting = filter (\<lambda>x. status (sc_objs s x) \<noteq> RUNNING) valid;
            s = s\<lparr>sc_running := remove_all (sc_running s) of_running\<rparr>
        in rbind (if of_waiting = [] then Inr s
                  else rbind (wq_remove_requests of_waiting (sc_waiting s)) (\<lambda>q.
                    Inr (s\<lparr>sc_waiting := q,
                           sc_mars_overflow := (if sc_policy s = MARS then deque_remove_requests of_waiting (sc_mars_overflow s)
                                                else sc_mars_overflow s)\<rparr>))) (\<lambda>s.
          rfold (finish_one w finished_status) valid s))"

section \<open>Arrival\<close>

text \<open>The histories of the program and, under Autellix, the level its attained service gives the request.\<close>

definition note_arrival :: "request \<Rightarrow> estimator \<Rightarrow> sched \<Rightarrow> sched" where
  "note_arrival r e s =
     (let s = s\<lparr>sc_estimator := e, sc_recorded := insert (job_id r) (sc_recorded s)\<rparr>;
          s = (case job_id r of
                 None \<Rightarrow> s
               | Some job \<Rightarrow> s\<lparr>sc_program_k_history := (sc_program_k_history s)(job \<mapsto>
                   (case sc_program_k_history s job of Some ks \<Rightarrow> ks | None \<Rightarrow> []) @ [sc_program_served s job])\<rparr>);
          service = sc_aut_service s (history_key r);
          q_idx = autellix_level_for_service s service;
          attrs = (if sc_policy s = AUTELLIX
                   then no_attrs\<lparr>at_service := Some service, at_wait_tokens := Some 0, at_model_tokens := Some 0,
                          at_q_idx := Some q_idx, at_quanta_left := Some (autellix_quantum_for_level s q_idx)\<rparr>
                   else no_attrs)
      in s\<lparr>sc_attrs := (sc_attrs s)(request_id r := attrs),
           sc_first_entry := (if sc_first_entry s (job_id r) = None
                              then (sc_first_entry s)(job_id r \<mapsto> arrival_time r) else sc_first_entry s)\<rparr>)"

text \<open>MARS keeps requests beyond its window in the overflow queue.\<close>

definition enqueue_request :: "request \<Rightarrow> sched \<Rightarrow> sched result" where
  "enqueue_request r s =
     (let x = request_id r; add = (\<lambda>s. rbind (wq_add_request r (at_q_idx (sc_attrs s x)) (sc_waiting s)) (\<lambda>q. Inr (s\<lparr>sc_waiting := q\<rparr>)))
      in if sc_policy s = MARS
         then
           let s = s\<lparr>sc_mars_levels := (sc_mars_levels s)(x \<mapsto> 0), sc_mars_last := (sc_mars_last s)(x := None)\<rparr>
           in if int (length (sc_running s)) + wq_len (sc_waiting s) < sc_mars_window s then add s
              else Inr (s\<lparr>sc_mars_overflow := fcfs_add_request r (sc_mars_overflow s)\<rparr>)
         else add s)"

definition sched_add_request :: "sched_world \<Rightarrow> request \<Rightarrow> sched \<Rightarrow> sched result" where
  "sched_add_request w r s =
     rbind (est_request_arrives (w_now w) r (sc_estimator s)) (\<lambda>(r, e).
       rbind (enqueue_request r (note_arrival r e s)) (\<lambda>s.
         let x = request_id r; r = (if sc_log_stats s then record_event QUEUED (w_now w) r else r)
         in Inr (s\<lparr>sc_objs := (sc_objs s)(x := r),
                   sc_requests := (if x \<in> set (sc_requests s) then sc_requests s else sc_requests s @ [x])\<rparr>)))"

definition get_request_counts :: "sched \<Rightarrow> int \<times> int" where
  "get_request_counts s =
     (if sc_policy s = MARS
      then (int (length (sc_running s)), wq_len (sc_waiting s) + int (length (sc_mars_overflow s)))
      else if sc_policy s = LIGHTLLM
      then (int (length (sc_running s)) + int (length (sc_ll_deferred s)), wq_len (sc_waiting s) - int (length (sc_ll_deferred s)))
      else (int (length (sc_running s)), wq_len (sc_waiting s)))"

definition get_num_unfinished_requests :: "sched \<Rightarrow> int" where
  "get_num_unfinished_requests s =
     wq_len (sc_waiting s) + int (length (sc_running s)) +
     (if sc_policy s = MARS then int (length (sc_mars_overflow s)) else 0)"

definition has_finished_requests :: "sched \<Rightarrow> bool" where
  "has_finished_requests s \<longleftrightarrow> sc_finished_req_ids s \<noteq> {}"

end
