(* ===== verification/Sched_LightLLM.thy ===== *)
theory Sched_LightLLM
  imports Sched_Life
begin

text \<open>
  The part of \<^verbatim>\<open>Scheduler\<close> (\<^verbatim>\<open>vllm/v1/core/sched/scheduler.py\<close>) that drives the LightLLM admission controller:
  the configuration it accepts, and the preview of one router batch at the start of a step. A
  previewed request keeps a private hold on the cached prefix it was admitted with.
\<close>

section \<open>Configuration\<close>

text \<open>What \<^verbatim>\<open>_init_lightllm_policy\<close> reads of the engine configuration.\<close>

record lightllm_setup =
  su_generate :: bool
  su_multimodal :: bool
  su_specs :: "kv_cache_spec list"
  su_speculative :: bool
  su_connector :: bool
  su_lora :: bool
  su_async :: bool
  su_dcp :: int
  su_pipeline :: int
  su_data :: int
  su_chunk :: "int option"
  su_ratio :: real
  su_max_wait :: int

definition lightllm_supported :: "lightllm_setup \<Rightarrow> sched \<Rightarrow> bool" where
  "lightllm_supported u s \<longleftrightarrow>
     su_generate u \<and> \<not> sc_encdec s \<and> \<not> su_multimodal u \<and>
     (case su_specs u of [sp] \<Rightarrow> (case sp of FullAttentionSpec _ _ _ \<Rightarrow> True | _ \<Rightarrow> False) | _ \<Rightarrow> False) \<and>
     \<not> su_speculative u \<and> \<not> su_connector u \<and> \<not> su_lora u \<and> \<not> su_async u \<and> su_dcp u = 1 \<and> su_pipeline u = 1 \<and>
     su_data u = 1 \<and> sc_chunked_prefill s \<and> sc_long_prefill_threshold s = 0"

definition init_lightllm_policy :: "lightllm_setup \<Rightarrow> sched \<Rightarrow> sched result" where
  "init_lightllm_policy u s =
     (if \<not> lightllm_supported u s then Inl ValueError
      else
        let chunk = (case su_chunk u of Some c \<Rightarrow> c | None \<Rightarrow> max 1 (sc_max_num_scheduled_tokens s div 2));
            tot = (num_gpu_blocks (km_pool (sc_kv s)) - 1) * int (sc_block_size s)
        in rbind (LightLLMAdmissionConfig (su_ratio u) (su_max_wait u) chunk (sc_max_num_scheduled_tokens s)) (\<lambda>cfg.
          rbind (LightLLMAdmissionController cfg tot (int (sc_max_num_running_reqs s))) (\<lambda>c.
            Inr (s\<lparr>sc_ll_chunk := chunk, sc_lightllm := Some c\<rparr>))))"

section \<open>Views of requests and blocks\<close>

definition lightllm_request_state :: "request \<Rightarrow> int option \<Rightarrow> lightllm_state result" where
  "lightllm_request_state r kv_len =
     LightLLMRequestState (num_prompt_tokens r) (num_output_tokens r)
       (case kv_len of None \<Rightarrow> num_computed_tokens r | Some n \<Rightarrow> n) (max_tokens r)
       (case sampling_params_of r of Some sp \<Rightarrow> sp_ignore_eos sp | None \<Rightarrow> False) (Some (request_id r))"

fun rmap :: "('a \<Rightarrow> 'b result) \<Rightarrow> 'a list \<Rightarrow> 'b list result" where
  "rmap f [] = Inr []"
| "rmap f (x # xs) = rbind (f x) (\<lambda>y. rbind (rmap f xs) (\<lambda>ys. Inr (y # ys)))"

definition lightllm_active_states :: "sched \<Rightarrow> lightllm_state list result" where
  "lightllm_active_states s = rmap (\<lambda>x. lightllm_request_state (sc_objs s x) None) (sc_running s)"

definition lightllm_active_kv_tokens :: "sched \<Rightarrow> int" where
  "lightllm_active_kv_tokens s =
     (let p = km_pool (sc_kv s)
      in ((num_gpu_blocks p - 1) - get_num_free_blocks p) * int (sc_block_size s))"

definition lightllm_evaluate_candidate :: "request \<Rightarrow> lightllm_state list option \<Rightarrow> int option \<Rightarrow> sched \<Rightarrow> lightllm_decision result" where
  "lightllm_evaluate_candidate r active kv_tokens s =
     (case sc_lightllm s of
        None \<Rightarrow> Inl AssertionError
      | Some c \<Rightarrow>
          rbind (case active of None \<Rightarrow> lightllm_active_states s | Some a \<Rightarrow> Inr a) (\<lambda>a.
            rbind (lightllm_request_state r None) (\<lambda>st.
              ll_evaluate c a st (case kv_tokens of None \<Rightarrow> lightllm_active_kv_tokens s | Some n \<Rightarrow> n))))"

definition lightllm_block_signature :: "block_pool \<Rightarrow> KVCacheBlocks \<Rightarrow> (int \<times> bytes option) list" where
  "lightllm_block_signature p bs = map (\<lambda>a. (block_id (pool_heap p a), block_hash (pool_heap p a))) (concat bs)"

definition lightllm_reserve_prefix_blocks :: "lightllm_preview \<Rightarrow> sched \<Rightarrow> sched result" where
  "lightllm_reserve_prefix_blocks pv s =
     (if pv_signature pv = [] then Inr s
      else rbind (touch (pv_blocks pv) (km_pool (sc_kv s))) (\<lambda>p.
        Inr (s\<lparr>sc_kv := (sc_kv s)\<lparr>km_coordinator := (km_coordinator (sc_kv s))\<lparr>coord_pool := p\<rparr>\<rparr>\<rparr>)))"

section \<open>The preview\<close>

text \<open>The packer of the model step: tokens taken, whether there is prefill work, the ids chosen.\<close>

record lightllm_pack =
  pk_tokens :: int
  pk_prefill :: bool
  pk_selected :: "req_ref set"

definition classify_for_model :: "sched \<Rightarrow> lightllm_state \<Rightarrow> lightllm_pack \<Rightarrow> lightllm_pack result" where
  "classify_for_model s st pk =
     (if is_decode_step st then Inr pk
      else
        let need_tokens = decode_need_tokens (sc_ll_chunk s) st
        in if pk_tokens pk + need_tokens \<le> sc_max_num_scheduled_tokens s
           then (case ll_request_id st of
               None \<Rightarrow> Inl AssertionError
             | Some x \<Rightarrow> Inr \<lparr>pk_tokens = pk_tokens pk + need_tokens, pk_prefill = True, pk_selected = insert x (pk_selected pk)\<rparr>)
           else Inr pk)"

text \<open>A preview of a waiting request the router admits: the cached prefix and whether it needs prefill.\<close>

definition lightllm_preview_of :: "sched_world \<Rightarrow> request \<Rightarrow> sched \<Rightarrow> (lightllm_preview \<times> lightllm_state \<times> sched) result" where
  "lightllm_preview_of w r s =
     rbind (if num_computed_tokens r = 0
            then rbind (get_computed_blocks (w_now w) r (sc_kv s)) (\<lambda>((bs, n), k). Inr (bs, n, s\<lparr>sc_kv := k\<rparr>))
            else Inr (create_empty_block_list (sc_kv s), 0, s)) (\<lambda>(bs, n, s).
       rbind (lightllm_request_state r (Some (num_computed_tokens r + n))) (\<lambda>st.
         Inr (\<lparr>pv_blocks = bs, pv_hit_tokens = n, pv_signature = lightllm_block_signature (km_pool (sc_kv s)) bs,
               pv_is_prefill = (\<not> is_decode_step st)\<rparr>, st, s)))"

definition router_stops :: "sched_world \<Rightarrow> request \<Rightarrow> bool" where
  "router_stops w r \<longleftrightarrow> status r = WAITING_FOR_REMOTE_KVS \<or> (status r = WAITING_FOR_FSM \<and> \<not> w_grammar_ready w r)"

fun router_loop :: "sched_world \<Rightarrow> lightllm_controller \<Rightarrow> int \<Rightarrow> req_ref list \<Rightarrow> lightllm_state list \<Rightarrow> lightllm_pack \<Rightarrow>
    (req_ref \<times> lightllm_preview) list \<Rightarrow> sched \<Rightarrow> (lightllm_pack \<times> (req_ref \<times> lightllm_preview) list \<times> sched) result" where
  "router_loop w c kv_tokens [] provisional pk pvs s = Inr (pk, pvs, s)"
| "router_loop w c kv_tokens (x # xs) provisional pk pvs s =
     (if map_of (sc_ll_deferred s) x \<noteq> None then router_loop w c kv_tokens xs provisional pk pvs s
      else if router_stops w (sc_objs s x) then Inr (pk, pvs, s)
      else rbind (lightllm_request_state (sc_objs s x) None) (\<lambda>admission_state.
        rbind (ll_evaluate c provisional admission_state kv_tokens) (\<lambda>admission.
          if \<not> ll_admitted admission then Inr (pk, pvs, s)
          else rbind (lightllm_preview_of w (sc_objs s x) s) (\<lambda>(pv, model_state, s).
            rbind (lightllm_reserve_prefix_blocks pv s) (\<lambda>s.
              rbind (classify_for_model s model_state pk) (\<lambda>pk.
                router_loop w c kv_tokens xs (provisional @ [admission_state]) pk (AList.update x pv pvs)
                  (s\<lparr>sc_ll_deferred := AList.update x pv (sc_ll_deferred s)\<rparr>)))))))"

definition lightllm_prepare_step :: "sched_world \<Rightarrow> sched \<Rightarrow> (lightllm_pack \<times> (req_ref \<times> lightllm_preview) list \<times> sched) result" where
  "lightllm_prepare_step w s =
     (case sc_lightllm s of
        None \<Rightarrow> Inl AssertionError
      | Some c \<Rightarrow>
          rbind (wq_iter (sc_waiting s)) (\<lambda>waiting.
            rbind (lightllm_active_states s) (\<lambda>running_states.
              rbind (rmap (\<lambda>x. lightllm_request_state (sc_objs s x)
                             (Some (num_computed_tokens (sc_objs s x) + pv_hit_tokens (the (map_of (sc_ll_deferred s) x)))))
                       (filter (\<lambda>x. map_of (sc_ll_deferred s) x \<noteq> None) waiting)) (\<lambda>deferred_states.
                let active = running_states @ deferred_states
                in rbind (rfold (classify_for_model s) active \<lparr>pk_tokens = 0, pk_prefill = False, pk_selected = {}\<rparr>) (\<lambda>pk.
                  router_loop w c (lightllm_active_kv_tokens s) waiting active pk (sc_ll_deferred s) s)))))"

definition lightllm_prefill_step :: "sched_world \<Rightarrow> sched \<Rightarrow> (bool \<times> sched) result" where
  "lightllm_prefill_step w s = rbind (lightllm_prepare_step w s) (\<lambda>(pk, _, s). Inr (pk_prefill pk, s))"

definition sched_shutdown :: "sched \<Rightarrow> sched result" where
  "sched_shutdown s =
     (if sc_policy s = LIGHTLLM then rfold lightllm_drop_deferred (map fst (sc_ll_deferred s)) s else Inr s)"

end
