(* ===== verification/Sched_Step.thy ===== *)
theory Sched_Step
  imports Sched_LightLLM
begin

text \<open>
  \<^verbatim>\<open>Scheduler.schedule\<close> of \<^verbatim>\<open>vllm/v1/core/sched/scheduler.py\<close>: one scheduling step under any of the nine
  policies. The running requests are served first, preempting others when KV slots run out; then,
  if nothing was preempted, the waiting queue is scanned; then the result of the step is assembled.
  Local variables of the function are the record \<open>step\<close>. The two inner loops of the running phase end by
  a measure; the scan of the waiting queue is a partial function whose value None means that it
  does not return.
\<close>

record step =
  st_new :: "req_ref list"
  st_resumed :: "req_ref list"
  st_running :: "req_ref list"
  st_preempted :: "req_ref list"
  st_blocks :: "(req_ref \<times> KVCacheBlocks) list"
  st_num :: "(req_ref \<times> int) list"
  st_budget :: int
  st_enc :: "(req_ref \<times> int list) list"
  st_enc_budget :: int
  st_spec :: "(req_ref \<times> int list) list"
  st_index :: nat
  st_loras :: "int set"
  st_skipped :: request_queue
  st_pack :: lightllm_pack
  st_previews :: "(req_ref \<times> lightllm_preview) list"

definition upd_obj :: "req_ref \<Rightarrow> (request \<Rightarrow> request) \<Rightarrow> sched \<Rightarrow> sched" where
  "upd_obj x f s = s\<lparr>sc_objs := (sc_objs s)(x := f (sc_objs s x))\<rparr>"

definition q_idx_of :: "sched \<Rightarrow> req_ref \<Rightarrow> int option" where
  "q_idx_of s x = at_q_idx (sc_attrs s x)"

section \<open>Start of a step\<close>

definition fresh_step :: "sched \<Rightarrow> lightllm_pack \<Rightarrow> (req_ref \<times> lightllm_preview) list \<Rightarrow> step" where
  "fresh_step s pk pvs = \<lparr>st_new = [], st_resumed = [], st_running = [], st_preempted = [], st_blocks = [], st_num = [],
     st_budget = sc_max_num_scheduled_tokens s, st_enc = [], st_enc_budget = sc_max_encoder_tokens s,
     st_spec = [], st_index = 0, st_loras = {}, st_skipped = FcfsQ [], st_pack = pk, st_previews = pvs\<rparr>"

definition policy_start :: "sched_world \<Rightarrow> sched \<Rightarrow> sched result" where
  "policy_start w s =
     (if sc_policy s = MARS
      then rbind (mars_admit_overflow (mars_view s)) (\<lambda>m.
        Inr (with_mars (if ms_running m \<noteq> [] then mars_reorder_running (w_mono w) m else m) s))
      else if sc_policy s = AUTELLIX
      then rbind (autellix_apply_antistarvation s) (\<lambda>s.
        Inr (if sc_running s \<noteq> [] then autellix_reorder_running s else s))
      else Inr s)"

definition lightllm_start :: "sched_world \<Rightarrow> sched \<Rightarrow> (lightllm_pack \<times> (req_ref \<times> lightllm_preview) list \<times> sched) result" where
  "lightllm_start w s =
     (if sc_policy s = LIGHTLLM then lightllm_prepare_step w s
      else Inr (\<lparr>pk_tokens = 0, pk_prefill = False, pk_selected = {}\<rparr>, [], s))"

definition schedule_start :: "sched_world \<Rightarrow> sched \<Rightarrow> (sched \<times> step) result" where
  "schedule_start w s =
     rbind (unpin_requests_regular (w_now w) s) (\<lambda>s.
       rbind (if sc_policy s = AUTELLIX then autellix_maybe_switch_to_fcfs s else Inr s) (\<lambda>s.
         rbind (policy_start w s) (\<lambda>s.
           rbind (lightllm_start w s) (\<lambda>(pk, pvs, s). Inr (s, fresh_step s pk pvs)))))"

section \<open>How many tokens a request may get\<close>

text \<open>The caps of the LightLLM, MARS and Autellix policies, with the quantum the latter two applied.\<close>

definition policy_cap :: "sched_world \<Rightarrow> req_ref \<Rightarrow> int \<Rightarrow> int \<Rightarrow> sched \<Rightarrow> int \<times> int option \<times> sched" where
  "policy_cap w x nct n s =
     (let r = sc_objs s x; prefill = (nct < num_prompt_tokens r)
      in if sc_policy s = LIGHTLLM then (if prefill then min n (sc_ll_chunk s) else n, None, s)
         else if sc_policy s = MARS
         then
           let m = mars_view s;
               quantum = mars_quantum_for_level m (mars_effective_level m r (w_mono w) (Some nct))
           in (if prefill then min n quantum else n, Some quantum, s)
         else if sc_policy s = AUTELLIX
         then
           let a = sc_attrs s x; left = attr_or 0 (at_quanta_left a);
               (left, s) = (if left \<le> 0
                 then let q = autellix_quantum_for_level s (attr_or 0 (at_q_idx a))
                      in (q, set_attrs x (\<lambda>a. a\<lparr>at_quanta_left := Some q\<rparr>) s)
                 else (left, s));
               quantum = min left (sc_max_num_scheduled_tokens s)
           in (min n quantum, Some quantum, s)
         else (n, None, s))"

definition threshold_cap :: "sched \<Rightarrow> int \<Rightarrow> int" where
  "threshold_cap s n =
     (if 0 < sc_long_prefill_threshold s \<and> sc_long_prefill_threshold s < n then sc_long_prefill_threshold s else n)"

definition encoder_cap :: "req_ref \<Rightarrow> int \<Rightarrow> int \<Rightarrow> int \<Rightarrow> sched \<Rightarrow> (int list \<times> int \<times> int \<times> sched) result" where
  "encoder_cap x nct n budget s =
     (if has_encoder_inputs (sc_objs s x)
      then rbind (try_schedule_encoder_inputs (sc_encdec s) (sc_no_chunked_mm s) (sc_objs s x) nct n budget (sc_encoder s))
             (\<lambda>(ids, n, budget, c). Inr (ids, n, budget, s\<lparr>sc_encoder := c\<rparr>))
      else Inr ([], n, budget, s))"

definition running_tokens :: "sched_world \<Rightarrow> req_ref \<Rightarrow> sched \<Rightarrow> step \<Rightarrow> (int list \<times> int \<times> int \<times> int option \<times> sched) result" where
  "running_tokens w x s st =
     (let r = sc_objs s x; nct = num_computed_tokens r;
          n = threshold_cap s (num_tokens_with_spec r + num_output_placeholders r - nct);
          n = min (min n (st_budget st)) (sc_max_model_len s - 1 - nct);
          (n, quantum, s) = policy_cap w x nct n s
      in rbind (encoder_cap x nct n (st_enc_budget st) s) (\<lambda>(ids, n, budget, s). Inr (ids, n, budget, quantum, s)))"

definition policy_feedback :: "sched_world \<Rightarrow> req_ref \<Rightarrow> int \<Rightarrow> int option \<Rightarrow> sched \<Rightarrow> sched" where
  "policy_feedback w x n quantum s =
     (let q = (case quantum of Some q \<Rightarrow> q | None \<Rightarrow> n)
      in if sc_policy s = MARS then with_mars (mars_on_scheduled (sc_objs s x) n q (w_mono w) (mars_view s)) s
         else if sc_policy s = AUTELLIX then autellix_on_scheduled x n q s
         else s)"

definition encoder_allocate :: "req_ref \<Rightarrow> int list \<Rightarrow> int \<Rightarrow> sched \<times> step \<Rightarrow> (sched \<times> step) result" where
  "encoder_allocate x ids budget = (\<lambda>(s, st).
     if ids = [] then Inr (s, st)
     else rbind (rfold (enc_allocate (sc_objs s x)) ids (sc_encoder s)) (\<lambda>c.
       Inr (s\<lparr>sc_encoder := c\<rparr>, st\<lparr>st_enc := AList.update x ids (st_enc st), st_enc_budget := budget\<rparr>)))"

section \<open>Preemption\<close>

text \<open>\<^verbatim>\<open>max(xs, key=...)\<close>: the first of the greatest.\<close>

fun max_by :: "('a \<Rightarrow> 'k::linorder) \<Rightarrow> 'a \<Rightarrow> 'a list \<Rightarrow> 'a" where
  "max_by key best [] = best"
| "max_by key best (x # xs) = max_by key (if key x > key best then x else best) xs"

definition index_of :: "'a \<Rightarrow> 'a list \<Rightarrow> nat" where
  "index_of x xs = length (takeWhile (\<lambda>y. y \<noteq> x) xs)"

definition greatest_running :: "(req_ref \<Rightarrow> 'k::linorder) \<Rightarrow> sched \<Rightarrow> (req_ref \<times> nat option \<times> bool \<times> sched) result" where
  "greatest_running key s =
     (case sc_running s of
        [] \<Rightarrow> Inl ValueError
      | y # ys \<Rightarrow>
          let v = max_by key y ys
          in rbind (record_event_of (job_id (sc_objs s v)) s) (\<lambda>_.
               Inr (v, Some (index_of v (sc_running s)), False, s\<lparr>sc_running := remove1 v (sc_running s)\<rparr>)))"

definition blocks_est :: "sched \<Rightarrow> request \<Rightarrow> int" where
  "blocks_est s r = (min (num_computed_tokens r) (sc_max_model_len s) + int (sc_block_size s) - 1) div int (sc_block_size s)"

definition mars_preempt_key :: "sched \<Rightarrow> req_ref \<Rightarrow> int \<times> int \<times> real" where
  "mars_preempt_key s x =
     (let r = sc_objs s x;
          level = max (case sc_mars_levels s x of Some l \<Rightarrow> l | None \<Rightarrow> 0) (mars_remaining_level (mars_view s) r None);
          level = (if num_computed_tokens r \<ge> num_prompt_tokens r then -1 else level)
      in (level, blocks_est s r, arrival_time r))"

definition autellix_preempt_key :: "sched \<Rightarrow> req_ref \<Rightarrow> int \<times> int \<times> real" where
  "autellix_preempt_key s x = (attr_or 0 (q_idx_of s x), blocks_est s (sc_objs s x), arrival_time (sc_objs s x))"

text \<open>The victim, its index in the running list where the code looks it up, and whether it was a retained request.\<close>

definition choose_victim :: "sched \<Rightarrow> (req_ref \<times> nat option \<times> bool \<times> sched) result" where
  "choose_victim s =
     (if sc_policy s = PRIORITY then greatest_running (\<lambda>x. (priority (sc_objs s x), arrival_time (sc_objs s x))) s
      else if sc_policy s \<in> {CONTINUUM, CONTINUUM_DY}
      then rbind (pop_running_request_based_on_last_step s) (\<lambda>(v, is_unpin, s).
        rbind (record_event_of (job_id (sc_objs s v)) s) (\<lambda>_. Inr (v, None, is_unpin, s)))
      else if sc_policy s = MARS then greatest_running (mars_preempt_key s) s
      else if sc_policy s = AUTELLIX then greatest_running (autellix_preempt_key s) s
      else if sc_running s = [] then Inl IndexError
      else
        let v = last (sc_running s); s = s\<lparr>sc_running := butlast (sc_running s)\<rparr>
        in rbind (record_event_of (job_id (sc_objs s v)) s) (\<lambda>_. Inr (v, None, False, s)))"

text \<open>A victim that was already scheduled in this step is taken out of it again.\<close>

definition unschedule :: "req_ref \<Rightarrow> nat option \<Rightarrow> step \<Rightarrow> step" where
  "unschedule v idx st = st\<lparr>st_running := remove1 v (st_running st),
     st_budget := st_budget st + (case map_of (st_num st) v of Some n \<Rightarrow> n | None \<Rightarrow> 0),
     st_num := AList.delete v (st_num st), st_blocks := AList.delete v (st_blocks st),
     st_spec := AList.delete v (st_spec st), st_enc := AList.delete v (st_enc st),
     st_index := (case idx of Some i \<Rightarrow> if i < st_index st then st_index st - 1 else st_index st | None \<Rightarrow> st_index st)\<rparr>"

definition requeue :: "sched_world \<Rightarrow> req_ref \<Rightarrow> sched \<Rightarrow> sched result" where
  "requeue w v s =
     (let s = upd_obj v (\<lambda>r. let r = r\<lparr>status := PREEMPTED, num_computed_tokens := 0\<rparr>
                             in if sc_log_stats s then record_event EV_PREEMPTED (w_mono w) r else r) s;
          s = (if sc_policy s = MARS
               then s\<lparr>sc_mars_levels := (sc_mars_levels s)(v \<mapsto> 0), sc_mars_last := (sc_mars_last s)(v := None)\<rparr> else s);
          s = s\<lparr>sc_evicted_at := (sc_evicted_at s)(v \<mapsto> w_now w)\<rparr>
      in rbind (wq_prepend_request (sc_objs s v) (q_idx_of s v) (sc_waiting s)) (\<lambda>q. Inr (s\<lparr>sc_waiting := q\<rparr>)))"

definition preempt :: "sched_world \<Rightarrow> sched \<times> step \<Rightarrow> (req_ref \<times> bool \<times> sched \<times> step) result" where
  "preempt w = (\<lambda>(s, st).
     rbind (choose_victim s) (\<lambda>(v, idx, is_unpin, s).
       let st = unschedule v idx st
       in rbind (km_free (sc_objs s v) (sc_kv s)) (\<lambda>k.
         rbind (enc_free (w_set_order w) (sc_objs s v) (sc_encoder s)) (\<lambda>c.
           let s = s\<lparr>sc_kv := k, sc_encoder := c\<rparr>
           in if is_unpin then Inr (v, True, s, st)
              else rbind (requeue w v s) (\<lambda>s. Inr (v, False, s, st\<lparr>st_preempted := st_preempted st @ [v]\<rparr>))))))"


text \<open>Each preemption takes a request from the running list or a retained one, and moves the index along.\<close>

lemma latest_pin_in: "latest_pin best ps = Some p \<Longrightarrow> p \<in> set ps \<or> best = Some p"
  by (induction best ps rule: latest_pin.induct) (fastforce split: option.splits if_splits)+

lemma latest_job_in: "latest_job entry ok best xs = Inr (Some (x, t)) \<Longrightarrow> x \<in> set xs \<or> best = Some (x, t)"
  by (induction entry ok best xs rule: latest_job.induct) (auto split: option.splits if_splits)

lemma max_by_in: "max_by key y ys \<in> insert y (set ys)"
  by (induction key y ys rule: max_by.induct) auto

lemma index_of_less: "x \<in> set xs \<Longrightarrow> index_of x xs < length xs"
  unfolding index_of_def by (induction xs) auto

lemma pop_running_cases:
  assumes "pop_running_request_based_on_last_step s = Inr (v, u, s')"
  obtains (Pin) t where "u" "(v, t) \<in> set (sc_pinned s)" "s' = s\<lparr>sc_pinned := remove1 (v, t) (sc_pinned s)\<rparr>" "length (sc_running s) \<le> 1"
    | (Run) "\<not> u" "v \<in> set (sc_running s)" "s' = s\<lparr>sc_running := remove1 v (sc_running s)\<rparr>"
  using assms
  by (auto simp: pop_running_request_based_on_last_step_def Let_def split: if_splits option.splits dest!: latest_pin_in latest_job_in)

lemma greatest_running_cases:
  assumes "greatest_running key s = Inr (v, idx, u, s')"
  shows "\<not> u" "v \<in> set (sc_running s)" "s' = s\<lparr>sc_running := remove1 v (sc_running s)\<rparr>" "idx = Some (index_of v (sc_running s))"
  using assms max_by_in [of key "hd (sc_running s)" "tl (sc_running s)"]
  by (auto simp: greatest_running_def Let_def record_event_of_def split: list.splits if_splits)

lemma remove1_last: "xs \<noteq> [] \<Longrightarrow> distinct xs \<Longrightarrow> remove1 (last xs) xs = butlast xs"
  by (induction xs) auto

lemma choose_victim_cases:
  assumes "choose_victim s = Inr (v, idx, u, s')"
  obtains (Pin) t where "u" "idx = None" "(v, t) \<in> set (sc_pinned s)" "s' = s\<lparr>sc_pinned := remove1 (v, t) (sc_pinned s)\<rparr>"
      "length (sc_running s) \<le> 1" "sc_policy s \<in> {CONTINUUM, CONTINUUM_DY}"
    | (Run) "\<not> u" "v \<in> set (sc_running s)" "s' = s\<lparr>sc_running := remove1 v (sc_running s)\<rparr>"
        "idx = None \<or> idx = Some (index_of v (sc_running s))"
    | (Last) "\<not> u" "sc_running s \<noteq> []" "v = last (sc_running s)" "s' = s\<lparr>sc_running := butlast (sc_running s)\<rparr>" "idx = None"
proof (cases "sc_policy s \<in> {CONTINUUM, CONTINUUM_DY}")
  case True
  then have pop: "pop_running_request_based_on_last_step s = Inr (v, u, s')" and "idx = None"
    using assms by (auto simp: choose_victim_def)
  from pop show ?thesis
  proof (cases rule: pop_running_cases)
    case Pin
    then show ?thesis using True \<open>idx = None\<close> by (intro that(1))
  next
    case Run
    then show ?thesis using \<open>idx = None\<close> by (intro that(2)) simp_all
  qed
next
  case False
  note run = that(2)
  have greatest: ?thesis if "greatest_running key s = Inr (v, idx, u, s')" for key :: "req_ref \<Rightarrow> 'k::linorder"
    using greatest_running_cases [OF that] by (intro run) simp_all
  show ?thesis
  proof (cases "sc_policy s \<in> {PRIORITY, MARS, AUTELLIX}")
    case True
    then show ?thesis using assms by (auto simp: choose_victim_def split: if_splits elim!: greatest)
  next
    case other: False
    then have "\<not> u \<and> sc_running s \<noteq> [] \<and> v = last (sc_running s) \<and> s' = s\<lparr>sc_running := butlast (sc_running s)\<rparr> \<and> idx = None"
      using assms False by (auto simp: choose_victim_def Let_def split: if_splits)
    then show ?thesis by (intro that(3)) simp_all
  qed
qed

lemma requeue_frame:
  "requeue w v s = Inr s' \<Longrightarrow> sc_running s' = sc_running s \<and> sc_pinned s' = sc_pinned s \<and> sc_policy s' = sc_policy s"
  by (auto simp: requeue_def upd_obj_def Let_def)

lemma preempt_victim:
  assumes "preempt w (s, st) = Inr (v, u, s', st')"
  obtains idx s1 where "choose_victim s = Inr (v, idx, u, s1)" "sc_running s' = sc_running s1" "sc_pinned s' = sc_pinned s1"
    "st_index st' = st_index (unschedule v idx st)"
  using assms
  by (auto simp: preempt_def Let_def split: prod.splits if_splits dest!: requeue_frame)

lemma preempt_shrinks:
  assumes "preempt w (s, st) = Inr (v, u, s', st')"
  shows "length (sc_running s') + length (sc_pinned s') < length (sc_running s) + length (sc_pinned s)"
    and "length (sc_running s') - st_index st' \<le> length (sc_running s) - st_index st"
proof -
  from preempt_victim [OF assms] obtain idx s1 where p: "choose_victim s = Inr (v, idx, u, s1)" "sc_running s' = sc_running s1"
    "sc_pinned s' = sc_pinned s1" "st_index st' = st_index (unschedule v idx st)" .
  from p(1) show "length (sc_running s') + length (sc_pinned s') < length (sc_running s) + length (sc_pinned s)"
    by (cases rule: choose_victim_cases)
      (use p(2,3) in \<open>auto simp: length_remove1 dest: length_pos_if_in_set\<close>)
  from p(1) show "length (sc_running s') - st_index st' \<le> length (sc_running s) - st_index st"
    by (cases rule: choose_victim_cases)
      (use p(2,4) in \<open>auto simp: length_remove1 unschedule_def dest: length_pos_if_in_set\<close>)
qed

section \<open>The running requests\<close>

text \<open>
  The inner loop: allocate, or halve the chunk (MARS, prefill), or preempt and try again. The
  result is the blocks and the tokens granted, or None when the request itself was preempted.
\<close>

function alloc_running :: "sched_world \<Rightarrow> req_ref \<Rightarrow> int \<Rightarrow> sched \<times> step \<Rightarrow> ((KVCacheBlocks \<times> int) option \<times> sched \<times> step) result" where
  "alloc_running w x attempt (s, st) =
     (case allocate_slots (sc_objs s x) attempt 0 None (sc_num_lookahead s) False 0 (sc_kv s) of
        Inl e \<Rightarrow> Inl e
      | Inr (Some bs, k) \<Rightarrow> Inr (Some (bs, attempt), s\<lparr>sc_kv := k\<rparr>, st)
      | Inr (None, k) \<Rightarrow>
          if sc_policy s = MARS \<and> num_computed_tokens (sc_objs s x) < num_prompt_tokens (sc_objs s x) \<and> attempt > int (sc_block_size s)
          then alloc_running w x (max (int (sc_block_size s)) (attempt div 2)) (s\<lparr>sc_kv := k\<rparr>, st)
          else (case preempt w (s\<lparr>sc_kv := k\<rparr>, st) of
              Inl e \<Rightarrow> Inl e
            | Inr (v, is_unpin, s, st) \<Rightarrow>
                if \<not> is_unpin \<and> v = x then Inr (None, s, st) else alloc_running w x attempt (s, st)))"
  by pat_completeness auto
termination
proof (relation "measures [\<lambda>(_, _, _, s, _). length (sc_running s) + length (sc_pinned s), \<lambda>(_, _, attempt, _). nat attempt]", goal_cases)
  case 1
  then show ?case by simp
next
  case (2 w x attempt s st v a k)
  then show ?case by auto
next
  case (3 w x attempt s st res a k vu v rest is_unpin ss s' st')
  then show ?case using preempt_shrinks(1) [of w "s\<lparr>sc_kv := k\<rparr>" st v is_unpin s' st'] by auto
qed

declare alloc_running.simps [simp del]


definition note_spec_tokens :: "req_ref \<Rightarrow> int \<Rightarrow> sched \<times> step \<Rightarrow> sched \<times> step" where
  "note_spec_tokens x n = (\<lambda>(s, st).
     let r = sc_objs s x; k = n + num_computed_tokens r - num_tokens r
     in if spec_token_ids r \<noteq> [] \<and> k > 0
        then let spec = take (nat k) (spec_token_ids r)
             in (upd_obj x (\<lambda>r. r\<lparr>spec_token_ids := spec\<rparr>) s, st\<lparr>st_spec := AList.update x spec (st_spec st)\<rparr>)
        else (s, st))"

definition commit_running :: "sched_world \<Rightarrow> req_ref \<Rightarrow> KVCacheBlocks \<Rightarrow> int \<Rightarrow> int option \<Rightarrow> int list \<Rightarrow> int \<Rightarrow> sched \<times> step \<Rightarrow> (sched \<times> step) result" where
  "commit_running w x bs n quantum ids enc_budget = (\<lambda>(s, st).
     let st = st\<lparr>st_running := st_running st @ [x], st_blocks := AList.update x bs (st_blocks st),
                 st_num := AList.update x n (st_num st), st_budget := st_budget st - n, st_index := st_index st + 1\<rparr>
     in encoder_allocate x ids enc_budget (note_spec_tokens x n (policy_feedback w x n quantum s, st)))"

text \<open>Reasoning about the inner loop: an invariant of the attempts, and what holds when the request gives up itself.\<close>

abbreviation running_slots :: "req_ref \<Rightarrow> int \<Rightarrow> sched \<Rightarrow> (KVCacheBlocks option \<times> kv_cache_manager) result" where
  "running_slots x n s \<equiv> allocate_slots (sc_objs s x) n 0 None (sc_num_lookahead s) False 0 (sc_kv s)"

lemma alloc_running_rule:
  assumes "alloc_running w x n (s, st) = Inr (res, s', st')" and "I n s st"
    and "\<And>n s st k. I n s st \<Longrightarrow> running_slots x n s = Inr (None, k) \<Longrightarrow> int (sc_block_size s) < n \<Longrightarrow>
      I (max (int (sc_block_size s)) (n div 2)) (s\<lparr>sc_kv := k\<rparr>) st"
    and "\<And>n s st k v u s' st'. I n s st \<Longrightarrow> running_slots x n s = Inr (None, k) \<Longrightarrow>
      preempt w (s\<lparr>sc_kv := k\<rparr>, st) = Inr (v, u, s', st') \<Longrightarrow> if \<not> u \<and> v = x then Q s' st' else I n s' st'"
  shows "case res of None \<Rightarrow> Q s' st'
    | Some (bs, m) \<Rightarrow> \<exists>s1 k. I m s1 st' \<and> running_slots x m s1 = Inr (Some bs, k) \<and> s' = s1\<lparr>sc_kv := k\<rparr>"
  using assms
proof (induction w x n "(s, st)" arbitrary: s st rule: alloc_running.induct)
  case (1 w x n s st)
  note step = "1.prems"(1) [unfolded alloc_running.simps [of w x n s st]]
  consider (stop) bs k where "running_slots x n s = Inr (Some bs, k)" | (more) k where "running_slots x n s = Inr (None, k)"
    using step by (auto split: sum.splits option.splits)
  then show ?case
  proof cases
    case stop
    with step have "res = Some (bs, n)" "st' = st" "s' = s\<lparr>sc_kv := k\<rparr>" by auto
    with stop "1.prems"(2) show ?thesis by auto
  next
    case more
    show ?thesis
    proof (cases "sc_policy s = MARS \<and> num_computed_tokens (sc_objs s x) < num_prompt_tokens (sc_objs s x) \<and> int (sc_block_size s) < n")
      case True
      then have "alloc_running w x (max (int (sc_block_size s)) (n div 2)) (s\<lparr>sc_kv := k\<rparr>, st) = Inr (res, s', st')" using more step by simp
      moreover have "I (max (int (sc_block_size s)) (n div 2)) (s\<lparr>sc_kv := k\<rparr>) st" using "1.prems"(3) [OF "1.prems"(2) more] True by blast
      ultimately show ?thesis
        by (rule "1.hyps"(1) [OF more refl refl True]) (erule (2) "1.prems"(3), erule (2) "1.prems"(4))
    next
      case False
      with more step obtain v u s1 st1 where pre: "preempt w (s\<lparr>sc_kv := k\<rparr>, st) = Inr (v, u, s1, st1)"
        by (auto split: sum.splits)
      note inv = "1.prems"(4) [OF "1.prems"(2) more pre]
      show ?thesis
      proof (cases "\<not> u \<and> v = x")
        case True
        with more step False pre inv show ?thesis by (auto split: if_splits)
      next
        case go: False
        with more step False pre have "alloc_running w x n (s1, st1) = Inr (res, s', st')" by (auto split: if_splits)
        moreover have "I n s1 st1" using inv go by argo
        ultimately show ?thesis
          by (rule "1.hyps"(2) [OF more refl refl False pre refl refl refl go]) (erule (2) "1.prems"(3), erule (2) "1.prems"(4))
      qed
    qed
  qed
qed

lemma alloc_running_index:
  assumes "alloc_running w x n (s, st) = Inr (res, s', st')"
  shows "length (sc_running s') - st_index st' \<le> length (sc_running s) - st_index st"
proof -
  define I where "I n s1 st1 \<longleftrightarrow> length (sc_running s1) - st_index st1 \<le> length (sc_running s) - st_index st" for n :: int and s1 :: sched and st1 :: step
  have "case res of None \<Rightarrow> I n s' st' | Some (bs, m) \<Rightarrow> \<exists>s1 k. I m s1 st' \<and> running_slots x m s1 = Inr (Some bs, k) \<and> s' = s1\<lparr>sc_kv := k\<rparr>"
    by (rule alloc_running_rule [OF assms]) (use preempt_shrinks(2) in \<open>force simp: I_def\<close>)+
  then show ?thesis by (auto simp: I_def split: option.splits)
qed

lemma commit_running_index:
  assumes "commit_running w x bs n quantum ids b (s, st) = Inr (s', st')"
  shows "st_index st' = st_index st + 1 \<and> sc_running s' = sc_running s"
  using assms
  by (auto simp: commit_running_def encoder_allocate_def note_spec_tokens_def policy_feedback_def with_mars_def mars_view_def
      mars_on_scheduled_def autellix_on_scheduled_def set_attrs_def upd_obj_def Let_def split: if_splits)

lemma running_tokens_frame:
  assumes "running_tokens w x s st = Inr (ids, n, b, quantum, s')"
  shows "sc_running s' = sc_running s"
  using assms
  by (auto simp: running_tokens_def policy_cap_def encoder_cap_def set_attrs_def Let_def split: if_splits prod.splits)

function running_loop :: "sched_world \<Rightarrow> sched \<times> step \<Rightarrow> (sched \<times> step) result" where
  "running_loop w (s, st) =
     (if st_index st < length (sc_running s) \<and> st_budget st > 0
      then
        if pk_prefill (st_pack st) \<and> sc_running s ! st_index st \<notin> pk_selected (st_pack st)
        then running_loop w (s, st\<lparr>st_index := st_index st + 1\<rparr>)
        else (case running_tokens w (sc_running s ! st_index st) s st of
            Inl e \<Rightarrow> Inl e
          | Inr (ids, n, enc_budget, quantum, s1) \<Rightarrow>
              if n = 0 then running_loop w (s1, st\<lparr>st_index := st_index st + 1\<rparr>)
              else (case alloc_running w (sc_running s ! st_index st) n (s1, st) of
                  Inl e \<Rightarrow> Inl e
                | Inr (None, s2, st2) \<Rightarrow> Inr (s2, st2)
                | Inr (Some (bs, n), s2, st2) \<Rightarrow>
                    (case commit_running w (sc_running s ! st_index st) bs n quantum ids enc_budget (s2, st2) of
                       Inl e \<Rightarrow> Inl e
                     | Inr (s3, st3) \<Rightarrow> running_loop w (s3, st3))))
      else Inr (s, st))"
  by pat_completeness auto
termination
  by (relation "measure (\<lambda>(_, s, st). length (sc_running s) - st_index st)")
    (auto dest!: running_tokens_frame alloc_running_index commit_running_index)

declare running_loop.simps [simp del]

definition running_phase :: "sched_world \<Rightarrow> sched \<times> step \<Rightarrow> (sched \<times> step) result" where
  "running_phase w p =
     rbind (running_loop w p) (\<lambda>(s, st).
       rbind (create_request_queue (sc_policy s)) (\<lambda>skipped.
         let loras = (case sc_max_loras s of None \<Rightarrow> {}
               | Some m \<Rightarrow> set (filter (\<lambda>l. l > 0) (List.map_filter (\<lambda>x. lora_request (sc_objs s x)) (st_running st))))
         in if (case sc_max_loras s of None \<Rightarrow> True | Some m \<Rightarrow> int (card loras) \<le> m)
            then Inr (s, st\<lparr>st_loras := loras, st_skipped := skipped\<rparr>) else Inl AssertionError))"

end
