(* ===== verification/Sched_Waiting.thy ===== *)
theory Sched_Waiting
  imports Sched_Step
begin

text \<open>
  The scan of the waiting queue in \<^verbatim>\<open>Scheduler.schedule\<close> (\<^verbatim>\<open>vllm/v1/core/sched/scheduler.py\<close>). One iteration goes
  through phases, each of which either leaves the iteration (\<^verbatim>\<open>continue\<close> is \<open>Leave True\<close>, \<^verbatim>\<open>break\<close> is
  \<open>Leave False\<close>) or proceeds with what it found.
\<close>

datatype 'a phase = Leave bool sched step | Proceed 'a sched step

definition pbind :: "'a phase result \<Rightarrow> ('a \<Rightarrow> sched \<Rightarrow> step \<Rightarrow> 'b phase result) \<Rightarrow> 'b phase result" where
  "pbind r f = rbind r (\<lambda>p. case p of Leave c s st \<Rightarrow> Inr (Leave c s st) | Proceed a s st \<Rightarrow> f a s st)"

section \<open>Gates\<close>

text \<open>The request leaves the queue for the list of skipped requests, to return after the scan.\<close>

definition skip_request :: "(req_ref \<times> request_queue) result \<Rightarrow> req_ref \<Rightarrow> sched \<Rightarrow> step \<Rightarrow> 'a phase result" where
  "skip_request popped x s st =
     rbind popped (\<lambda>(_, q).
       rbind (wq_prepend_request (sc_objs s x) (q_idx_of s x) (st_skipped st)) (\<lambda>k.
         Inr (Leave True (s\<lparr>sc_waiting := q\<rparr>) (st\<lparr>st_skipped := k\<rparr>))))"

definition update_waiting_for_remote_kv :: "sched_world \<Rightarrow> req_ref \<Rightarrow> sched \<Rightarrow> (bool \<times> sched) result" where
  "update_waiting_for_remote_kv w x s =
     (if w_connector_class w = None then Inl AssertionError
      else if x \<notin> sc_finished_recving s then Inr (False, s)
      else (case get_block_ids x (sc_kv s) of
          [ids] \<Rightarrow>
            let r = sc_objs s x;
                n = min (int (length ids) * int (sc_block_size s)) (num_tokens r);
                n = (if n = num_tokens r then n - 1 else n)
            in rbind (cache_blocks r n (sc_kv s)) (\<lambda>k.
                 Inr (True, upd_obj x (\<lambda>r. r\<lparr>num_computed_tokens := n\<rparr>)
                   (s\<lparr>sc_kv := k, sc_finished_recving := sc_finished_recving s - {x}\<rparr>)))
        | _ \<Rightarrow> Inl ValueError))"

definition status_gate :: "sched_world \<Rightarrow> req_ref \<Rightarrow> sched \<Rightarrow> step \<Rightarrow> unit phase result" where
  "status_gate w x s st =
     (let become_waiting = upd_obj x (\<lambda>r. r\<lparr>status := WAITING\<rparr>);
          not_ready = (\<lambda>s. if sc_policy s = LIGHTLLM then Inr (Leave False s st)
                           else skip_request (wq_pop_pinned (sc_objs s) (sc_pinned s) (sc_waiting s)) x s st)
      in if status (sc_objs s x) = WAITING_FOR_REMOTE_KVS
         then rbind (update_waiting_for_remote_kv w x s) (\<lambda>(is_ready, s).
           if is_ready then Inr (Proceed () (become_waiting s) st) else not_ready s)
         else if status (sc_objs s x) = WAITING_FOR_FSM
         then (if w_grammar_ready w (sc_objs s x) then Inr (Proceed () (become_waiting s) st) else not_ready s)
         else Inr (Proceed () s st))"

definition lora_gate :: "req_ref \<Rightarrow> sched \<Rightarrow> step \<Rightarrow> unit phase result" where
  "lora_gate x s st =
     (case (sc_max_loras s, lora_request (sc_objs s x)) of
        (Some m, Some l) \<Rightarrow>
          if int (card (st_loras st)) = m \<and> l \<notin> st_loras st then skip_request (wq_pop_request (sc_waiting s)) x s st
          else Inr (Proceed () s st)
      | _ \<Rightarrow> Inr (Proceed () s st))"

text \<open>A preview whose blocks were evicted meanwhile is made again.\<close>

definition refresh_preview :: "sched_world \<Rightarrow> req_ref \<Rightarrow> lightllm_preview \<Rightarrow> sched \<Rightarrow> step \<Rightarrow> (lightllm_preview \<times> sched \<times> step) result" where
  "refresh_preview w x pv s st =
     (if lightllm_block_signature (km_pool (sc_kv s)) (pv_blocks pv) = pv_signature pv then Inr (pv, s, st)
      else rbind (lightllm_drop_deferred x s) (\<lambda>s.
        rbind (get_computed_blocks (w_now w) (sc_objs s x) (sc_kv s)) (\<lambda>((bs, n), k).
          rbind (lightllm_request_state (sc_objs s x) (Some (num_computed_tokens (sc_objs s x) + n))) (\<lambda>state.
            let pv = \<lparr>pv_blocks = bs, pv_hit_tokens = n, pv_signature = lightllm_block_signature (km_pool k) bs,
                      pv_is_prefill = (\<not> is_decode_step state)\<rparr>
            in rbind (lightllm_reserve_prefix_blocks pv (s\<lparr>sc_kv := k\<rparr>)) (\<lambda>s.
                 Inr (pv, s\<lparr>sc_ll_deferred := AList.update x pv (sc_ll_deferred s)\<rparr>,
                      st\<lparr>st_previews := AList.update x pv (st_previews st)\<rparr>))))))"

definition lightllm_gate :: "sched_world \<Rightarrow> req_ref \<Rightarrow> sched \<Rightarrow> step \<Rightarrow> lightllm_preview option phase result" where
  "lightllm_gate w x s st =
     (if sc_policy s \<noteq> LIGHTLLM then Inr (Proceed None s st)
      else (case map_of (st_previews st) x of
          None \<Rightarrow> Inr (Leave False s st)
        | Some pv \<Rightarrow> rbind (refresh_preview w x pv s st) (\<lambda>(pv, s, st).
            let selected = (if pk_prefill (st_pack st) then pv_is_prefill pv \<and> x \<in> pk_selected (st_pack st)
                            else \<not> pv_is_prefill pv)
            in if selected then Inr (Proceed (Some pv) s st)
               else rbind (wq_pop_request (sc_waiting s)) (\<lambda>(_, q).
                 rbind (wq_add_request (sc_objs s x) (q_idx_of s x) (st_skipped st)) (\<lambda>k.
                   Inr (Leave True (s\<lparr>sc_waiting := q\<rparr>) (st\<lparr>st_skipped := k\<rparr>)))))))"

section \<open>Cached tokens and new tokens\<close>

record cached_part =
  cp_blocks :: KVCacheBlocks
  cp_local :: int
  cp_external :: int
  cp_total :: int
  cp_async :: bool

definition cached_tokens :: "sched_world \<Rightarrow> req_ref \<Rightarrow> lightllm_preview option \<Rightarrow> sched \<Rightarrow> step \<Rightarrow> cached_part phase result" where
  "cached_tokens w x preview s st =
     (let r = sc_objs s x
      in if num_computed_tokens r = 0
         then rbind (if sc_policy s = LIGHTLLM
                     then (case preview of None \<Rightarrow> Inl AssertionError | Some pv \<Rightarrow> Inr ((pv_blocks pv, pv_hit_tokens pv), sc_kv s))
                     else get_computed_blocks (w_now w) r (sc_kv s)) (\<lambda>((bs, n), k).
           let s = s\<lparr>sc_kv := k\<rparr>
           in if w_connector_class w = None
              then Inr (Proceed \<lparr>cp_blocks = bs, cp_local = n, cp_external = 0, cp_total = n, cp_async = False\<rparr> s st)
              else (case w_conn_matched w r n of
                  (None, _) \<Rightarrow> skip_request (wq_pop_request (sc_waiting s)) x s st
                | (Some ext, async) \<Rightarrow>
                    Inr (Proceed \<lparr>cp_blocks = bs, cp_local = n, cp_external = ext, cp_total = n + ext, cp_async = async\<rparr> s st)))
         else Inr (Proceed \<lparr>cp_blocks = create_empty_block_list (sc_kv s), cp_local = 0, cp_external = 0,
                            cp_total = num_computed_tokens r, cp_async = False\<rparr> s st))"

record new_part =
  np_tokens :: int
  np_quantum :: "int option"
  np_enc :: "int list"
  np_enc_budget :: int

definition new_tokens :: "sched_world \<Rightarrow> req_ref \<Rightarrow> cached_part \<Rightarrow> sched \<Rightarrow> step \<Rightarrow> new_part phase result" where
  "new_tokens w x cp s st =
     (if cp_async cp
      then (if cp_external cp > 0
            then Inr (Proceed \<lparr>np_tokens = 0, np_quantum = None, np_enc = [], np_enc_budget = st_enc_budget st\<rparr> s st)
            else Inl AssertionError)
      else
        let n = threshold_cap s (num_tokens (sc_objs s x) - cp_total cp)
        in if \<not> sc_chunked_prefill s \<and> n > st_budget st then skip_request (wq_pop_request (sc_waiting s)) x s st
           else if min n (st_budget st) \<le> 0 then Inl AssertionError
           else
             let (n, quantum, s) = policy_cap w x (cp_total cp) (min n (st_budget st)) s
             in rbind (encoder_cap x (cp_total cp) n (st_enc_budget st) s) (\<lambda>(ids, n, budget, s).
                  if has_encoder_inputs (sc_objs s x) \<and> n = 0 then Inr (Leave False s st)
                  else Inr (Proceed \<lparr>np_tokens = n, np_quantum = quantum, np_enc = ids, np_enc_budget = budget\<rparr> s st)))"

section \<open>Slots\<close>

text \<open>For an encoder-decoder model (only Whisper is accepted) the encoder's length is fixed.\<close>

definition encoder_tokens :: "req_ref \<Rightarrow> sched \<Rightarrow> int result" where
  "encoder_tokens x s =
     (if sc_encdec s \<and> has_encoder_inputs (sc_objs s x)
      then (if sc_whisper s then Inr (sc_encdec_len s) else Inl AssertionError) else Inr 0)"

function alloc_waiting :: "req_ref \<Rightarrow> cached_part \<Rightarrow> int \<Rightarrow> int \<Rightarrow> sched \<Rightarrow> ((KVCacheBlocks \<times> int) option \<times> sched) result" where
  "alloc_waiting x cp enc_tokens attempt s =
     (case allocate_slots (sc_objs s x) (attempt + cp_external cp) (cp_local cp) (Some (cp_blocks cp))
             (if num_computed_tokens (sc_objs s x) = 0 then 0 else sc_num_lookahead s) (cp_async cp) enc_tokens (sc_kv s) of
        Inl e \<Rightarrow> Inl e
      | Inr (Some bs, k) \<Rightarrow> Inr (Some (bs, attempt), s\<lparr>sc_kv := k\<rparr>)
      | Inr (None, k) \<Rightarrow>
          if sc_policy s = MARS \<and> \<not> cp_async cp \<and> cp_total cp < num_prompt_tokens (sc_objs s x) \<and> attempt > int (sc_block_size s)
          then alloc_waiting x cp enc_tokens (max (int (sc_block_size s)) (attempt div 2)) (s\<lparr>sc_kv := k\<rparr>)
          else Inr (None, s\<lparr>sc_kv := k\<rparr>))"
  by pat_completeness auto
termination
  by (relation "measure (\<lambda>(_, _, _, attempt, _). nat attempt)") auto

declare alloc_waiting.simps [simp del]

text \<open>LightLLM gives its hold back just before the allocator takes over, and takes it again when that fails.\<close>

definition release_preview :: "req_ref \<Rightarrow> lightllm_preview option \<Rightarrow> sched \<Rightarrow> sched result" where
  "release_preview x preview s =
     (if sc_policy s \<noteq> LIGHTLLM then Inr s
      else (case preview of
          None \<Rightarrow> Inl AssertionError
        | Some pv \<Rightarrow>
            if map_of (sc_ll_deferred s) x \<noteq> Some pv then Inl AssertionError
            else lightllm_release_prefix_blocks pv (s\<lparr>sc_ll_deferred := AList.delete x (sc_ll_deferred s)\<rparr>)))"

definition keep_preview :: "req_ref \<Rightarrow> lightllm_preview option \<Rightarrow> sched \<Rightarrow> sched result" where
  "keep_preview x preview s =
     (case (sc_policy s, preview) of
        (LIGHTLLM, Some pv) \<Rightarrow>
          rbind (lightllm_reserve_prefix_blocks pv s) (\<lambda>s. Inr (s\<lparr>sc_ll_deferred := AList.update x pv (sc_ll_deferred s)\<rparr>))
      | _ \<Rightarrow> Inr s)"

text \<open>With nothing running, a retained request gives up its blocks for the next step.\<close>

definition release_retained :: "sched_world \<Rightarrow> sched \<Rightarrow> step \<Rightarrow> (sched \<times> step) result" where
  "release_retained w s st =
     (if sc_running s = [] \<and> sc_pinned s \<noteq> [] \<and> sc_policy s \<in> {CONTINUUM, CONTINUUM_DY, INFERCEPT, INFERCEPT_SWAP}
      then rbind (pop_running_request_based_on_last_step s) (\<lambda>(v, _, s).
        rbind (km_free (sc_objs s v) (sc_kv s)) (\<lambda>k.
          rbind (enc_free (w_set_order w) (sc_objs s v) (sc_encoder s)) (\<lambda>c.
            Inr (s\<lparr>sc_kv := k, sc_encoder := c\<rparr>, st\<lparr>st_running := remove1 v (st_running st)\<rparr>))))
      else Inr (s, st))"

definition take_slots :: "sched_world \<Rightarrow> req_ref \<Rightarrow> lightllm_preview option \<Rightarrow> cached_part \<Rightarrow> int \<Rightarrow> sched \<Rightarrow> step \<Rightarrow> int phase result" where
  "take_slots w x preview cp n s st =
     rbind (encoder_tokens x s) (\<lambda>enc_tokens.
       rbind (release_preview x preview s) (\<lambda>s.
         rbind (alloc_waiting x cp enc_tokens n s) (\<lambda>(res, s).
           case res of
             Some (_, n) \<Rightarrow> Inr (Proceed n s st)
           | None \<Rightarrow>
               rbind (keep_preview x preview s) (\<lambda>s.
                 rbind (release_retained w s st) (\<lambda>(s, st). Inr (Leave False s st))))))"

section \<open>Admission\<close>

definition note_admitted :: "sched_world \<Rightarrow> req_ref \<Rightarrow> sched \<Rightarrow> step \<Rightarrow> (sched \<times> step) result" where
  "note_admitted w x s st =
     (if status (sc_objs s x) = WAITING
      then rbind (record_event_of (job_id (sc_objs s x)) s) (\<lambda>_. Inr (s, st\<lparr>st_new := st_new st @ [x]\<rparr>))
      else if status (sc_objs s x) = PREEMPTED
      then rbind (record_event_of (job_id (sc_objs s x)) s) (\<lambda>_.
        Inr (s\<lparr>sc_queue_delay_samples := (case sc_evicted_at s x of
                   Some t \<Rightarrow> deque_append 200 (w_now w - t) (sc_queue_delay_samples s) | None \<Rightarrow> sc_queue_delay_samples s),
               sc_evicted_at := (sc_evicted_at s)(x := None)\<rparr>, st\<lparr>st_resumed := st_resumed st @ [x]\<rparr>))
      else Inl RuntimeError)"

definition admit :: "sched_world \<Rightarrow> req_ref \<Rightarrow> cached_part \<Rightarrow> new_part \<Rightarrow> int \<Rightarrow> sched \<Rightarrow> step \<Rightarrow> unit phase result" where
  "admit w x cp np n s st =
     rbind (wq_remove_request x (sc_waiting s)) (\<lambda>q.
       let s = s\<lparr>sc_waiting := q\<rparr>
       in if cp_async cp
          then rbind (wq_prepend_request (sc_objs s x) (q_idx_of s x) (st_skipped st)) (\<lambda>k.
            Inr (Leave True (upd_obj x (\<lambda>r. r\<lparr>status := WAITING_FOR_REMOTE_KVS\<rparr>) s) (st\<lparr>st_skipped := k\<rparr>)))
          else
            let s = s\<lparr>sc_running := sc_running s @ [x]\<rparr>;
                s = (if sc_log_stats s then upd_obj x (record_event SCHEDULED (w_mono w)) s else s)
            in rbind (note_admitted w x s (st\<lparr>st_index := st_index st + 1\<rparr>)) (\<lambda>(s, st).
              let st = st\<lparr>st_loras := (case (sc_max_loras s, lora_request (sc_objs s x)) of
                                         (Some _, Some l) \<Rightarrow> insert l (st_loras st) | _ \<Rightarrow> st_loras st),
                          st_blocks := AList.update x (get_blocks x (sc_kv s)) (st_blocks st),
                          st_num := AList.update x n (st_num st), st_budget := st_budget st - n\<rparr>;
                  s = policy_feedback w x n (np_quantum np)
                        (upd_obj x (\<lambda>r. r\<lparr>status := RUNNING, num_computed_tokens := cp_total cp\<rparr>) s);
                  s = upd_obj x (\<lambda>r. if num_cached_tokens r < 0 then r\<lparr>num_cached_tokens := cp_total cp\<rparr> else r) s
              in rbind (encoder_allocate x (np_enc np) (np_enc_budget np) (s, st)) (\<lambda>(s, st). Inr (Leave True s st))))"

section \<open>The scan\<close>

definition waiting_step :: "sched_world \<Rightarrow> sched \<Rightarrow> step \<Rightarrow> unit phase result" where
  "waiting_step w s st =
     (if length (sc_running s) = sc_max_num_running_reqs s then Inr (Leave False s st)
      else rbind (wq_peek_request (sc_objs s) (sc_pinned s) (sc_waiting s)) (\<lambda>(x, q).
        pbind (status_gate w x (s\<lparr>sc_waiting := q\<rparr>) st) (\<lambda>_ s st.
          pbind (lora_gate x s st) (\<lambda>_ s st.
            pbind (lightllm_gate w x s st) (\<lambda>preview s st.
              pbind (cached_tokens w x preview s st) (\<lambda>cp s st.
                pbind (new_tokens w x cp s st) (\<lambda>np s st.
                  pbind (take_slots w x preview cp (np_tokens np) s st) (\<lambda>n s st.
                    admit w x cp np n s st))))))))"

partial_function (option) waiting_loop :: "sched_world \<Rightarrow> sched \<Rightarrow> step \<Rightarrow> (sched \<times> step) result option" where
  "waiting_loop w s st =
     (if wq_len (sc_waiting s) \<noteq> 0 \<and> st_budget st > 0
      then (case waiting_step w s st of
          Inl e \<Rightarrow> Some (Inl e)
        | Inr (Leave again s st) \<Rightarrow> if again then waiting_loop w s st else Some (Inr (s, st))
        | Inr (Proceed _ s st) \<Rightarrow> Some (Inr (s, st)))
      else Some (Inr (s, st)))"

declare waiting_loop.simps [code]

definition waiting_phase :: "sched_world \<Rightarrow> sched \<times> step \<Rightarrow> (sched \<times> step) result option" where
  "waiting_phase w = (\<lambda>(s, st).
     case (if st_preempted st = [] then waiting_loop w s st else Some (Inr (s, st))) of
       None \<Rightarrow> None
     | Some (Inl e) \<Rightarrow> Some (Inl e)
     | Some (Inr (s, st)) \<Rightarrow>
         Some (rbind (wq_iter (st_skipped st)) (\<lambda>skipped.
           if skipped = [] then Inr (s, st)
           else rbind (wq_prepend_requests (sc_objs s) (q_idx_of s) skipped (sc_waiting s)) (\<lambda>q. Inr (s\<lparr>sc_waiting := q\<rparr>, st)))))"

end
