(* ===== verification/Sched_Output.thy ===== *)
theory Sched_Output
  imports Sched_Waiting
begin

text \<open>
  The end of \<^verbatim>\<open>Scheduler.schedule\<close>: the checks of the step, the message for the workers (the dataclasses of
  \<^verbatim>\<open>vllm/v1/core/sched/output.py\<close>) and the update of the scheduler's own state, for the synchronous scheduler and
  for \<^verbatim>\<open>AsyncScheduler\<close> (\<^verbatim>\<open>async_scheduler.py\<close>).
\<close>

section \<open>Messages\<close>

record NewRequestData =
  nr_req_id :: req_ref
  nr_prompt_token_ids :: "int list"
  nr_mm_features :: "mm_feature list"
  nr_sampling_params :: "sampling_params option"
  nr_pooling_params :: "unit option"
  nr_block_ids :: "int list list"
  nr_num_computed_tokens :: int
  nr_lora_request :: "int option"

definition from_request :: "request \<Rightarrow> int list list \<Rightarrow> NewRequestData" where
  "from_request r ids = \<lparr>nr_req_id = request_id r, nr_prompt_token_ids = prompt_token_ids r, nr_mm_features = mm_features r,
     nr_sampling_params = sampling_params_of r, nr_pooling_params = pooling_params r, nr_block_ids = ids,
     nr_num_computed_tokens = num_computed_tokens r, nr_lora_request = lora_request r\<rparr>"

record CachedRequestData =
  cr_req_ids :: "req_ref list"
  cr_resumed_from_preemption :: "bool list"
  cr_new_token_ids :: "int list list"
  cr_new_block_ids :: "int list list option list"
  cr_num_computed_tokens :: "int list"

record SchedulerOutput =
  so_new :: "NewRequestData list"
  so_cached :: CachedRequestData
  so_num_scheduled_tokens :: "(req_ref \<times> int) list"
  so_total_num_scheduled_tokens :: int
  so_spec :: "(req_ref \<times> int list) list"
  so_encoder_inputs :: "(req_ref \<times> int list) list"
  so_num_common_prefix_blocks :: "int list"
  so_finished_req_ids :: "req_ref set"
  so_free_mm_hashes :: "mm_hash list"
  so_structured_output_ids :: "(req_ref \<times> int) list"

definition lookup_key :: "(req_ref \<times> 'a) list \<Rightarrow> req_ref \<Rightarrow> 'a result" where
  "lookup_key d x = (case map_of d x of Some v \<Rightarrow> Inr v | None \<Rightarrow> Inl KeyError)"

definition new_request_data :: "step \<Rightarrow> sched \<Rightarrow> req_ref \<Rightarrow> NewRequestData result" where
  "new_request_data st s x =
     rbind (lookup_key (st_blocks st) x) (\<lambda>bs.
       Inr (from_request (sc_objs s x) (the (blocks_get_block_ids False (km_pool (sc_kv s)) bs))))"

definition cached_entry :: "step \<Rightarrow> sched \<Rightarrow> req_ref \<Rightarrow> (int list \<times> int list list option \<times> int) result" where
  "cached_entry st s x =
     rbind (lookup_key (st_num st) x) (\<lambda>n.
       let r = sc_objs s x; spec = (case map_of (st_spec st) x of Some ts \<Rightarrow> ts | None \<Rightarrow> []);
           num = n - int (length spec)
       in rbind (lookup_key (st_blocks st) x) (\<lambda>bs.
         Inr (py_slice (all_token_ids r) (num_computed_tokens r) (num_computed_tokens r + num),
              blocks_get_block_ids True (km_pool (sc_kv s)) bs, num_computed_tokens r)))"

definition make_cached_request_data :: "sched_world \<Rightarrow> step \<Rightarrow> sched \<Rightarrow> CachedRequestData result" where
  "make_cached_request_data w st s =
     (let ids = st_running st @ st_resumed st
      in rbind (rmap (cached_entry st s) ids) (\<lambda>es.
        Inr \<lparr>cr_req_ids = ids,
             cr_resumed_from_preemption = replicate (length (st_running st)) False @ replicate (length (st_resumed st)) True,
             cr_new_token_ids = (if sc_use_pp s then map fst es else if w_connector_class w \<noteq> None then map (\<lambda>_. []) es else []),
             cr_new_block_ids = map (fst \<circ> snd) es,
             cr_num_computed_tokens = map (snd \<circ> snd) es\<rparr>))"

text \<open>The bitmask itself comes from the structured-output manager; the ids it is asked for are modelled.\<close>

definition get_grammar_bitmask :: "sched \<Rightarrow> (req_ref \<times> int) list" where
  "get_grammar_bitmask s =
     fold (\<lambda>(i, x) d. if use_structured_output (sc_objs s x) then AList.update x i d else d)
       (zip (map int [0..<length (sc_running s)]) (sc_running s)) []"

section \<open>Checks\<close>

definition total_scheduled :: "step \<Rightarrow> int" where
  "total_scheduled st = sum_list (map snd (st_num st))"

definition autellix_note_wait :: "step \<Rightarrow> sched \<Rightarrow> sched result" where
  "autellix_note_wait st s =
     (if sc_policy s = AUTELLIX \<and> total_scheduled st > 0
      then rbind (wq_iter (sc_waiting s)) (\<lambda>waiting.
        Inr (fold (\<lambda>x s. if map_of (st_num st) x = None
                         then set_attrs x (\<lambda>a. a\<lparr>at_wait_tokens := Some (attr_or 0 (at_wait_tokens a) + total_scheduled st)\<rparr>) s
                         else s) (sc_running s @ waiting) s))
      else Inr s)"

definition step_checks :: "sched \<Rightarrow> step \<Rightarrow> bool" where
  "step_checks s st \<longleftrightarrow>
     total_scheduled st \<le> sc_max_num_scheduled_tokens s \<and> st_budget st \<ge> 0 \<and>
     length (sc_running s) \<le> sc_max_num_running_reqs s \<and>
     (sc_policy s = LIGHTLLM \<longrightarrow> length (sc_running s) + length (sc_ll_deferred s) \<le> sc_max_num_running_reqs s) \<and>
     length (st_new st) + length (st_resumed st) + length (st_running st) \<le> length (sc_running s)"

section \<open>After the step\<close>

definition update_after_schedule :: "sched_world \<Rightarrow> (req_ref \<times> int) list \<Rightarrow> sched \<Rightarrow> sched result" where
  "update_after_schedule w num s =
     rbind (rfold (\<lambda>(x, n) s.
       if x \<notin> set (sc_requests s) then Inl KeyError
       else
         let s = upd_obj x (\<lambda>r. r\<lparr>num_computed_tokens := num_computed_tokens r + n\<rparr>) s
         in if has_encoder_inputs (sc_objs s x)
            then rbind (free_encoder_inputs (w_set_order w) (sc_encdec s) (sc_objs s x) (sc_encoder s)) (\<lambda>c. Inr (s\<lparr>sc_encoder := c\<rparr>))
            else Inr s) num s) (\<lambda>s. Inr (s\<lparr>sc_finished_req_ids := {}\<rparr>))"

definition async_update_after_schedule :: "sched_world \<Rightarrow> (req_ref \<times> int) list \<Rightarrow> sched \<Rightarrow> sched result" where
  "async_update_after_schedule w num s =
     rbind (update_after_schedule w num s) (\<lambda>s.
       rfold (\<lambda>(x, _) s.
         if x \<notin> set (sc_requests s) then Inl KeyError
         else Inr (upd_obj x (\<lambda>r. if num_computed_tokens r = num_tokens r + num_output_placeholders r
                                  then r\<lparr>num_output_placeholders := num_output_placeholders r + 1\<rparr> else r) s)) num s)"

section \<open>One scheduling step\<close>

definition schedule_output :: "sched_world \<Rightarrow> sched \<Rightarrow> step \<Rightarrow> (SchedulerOutput \<times> sched) result" where
  "schedule_output w s st =
     rbind (autellix_note_wait st s) (\<lambda>s.
       if \<not> step_checks s st then Inl AssertionError
       else rbind (case sc_running s of
                     [] \<Rightarrow> Inr (replicate (num_kv_cache_groups (sc_kv s)) 0)
                   | x # _ \<Rightarrow> get_num_common_prefix_blocks (sc_objs s x) (int (length (sc_running s))) (sc_kv s)) (\<lambda>common.
         rbind (rmap (new_request_data st s) (st_new st)) (\<lambda>new_data.
           rbind (make_cached_request_data w st s) (\<lambda>cached_data.
             let (hashes, c) = get_freed_mm_hashes (sc_encoder s);
                 out = \<lparr>so_new = new_data, so_cached = cached_data, so_num_scheduled_tokens = st_num st,
                        so_total_num_scheduled_tokens = total_scheduled st, so_spec = st_spec st,
                        so_encoder_inputs = st_enc st, so_num_common_prefix_blocks = common,
                        so_finished_req_ids = sc_finished_req_ids s, so_free_mm_hashes = hashes,
                        so_structured_output_ids = get_grammar_bitmask s\<rparr>;
                 s = s\<lparr>sc_encoder := c, sc_kv := snd (km_take_events (sc_kv s))\<rparr>
             in rbind (if sc_async s then async_update_after_schedule w (st_num st) s
                       else update_after_schedule w (st_num st) s) (\<lambda>s. Inr (out, s))))))"

text \<open>None: the step does not return.\<close>

definition schedule_loops :: "sched_world \<Rightarrow> sched \<Rightarrow> (sched \<times> step) result option" where
  "schedule_loops w s =
     (case rbind (schedule_start w s) (running_phase w) of
        Inl e \<Rightarrow> Some (Inl e)
      | Inr p \<Rightarrow> waiting_phase w p)"

definition schedule :: "sched_world \<Rightarrow> sched \<Rightarrow> (SchedulerOutput \<times> sched) result option" where
  "schedule w s = map_option (\<lambda>r. rbind r (\<lambda>(s, st). schedule_output w s st)) (schedule_loops w s)"

end
