(* ===== verification/Queue_Contents.thy ===== *)
theory Queue_Contents
  imports Sched_State
begin

text \<open>
  Which requests a waiting queue holds, whatever its order: each operation of the five queues that
  returns adds or removes exactly the request it was called for. The laws hold also where the order
  is disturbed (equal priorities, stale heap entries of the MARS queue).
\<close>

section \<open>Heaps keep their entries\<close>

lemma siftup_loop_mset:
  "siftup_loop lt h pos = Inr (h', p) \<Longrightarrow> pos < length h \<Longrightarrow> p < length h' \<and> length h' = length h \<and> mset (h'[p := x]) = mset (h[pos := x])"
proof (induction lt h pos rule: siftup_loop.induct)
  case (1 lt h pos)
  show ?case
  proof (cases "2 * pos + 1 < length h")
    case True
    with "1.prems"(1) obtain c where c: "min_child lt h (2 * pos + 1) = Inr c" "siftup_loop lt (h[pos := h ! c]) c = Inr (h', p)"
      by (subst (asm) siftup_loop.simps) auto
    with min_child_cases [OF c(1) True] have len: "c < length h" "pos \<noteq> c" by auto
    with "1.IH" [OF True c(1,2)] "1.prems"(2) show ?thesis by (simp add: mset_swap_update)
  next
    case False
    with "1.prems" show ?thesis by (subst (asm) siftup_loop.simps) auto
  qed
qed

lemma siftup_mset: "siftup lt h pos = Inr h' \<Longrightarrow> pos < length h \<Longrightarrow> mset h' = mset h"
  using siftup_loop_mset [of lt h pos _ _ "h ! pos"] by (fastforce simp: siftup_def dest!: siftdown_mset)

lemma heappush_mset: "heappush lt h x = Inr h' \<Longrightarrow> mset h' = add_mset x (mset h)"
  using siftdown_mset [of lt "h @ [x]" x 0 "length h" h'] by (simp add: heappush_def)

lemma heappop_mset:
  assumes "heappop lt h = Inr (x, h')"
  shows "mset h = add_mset x (mset h') \<and> x = h ! 0"
proof (cases h rule: rev_cases)
  case Nil
  then show ?thesis using assms by (simp add: heappop_def)
next
  case (snoc ys y)
  then show ?thesis
    using assms siftup_mset [of lt "ys[0 := y]" 0]
    by (cases ys) (auto simp: heappop_def Let_def split: if_splits)
qed

lemma heapify_mset:
  assumes "heapify lt h = Inr h'"
  shows "mset h' = mset h"
proof (rule rfold_invariant [where P = "\<lambda>t. mset t = mset h", OF assms [unfolded heapify_def]])
  fix i h1 h2
  assume i: "i \<in> set (rev [0..<length h div 2])" and eq: "mset h1 = mset h" and "siftup lt h1 i = Inr h2"
  moreover have "length h1 = length h" using eq by (metis size_mset)
  ultimately show "mset h2 = mset h" using siftup_mset [of lt h1 i h2] by simp
qed simp

lemma heap_drain_mset: "heap_drain lt h = Inr r \<Longrightarrow> mset r = mset h"
proof (induction lt h arbitrary: r rule: heap_drain.induct)
  case (1 lt h)
  show ?case
  proof (cases "h = []")
    case False
    with "1.prems" obtain x h' r' where p: "heappop lt h = Inr (x, h')" "heap_drain lt h' = Inr r'" "r = x # r'"
      by (subst (asm) heap_drain.simps) auto
    with "1.IH" [OF False p(1)] heappop_mset [OF p(1)] show ?thesis by simp
  qed (use "1.prems" in \<open>simp add: heap_drain.simps\<close>)
qed

section \<open>Contents and well-formedness\<close>

definition prio_ids :: "prio_queue \<Rightarrow> req_ref list" where
  "prio_ids h = map (\<lambda>(_, _, r). r) h"

definition mars_ids :: "mars_queue \<Rightarrow> req_ref list" where
  "mars_ids m = map fst (mq_requests m)"

definition wq_ids :: "request_queue \<Rightarrow> req_ref list" where
  "wq_ids q = (case q of
       FcfsQ d \<Rightarrow> d | PrioQ h \<Rightarrow> prio_ids h | ContQ c \<Rightarrow> cq_deque c | AutQ a \<Rightarrow> aut_iter a | MarsQ m \<Rightarrow> mars_ids m)"

definition mars_wf :: "mars_queue \<Rightarrow> bool" where
  "mars_wf m \<longleftrightarrow> distinct (mars_ids m) \<and> (\<forall>(a, b)\<in>set (mq_requests m). a = b) \<and> map fst (mq_key_by_id m) = mars_ids m"

definition aut_wf :: "autellix_queue \<Rightarrow> bool" where
  "aut_wf a \<longleftrightarrow> 0 < num_queues a \<and> length (aq_queues a) = nat (num_queues a) \<and> (\<forall>(r, i)\<in>set (req_to_q_idx a). 0 \<le> i)"

definition wq_wf :: "request_queue \<Rightarrow> bool" where
  "wq_wf q \<longleftrightarrow> distinct (wq_ids q) \<and> (case q of AutQ a \<Rightarrow> aut_wf a | MarsQ m \<Rightarrow> mars_wf m | _ \<Rightarrow> True)"

text \<open>An operation that adds one request and keeps the rest, when it returns.\<close>

locale adds_one =
  fixes ids :: "'q \<Rightarrow> req_ref list" and wf :: "'q \<Rightarrow> bool" and key :: "'e \<Rightarrow> req_ref" and add :: "'e \<Rightarrow> 'q \<Rightarrow> 'q result"
  assumes add_ids: "wf q \<Longrightarrow> key e \<notin> set (ids q) \<Longrightarrow> add e q = Inr q' \<Longrightarrow> wf q' \<and> mset (ids q') = add_mset (key e) (mset (ids q))"
begin

lemma add_all_ids:
  assumes "rfold add es q = Inr q'" and "wf q" and "distinct (map key es @ ids q)"
  shows "wf q' \<and> mset (ids q') = mset (map key es) + mset (ids q)"
  using assms
proof (induction es arbitrary: q)
  case (Cons e es)
  then obtain q1 where q1: "add e q = Inr q1" "rfold add es q1 = Inr q'" by auto
  have new: "wf q1" "mset (ids q1) = add_mset (key e) (mset (ids q))" using add_ids [OF Cons.prems(2) _ q1(1)] Cons.prems(3) by simp_all
  then have "distinct (map key es @ ids q1) \<longleftrightarrow> distinct (key e # map key es @ ids q)"
    by (intro mset_eq_imp_distinct_iff) simp
  then have "distinct (map key es @ ids q1)" using Cons.prems(3) by simp
  from Cons.IH [OF q1(2) new(1) this] new(2) show ?case by simp
qed simp

end

section \<open>The laws of the queues\<close>

lemma mars_push_ids:
  assumes "mars_push rid t l ord m = Inr m'" and "mars_wf m" and "rid \<notin> set (mars_ids m)"
  shows "mars_wf m' \<and> mars_ids m' = mars_ids m @ [rid]"
proof -
  have fresh: "rid \<notin> fst ` set (mq_requests m)" "rid \<notin> fst ` set (mq_key_by_id m)"
    using assms(2,3) by (simp_all add: mars_wf_def mars_ids_def flip: set_map)
  from assms(1) have "mq_requests m' = mq_requests m @ [(rid, rid)]" "mq_key_by_id m' = mq_key_by_id m @ [(rid, l, ord, t)]"
    by (auto simp: mars_push_def Let_def AList_update_fresh [OF fresh(1)] AList_update_fresh [OF fresh(2)])
  with assms(2,3) show ?thesis by (auto simp: mars_wf_def mars_ids_def)
qed

lemma AList_update_subset: "set (AList.update k v xs) \<subseteq> insert (k, v) (set xs)"
  by (induction xs) auto

lemma aut_put_ids:
  assumes "aut_wf a" and "\<And>d. mset (f d) = add_mset x (mset d)"
  shows "aut_wf (aut_put f attr x a) \<and> mset (aut_iter (aut_put f attr x a)) = add_mset x (mset (aut_iter a))"
proof -
  define i where "i = get_q_idx a attr"
  have i: "0 \<le> i" "nat i < length (aq_queues a)" using assms(1) by (auto simp: i_def get_q_idx_def clamp_q_idx_def aut_wf_def)
  have "set (AList.update x i (req_to_q_idx a)) \<subseteq> insert (x, i) (set (req_to_q_idx a))" by (rule AList_update_subset)
  then have "\<forall>(r, j)\<in>set (AList.update x i (req_to_q_idx a)). 0 \<le> j" using assms(1) i(1) by (fastforce simp: aut_wf_def)
  moreover have "mset (concat ((aq_queues a)[nat i := f (aq_queues a ! nat i)])) = add_mset x (mset (concat (aq_queues a)))"
    using mset_concat_update [OF i(2), of "f (aq_queues a ! nat i)"] by (simp add: assms(2))
  ultimately show ?thesis using assms(1) by (simp add: aut_wf_def aut_put_def aut_iter_def Let_def flip: i_def)
qed

lemma distinct_add: "mset xs = add_mset x (mset ys) \<Longrightarrow> distinct xs \<longleftrightarrow> x \<notin> set ys \<and> distinct ys"
  using mset_eq_imp_distinct_iff [of xs "x # ys"] by simp

lemma wq_wf_add: "mset (wq_ids q') = add_mset x (mset (wq_ids q)) \<Longrightarrow> x \<notin> set (wq_ids q) \<Longrightarrow> wq_wf q \<Longrightarrow>
    (case q' of AutQ a \<Rightarrow> aut_wf a | MarsQ m \<Rightarrow> mars_wf m | _ \<Rightarrow> True) \<Longrightarrow> wq_wf q'"
  by (simp add: wq_wf_def distinct_add [of "wq_ids q'" x "wq_ids q"])

lemma wq_add_ids:
  assumes "wq_wf q" and "request_id r \<notin> set (wq_ids q)" and "wq_add_request r i q = Inr q'"
  shows "wq_wf q' \<and> mset (wq_ids q') = add_mset (request_id r) (mset (wq_ids q))"
proof -
  have "mset (wq_ids q') = add_mset (request_id r) (mset (wq_ids q)) \<and> (case q' of AutQ a \<Rightarrow> aut_wf a | MarsQ m \<Rightarrow> mars_wf m | _ \<Rightarrow> True)"
  proof (cases q)
    case (AutQ a)
    then show ?thesis using assms aut_put_ids [of a "\<lambda>d. d @ [request_id r]" "request_id r" i]
      by (auto simp: wq_add_request_def wq_ids_def wq_wf_def aut_add_request_def)
  next
    case (MarsQ m)
    then show ?thesis using assms by (auto simp: wq_add_request_def wq_ids_def wq_wf_def mars_add_request_def mars_wf_def mars_ids_def dest!: mars_push_ids)
  qed (use assms in \<open>auto simp: wq_add_request_def wq_ids_def fcfs_add_request_def cont_add_request_def note_job_def Let_def
          prio_add_request_def prio_ids_def dest!: heappush_mset arg_cong [where f = "image_mset (\<lambda>(_, _, r). r)"]\<close>)
  then show ?thesis using wq_wf_add assms(1,2) by blast
qed

lemma wq_prepend_ids:
  assumes "wq_wf q" and "request_id r \<notin> set (wq_ids q)" and "wq_prepend_request r i q = Inr q'"
  shows "wq_wf q' \<and> mset (wq_ids q') = add_mset (request_id r) (mset (wq_ids q))"
proof -
  have "mset (wq_ids q') = add_mset (request_id r) (mset (wq_ids q)) \<and> (case q' of AutQ a \<Rightarrow> aut_wf a | MarsQ m \<Rightarrow> mars_wf m | _ \<Rightarrow> True)"
  proof (cases q)
    case (AutQ a)
    then show ?thesis using assms aut_put_ids [of a "\<lambda>d. request_id r # d" "request_id r" i]
      by (auto simp: wq_prepend_request_def wq_ids_def wq_wf_def aut_prepend_request_def)
  next
    case (MarsQ m)
    then show ?thesis using assms by (auto simp: wq_prepend_request_def wq_ids_def wq_wf_def mars_prepend_request_def mars_wf_def mars_ids_def dest!: mars_push_ids)
  qed (use assms in \<open>auto simp: wq_prepend_request_def wq_ids_def fcfs_prepend_request_def cont_prepend_request_def note_job_def Let_def
          prio_add_request_def prio_ids_def dest!: heappush_mset arg_cong [where f = "image_mset (\<lambda>(_, _, r). r)"]\<close>)
  then show ?thesis using wq_wf_add assms(1,2) by blast
qed

interpretation wq_add: adds_one wq_ids wq_wf "\<lambda>(r, i). request_id r" "\<lambda>(r, i). wq_add_request r i"
  by unfold_locales (auto dest: wq_add_ids)

interpretation wq_prepend: adds_one wq_ids wq_wf "\<lambda>(r, i). request_id r" "\<lambda>(r, i). wq_prepend_request r i"
  by unfold_locales (auto dest: wq_prepend_ids)

text \<open>Prepending several requests is prepending them one by one, in an order that depends on the queue.\<close>

lemma wq_prepend_requests_ids:
  assumes "wq_prepend_requests obj i xs q = Inr q'" and "wq_wf q" and "distinct (xs @ wq_ids q)" and "\<And>x. request_id (obj x) = x"
  shows "wq_wf q' \<and> mset (wq_ids q') = mset xs + mset (wq_ids q)"
proof -
  note obj [simp] = assms(4)
  have one_by_one: ?thesis if "rfold (\<lambda>(r, i). wq_prepend_request r i) (map (\<lambda>x. (obj x, i x)) ys) q = Inr q'" "mset ys = mset xs" for ys
  proof -
    have "distinct (map (\<lambda>(r, i). request_id r) (map (\<lambda>x. (obj x, i x)) ys) @ wq_ids q) \<longleftrightarrow> distinct (xs @ wq_ids q)"
      using that(2) by (intro mset_eq_imp_distinct_iff) (simp add: comp_def)
    with wq_prepend.add_all_ids [OF that(1) assms(2)] that(2) assms(3) show ?thesis by (simp add: comp_def)
  qed
  show ?thesis
  proof (cases q)
    case (FcfsQ d)
    then show ?thesis using assms by (auto simp: wq_prepend_requests_def wq_ids_def wq_wf_def fcfs_prepend_requests_append)
  next
    case (PrioQ h)
    have "rfold (\<lambda>(r, i). wq_prepend_request r i) (map (\<lambda>x. (obj x, i x)) ys) (PrioQ g) = Inr (PrioQ g')"
      if "rfold prio_add_request (map obj ys) g = Inr g'" for ys g g'
      using that by (induction ys arbitrary: g) (auto simp: wq_prepend_request_def)
    then show ?thesis using assms(1) PrioQ by (intro one_by_one [of xs]) (auto simp: wq_prepend_requests_def prio_prepend_requests_def)
  next
    case (ContQ c)
    have "cq_deque (fold note_job rs c) = cq_deque c" for rs by (induction rs arbitrary: c) (auto simp: note_job_def)
    then show ?thesis using assms ContQ
      by (auto simp: wq_prepend_requests_def cont_prepend_requests_def wq_ids_def wq_wf_def fcfs_prepend_requests_append Let_def comp_def)
  next
    case (AutQ a)
    have "rfold (\<lambda>(r, i). wq_prepend_request r i) (map (\<lambda>x. (obj x, i x)) ys) (AutQ b) =
        Inr (AutQ (fold aut_prepend_request (map (\<lambda>x. (x, i x)) ys) b))" for ys b
      by (induction ys arbitrary: b) (auto simp: wq_prepend_request_def assms(4))
    then show ?thesis using assms(1) AutQ
      by (intro one_by_one [of "rev xs"]) (auto simp: wq_prepend_requests_def aut_prepend_requests_def rev_map)
  next
    case (MarsQ m)
    have "rfold (\<lambda>(r, i). wq_prepend_request r i) (map (\<lambda>x. (obj x, i x)) ys) (MarsQ g) = Inr (MarsQ g')"
      if "rfold mars_prepend_request (map obj ys) g = Inr g'" for ys g g'
      using that by (induction ys arbitrary: g) (auto simp: wq_prepend_request_def)
    then show ?thesis using assms(1) MarsQ by (intro one_by_one [of xs]) (auto simp: wq_prepend_requests_def mars_prepend_requests_def)
  qed
qed

lemma earliest_in: "earliest time best rs = Some (x, t) \<Longrightarrow> x \<in> set rs \<or> best = Some (x, t)"
  by (induction time best rs rule: earliest.induct) (auto split: option.splits if_splits)

lemma first_nonempty_ids: "first_nonempty ds = Some (r, ds') \<Longrightarrow> mset (concat ds) = add_mset r (mset (concat ds')) \<and> length ds' = length ds"
  by (induction ds arbitrary: ds' rule: first_nonempty.induct) auto

lemma purge_heap_front: "purge_heap live h = Inr h' \<Longrightarrow> h' \<noteq> [] \<Longrightarrow> live (h' ! 0)"
  by (induction live h rule: purge_heap.induct) (subst (asm) purge_heap.simps, auto split: if_splits)

lemma mars_peek_pop:
  assumes "mars_wf m" and "mars_peek_request m = Inr (x, m1)"
  shows "mars_wf m1 \<and> mars_ids m1 = mars_ids m \<and> x \<in> set (mars_ids m)"
    and "mars_pop_request m1 = Inr (y, m2) \<Longrightarrow> y = x \<and> mars_wf m2 \<and> mars_ids m2 = filter (\<lambda>z. z \<noteq> x) (mars_ids m)"
proof -
  from assms(2) obtain h where h1: "purge_heap (live_entry m) (mq_heap m) = Inr h" "h \<noteq> []"
    by (auto simp: mars_peek_request_def mars_purge_def split: if_splits)
  obtain l ord t rid v where e: "h ! 0 = (l, ord, t, rid, v)" using prod_cases5 by blast
  from assms(2) h1 e have h: "purge_heap (live_entry m) (mq_heap m) = Inr h" "m1 = m\<lparr>mq_heap := h\<rparr>" "h \<noteq> []"
    "map_of (mq_requests m) (entry_id (h ! 0)) = Some x"
    by (auto simp: mars_peek_request_def mars_purge_def entry_id_def split: option.splits)
  have x: "entry_id (h ! 0) = x" "x \<in> set (mars_ids m)" using assms(1) map_of_SomeD [OF h(4)] by (force simp: mars_wf_def mars_ids_def)+
  show "mars_wf m1 \<and> mars_ids m1 = mars_ids m \<and> x \<in> set (mars_ids m)" using assms(1) x(2) h(2) by (simp add: mars_wf_def mars_ids_def)
  assume pop: "mars_pop_request m1 = Inr (y, m2)"
  have "live_entry m1 = live_entry m" using h(2) by (simp add: live_entry_def fun_eq_iff)
  then have "mars_purge m1 = Inr m1" using purge_heap_front [OF h(1,3)] h(2) by (simp add: mars_purge_def purge_heap.simps)
  with pop h(2,3) obtain e2 h2 where pp: "heappop mars_lt h = Inr (e2, h2)" by (auto simp: mars_pop_request_def)
  then have "e2 = (l, ord, t, x, v)" using heappop_mset [OF pp] e x(1) by (simp add: entry_id_def)
  with \<open>mars_purge m1 = Inr m1\<close> pop pp h(2-4) x(1) have "y = x" "m2 = (mars_remove_request x m1)\<lparr>mq_heap := h2\<rparr>"
    by (auto simp: mars_pop_request_def)
  then show "y = x \<and> mars_wf m2 \<and> mars_ids m2 = filter (\<lambda>z. z \<noteq> x) (mars_ids m)"
    using assms(1) h(2) by (auto simp: mars_wf_def mars_ids_def mars_remove_request_def AList_delete_filter map_fst_filter)
qed

lemma mset_filter_distinct: "distinct xs \<Longrightarrow> x \<in> set xs \<Longrightarrow> mset xs = add_mset x {#z \<in># mset xs. z \<noteq> x#}"
  by (rule multiset_eqI) (auto simp: distinct_count_atmost_1)

lemma cont_peek_in: "cont_peek_request obj pinned c = Inr x \<Longrightarrow> x \<in> set (cq_deque c)"
  by (auto simp: cont_peek_request_def Let_def split: if_splits option.splits dest!: earliest_in)

lemma prio_ids_mset: "mset h = add_mset (p, t, x) (mset h') \<Longrightarrow> mset (prio_ids h) = add_mset x (mset (prio_ids h'))"
  by (simp add: prio_ids_def)

lemma nth_0_in: "h \<noteq> [] \<Longrightarrow> h ! 0 = (p, t, x) \<Longrightarrow> x \<in> set (prio_ids h)"
  by (cases h) (auto simp: prio_ids_def)

lemma wq_peek_ids:
  assumes "wq_wf q" and "wq_peek_request obj pinned q = Inr (x, q')"
  shows "wq_wf q' \<and> wq_ids q' = wq_ids q \<and> x \<in> set (wq_ids q)"
proof (cases q)
  case (PrioQ h)
  then show ?thesis using assms nth_0_in [of h]
    by (auto simp: wq_peek_request_def wq_ids_def prio_peek_request_def split: if_splits prod.splits)
next
  case (AutQ a)
  then show ?thesis using assms
    by (auto simp: wq_peek_request_def wq_ids_def aut_peek_request_def aut_iter_def simp flip: set_concat
        split: option.splits dest!: first_nonempty_ids dest: mset_eq_setD [of _ "_ # _", simplified])
next
  case (MarsQ m)
  then show ?thesis using assms mars_peek_pop(1) [of m x]
    by (auto simp: wq_peek_request_def wq_ids_def wq_wf_def)
qed (use assms in \<open>auto simp: wq_peek_request_def wq_ids_def fcfs_peek_request_def split: list.splits dest: cont_peek_in\<close>)

lemma wq_pop_is_pinned: "wq_pop_request q = Inr r \<Longrightarrow> wq_pop_pinned obj pinned q = Inr r"
  by (cases q) (auto simp: wq_pop_request_def wq_pop_pinned_def)

lemma wq_wf_removed:
  assumes "mset (wq_ids q) = add_mset x (mset (wq_ids q'))" and "wq_wf q" and "case q' of AutQ a \<Rightarrow> aut_wf a | MarsQ m \<Rightarrow> mars_wf m | _ \<Rightarrow> True"
  shows "wq_wf q'"
  using assms distinct_add [OF assms(1)] by (simp add: wq_wf_def)

text \<open>Popping what was just seen takes that request out.\<close>

lemma wq_peek_pop:
  assumes "wq_wf q" and "wq_peek_request obj pinned q = Inr (x, q1)" and "wq_pop_pinned obj pinned q1 = Inr (y, q2)"
  shows "y = x \<and> wq_wf q2 \<and> mset (wq_ids q) = add_mset x (mset (wq_ids q2))"
proof -
  have "y = x \<and> mset (wq_ids q) = add_mset x (mset (wq_ids q2)) \<and> (case q2 of AutQ a \<Rightarrow> aut_wf a | MarsQ m \<Rightarrow> mars_wf m | _ \<Rightarrow> True)"
  proof (cases q)
    case (FcfsQ d)
    then show ?thesis using assms
      by (auto simp: wq_peek_request_def wq_pop_pinned_def wq_pop_request_def wq_ids_def fcfs_peek_request_def fcfs_pop_request_def split: list.splits)
  next
    case (PrioQ h)
    with assms(2) have q1: "q1 = PrioQ h" "h \<noteq> []" by (auto simp: wq_peek_request_def prio_peek_request_def split: if_splits)
    obtain p t z where z: "h ! 0 = (p, t, z)" using prod_cases3 by blast
    from assms(3) q1 obtain e h' where h': "heappop prio_lt h = Inr (e, h')" "q2 = PrioQ h'" "y = snd (snd e)"
      by (auto simp: wq_pop_pinned_def wq_pop_request_def prio_pop_request_def)
    then show ?thesis using heappop_mset [OF h'(1)] z assms(2) PrioQ q1(2)
      by (auto simp: wq_ids_def wq_peek_request_def prio_peek_request_def intro: prio_ids_mset)
  next
    case (ContQ c)
    then show ?thesis using assms
      by (auto simp: wq_peek_request_def wq_pop_pinned_def cont_pop_request_def cont_remove_request_def deque_remove_def wq_ids_def
          dest: cont_peek_in split: if_splits)
  next
    case (AutQ a)
    with assms(2) obtain ds where ds: "first_nonempty (aq_queues a) = Some (x, ds)" "q1 = AutQ a"
      by (auto simp: wq_peek_request_def aut_peek_request_def split: option.splits)
    then show ?thesis using assms(1,3) AutQ first_nonempty_ids [OF ds(1)]
      by (auto simp: wq_pop_pinned_def wq_pop_request_def aut_pop_request_def wq_ids_def wq_wf_def aut_wf_def aut_iter_def AList_delete_filter)
  next
    case (MarsQ m)
    with assms(2) obtain m1 where m1: "mars_peek_request m = Inr (x, m1)" "q1 = MarsQ m1" by (auto simp: wq_peek_request_def)
    with assms(3) obtain m2 where m2: "mars_pop_request m1 = Inr (y, m2)" "q2 = MarsQ m2" by (auto simp: wq_pop_pinned_def wq_pop_request_def)
    have wf: "mars_wf m" using assms(1) MarsQ by (simp add: wq_wf_def)
    from mars_peek_pop(1) [OF wf m1(1)] mars_peek_pop(2) [OF wf m1(1) m2(1)] m2(2) MarsQ wf show ?thesis
      using mset_filter_distinct [of "mars_ids m" x] by (simp add: wq_ids_def mars_wf_def)
  qed
  then show ?thesis using wq_wf_removed assms(1) by blast
qed

lemma remove_first_in_ids: "remove_first_in x ds = Some ds' \<Longrightarrow> mset (concat ds) = add_mset x (mset (concat ds')) \<and> length ds' = length ds"
  by (induction ds arbitrary: ds') (auto split: if_splits)

lemma wq_remove_ids:
  assumes "wq_wf q" and "wq_remove_request x q = Inr q'" and "x \<in> set (wq_ids q)"
  shows "wq_wf q' \<and> mset (wq_ids q) = add_mset x (mset (wq_ids q'))"
proof -
  have "mset (wq_ids q) = add_mset x (mset (wq_ids q')) \<and> (case q' of AutQ a \<Rightarrow> aut_wf a | MarsQ m \<Rightarrow> mars_wf m | _ \<Rightarrow> True)"
  proof (cases q)
    case (PrioQ h)
    with assms(2) obtain h' where h': "heapify prio_lt (filter (\<lambda>(p, t, r). r \<noteq> x) h) = Inr h'" "q' = PrioQ h'"
      by (auto simp: wq_remove_request_def prio_remove_request_def)
    have "prio_ids (filter (\<lambda>(p, t, r). r \<noteq> x) h) = filter (\<lambda>z. z \<noteq> x) (prio_ids h)"
      by (induction h) (auto simp: prio_ids_def)
    moreover have "mset (prio_ids h') = mset (prio_ids (filter (\<lambda>(p, t, r). r \<noteq> x) h))" by (simp only: prio_ids_def mset_map heapify_mset [OF h'(1)])
    ultimately have "mset (prio_ids h') = mset (filter (\<lambda>z. z \<noteq> x) (prio_ids h))" by simp
    then show ?thesis using assms(1,3) PrioQ h'(2) mset_filter_distinct [of "prio_ids h" x] by (simp add: wq_ids_def wq_wf_def)
  next
    case (AutQ a)
    then have wf: "aut_wf a" using assms(1) by (simp add: wq_wf_def)
    from assms(2) AutQ obtain a' where a': "aut_remove_request x a = Inr a'" "q' = AutQ a'" by (auto simp: wq_remove_request_def)
    have keep: "\<forall>(r, i)\<in>set (AList.delete x (req_to_q_idx a)). 0 \<le> i" using wf by (auto simp: aut_wf_def AList_delete_filter)
    from a'(1) consider (slow) ds where "remove_first_in x (aq_queues a) = Some ds"
        "a' = a\<lparr>aq_queues := ds, req_to_q_idx := AList.delete x (req_to_q_idx a)\<rparr>"
      | (fast) i d where "map_of (req_to_q_idx a) x = Some i" "py_nth (aq_queues a) i = Inr d" "x \<in> set d"
        "a' = a\<lparr>aq_queues := (aq_queues a)[nat i := remove1 x d], req_to_q_idx := AList.delete x (req_to_q_idx a)\<rparr>"
      by (auto simp: aut_remove_request_def Let_def split: option.splits if_splits)
    then show ?thesis
    proof cases
      case slow
      then show ?thesis using remove_first_in_ids [OF slow(1)] AutQ a'(2) wf keep by (simp add: wq_ids_def aut_iter_def aut_wf_def)
    next
      case fast
      have "0 \<le> i" using map_of_SomeD [OF fast(1)] wf by (auto simp: aut_wf_def)
      then have i: "nat i < length (aq_queues a)" "d = aq_queues a ! nat i" using fast(2) by (auto simp: py_nth_def Let_def split: if_splits)
      have "mset (concat ((aq_queues a)[nat i := remove1 x d])) + mset d = mset (concat (aq_queues a)) + (mset d - {#x#})"
        using mset_concat_update [OF i(1), of "remove1 x d"] i(2) by simp
      moreover have "mset d = add_mset x (mset d - {#x#})" using fast(3) by simp
      ultimately have "mset (concat (aq_queues a)) = add_mset x (mset (concat ((aq_queues a)[nat i := remove1 x d])))"
        by (metis add_mset_add_single union_mset_add_mset_left union_mset_add_mset_right add_right_cancel)
      then show ?thesis using AutQ a'(2) fast(4) wf keep by (simp add: wq_ids_def aut_iter_def aut_wf_def)
    qed
  next
    case (MarsQ m)
    then show ?thesis using assms mset_filter_distinct [of "mars_ids m" x]
      by (auto simp: wq_remove_request_def wq_ids_def wq_wf_def mars_wf_def mars_ids_def mars_remove_request_def AList_delete_filter map_fst_filter)
  qed (use assms in \<open>auto simp: wq_remove_request_def wq_ids_def deque_remove_def cont_remove_request_def split: if_splits\<close>)
  then show ?thesis using wq_wf_removed assms(1) by blast
qed

lemma wq_iter_ids: "wq_wf q \<Longrightarrow> wq_iter q = Inr xs \<Longrightarrow> mset xs = mset (wq_ids q)"
proof (cases q)
  case (PrioQ h)
  moreover assume "wq_iter q = Inr xs"
  ultimately show ?thesis by (auto simp: wq_iter_def wq_ids_def prio_iter_def prio_ids_def dest!: heap_drain_mset)
next
  case (MarsQ m)
  moreover assume wf: "wq_wf q" and "wq_iter q = Inr xs"
  moreover have "map_of (mq_requests m) r = Some r" if "r \<in> set (mars_ids m)" for r
  proof -
    have "(r, r) \<in> set (mq_requests m)" using that wf MarsQ by (auto simp: wq_wf_def mars_wf_def mars_ids_def)
    then show ?thesis using wf MarsQ by (simp add: wq_wf_def mars_wf_def mars_ids_def)
  qed
  moreover have "set (map fst (mq_key_by_id m)) = set (mars_ids m)" using wf MarsQ by (simp add: wq_wf_def mars_wf_def)
  ultimately have "xs = map fst (sort_key snd (mq_key_by_id m))"
    by (force simp: wq_iter_def mars_iter_def intro!: map_cong)
  then have "mset xs = mset (map fst (mq_key_by_id m))" by simp
  moreover have "map fst (mq_key_by_id m) = mars_ids m" using wf MarsQ by (simp add: wq_wf_def mars_wf_def)
  ultimately show ?thesis using MarsQ by (simp only: wq_ids_def request_queue.case)
qed (auto simp: wq_iter_def wq_ids_def)

lemma wq_len_ids: "wq_len q = int (length (wq_ids q))"
proof -
  have "(\<Sum>d\<leftarrow>ds. int (length d)) = int (length (concat ds))" for ds :: "deque list" by (induction ds) auto
  then show ?thesis by (cases q) (auto simp: wq_len_def wq_ids_def prio_ids_def mars_ids_def mars_len_def aut_iter_def)
qed

lemma create_request_queue_ids: "create_request_queue p = Inr q \<Longrightarrow> wq_wf q \<and> wq_ids q = []"
  by (cases p) (auto simp: create_request_queue_def wq_wf_def wq_ids_def prio_ids_def AutellixRequestQueue_def aut_iter_def
      aut_wf_def mars_wf_def mars_ids_def MarsRequestQueue_def)

end
