(* ===== verification/Sched_Conserve.thy ===== *)
theory Sched_Conserve
  imports Sched_Output Queue_Contents
begin

text \<open>
  Every unfinished request is in exactly one place: the running list, the waiting queue, or the
  overflow queue of MARS. The theory shows that a scheduling step moves requests between these places but
  neither loses nor duplicates one, under each of the nine policies, that its bookkeeping
  of tokens and requests passes the assertions at its end, and that the scan of the waiting queue ends.
\<close>

definition unfinished :: "sched \<Rightarrow> req_ref list" where
  "unfinished s = sc_running s @ wq_ids (sc_waiting s) @ sc_mars_overflow s"

definition sched_ok :: "sched \<Rightarrow> bool" where
  "sched_ok s \<longleftrightarrow> (\<forall>x. request_id (sc_objs s x) = x) \<and> wq_wf (sc_waiting s) \<and> distinct (unfinished s) \<and>
     (sc_policy s = MARS \<longrightarrow> (\<exists>m. sc_waiting s = MarsQ m))"

lemma sched_okD:
  assumes "sched_ok s"
  shows "request_id (sc_objs s x) = x" "wq_wf (sc_waiting s)" "distinct (unfinished s)" "sc_policy s = MARS \<Longrightarrow> \<exists>m. sc_waiting s = MarsQ m"
  using assms by (auto simp: sched_ok_def)

text \<open>The configured limits a step obeys.\<close>

definition limits :: "sched \<Rightarrow> int \<times> nat \<times> int \<times> int \<times> int list \<times> nat \<times> int" where
  "limits s = (sc_max_num_scheduled_tokens s, sc_max_num_running_reqs s, sc_max_model_len s, sc_ll_chunk s, sc_aut_level_quanta s,
     sc_block_size s, sc_long_prefill_threshold s)"

text \<open>Operations that touch neither the places nor the limits of the step, nor the identity of requests.\<close>

definition keeps :: "sched \<Rightarrow> sched \<Rightarrow> bool" where
  "keeps s s' \<longleftrightarrow> sc_running s' = sc_running s \<and> sc_waiting s' = sc_waiting s \<and> sc_mars_overflow s' = sc_mars_overflow s \<and>
     sc_policy s' = sc_policy s \<and> limits s' = limits s \<and>
     (\<forall>y. request_id (sc_objs s' y) = request_id (sc_objs s y))"

lemma keeps_refl [simp, intro]: "keeps s s"
  by (simp add: keeps_def)

lemma keeps_trans: "keeps s1 s2 \<Longrightarrow> keeps s2 s3 \<Longrightarrow> keeps s1 s3"
  by (simp add: keeps_def)

lemma keeps_updates [simp]:
  "keeps s (s'\<lparr>sc_kv := k\<rparr>) = keeps s s'" "keeps s (s'\<lparr>sc_encoder := c\<rparr>) = keeps s s'" "keeps s (s'\<lparr>sc_attrs := a\<rparr>) = keeps s s'"
  "keeps s (s'\<lparr>sc_pinned := p\<rparr>) = keeps s s'" "keeps s (s'\<lparr>sc_ll_deferred := d\<rparr>) = keeps s s'"
  "keeps s (s'\<lparr>sc_mars_levels := l\<rparr>) = keeps s s'" "keeps s (s'\<lparr>sc_mars_last := t\<rparr>) = keeps s s'"
  "keeps s (s'\<lparr>sc_finished_recving := rs\<rparr>) = keeps s s'" "keeps s (s'\<lparr>sc_evicted_at := e\<rparr>) = keeps s s'"
  "keeps s (s'\<lparr>sc_queue_delay_samples := q\<rparr>) = keeps s s'" "keeps s (set_attrs x f s') = keeps s s'"
  by (simp_all add: keeps_def set_attrs_def limits_def)

lemma keeps_unfinished: "keeps s s' \<Longrightarrow> unfinished s' = unfinished s"
  by (simp add: keeps_def unfinished_def)

lemma keeps_sched_ok: "keeps s s' \<Longrightarrow> sched_ok s \<Longrightarrow> sched_ok s'"
  by (simp add: sched_ok_def unfinished_def keeps_def)

lemma keeps_upd_obj: "(\<And>r. request_id (f r) = request_id r) \<Longrightarrow> keeps s (upd_obj x f s') = keeps s s'"
  by (auto simp: keeps_def upd_obj_def limits_def)

text \<open>Operations that rearrange the places without changing a request.\<close>

definition moves :: "sched \<Rightarrow> sched \<Rightarrow> bool" where
  "moves s s' \<longleftrightarrow> mset (unfinished s') = mset (unfinished s) \<and> mset (sc_running s') = mset (sc_running s) \<and>
     sc_objs s' = sc_objs s \<and> limits s' = limits s"

lemma moves_trans: "moves s1 s2 \<Longrightarrow> moves s2 s3 \<Longrightarrow> moves s1 s3"
  by (simp add: moves_def)

lemma keeps_moves: "keeps s s' \<Longrightarrow> sc_objs s' = sc_objs s \<Longrightarrow> moves s s'"
  by (simp add: moves_def keeps_def unfinished_def)

lemma rbindE: "rbind r f = Inr y \<Longrightarrow> (\<And>x. r = Inr x \<Longrightarrow> f x = Inr y \<Longrightarrow> thesis) \<Longrightarrow> thesis"
  by auto

section \<open>The start of a step\<close>

lemma unpin_requests_regular_frame:
  assumes "unpin_requests_regular now s = Inr s'"
  shows "\<exists>p k. s' = s\<lparr>sc_pinned := p, sc_kv := k\<rparr>"
proof -
  from assms obtain ids where f: "rfold (\<lambda>(x, end_time) s. if job_id (sc_objs s x) \<notin> ids \<and> now \<ge> end_time
      then unpin_request x end_time s else Inr s) (sc_pinned s) s = Inr s'"
    by (auto simp: unpin_requests_regular_def Let_def)
  show ?thesis
  proof (rule rfold_invariant [OF f])
    show "\<exists>p k. s = s\<lparr>sc_pinned := p, sc_kv := k\<rparr>" by (intro exI [of _ "sc_pinned s"] exI [of _ "sc_kv s"]) simp
  qed (auto simp: unpin_request_def split: if_splits, blast+)
qed

lemma unfinished_perm:
  assumes "sched_ok s" and "mset (unfinished s') = mset (unfinished s)" and "wq_wf (sc_waiting s')"
    and "\<And>x. request_id (sc_objs s' x) = x" and "sc_policy s' = MARS \<Longrightarrow> \<exists>m. sc_waiting s' = MarsQ m"
  shows "sched_ok s'"
  using assms mset_eq_imp_distinct_iff [OF assms(2)] by (simp add: sched_ok_def)

lemma autellix_switch_conserves:
  assumes "sched_ok s" and "autellix_maybe_switch_to_fcfs s = Inr s'"
  shows "sched_ok s' \<and> moves s s' \<and> sc_policy s' \<in> {sc_policy s, FCFS}"
proof -
  let ?key = "\<lambda>x. (arrival_time (sc_objs s x), request_id (sc_objs s x))"
  have "s' = s \<or> (\<exists>xs. wq_iter (sc_waiting s) = Inr xs \<and> s' = s\<lparr>sc_waiting := FcfsQ (map (\<lambda>x. request_id (sc_objs s x)) (sort_key ?key xs)),
      sc_running := sort_key ?key (sc_running s), sc_policy := FCFS, sc_aut_fcfs_mode := True\<rparr>)"
    using assms(2) by (auto simp: autellix_maybe_switch_to_fcfs_def Let_def split: if_splits)
  then show ?thesis
  proof (elim disjE exE conjE)
    fix xs
    assume xs: "wq_iter (sc_waiting s) = Inr xs" and s': "s' = s\<lparr>sc_waiting := FcfsQ (map (\<lambda>x. request_id (sc_objs s x)) (sort_key ?key xs)),
      sc_running := sort_key ?key (sc_running s), sc_policy := FCFS, sc_aut_fcfs_mode := True\<rparr>"
    have m: "mset (unfinished s') = mset (unfinished s)"
      using wq_iter_ids [OF sched_okD(2) [OF assms(1)] xs] sched_okD(1) [OF assms(1)] s' by (simp add: unfinished_def wq_ids_def)
    then have "distinct (unfinished s')" using mset_eq_imp_distinct_iff [OF m] sched_okD(3) [OF assms(1)] by simp
    then have "wq_wf (sc_waiting s')" using s' by (simp add: wq_wf_def wq_ids_def unfinished_def)
    with m show ?thesis using unfinished_perm [OF assms(1), of s'] s' sched_okD(1) [OF assms(1)] by (simp add: moves_def limits_def)
  qed (use assms(1) in \<open>simp add: moves_def\<close>)
qed

lemma antistarvation_conserves:
  assumes "sched_ok s" and "autellix_apply_antistarvation s = Inr s'" and "sc_policy s \<noteq> MARS"
  shows "sched_ok s' \<and> moves s s' \<and> sc_policy s' = sc_policy s"
proof (cases "sc_policy s = AUTELLIX")
  case True
  define P where "P s1 \<longleftrightarrow> wq_wf (sc_waiting s1) \<and> mset (wq_ids (sc_waiting s1)) = mset (wq_ids (sc_waiting s)) \<and>
    keeps s (s1\<lparr>sc_waiting := sc_waiting s\<rparr>) \<and> sc_objs s1 = sc_objs s" for s1 :: sched
  from assms(2) True obtain waiting s1 where w: "wq_iter (sc_waiting s) = Inr waiting"
    and f: "rfold (\<lambda>x s. rbind (wq_remove_request x (sc_waiting s)) (\<lambda>q.
         let s = promote x (s\<lparr>sc_waiting := q\<rparr>)
         in rbind (wq_add_request (sc_objs s x) (at_q_idx (sc_attrs s x)) (sc_waiting s)) (\<lambda>q. Inr (s\<lparr>sc_waiting := q\<rparr>))))
       (filter (should_promote s) waiting) s = Inr s1"
    and s': "s' = fold (\<lambda>x s. if should_promote s x then promote x s else s) (sc_running s1) s1"
    by (auto simp: autellix_apply_antistarvation_def)
  have in_w: "set waiting = set (wq_ids (sc_waiting s))" using wq_iter_ids [OF sched_okD(2) [OF assms(1)] w] by (rule mset_eq_setD)
  have "P s1"
  proof (rule rfold_invariant [OF f])
    show "P s" using sched_okD(2) [OF assms(1)] by (simp add: P_def)
  next
    fix x s2 s3
    assume x: "x \<in> set (filter (should_promote s) waiting)" and p: "P s2"
      and st: "rbind (wq_remove_request x (sc_waiting s2)) (\<lambda>q. let s = promote x (s2\<lparr>sc_waiting := q\<rparr>)
         in rbind (wq_add_request (sc_objs s x) (at_q_idx (sc_attrs s x)) (sc_waiting s)) (\<lambda>q. Inr (s\<lparr>sc_waiting := q\<rparr>))) = Inr s3"
    from st obtain q1 i q2 where q: "wq_remove_request x (sc_waiting s2) = Inr q1" "wq_add_request (sc_objs s2 x) i q1 = Inr q2"
      "s3 = (promote x (s2\<lparr>sc_waiting := q1\<rparr>))\<lparr>sc_waiting := q2\<rparr>"
      by (auto simp: Let_def promote_def set_attrs_def)
    have xin: "x \<in> set (wq_ids (sc_waiting s2))" using x in_w p mset_eq_setD unfolding P_def by fastforce
    from wq_remove_ids [OF _ q(1) xin] p have r: "wq_wf q1" "mset (wq_ids (sc_waiting s2)) = add_mset x (mset (wq_ids q1))" by (auto simp: P_def)
    have id: "request_id (sc_objs s2 x) = x" using p sched_okD(1) [OF assms(1)] by (simp add: P_def keeps_def)
    have "x \<notin> set (wq_ids q1)" using r(2) p distinct_add [OF r(2)] by (simp add: P_def wq_wf_def)
    with wq_add_ids [OF r(1) _ q(2)] id r(2) p q(3) show "P s3" by (simp add: P_def keeps_def promote_def set_attrs_def limits_def)
  qed
  moreover have "P t \<Longrightarrow> P (fold (\<lambda>x s. if should_promote s x then promote x s else s) xs t)" for xs t
    by (induction xs arbitrary: t) (auto simp: P_def promote_def set_attrs_def keeps_def limits_def)
  ultimately have "P s'" using s' by simp
  then show ?thesis
    using unfinished_perm [OF assms(1), of s'] sched_okD(1) [OF assms(1)] assms(3) by (simp add: P_def keeps_def unfinished_def moves_def limits_def)
qed (use assms in \<open>auto simp: autellix_apply_antistarvation_def moves_def\<close>)

lemma admit_loop_conserves:
  assumes "admit_loop m = Inr m'" and "mars_wf (ms_waiting m)" and "distinct (mars_ids (ms_waiting m) @ ms_overflow m)"
    and "\<And>x. request_id (ms_objects m x) = x"
  shows "mars_wf (ms_waiting m') \<and> mset (mars_ids (ms_waiting m')) + mset (ms_overflow m') = mset (mars_ids (ms_waiting m)) + mset (ms_overflow m) \<and>
    ms_running m' = ms_running m \<and> ms_objects m' = ms_objects m"
  using assms
proof (induction m rule: admit_loop.induct)
  case (1 m)
  show ?case
  proof (cases "ms_overflow m")
    case Nil
    then show ?thesis using "1.prems" by (simp add: admit_loop.simps)
  next
    case (Cons x rest)
    show ?thesis
    proof (cases "int (length (ms_running m)) + mars_len (ms_waiting m) < mars_active_window_size m")
      case True
      with "1.prems"(1) Cons obtain m1 where m1: "admit_one x rest m = Inr m1" "admit_loop m1 = Inr m'"
        by (subst (asm) admit_loop.simps) auto
      from m1(1) obtain q where q: "mars_add_request (ms_objects m x) (ms_waiting m) = Inr q" "ms_waiting m1 = q" "ms_overflow m1 = rest"
        "ms_running m1 = ms_running m" "ms_objects m1 = ms_objects m"
        by (auto simp: admit_one_def Let_def)
      let ?m = "(ms_waiting m)\<lparr>mq_seq := mq_seq (ms_waiting m) + 1\<rparr>"
      have "mars_wf q \<and> mars_ids q = mars_ids ?m @ [x]"
        using q(1) "1.prems"(2,3,4) Cons
        by (intro mars_push_ids [where m = ?m]) (auto simp: mars_add_request_def mars_wf_def mars_ids_def)
      then have add: "mars_wf q" "mars_ids q = mars_ids (ms_waiting m) @ [x]" by (simp_all add: mars_ids_def)
      have "distinct (mars_ids (ms_waiting m1) @ ms_overflow m1)" using "1.prems"(3) Cons add(2) q by auto
      from "1.IH" [OF Cons True m1(1,2) _ this] add q "1.prems"(4) Cons show ?thesis by simp
    next
      case False
      then show ?thesis using "1.prems" Cons by (simp add: admit_loop.simps)
    qed
  qed
qed

lemma mars_start_conserves:
  assumes "sched_ok s" and "sc_policy s = MARS" and "mars_admit_overflow (mars_view s) = Inr m"
  shows "sched_ok (with_mars m s) \<and> moves s (with_mars m s)" "sched_ok (with_mars (mars_reorder_running now m) s) \<and> moves s (with_mars (mars_reorder_running now m) s)"
proof -
  from sched_okD(4) [OF assms(1,2)] obtain q where q: "sc_waiting s = MarsQ q" by blast
  have wf: "mars_wf q" using sched_okD(2) [OF assms(1)] q by (simp add: wq_wf_def)
  have d: "distinct (mars_ids q @ sc_mars_overflow s)" using sched_okD(3) [OF assms(1)] q by (simp add: unfinished_def wq_ids_def)
  have m: "mars_wf (ms_waiting m)" "mset (mars_ids (ms_waiting m)) + mset (ms_overflow m) = mset (mars_ids q) + mset (sc_mars_overflow s)"
    "ms_running m = sc_running s" "ms_objects m = sc_objs s"
    using admit_loop_conserves [of "mars_view s" m] assms(2,3) q wf d sched_okD(1) [OF assms(1)]
    by (simp_all add: mars_admit_overflow_def mars_view_def)
  have ok: "sched_ok t \<and> moves s t" if t: "sc_waiting t = MarsQ (ms_waiting m)" "sc_mars_overflow t = ms_overflow m" "mset (sc_running t) = mset (sc_running s)"
      "sc_objs t = sc_objs s" "limits t = limits s" for t
  proof -
    have "mset (unfinished t) = mset (unfinished s)" using t m(2) q by (simp add: unfinished_def wq_ids_def)
    moreover from this have "distinct (unfinished t)" using sched_okD(3) [OF assms(1)] mset_eq_imp_distinct_iff by blast
    then have "wq_wf (sc_waiting t)" using t(1) m(1) by (simp add: wq_wf_def unfinished_def)
    ultimately show ?thesis using unfinished_perm [OF assms(1)] t sched_okD(1) [OF assms(1)] by (simp add: moves_def)
  qed
  show "sched_ok (with_mars m s) \<and> moves s (with_mars m s)" using m q by (intro ok) (simp_all add: with_mars_def limits_def)
  show "sched_ok (with_mars (mars_reorder_running now m) s) \<and> moves s (with_mars (mars_reorder_running now m) s)"
    using m q by (intro ok) (simp_all add: with_mars_def mars_reorder_running_def limits_def)
qed

text \<open>LightLLM: the previewed requests wait or were skipped, and count as running.\<close>

definition deferred_ok :: "req_ref set \<Rightarrow> sched \<Rightarrow> bool" where
  "deferred_ok W s \<longleftrightarrow> distinct (map fst (sc_ll_deferred s)) \<and> fst ` set (sc_ll_deferred s) \<subseteq> W \<and>
     length (sc_running s) + length (sc_ll_deferred s) \<le> sc_max_num_running_reqs s"

lemma rmap_length: "rmap f xs = Inr ys \<Longrightarrow> length ys = length xs"
  by (induction xs arbitrary: ys) auto

lemma lightllm_reserve_keeps:
  "lightllm_reserve_prefix_blocks pv s = Inr s' \<Longrightarrow> keeps s s' \<and> sc_objs s' = sc_objs s \<and> sc_ll_deferred s' = sc_ll_deferred s"
  by (auto simp: lightllm_reserve_prefix_blocks_def split: if_splits)

lemma lightllm_release_keeps:
  "lightllm_release_prefix_blocks pv s = Inr s' \<Longrightarrow> keeps s s' \<and> sc_objs s' = sc_objs s \<and> sc_ll_deferred s' = sc_ll_deferred s"
  by (auto simp: lightllm_release_prefix_blocks_def split: if_splits)

lemma lightllm_preview_keeps:
  "lightllm_preview_of w r s = Inr (pv, st, s') \<Longrightarrow> keeps s s' \<and> sc_objs s' = sc_objs s \<and> sc_ll_deferred s' = sc_ll_deferred s"
  by (auto simp: lightllm_preview_of_def split: if_splits)

lemma deferred_ok_keeps: "keeps s s' \<Longrightarrow> sc_ll_deferred s' = sc_ll_deferred s \<Longrightarrow> deferred_ok W s' = deferred_ok W s"
  by (simp add: deferred_ok_def keeps_def limits_def)

lemma deferred_ok_add:
  assumes "deferred_ok W s" and "x \<in> W" and "map_of (sc_ll_deferred s) x = None"
    and "length (sc_running s) + length (sc_ll_deferred s) < sc_max_num_running_reqs s"
  shows "deferred_ok W (s\<lparr>sc_ll_deferred := AList.update x pv (sc_ll_deferred s)\<rparr>)"
    "length (AList.update x pv (sc_ll_deferred s)) = length (sc_ll_deferred s) + 1"
proof -
  have "AList.update x pv (sc_ll_deferred s) = sc_ll_deferred s @ [(x, pv)]"
    using assms(3) by (intro AList_update_fresh) (simp add: map_of_eq_None_iff)
  with assms show "deferred_ok W (s\<lparr>sc_ll_deferred := AList.update x pv (sc_ll_deferred s)\<rparr>)"
    "length (AList.update x pv (sc_ll_deferred s)) = length (sc_ll_deferred s) + 1"
    by (auto simp: deferred_ok_def map_of_eq_None_iff)
qed

lemma router_loop_ok:
  assumes "router_loop w c kv xs provisional pk pvs s = Inr (pk', pvs', s')"
    and "length provisional = length (sc_running s) + length (sc_ll_deferred s)"
    and "running_max_req_size c = int (sc_max_num_running_reqs s)" and "deferred_ok W s" and "set xs \<subseteq> W"
  shows "keeps s s' \<and> sc_objs s' = sc_objs s \<and> deferred_ok W s'"
  using assms
proof (induction w c kv xs provisional pk pvs s rule: router_loop.induct)
  case (2 w c kv x xs provisional pk pvs s)
  show ?case
  proof (cases "map_of (sc_ll_deferred s) x \<noteq> None \<or> router_stops w (sc_objs s x)")
    case True
    then show ?thesis using 2 by (auto split: if_splits)
  next
    case False
    with "2.prems"(1) obtain a d where ad: "lightllm_request_state (sc_objs s x) None = Inr a" "ll_evaluate c provisional a kv = Inr d" by auto
    show ?thesis
    proof (cases "ll_admitted d")
      case True
      with False ad "2.prems"(1) obtain pv model s1 s2 pk2 where
        steps: "lightllm_preview_of w (sc_objs s x) s = Inr (pv, model, s1)" "lightllm_reserve_prefix_blocks pv s1 = Inr s2"
          "classify_for_model s2 model pk = Inr pk2"
        and rest: "router_loop w c kv xs (provisional @ [a]) pk2 (AList.update x pv pvs)
          (s2\<lparr>sc_ll_deferred := AList.update x pv (sc_ll_deferred s2)\<rparr>) = Inr (pk', pvs', s')"
        by auto
      let ?s = "s2\<lparr>sc_ll_deferred := AList.update x pv (sc_ll_deferred s2)\<rparr>"
      have k: "keeps s s2" "sc_objs s2 = sc_objs s" "sc_ll_deferred s2 = sc_ll_deferred s"
        using lightllm_preview_keeps [OF steps(1)] lightllm_reserve_keeps [OF steps(2)] keeps_trans by auto
      have "int (length provisional) + 1 \<le> running_max_req_size c"
        using True ad(2) by (auto simp: ll_evaluate_def Let_def split: if_splits)
      then have room: "length (sc_running s2) + length (sc_ll_deferred s2) < sc_max_num_running_reqs s2"
        using "2.prems"(2,3) k by (simp add: keeps_def limits_def)
      have ok: "deferred_ok W s2" using "2.prems"(4) deferred_ok_keeps [OF k(1,3)] by simp
      have mx: "sc_max_num_running_reqs s2 = sc_max_num_running_reqs s" "sc_running s2 = sc_running s" using k(1) by (simp_all add: keeps_def limits_def)
      note add = deferred_ok_add [OF ok _ _ room, of x pv]
      have "keeps ?s s' \<and> sc_objs s' = sc_objs ?s \<and> deferred_ok W s'"
        using False ad True steps
        by (intro "2.IH"(2) [OF _ _ ad(1,2) _ steps(1) refl refl steps(2,3) rest])
          (use add "2.prems"(2,3,5) False mx k(3) in simp_all)
      then show ?thesis using k keeps_trans [of s s2 s'] by (auto simp: keeps_def limits_def)
    next
      case not_admitted: False
      then show ?thesis using False ad "2.prems" by auto
    qed
  qed
qed simp

lemma lightllm_prepare_ok:
  assumes "lightllm_prepare_step w s = Inr (pk, pvs, s')" and "wq_wf (sc_waiting s)" and "deferred_ok (set (wq_ids (sc_waiting s))) s"
    and "\<And>c. sc_lightllm s = Some c \<Longrightarrow> running_max_req_size c = int (sc_max_num_running_reqs s)"
  shows "keeps s s' \<and> sc_objs s' = sc_objs s \<and> deferred_ok (set (wq_ids (sc_waiting s))) s'"
proof -
  let ?in = "\<lambda>x. map_of (sc_ll_deferred s) x \<noteq> None"
  from assms(1) obtain c waiting rs ds pk0 where c: "sc_lightllm s = Some c" and w: "wq_iter (sc_waiting s) = Inr waiting"
    and rs: "lightllm_active_states s = Inr rs" and ds: "length ds = length (filter ?in waiting)"
    and r: "router_loop w c (lightllm_active_kv_tokens s) waiting (rs @ ds) pk0 (sc_ll_deferred s) s = Inr (pk, pvs, s')"
    by (auto simp: lightllm_prepare_step_def Let_def split: option.splits dest!: rmap_length)
  have ids: "mset waiting = mset (wq_ids (sc_waiting s))" by (rule wq_iter_ids [OF assms(2) w])
  then have set: "set waiting = set (wq_ids (sc_waiting s))" by (rule mset_eq_setD)
  have "distinct waiting" using ids assms(2) mset_eq_imp_distinct_iff unfolding wq_wf_def by blast
  moreover have "set (filter ?in waiting) = set (map fst (sc_ll_deferred s))"
    using assms(3) set by (auto simp: deferred_ok_def map_of_eq_None_iff)
  ultimately have "length (filter ?in waiting) = length (sc_ll_deferred s)"
    using assms(3) distinct_card [of "filter ?in waiting"] distinct_card [of "map fst (sc_ll_deferred s)"] by (simp add: deferred_ok_def)
  moreover have "length rs = length (sc_running s)" using rs rmap_length by (auto simp: lightllm_active_states_def)
  ultimately show ?thesis using router_loop_ok [OF r _ assms(4) [OF c] assms(3)] ds set by simp
qed

section \<open>The whole start\<close>

definition step_ready :: "sched \<Rightarrow> bool" where
  "step_ready s \<longleftrightarrow> sched_ok s \<and> (sc_policy s = LIGHTLLM \<longrightarrow> deferred_ok (set (wq_ids (sc_waiting s))) s \<and>
     (\<forall>c. sc_lightllm s = Some c \<longrightarrow> running_max_req_size c = int (sc_max_num_running_reqs s)))"

lemma policy_start_ok:
  assumes "policy_start w s = Inr s'" and "sched_ok s"
  shows "sched_ok s' \<and> moves s s' \<and> (sc_policy s = LIGHTLLM \<longrightarrow> s' = s) \<and> sc_policy s' = sc_policy s"
proof (cases "sc_policy s = MARS")
  case True
  with assms(1) obtain m where m: "mars_admit_overflow (mars_view s) = Inr m"
    and s': "s' = with_mars (if ms_running m \<noteq> [] then mars_reorder_running (w_mono w) m else m) s"
    by (auto simp: policy_start_def)
  show ?thesis using mars_start_conserves [OF assms(2) True m] True s' by (auto simp: with_mars_def)
next
  case False
  have reorder: "sched_ok (autellix_reorder_running t) \<and> moves s (autellix_reorder_running t)" if "sched_ok t" "moves s t" for t
  proof -
    have "moves t (autellix_reorder_running t)" by (simp add: moves_def autellix_reorder_running_def unfinished_def limits_def)
    moreover from this have "sched_ok (autellix_reorder_running t)"
      using that(1) by (intro unfinished_perm [OF that(1)]) (auto simp: moves_def autellix_reorder_running_def dest: sched_okD)
    ultimately show ?thesis using that(2) moves_trans by blast
  qed
  show ?thesis
  proof (cases "sc_policy s = AUTELLIX")
    case True
    with assms(1) False obtain t where t: "autellix_apply_antistarvation s = Inr t"
      and s': "s' = (if sc_running t \<noteq> [] then autellix_reorder_running t else t)" by (auto simp: policy_start_def)
    have "sched_ok t" "moves s t" "sc_policy t = sc_policy s" using antistarvation_conserves [OF assms(2) t False] by simp_all
    then show ?thesis using reorder s' True by (simp add: autellix_reorder_running_def)
  qed (use assms False in \<open>simp add: policy_start_def moves_def\<close>)
qed

lemma schedule_start_ok:
  assumes "schedule_start w s = Inr (s', st)" and "step_ready s"
  shows "sched_ok s'" "moves s s'" "sc_policy s' = LIGHTLLM \<Longrightarrow> deferred_ok (set (wq_ids (sc_waiting s'))) s'"
    "\<exists>pk pvs. st = fresh_step s' pk pvs"
proof -
  have ok: "sched_ok s" using assms(2) by (simp add: step_ready_def)
  from assms(1) obtain s1 s2 s3 r where
    s1: "unpin_requests_regular (w_now w) s = Inr s1"
    and s2: "(if sc_policy s1 = AUTELLIX then autellix_maybe_switch_to_fcfs s1 else Inr s1) = Inr s2"
    and s3: "policy_start w s2 = Inr s3" and r: "lightllm_start w s3 = Inr r"
      "(case r of (pk, pvs, s) \<Rightarrow> Inr (s, fresh_step s pk pvs)) = (Inr (s', st) :: (sched \<times> step) result)"
    unfolding schedule_start_def by (elim rbindE) (erule (4) that)
  obtain pk pvs where s4: "lightllm_start w s3 = Inr (pk, pvs, s')" and st: "st = fresh_step s' pk pvs"
    using r by (cases r) simp
  show "\<exists>pk pvs. st = fresh_step s' pk pvs" using st by blast
  from unpin_requests_regular_frame [OF s1] obtain p k where f1: "s1 = s\<lparr>sc_pinned := p, sc_kv := k\<rparr>" by blast
  then have ok1: "sched_ok s1" "moves s s1" using ok keeps_sched_ok [of s s1] keeps_moves [of s s1] by simp_all
  have ok2: "sched_ok s2 \<and> moves s1 s2 \<and> (sc_policy s1 \<noteq> AUTELLIX \<longrightarrow> s2 = s1) \<and> sc_policy s2 \<in> {sc_policy s1, FCFS}"
    using s2 autellix_switch_conserves [OF ok1(1), of s2] ok1(1) by (cases "sc_policy s1 = AUTELLIX") (simp_all add: moves_def)
  note ok3 = policy_start_ok [OF s3 conjunct1 [OF ok2]]
  have ll: "keeps s3 s' \<and> sc_objs s' = sc_objs s3 \<and> (sc_policy s3 = LIGHTLLM \<longrightarrow> deferred_ok (set (wq_ids (sc_waiting s3))) s')"
  proof (cases "sc_policy s3 = LIGHTLLM")
    case True
    then have eq: "s3 = s1" using ok2 ok3 by auto
    have "deferred_ok (set (wq_ids (sc_waiting s1))) s1" "\<And>c. sc_lightllm s1 = Some c \<Longrightarrow> running_max_req_size c = int (sc_max_num_running_reqs s1)"
      using assms(2) True eq f1 by (simp_all add: step_ready_def deferred_ok_def)
    then show ?thesis using s4 True lightllm_prepare_ok [of w s1] ok1(1) eq by (auto simp: lightllm_start_def dest: sched_okD(2))
  qed (use s4 in \<open>simp add: lightllm_start_def\<close>)
  show "sched_ok s'" using ll ok3 keeps_sched_ok by blast
  show "moves s s'" using ll ok3 ok2 ok1 keeps_moves moves_trans by metis
  show "deferred_ok (set (wq_ids (sc_waiting s'))) s'" if "sc_policy s' = LIGHTLLM" using ll that by (simp add: keeps_def)
qed

end
