(* ===== verification/Running_Phase.thy ===== *)
theory Running_Phase
  imports Sched_Conserve
begin

text \<open>
  The running phase of a scheduling step: serving and preempting running requests keeps every
  request in one place, hands out at most the token budget, and schedules each request at most once.
\<close>

section \<open>Bounds on the tokens of a request\<close>

definition limits_ok :: "sched \<Rightarrow> bool" where
  "limits_ok s \<longleftrightarrow> 0 \<le> sc_max_num_scheduled_tokens s \<and> 0 \<le> sc_ll_chunk s \<and> sc_aut_level_quanta s \<noteq> [] \<and>
     (\<forall>q\<in>set (sc_aut_level_quanta s). 0 \<le> q)"

lemma limits_ok_cong: "limits s' = limits s \<Longrightarrow> limits_ok s' = limits_ok s"
  by (simp add: limits_ok_def limits_def)

text \<open>A running request has not computed more tokens than it has, nor reached the model length.\<close>

definition tokens_ok :: "sched \<Rightarrow> req_ref \<Rightarrow> bool" where
  "tokens_ok s x \<longleftrightarrow> (let r = sc_objs s x in
     num_computed_tokens r \<le> num_tokens_with_spec r + num_output_placeholders r \<and> num_computed_tokens r < sc_max_model_len s \<and> 0 \<le> num_output_placeholders r)"

lemma encoder_input_loop_bound:
  "encoder_input_loop r encdec no_chunk nct fs ids hs tot n budget c = Inr (ids', n', budget', c') \<Longrightarrow> 0 \<le> n \<Longrightarrow> 0 \<le> n' \<and> n' \<le> n"
proof (induction r encdec no_chunk nct fs ids hs tot n budget c rule: encoder_input_loop.induct)
  case (2 r encdec no_chunk nct i f fs ids hs tot n budget c)
  note loop = "2.prems"(1) and n = "2.prems"(2)
  show ?case
  proof (cases "nct + n \<le> mm_offset f \<or> encdec \<and> 0 < nct \<or> mm_offset f + mm_length f \<le> nct")
    case True
    then show ?thesis using loop n "2.IH"(1,2) by (simp split: if_splits)
  next
    case False
    then obtain skip c1 where sk: "(if encdec then Inr (False, c) else if mm_identifier f \<in> hs then Inr (True, c)
        else check_and_update_cache r i c) = Inr (skip, c1)" using loop by auto
    have guards: "\<not> nct + n \<le> mm_offset f" "\<not> (encdec \<and> 0 < nct)" "\<not> mm_offset f + mm_length f \<le> nct" using False by auto
    show ?thesis
    proof (cases "skip \<or> no_chunk \<and> nct < mm_offset f \<and> nct + n < mm_offset f + mm_length f")
      case True
      then show ?thesis using loop n guards sk "2.IH"(3) [OF guards sk refl] by (auto split: if_splits)
    next
      case go: False
      then obtain ok c2 where ca: "can_allocate r i budget tot c1 = Inr (ok, c2)" using loop guards sk by auto
      show ?thesis
      proof (cases ok)
        case True
        then show ?thesis using loop n guards sk go ca "2.IH"(4) [OF guards sk refl _ _ ca refl] by auto
      next
        case False
        then show ?thesis using loop n guards sk go ca by auto
      qed
    qed
  qed
qed simp

lemma encoder_cap_bound:
  assumes "encoder_cap x nct n budget s = Inr (ids, n', budget', s')" and "0 \<le> n"
  shows "0 \<le> n' \<and> n' \<le> n \<and> (\<exists>c. s' = s\<lparr>sc_encoder := c\<rparr>)"
proof (cases "has_encoder_inputs (sc_objs s x)")
  case True
  with assms(1) obtain c where c: "try_schedule_encoder_inputs (sc_encdec s) (sc_no_chunked_mm s) (sc_objs s x) nct n budget (sc_encoder s) =
      Inr (ids, n', budget', c)" "s' = s\<lparr>sc_encoder := c\<rparr>"
    by (auto simp: encoder_cap_def)
  have "0 \<le> n' \<and> n' \<le> n"
    using c(1) encoder_input_loop_bound assms(2) unfolding try_schedule_encoder_inputs_def by (cases "n = 0 \<or> \<not> has_encoder_inputs (sc_objs s x)") auto
  then show ?thesis using c(2) by blast
next
  case False
  then have "n' = n" "s' = s\<lparr>sc_encoder := sc_encoder s\<rparr>" using assms(1) by (simp_all add: encoder_cap_def)
  then show ?thesis using assms(2) by blast
qed

lemma autellix_quantum_nonneg: "limits_ok s \<Longrightarrow> 0 \<le> autellix_quantum_for_level s l"
proof -
  assume ok: "limits_ok s"
  let ?i = "nat (max 0 (min l (int (length (sc_aut_level_quanta s)) - 1)))"
  have "?i < length (sc_aut_level_quanta s)" using ok by (cases "sc_aut_level_quanta s") (auto simp: limits_ok_def)
  then have "sc_aut_level_quanta s ! ?i \<in> set (sc_aut_level_quanta s)" by (rule nth_mem)
  then show ?thesis using ok by (auto simp: autellix_quantum_for_level_def limits_ok_def Let_def)
qed

lemma mars_quantum_nonneg: "limits_ok s \<Longrightarrow> 0 \<le> mars_quantum_for_level (mars_view s) l"
proof -
  assume "limits_ok s"
  moreover have "nat (max 0 (min l 3)) \<in> {0, 1, 2, 3}" by auto
  then have "0 \<le> [2048, 1024, 512, 256 :: int] ! nat (max 0 (min l 3))" by force
  ultimately show ?thesis by (simp add: mars_quantum_for_level_def mars_view_def limits_ok_def Let_def)
qed

lemma attrs_id: "\<exists>a. s = s\<lparr>sc_attrs := a\<rparr>"
  by (intro exI [of _ "sc_attrs s"]) simp

lemma policy_cap_bound:
  assumes "policy_cap w x nct n s = (n', quantum, s')" and "0 \<le> n" and "limits_ok s"
  shows "0 \<le> n' \<and> n' \<le> n \<and> (\<exists>a. s' = s\<lparr>sc_attrs := a\<rparr>)"
proof (cases "sc_policy s = AUTELLIX")
  case True
  let ?a = "sc_attrs s x"
  let ?left = "attr_or 0 (at_quanta_left ?a)" and ?q = "autellix_quantum_for_level s (attr_or 0 (at_q_idx ?a))"
  have "n' = min n (min (if ?left \<le> 0 then ?q else ?left) (sc_max_num_scheduled_tokens s))"
    "s' = s\<lparr>sc_attrs := if ?left \<le> 0 then (sc_attrs s)(x := ?a\<lparr>at_quanta_left := Some ?q\<rparr>) else sc_attrs s\<rparr>"
    using assms(1) True by (auto simp: policy_cap_def set_attrs_def Let_def)
  then show ?thesis using assms(2,3) autellix_quantum_nonneg [OF assms(3), of "attr_or 0 (at_q_idx ?a)"]
    by (auto simp: limits_ok_def attrs_id)
next
  case False
  have chunk: "0 \<le> sc_ll_chunk s" using assms(3) by (simp add: limits_ok_def)
  have "0 \<le> n' \<and> n' \<le> n \<and> s' = s"
    using assms(1,2) False chunk mars_quantum_nonneg [OF assms(3), of "mars_effective_level (mars_view s) (sc_objs s x) (w_mono w) (Some nct)"]
    by (cases "sc_policy s = LIGHTLLM"; cases "sc_policy s = MARS") (auto simp: policy_cap_def Let_def)
  then show ?thesis using attrs_id by blast
qed

lemma running_tokens_bound:
  assumes "running_tokens w x s st = Inr (ids, n, b, quantum, s')" and "tokens_ok s x" and "limits_ok s" and "0 \<le> st_budget st"
  shows "0 \<le> n \<and> n \<le> st_budget st \<and> (\<exists>a c. s' = s\<lparr>sc_attrs := a, sc_encoder := c\<rparr>)"
proof -
  let ?r = "sc_objs s x"
  let ?n = "min (min (threshold_cap s (num_tokens_with_spec ?r + num_output_placeholders ?r - num_computed_tokens ?r)) (st_budget st))
    (sc_max_model_len s - 1 - num_computed_tokens ?r)"
  obtain n1 q1 s1 where cap: "policy_cap w x (num_computed_tokens ?r) ?n s = (n1, q1, s1)" using prod_cases3 by blast
  with assms(1) have enc: "encoder_cap x (num_computed_tokens ?r) n1 (st_enc_budget st) s1 = Inr (ids, n, b, s')"
    by (auto simp: running_tokens_def Let_def)
  have "0 \<le> ?n" "?n \<le> st_budget st" using assms(2,4) by (auto simp: tokens_ok_def threshold_cap_def Let_def)
  with policy_cap_bound [OF cap _ assms(3)] encoder_cap_bound [OF enc] show ?thesis by force
qed

section \<open>Lists and dictionaries of the step\<close>

lemma take_remove1: "set (take k xs) - {v} \<subseteq> set (take (if index_of v xs < k then k - 1 else k) (remove1 v xs))"
proof (induction xs arbitrary: k)
  case (Cons a xs)
  show ?case
  proof (cases "a = v")
    case True
    then show ?thesis by (cases k) (auto simp: index_of_def)
  next
    case False
    have ix: "index_of v (a # xs) = Suc (index_of v xs)" using False by (simp add: index_of_def)
    show ?thesis
    proof (cases k)
      case (Suc j)
      have "set (take j xs) - {v} \<subseteq> set (take (if index_of v xs < j then j - 1 else j) (remove1 v xs))" by (rule Cons.IH)
      moreover have "(if index_of v (a # xs) < k then k - 1 else k) = Suc (if index_of v xs < j then j - 1 else j)"
        using ix Suc by auto
      ultimately show ?thesis using False Suc by auto
    qed simp
  qed
qed simp

lemma total_delete: "distinct (map fst d) \<Longrightarrow>
    sum_list (map snd (AList.delete v d)) + (case map_of d v of Some n \<Rightarrow> n | None \<Rightarrow> 0) = sum_list (map snd (d :: (req_ref \<times> int) list))"
proof (induction d)
  case (Cons p d)
  have "map_of d v = None" if "v = fst p" using Cons.prems that by (auto simp: map_of_eq_None_iff)
  with Cons show ?case by (cases p) (auto split: option.splits)
qed simp

lemma keys_delete: "distinct (map fst d) \<Longrightarrow> map fst (AList.delete v d) = remove1 v (map fst d)"
  by (auto simp: AList_delete_filter map_fst_filter distinct_remove1_removeAll removeAll_filter_not_eq intro: filter_cong)

section \<open>The invariant\<close>

definition run_inv :: "sched \<Rightarrow> sched \<Rightarrow> step \<Rightarrow> bool" where
  "run_inv s0 s st \<longleftrightarrow> sched_ok s \<and> mset (unfinished s) = mset (unfinished s0) \<and> limits s = limits s0 \<and>
     (\<forall>x\<in>set (sc_running s). tokens_ok s x) \<and> length (sc_running s) \<le> sc_max_num_running_reqs s \<and>
     (sc_policy s = LIGHTLLM \<longrightarrow> deferred_ok (set (wq_ids (sc_waiting s))) s) \<and> sc_policy s = sc_policy s0 \<and>
     map fst (st_num st) = st_running st \<and> distinct (st_running st) \<and> set (st_running st) \<subseteq> set (take (st_index st) (sc_running s)) \<and>
     (\<forall>n\<in>snd ` set (st_num st). 0 \<le> n) \<and> st_budget st + total_scheduled st = sc_max_num_scheduled_tokens s0 \<and> 0 \<le> st_budget st \<and>
     st_new st = [] \<and> st_resumed st = [] \<and> (sc_policy s = LIGHTLLM \<longrightarrow> fst ` set (st_previews st) \<subseteq> fst ` set (sc_ll_deferred s))"

text \<open>Whatever leaves places, limits, tokens and deferred requests alone keeps the invariant.\<close>

lemma run_inv_frame:
  assumes "run_inv s0 s st" and "keeps s s'" and "sc_ll_deferred s' = sc_ll_deferred s" and "\<And>x. x \<in> set (sc_running s) \<Longrightarrow> tokens_ok s' x"
  shows "run_inv s0 s' st"
  using assms keeps_sched_ok [OF assms(2)] keeps_unfinished [OF assms(2)] deferred_ok_keeps [OF assms(2,3)]
  by (simp add: run_inv_def keeps_def limits_def)

lemma run_inv_tokens: "run_inv s0 s st \<Longrightarrow> x \<in> set (sc_running s) \<Longrightarrow> tokens_ok s x"
  by (simp add: run_inv_def)

lemma run_inv_kv: "run_inv s0 s st \<Longrightarrow> run_inv s0 (s\<lparr>sc_kv := k\<rparr>) st"
  by (rule run_inv_frame, assumption) (use run_inv_tokens in \<open>simp_all add: tokens_ok_def\<close>)

lemma run_inv_attrs_encoder: "run_inv s0 s st \<Longrightarrow> run_inv s0 (s\<lparr>sc_attrs := a, sc_encoder := c\<rparr>) st"
  by (rule run_inv_frame, assumption) (use run_inv_tokens in \<open>simp_all add: tokens_ok_def\<close>)

section \<open>Preemption\<close>

lemma victim_cases:
  assumes "choose_victim s = Inr (v, idx, u, s')" and "distinct (sc_running s)"
  obtains (Pin) p where "u" "idx = None" "s' = s\<lparr>sc_pinned := p\<rparr>"
    | (Run) "\<not> u" "v \<in> set (sc_running s)" "s' = s\<lparr>sc_running := remove1 v (sc_running s)\<rparr>" "idx = None \<or> idx = Some (index_of v (sc_running s))"
  using assms(1)
proof (cases rule: choose_victim_cases)
  case Last
  then show ?thesis using remove1_last [OF Last(2) assms(2)] by (intro that(2)) simp_all
next
  case Pin
  then show ?thesis by (intro that(1))
next
  case Run
  then show ?thesis by (intro that(2))
qed

definition requeued :: "req_ref \<Rightarrow> sched \<Rightarrow> sched \<Rightarrow> bool" where
  "requeued v s s' \<longleftrightarrow> (\<exists>r i q. request_id r = request_id (sc_objs s v) \<and> wq_prepend_request r i (sc_waiting s) = Inr q \<and>
     sc_waiting s' = q \<and> sc_objs s' = (sc_objs s)(v := r) \<and> sc_running s' = sc_running s \<and> sc_mars_overflow s' = sc_mars_overflow s \<and>
     sc_policy s' = sc_policy s \<and> limits s' = limits s \<and> sc_ll_deferred s' = sc_ll_deferred s)"

lemma requeue_requeued:
  assumes "requeue w v s = Inr s'"
  shows "requeued v s s'"
proof -
  define r0 where "r0 = (sc_objs s v)\<lparr>status := PREEMPTED, num_computed_tokens := 0\<rparr>"
  define r where "r = (if sc_log_stats s then record_event EV_PREEMPTED (w_mono w) r0 else r0)"
  define s1 where "s1 = (if sc_policy s = MARS then s\<lparr>sc_objs := (sc_objs s)(v := r), sc_mars_levels := (sc_mars_levels s)(v \<mapsto> 0),
    sc_mars_last := (sc_mars_last s)(v := None)\<rparr> else s\<lparr>sc_objs := (sc_objs s)(v := r)\<rparr>)"
  have s1: "sc_waiting s1 = sc_waiting s" "sc_objs s1 = (sc_objs s)(v := r)" "sc_attrs s1 = sc_attrs s" "sc_running s1 = sc_running s"
    "sc_mars_overflow s1 = sc_mars_overflow s" "sc_policy s1 = sc_policy s" "limits s1 = limits s" "sc_ll_deferred s1 = sc_ll_deferred s"
    by (simp_all add: s1_def limits_def)
  have "requeue w v s = rbind (wq_prepend_request r (q_idx_of s v) (sc_waiting s)) (\<lambda>q. Inr (s1\<lparr>sc_evicted_at := (sc_evicted_at s1)(v \<mapsto> w_now w), sc_waiting := q\<rparr>))"
    by (simp add: requeue_def upd_obj_def s1_def r_def r0_def q_idx_of_def Let_def)
  with assms obtain q where q: "wq_prepend_request r (q_idx_of s v) (sc_waiting s) = Inr q"
    "s' = s1\<lparr>sc_evicted_at := (sc_evicted_at s1)(v \<mapsto> w_now w), sc_waiting := q\<rparr>" by auto
  have "request_id r = request_id (sc_objs s v)" by (simp add: r_def r0_def record_event_def)
  then show ?thesis unfolding requeued_def using q s1 by (intro exI [of _ r] exI [of _ "q_idx_of s v"] exI [of _ q]) (simp add: limits_def)
qed

lemma wq_prepend_mars: "wq_prepend_request r i (MarsQ m) = Inr q \<Longrightarrow> \<exists>m'. q = MarsQ m'"
  by (auto simp: wq_prepend_request_def)

lemma requeued_ok:
  assumes "sched_ok s" and "v \<in> set (sc_running s)" and "requeued v (s\<lparr>sc_running := remove1 v (sc_running s)\<rparr>) s'"
  shows "sched_ok s' \<and> mset (unfinished s') = mset (unfinished s) \<and> set (wq_ids (sc_waiting s')) = insert v (set (wq_ids (sc_waiting s)))"
proof -
  from assms(3) obtain r i q where r: "request_id r = v" "wq_prepend_request r i (sc_waiting s) = Inr q" "sc_waiting s' = q"
    "sc_objs s' = (sc_objs s)(v := r)" "sc_running s' = remove1 v (sc_running s)" "sc_mars_overflow s' = sc_mars_overflow s" "sc_policy s' = sc_policy s"
    using sched_okD(1) [OF assms(1)] by (auto simp: requeued_def)
  have "v \<notin> set (wq_ids (sc_waiting s))" using sched_okD(3) [OF assms(1)] assms(2) by (auto simp: unfinished_def)
  with wq_prepend_ids [OF sched_okD(2) [OF assms(1)] _ r(2)] r(1,3)
  have q: "wq_wf (sc_waiting s')" "mset (wq_ids (sc_waiting s')) = add_mset v (mset (wq_ids (sc_waiting s)))" by simp_all
  have "mset (sc_running s) = add_mset v (mset (sc_running s'))" using r(5) assms(2) by simp
  then have m: "mset (unfinished s') = mset (unfinished s)" using q(2) r(6) by (simp add: unfinished_def)
  have "\<exists>m. sc_waiting s' = MarsQ m" if "sc_policy s' = MARS"
    using r(2,3,7) sched_okD(4) [OF assms(1)] wq_prepend_mars that by metis
  then have "sched_ok s'" using unfinished_perm [OF assms(1) m q(1)] r(1,4) sched_okD(1) [OF assms(1)] by simp
  then show ?thesis using m mset_eq_setD [of "wq_ids (sc_waiting s')" "v # wq_ids (sc_waiting s)"] q(2) by simp
qed

text \<open>What one preemption does to the state: a retained request loses its blocks, or a running request goes back to the queue.\<close>

lemma preempt_cases:
  assumes "preempt w (s, st) = Inr (v, u, s', st')" and "distinct (sc_running s)"
  obtains (Pin) p k c where "u" "s' = s\<lparr>sc_pinned := p, sc_kv := k, sc_encoder := c\<rparr>" "st' = unschedule v None st"
    | (Run) idx where "\<not> u" "v \<in> set (sc_running s)" "idx = None \<or> idx = Some (index_of v (sc_running s))"
        "requeued v (s\<lparr>sc_running := remove1 v (sc_running s)\<rparr>) s'"
        "st' = (unschedule v idx st)\<lparr>st_preempted := st_preempted st @ [v]\<rparr>"
proof -
  from assms(1) obtain v' idx u' s1 where c: "choose_victim s = Inr (v', idx, u', s1)" by (auto simp: preempt_def)
  from assms(1) c obtain k e where rest: "(if u' then Inr (v', True, s1\<lparr>sc_kv := k, sc_encoder := e\<rparr>, unschedule v' idx st)
      else rbind (requeue w v' (s1\<lparr>sc_kv := k, sc_encoder := e\<rparr>)) (\<lambda>s. Inr (v', False, s, (unschedule v' idx st)
        \<lparr>st_preempted := st_preempted (unschedule v' idx st) @ [v']\<rparr>))) = Inr (v, u, s', st')"
    by (auto simp: preempt_def Let_def)
  then have eq: "v' = v" "u' = u" by (simp_all split: if_splits)
  from c [unfolded eq] assms(2) show ?thesis
  proof (cases rule: victim_cases)
    case Pin
    then show ?thesis using rest eq by (intro that(1)) auto
  next
    case Run
    then have q: "requeue w v (s1\<lparr>sc_kv := k, sc_encoder := e\<rparr>) = Inr s'" and st': "st' = (unschedule v idx st)\<lparr>st_preempted := st_preempted st @ [v]\<rparr>"
      using rest eq by (auto simp: unschedule_def)
    have "requeued v (s\<lparr>sc_running := remove1 v (sc_running s)\<rparr>) s'"
      using requeue_requeued [OF q] Run(3) by (simp add: requeued_def limits_def)
    then show ?thesis using Run st' by (intro that(2)) simp_all
  qed
qed

lemma unschedule_budget:
  assumes "map fst (st_num st) = st_running st" and "distinct (st_running st)" and "\<forall>n\<in>snd ` set (st_num st). 0 \<le> n"
  shows "map fst (st_num (unschedule v idx st)) = st_running (unschedule v idx st)"
    "st_budget (unschedule v idx st) + total_scheduled (unschedule v idx st) = st_budget st + total_scheduled st"
    "st_budget st \<le> st_budget (unschedule v idx st)" "\<forall>n\<in>snd ` set (st_num (unschedule v idx st)). 0 \<le> n"
proof -
  show "map fst (st_num (unschedule v idx st)) = st_running (unschedule v idx st)"
    using keys_delete [of "st_num st" v] assms(1,2) by (simp add: unschedule_def)
  show "st_budget (unschedule v idx st) + total_scheduled (unschedule v idx st) = st_budget st + total_scheduled st"
    using total_delete [of "st_num st" v] assms(1,2) by (simp add: unschedule_def total_scheduled_def)
  have "0 \<le> (case map_of (st_num st) v of Some n \<Rightarrow> n | None \<Rightarrow> 0)" using assms(3) by (force split: option.splits dest: map_of_SomeD)
  then show "st_budget st \<le> st_budget (unschedule v idx st)" by (simp add: unschedule_def)
  show "\<forall>n\<in>snd ` set (st_num (unschedule v idx st)). 0 \<le> n" using assms(3) by (auto simp: unschedule_def AList_delete_filter)
qed

lemma unschedule_index:
  assumes "idx = None \<or> idx = Some (index_of v xs)"
  shows "set (take (st_index st + k) xs) - {v} \<subseteq> set (take (st_index (unschedule v idx st) + k) (remove1 v xs))"
proof -
  let ?j = "st_index (unschedule v idx st) + k" and ?k = "st_index st + k"
  have "(if index_of v xs < ?k then ?k - 1 else ?k) \<le> ?j" using assms by (auto simp: unschedule_def)
  then have "set (take (if index_of v xs < ?k then ?k - 1 else ?k) (remove1 v xs)) \<subseteq> set (take ?j (remove1 v xs))"
    by (rule set_take_subset_set_take)
  then show ?thesis using take_remove1 [of ?k xs v] by blast
qed

lemma preempt_run_inv:
  assumes "preempt w (s, st) = Inr (v, u, s', st')" and inv: "run_inv s0 s st"
  shows "run_inv s0 s' st'" "st_budget st \<le> st_budget st'" "set (st_running st') \<subseteq> set (st_running st)"
    "set (take (st_index st + k) (sc_running s)) - (if u then {} else {v}) \<subseteq> set (take (st_index st' + k) (sc_running s'))"
proof -
  have d: "distinct (sc_running s)" using inv by (simp add: run_inv_def sched_ok_def unfinished_def)
  have num: "map fst (st_num st) = st_running st" "distinct (st_running st)" "\<forall>n\<in>snd ` set (st_num st). 0 \<le> n"
    using inv by (simp_all add: run_inv_def)
  have "run_inv s0 s' st' \<and> st_budget st \<le> st_budget st' \<and> set (st_running st') \<subseteq> set (st_running st) \<and>
    (\<forall>k. set (take (st_index st + k) (sc_running s)) - (if u then {} else {v}) \<subseteq> set (take (st_index st' + k) (sc_running s')))"
    using assms(1) d
  proof (cases rule: preempt_cases)
    case (Pin p kv c)
    note b = unschedule_budget [OF num, of v None]
    have "keeps s s'" "sc_ll_deferred s' = sc_ll_deferred s" using Pin(2) by simp_all
    moreover have "tokens_ok s' x" if "x \<in> set (sc_running s)" for x using run_inv_tokens [OF inv that] Pin(2) by (simp add: tokens_ok_def)
    ultimately have "run_inv s0 s' st" by (rule run_inv_frame [OF inv])
    then have "run_inv s0 s' st'" using b num(2) Pin(3) set_remove1_subset [of v "st_running st"]
      by (auto simp: run_inv_def unschedule_def)
    then show ?thesis using b Pin set_remove1_subset [of v "st_running st"] by (auto simp: unschedule_def)
  next
    case (Run idx)
    note b = unschedule_budget [OF num, of v idx] and i = unschedule_index [OF Run(3), of st]
    have req: "sched_ok s'" "mset (unfinished s') = mset (unfinished s)" "set (wq_ids (sc_waiting s')) = insert v (set (wq_ids (sc_waiting s)))"
      using requeued_ok [OF _ Run(2,4)] inv by (simp_all add: run_inv_def)
    from Run(4) have fr: "sc_running s' = remove1 v (sc_running s)" "limits s' = limits s" "sc_policy s' = sc_policy s"
      "sc_ll_deferred s' = sc_ll_deferred s" "\<And>x. x \<noteq> v \<Longrightarrow> sc_objs s' x = sc_objs s x"
      by (auto simp: requeued_def limits_def)
    have "tokens_ok s' x" if "x \<in> set (sc_running s')" for x
      using run_inv_tokens [OF inv, of x] that fr(1,2,5) d by (auto simp: tokens_ok_def limits_def)
    moreover have "deferred_ok (set (wq_ids (sc_waiting s'))) s'" if "sc_policy s' = LIGHTLLM"
      using inv that fr(1-4) req(3) by (auto simp: run_inv_def deferred_ok_def limits_def length_remove1)
    moreover have "length (sc_running s') \<le> sc_max_num_running_reqs s'"
      using inv fr(1,2) by (auto simp: run_inv_def limits_def length_remove1)
    moreover have "set (st_running st') \<subseteq> set (take (st_index st') (sc_running s'))"
      using inv i [of 0] Run(5) fr(1) num(2) by (auto simp: run_inv_def unschedule_def)
    ultimately have "run_inv s0 s' st'" using inv req(1,2) fr(2-4) b num(2) Run(5)
      by (simp add: run_inv_def unschedule_def total_scheduled_def)
    then show ?thesis using b Run(1,5) i fr(1) set_remove1_subset [of v "st_running st"] by (auto simp: unschedule_def)
  qed
  then show "run_inv s0 s' st'" "st_budget st \<le> st_budget st'" "set (st_running st') \<subseteq> set (st_running st)"
    "set (take (st_index st + k) (sc_running s)) - (if u then {} else {v}) \<subseteq> set (take (st_index st' + k) (sc_running s'))" by blast+
qed

section \<open>One request, then all\<close>

lemma alloc_running_inv:
  assumes "alloc_running w x n (s, st) = Inr (res, s', st')" and "run_inv s0 s st" and "x \<in> set (take (st_index st + 1) (sc_running s))"
    and "x \<notin> set (st_running st)" and "0 \<le> n" and "n \<le> st_budget st"
  shows "run_inv s0 s' st'"
    "res = Some (bs, m) \<Longrightarrow> x \<in> set (take (st_index st' + 1) (sc_running s')) \<and> x \<notin> set (st_running st') \<and> 0 \<le> m \<and> m \<le> st_budget st'"
proof -
  define I where "I n s st \<longleftrightarrow> run_inv s0 s st \<and> x \<in> set (take (st_index st + 1) (sc_running s)) \<and> x \<notin> set (st_running st) \<and> 0 \<le> n \<and> n \<le> st_budget st"
    for n s st
  have "case res of None \<Rightarrow> run_inv s0 s' st' | Some (bs, m) \<Rightarrow> \<exists>s1 k. I m s1 st' \<and> running_slots x m s1 = Inr (Some bs, k) \<and> s' = s1\<lparr>sc_kv := k\<rparr>"
  proof (rule alloc_running_rule [OF assms(1)])
    show "I n s st" using assms by (simp add: I_def)
  next
    fix n s st k
    assume "I n s st" "int (sc_block_size s) < n"
    then show "I (max (int (sc_block_size s)) (n div 2)) (s\<lparr>sc_kv := k\<rparr>) st" using run_inv_kv by (auto simp: I_def)
  next
    fix n s st k v u s' st'
    assume i: "I n s st" and p: "preempt w (s\<lparr>sc_kv := k\<rparr>, st) = Inr (v, u, s', st')"
    have inv: "run_inv s0 (s\<lparr>sc_kv := k\<rparr>) st" using i run_inv_kv by (simp add: I_def)
    note q = preempt_run_inv(1-3) [OF p inv] and t = preempt_run_inv(4) [OF p inv, of 1]
    have "x \<in> set (take (st_index st' + 1) (sc_running s'))" if "u \<or> v \<noteq> x" using t i that by (auto simp: I_def split: if_splits)
    then show "if \<not> u \<and> v = x then run_inv s0 s' st' else I n s' st'" using q i by (auto simp: I_def)
  qed
  then show "run_inv s0 s' st'"
    "res = Some (bs, m) \<Longrightarrow> x \<in> set (take (st_index st' + 1) (sc_running s')) \<and> x \<notin> set (st_running st') \<and> 0 \<le> m \<and> m \<le> st_budget st'"
    by (auto simp: I_def split: option.splits intro: run_inv_kv)
qed

lemma policy_feedback_frame:
  "keeps s (policy_feedback w x n quantum s)" "sc_objs (policy_feedback w x n quantum s) = sc_objs s"
  "sc_ll_deferred (policy_feedback w x n quantum s) = sc_ll_deferred s"
proof -
  let ?m = "mars_on_scheduled (sc_objs s x) n (case quantum of Some q \<Rightarrow> q | None \<Rightarrow> n) (w_mono w) (mars_view s)"
  have m: "ms_running ?m = sc_running s" "ms_overflow ?m = sc_mars_overflow s" "sc_waiting s = MarsQ mq \<Longrightarrow> ms_waiting ?m = mq" for mq
    by (auto simp: mars_on_scheduled_def mars_view_def Let_def)
  have "keeps s (with_mars ?m s) \<and> sc_objs (with_mars ?m s) = sc_objs s \<and> sc_ll_deferred (with_mars ?m s) = sc_ll_deferred s"
    using m by (auto simp: with_mars_def keeps_def limits_def split: request_queue.splits)
  moreover have "keeps s (autellix_on_scheduled x n q s) \<and> sc_objs (autellix_on_scheduled x n q s) = sc_objs s \<and>
      sc_ll_deferred (autellix_on_scheduled x n q s) = sc_ll_deferred s" for q
    by (simp add: autellix_on_scheduled_def Let_def) (simp add: set_attrs_def)
  ultimately show "keeps s (policy_feedback w x n quantum s)" "sc_objs (policy_feedback w x n quantum s) = sc_objs s"
    "sc_ll_deferred (policy_feedback w x n quantum s) = sc_ll_deferred s"
    by (simp_all add: policy_feedback_def Let_def)
qed

lemma note_spec_tokens_frame:
  assumes "note_spec_tokens x n (s, st) = (s', st')" and "0 \<le> n"
  shows "keeps s s'" "sc_ll_deferred s' = sc_ll_deferred s" "y = x \<or> sc_objs s' y = sc_objs s y" "tokens_ok s x \<Longrightarrow> tokens_ok s' x"
    "\<exists>sp. st' = st\<lparr>st_spec := sp\<rparr>"
proof -
  let ?r = "sc_objs s x" let ?k = "n + num_computed_tokens ?r - num_tokens ?r"
  let ?spec = "take (nat ?k) (spec_token_ids ?r)"
  consider (trim) "?k > 0" "s' = upd_obj x (\<lambda>r. r\<lparr>spec_token_ids := ?spec\<rparr>) s" "st' = st\<lparr>st_spec := AList.update x ?spec (st_spec st)\<rparr>"
    | (same) "s' = s" "st' = st\<lparr>st_spec := st_spec st\<rparr>"
  proof (cases "spec_token_ids ?r \<noteq> [] \<and> ?k > 0")
    case True
    then show thesis using assms(1) by (intro that(1)) (simp_all add: note_spec_tokens_def Let_def)
  next
    case False
    then have "(s', st') = (s, st)" using assms(1) unfolding note_spec_tokens_def Let_def prod.case by (simp only: if_False)
    then show thesis by (intro that(2)) simp_all
  qed
  then have "keeps s s' \<and> sc_ll_deferred s' = sc_ll_deferred s \<and> (y = x \<or> sc_objs s' y = sc_objs s y) \<and> (tokens_ok s x \<longrightarrow> tokens_ok s' x) \<and>
    (\<exists>sp. st' = st\<lparr>st_spec := sp\<rparr>)"
  proof cases
    case trim
    have "num_computed_tokens ?r \<le> num_tokens ?r + int (length ?spec) + num_output_placeholders ?r" if "tokens_ok s x"
      using that trim(1) assms(2) by (auto simp: tokens_ok_def num_tokens_with_spec_def num_tokens_def min_def Let_def)
    then show ?thesis using trim(2,3)
      by (auto simp: keeps_upd_obj) (auto simp: upd_obj_def tokens_ok_def num_tokens_with_spec_def num_tokens_def Let_def split: if_splits)
  next
    case same
    then show ?thesis using keeps_refl by blast
  qed
  then show "keeps s s'" "sc_ll_deferred s' = sc_ll_deferred s" "y = x \<or> sc_objs s' y = sc_objs s y" "tokens_ok s x \<Longrightarrow> tokens_ok s' x"
    "\<exists>sp. st' = st\<lparr>st_spec := sp\<rparr>" by blast+
qed

lemma encoder_allocate_frame:
  "encoder_allocate x ids b (s, st) = Inr (s', st') \<Longrightarrow> (\<exists>c. s' = s\<lparr>sc_encoder := c\<rparr>) \<and> (\<exists>e eb. st' = st\<lparr>st_enc := e, st_enc_budget := eb\<rparr>)"
proof (cases "ids = []")
  case True
  moreover assume "encoder_allocate x ids b (s, st) = Inr (s', st')"
  ultimately have "s' = s\<lparr>sc_encoder := sc_encoder s\<rparr>" "st' = st\<lparr>st_enc := st_enc st, st_enc_budget := st_enc_budget st\<rparr>"
    by (simp_all add: encoder_allocate_def)
  then show ?thesis by blast
qed (auto simp: encoder_allocate_def)

lemma commit_running_inv:
  assumes "commit_running w x bs n quantum ids b (s, st) = Inr (s', st')" and inv: "run_inv s0 s st"
    and "x \<in> set (take (st_index st + 1) (sc_running s))" and "x \<notin> set (st_running st)" and "0 \<le> n" and "n \<le> st_budget st"
  shows "run_inv s0 s' st'"
proof -
  let ?s1 = "policy_feedback w x n quantum s"
  let ?st1 = "st\<lparr>st_running := st_running st @ [x], st_blocks := AList.update x bs (st_blocks st), st_num := AList.update x n (st_num st),
    st_budget := st_budget st - n, st_index := st_index st + 1\<rparr>"
  obtain s2 st2 where n2: "note_spec_tokens x n (?s1, ?st1) = (s2, st2)" by force
  with assms(1) have e: "encoder_allocate x ids b (s2, st2) = Inr (s', st')" by (simp add: commit_running_def Let_def)
  note spec = note_spec_tokens_frame [OF n2 assms(5)]
  from encoder_allocate_frame [OF e] spec(5) obtain c sp en eb where
    fr: "s' = s2\<lparr>sc_encoder := c\<rparr>" "st' = ?st1\<lparr>st_spec := sp, st_enc := en, st_enc_budget := eb\<rparr>" by blast
  have k: "keeps s s'" "sc_ll_deferred s' = sc_ll_deferred s" using fr(1) spec(2) policy_feedback_frame(3) [of w x n quantum s] keeps_trans [OF policy_feedback_frame(1) spec(1)] by simp_all
  have "tokens_ok s' y" if "y \<in> set (sc_running s)" for y
  proof -
    have "tokens_ok ?s1 y" using run_inv_tokens [OF inv that] policy_feedback_frame(1) [of s w x n quantum] policy_feedback_frame(2) [of w x n quantum s]
      by (simp add: tokens_ok_def keeps_def limits_def)
    then have "tokens_ok s2 y" using spec(3) [of y] spec(4) spec(1) by (auto simp: tokens_ok_def keeps_def limits_def)
    then show ?thesis using fr(1) by (simp add: tokens_ok_def)
  qed
  then have inv': "run_inv s0 s' st" using run_inv_frame [OF inv k] by blast
  have run: "sc_running s' = sc_running s" using k(1) by (simp add: keeps_def)
  have "x \<notin> fst ` set (st_num st)" using inv assms(4) by (simp add: run_inv_def flip: set_map)
  then have num: "st_num st' = st_num st @ [(x, n)]" using fr(2) by (simp add: AList_update_fresh)
  have "set (st_running st) \<subseteq> set (take (st_index st + 1) (sc_running s))"
    using inv set_take_subset_set_take [of "st_index st" "st_index st + 1" "sc_running s"] by (auto simp: run_inv_def)
  then have sub: "set (st_running st') \<subseteq> set (take (st_index st') (sc_running s'))" using fr(2) run assms(3) by simp
  show ?thesis using inv' num sub fr(2) assms(4,5,6) by (auto simp: run_inv_def total_scheduled_def)
qed

lemma running_loop_inv:
  assumes "running_loop w (s, st) = Inr (s', st')" and "run_inv s0 s st" and "limits_ok s0"
  shows "run_inv s0 s' st'"
  using assms
proof (induction w "(s, st)" arbitrary: s st rule: running_loop.induct)
  case (1 w s st)
  let ?x = "sc_running s ! st_index st"
  note loop = "1.prems"(1) [unfolded running_loop.simps [of w s st]] and inv = "1.prems"(2)
  show ?case
  proof (cases "st_index st < length (sc_running s) \<and> st_budget st > 0")
    case more: True
    have next_index: "run_inv s0 t (st\<lparr>st_index := st_index st + 1\<rparr>)" if "run_inv s0 t st" for t
    proof -
      have "set (take (st_index st) (sc_running t)) \<subseteq> set (take (st_index st + 1) (sc_running t))" by (rule set_take_subset_set_take) simp
      then show ?thesis using that by (auto simp: run_inv_def total_scheduled_def)
    qed
    show ?thesis
    proof (cases "pk_prefill (st_pack st) \<and> ?x \<notin> pk_selected (st_pack st)")
      case True
      then show ?thesis using "1.hyps"(1) [OF more True _ next_index [OF inv] "1.prems"(3)] loop more by simp
    next
      case False
      with loop more obtain ids n b quantum s1 where tok: "running_tokens w ?x s st = Inr (ids, n, b, quantum, s1)" by (auto split: sum.splits)
      have xin: "?x \<in> set (sc_running s)" using more by simp
      have lim: "limits_ok s" using "1.prems"(3) inv limits_ok_cong [of s s0] by (simp add: run_inv_def)
      from running_tokens_bound [OF tok run_inv_tokens [OF inv xin] lim] inv obtain a c where
        n: "0 \<le> n" "n \<le> st_budget st" and s1: "s1 = s\<lparr>sc_attrs := a, sc_encoder := c\<rparr>" by (auto simp: run_inv_def)
      have inv1: "run_inv s0 s1 st" using run_inv_attrs_encoder [OF inv] s1 by simp
      show ?thesis
      proof (cases "n = 0")
        case True
        then show ?thesis using "1.hyps"(2) [OF more False tok refl refl refl refl True _ next_index [OF inv1] "1.prems"(3)] loop more False tok by simp
      next
        case nz: False
        with loop more False tok obtain res s2 st2 where al: "alloc_running w ?x n (s1, st) = Inr (res, s2, st2)" by (auto split: sum.splits)
        have "distinct (sc_running s)" using inv by (simp add: run_inv_def sched_ok_def unfinished_def)
        then have "?x \<notin> set (take (st_index st) (sc_running s))" using more by (auto simp: in_set_conv_nth nth_eq_iff_index_eq)
        then have x: "?x \<in> set (take (st_index st + 1) (sc_running s1))" "?x \<notin> set (st_running st)"
          using inv more s1 by (auto simp: run_inv_def take_Suc_conv_app_nth)
        note ai = alloc_running_inv [OF al inv1 x n]
        show ?thesis
        proof (cases res)
          case None
          then show ?thesis using loop more False tok nz al ai(1) by simp
        next
          case (Some p)
          obtain bs m where p: "p = (bs, m)" by force
          with loop more False tok nz al Some obtain s3 st3 where cm: "commit_running w ?x bs m quantum ids b (s2, st2) = Inr (s3, st3)"
            by (auto split: sum.splits)
          have "run_inv s0 s3 st3" using commit_running_inv [OF cm ai(1)] ai(2) Some p by blast
          then show ?thesis
            using "1.hyps"(3) [OF more False tok refl refl refl refl nz al [unfolded Some] refl refl _ _ cm refl _ _ "1.prems"(3)] loop more False tok nz al Some p cm by simp
        qed
      qed
    qed
  next
    case False
    from loop [unfolded if_not_P [OF False]] inv show ?thesis by simp
  qed
qed

end
