(* ===== verification/Waiting_Phase.thy ===== *)
theory Waiting_Phase
  imports Running_Phase
begin

text \<open>
  The waiting phase of a scheduling step: each iteration either moves the request it looks at to the
  running list or to the list of skipped requests, or ends the scan; the token budget is never
  overdrawn and the number of running requests stays within its limit.
\<close>

section \<open>The invariant\<close>

definition places :: "sched \<Rightarrow> step \<Rightarrow> req_ref list" where
  "places s st = sc_running s @ wq_ids (sc_waiting s) @ wq_ids (st_skipped st) @ sc_mars_overflow s"

definition scheduled :: "step \<Rightarrow> req_ref list" where
  "scheduled st = st_new st @ st_resumed st @ st_running st"

text \<open>
  The previewed requests of LightLLM. A request in \<open>D\<close> has given up its preview and takes its slots next.
\<close>

definition previews_ok :: "req_ref set \<Rightarrow> sched \<Rightarrow> step \<Rightarrow> bool" where
  "previews_ok D s st \<longleftrightarrow> distinct (map fst (sc_ll_deferred s)) \<and>
     fst ` set (sc_ll_deferred s) \<subseteq> (set (wq_ids (sc_waiting s)) \<union> set (wq_ids (st_skipped st))) - D \<and>
     length (sc_running s) + length (sc_ll_deferred s) + card D \<le> sc_max_num_running_reqs s \<and>
     fst ` set (st_previews st) \<inter> set (wq_ids (sc_waiting s)) - D \<subseteq> fst ` set (sc_ll_deferred s)"

definition wait_inv :: "sched \<Rightarrow> req_ref set \<Rightarrow> sched \<Rightarrow> step \<Rightarrow> bool" where
  "wait_inv s0 D s st \<longleftrightarrow> (\<forall>x. request_id (sc_objs s x) = x) \<and> wq_wf (sc_waiting s) \<and> wq_wf (st_skipped st) \<and>
     distinct (places s st) \<and> mset (places s st) = mset (unfinished s0) \<and> limits s = limits s0 \<and> sc_policy s = sc_policy s0 \<and>
     (sc_policy s = MARS \<longrightarrow> (\<exists>m. sc_waiting s = MarsQ m)) \<and> length (sc_running s) \<le> sc_max_num_running_reqs s \<and>
     (sc_policy s = LIGHTLLM \<longrightarrow> previews_ok D s st) \<and>
     mset (map fst (st_num st)) = mset (scheduled st) \<and> distinct (scheduled st) \<and> set (scheduled st) \<subseteq> set (sc_running s) \<and>
     st_budget st + total_scheduled st = sc_max_num_scheduled_tokens s0 \<and> 0 \<le> st_budget st"

lemma wait_inv_frame:
  assumes "wait_inv s0 D s st" and "keeps s s'" and "sc_ll_deferred s' = sc_ll_deferred s"
  shows "wait_inv s0 D s' st"
proof -
  have eqs: "sc_running s' = sc_running s" "sc_waiting s' = sc_waiting s" "sc_mars_overflow s' = sc_mars_overflow s"
    "sc_policy s' = sc_policy s" "limits s' = limits s" "\<forall>x. request_id (sc_objs s' x) = x"
    using assms(1,2) by (simp_all add: keeps_def wait_inv_def)
  have "sc_max_num_running_reqs s' = sc_max_num_running_reqs s" using eqs(5) by (simp add: limits_def)
  then have "previews_ok D s st \<longrightarrow> previews_ok D s' st" using eqs assms(3) by (simp add: previews_ok_def)
  then show ?thesis using assms(1) eqs \<open>sc_max_num_running_reqs s' = _\<close> by (simp add: wait_inv_def places_def)
qed

text \<open>
  What a phase promises: leaving the iteration restores the invariant, and going on to the next request
  shortens the queue; proceeding leaves the queue and the budget for the next phase, with \<open>Q\<close> of the value.
\<close>

definition phase_ok :: "sched \<Rightarrow> req_ref set \<Rightarrow> ('a \<Rightarrow> bool) \<Rightarrow> sched \<Rightarrow> step \<Rightarrow> 'a phase \<Rightarrow> bool" where
  "phase_ok s0 D Q s st p = (case p of
       Leave c s' st' \<Rightarrow> wait_inv s0 {} s' st' \<and> (c \<longrightarrow> length (wq_ids (sc_waiting s')) < length (wq_ids (sc_waiting s)))
     | Proceed a s' st' \<Rightarrow> wait_inv s0 D s' st' \<and> sc_waiting s' = sc_waiting s \<and> sc_running s' = sc_running s \<and>
         st_budget st' = st_budget st \<and> Q a)"

lemma phase_ok_proceed:
  assumes "wait_inv s0 {} s st" and "keeps s s'" and "sc_ll_deferred s' = sc_ll_deferred s" and "Q a"
  shows "phase_ok s0 {} Q s st (Proceed a s' st)"
  using wait_inv_frame [OF assms(1-3)] assms(2,4) by (simp add: phase_ok_def keeps_def)

lemma pbind_phase_ok:
  assumes "pbind r f = Inr p" and "\<And>q. r = Inr q \<Longrightarrow> phase_ok s0 D Q s st q"
    and "\<And>a s' st'. wait_inv s0 D s' st' \<Longrightarrow> sc_waiting s' = sc_waiting s \<Longrightarrow> sc_running s' = sc_running s \<Longrightarrow>
      st_budget st' = st_budget st \<Longrightarrow> Q a \<Longrightarrow> f a s' st' = Inr p \<Longrightarrow> phase_ok s0 D' Q' s' st' p"
  shows "phase_ok s0 D' Q' s st p"
proof -
  from assms(1) obtain q where q: "r = Inr q" and c: "(case q of Leave c s st \<Rightarrow> Inr (Leave c s st) | Proceed a s st \<Rightarrow> f a s st) = Inr p"
    by (auto simp: pbind_def)
  show ?thesis
  proof (cases q)
    case (Leave c s1 st1)
    then show ?thesis using c assms(2) [OF q] by (auto simp: phase_ok_def)
  next
    case (Proceed a s1 st1)
    then have same: "wait_inv s0 D s1 st1" "sc_waiting s1 = sc_waiting s" "sc_running s1 = sc_running s" "st_budget st1 = st_budget st" "Q a"
      using assms(2) [OF q] by (simp_all add: phase_ok_def)
    moreover have "f a s1 st1 = Inr p" using Proceed c by simp
    ultimately have "phase_ok s0 D' Q' s1 st1 p" by (rule assms(3))
    then show ?thesis using same by (auto simp: phase_ok_def split: phase.splits)
  qed
qed

section \<open>Skipping\<close>

text \<open>The request at the head: popping the queue takes it out.\<close>

definition takes :: "req_ref \<Rightarrow> request_queue \<Rightarrow> request_queue \<Rightarrow> bool" where
  "takes x q q' \<longleftrightarrow> wq_wf q' \<and> mset (wq_ids q) = add_mset x (mset (wq_ids q')) \<and> (\<forall>m. q = MarsQ m \<longrightarrow> (\<exists>m'. q' = MarsQ m'))"

definition at_head :: "req_ref \<Rightarrow> request_queue \<Rightarrow> bool" where
  "at_head x q \<longleftrightarrow> x \<in> set (wq_ids q) \<and> (\<forall>y q'. wq_pop_request q = Inr (y, q') \<longrightarrow> takes x q q')"

lemma pop_mars: "wq_pop_pinned obj pinned (MarsQ m) = Inr (y, q') \<Longrightarrow> \<exists>m'. q' = MarsQ m'"
  by (auto simp: wq_pop_pinned_def wq_pop_request_def)

lemma peek_takes:
  assumes "wq_wf q0" and "wq_peek_request obj pinned q0 = Inr (x, q)"
  shows "at_head x q" "wq_pop_pinned obj pinned q = Inr (y, q') \<Longrightarrow> takes x q q'"
proof -
  have ids: "wq_ids q = wq_ids q0" "x \<in> set (wq_ids q0)" using wq_peek_ids [OF assms] by simp_all
  have pop: "takes x q q'" if "wq_pop_pinned obj pinned q = Inr (y, q')" for y q'
    using wq_peek_pop [OF assms that] ids(1) that pop_mars by (auto simp: takes_def)
  have "wq_pop_pinned obj pinned q = Inr (y, q')" if "wq_pop_request q = Inr (y, q')" for y q' by (rule wq_pop_is_pinned) (rule that)
  then show "at_head x q" using ids pop by (auto simp: at_head_def)
  show "wq_pop_pinned obj pinned q = Inr (y, q') \<Longrightarrow> takes x q q'" by (rule pop)
qed

lemma skipped_ok:
  assumes inv: "wait_inv s0 D s st" and t: "takes x (sc_waiting s) q" and "D \<subseteq> {x}"
    and k: "wq_wf k" "mset (wq_ids k) = add_mset x (mset (wq_ids (st_skipped st)))"
  shows "wait_inv s0 {} (s\<lparr>sc_waiting := q\<rparr>) (st\<lparr>st_skipped := k\<rparr>) \<and> length (wq_ids q) < length (wq_ids (sc_waiting s))"
proof -
  have m: "mset (wq_ids (sc_waiting s)) = add_mset x (mset (wq_ids q))" using t by (simp add: takes_def)
  have p: "mset (places (s\<lparr>sc_waiting := q\<rparr>) (st\<lparr>st_skipped := k\<rparr>)) = mset (places s st)" using m k(2) by (simp add: places_def)
  have sets: "set (wq_ids (sc_waiting s)) = insert x (set (wq_ids q))" "set (wq_ids k) = insert x (set (wq_ids (st_skipped st)))"
    using mset_eq_setD [of "wq_ids (sc_waiting s)" "x # wq_ids q"] mset_eq_setD [of "wq_ids k" "x # wq_ids (st_skipped st)"] m k(2) by simp_all
  have fresh: "x \<notin> set (wq_ids q)" using inv distinct_add [OF m] by (simp add: wait_inv_def places_def)
  have "length (wq_ids q) < length (wq_ids (sc_waiting s))" using m by (metis size_mset size_add_mset lessI)
  moreover have "previews_ok {} (s\<lparr>sc_waiting := q\<rparr>) (st\<lparr>st_skipped := k\<rparr>)" if "previews_ok D s st"
    using that sets assms(3) fresh by (auto simp: previews_ok_def subset_singleton_iff)
  moreover have "distinct (places (s\<lparr>sc_waiting := q\<rparr>) (st\<lparr>st_skipped := k\<rparr>))" using inv mset_eq_imp_distinct_iff [OF p] by (simp add: wait_inv_def)
  ultimately show ?thesis using inv t k(1) p by (auto simp: wait_inv_def takes_def limits_def scheduled_def total_scheduled_def)
qed

lemma wait_inv_fresh: "wait_inv s0 D s st \<Longrightarrow> x \<in> set (wq_ids (sc_waiting s)) \<Longrightarrow> x \<notin> set (wq_ids (st_skipped st)) \<and> x \<notin> set (sc_running s)"
  by (auto simp: wait_inv_def places_def)

lemma takes_in: "takes x q q' \<Longrightarrow> x \<in> set (wq_ids q)"
  unfolding takes_def by (metis set_mset_mset union_single_eq_member)

lemma skip_request_ok:
  assumes "skip_request popped x s st = Inr p" and inv: "wait_inv s0 {} s st" and "\<And>y q. popped = Inr (y, q) \<Longrightarrow> takes x (sc_waiting s) q"
  shows "phase_ok s0 D Q s st p"
proof -
  from assms(1) obtain y q k where pq: "popped = Inr (y, q)" "wq_prepend_request (sc_objs s x) (q_idx_of s x) (st_skipped st) = Inr k"
    "p = Leave True (s\<lparr>sc_waiting := q\<rparr>) (st\<lparr>st_skipped := k\<rparr>)"
    by (auto simp: skip_request_def)
  note t = assms(3) [OF pq(1)]
  have "x \<notin> set (wq_ids (st_skipped st))" using wait_inv_fresh [OF inv takes_in [OF t]] by simp
  then have "wq_wf k" "mset (wq_ids k) = add_mset x (mset (wq_ids (st_skipped st)))"
    using wq_prepend_ids [OF _ _ pq(2)] inv by (simp_all add: wait_inv_def)
  from skipped_ok [OF inv t _ this] show ?thesis using pq(3) by (simp add: phase_ok_def)
qed

section \<open>Gates\<close>

lemma update_waiting_for_remote_kv_keeps:
  assumes "update_waiting_for_remote_kv w x s = Inr (ok, s')"
  shows "keeps s s' \<and> sc_ll_deferred s' = sc_ll_deferred s \<and> (\<not> ok \<longrightarrow> s' = s)"
  using assms by (auto simp: update_waiting_for_remote_kv_def keeps_def upd_obj_def limits_def Let_def split: if_splits list.splits)

lemma status_gate_ok:
  assumes "status_gate w x s st = Inr p" and inv: "wait_inv s0 {} s st"
    and pop: "\<And>y q. wq_pop_pinned (sc_objs s) (sc_pinned s) (sc_waiting s) = Inr (y, q) \<Longrightarrow> takes x (sc_waiting s) q"
  shows "phase_ok s0 {} (\<lambda>_. True) s st p"
proof -
  let ?not_ready = "if sc_policy s = LIGHTLLM then Inr (Leave False s st)
    else skip_request (wq_pop_pinned (sc_objs s) (sc_pinned s) (sc_waiting s)) x s st"
  have not_ready: ?thesis if "?not_ready = Inr p"
    using that inv skip_request_ok [OF _ inv pop] by (auto simp: phase_ok_def split: if_splits)
  have ready: ?thesis if "p = Proceed () (upd_obj x (\<lambda>r. r\<lparr>status := WAITING\<rparr>) t) st" "keeps s t" "sc_ll_deferred t = sc_ll_deferred s" for t
  proof -
    have "keeps s (upd_obj x (\<lambda>r. r\<lparr>status := WAITING\<rparr>) t)" using that(2) by (simp add: keeps_upd_obj)
    then show ?thesis unfolding that(1) by (rule phase_ok_proceed [OF inv]) (simp_all add: upd_obj_def that(3))
  qed
  show ?thesis
  proof (cases "status (sc_objs s x) = WAITING_FOR_REMOTE_KVS")
    case True
    with assms(1) obtain ok s1 where u: "update_waiting_for_remote_kv w x s = Inr (ok, s1)"
      and p: "(if ok then Inr (Proceed () (upd_obj x (\<lambda>r. r\<lparr>status := WAITING\<rparr>) s1) st)
        else if sc_policy s1 = LIGHTLLM then Inr (Leave False s1 st)
        else skip_request (wq_pop_pinned (sc_objs s1) (sc_pinned s1) (sc_waiting s1)) x s1 st) = Inr p"
      by (auto simp: status_gate_def Let_def)
    show ?thesis using update_waiting_for_remote_kv_keeps [OF u] p not_ready ready [of s1] by (cases ok) auto
  next
    case False
    then show ?thesis using assms(1) not_ready ready [of s] phase_ok_proceed [OF inv keeps_refl refl, where Q = "\<lambda>_. True"]
      by (auto simp: status_gate_def Let_def split: if_splits)
  qed
qed

lemma head_skip_ok:
  "skip_request (wq_pop_request (sc_waiting s)) x s st = Inr p \<Longrightarrow> wait_inv s0 {} s st \<Longrightarrow> at_head x (sc_waiting s) \<Longrightarrow> phase_ok s0 D Q s st p"
  by (rule skip_request_ok) (auto simp: at_head_def)

lemma lora_gate_ok:
  assumes "lora_gate x s st = Inr p" and "wait_inv s0 {} s st" and "at_head x (sc_waiting s)"
  shows "phase_ok s0 {} (\<lambda>_. True) s st p"
  using assms phase_ok_proceed [OF assms(2) keeps_refl refl, where Q = "\<lambda>_. True"] head_skip_ok [OF _ assms(2,3)]
  by (auto simp: lora_gate_def split: option.splits if_splits)

text \<open>Making a preview again takes the request out of the deferred requests and puts it back.\<close>

lemma previews_drop:
  assumes "wait_inv s0 {} s st" and "sc_policy s = LIGHTLLM" and "map_of (sc_ll_deferred s) x = Some pv"
  shows "wait_inv s0 {x} (s\<lparr>sc_ll_deferred := AList.delete x (sc_ll_deferred s)\<rparr>) st"
proof -
  let ?d = "sc_ll_deferred s"
  have ok: "previews_ok {} s st" using assms(1,2) by (simp add: wait_inv_def)
  have d: "distinct (map fst ?d)" using ok by (simp add: previews_ok_def)
  have "x \<in> set (map fst ?d)" using map_of_SomeD [OF assms(3)] by force
  note d = d this
  then have "map fst (AList.delete x ?d) = remove1 x (map fst ?d)" by (intro keys_delete)
  then have "length (map fst (AList.delete x ?d)) + 1 = length (map fst ?d)"
    using d(2) length_pos_if_in_set [OF d(2)] by (simp only: length_remove1 if_True)
  then have len: "length (AList.delete x ?d) + 1 = length ?d" by simp
  have keys: "fst ` set (AList.delete x ?d) = fst ` set ?d - {x}" by (auto simp: AList_delete_filter)
  have dist: "distinct (map fst (AList.delete x ?d))" using d(1) by (simp add: AList_delete_filter distinct_map_filter)
  have "previews_ok {x} (s\<lparr>sc_ll_deferred := AList.delete x ?d\<rparr>) st"
    using ok len keys dist by (auto simp: previews_ok_def)
  then show ?thesis using assms(1) by (simp add: wait_inv_def places_def limits_def)
qed

lemma previews_put:
  assumes "wait_inv s0 {x} s st" and "sc_policy s = LIGHTLLM" and "x \<in> set (wq_ids (sc_waiting s))"
    and "fst ` set pvs \<subseteq> insert x (fst ` set (st_previews st))"
  shows "wait_inv s0 {} (s\<lparr>sc_ll_deferred := AList.update x pv (sc_ll_deferred s)\<rparr>) (st\<lparr>st_previews := pvs\<rparr>)"
proof -
  let ?d = "sc_ll_deferred s"
  have ok: "previews_ok {x} s st" using assms(1,2) by (simp add: wait_inv_def)
  then have "x \<notin> fst ` set ?d" by (auto simp: previews_ok_def)
  then have "AList.update x pv ?d = ?d @ [(x, pv)]" "x \<notin> set (map fst ?d)" by (auto simp: AList_update_fresh)
  have cover: "P \<subseteq> insert x Q \<Longrightarrow> Q \<inter> W - {x} \<subseteq> D \<Longrightarrow> P \<inter> W \<subseteq> insert x D" for P Q W D :: "req_ref set" by blast
  have "fst ` set pvs \<inter> set (wq_ids (sc_waiting s)) \<subseteq> insert x (fst ` set ?d)" 
    using ok cover [OF assms(4)] by (simp add: previews_ok_def)
  with \<open>AList.update x pv ?d = _\<close> \<open>x \<notin> set (map fst ?d)\<close> have "previews_ok {} (s\<lparr>sc_ll_deferred := AList.update x pv ?d\<rparr>) (st\<lparr>st_previews := pvs\<rparr>)"
    using ok assms(3) by (auto simp: previews_ok_def)
  then show ?thesis using assms(1) by (simp add: wait_inv_def places_def limits_def scheduled_def total_scheduled_def)
qed

lemma refresh_preview_ok:
  assumes "refresh_preview w x pv s st = Inr (pv', s', st')" and inv: "wait_inv s0 {} s st" and "sc_policy s = LIGHTLLM"
    and "x \<in> set (wq_ids (sc_waiting s))" and "map_of (st_previews st) x = Some pv"
  shows "wait_inv s0 {} s' st' \<and> sc_waiting s' = sc_waiting s \<and> sc_running s' = sc_running s \<and> sc_policy s' = sc_policy s \<and>
    st_budget st' = st_budget st \<and> st_skipped st' = st_skipped st"
proof (cases "lightllm_block_signature (km_pool (sc_kv s)) (pv_blocks pv) = pv_signature pv")
  case True
  then show ?thesis using assms by (simp add: refresh_preview_def)
next
  case False
  have "x \<in> fst ` set (st_previews st)" using map_of_SomeD [OF assms(5)] by force
  then have "x \<in> fst ` set (sc_ll_deferred s)" using inv assms(3,4) by (auto simp: wait_inv_def previews_ok_def)
  then obtain old where old: "map_of (sc_ll_deferred s) x = Some old" by (metis map_of_eq_None_iff not_Some_eq)
  let ?drop = "s\<lparr>sc_ll_deferred := AList.delete x (sc_ll_deferred s)\<rparr>"
  obtain s1 k new s2 where r: "lightllm_release_prefix_blocks old ?drop = Inr s1" "lightllm_reserve_prefix_blocks new (s1\<lparr>sc_kv := k\<rparr>) = Inr s2"
    "s' = s2\<lparr>sc_ll_deferred := AList.update x new (sc_ll_deferred s2)\<rparr>" "st' = st\<lparr>st_previews := AList.update x new (st_previews st)\<rparr>"
    using assms(1) False old unfolding refresh_preview_def lightllm_drop_deferred_def by (auto simp: Let_def)
  have k1: "keeps ?drop s1" "sc_ll_deferred s1 = sc_ll_deferred ?drop" using lightllm_release_keeps [OF r(1)] by simp_all
  have k2: "keeps (s1\<lparr>sc_kv := k\<rparr>) s2" "sc_ll_deferred s2 = sc_ll_deferred s1" using lightllm_reserve_keeps [OF r(2)] by simp_all
  have k3: "keeps s1 (s1\<lparr>sc_kv := k\<rparr>)" by simp
  have k: "keeps ?drop s2" "sc_ll_deferred s2 = sc_ll_deferred ?drop" using keeps_trans [OF k1(1) keeps_trans [OF k3 k2(1)]] k1(2) k2(2) by simp_all
  have "wait_inv s0 {x} s2 st" by (rule wait_inv_frame [OF previews_drop [OF inv assms(3) old] k])
  moreover have "sc_waiting s2 = sc_waiting s" "sc_running s2 = sc_running s" "sc_policy s2 = sc_policy s" using k(1) by (simp_all add: keeps_def)
  moreover have "fst ` set (AList.update x new (st_previews st)) \<subseteq> insert x (fst ` set (st_previews st))"
    using image_mono [OF AList_update_subset [of x new "st_previews st"], of fst] by simp
  ultimately show ?thesis using previews_put [of s0 x s2 st "AList.update x new (st_previews st)" new] r(3,4) assms(3,4) by simp
qed

lemma lightllm_gate_ok:
  assumes "lightllm_gate w x s st = Inr p" and inv: "wait_inv s0 {} s st" and head: "at_head x (sc_waiting s)"
  shows "phase_ok s0 {} (\<lambda>_. True) s st p"
proof (cases "sc_policy s = LIGHTLLM")
  case True
  show ?thesis
  proof (cases "map_of (st_previews st) x")
    case None
    then show ?thesis using assms(1,2) True by (auto simp: lightllm_gate_def phase_ok_def)
  next
    case (Some pv)
    with assms(1) True obtain pv1 s1 st1 where r: "refresh_preview w x pv s st = Inr (pv1, s1, st1)"
      and cases: "p = Proceed (Some pv1) s1 st1 \<or> (\<exists>y q k. wq_pop_request (sc_waiting s1) = Inr (y, q) \<and>
        wq_add_request (sc_objs s1 x) (q_idx_of s1 x) (st_skipped st1) = Inr k \<and> p = Leave True (s1\<lparr>sc_waiting := q\<rparr>) (st1\<lparr>st_skipped := k\<rparr>))"
      by (auto simp: lightllm_gate_def Let_def split: if_splits)
    have xin: "x \<in> set (wq_ids (sc_waiting s))" using head by (simp add: at_head_def)
    note ok = refresh_preview_ok [OF r inv True xin Some]
    from cases show ?thesis
    proof (elim disjE exE conjE)
      fix y q k
      assume q: "wq_pop_request (sc_waiting s1) = Inr (y, q)" "wq_add_request (sc_objs s1 x) (q_idx_of s1 x) (st_skipped st1) = Inr k"
        "p = Leave True (s1\<lparr>sc_waiting := q\<rparr>) (st1\<lparr>st_skipped := k\<rparr>)"
      have t: "takes x (sc_waiting s1) q" using head q(1) ok by (simp add: at_head_def)
      have inv1: "wait_inv s0 {} s1 st1" using ok by simp
      have "x \<notin> set (wq_ids (st_skipped st1))" using wait_inv_fresh [OF inv1] xin ok by simp
      then have "wq_wf k" "mset (wq_ids k) = add_mset x (mset (wq_ids (st_skipped st1)))"
        using wq_add_ids [OF _ _ q(2)] inv1 by (simp_all add: wait_inv_def)
      from skipped_ok [OF inv1 t _ this] show ?thesis using q(3) ok by (simp add: phase_ok_def)
    qed (use ok in \<open>simp add: phase_ok_def\<close>)
  qed
next
  case False
  then show ?thesis using assms(1) phase_ok_proceed [OF inv keeps_refl refl, where Q = "\<lambda>_. True"] by (auto simp: lightllm_gate_def)
qed

section \<open>Tokens\<close>

lemma rbind_triple: "rbind r (\<lambda>((a, b), c). f a b c) = Inr y \<Longrightarrow> \<exists>a b c. f a b c = Inr y"
  by (cases r) auto

lemma cached_tokens_ok:
  assumes "cached_tokens w x preview s st = Inr p" and inv: "wait_inv s0 {} s st" and head: "at_head x (sc_waiting s)"
  shows "phase_ok s0 {} (\<lambda>_. True) s st p"
proof -
  have kv: "wait_inv s0 {} (s\<lparr>sc_kv := k\<rparr>) st" for k by (rule wait_inv_frame [OF inv]) simp_all
  have go: "phase_ok s0 {} (\<lambda>_. True) s st (Proceed a (s\<lparr>sc_kv := k\<rparr>) st)" for a :: cached_part and k
    by (rule phase_ok_proceed [OF inv]) simp_all
  have skip: "phase_ok s0 {} (\<lambda>_. True) s st p" if "skip_request (wq_pop_request (sc_waiting s)) x (s\<lparr>sc_kv := k\<rparr>) st = Inr p" for k
    using head_skip_ok [OF _ kv [of k], of x p "{}" "\<lambda>_. True"] that head by (simp add: phase_ok_def split: phase.splits)
  show ?thesis
  proof (cases "num_computed_tokens (sc_objs s x) = 0")
    case True
    define next_part where "next_part = (\<lambda>bs n k. if w_connector_class w = None
        then Inr (Proceed \<lparr>cp_blocks = bs, cp_local = n, cp_external = 0, cp_total = n, cp_async = False\<rparr> (s\<lparr>sc_kv := k\<rparr>) st)
        else (case w_conn_matched w (sc_objs s x) n of
            (None, _) \<Rightarrow> skip_request (wq_pop_request (sc_waiting (s\<lparr>sc_kv := k\<rparr>))) x (s\<lparr>sc_kv := k\<rparr>) st
          | (Some ext, async) \<Rightarrow> Inr (Proceed \<lparr>cp_blocks = bs, cp_local = n, cp_external = ext, cp_total = n + ext, cp_async = async\<rparr> (s\<lparr>sc_kv := k\<rparr>) st)))"
    have "cached_tokens w x preview s st = rbind (if sc_policy s = LIGHTLLM
        then (case preview of None \<Rightarrow> Inl AssertionError | Some pv \<Rightarrow> Inr ((pv_blocks pv, pv_hit_tokens pv), sc_kv s))
        else get_computed_blocks (w_now w) (sc_objs s x) (sc_kv s)) (\<lambda>((bs, n), k). next_part bs n k)"
      unfolding cached_tokens_def next_part_def Let_def by (simp only: True if_True refl)
    then have "\<exists>bs n k. next_part bs n k = Inr p" unfolding assms(1) by (intro rbind_triple) (rule sym)
    then obtain bs n k where "next_part bs n k = Inr p" by blast
    then show ?thesis using skip go by (auto simp: next_part_def split: if_splits option.splits prod.splits)
  next
    case False
    then show ?thesis using assms(1) go [of _ "sc_kv s"] by (auto simp: cached_tokens_def Let_def)
  qed
qed

lemma new_tokens_ok:
  assumes "new_tokens w x cp s st = Inr p" and inv: "wait_inv s0 {} s st" and head: "at_head x (sc_waiting s)" and lim: "limits_ok s0"
  shows "phase_ok s0 {} (\<lambda>np. 0 \<le> np_tokens np \<and> np_tokens np \<le> st_budget st) s st p"
proof (cases "cp_async cp")
  case True
  then show ?thesis using assms(1) inv by (auto simp: new_tokens_def phase_ok_def wait_inv_def split: if_splits)
next
  case False
  let ?n = "threshold_cap s (num_tokens (sc_objs s x) - cp_total cp)"
  show ?thesis
  proof (cases "\<not> sc_chunked_prefill s \<and> ?n > st_budget st")
    case True
    then show ?thesis using assms(1) False head_skip_ok [OF _ inv head] by (simp add: new_tokens_def Let_def)
  next
    case chunk: False
    obtain n1 quantum s1 where cap: "policy_cap w x (cp_total cp) (min ?n (st_budget st)) s = (n1, quantum, s1)" by (rule prod_cases3)
    have pos: "\<not> min ?n (st_budget st) \<le> 0" using assms(1) False chunk by (auto simp: new_tokens_def Let_def)
    with assms(1) False chunk cap obtain ids n budget s2 where enc: "encoder_cap x (cp_total cp) n1 (st_enc_budget st) s1 = Inr (ids, n, budget, s2)"
      and p: "p = Leave False s2 st \<or> p = Proceed \<lparr>np_tokens = n, np_quantum = quantum, np_enc = ids, np_enc_budget = budget\<rparr> s2 st"
      unfolding new_tokens_def Let_def by (auto split: if_splits)
    have "limits_ok s" using lim limits_ok_cong [of s s0] inv by (simp add: wait_inv_def)
    moreover have "0 \<le> min ?n (st_budget st)" using pos by linarith
    ultimately obtain a where c1: "0 \<le> n1" "n1 \<le> min ?n (st_budget st)" "s1 = s\<lparr>sc_attrs := a\<rparr>"
      using policy_cap_bound [OF cap] by blast
    from encoder_cap_bound [OF enc c1(1)] obtain c where c2: "0 \<le> n" "n \<le> n1" "s2 = s1\<lparr>sc_encoder := c\<rparr>" by blast
    have "wait_inv s0 {} s2 st" by (rule wait_inv_frame [OF inv]) (simp_all add: c1(3) c2(3))
    then show ?thesis using p c1 c2 by (auto simp: phase_ok_def)
  qed
qed

section \<open>Slots\<close>

lemma alloc_waiting_bound:
  assumes "alloc_waiting x cp enc attempt s = Inr (res, s')" and "0 \<le> attempt"
  shows "(\<exists>k. s' = s\<lparr>sc_kv := k\<rparr>) \<and> (\<forall>bs n. res = Some (bs, n) \<longrightarrow> 0 \<le> n \<and> n \<le> attempt)"
  using assms
proof (induction x cp enc attempt s rule: alloc_waiting.induct)
  case (1 x cp enc attempt s)
  from "1.prems"(1) obtain b k where a: "allocate_slots (sc_objs s x) (attempt + cp_external cp) (cp_local cp) (Some (cp_blocks cp))
      (if num_computed_tokens (sc_objs s x) = 0 then 0 else sc_num_lookahead s) (cp_async cp) enc (sc_kv s) = Inr (b, k)"
    unfolding alloc_waiting.simps [of x cp enc attempt s] by (cases "allocate_slots (sc_objs s x) (attempt + cp_external cp) (cp_local cp) (Some (cp_blocks cp))
      (if num_computed_tokens (sc_objs s x) = 0 then 0 else sc_num_lookahead s) (cp_async cp) enc (sc_kv s)") (simp, metis surj_pair)
  let ?again = "sc_policy s = MARS \<and> \<not> cp_async cp \<and> cp_total cp < num_prompt_tokens (sc_objs s x) \<and> attempt > int (sc_block_size s)"
  show ?case
  proof (cases "b = None \<and> ?again")
    case True
    then have rec: "alloc_waiting x cp enc (max (int (sc_block_size s)) (attempt div 2)) (s\<lparr>sc_kv := k\<rparr>) = Inr (res, s')"
      using "1.prems"(1) [unfolded alloc_waiting.simps [of x cp enc attempt s]] a by (simp only: sum.case prod.case option.case if_True simp_thms)
    have half: "0 \<le> max (int (sc_block_size s)) (attempt div 2)" "max (int (sc_block_size s)) (attempt div 2) \<le> attempt" using True by auto
    have again: ?again using True by simp
    have "allocate_slots (sc_objs s x) (attempt + cp_external cp) (cp_local cp) (Some (cp_blocks cp))
      (if num_computed_tokens (sc_objs s x) = 0 then 0 else sc_num_lookahead s) (cp_async cp) enc (sc_kv s) = Inr (None, k)" using a True by simp
    from "1.IH" [OF this refl refl again rec half(1)] half(2) show ?thesis by auto
  next
    case False
    have "alloc_waiting x cp enc attempt s = Inr (map_option (\<lambda>bs. (bs, attempt)) b, s\<lparr>sc_kv := k\<rparr>)"
    proof (cases b)
      case None
      then have "\<not> ?again" using False by simp
      then show ?thesis using a None by (subst alloc_waiting.simps) (simp only: sum.case prod.case option.case if_False option.map)
    next
      case (Some bs)
      then show ?thesis using a by (subst alloc_waiting.simps) simp
    qed
    then show ?thesis using "1.prems" by auto
  qed
qed

lemma release_preview_ok:
  assumes "release_preview x preview s = Inr s'" and inv: "wait_inv s0 {} s st"
  shows "wait_inv s0 {x} s' st \<and> sc_waiting s' = sc_waiting s \<and> sc_running s' = sc_running s \<and>
    (sc_policy s = LIGHTLLM \<longrightarrow> preview \<noteq> None) \<and> sc_policy s' = sc_policy s"
proof (cases "sc_policy s = LIGHTLLM")
  case True
  with assms(1) obtain pv where pv: "preview = Some pv" "map_of (sc_ll_deferred s) x = Some pv"
    and r: "lightllm_release_prefix_blocks pv (s\<lparr>sc_ll_deferred := AList.delete x (sc_ll_deferred s)\<rparr>) = Inr s'"
    by (auto simp: release_preview_def split: option.splits if_splits)
  have k: "keeps (s\<lparr>sc_ll_deferred := AList.delete x (sc_ll_deferred s)\<rparr>) s'"
    "sc_ll_deferred s' = sc_ll_deferred (s\<lparr>sc_ll_deferred := AList.delete x (sc_ll_deferred s)\<rparr>)" using lightllm_release_keeps [OF r] by simp_all
  show ?thesis using wait_inv_frame [OF previews_drop [OF inv True pv(2)] k] k(1) pv(1) by (simp add: keeps_def)
next
  case False
  then show ?thesis using assms by (simp add: release_preview_def wait_inv_def)
qed

lemma keep_preview_ok:
  assumes "keep_preview x preview s = Inr s'" and inv: "wait_inv s0 {x} s st" and "x \<in> set (wq_ids (sc_waiting s))"
    and "sc_policy s = LIGHTLLM \<longrightarrow> preview \<noteq> None"
  shows "wait_inv s0 {} s' st"
proof (cases "sc_policy s = LIGHTLLM")
  case True
  with assms(4) obtain pv where "preview = Some pv" by blast
  with assms(1) True obtain s1 where s1: "lightllm_reserve_prefix_blocks pv s = Inr s1" "s' = s1\<lparr>sc_ll_deferred := AList.update x pv (sc_ll_deferred s1)\<rparr>"
    by (auto simp: keep_preview_def)
  note k = lightllm_reserve_keeps [OF s1(1)]
  have "wait_inv s0 {x} s1 st" by (rule wait_inv_frame [OF inv]) (simp_all add: k)
  from previews_put [OF this, of "st_previews st" pv] show ?thesis using k s1(2) True assms(3) by (auto simp: keeps_def)
next
  case False
  then have "s' = s" using assms(1) by (cases "sc_policy s") (simp_all add: keep_preview_def)
  then show ?thesis using inv False by (simp add: wait_inv_def)
qed

lemma release_retained_ok:
  assumes "release_retained w s st = Inr (s', st')" and inv: "wait_inv s0 {} s st"
  shows "wait_inv s0 {} s' st'"
proof (cases "sc_running s = [] \<and> sc_pinned s \<noteq> [] \<and> sc_policy s \<in> {CONTINUUM, CONTINUUM_DY, INFERCEPT, INFERCEPT_SWAP}")
  case True
  obtain y where y: "pop_running_request_based_on_last_step s = Inr y" and rest: "(case y of (v, _, s) \<Rightarrow>
      rbind (km_free (sc_objs s v) (sc_kv s)) (\<lambda>k. rbind (enc_free (w_set_order w) (sc_objs s v) (sc_encoder s)) (\<lambda>c.
        Inr (s\<lparr>sc_kv := k, sc_encoder := c\<rparr>, st\<lparr>st_running := remove1 v (st_running st)\<rparr>)))) = (Inr (s', st') :: (sched \<times> step) result)"
    using assms(1) unfolding release_retained_def if_P [OF True] by (rule rbindE) (erule (1) that)
  obtain v u s1 where y3: "y = (v, u, s1)" by (rule prod_cases3)
  then have v: "pop_running_request_based_on_last_step s = Inr (v, u, s1)" using y by simp
  from rest y3 obtain k c where s': "s' = s1\<lparr>sc_kv := k, sc_encoder := c\<rparr>" "st' = st\<lparr>st_running := remove1 v (st_running st)\<rparr>"
    by auto
  from v have "\<exists>p. s1 = s\<lparr>sc_pinned := p\<rparr>"
  proof (cases rule: pop_running_cases)
    case Pin
    then show ?thesis by blast
  next
    case Run
    then show ?thesis using True by simp
  qed
  then obtain p where p: "s1 = s\<lparr>sc_pinned := p\<rparr>" by blast
  have "st_running st = []" using inv True by (simp add: wait_inv_def scheduled_def)
  then have st: "st' = st" using s'(2) by simp
  show ?thesis unfolding st by (rule wait_inv_frame [OF inv]) (simp_all add: s'(1) p)
next
  case False
  then have "(s', st') = (s, st)" using assms(1) by (simp only: release_retained_def if_False sum.inject)
  then show ?thesis using inv by simp
qed

end
