(* ===== verification/Waiting_Scan.thy ===== *)
theory Waiting_Scan
  imports Waiting_Phase
begin

text \<open>
  Admission in the waiting phase, the whole iteration and the scan: it ends, because every iteration that
  goes on takes a request out of the queue, and it keeps the invariant of the waiting phase.
\<close>

section \<open>Slots\<close>

lemma take_slots_ok:
  assumes "take_slots w x preview cp n s st = Inr p" and inv: "wait_inv s0 {} s st" and "x \<in> set (wq_ids (sc_waiting s))" and "0 \<le> n"
  shows "phase_ok s0 {x} (\<lambda>m. 0 \<le> m \<and> m \<le> n) s st p"
proof -
  obtain enc s1 y where rel: "release_preview x preview s = Inr s1" and al: "alloc_waiting x cp enc n s1 = Inr y"
    and rest: "(case y of (res, s) \<Rightarrow> case res of Some (_, n) \<Rightarrow> Inr (Proceed n s st)
      | None \<Rightarrow> rbind (keep_preview x preview s) (\<lambda>s. rbind (release_retained w s st) (\<lambda>(s, st). Inr (Leave False s st)))) = (Inr p :: int phase result)"
    using assms(1) unfolding take_slots_def by (elim rbindE) (erule (2) that)
  obtain res s2 where y: "y = (res, s2)" by (rule prod.exhaust)
  note r1 = release_preview_ok [OF rel inv]
  from alloc_waiting_bound [OF al [unfolded y] assms(4)] obtain k where s2: "s2 = s1\<lparr>sc_kv := k\<rparr>"
    and n: "\<And>bs m. res = Some (bs, m) \<Longrightarrow> 0 \<le> m \<and> m \<le> n" by blast
  have inv2: "wait_inv s0 {x} s2 st" by (rule wait_inv_frame [OF conjunct1 [OF r1]]) (simp_all add: s2)
  show ?thesis
  proof (cases res)
    case None
    with rest y obtain s3 s4 st4 where k: "keep_preview x preview s2 = Inr s3" "release_retained w s3 st = Inr (s4, st4)" "p = Leave False s4 st4" by auto
    have "wait_inv s0 {} s3 st" using keep_preview_ok [OF k(1) inv2] r1 s2 assms(3) by simp
    from release_retained_ok [OF k(2) this] show ?thesis using k(3) by (simp add: phase_ok_def)
  next
    case (Some b)
    obtain bs m where "b = (bs, m)" by (rule prod.exhaust)
    then show ?thesis using rest y Some n inv2 r1 s2 by (auto simp: phase_ok_def)
  qed
qed

section \<open>Admission\<close>

lemma removed_takes:
  assumes "wq_remove_request x q = Inr q'" and "wq_wf q" and "x \<in> set (wq_ids q)"
  shows "takes x q q'"
proof -
  have "\<exists>m'. q' = MarsQ m'" if "q = MarsQ m" for m using assms(1) that by (auto simp: wq_remove_request_def)
  then show ?thesis using wq_remove_ids [OF assms(2,1,3)] by (simp add: takes_def)
qed

lemma admitted_ok:
  assumes inv: "wait_inv s0 {x} s st" and t: "takes x (sc_waiting s) q" and room: "length (sc_running s) < sc_max_num_running_reqs s"
    and n: "n \<le> st_budget st" and st': "mset (scheduled st') = add_mset x (mset (scheduled st))" "st_num st' = AList.update x n (st_num st)"
      "st_budget st' = st_budget st - n" "st_skipped st' = st_skipped st" "st_previews st' = st_previews st"
  shows "wait_inv s0 {} (s\<lparr>sc_waiting := q, sc_running := sc_running s @ [x]\<rparr>) st'" "length (wq_ids q) < length (wq_ids (sc_waiting s))"
proof -
  let ?s = "s\<lparr>sc_waiting := q, sc_running := sc_running s @ [x]\<rparr>"
  have m: "mset (wq_ids (sc_waiting s)) = add_mset x (mset (wq_ids q))" using t by (simp add: takes_def)
  show "length (wq_ids q) < length (wq_ids (sc_waiting s))" using m by (metis size_mset size_add_mset lessI)
  have set: "set (wq_ids (sc_waiting s)) = insert x (set (wq_ids q))"
    using mset_eq_setD [of "wq_ids (sc_waiting s)" "x # wq_ids q"] m by simp
  have fresh: "x \<notin> set (sc_running s)" "x \<notin> set (wq_ids q)" "x \<notin> set (wq_ids (st_skipped st))"
    using inv distinct_add [OF m] set by (auto simp: wait_inv_def places_def)
  have p: "mset (places ?s st') = mset (places s st)" using m st'(4) by (simp add: places_def)
  have dp: "distinct (places ?s st')" using inv mset_eq_imp_distinct_iff [OF p] by (simp add: wait_inv_def)
  have nx: "x \<notin> set (scheduled st)" using inv fresh(1) by (auto simp: wait_inv_def)
  then have "x \<notin> fst ` set (st_num st)" using inv mset_eq_setD [of "map fst (st_num st)" "scheduled st"] by (auto simp: wait_inv_def)
  then have num: "st_num st' = st_num st @ [(x, n)]" using st'(2) by (simp add: AList_update_fresh)
  have sched: "set (scheduled st') = insert x (set (scheduled st))" "distinct (scheduled st')"
    using mset_eq_setD [of "scheduled st'" "x # scheduled st"] mset_eq_imp_distinct_iff [of "scheduled st'" "x # scheduled st"] st'(1) inv nx
    by (simp_all add: wait_inv_def)
  have "previews_ok {} ?s st'" if "previews_ok {x} s st" using that set fresh st'(4,5) by (auto simp: previews_ok_def)
  then show "wait_inv s0 {} ?s st'" using inv t room n p dp num sched st'(1,3,4)
    by (auto simp: wait_inv_def takes_def limits_def total_scheduled_def)
qed

lemma note_admitted_frame:
  assumes "note_admitted w x s st = Inr (s', st')"
  shows "keeps s s' \<and> sc_ll_deferred s' = sc_ll_deferred s \<and> sc_waiting s' = sc_waiting s \<and>
    (st' = st\<lparr>st_new := st_new st @ [x]\<rparr> \<or> st' = st\<lparr>st_resumed := st_resumed st @ [x]\<rparr>)"
  using assms by (auto simp: note_admitted_def keeps_def limits_def split: if_splits)

lemma keeps_obj: "keeps s t \<Longrightarrow> (\<And>r. request_id (f r) = request_id r) \<Longrightarrow> keeps s (upd_obj x f t) \<and> sc_ll_deferred (upd_obj x f t) = sc_ll_deferred t"
  by (simp add: keeps_upd_obj) (simp add: upd_obj_def)

lemma admit_async_ok:
  assumes "cp_async cp" and "admit w x cp np n s st = Inr p" and inv: "wait_inv s0 {x} s st" and xin: "x \<in> set (wq_ids (sc_waiting s))"
  shows "phase_ok s0 D Q s st p"
proof -
  from assms(1,2) obtain q k where q: "wq_remove_request x (sc_waiting s) = Inr q"
    and k: "wq_prepend_request (sc_objs s x) (q_idx_of (s\<lparr>sc_waiting := q\<rparr>) x) (st_skipped st) = Inr k"
    and p: "p = Leave True (upd_obj x (\<lambda>r. r\<lparr>status := WAITING_FOR_REMOTE_KVS\<rparr>) (s\<lparr>sc_waiting := q\<rparr>)) (st\<lparr>st_skipped := k\<rparr>)"
    by (auto simp: admit_def Let_def)
  have wf: "wq_wf (sc_waiting s)" using inv by (simp add: wait_inv_def)
  note t = removed_takes [OF q wf xin]
  have "wq_wf k" "mset (wq_ids k) = add_mset x (mset (wq_ids (st_skipped st)))"
    using wq_prepend_ids [OF _ _ k] inv wait_inv_fresh [OF inv xin] by (simp_all add: wait_inv_def)
  note ok = skipped_ok [OF inv t _ this]
  note k = keeps_obj [OF keeps_refl, where f = "\<lambda>r. r\<lparr>status := WAITING_FOR_REMOTE_KVS\<rparr>"]
  have "wait_inv s0 {} (upd_obj x (\<lambda>r. r\<lparr>status := WAITING_FOR_REMOTE_KVS\<rparr>) (s\<lparr>sc_waiting := q\<rparr>)) (st\<lparr>st_skipped := k\<rparr>)"
    using ok by (rule wait_inv_frame [OF conjunct1]) (simp_all add: k)
  then show ?thesis using p ok by (simp add: phase_ok_def upd_obj_def)
qed

lemma admit_sync_ok:
  assumes "\<not> cp_async cp" and "admit w x cp np n s st = Inr p" and inv: "wait_inv s0 {x} s st" and xin: "x \<in> set (wq_ids (sc_waiting s))"
    and room: "length (sc_running s) < sc_max_num_running_reqs s" and n: "n \<le> st_budget st"
  shows "phase_ok s0 D Q s st p"
proof -
  from assms(1,2) obtain q where q: "wq_remove_request x (sc_waiting s) = Inr q" by (auto simp: admit_def Let_def)
  define t where "t = s\<lparr>sc_waiting := q, sc_running := sc_running s @ [x]\<rparr>"
  define t1 where "t1 = (if sc_log_stats t then upd_obj x (record_event SCHEDULED (w_mono w)) t else t)"
  define fin where "fin = (\<lambda>(s, st :: step). (upd_obj x (\<lambda>r. if num_cached_tokens r < 0 then r\<lparr>num_cached_tokens := cp_total cp\<rparr> else r)
      (policy_feedback w x n (np_quantum np) (upd_obj x (\<lambda>r. r\<lparr>status := RUNNING, num_computed_tokens := cp_total cp\<rparr>) s)),
    st\<lparr>st_loras := (case (sc_max_loras s, lora_request (sc_objs s x)) of (Some _, Some l) \<Rightarrow> insert l (st_loras st) | _ \<Rightarrow> st_loras st),
       st_blocks := AList.update x (get_blocks x (sc_kv s)) (st_blocks st), st_num := AList.update x n (st_num st), st_budget := st_budget st - n\<rparr>))"
  have "admit w x cp np n s st = rbind (note_admitted w x t1 (st\<lparr>st_index := st_index st + 1\<rparr>)) (\<lambda>(s, st).
      rbind (encoder_allocate x (np_enc np) (np_enc_budget np) (fin (s, st))) (\<lambda>(s, st). Inr (Leave True s st)))"
    using assms(1) q by (simp add: admit_def Let_def t_def t1_def fin_def)
  with assms(2) obtain s2 st2 s3 st3 where a: "note_admitted w x t1 (st\<lparr>st_index := st_index st + 1\<rparr>) = Inr (s2, st2)"
    and e: "encoder_allocate x (np_enc np) (np_enc_budget np) (fin (s2, st2)) = Inr (s3, st3)" and p: "p = Leave True s3 st3"
    by auto
  obtain s4 st4 where f4: "fin (s2, st2) = (s4, st4)" by (rule prod.exhaust)
  note na = note_admitted_frame [OF a]
  from encoder_allocate_frame [OF e [unfolded f4]] obtain c en eb where s3: "s3 = s4\<lparr>sc_encoder := c\<rparr>" "st3 = st4\<lparr>st_enc := en, st_enc_budget := eb\<rparr>" by blast
  have k1: "keeps t t1 \<and> sc_ll_deferred t1 = sc_ll_deferred t" using keeps_obj [of t t "record_event SCHEDULED (w_mono w)" x] by (simp add: t1_def record_event_def)
  then have k2: "keeps t s2 \<and> sc_ll_deferred s2 = sc_ll_deferred t" using na keeps_trans by auto
  let ?u = "upd_obj x (\<lambda>r. r\<lparr>status := RUNNING, num_computed_tokens := cp_total cp\<rparr>) s2"
  have k3: "keeps t ?u \<and> sc_ll_deferred ?u = sc_ll_deferred t" using keeps_obj [OF conjunct1 [OF k2], of "\<lambda>r. r\<lparr>status := RUNNING, num_computed_tokens := cp_total cp\<rparr>" x] k2 by simp
  let ?v = "policy_feedback w x n (np_quantum np) ?u"
  have k4: "keeps t ?v \<and> sc_ll_deferred ?v = sc_ll_deferred t"
    using k3 keeps_trans [OF _ policy_feedback_frame(1)] policy_feedback_frame(3) [of w x n "np_quantum np" ?u] by auto
  have k5: "keeps t s4 \<and> sc_ll_deferred s4 = sc_ll_deferred t"
    using keeps_obj [OF conjunct1 [OF k4], of "\<lambda>r. if num_cached_tokens r < 0 then r\<lparr>num_cached_tokens := cp_total cp\<rparr> else r" x] k4 f4
    by (auto simp: fin_def)
  have k: "keeps t s3" "sc_ll_deferred s3 = sc_ll_deferred t" using k5 s3(1) keeps_trans [of t s4 s3] by simp_all
  have st: "mset (scheduled st3) = add_mset x (mset (scheduled st))" "st_num st3 = AList.update x n (st_num st)" "st_budget st3 = st_budget st - n"
    "st_skipped st3 = st_skipped st" "st_previews st3 = st_previews st"
    using na f4 s3(2) by (auto simp: fin_def scheduled_def)
  have wf: "wq_wf (sc_waiting s)" using inv by (simp add: wait_inv_def)
  note ok = admitted_ok [OF inv removed_takes [OF q wf xin] room n st, folded t_def]
  have "wait_inv s0 {} s3 st3" by (rule wait_inv_frame [OF ok(1) k])
  moreover have "sc_waiting s3 = q" using k(1) by (simp add: keeps_def t_def)
  ultimately show ?thesis using p ok(2) by (simp add: phase_ok_def)
qed

section \<open>One iteration\<close>

text \<open>
  The chain of phases. All of them see the request at the head of the queue; \<open>room\<close> is the slot in the
  running list that the check before the chain found.
\<close>

definition in_scan :: "sched \<Rightarrow> req_ref set \<Rightarrow> req_ref \<Rightarrow> sched \<Rightarrow> step \<Rightarrow> bool" where
  "in_scan s0 D x s st \<longleftrightarrow> wait_inv s0 D s st \<and> at_head x (sc_waiting s) \<and> length (sc_running s) < sc_max_num_running_reqs s0"

lemma in_scanD:
  assumes "in_scan s0 D x s st"
  shows "wait_inv s0 D s st" "at_head x (sc_waiting s)" "x \<in> set (wq_ids (sc_waiting s))" "length (sc_running s) < sc_max_num_running_reqs s"
  using assms by (simp_all add: in_scan_def at_head_def wait_inv_def limits_def)

lemma scan_bind:
  assumes "pbind r f = Inr p" and "in_scan s0 D x s st" and "\<And>q. r = Inr q \<Longrightarrow> phase_ok s0 D' Q s st q"
    and "\<And>a s' st'. in_scan s0 D' x s' st' \<Longrightarrow> Q a \<Longrightarrow> st_budget st' = st_budget st \<Longrightarrow> f a s' st' = Inr p \<Longrightarrow> phase_ok s0 D'' Q' s' st' p"
  shows "phase_ok s0 D'' Q' s st p"
  using assms(1,3)
proof (rule pbind_phase_ok)
  fix a s' st'
  assume "wait_inv s0 D' s' st'" "sc_waiting s' = sc_waiting s" "sc_running s' = sc_running s" "st_budget st' = st_budget st" "Q a" "f a s' st' = Inr p"
  then show "phase_ok s0 D'' Q' s' st' p" using assms(2) by (intro assms(4)) (simp_all add: in_scan_def)
qed

lemma slots_and_admission_ok:
  assumes "pbind (take_slots w x preview cp (np_tokens np) s st) (\<lambda>n s st. admit w x cp np n s st) = Inr p" and i: "in_scan s0 {} x s st"
    and n: "0 \<le> np_tokens np" "np_tokens np \<le> st_budget st"
  shows "phase_ok s0 D Q s st p"
  using assms(1,2) take_slots_ok [OF _ in_scanD(1,3) [OF i] n(1)]
proof (rule scan_bind)
  fix m s' st'
  assume s': "in_scan s0 {x} x s' st'" and m: "0 \<le> m \<and> m \<le> np_tokens np" "st_budget st' = st_budget st" and a: "admit w x cp np m s' st' = Inr p"
  have "m \<le> st_budget st'" using m n by simp
  then show "phase_ok s0 D Q s' st' p"
    using admit_async_ok [OF _ a in_scanD(1,3) [OF s']] admit_sync_ok [OF _ a in_scanD(1,3,4) [OF s']] by blast
qed

lemma tokens_and_slots_ok:
  assumes "pbind (cached_tokens w x preview s st) (\<lambda>cp s st. pbind (new_tokens w x cp s st) (\<lambda>np s st.
      pbind (take_slots w x preview cp (np_tokens np) s st) (\<lambda>n s st. admit w x cp np n s st))) = Inr p"
    and i: "in_scan s0 {} x s st" and lim: "limits_ok s0"
  shows "phase_ok s0 D Q s st p"
  using assms(1,2) cached_tokens_ok [OF _ in_scanD(1,2) [OF i]]
proof (rule scan_bind)
  fix cp s' st'
  assume s': "in_scan s0 {} x s' st'" and new: "pbind (new_tokens w x cp s' st') (\<lambda>np s st.
      pbind (take_slots w x preview cp (np_tokens np) s st) (\<lambda>n s st. admit w x cp np n s st)) = Inr p"
  show "phase_ok s0 D Q s' st' p"
    using new s' new_tokens_ok [OF _ in_scanD(1,2) [OF s'] lim] by (rule scan_bind) (auto intro: slots_and_admission_ok)
qed

lemma after_status_ok:
  assumes "pbind (lora_gate x s st) (\<lambda>_ s st. pbind (lightllm_gate w x s st) (\<lambda>preview s st. pbind (cached_tokens w x preview s st) (\<lambda>cp s st.
      pbind (new_tokens w x cp s st) (\<lambda>np s st. pbind (take_slots w x preview cp (np_tokens np) s st) (\<lambda>n s st. admit w x cp np n s st))))) = Inr p"
    and i: "in_scan s0 {} x s st" and lim: "limits_ok s0"
  shows "phase_ok s0 D Q s st p"
  using assms(1,2) lora_gate_ok [OF _ in_scanD(1,2) [OF i]]
proof (rule scan_bind)
  fix a :: unit and s' st'
  assume s': "in_scan s0 {} x s' st'" and gate: "pbind (lightllm_gate w x s' st') (\<lambda>preview s st. pbind (cached_tokens w x preview s st) (\<lambda>cp s st.
      pbind (new_tokens w x cp s st) (\<lambda>np s st. pbind (take_slots w x preview cp (np_tokens np) s st) (\<lambda>n s st. admit w x cp np n s st)))) = Inr p"
  show "phase_ok s0 D Q s' st' p"
    using gate s' lightllm_gate_ok [OF _ in_scanD(1,2) [OF s']] by (rule scan_bind) (auto intro: tokens_and_slots_ok lim)
qed

lemma peeked_ok:
  assumes inv: "wait_inv s0 {} s st" and pk: "wq_peek_request (sc_objs s) (sc_pinned s) (sc_waiting s) = Inr (x, q)"
    and room: "length (sc_running s) \<noteq> sc_max_num_running_reqs s"
  shows "in_scan s0 {} x (s\<lparr>sc_waiting := q\<rparr>) st" "wq_ids q = wq_ids (sc_waiting s)"
    "wq_pop_pinned (sc_objs s) (sc_pinned s) q = Inr (y, q') \<Longrightarrow> takes x q q'"
proof -
  have wf: "wq_wf (sc_waiting s)" using inv by (simp add: wait_inv_def)
  note ids = wq_peek_ids [OF wf pk]
  then show "wq_ids q = wq_ids (sc_waiting s)" by simp
  have "\<exists>m. q = MarsQ m" if "sc_waiting s = MarsQ m" for m using pk that by (auto simp: wq_peek_request_def)
  then have "wait_inv s0 {} (s\<lparr>sc_waiting := q\<rparr>) st" using inv ids by (auto simp: wait_inv_def places_def previews_ok_def limits_def)
  then show "in_scan s0 {} x (s\<lparr>sc_waiting := q\<rparr>) st" using peek_takes(1) [OF wf pk] room inv by (auto simp: in_scan_def wait_inv_def limits_def)
  show "wq_pop_pinned (sc_objs s) (sc_pinned s) q = Inr (y, q') \<Longrightarrow> takes x q q'" by (rule peek_takes(2) [OF wf pk])
qed

lemma waiting_step_ok:
  assumes "waiting_step w s st = Inr p" and inv: "wait_inv s0 {} s st" and lim: "limits_ok s0"
  shows "phase_ok s0 {} (\<lambda>_. False) s st p"
proof (cases "length (sc_running s) = sc_max_num_running_reqs s")
  case True
  then show ?thesis using assms by (auto simp: waiting_step_def phase_ok_def)
next
  case False
  with assms(1) obtain y where pk: "wq_peek_request (sc_objs s) (sc_pinned s) (sc_waiting s) = Inr y"
    and rest: "(case y of (x, q) \<Rightarrow> pbind (status_gate w x (s\<lparr>sc_waiting := q\<rparr>) st) (\<lambda>_ s st.
      pbind (lora_gate x s st) (\<lambda>_ s st. pbind (lightllm_gate w x s st) (\<lambda>preview s st. pbind (cached_tokens w x preview s st) (\<lambda>cp s st.
      pbind (new_tokens w x cp s st) (\<lambda>np s st. pbind (take_slots w x preview cp (np_tokens np) s st) (\<lambda>n s st. admit w x cp np n s st))))))) = Inr p"
    unfolding waiting_step_def if_not_P [OF False] by (elim rbindE)
  obtain x q where y: "y = (x, q)" by (rule prod.exhaust)
  note pk' = peeked_ok [OF inv pk [unfolded y] False]
  have "phase_ok s0 {} (\<lambda>_. False) (s\<lparr>sc_waiting := q\<rparr>) st p"
    using rest [unfolded y prod.case] pk'(1)
  proof (rule scan_bind)
    show "phase_ok s0 {} (\<lambda>_. True) (s\<lparr>sc_waiting := q\<rparr>) st g" if "status_gate w x (s\<lparr>sc_waiting := q\<rparr>) st = Inr g" for g
      by (rule status_gate_ok [OF that in_scanD(1) [OF pk'(1)]]) (use pk'(3) in auto)
  qed (auto intro: after_status_ok lim)
  then show ?thesis using pk'(2) by (simp add: phase_ok_def split: phase.splits)
qed

section \<open>The scan\<close>

text \<open>The scan returns: an iteration that goes on leaves a shorter queue.\<close>

lemma waiting_loop_ok:
  assumes "wait_inv s0 {} s st" and "limits_ok s0"
  shows "\<exists>r. waiting_loop w s st = Some r \<and> (\<forall>s' st'. r = Inr (s', st') \<longrightarrow> wait_inv s0 {} s' st')"
  using assms(1)
proof (induction "length (wq_ids (sc_waiting s))" arbitrary: s st rule: less_induct)
  case less
  show ?case
  proof (cases "wq_len (sc_waiting s) \<noteq> 0 \<and> st_budget st > 0")
    case True
    show ?thesis
    proof (cases "waiting_step w s st")
      case (Inl e)
      then show ?thesis using True by (subst waiting_loop.simps) simp
    next
      case (Inr p)
      note ok = waiting_step_ok [OF Inr less.prems assms(2)]
      then obtain c s' st' where p: "p = Leave c s' st'" by (cases p) (simp_all add: phase_ok_def)
      have "waiting_loop w s st = (if c then waiting_loop w s' st' else Some (Inr (s', st')))"
        using True Inr p by (subst waiting_loop.simps) simp
      then show ?thesis using ok p less.hyps [of s' st'] by (auto simp: phase_ok_def)
    qed
  next
    case False
    then show ?thesis using less.prems by (subst waiting_loop.simps) auto
  qed
qed

end
