(* ===== verification/Schedule_Correct.thy ===== *)
theory Schedule_Correct
  imports Waiting_Scan
begin

text \<open>
  The whole scheduling step. The phases are composed: a step that starts in an orderly state returns, passes
  its own assertions, schedules each request at most once within the token budget, and keeps every
  unfinished request in exactly one place.
\<close>

section \<open>From the start of the step to the running phase\<close>

text \<open>
  What a step may rely on: requests are in one place each, the limits make sense, running requests have
  tokens left to compute and are not too many.
\<close>

definition step_pre :: "sched \<Rightarrow> bool" where
  "step_pre s \<longleftrightarrow> step_ready s \<and> limits_ok s \<and> (\<forall>x\<in>set (sc_running s). tokens_ok s x) \<and> length (sc_running s) \<le> sc_max_num_running_reqs s"

lemma router_loop_previews:
  "router_loop w c kv xs provisional pk pvs s = Inr (pk', pvs', s') \<Longrightarrow> pvs = sc_ll_deferred s \<Longrightarrow> pvs' = sc_ll_deferred s'"
proof (induction w c kv xs provisional pk pvs s rule: router_loop.induct)
  case (2 w c kv x xs provisional pk pvs s)
  show ?case
  proof (cases "map_of (sc_ll_deferred s) x \<noteq> None \<or> router_stops w (sc_objs s x)")
    case True
    then show ?thesis using 2 by (auto split: if_splits)
  next
    case False
    with "2.prems"(1) obtain a d where ad: "lightllm_request_state (sc_objs s x) None = Inr a" "ll_evaluate c provisional a kv = Inr d" by auto
    show ?thesis
    proof (cases "ll_admitted d")
      case True
      with False ad "2.prems"(1) obtain pv model s1 s2 pk2 where
        steps: "lightllm_preview_of w (sc_objs s x) s = Inr (pv, model, s1)" "lightllm_reserve_prefix_blocks pv s1 = Inr s2"
          "classify_for_model s2 model pk = Inr pk2"
        and rest: "router_loop w c kv xs (provisional @ [a]) pk2 (AList.update x pv pvs)
          (s2\<lparr>sc_ll_deferred := AList.update x pv (sc_ll_deferred s2)\<rparr>) = Inr (pk', pvs', s')"
        by auto
      have "sc_ll_deferred s2 = sc_ll_deferred s" using lightllm_preview_keeps [OF steps(1)] lightllm_reserve_keeps [OF steps(2)] by simp
      then show ?thesis using False ad True steps "2.prems"(2)
        by (intro "2.IH"(2) [OF _ _ ad(1,2) _ steps(1) refl refl steps(2,3) rest]) simp_all
    next
      case not_admitted: False
      then show ?thesis using False ad "2.prems" by auto
    qed
  qed
qed simp

lemma lightllm_start_previews:
  "lightllm_start w s = Inr (pk, pvs, s') \<Longrightarrow> sc_policy s' = LIGHTLLM \<Longrightarrow> pvs = sc_ll_deferred s' \<or> sc_policy s \<noteq> LIGHTLLM"
  by (auto simp: lightllm_start_def lightllm_prepare_step_def Let_def split: if_splits option.splits dest!: router_loop_previews)

lemma schedule_start_run_inv:
  assumes "schedule_start w s = Inr (s', st)" and "step_pre s"
  shows "run_inv s' s' st \<and> moves s s' \<and> limits_ok s'"
proof -
  have ready: "step_ready s" using assms(2) by (simp add: step_pre_def)
  note ok = schedule_start_ok [OF assms(1) ready]
  obtain s3 pk pvs where l: "lightllm_start w s3 = Inr (pk, pvs, s')" and st: "st = fresh_step s' pk pvs"
    using assms(1) unfolding schedule_start_def by (auto elim!: rbindE simp del: rbind_eq_Inr)
  have pvs: "pvs = sc_ll_deferred s'" if "sc_policy s' = LIGHTLLM"
    using lightllm_start_previews [OF l that] that l by (auto simp: lightllm_start_def)
  have lim: "limits s' = limits s" "sc_objs s' = sc_objs s" "mset (sc_running s') = mset (sc_running s)" using ok(2) by (simp_all add: moves_def)
  have run: "set (sc_running s') = set (sc_running s)" "length (sc_running s') = length (sc_running s)"
    using mset_eq_setD [OF lim(3)] mset_eq_length [OF lim(3)] by simp_all
  have "limits_ok s'" using assms(2) limits_ok_cong [OF lim(1)] by (simp add: step_pre_def)
  moreover have "\<forall>x\<in>set (sc_running s'). tokens_ok s' x" "length (sc_running s') \<le> sc_max_num_running_reqs s'"
    using assms(2) lim run by (auto simp: step_pre_def tokens_ok_def limits_def)
  ultimately show ?thesis using ok(1-3) st pvs
    by (auto simp: run_inv_def fresh_step_def total_scheduled_def limits_ok_def)
qed

section \<open>From the running phase to the scan\<close>

lemma running_phase_wait_inv:
  assumes "running_phase w (s, st) = Inr (s', st')" and "run_inv s0 s st" and "limits_ok s0"
  shows "wait_inv s0 {} s' st'"
proof -
  from assms(1) obtain st1 q l where loop: "running_loop w (s, st) = Inr (s', st1)" and q: "create_request_queue (sc_policy s') = Inr q"
    and st': "st' = st1\<lparr>st_loras := l, st_skipped := q\<rparr>"
    by (auto simp: running_phase_def Let_def split: if_splits option.splits)
  note inv = running_loop_inv [OF loop assms(2,3)]
  have "previews_ok {} s' st'" if "sc_policy s' = LIGHTLLM"
    using inv that create_request_queue_ids [OF q] st' by (auto simp: run_inv_def deferred_ok_def previews_ok_def)
  moreover have "distinct (places s' st')" "mset (places s' st') = mset (unfinished s0)"
    using inv create_request_queue_ids [OF q] st' by (simp_all add: run_inv_def places_def sched_ok_def unfinished_def)
  ultimately show ?thesis using inv create_request_queue_ids [OF q] st' set_take_subset [of "st_index st1" "sc_running s'"]
    by (auto simp: run_inv_def wait_inv_def sched_ok_def scheduled_def total_scheduled_def)
qed

section \<open>Putting the skipped requests back\<close>

definition step_post :: "sched \<Rightarrow> sched \<Rightarrow> step \<Rightarrow> bool" where
  "step_post s0 s st \<longleftrightarrow> sched_ok s \<and> mset (unfinished s) = mset (unfinished s0) \<and> limits s = limits s0 \<and> step_checks s st \<and>
     distinct (map fst (st_num st)) \<and> mset (map fst (st_num st)) = mset (scheduled st) \<and> fst ` set (st_num st) \<subseteq> set (sc_running s) \<and>
     (sc_policy s = LIGHTLLM \<longrightarrow> deferred_ok (set (wq_ids (sc_waiting s))) s)"

lemma scheduled_bound:
  assumes "wait_inv s0 D s st"
  shows "length (st_new st) + length (st_resumed st) + length (st_running st) \<le> length (sc_running s)"
proof -
  have "length (scheduled st) = card (set (scheduled st))" using assms by (simp add: wait_inv_def distinct_card)
  also have "\<dots> \<le> card (set (sc_running s))" using assms by (intro card_mono) (simp_all add: wait_inv_def)
  also have "\<dots> \<le> length (sc_running s)" by (rule card_length)
  finally show ?thesis by (simp add: scheduled_def)
qed

lemma put_back_post:
  assumes inv: "wait_inv s0 {} s st" and q: "wq_wf q" "mset (wq_ids q) = mset (wq_ids (st_skipped st)) + mset (wq_ids (sc_waiting s))"
    and "sc_policy s = MARS \<Longrightarrow> \<exists>m. q = MarsQ m"
  shows "step_post s0 (s\<lparr>sc_waiting := q\<rparr>) st"
proof -
  let ?s = "s\<lparr>sc_waiting := q\<rparr>"
  have m: "mset (unfinished ?s) = mset (places s st)" using q(2) by (simp add: unfinished_def places_def)
  have "distinct (unfinished ?s)" using mset_eq_imp_distinct_iff [OF m] inv by (simp add: wait_inv_def)
  then have ok: "sched_ok ?s" using inv q(1) assms(4) by (simp add: sched_ok_def wait_inv_def)
  have set: "set (wq_ids q) = set (wq_ids (st_skipped st)) \<union> set (wq_ids (sc_waiting s))"
    using mset_eq_setD [of "wq_ids q" "wq_ids (st_skipped st) @ wq_ids (sc_waiting s)"] q(2) by simp
  have keys: "set (map fst (st_num st)) = set (scheduled st)" "distinct (map fst (st_num st))"
    using inv mset_eq_setD [of "map fst (st_num st)" "scheduled st"] mset_eq_imp_distinct_iff [of "map fst (st_num st)" "scheduled st"]
    by (simp_all add: wait_inv_def)
  have "step_checks ?s st" using inv scheduled_bound [OF inv] by (auto simp: step_checks_def wait_inv_def limits_def previews_ok_def)
  moreover have "deferred_ok (set (wq_ids q)) ?s" if "sc_policy s = LIGHTLLM" using inv that set by (auto simp: wait_inv_def previews_ok_def deferred_ok_def)
  moreover have "limits ?s = limits s0" using inv by (simp add: wait_inv_def limits_def)
  ultimately show ?thesis using inv ok m keys by (simp add: step_post_def wait_inv_def)
qed

lemma waiting_phase_post:
  assumes "wait_inv s0 {} s st" and "limits_ok s0"
  shows "\<exists>r. waiting_phase w (s, st) = Some r \<and> (\<forall>s' st'. r = Inr (s', st') \<longrightarrow> step_post s0 s' st')"
proof -
  from waiting_loop_ok [OF assms, of w] assms(1) obtain r where r: "(if st_preempted st = [] then waiting_loop w s st else Some (Inr (s, st))) = Some r"
    and inv: "\<And>s1 st1. r = Inr (s1, st1) \<Longrightarrow> wait_inv s0 {} s1 st1" by (cases "st_preempted st = []") auto
  show ?thesis
  proof (cases r)
    case (Inl e)
    then show ?thesis using r by (simp add: waiting_phase_def)
  next
    case (Inr p)
    obtain s1 st1 where p: "p = (s1, st1)" by (rule prod.exhaust)
    note i = inv [OF Inr [unfolded p]]
    let ?r = "rbind (wq_iter (st_skipped st1)) (\<lambda>skipped. if skipped = [] then Inr (s1, st1)
      else rbind (wq_prepend_requests (sc_objs s1) (q_idx_of s1) skipped (sc_waiting s1)) (\<lambda>q. Inr (s1\<lparr>sc_waiting := q\<rparr>, st1)))"
    have "step_post s0 s' st'" if r': "?r = Inr (s', st')" for s' st'
    proof -
      from r' obtain xs where xs: "wq_iter (st_skipped st1) = Inr xs" and rest: "xs = [] \<and> s' = s1 \<and> st' = st1 \<or>
        (\<exists>q. wq_prepend_requests (sc_objs s1) (q_idx_of s1) xs (sc_waiting s1) = Inr q \<and> s' = s1\<lparr>sc_waiting := q\<rparr> \<and> st' = st1)"
        by (auto split: if_splits)
      have wf: "wq_wf (st_skipped st1)" "wq_wf (sc_waiting s1)" using i by (simp_all add: wait_inv_def)
      note ids = wq_iter_ids [OF wf(1) xs]
      from rest show ?thesis
      proof (elim disjE exE conjE)
        fix q
        assume q: "wq_prepend_requests (sc_objs s1) (q_idx_of s1) xs (sc_waiting s1) = Inr q" "s' = s1\<lparr>sc_waiting := q\<rparr>" "st' = st1"
        have "mset (xs @ wq_ids (sc_waiting s1)) = mset (wq_ids (st_skipped st1) @ wq_ids (sc_waiting s1))" using ids by simp
        moreover have "distinct (wq_ids (st_skipped st1) @ wq_ids (sc_waiting s1))" using i by (auto simp: wait_inv_def places_def)
        ultimately have d: "distinct (xs @ wq_ids (sc_waiting s1))" using mset_eq_imp_distinct_iff by blast
        have "\<exists>m. q = MarsQ m" if "sc_policy s1 = MARS" using i that q(1) by (auto simp: wait_inv_def wq_prepend_requests_def)
        moreover have "wq_wf q \<and> mset (wq_ids q) = mset xs + mset (wq_ids (sc_waiting s1))"
          using i by (intro wq_prepend_requests_ids [OF q(1) wf(2) d]) (simp add: wait_inv_def)
        ultimately show ?thesis using put_back_post [OF i, of q] ids q(2,3) by simp
      next
        assume e: "xs = []" "s' = s1" "st' = st1"
        show ?thesis using put_back_post [OF i wf(2)] ids e i by (simp add: wait_inv_def)
      qed
    qed
    then show ?thesis using r Inr p by (auto simp: waiting_phase_def simp del: rbind_eq_Inr)
  qed
qed

section \<open>The step\<close>

lemma schedule_loops_post:
  assumes "step_pre s"
  shows "\<exists>r. schedule_loops w s = Some r \<and> (\<forall>s' st'. r = Inr (s', st') \<longrightarrow> (\<exists>s0. moves s s0 \<and> step_post s0 s' st'))"
proof (cases "rbind (schedule_start w s) (running_phase w)")
  case (Inl e)
  then show ?thesis by (simp add: schedule_loops_def)
next
  case (Inr p)
  then obtain y where y: "schedule_start w s = Inr y" and run: "running_phase w y = Inr p" by (rule rbindE)
  obtain s1 st1 where y2: "y = (s1, st1)" by (rule prod.exhaust)
  obtain s2 st2 where p2: "p = (s2, st2)" by (rule prod.exhaust)
  note start = schedule_start_run_inv [OF y [unfolded y2] assms]
  have "wait_inv s1 {} s2 st2" using running_phase_wait_inv [OF run [unfolded y2 p2]] start by blast
  from waiting_phase_post [OF this, of w] start obtain r where "waiting_phase w (s2, st2) = Some r" "\<forall>s' st'. r = Inr (s', st') \<longrightarrow> step_post s1 s' st'" by blast
  moreover have "schedule_loops w s = waiting_phase w (s2, st2)" using Inr p2 by (simp add: schedule_loops_def del: rbind_eq_Inr)
  ultimately show ?thesis using start by metis
qed

lemma rfold_keeps:
  assumes "rfold f xs s = Inr s'" and "\<And>x t t'. f x t = Inr t' \<Longrightarrow> keeps t t' \<and> sc_ll_deferred t' = sc_ll_deferred t"
  shows "keeps s s' \<and> sc_ll_deferred s' = sc_ll_deferred s"
proof (rule rfold_invariant [OF assms(1), where P = "\<lambda>t. keeps s t \<and> sc_ll_deferred t = sc_ll_deferred s"])
  show "keeps s t' \<and> sc_ll_deferred t' = sc_ll_deferred s" if "keeps s t \<and> sc_ll_deferred t = sc_ll_deferred s" "f x t = Inr t'" for x t t'
    using that assms(2) [OF that(2)] keeps_trans by auto
qed simp

lemma update_after_schedule_keeps:
  assumes "update_after_schedule w num s = Inr s'"
  shows "keeps s s' \<and> sc_ll_deferred s' = sc_ll_deferred s"
proof -
  let ?one = "\<lambda>(x, n) s. if x \<notin> set (sc_requests s) then Inl KeyError
       else let s = upd_obj x (\<lambda>r. r\<lparr>num_computed_tokens := num_computed_tokens r + n\<rparr>) s
         in if has_encoder_inputs (sc_objs s x)
            then rbind (free_encoder_inputs (w_set_order w) (sc_encdec s) (sc_objs s x) (sc_encoder s)) (\<lambda>c. Inr (s\<lparr>sc_encoder := c\<rparr>))
            else Inr s"
  from assms obtain t where t: "rfold ?one num s = Inr t" and s': "s' = t\<lparr>sc_finished_req_ids := {}\<rparr>"
    unfolding update_after_schedule_def by (auto simp del: rfold.simps)
  have "keeps a a' \<and> sc_ll_deferred a' = sc_ll_deferred a" if "?one p a = Inr a'" for p a a'
    using that keeps_obj [OF keeps_refl, where f = "\<lambda>r. r\<lparr>num_computed_tokens := num_computed_tokens r + snd p\<rparr>"]
    by (cases p) (auto simp: Let_def split: if_splits)
  from rfold_keeps [OF t this] show ?thesis using s' by (simp add: keeps_def limits_def)
qed

lemma after_schedule_keeps:
  assumes "(if sc_async s then async_update_after_schedule w num s else update_after_schedule w num s) = Inr s'"
  shows "keeps s s' \<and> sc_ll_deferred s' = sc_ll_deferred s"
proof (cases "sc_async s")
  case True
  let ?f = "\<lambda>r. if num_computed_tokens r = num_tokens r + num_output_placeholders r then r\<lparr>num_output_placeholders := num_output_placeholders r + 1\<rparr> else r"
  let ?one = "\<lambda>(x, _ :: int) s. if x \<notin> set (sc_requests s) then Inl KeyError else Inr (upd_obj x ?f s)"
  from True assms obtain t where t: "update_after_schedule w num s = Inr t" and r: "rfold ?one num t = Inr s'"
    unfolding async_update_after_schedule_def by (auto simp del: rfold.simps)
  have "keeps a a' \<and> sc_ll_deferred a' = sc_ll_deferred a" if "?one p a = Inr a'" for p a a'
    using that keeps_obj [OF keeps_refl, where f = ?f] by (cases p) (auto split: if_splits)
  then have "keeps t s' \<and> sc_ll_deferred s' = sc_ll_deferred t" by (rule rfold_keeps [OF r])
  with update_after_schedule_keeps [OF t] show ?thesis using keeps_trans by auto
qed (use assms update_after_schedule_keeps in auto)

lemma autellix_note_wait_keeps: "autellix_note_wait st s = Inr s' \<Longrightarrow> keeps s s' \<and> sc_ll_deferred s' = sc_ll_deferred s"
proof -
  let ?f = "\<lambda>x s. if map_of (st_num st) x = None
    then set_attrs x (\<lambda>a. a\<lparr>at_wait_tokens := Some (attr_or 0 (at_wait_tokens a) + total_scheduled st)\<rparr>) s else s"
  have "keeps s (fold ?f xs t) \<and> sc_ll_deferred (fold ?f xs t) = sc_ll_deferred s" if "keeps s t \<and> sc_ll_deferred t = sc_ll_deferred s" for xs t
    using that by (induction xs arbitrary: t) (simp_all add: set_attrs_def)
  then show "autellix_note_wait st s = Inr s' \<Longrightarrow> keeps s s' \<and> sc_ll_deferred s' = sc_ll_deferred s"
    by (auto simp: autellix_note_wait_def split: if_splits)
qed

text \<open>What the message and the state after the step say of the state before it.\<close>

definition output_ok :: "sched \<Rightarrow> SchedulerOutput \<Rightarrow> sched \<Rightarrow> bool" where
  "output_ok s out s' \<longleftrightarrow> so_total_num_scheduled_tokens out = sum_list (map snd (so_num_scheduled_tokens out)) \<and>
     so_total_num_scheduled_tokens out \<le> sc_max_num_scheduled_tokens s \<and>
     distinct (map fst (so_num_scheduled_tokens out)) \<and> fst ` set (so_num_scheduled_tokens out) \<subseteq> set (sc_running s') \<and>
     mset (map fst (so_num_scheduled_tokens out)) = mset (map nr_req_id (so_new out)) + mset (cr_req_ids (so_cached out)) \<and>
     length (sc_running s') \<le> sc_max_num_running_reqs s"

lemma new_request_data_ids:
  "rmap (new_request_data st s) xs = Inr ds \<Longrightarrow> (\<And>x. request_id (sc_objs s x) = x) \<Longrightarrow> map nr_req_id ds = xs"
  by (induction xs arbitrary: ds) (auto simp: new_request_data_def from_request_def)

lemma schedule_output_post:
  assumes "schedule_output w s1 st = Inr (out, s')" and post: "step_post s0 s1 st" and "limits s0 = limits s"
  shows "keeps s1 s' \<and> sc_ll_deferred s' = sc_ll_deferred s1 \<and> output_ok s out s'"
proof -
  from assms(1) obtain s2 where s2: "autellix_note_wait st s1 = Inr s2" by (auto simp: schedule_output_def)
  obtain hashes c where c: "get_freed_mm_hashes (sc_encoder s2) = (hashes, c)" by (rule prod.exhaust)
  let ?s3 = "s2\<lparr>sc_encoder := c, sc_kv := snd (km_take_events (sc_kv s2))\<rparr>"
  have "step_checks s2 st" using assms(1) s2 by (cases "step_checks s2 st") (simp_all add: schedule_output_def)
  with assms(1) s2 c obtain new_data cached_data where new: "rmap (new_request_data st s2) (st_new st) = Inr new_data"
    and cached: "make_cached_request_data w st s2 = Inr cached_data" and upd: "(if sc_async s2 then async_update_after_schedule w (st_num st) ?s3 else update_after_schedule w (st_num st) ?s3) = Inr s'"
    and out: "so_new out = new_data" "so_cached out = cached_data" "so_num_scheduled_tokens out = st_num st" "so_total_num_scheduled_tokens out = total_scheduled st"
    by (auto simp: schedule_output_def Let_def)
  note k2 = autellix_note_wait_keeps [OF s2]
  have k: "keeps s1 s'" "sc_ll_deferred s' = sc_ll_deferred s1"
    using after_schedule_keeps [of ?s3] upd k2 by (simp_all add: keeps_def limits_def)
  have "request_id (sc_objs s2 x) = x" for x using k2 post by (simp add: keeps_def step_post_def sched_ok_def)
  then have "map nr_req_id new_data = st_new st" by (rule new_request_data_ids [OF new])
  moreover have "cr_req_ids cached_data = st_running st @ st_resumed st" using cached by (auto simp: make_cached_request_data_def Let_def)
  ultimately have "output_ok s out s'"
    using post k(1) assms(3) out by (simp add: output_ok_def step_post_def step_checks_def total_scheduled_def scheduled_def keeps_def limits_def ac_simps)
  then show ?thesis using k by simp
qed

lemma schedule_post:
  assumes "step_pre s"
  shows "\<exists>r. schedule w s = Some r \<and> (\<forall>out s'. r = Inr (out, s') \<longrightarrow>
    sched_ok s' \<and> mset (unfinished s') = mset (unfinished s) \<and> output_ok s out s' \<and>
    (sc_policy s' = LIGHTLLM \<longrightarrow> deferred_ok (set (wq_ids (sc_waiting s'))) s'))"
proof -
  from schedule_loops_post [OF assms, of w] obtain r where r: "schedule_loops w s = Some r"
    and post: "\<And>s1 st. r = Inr (s1, st) \<Longrightarrow> \<exists>s0. moves s s0 \<and> step_post s0 s1 st" by blast
  have "sched_ok s' \<and> mset (unfinished s') = mset (unfinished s) \<and> output_ok s out s' \<and>
      (sc_policy s' = LIGHTLLM \<longrightarrow> deferred_ok (set (wq_ids (sc_waiting s'))) s')"
    if o: "rbind r (\<lambda>(s, st). schedule_output w s st) = Inr (out, s')" for out s'
  proof -
    from o obtain s1 st where s1: "r = Inr (s1, st)" "schedule_output w s1 st = Inr (out, s')" by auto
    from post [OF s1(1)] obtain s0 where s0: "moves s s0" "step_post s0 s1 st" by blast
    have "limits s0 = limits s" using s0(1) by (simp add: moves_def)
    note k = schedule_output_post [OF s1(2) s0(2) this]
    have "deferred_ok (set (wq_ids (sc_waiting s1))) s' = deferred_ok (set (wq_ids (sc_waiting s1))) s1" using k deferred_ok_keeps by blast
    then show ?thesis using k s0 keeps_sched_ok [of s1 s'] keeps_unfinished [of s1 s'] by (auto simp: step_post_def moves_def keeps_def)
  qed
  then show ?thesis using r by (auto simp: schedule_def simp del: rbind_eq_Inr)
qed

section \<open>A small system\<close>

text \<open>Two requests wait for a model with blocks of two tokens and a budget of six tokens a step.\<close>

definition example_world :: sched_world where
  "example_world = \<lparr>w_now = 0, w_mono = 0, w_env = \<lparr>env_quad = (\<lambda>_ _. None), env_num = (\<lambda>_ _. None)\<rparr>, w_swap_env = None, w_parse = None,
     w_connector_class = None, w_conn_finished = (\<lambda>_ _. (False, None)), w_conn_matched = (\<lambda>_ _. (Some 0, False)),
     w_grammar_ready = (\<lambda>_. True), w_should_advance = (\<lambda>_. False), w_validate_tokens = (\<lambda>_ ts. ts), w_hasher = None, w_set_order = id\<rparr>"

definition example_objs :: "req_ref \<Rightarrow> request" where
  "example_objs x = (if x = ''a'' then (text_request ''a'' [10, 11, 12])\<lparr>block_hashes := [[1]]\<rparr>
     else (text_request x [20, 21, 22, 23, 24])\<lparr>block_hashes := [[2], [3]]\<rparr>)"

definition example_sched :: "SchedulingPolicy \<Rightarrow> request_queue \<Rightarrow> kv_cache_manager \<Rightarrow> sched" where
  "example_sched p q k = \<lparr>sc_policy = p, sc_max_model_len = 8, sc_max_num_scheduled_tokens = 6, sc_max_num_running_reqs = 2,
     sc_block_size = 2, sc_long_prefill_threshold = 0, sc_chunked_prefill = True, sc_no_chunked_mm = False,
     sc_max_encoder_tokens = 0, sc_num_lookahead = 0, sc_num_spec = 0, sc_max_loras = None, sc_use_pp = False,
     sc_async = False, sc_log_stats = False, sc_encdec = False, sc_whisper = False, sc_encdec_len = 0,
     sc_objs = example_objs, sc_attrs = (\<lambda>_. no_attrs), sc_requests = [''a'', ''b''], sc_waiting = q, sc_running = [],
     sc_pinned = [], sc_kv = k, sc_estimator = ToolCallEstimator, sc_encoder = EncoderCacheManager 0,
     sc_recorded = {None}, sc_finished_req_ids = {}, sc_finished_dict = None, sc_finished_recving = {},
     sc_evicted_at = Map.empty, sc_first_entry = Map.empty, sc_queue_delay_samples = [], sc_program_served = (\<lambda>_. 0),
     sc_program_k_history = Map.empty, sc_eta = \<lparr>eta_n = 0, eta_sum_x = 0, eta_sum_y = 0, eta_sum_x2 = 0, eta_sum_y2 = 0, eta_sum_xy = 0\<rparr>,
     sc_aut_service = (\<lambda>_. 0), sc_aut_wait = (\<lambda>_. 0), sc_aut_beta = 1, sc_aut_level_quanta = [4], sc_aut_thresholds = [],
     sc_aut_fcfs_after = 0, sc_aut_finished_jobs = {}, sc_aut_fcfs_mode = False, sc_mars_overflow = [], sc_mars_levels = Map.empty,
     sc_mars_last = Map.empty, sc_mars_window = 4, sc_lightllm = None, sc_ll_chunk = 4, sc_ll_deferred = []\<rparr>"

definition example_kv :: kv_cache_manager where
  "example_kv = projr (KVCacheManager False (example_config [FullAttentionSpec example_attention None None]) 8 False False False False 1)"

lemma example_step_pre: "q \<in> {[], [''a''], [''a'', ''b'']} \<Longrightarrow> step_pre (example_sched FCFS (FcfsQ q) k)"
  by (auto simp: step_pre_def step_ready_def sched_ok_def unfinished_def example_sched_def example_objs_def text_request_def
      wq_wf_def wq_ids_def limits_ok_def)

definition example_step :: "(SchedulerOutput \<times> sched) result option" where
  "example_step = schedule example_world (example_sched FCFS (FcfsQ [''a'']) example_kv)"

lemma example_step_runs: "case example_step of Some (Inr (out, s')) \<Rightarrow> so_num_scheduled_tokens out = [(''a'', 3)] \<and> sc_running s' = [''a''] | _ \<Rightarrow> False"
  by code_simp

lemma example_step_result:
  obtains out s' where "schedule example_world (example_sched FCFS (FcfsQ [''a'']) example_kv) = Some (Inr (out, s'))"
    "so_num_scheduled_tokens out = [(''a'', 3)]" "sc_running s' = [''a'']"
  using example_step_runs by (auto simp: example_step_def split: option.splits sum.splits prod.splits)

section \<open>Properties\<close>

text \<open>
  C1: a scheduling step loses and duplicates no request. Under each of the policies, after a step that returns
  normally the running list, the waiting queue and the overflow queue of MARS hold together
  exactly the requests they held before, each of them once, and the state is orderly again.
\<close>

theorem schedule_conserves_requests:
  assumes "step_pre s" and "schedule w s = Some (Inr (out, s'))"
  shows "mset (unfinished s') = mset (unfinished s) \<and> distinct (unfinished s') \<and> sched_ok s'"
  using schedule_post [OF assms(1), of w] assms(2) sched_okD(3) by auto

theorem schedule_conserves_requests_witness:
  "\<exists>out s'. schedule example_world (example_sched FCFS (FcfsQ [''a'']) example_kv) = Some (Inr (out, s')) \<and> mset (unfinished s') = {#''a''#}"
proof -
  obtain out s' where r: "schedule example_world (example_sched FCFS (FcfsQ [''a'']) example_kv) = Some (Inr (out, s'))" by (rule example_step_result)
  have "step_pre (example_sched FCFS (FcfsQ [''a'']) example_kv)" by (rule example_step_pre) simp
  from schedule_conserves_requests [OF this r] r show ?thesis by (auto simp: unfinished_def example_sched_def wq_ids_def)
qed

text \<open>
  C5: the message of a scheduling step. Every scheduled request runs after the step and has one entry for its tokens, the new and
  the cached requests of the message are exactly the scheduled ones, the tokens add up to the announced total, and neither that total
  nor the number of running requests exceeds its limit.
\<close>

theorem schedule_output_bounds:
  assumes "step_pre s" and "schedule w s = Some (Inr (out, s'))"
  shows "so_total_num_scheduled_tokens out = sum_list (map snd (so_num_scheduled_tokens out)) \<and>
    so_total_num_scheduled_tokens out \<le> sc_max_num_scheduled_tokens s \<and> length (sc_running s') \<le> sc_max_num_running_reqs s \<and>
    distinct (map fst (so_num_scheduled_tokens out)) \<and> fst ` set (so_num_scheduled_tokens out) \<subseteq> set (sc_running s') \<and>
    mset (map fst (so_num_scheduled_tokens out)) = mset (map nr_req_id (so_new out)) + mset (cr_req_ids (so_cached out))"
  using schedule_post [OF assms(1), of w] assms(2) by (auto simp: output_ok_def)

theorem schedule_output_bounds_witness:
  "\<exists>out s'. schedule example_world (example_sched FCFS (FcfsQ [''a'']) example_kv) = Some (Inr (out, s')) \<and>
     so_total_num_scheduled_tokens out = 3 \<and> mset (map nr_req_id (so_new out)) + mset (cr_req_ids (so_cached out)) = {#''a''#}"
proof -
  obtain out s' where r: "schedule example_world (example_sched FCFS (FcfsQ [''a'']) example_kv) = Some (Inr (out, s'))"
    "so_num_scheduled_tokens out = [(''a'', 3)]" by (rule example_step_result)
  have "step_pre (example_sched FCFS (FcfsQ [''a'']) example_kv)" by (rule example_step_pre) simp
  from schedule_output_bounds [OF this r(1)] r show ?thesis by auto
qed

text \<open>
  C6: the scheduling step returns. Although the scan of the waiting queue goes on as long as requests are skipped, it
  ends, with a message or an error, whatever the connector, the structured-output manager and the policies answer; and
  the assertions on tokens, running requests and held previews at the end of the step never fail.
\<close>

theorem schedule_returns:
  assumes "step_pre s"
  shows "(\<exists>r. schedule w s = Some r) \<and> (\<forall>s' st. schedule_loops w s = Some (Inr (s', st)) \<longrightarrow> step_checks s' st)"
  using schedule_post [OF assms, of w] schedule_loops_post [OF assms, of w] by (auto simp: step_post_def)

theorem schedule_returns_witness:
  "\<exists>r. schedule example_world (example_sched FCFS (FcfsQ [''a'', ''b'']) example_kv) = Some r"
proof -
  have "step_pre (example_sched FCFS (FcfsQ [''a'', ''b'']) example_kv)" by (rule example_step_pre) simp
  from schedule_returns [OF this] show ?thesis by blast
qed

end
