(* ===== verification/Sched_Update.thy ===== *)
theory Sched_Update
  imports Sched_Output
begin

text \<open>
  What the scheduler does with the result of a model step: \<^verbatim>\<open>update_from_output\<close> and the operations it calls
  (\<^verbatim>\<open>vllm/v1/core/sched/scheduler.py\<close>, \<^verbatim>\<open>async_scheduler.py\<close>), draft tokens, statistics (\<^verbatim>\<open>vllm/v1/spec_decode/metrics.py\<close>)
  and the profile of a step. Tensors are opaque: only their presence matters.
\<close>

section \<open>New tokens of one request\<close>

fun output_loop :: "block_hasher option \<Rightarrow> int \<Rightarrow> int list \<Rightarrow> int list \<Rightarrow> request \<Rightarrow> (int list \<times> bool \<times> request) result" where
  "output_loop hasher max_model_len seen [] r = Inr (seen, False, r)"
| "output_loop hasher max_model_len seen (t # ts) r =
     rbind (append_output_token_ids hasher [t] r) (\<lambda>r.
       rbind (check_stop r max_model_len False) (\<lambda>(stopped, r).
         if stopped then Inr (seen @ [t], True, r) else output_loop hasher max_model_len (seen @ [t]) ts r))"

definition update_request_with_output :: "sched_world \<Rightarrow> req_ref \<Rightarrow> int list \<Rightarrow> sched \<Rightarrow> (int list \<times> bool \<times> sched) result" where
  "update_request_with_output w x ts s =
     rbind (output_loop (w_hasher w) (sc_max_model_len s) [] ts (sc_objs s x)) (\<lambda>(new, stopped, r).
       Inr (new, stopped, s\<lparr>sc_objs := (sc_objs s)(x := r)\<rparr>))"

definition async_update_request_with_output :: "sched_world \<Rightarrow> req_ref \<Rightarrow> int list \<Rightarrow> sched \<Rightarrow> (int list \<times> bool \<times> sched) result" where
  "async_update_request_with_output w x ts s =
     (let status_before_update = status (sc_objs s x)
      in rbind (update_request_with_output w x ts s) (\<lambda>(new, stopped, s).
        let n = num_output_placeholders (sc_objs s x) - int (length new);
            s = upd_obj x (\<lambda>r. r\<lparr>num_output_placeholders := n\<rparr>) s
        in if n < 0 then Inl AssertionError
           else if status_before_update = RUNNING
           then rbind (cache_blocks (sc_objs s x) (num_computed_tokens (sc_objs s x) - n) (sc_kv s)) (\<lambda>k.
             Inr (new, stopped, s\<lparr>sc_kv := k\<rparr>))
           else Inr (new, stopped, s)))"

section \<open>Statistics\<close>

record SpecDecodingStats =
  sd_num_spec_tokens :: nat
  sd_num_drafts :: int
  sd_num_draft_tokens :: int
  sd_num_accepted_tokens :: int
  sd_accepted_per_pos :: "int list"

definition new_spec_stats :: "nat \<Rightarrow> SpecDecodingStats" where
  "new_spec_stats n = \<lparr>sd_num_spec_tokens = n, sd_num_drafts = 0, sd_num_draft_tokens = 0, sd_num_accepted_tokens = 0,
     sd_accepted_per_pos = replicate n 0\<rparr>"

definition observe_draft :: "int \<Rightarrow> int \<Rightarrow> SpecDecodingStats \<Rightarrow> SpecDecodingStats result" where
  "observe_draft draft accepted d =
     (if accepted > int (sd_num_spec_tokens d) then Inl AssertionError
      else if accepted > int (length (sd_accepted_per_pos d)) then Inl IndexError
      else Inr (d\<lparr>sd_num_drafts := sd_num_drafts d + 1, sd_num_draft_tokens := sd_num_draft_tokens d + draft,
                  sd_num_accepted_tokens := sd_num_accepted_tokens d + accepted,
                  sd_accepted_per_pos := map (\<lambda>(i, n). if int i < accepted then n + 1 else n)
                    (zip [0..<length (sd_accepted_per_pos d)] (sd_accepted_per_pos d))\<rparr>))"

definition make_spec_decoding_stats :: "SpecDecodingStats option \<Rightarrow> int \<Rightarrow> int \<Rightarrow> sched \<Rightarrow> SpecDecodingStats option result" where
  "make_spec_decoding_stats stats draft accepted s =
     (if \<not> sc_log_stats s then Inr None
      else rbind (observe_draft draft accepted (case stats of None \<Rightarrow> new_spec_stats (sc_num_spec s) | Some d \<Rightarrow> d)) (\<lambda>d. Inr (Some d)))"

record SchedulerStats =
  ss_num_running_reqs :: int
  ss_num_waiting_reqs :: int
  ss_kv_cache_usage :: real
  ss_prefix_cache_stats :: prefix_cache_stats
  ss_spec_decoding_stats :: "SpecDecodingStats option"
  ss_num_corrupted_reqs :: int

definition make_stats :: "SpecDecodingStats option \<Rightarrow> sched \<Rightarrow> (SchedulerStats option \<times> sched) result" where
  "make_stats spec s =
     (if \<not> sc_log_stats s then Inr (None, s)
      else (case make_prefix_cache_stats (sc_kv s) of
          (None, _) \<Rightarrow> Inl AssertionError
        | (Some p, k) \<Rightarrow>
            let s = s\<lparr>sc_kv := k\<rparr>; (running, waiting) = get_request_counts s
            in Inr (Some \<lparr>ss_num_running_reqs = running, ss_num_waiting_reqs = waiting, ss_kv_cache_usage = usage k,
                      ss_prefix_cache_stats = p, ss_spec_decoding_stats = spec,
                      ss_num_corrupted_reqs = int (length (filter (\<lambda>x. is_output_corrupted (sc_objs s x)) (sc_running s)))\<rparr>, s)))"

section \<open>KV transfers\<close>

definition update_from_kv_xfer_finished :: "sched_world \<Rightarrow> req_ref list \<Rightarrow> req_ref list \<Rightarrow> sched \<Rightarrow> sched result" where
  "update_from_kv_xfer_finished w recving sending s =
     rfold (\<lambda>x s. if x \<in> set (sc_requests s) then free_blocks_of w x s else Inl KeyError) sending
       (s\<lparr>sc_finished_recving := sc_finished_recving s \<union> set recving\<rparr>)"

section \<open>The output of a model step\<close>

record ModelRunnerOutput =
  mo_req_id_to_index :: "req_ref \<rightharpoonup> nat"
  mo_sampled_token_ids :: "int list list"
  mo_prompt_logprobs :: "req_ref set"
  mo_pooler_output :: "unit option list"
  mo_kv_connector_output :: "(req_ref list \<times> req_ref list) option"
  mo_num_nans_in_logits :: "(req_ref \<rightharpoonup> int) option"

record EngineCoreOutput =
  eo_request_id :: req_ref
  eo_new_token_ids :: "int list"
  eo_finish_reason :: "FinishReason option"
  eo_pooling_output :: "unit option"
  eo_stop_reason :: "int option"
  eo_events :: "(EngineCoreEventType \<times> real) list option"
  eo_kv_transfer_params :: "(string \<times> string) list option"
  eo_num_cached_tokens :: int

record EngineCoreOutputs =
  ec_outputs :: "EngineCoreOutput list"
  ec_finished_requests :: "req_ref set option"
  ec_scheduler_stats :: "SchedulerStats option"

text \<open>The locals of the loop over the scheduled requests.\<close>

record update_locals =
  ul_outputs :: "(int \<times> EngineCoreOutput list) list"
  ul_stopped_running :: "req_ref list"
  ul_stopped_preempted :: "req_ref list"
  ul_spec_stats :: "SpecDecodingStats option"

definition note_output :: "req_ref \<Rightarrow> int list \<Rightarrow> unit option \<Rightarrow> (string \<times> string) list option \<Rightarrow> sched \<times> update_locals \<Rightarrow> sched \<times> update_locals" where
  "note_output x new pooler params = (\<lambda>(s, u).
     let r = sc_objs s x; (evs, r') = request_take_events r;
         eo = \<lparr>eo_request_id = x, eo_new_token_ids = new, eo_finish_reason = get_finished_reason (status r),
               eo_pooling_output = pooler, eo_stop_reason = stop_reason r, eo_events = evs, eo_kv_transfer_params = params,
               eo_num_cached_tokens = num_cached_tokens r\<rparr>;
         outs = (case map_of (ul_outputs u) (client_index r) of Some l \<Rightarrow> l | None \<Rightarrow> [])
     in (s\<lparr>sc_objs := (sc_objs s)(x := r')\<rparr>, u\<lparr>ul_outputs := AList.update (client_index r) (outs @ [eo]) (ul_outputs u)\<rparr>))"

definition apply_rejections :: "req_ref \<Rightarrow> int list \<Rightarrow> int list \<Rightarrow> sched \<times> update_locals \<Rightarrow> (sched \<times> update_locals) result" where
  "apply_rejections x spec generated = (\<lambda>(s, u).
     if spec = [] then Inr (s, u)
     else
       let draft = int (length spec); accepted = int (length generated) - 1
       in rbind (make_spec_decoding_stats (ul_spec_stats u) draft accepted s) (\<lambda>d.
            Inr (upd_obj x (\<lambda>r. r\<lparr>num_computed_tokens := num_computed_tokens r - (draft - accepted)\<rparr>) s, u\<lparr>ul_spec_stats := d\<rparr>)))"

text \<open>The new tokens go to the request; for a pooling model the pooled output decides whether it stops.\<close>

definition take_tokens :: "sched_world \<Rightarrow> req_ref \<Rightarrow> int list \<Rightarrow> sched \<Rightarrow> (int list \<times> bool \<times> sched) result" where
  "take_tokens w x generated s =
     (if generated = [] then Inr ([], False, s)
      else if sc_async s then async_update_request_with_output w x generated s
      else update_request_with_output w x generated s)"

definition take_pooled :: "ModelRunnerOutput \<Rightarrow> nat \<Rightarrow> req_ref \<Rightarrow> bool \<Rightarrow> sched \<Rightarrow> (unit option \<times> bool \<times> sched) result" where
  "take_pooled mo i x stopped s =
     (if mo_pooler_output mo = [] then Inr (None, stopped, s)
      else rbind (py_nth (mo_pooler_output mo) (int i)) (\<lambda>po.
        rbind (check_stop (sc_objs s x) (sc_max_model_len s) (po \<noteq> None)) (\<lambda>(stopped, r).
          Inr (po, stopped, s\<lparr>sc_objs := (sc_objs s)(x := r)\<rparr>))))"

definition note_stopped :: "req_ref \<Rightarrow> RequestStatus \<Rightarrow> bool \<Rightarrow> update_locals \<Rightarrow> update_locals" where
  "note_stopped x status_before_stop stopped u =
     (if \<not> stopped then u
      else if status_before_stop = RUNNING then u\<lparr>ul_stopped_running := List.insert x (ul_stopped_running u)\<rparr>
      else u\<lparr>ul_stopped_preempted := List.insert x (ul_stopped_preempted u)\<rparr>)"

definition note_result :: "ModelRunnerOutput \<Rightarrow> req_ref \<Rightarrow> int list \<Rightarrow> unit option \<Rightarrow> (string \<times> string) list option \<Rightarrow> sched \<times> update_locals \<Rightarrow>
    (sched \<times> update_locals) result" where
  "note_result mo x new pooler params = (\<lambda>(s, u).
     let s = (case Option.bind (mo_num_nans_in_logits mo) (\<lambda>d. d x) of
                None \<Rightarrow> s | Some k \<Rightarrow> upd_obj x (\<lambda>r. r\<lparr>num_nans_in_logits := k\<rparr>) s)
     in if new \<noteq> [] \<or> pooler \<noteq> None \<or> (params \<noteq> None \<and> params \<noteq> Some [])
        then Inr (note_output x new pooler params (s, u))
        else if x \<in> mo_prompt_logprobs mo then Inl AssertionError
        else Inr (s, u))"

definition update_one :: "sched_world \<Rightarrow> SchedulerOutput \<Rightarrow> ModelRunnerOutput \<Rightarrow> req_ref \<times> int \<Rightarrow> sched \<times> update_locals \<Rightarrow> (sched \<times> update_locals) result" where
  "update_one w so mo = (\<lambda>(x, n) (s, u).
     if n \<le> 0 then Inl AssertionError
     else if x \<notin> set (sc_requests s) then Inr (s, u)
     else (case mo_req_id_to_index mo x of
         None \<Rightarrow> Inl KeyError
       | Some i \<Rightarrow>
           rbind (if mo_sampled_token_ids mo = [] then Inr [] else py_nth (mo_sampled_token_ids mo) (int i)) (\<lambda>generated.
             rbind (apply_rejections x (case map_of (so_spec so) x of Some ts \<Rightarrow> ts | None \<Rightarrow> []) generated (s, u)) (\<lambda>(s, u).
               let status_before_stop = status (sc_objs s x)
               in rbind (take_tokens w x generated s) (\<lambda>(new, stopped, s).
                 rbind (take_pooled mo i x stopped s) (\<lambda>(pooler, stopped, s).
                   rbind (if stopped then free_request w x s else Inr (None, s)) (\<lambda>(params, s).
                     note_result mo x new pooler params (s, note_stopped x status_before_stop stopped u))))))))"

definition add_finished :: "int \<times> req_ref set \<Rightarrow> (int \<times> EngineCoreOutputs) list \<Rightarrow> (int \<times> EngineCoreOutputs) list" where
  "add_finished = (\<lambda>(c, xs) outs.
     AList.update c (case map_of outs c of
         Some eco \<Rightarrow> eco\<lparr>ec_finished_requests := Some xs\<rparr>
       | None \<Rightarrow> \<lparr>ec_outputs = [], ec_finished_requests = Some xs, ec_scheduler_stats = None\<rparr>) outs)"

definition add_stats :: "SchedulerStats \<Rightarrow> (int \<times> EngineCoreOutputs) list \<Rightarrow> (int \<times> EngineCoreOutputs) list" where
  "add_stats stats outs = (case outs of
       [] \<Rightarrow> [(0, \<lparr>ec_outputs = [], ec_finished_requests = None, ec_scheduler_stats = Some stats\<rparr>)]
     | (c, eco) # rest \<Rightarrow> (c, eco\<lparr>ec_scheduler_stats := Some stats\<rparr>) # rest)"

definition drop_stopped :: "update_locals \<Rightarrow> sched \<Rightarrow> sched result" where
  "drop_stopped u s =
     (let s = s\<lparr>sc_running := remove_all (sc_running s) (ul_stopped_running u)\<rparr>
      in if ul_stopped_preempted u = [] then Inr s
         else rbind (wq_remove_requests (ul_stopped_preempted u) (sc_waiting s)) (\<lambda>q. Inr (s\<lparr>sc_waiting := q\<rparr>)))"

definition update_from_kv_connector :: "sched_world \<Rightarrow> ModelRunnerOutput \<Rightarrow> sched \<Rightarrow> sched result" where
  "update_from_kv_connector w mo s =
     (case mo_kv_connector_output mo of None \<Rightarrow> Inr s
      | Some (recving, sending) \<Rightarrow> update_from_kv_xfer_finished w recving sending s)"

definition update_from_output :: "sched_world \<Rightarrow> SchedulerOutput \<Rightarrow> ModelRunnerOutput \<Rightarrow> sched \<Rightarrow> ((int \<times> EngineCoreOutputs) list \<times> sched) result" where
  "update_from_output w so mo s =
     rbind (rfold (update_one w so mo) (so_num_scheduled_tokens so)
              (s, \<lparr>ul_outputs = [], ul_stopped_running = [], ul_stopped_preempted = [], ul_spec_stats = None\<rparr>)) (\<lambda>(s, u).
       rbind (drop_stopped u s) (\<lambda>s.
         rbind (update_from_kv_connector w mo s) (\<lambda>s.
           let outs = map (\<lambda>(c, l). (c, \<lparr>ec_outputs = l, ec_finished_requests = None, ec_scheduler_stats = None\<rparr>)) (ul_outputs u);
               outs = (case sc_finished_dict s of None \<Rightarrow> outs | Some d \<Rightarrow> fold add_finished d outs);
               s = s\<lparr>sc_finished_dict := map_option (\<lambda>_. []) (sc_finished_dict s)\<rparr>
           in rbind (make_stats (ul_spec_stats u) s) (\<lambda>(stats, s).
                Inr (case stats of None \<Rightarrow> outs | Some st \<Rightarrow> add_stats st outs, s)))))"

section \<open>Draft tokens\<close>

definition update_draft_token_ids :: "sched_world \<Rightarrow> req_ref list \<Rightarrow> int list list \<Rightarrow> sched \<Rightarrow> sched" where
  "update_draft_token_ids w ids drafts s =
     fold (\<lambda>(x, spec) s.
       if x \<notin> set (sc_requests s) \<or> is_finished (sc_objs s x) then s
       else upd_obj x (\<lambda>r. r\<lparr>spec_token_ids :=
              (if spec = [] then [] else if w_should_advance w r then w_validate_tokens w r spec else spec)\<rparr>) s)
       (zip ids drafts) s"

definition sched_reset_prefix_cache :: "sched \<Rightarrow> (bool \<times> sched) result" where
  "sched_reset_prefix_cache s = rbind (reset_prefix_cache (sc_kv s)) (\<lambda>(ok, k). Inr (ok, s\<lparr>sc_kv := k\<rparr>))"

section \<open>The profile of a step\<close>

datatype batch_mode = pd_mixed | prefill_only | decode_only | other_batch

record profile_meta =
  pm_batch_mode :: batch_mode
  pm_scheduled_req_count :: nat
  pm_running_queue_len :: int
  pm_waiting_queue_len :: int
  pm_total_scheduled_tokens :: int
  pm_prefill_req_count :: int
  pm_prefill_token_count :: int
  pm_decode_req_count :: int
  pm_decode_token_count :: int
  pm_spec_decode_token_count :: int
  pm_seq_lens_after :: "int list"
  pm_request_ids_sample :: "req_ref list"

definition prefill_part :: "request \<Rightarrow> int \<Rightarrow> int" where
  "prefill_part r scheduled =
     max 0 (min scheduled ((if num_prompt_tokens r \<le> 0 then int (length (prompt_token_ids r)) else num_prompt_tokens r) - num_computed_tokens r))"

definition decode_part :: "request \<Rightarrow> int \<Rightarrow> int" where
  "decode_part r scheduled = max 0 (scheduled - prefill_part r scheduled)"

definition make_forward_step_profile_meta :: "req_ref list \<Rightarrow> (req_ref \<times> int) list \<Rightarrow> int \<Rightarrow> (req_ref \<times> int list) list \<Rightarrow> sched \<Rightarrow> profile_meta option" where
  "make_forward_step_profile_meta xs num tot spec s =
     (if tot \<le> 0 then None
      else
        let scheduled = (\<lambda>x. case map_of num x of Some n \<Rightarrow> n | None \<Rightarrow> 0);
            xs = filter (\<lambda>x. scheduled x > 0) xs;
            pre = map (\<lambda>x. prefill_part (sc_objs s x) (scheduled x)) xs;
            dec = map (\<lambda>x. decode_part (sc_objs s x) (scheduled x)) xs;
            p = sum_list pre; d = sum_list dec; (running, waiting) = get_request_counts s
        in Some \<lparr>pm_batch_mode = (if p > 0 \<and> d > 0 then pd_mixed else if p > 0 then prefill_only else if d > 0 then decode_only else other_batch),
                 pm_scheduled_req_count = length num, pm_running_queue_len = running, pm_waiting_queue_len = waiting,
                 pm_total_scheduled_tokens = tot,
                 pm_prefill_req_count = int (length (filter (\<lambda>n. n > 0) pre)), pm_prefill_token_count = p,
                 pm_decode_req_count = int (length (filter (\<lambda>n. n > 0) dec)), pm_decode_token_count = d,
                 pm_spec_decode_token_count = sum_list (map (\<lambda>(_, ts). int (length ts)) spec),
                 pm_seq_lens_after = map (\<lambda>x. num_computed_tokens (sc_objs s x) + scheduled x) xs,
                 pm_request_ids_sample = take 16 xs\<rparr>)"

end
