(* ===== verification/Sched_Lifetime.thy ===== *)
theory Sched_Lifetime
  imports Schedule_Correct Sched_Update
begin

text \<open>
  The other operations of the scheduler: arrival, abortion, and the results of a model step. Together with the
  scheduling step they keep the state orderly, and a request leaves it only when it is finished.
\<close>

section \<open>Removing several requests from a queue\<close>

text \<open>The queue keeps what is not named and holds nothing new.\<close>

definition leaves :: "req_ref set \<Rightarrow> request_queue \<Rightarrow> request_queue \<Rightarrow> bool" where
  "leaves X q q' \<longleftrightarrow> wq_wf q' \<and> set (wq_ids q') \<subseteq> set (wq_ids q) \<and> set (wq_ids q) \<subseteq> set (wq_ids q') \<union> X \<and>
     (\<forall>m. q = MarsQ m \<longrightarrow> (\<exists>m'. q' = MarsQ m'))"

lemma leaves_refl: "wq_wf q \<Longrightarrow> leaves X q q"
  by (simp add: leaves_def)

lemma leaves_trans: "leaves X q q' \<Longrightarrow> leaves Y q' q'' \<Longrightarrow> leaves (X \<union> Y) q q''"
  by (auto simp: leaves_def)

lemma aut_remove_in: "aut_remove_request x a = Inr a' \<Longrightarrow> x \<in> set (aut_iter a)"
proof -
  assume r: "aut_remove_request x a = Inr a'"
  have slow: "x \<in> set (aut_iter a)" if "remove_first_in x (aq_queues a) = Some ds" for ds
    using remove_first_in_ids [OF that] by (metis aut_iter_def set_mset_mset union_single_eq_member)
  have "d \<in> set (aq_queues a)" if "py_nth (aq_queues a) i = Inr d" for d i
    using that by (auto simp: py_nth_def Let_def split: if_splits)
  then show ?thesis using r slow by (auto simp: aut_remove_request_def aut_iter_def Let_def split: option.splits if_splits)
qed

lemma mars_remove_leaves:
  assumes "mars_wf m"
  shows "mars_wf (mars_remove_request x m) \<and> mars_ids (mars_remove_request x m) = filter (\<lambda>y. y \<noteq> x) (mars_ids m)"
  using assms by (auto simp: mars_wf_def mars_ids_def mars_remove_request_def AList_delete_filter map_fst_filter)

lemma mars_remove_requests_leaves: "mars_wf m \<Longrightarrow> leaves (set xs) (MarsQ m) (MarsQ (mars_remove_requests xs m))"
proof (induction xs arbitrary: m)
  case (Cons x xs)
  note r = mars_remove_leaves [OF Cons.prems, of x]
  have "leaves {x} (MarsQ m) (MarsQ (mars_remove_request x m))"
    using r Cons.prems by (auto simp: leaves_def wq_wf_def wq_ids_def mars_wf_def)
  from leaves_trans [OF this Cons.IH] r show ?case by (simp add: mars_remove_requests_def)
qed (simp add: leaves_refl wq_wf_def mars_remove_requests_def mars_wf_def wq_ids_def)

lemma aut_remove_requests_leaves:
  "aut_remove_requests xs a = Inr a' \<Longrightarrow> wq_wf (AutQ a) \<Longrightarrow> leaves (set xs) (AutQ a) (AutQ a')"
proof (induction xs arbitrary: a)
  case (Cons x xs)
  from Cons.prems(1) obtain b where b: "b = a \<or> aut_remove_request x a = Inr b" and rest: "aut_remove_requests xs b = Inr a'"
    by (auto simp: aut_remove_requests_def split: sum.splits py_error.splits)
  have one: "leaves {x} (AutQ a) (AutQ b)"
  proof (cases "b = a")
    case False
    then have r: "wq_remove_request x (AutQ a) = Inr (AutQ b)" using b by (simp add: wq_remove_request_def)
    have "x \<in> set (wq_ids (AutQ a))" using b False aut_remove_in by (auto simp: wq_ids_def)
    note m = wq_remove_ids [OF Cons.prems(2) r this]
    then have "set (wq_ids (AutQ a)) = insert x (set (wq_ids (AutQ b)))"
      using mset_eq_setD [of "wq_ids (AutQ a)" "x # wq_ids (AutQ b)"] by simp
    then show ?thesis using m by (auto simp: leaves_def)
  qed (use Cons.prems in \<open>simp add: leaves_refl\<close>)
  then have "wq_wf (AutQ b)" by (simp add: leaves_def)
  from leaves_trans [OF one Cons.IH [OF rest this]] show ?case by simp
qed (simp add: aut_remove_requests_def leaves_refl)

lemma wq_remove_requests_leaves:
  assumes "wq_remove_requests xs q = Inr q'" and "wq_wf q"
  shows "leaves (set xs) q q'"
proof (cases q)
  case (PrioQ h)
  with assms(1) obtain h' where h': "heapify prio_lt (filter (\<lambda>(p, t, r). r \<notin> set xs) h) = Inr h'" "q' = PrioQ h'"
    by (auto simp: wq_remove_requests_def prio_remove_requests_def)
  have "prio_ids (filter (\<lambda>(p, t, r). r \<notin> set xs) h) = filter (\<lambda>z. z \<notin> set xs) (prio_ids h)"
    by (induction h) (auto simp: prio_ids_def)
  moreover have "mset (prio_ids h') = mset (prio_ids (filter (\<lambda>(p, t, r). r \<notin> set xs) h))" by (simp only: prio_ids_def mset_map heapify_mset [OF h'(1)])
  ultimately have m: "mset (prio_ids h') = mset (filter (\<lambda>z. z \<notin> set xs) (prio_ids h))" by simp
  then have "distinct (prio_ids h')" using mset_eq_imp_distinct_iff [OF m] assms(2) PrioQ by (simp add: wq_wf_def wq_ids_def)
  then show ?thesis using mset_eq_setD [OF m] PrioQ h'(2) by (auto simp: leaves_def wq_wf_def wq_ids_def)
next
  case (AutQ a)
  then show ?thesis using assms aut_remove_requests_leaves by (auto simp: wq_remove_requests_def)
next
  case (MarsQ m)
  then show ?thesis using assms mars_remove_requests_leaves by (auto simp: wq_remove_requests_def wq_wf_def)
qed (use assms in \<open>auto simp: wq_remove_requests_def leaves_def wq_wf_def wq_ids_def deque_remove_requests_def cont_remove_requests_def\<close>)

lemma remove_all_filter: "distinct xs \<Longrightarrow> distinct (remove_all xs ys) \<and> set (remove_all xs ys) = set xs - set ys"
  by (auto simp: remove_all_def split: list.splits)

text \<open>What is left of an orderly state when the named requests are taken out of the running list and of the queue.\<close>

lemma taken_out_ok:
  assumes "sched_ok s" and "leaves X (sc_waiting s) q" and "set over \<subseteq> set (sc_mars_overflow s)" "distinct over"
    and s': "sc_running s' = remove_all (sc_running s) ys" "sc_waiting s' = q" "sc_mars_overflow s' = over" "sc_policy s' = sc_policy s"
      "\<And>x. request_id (sc_objs s' x) = x"
  shows "sched_ok s' \<and> set (unfinished s') \<subseteq> set (unfinished s) \<and>
    set (unfinished s) \<subseteq> set (unfinished s') \<union> set ys \<union> X \<union> (set (sc_mars_overflow s) - set over)"
proof -
  have d: "distinct (sc_running s)" "set (sc_running s) \<inter> set (wq_ids (sc_waiting s)) = {}" "set (sc_running s) \<inter> set (sc_mars_overflow s) = {}"
    "set (wq_ids (sc_waiting s)) \<inter> set (sc_mars_overflow s) = {}"
    using sched_okD(3) [OF assms(1)] by (auto simp: unfinished_def)
  note r = remove_all_filter [OF d(1), of ys]
  have q: "wq_wf q" "set (wq_ids q) \<subseteq> set (wq_ids (sc_waiting s))" "set (wq_ids (sc_waiting s)) \<subseteq> set (wq_ids q) \<union> X" "distinct (wq_ids q)"
    using assms(2) by (simp_all add: leaves_def wq_wf_def)
  have "distinct (unfinished s')" using r q d assms(3,4) s'(1-3) by (auto simp: unfinished_def)
  moreover have "\<exists>m. q = MarsQ m" if "sc_policy s' = MARS" using sched_okD(4) [OF assms(1)] that s'(4) assms(2) by (auto simp: leaves_def)
  ultimately have "sched_ok s'" using q(1) s' by (simp add: sched_ok_def)
  then show ?thesis using r q(2,3) assms(3) s'(1-3) by (auto simp: unfinished_def)
qed

section \<open>Freeing a request\<close>

text \<open>Operations that leave every request where it is, with its status.\<close>

definition frees :: "sched \<Rightarrow> sched \<Rightarrow> bool" where
  "frees s s' \<longleftrightarrow> keeps s s' \<and> (\<forall>y. status (sc_objs s' y) = status (sc_objs s y))"

lemma frees_refl [simp, intro]: "frees s s"
  by (simp add: frees_def)

lemma frees_trans [trans]: "frees s1 s2 \<Longrightarrow> frees s2 s3 \<Longrightarrow> frees s1 s3"
  by (auto simp: frees_def intro: keeps_trans)

lemma frees_same: "keeps s s' \<Longrightarrow> sc_objs s' = sc_objs s \<Longrightarrow> frees s s'"
  by (simp add: frees_def)

lemma unpin_request_frees: "unpin_request x t s = Inr s' \<Longrightarrow> frees s s'"
  by (auto simp: unpin_request_def frees_def split: if_splits)

lemma forget_request_frees: "forget_request x s = Inr s' \<Longrightarrow> frees s s'"
  by (auto simp: forget_request_def frees_def keeps_def limits_def split: if_splits)

lemma free_and_forget_frees: "free_and_forget x s = Inr s' \<Longrightarrow> frees s s'"
  by (auto simp: free_and_forget_def frees_def keeps_def limits_def dest!: forget_request_frees)

lemma pin_and_forget_frees: "pin_and_forget now x t s = Inr s' \<Longrightarrow> frees s s'"
  by (auto simp: pin_and_forget_def pin_request_def frees_def keeps_def limits_def dest!: forget_request_frees)

lemma rfold_frees:
  assumes "rfold f xs s = Inr s'" and "\<And>x t t'. f x t = Inr t' \<Longrightarrow> frees t t'"
  shows "frees s s'"
  using assms(1) by (rule rfold_invariant) (use assms(2) frees_trans in blast)+

lemma free_blocks_of_frees:
  assumes "free_blocks_of w x s = Inr s'"
  shows "frees s s'"
proof -
  let ?un = "\<lambda>(y, end_time) t. if job_id (sc_objs t y) = job_id (sc_objs s x) then unpin_request y end_time t else Inr t"
  from assms obtain t where t: "rfold ?un (sc_pinned s) s = Inr t"
    and rest: "\<exists>d. pin_and_forget (w_now w) x d (t\<lparr>sc_mars_levels := (sc_mars_levels t)(x := None), sc_mars_last := (sc_mars_last t)(x := None)\<rparr>) = Inr s' \<or>
      free_and_forget x (t\<lparr>sc_mars_levels := (sc_mars_levels t)(x := None), sc_mars_last := (sc_mars_last t)(x := None)\<rparr>) = Inr s'"
    unfolding free_blocks_of_def Let_def by (auto simp del: rfold.simps split: if_splits option.splits kv_action.splits)
  let ?t = "t\<lparr>sc_mars_levels := (sc_mars_levels t)(x := None), sc_mars_last := (sc_mars_last t)(x := None)\<rparr>"
  have "frees s t" by (rule rfold_frees [OF t]) (auto split: if_splits dest: unpin_request_frees)
  also have "frees t ?t" by (simp add: frees_def)
  also have "frees ?t s'" using rest pin_and_forget_frees free_and_forget_frees by blast
  finally show ?thesis .
qed

lemma lightllm_on_finished_frees:
  assumes "lightllm_on_finished x s = Inr s'"
  shows "frees s s'"
proof -
  have drop: "frees s t" if "lightllm_drop_deferred x s = Inr t" for t
    using that by (auto simp: lightllm_drop_deferred_def frees_def keeps_def limits_def split: option.splits dest!: lightllm_release_keeps)
  show ?thesis
  proof (cases "sc_policy s = LIGHTLLM")
    case True
    with assms obtain t where t: "lightllm_drop_deferred x s = Inr t" "s' = t \<or> (\<exists>c. s' = t\<lparr>sc_lightllm := c\<rparr>)"
      by (auto simp: lightllm_on_finished_def split: if_splits option.splits)
    then have "frees t s'" by (auto simp: frees_def keeps_def limits_def)
    then show ?thesis using drop [OF t(1)] frees_trans by blast
  qed (use assms in \<open>simp add: lightllm_on_finished_def\<close>)
qed

lemma policies_on_finished_frees:
  "frees s (infercept_prepare_finished_request w x (autellix_on_finished x (continuum_on_finished r s)))"
proof -
  have "frees s (continuum_on_finished r s)" by (auto simp: continuum_on_finished_def frees_def keeps_def limits_def Let_def split: option.splits)
  also have "frees \<dots> (autellix_on_finished x (continuum_on_finished r s))"
    by (auto simp: autellix_on_finished_def frees_def keeps_def limits_def Let_def)
  also have "frees \<dots> (infercept_prepare_finished_request w x (autellix_on_finished x (continuum_on_finished r s)))"
    by (auto simp: infercept_prepare_finished_request_def frees_def set_attrs_def split: option.splits)
  finally show ?thesis .
qed

lemma free_request_frees:
  assumes "free_request w x s = Inr (params, s')"
  shows "frees s s' \<and> is_finished (sc_objs s x)"
proof -
  have fin: "is_finished (sc_objs s x)" using assms by (cases "is_finished (sc_objs s x)") (simp_all add: free_request_def)
  with assms obtain s1 where s1: "lightllm_on_finished x s = Inr s1" by (auto simp: free_request_def)
  obtain r e where re: "est_request_finished (w_parse w) (w_now w) (sc_objs s1 x) (sc_estimator s1) = (r, e)" by (rule prod.exhaust)
  define s2 where "s2 = s1\<lparr>sc_objs := (sc_objs s1)(x := r), sc_estimator := e\<rparr>"
  define s3 where "s3 = infercept_prepare_finished_request w x (autellix_on_finished x (continuum_on_finished r s2))"
  from assms fin s1 re obtain enc delay where last: "(if delay then Inr (note_finished x (s3\<lparr>sc_encoder := enc\<rparr>))
      else free_blocks_of w x (note_finished x (s3\<lparr>sc_encoder := enc\<rparr>))) = Inr s'"
    unfolding free_request_def s3_def s2_def by (auto simp: Let_def)
  have "frees s s1" by (rule lightllm_on_finished_frees [OF s1])
  also have "frees s1 s2" using re by (auto simp: s2_def est_request_finished_def frees_def keeps_def limits_def Let_def)
  also have "frees s2 s3" unfolding s3_def by (rule policies_on_finished_frees)
  also have "frees s3 (note_finished x (s3\<lparr>sc_encoder := enc\<rparr>))" by (simp add: note_finished_def frees_def keeps_def limits_def)
  also have "frees (note_finished x (s3\<lparr>sc_encoder := enc\<rparr>)) s'" using last free_blocks_of_frees by (cases delay) auto
  finally show ?thesis using fin by simp
qed

section \<open>The results of a model step\<close>

text \<open>
  Operations that leave every request where it is and finish some, given that the requests in \<open>X\<close>
  are finished afterwards: a finished request stays finished.
\<close>

definition finishes :: "req_ref set \<Rightarrow> sched \<Rightarrow> sched \<Rightarrow> bool" where
  "finishes X s s' \<longleftrightarrow> keeps s s' \<and> (\<forall>y. is_finished (sc_objs s y) \<longrightarrow> is_finished (sc_objs s' y)) \<and> (\<forall>y\<in>X. is_finished (sc_objs s' y))"

lemma finishes_trans: "finishes X s1 s2 \<Longrightarrow> finishes Y s2 s3 \<Longrightarrow> finishes (X \<union> Y) s1 s3"
  by (auto simp: finishes_def intro: keeps_trans)

lemma frees_finishes: "frees s s' \<Longrightarrow> finishes {} s s'"
  by (simp add: frees_def finishes_def is_finished_def)

lemma finishes_obj:
  assumes "request_id r = request_id (sc_objs s x)" and "is_finished (sc_objs s x) \<Longrightarrow> is_finished r"
  shows "finishes (if is_finished r then {x} else {}) s (s\<lparr>sc_objs := (sc_objs s)(x := r)\<rparr>)"
  using assms by (simp add: finishes_def keeps_def limits_def)

lemma check_stop_obj:
  assumes "check_stop r n po = Inr (stopped, r')"
  shows "request_id r' = request_id r" "is_finished r \<Longrightarrow> is_finished r'" "stopped \<Longrightarrow> is_finished r'"
proof -
  show "stopped \<Longrightarrow> is_finished r'" "is_finished r \<Longrightarrow> is_finished r'" using check_stop_status [OF assms] by (auto simp: is_finished_def split: if_splits)
  show "request_id r' = request_id r"
    using assms by (cases "py_nth (output_token_ids r) (-1)") (auto simp: check_stop_def split: if_split_asm option.split_asm)
qed

lemma output_loop_obj:
  "output_loop hasher n seen ts r = Inr (new, stopped, r') \<Longrightarrow>
     request_id r' = request_id r \<and> (is_finished r \<longrightarrow> is_finished r') \<and> (stopped \<longrightarrow> is_finished r')"
proof (induction ts arbitrary: seen r)
  case (Cons t ts)
  obtain r1 y where r1: "append_output_token_ids hasher [t] r = Inr r1" and y: "check_stop r1 n False = Inr y"
    and c: "(case y of (st, r) \<Rightarrow> if st then Inr (seen @ [t], True, r) else output_loop hasher n (seen @ [t]) ts r) = (Inr (new, stopped, r') :: (int list \<times> bool \<times> request) result)"
    using Cons.prems unfolding output_loop.simps by (elim rbindE) (erule (2) that)
  obtain st r2 where y2: "y = (st, r2)" by (rule prod.exhaust)
  note r2 = y [unfolded y2] and rest = c [unfolded y2 prod.case]
  have a: "request_id r1 = request_id r \<and> status r1 = status r" using r1 by (auto simp: append_output_token_ids_def Let_def split: option.splits)
  then show ?case using rest check_stop_obj [OF r2] Cons.IH [of "seen @ [t]" r2] by (cases st) (auto simp: is_finished_def)
qed simp

lemma take_tokens_finishes:
  assumes "take_tokens w x ts s = Inr (new, stopped, s')"
  shows "finishes (if stopped then {x} else {}) s s'"
proof -
  have sync: "finishes (if stopped then {x} else {}) s t" if "update_request_with_output w x ts s = Inr (new, stopped, t)" for t
  proof -
    from that obtain r where r: "output_loop (w_hasher w) (sc_max_model_len s) [] ts (sc_objs s x) = Inr (new, stopped, r)"
      and t: "t = s\<lparr>sc_objs := (sc_objs s)(x := r)\<rparr>" by (auto simp: update_request_with_output_def)
    show ?thesis using output_loop_obj [OF r] finishes_obj [of r s x] t by (auto simp: finishes_def)
  qed
  show ?thesis
  proof (cases "sc_async s \<and> ts \<noteq> []")
    case True
    with assms obtain t k where t: "update_request_with_output w x ts s = Inr (new, stopped, t)"
      and s': "s' = (upd_obj x (\<lambda>r. r\<lparr>num_output_placeholders := num_output_placeholders (sc_objs t x) - int (length new)\<rparr>) t)\<lparr>sc_kv := k\<rparr> \<or>
        s' = upd_obj x (\<lambda>r. r\<lparr>num_output_placeholders := num_output_placeholders (sc_objs t x) - int (length new)\<rparr>) t"
      by (auto simp: take_tokens_def async_update_request_with_output_def Let_def split: if_splits)
    have "finishes {} t s'" using s' by (auto simp: finishes_def upd_obj_def keeps_def limits_def is_finished_def)
    from finishes_trans [OF sync [OF t] this] show ?thesis by simp
  next
    case False
    then show ?thesis using assms sync by (auto simp: take_tokens_def finishes_def split: if_splits)
  qed
qed

definition stopped_of :: "update_locals \<Rightarrow> req_ref set" where
  "stopped_of u = set (ul_stopped_running u) \<union> set (ul_stopped_preempted u)"

lemma apply_rejections_finishes:
  assumes "apply_rejections x spec ts (s, u) = Inr (s', u')"
  shows "finishes {} s s' \<and> stopped_of u' = stopped_of u"
  using assms by (auto simp: apply_rejections_def Let_def upd_obj_def finishes_def keeps_def limits_def is_finished_def stopped_of_def split: if_splits)

lemma note_output_finishes:
  assumes "note_output x new po params (s, u) = (s', u')"
  shows "finishes {} s s' \<and> stopped_of u' = stopped_of u"
  using assms by (auto simp: note_output_def request_take_events_def Let_def finishes_def keeps_def limits_def is_finished_def stopped_of_def split: if_splits)

lemma take_pooled_finishes:
  assumes "take_pooled mo i x stopped s = Inr (po, stopped', s')"
  shows "finishes (if stopped' \<and> mo_pooler_output mo \<noteq> [] then {x} else {}) s s' \<and> (mo_pooler_output mo = [] \<longrightarrow> stopped' = stopped)"
proof (cases "mo_pooler_output mo = []")
  case False
  with assms obtain r where r: "check_stop (sc_objs s x) (sc_max_model_len s) (po \<noteq> None) = Inr (stopped', r)" and s': "s' = s\<lparr>sc_objs := (sc_objs s)(x := r)\<rparr>"
    by (auto simp: take_pooled_def)
  show ?thesis using finishes_obj [of r s x] check_stop_obj [OF r] s' False by (auto simp: finishes_def)
qed (use assms in \<open>simp add: take_pooled_def finishes_def\<close>)

lemma note_stopped_of: "stopped_of (note_stopped x before stopped u) = stopped_of u \<union> (if stopped then {x} else {})"
  by (auto simp: note_stopped_def stopped_of_def)

lemma note_result_finishes:
  assumes "note_result mo x new po params (s, u) = Inr (s', u')"
  shows "finishes {} s s' \<and> stopped_of u' = stopped_of u"
proof -
  define t where "t = (case Option.bind (mo_num_nans_in_logits mo) (\<lambda>d. d x) of None \<Rightarrow> s | Some k \<Rightarrow> upd_obj x (\<lambda>r. r\<lparr>num_nans_in_logits := k\<rparr>) s)"
  have t: "finishes {} s t" by (auto simp: t_def finishes_def upd_obj_def keeps_def limits_def is_finished_def split: option.splits)
  have "note_output x new po params (t, u) = (s', u') \<or> (s', u') = (t, u)"
    using assms by (auto simp: note_result_def Let_def simp flip: t_def split: if_splits)
  then show ?thesis using t note_output_finishes [of x new po params t u s' u'] finishes_trans [of "{}" s t "{}" s'] by auto
qed

lemma update_one_finishes:
  assumes "update_one w so mo p (s, u) = Inr (s', u')"
  shows "finishes (stopped_of u' - stopped_of u) s s'"
proof -
  obtain x n where p: "p = (x, n)" by (rule prod.exhaust)
  show ?thesis
  proof (cases "n \<le> 0 \<or> x \<notin> set (sc_requests s)")
    case True
    then have "s' = s" "u' = u" using assms p by (auto simp: update_one_def split: if_splits)
    then show ?thesis by (simp add: finishes_def)
  next
    case False
    then obtain i where i: "mo_req_id_to_index mo x = Some i" using assms p by (auto simp: update_one_def split: option.splits)
    with False p assms obtain ts s1 u1 new st2 s2 po st3 s3 params s4 where
      s1: "apply_rejections x (case map_of (so_spec so) x of Some ts \<Rightarrow> ts | None \<Rightarrow> []) ts (s, u) = Inr (s1, u1)"
      and s2: "take_tokens w x ts s1 = Inr (new, st2, s2)" and s3: "take_pooled mo i x st2 s2 = Inr (po, st3, s3)"
      and s4: "(if st3 then free_request w x s3 else Inr (None, s3)) = Inr (params, s4)"
      and s5: "note_result mo x new po params (s4, note_stopped x (status (sc_objs s1 x)) st3 u1) = Inr (s', u')"
      by (auto simp: update_one_def Let_def)
    have f4: "finishes (if st3 then {x} else {}) s3 s4"
      using s4 free_request_frees [of w x s3 params s4] by (cases st3) (auto simp: finishes_def frees_def is_finished_def)
    note f = apply_rejections_finishes [OF s1] take_tokens_finishes [OF s2] take_pooled_finishes [OF s3] note_result_finishes [OF s5]
    have "keeps s s'" using f f4 by (simp add: finishes_def keeps_def)
    then have "finishes (if st3 then {x} else {}) s s'" using f f4 by (auto simp: finishes_def split: if_splits)
    moreover have "stopped_of u' - stopped_of u \<subseteq> (if st3 then {x} else {})" using f(1,4) note_stopped_of by auto
    ultimately show ?thesis by (auto simp: finishes_def)
  qed
qed

lemma update_loop_finishes:
  assumes "rfold (update_one w so mo) ps (s, u) = Inr (s', u')" and "stopped_of u = {}"
  shows "finishes (stopped_of u') s s'"
proof -
  have "case (s', u') of (t, v) \<Rightarrow> finishes (stopped_of v) s t"
  proof (rule rfold_invariant [OF assms(1)])
    show "case (s, u) of (t, v) \<Rightarrow> finishes (stopped_of v) s t" using assms(2) by (simp add: finishes_def)
    show "case tv' of (t, v) \<Rightarrow> finishes (stopped_of v) s t"
      if "case tv of (t, v) \<Rightarrow> finishes (stopped_of v) s t" "update_one w so mo p tv = Inr tv'" for p tv tv'
    proof -
      obtain t v t' v' where eq: "tv = (t, v)" "tv' = (t', v')" by (metis prod.exhaust)
      have a: "finishes (stopped_of v) s t" and b: "finishes (stopped_of v' - stopped_of v) t t'"
        using that eq update_one_finishes [of w so mo p t v t' v'] by simp_all
      then show ?thesis using eq finishes_trans [OF a b] by (auto simp: finishes_def)
    qed
  qed
  then show ?thesis by simp
qed

lemma kv_xfer_finished_frees:
  assumes "update_from_kv_xfer_finished w recving sending s = Inr s'"
  shows "frees s s'"
proof -
  let ?t = "s\<lparr>sc_finished_recving := sc_finished_recving s \<union> set recving\<rparr>"
  have "frees ?t s'" using assms unfolding update_from_kv_xfer_finished_def
    by (rule rfold_frees) (auto split: if_splits dest: free_blocks_of_frees)
  moreover have "frees s ?t" by (simp add: frees_def)
  ultimately show ?thesis using frees_trans by blast
qed

lemma make_stats_frees: "make_stats spec s = Inr (stats, s') \<Longrightarrow> frees s s'"
  by (auto simp: make_stats_def frees_def Let_def split: if_splits option.splits prod.splits)

text \<open>A request that leaves is finished.\<close>

definition drops_finished :: "sched \<Rightarrow> sched \<Rightarrow> bool" where
  "drops_finished s s' \<longleftrightarrow> set (unfinished s') \<subseteq> set (unfinished s) \<and>
     (\<forall>x\<in>set (unfinished s) - set (unfinished s'). is_finished (sc_objs s' x))"

lemma frees_drops: "frees s s' \<Longrightarrow> drops_finished t s \<Longrightarrow> drops_finished t s'"
  using keeps_unfinished [of s s'] by (auto simp: frees_def drops_finished_def is_finished_def)

lemma update_from_output_drops:
  assumes "update_from_output w so mo s = Inr (outs, s')" and "sched_ok s"
  shows "sched_ok s' \<and> drops_finished s s'"
proof -
  let ?u0 = "\<lparr>ul_outputs = [], ul_stopped_running = [], ul_stopped_preempted = [], ul_spec_stats = None\<rparr>"
  from assms(1) obtain s1 u s2 s3 stats where loop: "rfold (update_one w so mo) (so_num_scheduled_tokens so) (s, ?u0) = Inr (s1, u)"
    and s2: "drop_stopped u s1 = Inr s2" and s3: "update_from_kv_connector w mo s2 = Inr s3"
    and st: "make_stats (ul_spec_stats u) (s3\<lparr>sc_finished_dict := map_option (\<lambda>_. []) (sc_finished_dict s3)\<rparr>) = Inr (stats, s')"
    unfolding update_from_output_def by (auto simp: Let_def simp del: rfold.simps)
  have f: "finishes (stopped_of u) s s1" using update_loop_finishes [OF loop] by (simp add: stopped_of_def)
  have ok1: "sched_ok s1" using f assms(2) keeps_sched_ok by (auto simp: finishes_def)
  from s2 obtain q where q: "leaves (set (ul_stopped_preempted u)) (sc_waiting s1) q"
    and s2': "s2 = s1\<lparr>sc_running := remove_all (sc_running s1) (ul_stopped_running u), sc_waiting := q\<rparr>"
  proof (cases "ul_stopped_preempted u = []")
    case True
    then have "s2 = s1\<lparr>sc_running := remove_all (sc_running s1) (ul_stopped_running u)\<rparr>" using s2 by (simp add: drop_stopped_def)
    then show thesis using sched_okD(2) [OF ok1] by (intro that [of "sc_waiting s1"]) (simp_all add: leaves_refl)
  next
    case False
    then obtain q where "wq_remove_requests (ul_stopped_preempted u) (sc_waiting s1) = Inr q"
      "s2 = s1\<lparr>sc_running := remove_all (sc_running s1) (ul_stopped_running u), sc_waiting := q\<rparr>"
      using s2 by (auto simp: drop_stopped_def)
    then show thesis using sched_okD(2) [OF ok1] wq_remove_requests_leaves by (intro that) simp_all
  qed
  have "distinct (sc_mars_overflow s1)" using sched_okD(3) [OF ok1] by (simp add: unfinished_def)
  from taken_out_ok [OF ok1 q subset_refl this, of s2 "ul_stopped_running u"] s2' sched_okD(1) [OF ok1]
  have out: "sched_ok s2" "set (unfinished s2) \<subseteq> set (unfinished s1)"
    "set (unfinished s1) \<subseteq> set (unfinished s2) \<union> stopped_of u" by (auto simp: stopped_of_def)
  have "unfinished s1 = unfinished s" "sc_objs s2 = sc_objs s1" using f keeps_unfinished s2' by (auto simp: finishes_def)
  then have d2: "drops_finished s s2" using out f by (auto simp: drops_finished_def finishes_def)
  have "frees s2 s3" using s3 kv_xfer_finished_frees by (auto simp: update_from_kv_connector_def split: option.splits prod.splits)
  moreover have "frees s3 (s3\<lparr>sc_finished_dict := map_option (\<lambda>_. []) (sc_finished_dict s3)\<rparr>)" by (simp add: frees_def keeps_def limits_def)
  ultimately have fr: "frees s2 s'" using make_stats_frees [OF st] frees_trans by blast
  show ?thesis using frees_drops [OF fr d2] keeps_sched_ok out(1) fr by (auto simp: frees_def)
qed

section \<open>Abortion\<close>

lemma finish_loop_finishes:
  assumes "rfold (finish_one w st) xs s = Inr s'" and "status_is_finished st"
  shows "finishes (set xs) s s'"
  using assms(1)
proof (induction xs arbitrary: s)
  case (Cons x xs)
  let ?t = "s\<lparr>sc_objs := (sc_objs s)(x := (sc_objs s x)\<lparr>status := st\<rparr>)\<rparr>"
  from Cons.prems obtain t where o: "finish_one w st x s = Inr t" and rest: "rfold (finish_one w st) xs t = Inr s'" by auto
  from o obtain params where t: "free_request w x ?t = Inr (params, t)" by (auto simp: finish_one_def)
  have "finishes {x} s ?t" using finishes_obj [of "(sc_objs s x)\<lparr>status := st\<rparr>" s x] assms(2) by (simp add: is_finished_def)
  moreover have "finishes {} ?t t" using free_request_frees [OF t] frees_finishes by blast
  ultimately have "finishes ({x} \<union> {}) s t" by (rule finishes_trans)
  from finishes_trans [OF this Cons.IH [OF rest]] show ?case by simp
qed (simp add: finishes_def)

lemma finish_requests_drops:
  assumes "finish_requests w ids st s = Inr s'" and "sched_ok s"
  shows "sched_ok s' \<and> drops_finished s s'"
proof -
  define valid where "valid = filter (\<lambda>x. x \<in> set (sc_requests s)) ids"
  define run where "run = filter (\<lambda>x. status (sc_objs s x) = RUNNING) valid"
  define wait where "wait = filter (\<lambda>x. status (sc_objs s x) \<noteq> RUNNING) valid"
  define s1 where "s1 = s\<lparr>sc_running := remove_all (sc_running s) run\<rparr>"
  have fin: "status_is_finished st" using assms(1) by (cases "status_is_finished st") (simp_all add: finish_requests_def)
  have "finish_requests w ids st s = rbind (if wait = [] then Inr s1 else rbind (wq_remove_requests wait (sc_waiting s1)) (\<lambda>q.
      Inr (s1\<lparr>sc_waiting := q, sc_mars_overflow := (if sc_policy s1 = MARS then deque_remove_requests wait (sc_mars_overflow s1)
        else sc_mars_overflow s1)\<rparr>))) (rfold (finish_one w st) valid)"
    using fin unfolding finish_requests_def by (simp add: Let_def valid_def run_def wait_def s1_def)
  with assms(1) obtain s2 where s2: "(if wait = [] then Inr s1 else rbind (wq_remove_requests wait (sc_waiting s1)) (\<lambda>q.
      Inr (s1\<lparr>sc_waiting := q, sc_mars_overflow := (if sc_policy s1 = MARS then deque_remove_requests wait (sc_mars_overflow s1)
        else sc_mars_overflow s1)\<rparr>))) = Inr s2"
    and loop: "rfold (finish_one w st) valid s2 = Inr s'" by (auto simp del: rfold.simps)
  obtain q over where q: "leaves (set wait) (sc_waiting s) q" and over: "set over \<subseteq> set (sc_mars_overflow s)" "distinct over"
      "set (sc_mars_overflow s) - set over \<subseteq> set wait"
    and s2': "s2 = s1\<lparr>sc_waiting := q, sc_mars_overflow := over\<rparr>"
  proof (cases "wait = []")
    case True
    then have "s2 = s1" using s2 by simp
    then show thesis using sched_okD(2,3) [OF assms(2)]
      by (intro that [of "sc_waiting s" "sc_mars_overflow s"]) (simp_all add: leaves_refl s1_def unfinished_def)
  next
    case False
    with s2 obtain q where q: "wq_remove_requests wait (sc_waiting s1) = Inr q" and "s2 = s1\<lparr>sc_waiting := q,
        sc_mars_overflow := (if sc_policy s1 = MARS then deque_remove_requests wait (sc_mars_overflow s1) else sc_mars_overflow s1)\<rparr>" by auto
    then show thesis using sched_okD(2,3) [OF assms(2)] wq_remove_requests_leaves [of wait "sc_waiting s" q]
      by (intro that [of q "if sc_policy s1 = MARS then deque_remove_requests wait (sc_mars_overflow s1) else sc_mars_overflow s1"])
        (auto simp: s1_def deque_remove_requests_def unfinished_def)
  qed
  have valid: "set run \<union> set wait = set valid" by (auto simp: run_def wait_def)
  have "sched_ok s2 \<and> set (unfinished s2) \<subseteq> set (unfinished s) \<and>
      set (unfinished s) \<subseteq> set (unfinished s2) \<union> set run \<union> set wait \<union> (set (sc_mars_overflow s) - set over)"
    using s2' sched_okD(1) [OF assms(2)] by (intro taken_out_ok [OF assms(2) q over(1,2)]) (simp_all add: s1_def)
  then have out: "sched_ok s2" "set (unfinished s2) \<subseteq> set (unfinished s)" "set (unfinished s) \<subseteq> set (unfinished s2) \<union> set valid"
    using over(3) valid by blast+
  note f = finish_loop_finishes [OF loop fin]
  then have "unfinished s' = unfinished s2" "sched_ok s'" using keeps_unfinished keeps_sched_ok out(1) by (auto simp: finishes_def)
  then show ?thesis using f out(2,3) by (auto simp: drops_finished_def finishes_def)
qed

section \<open>Arrival\<close>

lemma est_request_arrives_id: "est_request_arrives now r e = Inr (r', e') \<Longrightarrow> request_id r' = request_id r"
  by (auto simp: est_request_arrives_def Let_def split: option.splits if_splits)

lemma wq_add_mars: "wq_add_request r i (MarsQ m) = Inr q \<Longrightarrow> \<exists>m'. q = MarsQ m'"
  by (auto simp: wq_add_request_def)

lemma added_ok:
  assumes "sched_ok s" and x: "request_id r = x" "x \<notin> set (unfinished s)"
    and s': "sc_running s' = sc_running s" "sc_policy s' = sc_policy s" "sc_objs s' = (sc_objs s)(x := r')" "request_id r' = x"
    and place: "wq_add_request r i (sc_waiting s) = Inr (sc_waiting s') \<and> sc_mars_overflow s' = sc_mars_overflow s \<or>
      sc_waiting s' = sc_waiting s \<and> sc_mars_overflow s' = sc_mars_overflow s @ [x]"
  shows "sched_ok s' \<and> mset (unfinished s') = add_mset x (mset (unfinished s))"
proof -
  have w: "wq_wf (sc_waiting s') \<and> mset (unfinished s') = add_mset x (mset (unfinished s))" using place
  proof
    assume a: "wq_add_request r i (sc_waiting s) = Inr (sc_waiting s') \<and> sc_mars_overflow s' = sc_mars_overflow s"
    have "x \<notin> set (wq_ids (sc_waiting s))" using x(2) by (simp add: unfinished_def)
    then show ?thesis using wq_add_ids [OF sched_okD(2) [OF assms(1)] _ conjunct1 [OF a]] x(1) a s'(1) by (simp add: unfinished_def)
  next
    assume "sc_waiting s' = sc_waiting s \<and> sc_mars_overflow s' = sc_mars_overflow s @ [x]"
    then show ?thesis using sched_okD(2) [OF assms(1)] s'(1) by (simp add: unfinished_def)
  qed
  then have "distinct (unfinished s')" using distinct_add [of "unfinished s'" x "unfinished s"] x(2) sched_okD(3) [OF assms(1)] by simp
  moreover have "\<exists>m. sc_waiting s' = MarsQ m" if "sc_policy s' = MARS"
    using sched_okD(4) [OF assms(1)] that s'(2) place wq_add_mars by metis
  ultimately show ?thesis using w s'(3,4) sched_okD(1) [OF assms(1)] by (simp add: sched_ok_def)
qed

lemma enqueue_request_cases:
  assumes "enqueue_request r s = Inr s'"
  shows "sc_running s' = sc_running s \<and> sc_policy s' = sc_policy s \<and> sc_objs s' = sc_objs s \<and>
    (\<exists>i. wq_add_request r i (sc_waiting s) = Inr (sc_waiting s') \<and> sc_mars_overflow s' = sc_mars_overflow s \<or>
      sc_waiting s' = sc_waiting s \<and> sc_mars_overflow s' = sc_mars_overflow s @ [request_id r])"
  using assms by (auto simp: enqueue_request_def Let_def fcfs_add_request_def split: if_splits)

lemma note_arrival_frame:
  "sc_running (note_arrival r e s) = sc_running s" "sc_policy (note_arrival r e s) = sc_policy s" "sc_objs (note_arrival r e s) = sc_objs s"
  "sc_waiting (note_arrival r e s) = sc_waiting s" "sc_mars_overflow (note_arrival r e s) = sc_mars_overflow s"
  by (simp_all add: note_arrival_def Let_def split: option.splits)

lemma add_request_conserves:
  assumes "sched_add_request w r s = Inr s'" and "sched_ok s" and "request_id r \<notin> set (unfinished s)"
  shows "sched_ok s' \<and> mset (unfinished s') = add_mset (request_id r) (mset (unfinished s))"
proof -
  from assms(1) obtain r1 e t where r1: "est_request_arrives (w_now w) r (sc_estimator s) = Inr (r1, e)"
    and t: "enqueue_request r1 (note_arrival r1 e s) = Inr t"
    and s': "s' = t\<lparr>sc_objs := (sc_objs t)(request_id r1 := (if sc_log_stats t then record_event QUEUED (w_now w) r1 else r1)),
      sc_requests := (if request_id r1 \<in> set (sc_requests t) then sc_requests t else sc_requests t @ [request_id r1])\<rparr>"
    by (auto simp: sched_add_request_def Let_def)
  note id = est_request_arrives_id [OF r1] and e = enqueue_request_cases [OF t, unfolded note_arrival_frame]
  then obtain i where "wq_add_request r1 i (sc_waiting s) = Inr (sc_waiting s') \<and> sc_mars_overflow s' = sc_mars_overflow s \<or>
      sc_waiting s' = sc_waiting s \<and> sc_mars_overflow s' = sc_mars_overflow s @ [request_id r]" using s' by auto
  then show ?thesis using e s' id
    by (intro added_ok [OF assms(2) id assms(3), where r' = "if sc_log_stats t then record_event QUEUED (w_now w) r1 else r1" and i = i])
      (simp_all add: record_event_def)
qed

section \<open>Runs of the scheduler\<close>

text \<open>
  The states the engine can bring the scheduler to: it adds requests with fresh ids, asks for steps in states that
  meet the precondition of a step, reports results and draft tokens, and aborts requests.
\<close>

inductive sched_reach :: "sched \<Rightarrow> bool" where
  sr_init: "sc_running s = [] \<Longrightarrow> sc_mars_overflow s = [] \<Longrightarrow> create_request_queue (sc_policy s) = Inr (sc_waiting s) \<Longrightarrow>
    (\<And>x. request_id (sc_objs s x) = x) \<Longrightarrow> sched_reach s"
| sr_add: "sched_reach s \<Longrightarrow> request_id r \<notin> set (unfinished s) \<Longrightarrow> sched_add_request w r s = Inr s' \<Longrightarrow> sched_reach s'"
| sr_schedule: "sched_reach s \<Longrightarrow> step_pre s \<Longrightarrow> schedule w s = Some (Inr (out, s')) \<Longrightarrow> sched_reach s'"
| sr_update: "sched_reach s \<Longrightarrow> update_from_output w so mo s = Inr (outs, s') \<Longrightarrow> sched_reach s'"
| sr_drafts: "sched_reach s \<Longrightarrow> sched_reach (update_draft_token_ids w ids drafts s)"
| sr_finish: "sched_reach s \<Longrightarrow> finish_requests w ids st s = Inr s' \<Longrightarrow> sched_reach s'"

lemma create_request_queue_mars: "create_request_queue MARS = Inr q \<Longrightarrow> \<exists>m. q = MarsQ m"
  by (auto simp: create_request_queue_def)

lemma update_draft_keeps: "keeps s (update_draft_token_ids w ids drafts s)"
proof -
  have "keeps s (fold (\<lambda>(x, spec) s. if x \<notin> set (sc_requests s) \<or> is_finished (sc_objs s x) then s
       else upd_obj x (\<lambda>r. r\<lparr>spec_token_ids := (if spec = [] then [] else if w_should_advance w r then w_validate_tokens w r spec else spec)\<rparr>) s) ps t)"
    if "keeps s t" for ps t
    using that by (induction ps arbitrary: t) (auto simp: keeps_upd_obj)
  then show ?thesis by (simp add: update_draft_token_ids_def)
qed

lemma sched_reach_ok: "sched_reach s \<Longrightarrow> sched_ok s"
proof (induction rule: sched_reach.induct)
  case (sr_init s)
  then show ?case using create_request_queue_ids [OF sr_init(3)] create_request_queue_mars by (auto simp: sched_ok_def unfinished_def)
next
  case (sr_schedule s w out s')
  then show ?case using schedule_post [of s w] by auto
next
  case (sr_drafts s w ids drafts)
  then show ?case using keeps_sched_ok [OF update_draft_keeps] by blast
qed (use add_request_conserves update_from_output_drops finish_requests_drops in blast)+

section \<open>Properties\<close>

text \<open>
  C7: the well-formedness of the scheduler. Whatever sequence of arrivals, scheduling steps, results, draft tokens and
  abortions the engine goes through, every request is in exactly one of the running list, the waiting queue and the
  overflow queue of MARS, the waiting queue is well formed for its policy, objects are stored under their own id, and
  the number of unfinished requests MARS reports is the number of these requests.
\<close>

theorem scheduler_well_formed:
  assumes "sched_reach s"
  shows "distinct (sc_running s @ wq_ids (sc_waiting s) @ sc_mars_overflow s) \<and> wq_wf (sc_waiting s) \<and> (\<forall>x. request_id (sc_objs s x) = x) \<and>
    (sc_policy s = MARS \<longrightarrow> (\<exists>m. sc_waiting s = MarsQ m) \<and>
      get_num_unfinished_requests s = int (card (set (sc_running s @ wq_ids (sc_waiting s) @ sc_mars_overflow s))))"
proof -
  have ok: "sched_ok s" by (rule sched_reach_ok [OF assms])
  then have d: "distinct (sc_running s @ wq_ids (sc_waiting s) @ sc_mars_overflow s)" using sched_okD(3) by (simp add: unfinished_def)
  have "get_num_unfinished_requests s = int (length (sc_running s @ wq_ids (sc_waiting s) @ sc_mars_overflow s))" if "sc_policy s = MARS"
    using that by (simp add: get_num_unfinished_requests_def wq_len_ids)
  then show ?thesis using ok d distinct_card [OF d] by (auto simp: sched_ok_def)
qed

lemma example_reach: "sched_reach (example_sched FCFS (FcfsQ []) k)"
  by (rule sr_init) (simp_all add: example_sched_def create_request_queue_def example_objs_def text_request_def)

theorem scheduler_well_formed_witness:
  "\<exists>s. sched_add_request example_world (text_request ''c'' [1, 2]) (example_sched FCFS (FcfsQ []) example_kv) = Inr s \<and>
     sc_waiting s = FcfsQ [''c''] \<and> wq_wf (sc_waiting s)"
proof -
  let ?s = "example_sched FCFS (FcfsQ []) example_kv"
  have "\<exists>s. sched_add_request example_world (text_request ''c'' [1, 2]) ?s = Inr s \<and> sc_waiting s = FcfsQ [''c'']"
    by (simp add: sched_add_request_def est_request_arrives_def enqueue_request_def note_arrival_def example_sched_def text_request_def
        ToolCallEstimator_def wq_add_request_def fcfs_add_request_def Let_def)
  then obtain s where s: "sched_add_request example_world (text_request ''c'' [1, 2]) ?s = Inr s" "sc_waiting s = FcfsQ [''c'']" by blast
  have "request_id (text_request ''c'' [1, 2]) \<notin> set (unfinished ?s)" by (simp add: unfinished_def example_sched_def wq_ids_def)
  from scheduler_well_formed [OF sr_add [OF example_reach this s(1)]] s show ?thesis by blast
qed

text \<open>
  C2: no request is dropped before its time. Taking in the results of a model step and aborting requests keep the state
  well formed, bring in no request, and every request that leaves the running list, the waiting queue or the
  overflow queue is finished.
\<close>

theorem only_finished_requests_leave:
  assumes "sched_ok s" and "update_from_output w so mo s = Inr (outs, s') \<or> finish_requests w ids st s = Inr s'"
  shows "sched_ok s' \<and> set (unfinished s') \<subseteq> set (unfinished s) \<and> (\<forall>x\<in>set (unfinished s). x \<in> set (unfinished s') \<or> is_finished (sc_objs s' x))"
  using assms update_from_output_drops [of w so mo s outs s'] finish_requests_drops [of w ids st s s'] by (auto simp: drops_finished_def)

lemma example_free: "\<exists>k. km_free ((example_objs ''a'')\<lparr>status := FINISHED_ABORTED\<rparr>) example_kv = Inr k"
proof -
  have "case km_free ((example_objs ''a'')\<lparr>status := FINISHED_ABORTED\<rparr>) example_kv of Inr _ \<Rightarrow> True | Inl _ \<Rightarrow> False" by code_simp
  then show ?thesis by (auto split: sum.splits)
qed

lemma example_fields:
  "sc_policy (example_sched p q k) = p" "sc_requests (example_sched p q k) = [''a'', ''b'']" "sc_objs (example_sched p q k) = example_objs"
  "sc_running (example_sched p q k) = []" "sc_waiting (example_sched p q k) = q" "sc_mars_overflow (example_sched p q k) = []"
  "sc_recorded (example_sched p q k) = {None}" "sc_pinned (example_sched p q k) = []" "sc_kv (example_sched p q k) = k"
  "sc_attrs (example_sched p q k) = (\<lambda>_. no_attrs)" "sc_encoder (example_sched p q k) = EncoderCacheManager 0"
  by (simp_all add: example_sched_def)

text \<open>Freeing a request of no program under a policy that retains nothing.\<close>

lemma free_request_plain:
  assumes "sc_policy s = FCFS" and r: "job_id (sc_objs s x) = None" "mm_features (sc_objs s x) = []" "is_finished (sc_objs s x)"
    and "w_connector_class w = None" "w_parse w = None" "w_set_order w = id" and "None \<in> sc_recorded s" "sc_pinned s = []" "x \<in> set (sc_requests s)"
    and k: "km_free (sc_objs s x) (sc_kv s) = Inr k"
  shows "\<exists>t. free_request w x s = Inr (None, t) \<and> sc_waiting t = sc_waiting s"
proof -
  let ?r = "(sc_objs s x)\<lparr>this_func_call := this_func_call (sc_objs s x)\<rparr>"
  obtain e where e: "est_request_finished (w_parse w) (w_now w) (sc_objs s x) (sc_estimator s) = (?r, e)"
    using assms(6) by (simp add: est_request_finished_def Let_def split: option.splits)
  define s3 where "s3 = s\<lparr>sc_objs := (sc_objs s)(x := ?r), sc_estimator := e\<rparr>"
  define s4 where "s4 = infercept_prepare_finished_request w x (autellix_on_finished x (continuum_on_finished ?r s3))"
  have s4: "s4 = set_attrs x (\<lambda>a. a\<lparr>at_kv_action := None, at_kv_decision := None\<rparr>) s3"
    using assms(1) r(1) by (simp add: s4_def s3_def infercept_prepare_finished_request_def infercept_choose_kv_action_def infercept_should_pin_def
        infercept_policy_enabled_def autellix_on_finished_def continuum_on_finished_def)
  have f4: "sc_policy s4 = FCFS" "sc_objs s4 = sc_objs s" "sc_pinned s4 = []" "sc_requests s4 = sc_requests s" "sc_kv s4 = sc_kv s"
    "sc_waiting s4 = sc_waiting s" "at_kv_action (sc_attrs s4 x) = None"
    using assms(1,9) by (simp_all add: s4 s3_def set_attrs_def)
  have enc: "enc_free (w_set_order w) ?r (sc_encoder s4) = Inr (sc_encoder s4)" using r(2) assms(7) by (simp add: enc_free_def get_cached_input_ids_def mm_hashes_def)
  let ?s5 = "note_finished x (s4\<lparr>sc_encoder := sc_encoder s4\<rparr>)"
  have f5: "sc_policy ?s5 = FCFS" "sc_objs ?s5 = sc_objs s" "sc_pinned ?s5 = []" "sc_requests ?s5 = sc_requests s" "sc_kv ?s5 = sc_kv s"
    "sc_waiting ?s5 = sc_waiting s" "at_kv_action (sc_attrs ?s5 x) = None" using f4 by (simp_all add: note_finished_def)
  have "\<exists>t. free_blocks_of w x ?s5 = Inr t \<and> sc_waiting t = sc_waiting s"
    using f5 r(3) assms(10) k by (simp add: free_blocks_of_def infercept_should_pin_def infercept_policy_enabled_def free_and_forget_def forget_request_def Let_def)
  then obtain t where t: "free_blocks_of w x ?s5 = Inr t" "sc_waiting t = sc_waiting s" by blast
  have "infercept_prepare_finished_request w x (autellix_on_finished x (continuum_on_finished (sc_objs s x) (s\<lparr>sc_estimator := e\<rparr>))) = s4"
    by (simp add: s4_def s3_def)
  then have "free_request w x s = Inr (None, t)"
    using assms(1,5,8) r e enc t(1) by (simp add: free_request_def lightllm_on_finished_def record_event_of_def connector_finished_def Let_def)
  then show ?thesis using t(2) by blast
qed

lemma example_abort:
  "\<exists>s. finish_requests example_world [''a''] FINISHED_ABORTED (example_sched FCFS (FcfsQ [''a'', ''b'']) example_kv) = Inr s \<and> wq_ids (sc_waiting s) = [''b'']"
proof -
  let ?s = "example_sched FCFS (FcfsQ [''a'', ''b'']) example_kv"
  let ?t = "?s\<lparr>sc_running := [], sc_waiting := FcfsQ [''b''], sc_mars_overflow := [], sc_objs := example_objs(''a'' := (example_objs ''a'')\<lparr>status := FINISHED_ABORTED\<rparr>)\<rparr>"
  have r: "job_id (example_objs ''a'') = None" "mm_features (example_objs ''a'') = []" "status (example_objs ''a'') = WAITING" "status_is_finished FINISHED_ABORTED"
    by (simp_all add: example_objs_def text_request_def status_is_finished_def)
  have "\<exists>t. free_request example_world ''a'' ?t = Inr (None, t) \<and> sc_waiting t = sc_waiting ?t"
    using example_free r by (elim exE, intro free_request_plain) (simp_all add: example_fields example_world_def is_finished_def)
  then obtain t where t: "free_request example_world ''a'' ?t = Inr (None, t)" "sc_waiting t = FcfsQ [''b'']" by auto
  then show ?thesis using r(3,4)
    by (simp add: finish_requests_def finish_one_def example_fields Let_def wq_remove_requests_def deque_remove_requests_def wq_ids_def remove_all_def)
qed

theorem only_finished_requests_leave_witness:
  "\<exists>s. finish_requests example_world [''a''] FINISHED_ABORTED (example_sched FCFS (FcfsQ [''a'', ''b'']) example_kv) = Inr s \<and>
     wq_ids (sc_waiting s) = [''b''] \<and> set (unfinished s) \<subseteq> {''a'', ''b''} \<and> (''a'' \<in> set (unfinished s) \<or> is_finished (sc_objs s ''a''))"
proof -
  let ?s = "example_sched FCFS (FcfsQ [''a'', ''b'']) example_kv"
  obtain s where s: "finish_requests example_world [''a''] FINISHED_ABORTED ?s = Inr s" "wq_ids (sc_waiting s) = [''b'']"
    using example_abort by blast
  have "step_pre ?s" by (rule example_step_pre) simp
  then have ok: "sched_ok ?s" by (simp add: step_pre_def step_ready_def)
  have "set (unfinished ?s) = {''a'', ''b''}" by (auto simp: unfinished_def example_sched_def wq_ids_def)
  then show ?thesis using only_finished_requests_leave [OF ok disjI2 [OF s(1)]] s by auto
qed

end
