(* ===== verification/Py_Decimal.thy ===== *)
theory Py_Decimal
  imports Mars_Prelude
begin

text \<open>Natural numbers as decimal strings, what an f-string gives for them, and reading them back.\<close>

fun show_digits :: "nat \<Rightarrow> string" where
  "show_digits n = (if n < 10 then [char_of (48 + n)] else show_digits (n div 10) @ [char_of (48 + n mod 10)])"

declare show_digits.simps [simp del]

definition name_value :: "string \<Rightarrow> nat" where
  "name_value s = foldl (\<lambda>n c. 10 * n + (of_char c - 48)) 0 s"

lemma name_value_snoc: "name_value (s @ [c]) = 10 * name_value s + (of_char c - 48)"
  by (simp add: name_value_def)

lemma name_value_digits: "name_value (show_digits n) = n"
proof (induction n rule: show_digits.induct)
  case (1 n)
  have "of_char (char_of (48 + k) :: char) = (48 + k :: nat)" if "k < 10" for k using that by simp
  then show ?case using 1 by (subst show_digits.simps) (simp add: name_value_snoc, simp add: name_value_def)
qed

lemma name_value_pad: "name_value (replicate k (CHR ''0'') @ s) = name_value s"
  by (induction k) (simp_all add: name_value_def)

end
