(* ===== verification/Admission.thy ===== *)
theory Admission
  imports Py_Decimal "HOL-Library.Product_Lexorder"
begin

text \<open>
  The external admission controller of MARS, \<^verbatim>\<open>_process_mars_submissions\<close> in
  \<^verbatim>\<open>experiments/openhands/run_task_workload.py\<close>, with the pieces it works on: the queue of emitted
  tasks, the live tool statistics, the telemetry of the serving engine, and the tasks in flight. HTTP
  answers, clock readings, the events of the workers and the completed futures are inputs of each step.
  Floats are exact reals. The records written to the event log, the label \<^verbatim>\<open>_kv_source\<close> and the two
  variables that only decide whether a telemetry record is written are left out.
\<close>

section \<open>JSON numbers\<close>

text \<open>What \<^verbatim>\<open>json.loads\<close> gives for a field of the statistics; lists and objects are all the same here.\<close>

datatype json = JNull | JBool bool | JInt int | JFloat real | JStr string | JOther

type_synonym json_dict = "(string \<times> json) list"

definition is_blank :: "char \<Rightarrow> bool" where
  "is_blank c \<longleftrightarrow> (let n = of_char c :: nat in n = 32 \<or> (9 \<le> n \<and> n \<le> 13) \<or> (28 \<le> n \<and> n \<le> 31) \<or> n = 133 \<or> n = 160)"

definition py_strip :: "string \<Rightarrow> string" where
  "py_strip s = rev (dropWhile is_blank (rev (dropWhile is_blank s)))"

definition digit_val :: "char \<Rightarrow> int option" where
  "digit_val c = (let n = of_char c :: nat in if 48 \<le> n \<and> n \<le> 57 then Some (int n - 48) else None)"

text \<open>Decimal digits, with single underscores allowed between them.\<close>

fun digits_val :: "string \<Rightarrow> bool \<Rightarrow> int \<Rightarrow> int option" where
  "digits_val [] after_digit acc = (if after_digit then Some acc else None)"
| "digits_val (c # cs) after_digit acc =
     (case digit_val c of
        Some d \<Rightarrow> digits_val cs True (10 * acc + d)
      | None \<Rightarrow> if c = CHR ''_'' \<and> after_digit \<and> cs \<noteq> [] then digits_val cs False acc else None)"

definition int_of_str :: "string \<Rightarrow> int option" where
  "int_of_str s = (case py_strip s of
      [] \<Rightarrow> None
    | c # cs \<Rightarrow> if c = CHR ''+'' then digits_val cs False 0
                else if c = CHR ''-'' then map_option uminus (digits_val cs False 0)
                else digits_val (c # cs) False 0)"

text \<open>\<^verbatim>\<open>int(v)\<close>, \<^const>\<open>None\<close> where it raises.\<close>

fun json_int :: "json \<Rightarrow> int option" where
  "json_int (JBool b) = Some (if b then 1 else 0)"
| "json_int (JInt i) = Some i"
| "json_int (JFloat r) = Some (if 0 \<le> r then \<lfloor>r\<rfloor> else \<lceil>r\<rceil>)"
| "json_int (JStr s) = int_of_str s"
| "json_int _ = None"

text \<open>\<^verbatim>\<open>float(v)\<close> where \<^verbatim>\<open>isinstance(v, (int, float))\<close>.\<close>

fun json_float :: "json \<Rightarrow> real option" where
  "json_float (JBool b) = Some (if b then 1 else 0)"
| "json_float (JInt i) = Some (of_int i)"
| "json_float (JFloat r) = Some r"
| "json_float _ = None"

section \<open>Live tool statistics\<close>

record live_tool_stats =
  lt_num_workers :: int
  lt_ema_alpha :: real
  lt_active :: "(string \<times> string list) list"
  lt_inflight :: int
  lt_ema_queue_wait_s :: "real option"

text \<open>A line of a worker's event file: \<^verbatim>\<open>event\<close>, \<^verbatim>\<open>tool_call_id\<close> (empty when missing) and \<^verbatim>\<open>wait_s\<close> if it is a number.\<close>

record tool_event =
  te_event :: string
  te_tool_call_id :: string
  te_wait_s :: "real option"

definition LiveToolStats :: "int \<Rightarrow> real \<Rightarrow> live_tool_stats" where
  "LiveToolStats num_workers ema_alpha =
     \<lparr>lt_num_workers = max 1 num_workers, lt_ema_alpha = max (1/100) (min 1 ema_alpha), lt_active = [], lt_inflight = 0,
      lt_ema_queue_wait_s = None\<rparr>"

definition active_ids :: "string \<Rightarrow> live_tool_stats \<Rightarrow> string list" where
  "active_ids rid t = (case map_of (lt_active t) rid of Some ids \<Rightarrow> ids | None \<Rightarrow> [])"

definition lt_register :: "string \<Rightarrow> live_tool_stats \<Rightarrow> live_tool_stats" where
  "lt_register rid t = t\<lparr>lt_active := AList.update rid (active_ids rid t) (lt_active t)\<rparr>"

definition lt_unregister :: "string \<Rightarrow> live_tool_stats \<Rightarrow> live_tool_stats" where
  "lt_unregister rid t =
     (let ids = active_ids rid t
      in t\<lparr>lt_active := AList.delete rid (lt_active t),
           lt_inflight := (if ids = [] then lt_inflight t else max 0 (lt_inflight t - int (length ids)))\<rparr>)"

definition smooth :: "real \<Rightarrow> real \<Rightarrow> real option \<Rightarrow> real" where
  "smooth alpha wait ema = (case ema of None \<Rightarrow> wait | Some e \<Rightarrow> alpha * wait + (1 - alpha) * e)"

definition lt_apply_event :: "string \<Rightarrow> tool_event \<Rightarrow> live_tool_stats \<Rightarrow> live_tool_stats" where
  "lt_apply_event rid ev t =
     (let ids = active_ids rid t; c = te_tool_call_id ev; t = t\<lparr>lt_active := AList.update rid ids (lt_active t)\<rparr>
      in if te_event ev = ''tool_start''
         then
           let t = (if c \<noteq> [] \<and> c \<notin> set ids
                    then t\<lparr>lt_active := AList.update rid (ids @ [c]) (lt_active t), lt_inflight := lt_inflight t + 1\<rparr> else t)
           in (case te_wait_s ev of
                 None \<Rightarrow> t
               | Some w \<Rightarrow> t\<lparr>lt_ema_queue_wait_s := Some (smooth (lt_ema_alpha t) w (lt_ema_queue_wait_s t))\<rparr>)
         else if te_event ev = ''tool_end'' \<and> c \<noteq> [] \<and> c \<in> set ids
         then t\<lparr>lt_active := AList.update rid (remove1 c ids) (lt_active t), lt_inflight := max 0 (lt_inflight t - 1)\<rparr>
         else t)"

text \<open>\<^verbatim>\<open>poll\<close>: the new lines of the files of the registered requests.\<close>

definition lt_poll :: "(string \<Rightarrow> tool_event list) \<Rightarrow> live_tool_stats \<Rightarrow> live_tool_stats" where
  "lt_poll lines t = fold (\<lambda>rid. fold (lt_apply_event rid) (lines rid)) (map fst (lt_active t)) t"

section \<open>Tasks\<close>

record queued_task =
  qt_request_id :: string
  qt_prefill_tokens_est :: int
  qt_seq :: int

text \<open>A future with its entry of \<^verbatim>\<open>future_meta\<close>.\<close>

record flight =
  fl_request_id :: string
  fl_is_long :: bool

text \<open>\<^verbatim>\<open>f"req_{next_index:08d}"\<close>\<close>

definition request_name :: "nat \<Rightarrow> string" where
  "request_name n = ''req_'' @ replicate (8 - length (show_digits n)) (CHR ''0'') @ show_digits n"

definition kv_blocks_for_tokens :: "int \<Rightarrow> int \<Rightarrow> int" where
  "kv_blocks_for_tokens num_tokens block_size =
     (if block_size \<le> 0 then 0 else \<lceil>real_of_int (max 0 num_tokens) / real_of_int block_size\<rceil>)"

text \<open>\<^verbatim>\<open>round\<close> to the nearest integer, ties to the even one.\<close>

definition py_round :: "real \<Rightarrow> int" where
  "py_round x = (let f = \<lfloor>x\<rfloor>; d = x - of_int f
                 in if d < 1/2 then f else if d > 1/2 then f + 1 else if even f then f else f + 1)"

section \<open>The controller\<close>

text \<open>The command line arguments that concern MARS.\<close>

record mars_args =
  ma_active_pool_size :: int
  ma_long_prefill_tokens :: int
  ma_cpu_backlog_low :: real
  ma_cpu_backlog_high :: real
  ma_kv_target_ratio :: real
  ma_kv_stat_interval_s :: real
  ma_window_min :: int
  ma_window_init :: int
  ma_window_inc :: int
  ma_window_dec_factor :: real
  ma_control_interval_s :: real
  ma_cpu_queue_wait_high_s :: real
  ma_cpu_queue_wait_low_s :: real
  ma_kv_max_stale_s :: real
  ma_long_max_inflight :: int
  ma_tail_max_inflight :: int
  ma_tail_kv_budget_ratio :: real
  ma_no_kv_active_limit :: int

record driver =
  dr_active_limit :: int
  dr_cpu_overloaded :: bool
  dr_kv_overloaded :: bool
  dr_last_control_mono :: real
  dr_kv_cached :: "json_dict option"
  dr_kv_cached_mono :: real
  dr_kv_last_full :: "json_dict option"
  dr_kv_last_full_mono :: real
  dr_stats_unsupported :: bool
  dr_tools :: live_tool_stats
  dr_backlog :: "queued_task list"
  dr_next_index :: nat
  dr_futures :: "flight list"
  dr_pending_kv_blocks :: "(string \<times> int) list"

text \<open>What a round reads from outside: the clock, the answers of \<^verbatim>\<open>/v1/kv_cache_stats\<close> (body and status) and \<^verbatim>\<open>/metrics\<close>.\<close>

record reading =
  rd_now_mono :: real
  rd_kv_cache_stats :: "json_dict option \<times> int option"
  rd_metrics_usage :: "real option"

definition mars_window_min :: "mars_args \<Rightarrow> int" where
  "mars_window_min a = max 1 (min (ma_window_min a) (max 1 (ma_active_pool_size a)))"

definition driver_init :: "mars_args \<Rightarrow> int \<Rightarrow> driver" where
  "driver_init a num_cores =
     \<lparr>dr_active_limit = max (mars_window_min a) (min (ma_window_init a) (max 1 (ma_active_pool_size a))),
      dr_cpu_overloaded = False, dr_kv_overloaded = False, dr_last_control_mono = 0,
      dr_kv_cached = None, dr_kv_cached_mono = 0, dr_kv_last_full = None, dr_kv_last_full_mono = 0,
      dr_stats_unsupported = False, dr_tools = LiveToolStats num_cores (1/5), dr_backlog = [], dr_next_index = 0,
      dr_futures = [], dr_pending_kv_blocks = []\<rparr>"

subsection \<open>Pressure on the tool workers\<close>

record cpu_view =
  cv_healthy :: bool
  cv_window_cap :: int
  cv_overloaded :: bool

definition cpu_pressure :: "mars_args \<Rightarrow> driver \<Rightarrow> cpu_view" where
  "cpu_pressure a d =
     (let t = dr_tools d; num_workers = lt_num_workers t;
          backlog_ratio = real_of_int (lt_inflight t) / real_of_int (max 1 num_workers);
          ema = lt_ema_queue_wait_s t;
          low = (backlog_ratio \<le> ma_cpu_backlog_low a \<and> (case ema of None \<Rightarrow> True | Some e \<Rightarrow> e \<le> ma_cpu_queue_wait_low_s a));
          high = (backlog_ratio \<ge> ma_cpu_backlog_high a \<or> (case ema of None \<Rightarrow> False | Some e \<Rightarrow> e \<ge> ma_cpu_queue_wait_high_s a));
          cap = \<lceil>real_of_int num_workers * max (1/10) ((ma_cpu_backlog_low a + ma_cpu_backlog_high a) / 2)\<rceil>
      in \<lparr>cv_healthy = low, cv_window_cap = max (mars_window_min a) (min (ma_active_pool_size a) cap),
          cv_overloaded = (if dr_cpu_overloaded d then \<not> low else high)\<rparr>)"

subsection \<open>Telemetry of the KV cache\<close>

definition fetch_kv_cache_stats :: "reading \<Rightarrow> bool \<Rightarrow> json_dict option \<times> bool" where
  "fetch_kv_cache_stats rd unsupported =
     (if unsupported then (None, True)
      else if snd (rd_kv_cache_stats rd) \<in> {Some 404, Some 501} then (None, True)
      else (fst (rd_kv_cache_stats rd), False))"

definition int_field :: "string \<Rightarrow> json_dict \<Rightarrow> int option" where
  "int_field k d = Option.bind (map_of d k) json_int"

text \<open>Block size, blocks and free blocks, where the statistics have sensible values for all three.\<close>

definition full_stats :: "json_dict \<Rightarrow> bool" where
  "full_stats d \<longleftrightarrow> (case (int_field ''block_size'' d, int_field ''num_gpu_blocks'' d, int_field ''num_free_blocks'' d) of
       (Some b, Some g, Some f) \<Rightarrow> 0 < b \<and> 0 < g \<and> 0 \<le> f
     | _ \<Rightarrow> False)"

definition fresh_kv :: "reading \<Rightarrow> json_dict option \<Rightarrow> json_dict option" where
  "fresh_kv rd stats = (case stats of
       Some (e # s) \<Rightarrow> Some (e # s)
     | _ \<Rightarrow> map_option (\<lambda>u. [(''usage'', JFloat u)]) (rd_metrics_usage rd))"

text \<open>Statistics that are missing or partial are completed from the last full ones, unless these are too old.\<close>

definition complete_kv :: "mars_args \<Rightarrow> real \<Rightarrow> json_dict option \<Rightarrow> real \<Rightarrow> json_dict option \<Rightarrow> json_dict option" where
  "complete_kv a now last_full last_full_mono cached =
     (case (cached, last_full) of
        (None, Some l) \<Rightarrow> if now - last_full_mono \<le> ma_kv_max_stale_s a then Some l else None
      | (Some c, Some l) \<Rightarrow>
          (case map_of c ''usage'' of
             Some u \<Rightarrow> if now - last_full_mono \<le> ma_kv_max_stale_s a then Some (AList.update ''usage'' u l) else Some c
           | None \<Rightarrow> Some c)
      | (c, None) \<Rightarrow> c)"

definition refresh_kv :: "mars_args \<Rightarrow> reading \<Rightarrow> driver \<Rightarrow> driver" where
  "refresh_kv a rd d =
     (let now = rd_now_mono rd
      in if dr_kv_cached d = None \<or> now - dr_kv_cached_mono d \<ge> ma_kv_stat_interval_s a
         then
           let (stats, unsupported) = fetch_kv_cache_stats rd (dr_stats_unsupported d);
               cached = fresh_kv rd stats;
               (full, full_mono) = (case cached of
                   Some c \<Rightarrow> if full_stats c then (Some c, now) else (dr_kv_last_full d, dr_kv_last_full_mono d)
                 | None \<Rightarrow> (dr_kv_last_full d, dr_kv_last_full_mono d))
           in d\<lparr>dr_stats_unsupported := unsupported, dr_kv_last_full := full, dr_kv_last_full_mono := full_mono,
                dr_kv_cached := complete_kv a now full full_mono cached, dr_kv_cached_mono := now\<rparr>
         else d)"

record kv_view =
  kv_block_size :: "int option"
  kv_num_gpu_blocks :: "int option"
  kv_usage :: "real option"
  kv_budget_blocks :: "int option"
  kv_reliable :: bool

definition read_kv :: "mars_args \<Rightarrow> driver \<Rightarrow> kv_view" where
  "read_kv a d = (case dr_kv_cached d of
      None \<Rightarrow> \<lparr>kv_block_size = None, kv_num_gpu_blocks = None, kv_usage = None, kv_budget_blocks = None, kv_reliable = False\<rparr>
    | Some s \<Rightarrow>
        let bs = int_field ''block_size'' s; gpu = int_field ''num_gpu_blocks'' s; free = int_field ''num_free_blocks'' s;
            usage = (case Option.bind (map_of s ''usage'') json_float of
                Some u \<Rightarrow> Some u
              | None \<Rightarrow> (case (gpu, free) of
                    (Some g, Some f) \<Rightarrow> if 0 < g then Some (max 0 (min 1 (1 - real_of_int f / real_of_int g))) else None
                  | _ \<Rightarrow> None));
            budget = (case (gpu, free) of
                (Some g, Some f) \<Rightarrow> Some (max 0 (f - \<lceil>real_of_int g * (1 - max 0 (min (999/1000) (ma_kv_target_ratio a)))\<rceil>))
              | _ \<Rightarrow> None)
        in \<lparr>kv_block_size = bs, kv_num_gpu_blocks = gpu, kv_usage = usage, kv_budget_blocks = budget, kv_reliable = full_stats s\<rparr>)"

definition kv_usage_high :: "mars_args \<Rightarrow> real" where
  "kv_usage_high a = max (1/10) (min (999/1000) (ma_kv_target_ratio a))"

definition kv_usage_low :: "mars_args \<Rightarrow> real" where
  "kv_usage_low a = max 0 (min (kv_usage_high a - 1/100) (kv_usage_high a - 5/100))"

definition kv_window_cap :: "mars_args \<Rightarrow> kv_view \<Rightarrow> int" where
  "kv_window_cap a v =
     (let pool = ma_active_pool_size a; lo = kv_usage_low a; hi = kv_usage_high a
      in if \<not> kv_reliable v then max 1 (min (ma_no_kv_active_limit a) pool)
         else (case kv_usage v of
             None \<Rightarrow> pool
           | Some u \<Rightarrow>
               if u \<le> lo then pool
               else if u \<ge> hi then mars_window_min a
               else
                 let frac = max 0 (min 1 ((u - lo) / max (1/1000000) (hi - lo)));
                     cap = py_round (real_of_int pool - frac * real_of_int (pool - mars_window_min a))
                 in max (mars_window_min a) (min pool cap)))"

definition kv_pressure :: "mars_args \<Rightarrow> kv_view \<Rightarrow> bool \<Rightarrow> bool" where
  "kv_pressure a v prev =
     (if \<not> kv_reliable v then True
      else (case kv_usage v of
          None \<Rightarrow> prev
        | Some u \<Rightarrow> if prev then \<not> u \<le> kv_usage_low a else u \<ge> kv_usage_high a))"

subsection \<open>The window\<close>

definition room_to_grow :: "mars_args \<Rightarrow> cpu_view \<Rightarrow> kv_view \<Rightarrow> bool" where
  "room_to_grow a c v \<longleftrightarrow> cv_healthy c \<and> kv_reliable v \<and>
     (case kv_usage v of None \<Rightarrow> True | Some u \<Rightarrow> u \<le> kv_usage_low a) \<and>
     (case kv_budget_blocks v of None \<Rightarrow> True | Some b \<Rightarrow> 0 < b)"

definition next_window :: "mars_args \<Rightarrow> cpu_view \<Rightarrow> kv_view \<Rightarrow> bool \<Rightarrow> int \<Rightarrow> int" where
  "next_window a c v kv_over prev =
     (let lo = mars_window_min a; pool = ma_active_pool_size a;
          new = (if cv_overloaded c \<or> kv_over then max lo \<lfloor>real_of_int prev * ma_window_dec_factor a\<rfloor>
                 else if room_to_grow a c v then min pool (prev + ma_window_inc a)
                 else prev);
          new = max lo (min pool new);
          new = max lo (min (cv_window_cap c) new)
      in max lo (min (kv_window_cap a v) new))"

definition control_window :: "mars_args \<Rightarrow> cpu_view \<Rightarrow> kv_view \<Rightarrow> bool \<Rightarrow> real \<Rightarrow> driver \<Rightarrow> driver" where
  "control_window a c v kv_over now d =
     (if dr_last_control_mono d \<le> 0 \<or> now - dr_last_control_mono d \<ge> ma_control_interval_s a
      then d\<lparr>dr_active_limit := next_window a c v kv_over (dr_active_limit d), dr_last_control_mono := now\<rparr>
      else d)"

definition active_limit :: "mars_args \<Rightarrow> cpu_view \<Rightarrow> kv_view \<Rightarrow> driver \<Rightarrow> int" where
  "active_limit a c v d = min (dr_active_limit d) (min (cv_window_cap c) (kv_window_cap a v))"

subsection \<open>Selection\<close>

definition is_long :: "mars_args \<Rightarrow> queued_task \<Rightarrow> bool" where
  "is_long a e \<longleftrightarrow> 0 < ma_long_prefill_tokens a \<and> ma_long_prefill_tokens a < qt_prefill_tokens_est e"

definition tail_mode :: "mars_args \<Rightarrow> kv_view \<Rightarrow> queued_task list \<Rightarrow> bool" where
  "tail_mode a v entries \<longleftrightarrow> 0 < ma_long_prefill_tokens a \<and> (\<exists>e\<in>set entries. is_long a e) \<and> (\<forall>e\<in>set entries. is_long a e) \<and> kv_reliable v"

definition max_long_inflight :: "mars_args \<Rightarrow> bool \<Rightarrow> int" where
  "max_long_inflight a tail = max 0 (if tail then ma_tail_max_inflight a else ma_long_max_inflight a)"

definition pending_long :: "driver \<Rightarrow> int" where
  "pending_long d = int (length (filter fl_is_long (dr_futures d)))"

definition pending_blocks :: "driver \<Rightarrow> int" where
  "pending_blocks d = sum_list (map snd (dr_pending_kv_blocks d))"

definition untracked_inflight :: "driver \<Rightarrow> int" where
  "untracked_inflight d = max 0 (int (length (dr_futures d)) -
     int (length (filter (\<lambda>f. fl_request_id f \<in> set (map fst (dr_pending_kv_blocks d))) (dr_futures d))))"

definition kv_total :: "mars_args \<Rightarrow> kv_view \<Rightarrow> bool \<Rightarrow> int option" where
  "kv_total a v tail =
     (case (tail, kv_num_gpu_blocks v) of
        (True, Some g) \<Rightarrow> Some (max 0 \<lfloor>real_of_int g * max 0 (min 1 (ma_tail_kv_budget_ratio a))\<rfloor>)
      | _ \<Rightarrow> kv_budget_blocks v)"

definition kv_budget :: "mars_args \<Rightarrow> kv_view \<Rightarrow> bool \<Rightarrow> driver \<Rightarrow> int option" where
  "kv_budget a v tail d = map_option (\<lambda>b. max 0 (b - pending_blocks d)) (kv_total a v tail)"

definition tail_slots :: "mars_args \<Rightarrow> bool \<Rightarrow> int \<Rightarrow> driver \<Rightarrow> int" where
  "tail_slots a tail slots d =
     (if tail
      then let slots = min slots (max 0 (max_long_inflight a True - pending_long d))
           in if untracked_inflight d > 0 then min slots 1 else slots
      else slots)"

definition low_pressure :: "mars_args \<Rightarrow> cpu_view \<Rightarrow> kv_view \<Rightarrow> bool \<Rightarrow> bool \<Rightarrow> int \<Rightarrow> queued_task list \<Rightarrow> bool" where
  "low_pressure a c v kv_over tail slots entries \<longleftrightarrow>
     \<not> tail \<and> \<not> (cv_overloaded c \<or> kv_over) \<and> room_to_grow a c v \<and> int (length entries) \<le> slots"

definition candidates :: "mars_args \<Rightarrow> cpu_view \<Rightarrow> bool \<Rightarrow> bool \<Rightarrow> queued_task list \<Rightarrow> queued_task list" where
  "candidates a c tail fcfs entries =
     (if tail then sort_key qt_seq (filter (is_long a) entries)
      else if fcfs then sort_key qt_seq entries
      else if cv_overloaded c then sort_key (\<lambda>e. (- qt_prefill_tokens_est e, qt_seq e)) entries
      else sort_key (\<lambda>e. (if is_long a e then 1 else 0 :: int, qt_prefill_tokens_est e, qt_seq e)) entries)"

record selection =
  se_selected :: "(queued_task \<times> bool \<times> int option) list"
  se_budget :: "int option"
  se_long_count :: int

definition select_one :: "mars_args \<Rightarrow> kv_view \<Rightarrow> int \<Rightarrow> int \<Rightarrow> queued_task \<Rightarrow> selection \<Rightarrow> selection" where
  "select_one a v max_long pending e s =
     (let long = is_long a e;
          cost = (if long then map_option (kv_blocks_for_tokens (qt_prefill_tokens_est e)) (kv_block_size v) else None)
      in if long \<and> (\<not> kv_reliable v \<or> pending + se_long_count s \<ge> max_long) then s
         else (case (se_budget s, cost) of
             (Some b, Some k) \<Rightarrow>
               if k > b then s
               else \<lparr>se_selected = se_selected s @ [(e, long, cost)], se_budget = Some (max 0 (b - k)),
                     se_long_count = se_long_count s + (if long then 1 else 0)\<rparr>
           | _ \<Rightarrow> s\<lparr>se_selected := se_selected s @ [(e, long, cost)], se_long_count := se_long_count s + (if long then 1 else 0)\<rparr>))"

fun select_loop :: "mars_args \<Rightarrow> kv_view \<Rightarrow> int \<Rightarrow> int \<Rightarrow> int \<Rightarrow> queued_task list \<Rightarrow> selection \<Rightarrow> selection" where
  "select_loop a v slots max_long pending [] s = s"
| "select_loop a v slots max_long pending (e # es) s =
     (if int (length (se_selected s)) \<ge> slots then s
      else select_loop a v slots max_long pending es (select_one a v max_long pending e s))"

text \<open>The second pass of the tail: the long tasks that did not fit in their order, the cheapest first.\<close>

fun fill_loop :: "int \<Rightarrow> int \<Rightarrow> int \<Rightarrow> (int \<times> queued_task) list \<Rightarrow> int \<Rightarrow> selection \<Rightarrow> selection" where
  "fill_loop slots max_long pending [] b s = s"
| "fill_loop slots max_long pending ((k, e) # es) b s =
     (if int (length (se_selected s)) \<ge> slots \<or> pending + se_long_count s \<ge> max_long then s
      else if k > b then fill_loop slots max_long pending es b s
      else fill_loop slots max_long pending es (max 0 (b - k))
             \<lparr>se_selected = se_selected s @ [(e, True, Some k)], se_budget = Some (max 0 (b - k)), se_long_count = se_long_count s + 1\<rparr>)"

definition selected_ids :: "selection \<Rightarrow> string set" where
  "selected_ids s = (\<lambda>(e, _). qt_request_id e) ` set (se_selected s)"

definition tail_fill :: "kv_view \<Rightarrow> bool \<Rightarrow> int \<Rightarrow> int \<Rightarrow> int \<Rightarrow> queued_task list \<Rightarrow> selection \<Rightarrow> selection" where
  "tail_fill v tail slots max_long pending cands s =
     (case (se_budget s, kv_block_size v) of
        (Some b, Some bs) \<Rightarrow>
          if tail \<and> int (length (se_selected s)) < slots \<and> 0 < b
          then fill_loop slots max_long pending
                 (sort_key (\<lambda>(k, e). (k, qt_seq e))
                   (map (\<lambda>e. (kv_blocks_for_tokens (qt_prefill_tokens_est e) bs, e))
                     (filter (\<lambda>e. qt_request_id e \<notin> selected_ids s) cands))) b s
          else s
      | _ \<Rightarrow> s)"

definition select_round :: "mars_args \<Rightarrow> cpu_view \<Rightarrow> kv_view \<Rightarrow> bool \<Rightarrow> int \<Rightarrow> driver \<Rightarrow> selection" where
  "select_round a c v kv_over slots d =
     (let entries = dr_backlog d; tail = tail_mode a v entries;
          fcfs = low_pressure a c v kv_over tail slots entries;
          slots = tail_slots a tail slots d; max_long = max_long_inflight a tail; pending = pending_long d;
          cands = candidates a c tail fcfs entries;
          s = \<lparr>se_selected = [], se_budget = kv_budget a v tail d, se_long_count = 0\<rparr>
      in if tail \<and> slots \<le> 0 then s
         else tail_fill v tail slots max_long pending cands (select_loop a v slots max_long pending cands s))"

subsection \<open>A round\<close>

definition submit_admitted_request :: "queued_task \<times> bool \<times> int option \<Rightarrow> driver \<Rightarrow> driver" where
  "submit_admitted_request = (\<lambda>(e, long, cost) d.
     d\<lparr>dr_futures := dr_futures d @ [\<lparr>fl_request_id = qt_request_id e, fl_is_long = long\<rparr>],
       dr_tools := lt_register (qt_request_id e) (dr_tools d),
       dr_pending_kv_blocks := (case cost of
           Some k \<Rightarrow> if 0 < k then AList.update (qt_request_id e) k (dr_pending_kv_blocks d) else dr_pending_kv_blocks d
         | None \<Rightarrow> dr_pending_kv_blocks d)\<rparr>)"

definition commit_selected :: "selection \<Rightarrow> driver \<Rightarrow> driver" where
  "commit_selected s d =
     fold submit_admitted_request (se_selected s)
       (d\<lparr>dr_backlog := filter (\<lambda>e. qt_request_id e \<notin> selected_ids s) (dr_backlog d)\<rparr>)"

definition process_mars_submissions :: "mars_args \<Rightarrow> reading \<Rightarrow> driver \<Rightarrow> driver" where
  "process_mars_submissions a rd d =
     (if dr_backlog d = [] then d
      else
        let c = cpu_pressure a d;
            d = refresh_kv a rd (d\<lparr>dr_cpu_overloaded := cv_overloaded c\<rparr>);
            v = read_kv a d;
            kv_over = kv_pressure a v (dr_kv_overloaded d);
            d = control_window a c v kv_over (rd_now_mono rd) (d\<lparr>dr_kv_overloaded := kv_over\<rparr>);
            slots = max 0 (active_limit a c v d - int (length (dr_futures d)))
        in if slots \<le> 0 then d else commit_selected (select_round a c v kv_over slots d) d)"

section \<open>The rest of the driver's loop\<close>

text \<open>A completed future: the request id its trace carries, or the one of its entry in \<^verbatim>\<open>future_meta\<close>.\<close>

definition collect_one :: "string \<times> string \<Rightarrow> driver \<Rightarrow> driver" where
  "collect_one = (\<lambda>(fid, trace_id) d.
     let rid = (if trace_id = [] then fid else trace_id)
     in d\<lparr>dr_futures := filter (\<lambda>f. fl_request_id f \<noteq> fid) (dr_futures d),
          dr_tools := (if rid = [] then dr_tools d else lt_unregister rid (dr_tools d)),
          dr_pending_kv_blocks := (if rid = [] then dr_pending_kv_blocks d else AList.delete rid (dr_pending_kv_blocks d))\<rparr>)"

definition collect_completed_requests :: "(string \<times> string) list \<Rightarrow> driver \<Rightarrow> driver" where
  "collect_completed_requests done d = fold collect_one done d"

definition poll_runtime_state :: "(string \<Rightarrow> tool_event list) \<Rightarrow> (string \<times> string) list \<Rightarrow> driver \<Rightarrow> driver" where
  "poll_runtime_state lines done d = collect_completed_requests done (d\<lparr>dr_tools := lt_poll lines (dr_tools d)\<rparr>)"

definition emit_request :: "int \<Rightarrow> driver \<Rightarrow> driver" where
  "emit_request prefill_tokens_est d =
     d\<lparr>dr_backlog := dr_backlog d @ [\<lparr>qt_request_id = request_name (dr_next_index d),
                                     qt_prefill_tokens_est = prefill_tokens_est, qt_seq = int (dr_next_index d)\<rparr>],
       dr_next_index := dr_next_index d + 1\<rparr>"

end
