(* ===== verification/Admission_Correct.thy ===== *)
theory Admission_Correct
  imports Admission
begin

text \<open>
  The admission controller of MARS keeps its promises: the counter of running tool calls is exact, the
  window stays within its limits, no more tasks are in flight than the pool allows, long tasks and their KV
  blocks stay within their budgets, no task is lost, and a short task is never held back from a free slot.
\<close>

section \<open>Weights of dictionaries\<close>

definition weight :: "('v \<Rightarrow> int) \<Rightarrow> ('k \<times> 'v) list \<Rightarrow> int" where
  "weight f al = sum_list (map (\<lambda>(_, v). f v) al)"

definition weight_at :: "('v \<Rightarrow> int) \<Rightarrow> 'k \<Rightarrow> ('k \<times> 'v) list \<Rightarrow> int" where
  "weight_at f k al = (case map_of al k of Some v \<Rightarrow> f v | None \<Rightarrow> 0)"

lemma weight_simps [simp]: "weight f [] = 0" "weight f ((k, v) # al) = f v + weight f al"
  by (simp_all add: weight_def)

lemma weight_at_fresh: "k \<notin> fst ` set al \<Longrightarrow> weight_at f k al = 0"
  by (simp add: weight_at_def map_of_eq_None_iff [THEN iffD2])

lemma delete_fresh: "k \<notin> fst ` set al \<Longrightarrow> AList.delete k al = al"
  by (induction al) auto

lemma weight_update: "weight f (AList.update k v al) = weight f al - weight_at f k al + f v"
  by (induction al) (auto simp: weight_at_def)

lemma weight_delete: "distinct (map fst al) \<Longrightarrow> weight f (AList.delete k al) = weight f al - weight_at f k al"
proof (induction al)
  case (Cons x al)
  obtain j v where x: "x = (j, v)" by (cases x)
  show ?case
  proof (cases "j = k")
    case True
    then have "AList.delete k al = al" using Cons.prems x by (auto intro: delete_fresh)
    then show ?thesis using True x by (simp add: weight_at_def)
  next
    case False
    then show ?thesis using Cons x by (simp add: weight_at_def)
  qed
qed (simp add: weight_at_def)

lemma update_entry: "x \<in> set (AList.update k v al) \<Longrightarrow> x = (k, v) \<or> x \<in> set al"
  by (induction al) (auto split: if_splits)

lemma weight_nonneg: "(\<And>k v. (k, v) \<in> set al \<Longrightarrow> 0 \<le> f v) \<Longrightarrow> 0 \<le> weight f al"
  by (induction al) (auto simp: weight_def intro!: add_nonneg_nonneg)

lemma weight_at_nonneg: "(\<And>k v. (k, v) \<in> set al \<Longrightarrow> 0 \<le> f v) \<Longrightarrow> 0 \<le> weight_at f k al"
  by (auto simp: weight_at_def split: option.splits dest: map_of_SomeD)

section \<open>Tool calls\<close>

definition tool_calls :: "live_tool_stats \<Rightarrow> int" where
  "tool_calls t = weight (int \<circ> length) (lt_active t)"

definition lt_inv :: "live_tool_stats \<Rightarrow> bool" where
  "lt_inv t \<longleftrightarrow> distinct (map fst (lt_active t)) \<and> lt_inflight t = tool_calls t \<and> 1 \<le> lt_num_workers t"

lemma lt_active_at: "int (length (active_ids rid t)) = weight_at (int \<circ> length) rid (lt_active t)"
  by (simp add: active_ids_def weight_at_def split: option.splits)

lemma tool_calls_nonneg: "0 \<le> tool_calls t"
  by (simp add: tool_calls_def weight_nonneg)

lemma lt_init: "lt_inv (LiveToolStats n alpha)"
  by (simp add: lt_inv_def LiveToolStats_def tool_calls_def)

lemma lt_register_inv: "lt_inv t \<Longrightarrow> lt_inv (lt_register rid t)"
  using lt_active_at [of rid t]
  by (simp add: lt_inv_def lt_register_def tool_calls_def weight_update distinct_update)

lemma lt_unregister_inv:
  assumes "lt_inv t" shows "lt_inv (lt_unregister rid t)"
proof -
  have "weight_at (int \<circ> length) rid (lt_active t) \<le> lt_inflight t"
    using assms weight_nonneg [of "AList.delete rid (lt_active t)" "int \<circ> length"]
    by (simp add: lt_inv_def tool_calls_def weight_delete)
  then show ?thesis
    using assms lt_active_at [of rid t]
    by (auto simp: lt_inv_def lt_unregister_def Let_def tool_calls_def weight_delete distinct_delete)
qed

lemma lt_apply_event_inv:
  assumes "lt_inv t" shows "lt_inv (lt_apply_event rid ev t)"
proof -
  have "0 < tool_calls t" if "c \<in> set (active_ids rid t)" for c
  proof -
    have "int (length (active_ids rid t)) \<le> tool_calls t"
      using assms weight_nonneg [of "AList.delete rid (lt_active t)" "int \<circ> length"]
      by (simp add: lt_inv_def tool_calls_def weight_delete lt_active_at)
    then show ?thesis using length_pos_if_in_set [OF that] by linarith
  qed
  moreover have "int (length (remove1 c (active_ids rid t))) = int (length (active_ids rid t)) - 1" if "c \<in> set (active_ids rid t)" for c
    using that length_pos_if_in_set [OF that] by (simp add: length_remove1 of_nat_diff Suc_leI)
  ultimately show ?thesis
    using assms lt_active_at [of rid t]
    by (fastforce simp: lt_inv_def lt_apply_event_def Let_def tool_calls_def weight_update weight_at_def distinct_update update_conv'
        split: option.splits)
qed

lemma lt_poll_inv: "lt_inv t \<Longrightarrow> lt_inv (lt_poll lines t)"
proof -
  have "lt_inv t \<Longrightarrow> lt_inv (fold (lt_apply_event rid) evs t)" for rid evs t
    by (induction evs arbitrary: t) (auto intro: lt_apply_event_inv)
  then have "lt_inv t \<Longrightarrow> lt_inv (fold (\<lambda>rid. fold (lt_apply_event rid) (lines rid)) rids t)" for rids t
    by (induction rids arbitrary: t) auto
  then show "lt_inv t \<Longrightarrow> lt_inv (lt_poll lines t)" by (simp add: lt_poll_def)
qed

section \<open>Selection\<close>

definition sel_cost :: "(queued_task \<times> bool \<times> int option) list \<Rightarrow> int" where
  "sel_cost xs = sum_list (map (\<lambda>(_, _, k). case k of Some k \<Rightarrow> k | None \<Rightarrow> 0) xs)"

definition sel_longs :: "(queued_task \<times> bool \<times> int option) list \<Rightarrow> int" where
  "sel_longs xs = int (length (filter (fst \<circ> snd) xs))"

text \<open>The invariant of the two selection loops: the limits hold, and the selected tasks come from the candidates, each once.\<close>

definition sel_inv :: "int \<Rightarrow> int \<Rightarrow> int \<Rightarrow> int option \<Rightarrow> queued_task set \<Rightarrow> selection \<Rightarrow> bool" where
  "sel_inv slots max_long pending budget cands s \<longleftrightarrow>
     int (length (se_selected s)) \<le> max 0 slots \<and> se_long_count s = sel_longs (se_selected s) \<and>
     pending + se_long_count s \<le> max pending max_long \<and>
     (case budget of None \<Rightarrow> se_budget s = None
      | Some B \<Rightarrow> (\<exists>b. se_budget s = Some b \<and> 0 \<le> b \<and> b + sel_cost (se_selected s) = B)) \<and>
     fst ` set (se_selected s) \<subseteq> cands \<and> distinct (map fst (se_selected s)) \<and>
     (\<forall>(e, long, k) \<in> set (se_selected s). \<forall>n. k = Some n \<longrightarrow> 0 \<le> n)"

lemma kv_blocks_nonneg [simp]: "0 \<le> kv_blocks_for_tokens n b"
  by (simp add: kv_blocks_for_tokens_def zero_le_ceiling)
     (smt (verit) divide_nonneg_pos of_int_0_le_iff of_int_pos)

lemma sel_simps [simp]:
  "sel_cost [] = 0" "sel_cost (xs @ [(e, l, k)]) = sel_cost xs + (case k of Some k \<Rightarrow> k | None \<Rightarrow> 0)"
  "sel_longs [] = 0" "sel_longs (xs @ [(e, l, k)]) = sel_longs xs + (if l then 1 else 0)" "0 \<le> sel_longs xs"
  by (simp_all add: sel_cost_def sel_longs_def)

lemma select_one_inv:
  assumes "sel_inv slots max_long pending budget cands s" "int (length (se_selected s)) < slots"
    and "e \<in> cands" "e \<notin> fst ` set (se_selected s)"
  shows "sel_inv slots max_long pending budget cands (select_one a v max_long pending e s)"
  using assms
  by (auto simp: sel_inv_def select_one_def Let_def split: option.splits if_splits)

lemma select_one_selected:
  "fst ` set (se_selected (select_one a v max_long pending e s)) \<subseteq> insert e (fst ` set (se_selected s))"
  by (auto simp: select_one_def Let_def split: option.splits if_splits)

lemma select_loop_inv:
  assumes "sel_inv slots max_long pending budget cands s" "distinct es" "set es \<subseteq> cands" "set es \<inter> fst ` set (se_selected s) = {}"
  shows "sel_inv slots max_long pending budget cands (select_loop a v slots max_long pending es s)"
  using assms
proof (induction es arbitrary: s)
  case (Cons e es)
  show ?case
  proof (cases "int (length (se_selected s)) \<ge> slots")
    case False
    have "sel_inv slots max_long pending budget cands (select_one a v max_long pending e s)"
      using select_one_inv [OF Cons.prems(1)] False Cons.prems(3,4) by auto
    moreover have "set es \<inter> fst ` set (se_selected (select_one a v max_long pending e s)) = {}"
      using select_one_selected [of a v max_long pending e s] Cons.prems(2,4) by auto
    ultimately show ?thesis using Cons.IH Cons.prems False by simp
  qed (use Cons.prems in simp)
qed simp

lemma fill_loop_inv:
  assumes "sel_inv slots max_long pending (Some B) cands s" "se_budget s = Some b" "distinct (map snd es)" "snd ` set es \<subseteq> cands"
    and "snd ` set es \<inter> fst ` set (se_selected s) = {}" "\<forall>(k, e)\<in>set es. 0 \<le> k"
  shows "sel_inv slots max_long pending (Some B) cands (fill_loop slots max_long pending es b s)"
  using assms
proof (induction slots max_long pending es b s rule: fill_loop.induct)
  case (2 slots max_long pending k e es b s)
  show ?case
  proof (cases "int (length (se_selected s)) \<ge> slots \<or> pending + se_long_count s \<ge> max_long")
    case go: False
    show ?thesis
    proof (cases "k > b")
      case True
      then show ?thesis using 2 go by simp
    next
      case False
      let ?s = "\<lparr>se_selected = se_selected s @ [(e, True, Some k)], se_budget = Some (max 0 (b - k)), se_long_count = se_long_count s + 1\<rparr>"
      have "sel_inv slots max_long pending (Some B) cands ?s"
        using "2.prems" go False by (auto simp: sel_inv_def)
      then show ?thesis using "2.IH"(2) [OF go False] "2.prems" go False by auto
    qed
  qed (use 2 in auto)
qed simp


lemma tail_fill_inv:
  assumes "sel_inv slots max_long pending budget cands s" "distinct cs" "set cs \<subseteq> cands" 
  shows "sel_inv slots max_long pending budget cands (tail_fill v tail slots max_long pending cs s)"
proof (cases "\<exists>b bs. se_budget s = Some b \<and> kv_block_size v = Some bs \<and> tail \<and> int (length (se_selected s)) < slots \<and> 0 < b")
  case True
  then obtain b bs where b: "se_budget s = Some b" "kv_block_size v = Some bs" "tail" "int (length (se_selected s)) < slots" "0 < b" by blast
  let ?f = "filter (\<lambda>e. qt_request_id e \<notin> selected_ids s) cs"
  let ?es = "sort_key (\<lambda>(k, e). (k, qt_seq e)) (map (\<lambda>e. (kv_blocks_for_tokens (qt_prefill_tokens_est e) bs, e)) ?f)"
  from assms(1) b(1) obtain B where B: "budget = Some B" by (cases budget) (auto simp: sel_inv_def)
  have "mset (map snd ?es) = mset ?f" by (simp add: image_mset.compositionality comp_def)
  then have "distinct (map snd ?es)" "snd ` set ?es = set ?f"
    using mset_eq_imp_distinct_iff [of "map snd ?es" ?f] mset_eq_setD [of "map snd ?es" ?f] assms(2) by auto
  moreover have "set ?f \<inter> fst ` set (se_selected s) = {}" by (force simp: selected_ids_def)
  ultimately show ?thesis
    using fill_loop_inv [of slots max_long pending B cands s b ?es] assms b B
    by (auto simp: tail_fill_def)
qed (use assms(1) in \<open>auto simp: tail_fill_def split: option.splits\<close>)

lemma candidates_mset: "tail \<Longrightarrow> \<forall>e\<in>set es. is_long a e \<Longrightarrow> mset (candidates a c tail fcfs es) = mset es"
    "\<not> tail \<Longrightarrow> mset (candidates a c tail fcfs es) = mset es"
  by (simp_all add: candidates_def)

lemma candidates_distinct:
  assumes "distinct es"
  shows "distinct (candidates a c tail fcfs es)" "set (candidates a c tail fcfs es) \<subseteq> set es"
  using assms by (auto simp: candidates_def)

lemma select_round_inv:
  assumes "distinct (dr_backlog d)" and "0 \<le> slots" and tail: "tail = tail_mode a v (dr_backlog d)"
  shows "sel_inv slots (max_long_inflight a tail) (pending_long d) (kv_budget a v tail d) (set (dr_backlog d))
           (select_round a c v kv_over slots d)"
proof -
  let ?sl = "tail_slots a tail slots d" and ?B = "kv_budget a v tail d"
  let ?cs = "candidates a c tail (low_pressure a c v kv_over tail slots (dr_backlog d)) (dr_backlog d)"
  let ?s = "\<lparr>se_selected = [], se_budget = ?B, se_long_count = 0\<rparr> :: selection"
  note cs = candidates_distinct [OF assms(1), of a c tail "low_pressure a c v kv_over tail slots (dr_backlog d)"]
  have s: "sel_inv ?sl (max_long_inflight a tail) (pending_long d) ?B (set (dr_backlog d)) ?s"
    by (auto simp: sel_inv_def kv_budget_def split: option.splits)
  have "sel_inv ?sl (max_long_inflight a tail) (pending_long d) ?B (set (dr_backlog d)) (select_round a c v kv_over slots d)"
    using s tail_fill_inv [OF select_loop_inv [OF s cs] cs] tail by (auto simp: select_round_def Let_def)
  moreover have "?sl \<le> slots" by (auto simp: tail_slots_def Let_def)
  ultimately show ?thesis using assms(2) by (auto simp: sel_inv_def)
qed

section \<open>Submission\<close>

lemma submit_fields [simp]:
  "dr_futures (submit_admitted_request (e, long, k) d) = dr_futures d @ [\<lparr>fl_request_id = qt_request_id e, fl_is_long = long\<rparr>]"
  "dr_backlog (submit_admitted_request x d) = dr_backlog d" "dr_active_limit (submit_admitted_request x d) = dr_active_limit d"
  "dr_next_index (submit_admitted_request x d) = dr_next_index d" "dr_kv_cached (submit_admitted_request x d) = dr_kv_cached d"
  "dr_tools (submit_admitted_request (e, long, k) d) = lt_register (qt_request_id e) (dr_tools d)"
  by (simp_all add: submit_admitted_request_def case_prod_beta)

lemma submit_all_fields [simp]:
  "dr_backlog (fold submit_admitted_request xs d) = dr_backlog d"
  "dr_active_limit (fold submit_admitted_request xs d) = dr_active_limit d"
  "dr_next_index (fold submit_admitted_request xs d) = dr_next_index d"
  "dr_kv_cached (fold submit_admitted_request xs d) = dr_kv_cached d"
  "dr_futures (fold submit_admitted_request xs d) =
     dr_futures d @ map (\<lambda>(e, long, _). \<lparr>fl_request_id = qt_request_id e, fl_is_long = long\<rparr>) xs"
  by (induction xs arbitrary: d) auto

definition pending_ok :: "driver \<Rightarrow> bool" where
  "pending_ok d \<longleftrightarrow> distinct (map fst (dr_pending_kv_blocks d)) \<and> (\<forall>(k, n) \<in> set (dr_pending_kv_blocks d). 0 < n)"

lemma pending_blocks_weight: "pending_blocks d = weight id (dr_pending_kv_blocks d)"
  by (simp add: pending_blocks_def weight_def case_prod_beta' comp_def)

lemma submit_pending:
  assumes "pending_ok d" and "\<forall>n. k = Some n \<longrightarrow> 0 \<le> n"
  shows "pending_ok (submit_admitted_request (e, long, k) d) \<and>
    pending_blocks (submit_admitted_request (e, long, k) d) \<le> pending_blocks d + (case k of Some k \<Rightarrow> k | None \<Rightarrow> 0)"
proof -
  have "0 \<le> weight_at id (qt_request_id e) (dr_pending_kv_blocks d)"
    using assms(1) by (intro weight_at_nonneg) (fastforce simp: pending_ok_def)
  then show ?thesis using assms
    by (auto simp: pending_blocks_weight pending_ok_def submit_admitted_request_def weight_update distinct_update
        dest!: update_entry split: option.splits) 
qed

lemma submit_all_pending:
  assumes "pending_ok d" and "\<forall>(e, long, k)\<in>set xs. \<forall>n. k = Some n \<longrightarrow> 0 \<le> n"
  shows "pending_ok (fold submit_admitted_request xs d) \<and> pending_blocks (fold submit_admitted_request xs d) \<le> pending_blocks d + sel_cost xs"
  using assms
proof (induction xs arbitrary: d)
  case (Cons x xs)
  obtain e long k where x: "x = (e, long, k)" by (cases x) auto
  then show ?case
    using submit_pending [of d k e long] Cons.prems Cons.IH [of "submit_admitted_request x d"] by (auto simp: sel_cost_def)
qed (simp add: sel_cost_def)

lemma submit_all_tools: "lt_inv (dr_tools d) \<Longrightarrow> lt_inv (dr_tools (fold submit_admitted_request xs d))"
  by (induction xs arbitrary: d) (auto simp: lt_register_inv)

lemma pending_long_submit: "pending_long (fold submit_admitted_request xs d) = pending_long d + sel_longs xs"
proof -
  have "length (filter fl_is_long (map (\<lambda>(e, long, _). \<lparr>fl_request_id = qt_request_id e, fl_is_long = long\<rparr>) xs)) = length (filter (fst \<circ> snd) xs)"
    by (induction xs) auto
  then show ?thesis by (simp add: pending_long_def sel_longs_def)
qed

definition task_ids :: "driver \<Rightarrow> string list" where
  "task_ids d = map qt_request_id (dr_backlog d) @ map fl_request_id (dr_futures d)"

lemma partition_by_ids:
  assumes "distinct (map f xs)" "distinct ys" "set ys \<subseteq> set xs"
  shows "mset (map f (filter (\<lambda>x. f x \<notin> f ` set ys) xs)) + mset (map f ys) = mset (map f xs)"
proof -
  have inj: "inj_on f (set xs)" using assms(1) by (simp add: distinct_map)
  then have "set (filter (\<lambda>x. f x \<in> f ` set ys) xs) = set ys" using assms(3) by (auto dest: inj_onD)
  then have "mset (filter (\<lambda>x. f x \<in> f ` set ys) xs) = mset ys"
    using assms(1,2) by (intro set_eq_iff_mset_eq_distinct [THEN iffD1]) (auto simp: distinct_map)
  then have "mset ys = filter_mset (\<lambda>x. f x \<in> f ` set ys) (mset xs)" by (simp flip: mset_filter)
  then show ?thesis using multiset_partition [of "mset xs" "\<lambda>x. f x \<in> f ` set ys"]
    by (metis (no_types, lifting) image_mset_union mset_filter mset_map union_commute)
qed

lemma commit_ids:
  assumes "distinct (map qt_request_id (dr_backlog d))" "distinct (map fst (se_selected s))" "fst ` set (se_selected s) \<subseteq> set (dr_backlog d)"
  shows "mset (task_ids (commit_selected s d)) = mset (task_ids d)"
proof -
  have "selected_ids s = qt_request_id ` set (map fst (se_selected s))" by (force simp: selected_ids_def)
  then show ?thesis
    using partition_by_ids [of qt_request_id "dr_backlog d" "map fst (se_selected s)"] assms
    by (simp add: task_ids_def commit_selected_def comp_def case_prod_beta' add.commute add.left_commute)
qed

section \<open>The window\<close>

lemma window_min_bounds: "0 < ma_active_pool_size a \<Longrightarrow> 1 \<le> mars_window_min a \<and> mars_window_min a \<le> ma_active_pool_size a"
  by (simp add: mars_window_min_def)

lemma next_window_bounds:
  "0 < ma_active_pool_size a \<Longrightarrow> mars_window_min a \<le> next_window a c v kv_over prev \<and> next_window a c v kv_over prev \<le> ma_active_pool_size a"
  using window_min_bounds [of a] unfolding next_window_def Let_def by linarith

lemma active_limit_pool: "dr_active_limit d \<le> ma_active_pool_size a \<Longrightarrow> active_limit a c v d \<le> ma_active_pool_size a"
  by (simp add: active_limit_def min_le_iff_disj)

section \<open>Task names\<close>

lemma inj_request_name: "inj request_name"
proof (rule injI)
  fix m n
  assume "request_name m = request_name n"
  then have "name_value (replicate (8 - length (show_digits m)) (CHR ''0'') @ show_digits m) =
      name_value (replicate (8 - length (show_digits n)) (CHR ''0'') @ show_digits n)"
    by (simp add: request_name_def)
  then show "m = n" by (simp add: name_value_pad name_value_digits)
qed

section \<open>Rounds\<close>

definition driver_inv :: "mars_args \<Rightarrow> driver \<Rightarrow> bool" where
  "driver_inv a d \<longleftrightarrow>
     mars_window_min a \<le> dr_active_limit d \<and> dr_active_limit d \<le> ma_active_pool_size a \<and>
     int (length (dr_futures d)) \<le> ma_active_pool_size a \<and> lt_inv (dr_tools d) \<and> pending_ok d \<and>
     distinct (task_ids d) \<and> set (task_ids d) \<subseteq> request_name ` {..<dr_next_index d}"

text \<open>The state in which a round selects, once telemetry and window are up to date.\<close>

definition controlled :: "mars_args \<Rightarrow> reading \<Rightarrow> driver \<Rightarrow> driver" where
  "controlled a rd d =
     (let c = cpu_pressure a d; d = refresh_kv a rd (d\<lparr>dr_cpu_overloaded := cv_overloaded c\<rparr>);
          v = read_kv a d; kv_over = kv_pressure a v (dr_kv_overloaded d)
      in control_window a c v kv_over (rd_now_mono rd) (d\<lparr>dr_kv_overloaded := kv_over\<rparr>))"

lemma refresh_fields [simp]:
  "dr_futures (refresh_kv a rd d) = dr_futures d" "dr_backlog (refresh_kv a rd d) = dr_backlog d"
  "dr_pending_kv_blocks (refresh_kv a rd d) = dr_pending_kv_blocks d" "dr_tools (refresh_kv a rd d) = dr_tools d"
  "dr_next_index (refresh_kv a rd d) = dr_next_index d" "dr_active_limit (refresh_kv a rd d) = dr_active_limit d"
  by (simp_all add: refresh_kv_def Let_def case_prod_beta)

lemma control_fields [simp]:
  "dr_futures (control_window a c v o' now d) = dr_futures d" "dr_backlog (control_window a c v o' now d) = dr_backlog d"
  "dr_pending_kv_blocks (control_window a c v o' now d) = dr_pending_kv_blocks d" "dr_tools (control_window a c v o' now d) = dr_tools d"
  "dr_next_index (control_window a c v o' now d) = dr_next_index d" "dr_kv_cached (control_window a c v o' now d) = dr_kv_cached d"
  by (simp_all add: control_window_def)

lemma controlled_fields [simp]:
  "dr_futures (controlled a rd d) = dr_futures d" "dr_backlog (controlled a rd d) = dr_backlog d"
  "dr_pending_kv_blocks (controlled a rd d) = dr_pending_kv_blocks d" "dr_tools (controlled a rd d) = dr_tools d"
  "dr_next_index (controlled a rd d) = dr_next_index d"
  by (simp_all add: controlled_def Let_def)

lemma read_kv_cached: "dr_kv_cached d = dr_kv_cached d' \<Longrightarrow> read_kv a d = read_kv a d'"
  by (simp add: read_kv_def)

lemma controlled_inv:
  assumes "0 < ma_active_pool_size a" "driver_inv a d" shows "driver_inv a (controlled a rd d)"
proof -
  have "mars_window_min a \<le> dr_active_limit (controlled a rd d) \<and> dr_active_limit (controlled a rd d) \<le> ma_active_pool_size a"
    using assms next_window_bounds [OF assms(1)] by (simp add: controlled_def Let_def control_window_def driver_inv_def)
  then show ?thesis using assms(2) by (simp add: driver_inv_def pending_ok_def task_ids_def)
qed

definition free_slots :: "mars_args \<Rightarrow> reading \<Rightarrow> driver \<Rightarrow> int" where
  "free_slots a rd d = max 0 (active_limit a (cpu_pressure a d) (read_kv a (controlled a rd d)) (controlled a rd d) - int (length (dr_futures d)))"

lemma process_cases:
  assumes "dr_backlog d \<noteq> []"
  shows "process_mars_submissions a rd d = controlled a rd d \<and> free_slots a rd d = 0 \<or>
    0 < free_slots a rd d \<and> (\<exists>kv_over. process_mars_submissions a rd d =
      commit_selected (select_round a (cpu_pressure a d) (read_kv a (controlled a rd d)) kv_over (free_slots a rd d) (controlled a rd d)) (controlled a rd d))"
proof -
  define c d1 where "c = cpu_pressure a d" and "d1 = refresh_kv a rd (d\<lparr>dr_cpu_overloaded := cv_overloaded c\<rparr>)"
  define o' where "o' = kv_pressure a (read_kv a d1) (dr_kv_overloaded d1)"
  have d2: "controlled a rd d = control_window a c (read_kv a d1) o' (rd_now_mono rd) (d1\<lparr>dr_kv_overloaded := o'\<rparr>)"
    by (simp add: controlled_def c_def d1_def o'_def Let_def)
  have v: "read_kv a (controlled a rd d) = read_kv a d1" by (rule read_kv_cached) (simp add: d2)
  have "process_mars_submissions a rd d =
      (if free_slots a rd d \<le> 0 then controlled a rd d
       else commit_selected (select_round a c (read_kv a d1) o' (free_slots a rd d) (controlled a rd d)) (controlled a rd d))"
    using assms unfolding process_mars_submissions_def free_slots_def v
    by (simp add: c_def [symmetric] d1_def [symmetric] o'_def [symmetric] d2 [symmetric] Let_def)
  then show ?thesis unfolding v c_def by (auto simp: free_slots_def)
qed

lemma commit_fields [simp]:
  "dr_active_limit (commit_selected s d) = dr_active_limit d" "dr_next_index (commit_selected s d) = dr_next_index d"
  "dr_kv_cached (commit_selected s d) = dr_kv_cached d"
  "length (dr_futures (commit_selected s d)) = length (dr_futures d) + length (se_selected s)"
  by (simp_all add: commit_selected_def)

lemma driver_inv_backlog: "driver_inv a d \<Longrightarrow> distinct (map qt_request_id (dr_backlog d)) \<and> distinct (dr_backlog d)"
  by (simp add: driver_inv_def task_ids_def distinct_map)

lemma commit_round:
  assumes "driver_inv a d" "0 \<le> slots" "slots \<le> ma_active_pool_size a - int (length (dr_futures d))"
    and tail: "tail = tail_mode a v (dr_backlog d)" and d': "d' = commit_selected (select_round a c v kv_over slots d) d"
  shows "driver_inv a d' \<and> mset (task_ids d') = mset (task_ids d) \<and> pending_long d' \<le> max (pending_long d) (max_long_inflight a tail) \<and>
    (\<forall>B. kv_total a v tail = Some B \<longrightarrow> pending_blocks d' \<le> max (pending_blocks d) B)"
proof -
  let ?s = "select_round a c v kv_over slots d" and ?d = "d\<lparr>dr_backlog := filter (\<lambda>e. qt_request_id e \<notin> selected_ids (select_round a c v kv_over slots d)) (dr_backlog d)\<rparr>"
  note bl = driver_inv_backlog [OF assms(1)]
  have s: "sel_inv slots (max_long_inflight a tail) (pending_long d) (kv_budget a v tail d) (set (dr_backlog d)) ?s"
    using bl by (intro select_round_inv assms(2) tail) simp
  have ids: "mset (task_ids d') = mset (task_ids d)" unfolding d' using bl s by (intro commit_ids) (auto simp: sel_inv_def)
  have f: "d' = fold submit_admitted_request (se_selected ?s) ?d" by (simp add: d' commit_selected_def)
  have pend: "pending_ok d' \<and> pending_blocks d' \<le> pending_blocks ?d + sel_cost (se_selected ?s)" unfolding f
    using s assms(1) by (intro submit_all_pending) (auto simp: driver_inv_def pending_ok_def sel_inv_def)
  have "pending_long d' = pending_long ?d + sel_longs (se_selected ?s)" unfolding f by (rule pending_long_submit)
  then have "pending_long d' \<le> max (pending_long d) (max_long_inflight a tail)" using s by (simp add: sel_inv_def pending_long_def)
  moreover have "pending_blocks d' \<le> max (pending_blocks d) B" if "kv_total a v tail = Some B" for B
    using pend s that by (auto simp: sel_inv_def kv_budget_def pending_blocks_def)
  moreover have "lt_inv (dr_tools d')" unfolding f using assms(1) by (intro submit_all_tools) (simp add: driver_inv_def)
  moreover have "distinct (task_ids d') \<and> set (task_ids d') \<subseteq> request_name ` {..<dr_next_index d}"
    using assms(1) mset_eq_imp_distinct_iff [OF ids] mset_eq_setD [OF ids] by (simp add: driver_inv_def)
  moreover have "int (length (dr_futures d')) \<le> ma_active_pool_size a" using s assms(2,3) by (simp add: d' sel_inv_def)
  ultimately show ?thesis using assms(1) ids pend by (simp add: driver_inv_def d')
qed

lemma process_round:
  assumes pool: "0 < ma_active_pool_size a" and inv: "driver_inv a d"
    and d': "d' = process_mars_submissions a rd d" and tail: "tail = tail_mode a (read_kv a d') (dr_backlog d)"
  shows "driver_inv a d' \<and> mset (task_ids d') = mset (task_ids d) \<and> pending_long d' \<le> max (pending_long d) (max_long_inflight a tail) \<and>
    (\<forall>B. kv_total a (read_kv a d') tail = Some B \<longrightarrow> pending_blocks d' \<le> max (pending_blocks d) B)"
proof (cases "dr_backlog d = []")
  case True
  then show ?thesis using inv by (simp add: d' process_mars_submissions_def)
next
  case False
  let ?d = "controlled a rd d"
  have c: "driver_inv a ?d" by (rule controlled_inv [OF pool inv])
  have same: "task_ids ?d = task_ids d" "pending_long ?d = pending_long d" "pending_blocks ?d = pending_blocks d"
    by (simp_all add: task_ids_def pending_long_def pending_blocks_def)
  from process_cases [OF False, of a rd] show ?thesis
  proof (elim disjE conjE exE)
    assume "process_mars_submissions a rd d = ?d"
    then show ?thesis using c by (simp add: d' same)
  next
    fix kv_over
    assume sl: "0 < free_slots a rd d" and e: "process_mars_submissions a rd d =
      commit_selected (select_round a (cpu_pressure a d) (read_kv a ?d) kv_over (free_slots a rd d) ?d) ?d"
    have "read_kv a d' = read_kv a ?d" by (rule read_kv_cached) (simp add: d' e)
    moreover have "free_slots a rd d \<le> ma_active_pool_size a - int (length (dr_futures ?d))"
      using sl active_limit_pool [of ?d a "cpu_pressure a d" "read_kv a ?d"] c by (auto simp: free_slots_def driver_inv_def max_def split: if_splits)
    ultimately show ?thesis
      using commit_round [where v="read_kv a ?d" and tail=tail and d'=d' and c="cpu_pressure a d" and kv_over=kv_over, OF c less_imp_le [OF sl]] d' e tail
      by (simp add: same)
  qed
qed

text \<open>Everything the driver's loop does between two rounds keeps the invariant too.\<close>

lemma driver_init_inv: "0 < ma_active_pool_size a \<Longrightarrow> driver_inv a (driver_init a cores)"
  using window_min_bounds [of a] by (auto simp: driver_inv_def driver_init_def lt_init pending_ok_def task_ids_def)

lemma emit_inv:
  assumes "driver_inv a d" shows "driver_inv a (emit_request n d)"
proof -
  have "request_name (dr_next_index d) \<notin> set (task_ids d)"
    using assms by (auto simp: driver_inv_def dest: injD [OF inj_request_name])
  then show ?thesis using assms
    by (auto simp: driver_inv_def emit_request_def task_ids_def pending_ok_def lessThan_Suc)
qed

lemma collect_one_inv:
  assumes "driver_inv a d" shows "driver_inv a (collect_one x d)"
proof -
  obtain fid tid where x: "x = (fid, tid)" by (cases x)
  have "length (filter (\<lambda>f. fl_request_id f \<noteq> fid) (dr_futures d)) \<le> length (dr_futures d)" by simp
  then have "int (length (filter (\<lambda>f. fl_request_id f \<noteq> fid) (dr_futures d))) \<le> ma_active_pool_size a"
    using assms unfolding driver_inv_def by linarith
  moreover have "distinct (map fl_request_id (filter P (dr_futures d)))" for P
    using assms by (auto simp: driver_inv_def task_ids_def distinct_map intro: inj_on_subset)
  moreover have "set (AList.delete k al) \<subseteq> set al" for k and al :: "(string \<times> int) list" by (auto simp: AList.delete_eq)
  ultimately show ?thesis using assms
    by (auto simp: driver_inv_def collect_one_def x Let_def task_ids_def pending_ok_def lt_unregister_inv distinct_delete) blast+
qed

lemma poll_inv:
  assumes "driver_inv a d" shows "driver_inv a (poll_runtime_state lines done d)"
proof -
  have "driver_inv a d \<Longrightarrow> driver_inv a (fold collect_one xs d)" for xs d
    by (induction xs arbitrary: d) (auto intro: collect_one_inv)
  moreover have "driver_inv a (d\<lparr>dr_tools := lt_poll lines (dr_tools d)\<rparr>)"
    using assms by (simp add: driver_inv_def lt_poll_inv task_ids_def pending_ok_def)
  ultimately show ?thesis by (simp add: poll_runtime_state_def collect_completed_requests_def)
qed

inductive driver_reach :: "mars_args \<Rightarrow> driver \<Rightarrow> bool" for a where
  dr_init: "driver_reach a (driver_init a cores)"
| dr_emit: "driver_reach a d \<Longrightarrow> driver_reach a (emit_request n d)"
| dr_poll: "driver_reach a d \<Longrightarrow> driver_reach a (poll_runtime_state lines done d)"
| dr_round: "driver_reach a d \<Longrightarrow> driver_reach a (process_mars_submissions a rd d)"

lemma driver_reach_inv: "driver_reach a d \<Longrightarrow> 0 < ma_active_pool_size a \<Longrightarrow> driver_inv a d"
  by (induction rule: driver_reach.induct) (auto intro: driver_init_inv emit_inv poll_inv process_round [THEN conjunct1, OF _ _ refl refl])

section \<open>Admission controllers\<close>

text \<open>
  What the driver relies on, for MARS as for the Concur baseline: a round loses and duplicates no task and keeps
  the tasks in flight within a limit. Then so does any number of rounds.
\<close>

locale admission_controller =
  fixes inv :: "'s \<Rightarrow> bool"
    and ids :: "'s \<Rightarrow> string list"
    and flights :: "'s \<Rightarrow> 'f list"
    and cap :: int
    and round :: "'r \<Rightarrow> 's \<Rightarrow> 's"
  assumes round_inv: "inv s \<Longrightarrow> inv (round r s)"
    and round_ids: "inv s \<Longrightarrow> mset (ids (round r s)) = mset (ids s)"
    and flights_cap: "inv s \<Longrightarrow> int (length (flights s)) \<le> cap"
    and ids_distinct: "inv s \<Longrightarrow> distinct (ids s)"
begin

lemma rounds_inv: "inv s \<Longrightarrow> inv (fold round rs s)"
  by (induction rs arbitrary: s) (auto simp: round_inv)

lemma rounds_ids: "inv s \<Longrightarrow> mset (ids (fold round rs s)) = mset (ids s)"
  by (induction rs arbitrary: s) (auto simp: round_inv round_ids)

lemma rounds_safe:
  assumes "inv s"
  shows "int (length (flights (fold round rs s))) \<le> cap \<and> set (ids (fold round rs s)) = set (ids s) \<and> distinct (ids (fold round rs s))"
  using flights_cap [OF rounds_inv [OF assms]] ids_distinct [OF rounds_inv [OF assms]] mset_eq_setD [OF rounds_ids [OF assms]] by simp

end

definition mars_ready :: "mars_args \<Rightarrow> driver \<Rightarrow> bool" where
  "mars_ready a d \<longleftrightarrow> 0 < ma_active_pool_size a \<and> driver_inv a d"

interpretation mars_rounds: admission_controller "mars_ready a" task_ids dr_futures "ma_active_pool_size a" "process_mars_submissions a"
proof unfold_locales
  fix d rd
  assume d: "mars_ready a d"
  then have r: "0 < ma_active_pool_size a" "driver_inv a d" by (simp_all add: mars_ready_def)
  from process_round [OF r refl refl, of rd] r(1)
  show "mars_ready a (process_mars_submissions a rd d)" "mset (task_ids (process_mars_submissions a rd d)) = mset (task_ids d)"
    by (simp_all add: mars_ready_def)
qed (auto simp: mars_ready_def driver_inv_def)

section \<open>Progress\<close>

definition shorts :: "mars_args \<Rightarrow> queued_task list \<Rightarrow> int" where
  "shorts a es = int (length (filter (\<lambda>e. \<not> is_long a e) es))"

lemma select_one_short:
  "length (se_selected (select_one a v max_long pending e s)) \<ge> length (se_selected s)"
  "\<not> is_long a e \<Longrightarrow> length (se_selected (select_one a v max_long pending e s)) = Suc (length (se_selected s))"
  by (auto simp: select_one_def Let_def split: option.splits)

lemma select_loop_progress:
  "min slots (int (length (se_selected s)) + shorts a es) \<le> int (length (se_selected (select_loop a v slots max_long pending es s)))"
proof (induction es arbitrary: s)
  case (Cons e es)
  show ?case
    using Cons.IH [of "select_one a v max_long pending e s"] select_one_short [where a=a and v=v and max_long=max_long and pending=pending and e=e and s=s]
    by (cases "is_long a e"; simp add: shorts_def; linarith)
qed (simp add: shorts_def)

lemma select_loop_no_long:
  "\<not> kv_reliable v \<Longrightarrow> sel_longs (se_selected (select_loop a v slots max_long pending es s)) = sel_longs (se_selected s)"
proof (induction es arbitrary: s)
  case (Cons e es)
  have "sel_longs (se_selected (select_one a v max_long pending e s)) = sel_longs (se_selected s)"
    using Cons.prems by (auto simp: select_one_def Let_def split: option.splits)
  then show ?case using Cons by simp
qed simp

lemma select_round_progress:
  "0 \<le> slots \<Longrightarrow> min slots (shorts a (dr_backlog d)) \<le> int (length (se_selected (select_round a c v kv_over slots d)))"
proof (cases "tail_mode a v (dr_backlog d)")
  case True
  then have "shorts a (dr_backlog d) = 0" by (simp add: shorts_def tail_mode_def)
  then show ?thesis by simp
next
  case False
  have "shorts a (candidates a c False fcfs es) = shorts a es" for fcfs es
    using candidates_mset(2) [of False a c fcfs es] unfolding shorts_def
    by (metis (no_types, lifting) mset_filter size_mset)
  then show ?thesis using False
    select_loop_progress [of slots "\<lparr>se_selected = [], se_budget = kv_budget a v False d, se_long_count = 0\<rparr>" a]
    by (simp add: select_round_def Let_def tail_slots_def tail_fill_def split: option.splits) (metis)
qed

lemma select_round_no_long:
  "\<not> kv_reliable v \<Longrightarrow> sel_longs (se_selected (select_round a c v kv_over slots d)) = 0"
  by (simp add: select_round_def Let_def tail_mode_def tail_fill_def select_loop_no_long split: option.splits)

section \<open>Properties\<close>

text \<open>
  C9: the limits of MARS admission. In every state the driver reaches, a round keeps the window between its
  minimum and the pool size and the tasks in flight within the pool; it admits no long task beyond the limit of
  its mode and no KV blocks beyond the budget of its mode; it loses and duplicates no task, and the number of
  running tool calls the controller goes by is the number of calls that started and did not end. Any number of
  rounds in a row keeps the tasks and the limit of the pool.
\<close>

theorem mars_admission_limits:
  assumes "0 < ma_active_pool_size a" and "driver_reach a d"
  shows "let d' = process_mars_submissions a rd d; v = read_kv a d'; tail = tail_mode a v (dr_backlog d) in
    mars_window_min a \<le> dr_active_limit d' \<and> dr_active_limit d' \<le> ma_active_pool_size a \<and>
    int (length (dr_futures d')) \<le> ma_active_pool_size a \<and>
    pending_long d' \<le> max (pending_long d) (max_long_inflight a tail) \<and>
    (\<forall>B. kv_total a v tail = Some B \<longrightarrow> pending_blocks d' \<le> max (pending_blocks d) B) \<and>
    mset (task_ids d') = mset (task_ids d) \<and> distinct (task_ids d') \<and> lt_inflight (dr_tools d') = tool_calls (dr_tools d') \<and>
    (\<forall>rds. int (length (dr_futures (fold (process_mars_submissions a) rds d))) \<le> ma_active_pool_size a \<and>
       set (task_ids (fold (process_mars_submissions a) rds d)) = set (task_ids d))"
proof -
  have inv: "driver_inv a d" by (rule driver_reach_inv [OF assms(2,1)])
  then have "mars_ready a d" using assms(1) by (simp add: mars_ready_def)
  from mars_rounds.rounds_safe [OF this] process_round [OF assms(1) inv refl refl, of rd]
  show ?thesis by (simp add: Let_def driver_inv_def lt_inv_def)
qed

definition default_args :: mars_args where
  "default_args = \<lparr>ma_active_pool_size = 8, ma_long_prefill_tokens = 50000, ma_cpu_backlog_low = 1, ma_cpu_backlog_high = 4,
     ma_kv_target_ratio = 9/10, ma_kv_stat_interval_s = 1/5, ma_window_min = 2, ma_window_init = 8, ma_window_inc = 1,
     ma_window_dec_factor = 7/10, ma_control_interval_s = 1/5, ma_cpu_queue_wait_high_s = 5, ma_cpu_queue_wait_low_s = 2,
     ma_kv_max_stale_s = 2, ma_long_max_inflight = 1, ma_tail_max_inflight = 3, ma_tail_kv_budget_ratio = 1, ma_no_kv_active_limit = 2\<rparr>"

definition example_reading :: reading where
  "example_reading = \<lparr>rd_now_mono = 1,
     rd_kv_cache_stats = (Some [(''block_size'', JInt 16), (''num_gpu_blocks'', JInt 10000), (''num_free_blocks'', JInt 9500)], Some 200),
     rd_metrics_usage = None\<rparr>"

definition example_driver :: driver where
  "example_driver = emit_request 700 (emit_request 60000 (driver_init default_args 4))"

lemma example_driver_reach: "driver_reach default_args example_driver"
  unfolding example_driver_def by (intro dr_emit dr_init)

theorem mars_admission_limits_witness:
  "length (dr_futures example_driver) = 0 \<and> length (dr_backlog example_driver) = 2 \<and>
   int (length (dr_futures (process_mars_submissions default_args example_reading example_driver))) \<le> 8"
  using mars_admission_limits [of default_args example_driver example_reading] example_driver_reach
  by (simp add: Let_def default_args_def [THEN arg_cong [where f=ma_active_pool_size]])
     (simp add: example_driver_def emit_request_def driver_init_def)

text \<open>
  C15: MARS admission never wastes a slot on a short task's account. A round admits at least as many tasks as
  there are free slots or short tasks waiting, whichever is less; and while the telemetry of the KV cache is
  not reliable it admits no long task at all.
\<close>

theorem mars_admission_progress:
  fixes a d rd
  defines "d' \<equiv> process_mars_submissions a rd d"
  defines "v \<equiv> read_kv a d'"
  assumes "dr_backlog d \<noteq> []"
  shows "min (active_limit a (cpu_pressure a d) v d' - int (length (dr_futures d))) (shorts a (dr_backlog d))
      \<le> int (length (dr_futures d')) - int (length (dr_futures d)) \<and>
    (\<not> kv_reliable v \<longrightarrow> pending_long d' = pending_long d)"
  using process_cases [OF assms(3), of a rd]
proof (elim disjE conjE exE)
  assume "process_mars_submissions a rd d = controlled a rd d" "free_slots a rd d = 0"
  then show ?thesis by (simp add: v_def d'_def free_slots_def pending_long_def)
next
  fix kv_over
  let ?d = "controlled a rd d"
  let ?s = "select_round a (cpu_pressure a d) (read_kv a ?d) kv_over (free_slots a rd d) ?d"
  assume sl: "0 < free_slots a rd d" and e: "process_mars_submissions a rd d = commit_selected ?s ?d"
  have v: "v = read_kv a ?d" unfolding v_def by (rule read_kv_cached) (simp add: d'_def e)
  have "min (free_slots a rd d) (shorts a (dr_backlog d)) \<le> int (length (se_selected ?s))"
    using select_round_progress [of "free_slots a rd d" a ?d "cpu_pressure a d" "read_kv a ?d" kv_over] sl by simp
  moreover have "active_limit a (cpu_pressure a d) v d' = active_limit a (cpu_pressure a d) v ?d"
    by (simp add: active_limit_def d'_def e)
  moreover have "pending_long d' = pending_long ?d + sel_longs (se_selected ?s)"
    by (simp add: d'_def e commit_selected_def pending_long_submit) (simp add: pending_long_def)
  ultimately show ?thesis using sl select_round_no_long [of v a "cpu_pressure a d" kv_over "free_slots a rd d" ?d]
    by (simp add: v d'_def e free_slots_def pending_long_def)
qed

theorem mars_admission_progress_witness:
  "dr_backlog example_driver \<noteq> [] \<and> shorts default_args (dr_backlog example_driver) = 1 \<and>
   (let d' = process_mars_submissions default_args example_reading example_driver in
    min (active_limit default_args (cpu_pressure default_args example_driver) (read_kv default_args d') d') 1 \<le> int (length (dr_futures d')))"
proof -
  have b: "dr_backlog example_driver \<noteq> []" "shorts default_args (dr_backlog example_driver) = 1" "dr_futures example_driver = []"
    by (simp_all add: example_driver_def emit_request_def driver_init_def shorts_def is_long_def default_args_def)
  show ?thesis using mars_admission_progress [OF b(1), of default_args example_reading] b by (simp add: Let_def)
qed

end
