(* ===== verification/Concur.thy ===== *)
theory Concur
  imports Admission_Correct
begin

text \<open>
  Concur, the agent-level admission baseline of \<^verbatim>\<open>run_task_workload.py\<close>: an additive-increase,
  multiplicative-decrease window over the agents, shrunk by pausing the newest agents at their next
  generation and grown by resuming paused agents before new ones start. The state extends the driver's
  with the active and paused agents, the orders in which they got there, and the gate files the workers watch.
\<close>

section \<open>Definitions\<close>

record concur_args =
  ca_window_init :: int
  ca_max_active_agents :: int
  ca_control_interval_s :: real
  ca_additive_increase :: int
  ca_multiplicative_decrease :: real
  ca_util_low :: real
  ca_util_high :: real
  ca_hit_rate_threshold :: real

text \<open>The arguments \<^verbatim>\<open>main\<close> does not reject.\<close>

definition concur_args_ok :: "concur_args \<Rightarrow> bool" where
  "concur_args_ok a \<longleftrightarrow> \<not> ca_window_init a < 1 \<and> \<not> ca_max_active_agents a < 0 \<and> \<not> ca_control_interval_s a \<le> 0 \<and>
     \<not> ca_additive_increase a < 1 \<and> 0 < ca_multiplicative_decrease a \<and> ca_multiplicative_decrease a \<le> 1"

record concur =
  cc_driver :: driver
  cc_active_limit :: int
  cc_window_max :: int
  cc_last_control_mono :: real
  cc_active_agents :: "string set"
  cc_paused_agents :: "string set"
  cc_active_order :: "string list"
  cc_paused_order :: "string list"
  cc_gates :: "string set"

definition effective_max_workers :: "int \<Rightarrow> int \<Rightarrow> int" where
  "effective_max_workers max_workers num_tasks = max 1 (if max_workers \<le> 0 then num_tasks else min max_workers num_tasks)"

definition concur_window_max :: "concur_args \<Rightarrow> int \<Rightarrow> int" where
  "concur_window_max a workers = max 1 (min workers (if ca_max_active_agents a > 0 then ca_max_active_agents a else workers))"

definition concur_init :: "concur_args \<Rightarrow> mars_args \<Rightarrow> int \<Rightarrow> int \<Rightarrow> concur" where
  "concur_init a m cores workers =
     \<lparr>cc_driver = driver_init m cores,
      cc_active_limit = max 1 (min (ca_window_init a) (concur_window_max a workers)),
      cc_window_max = concur_window_max a workers, cc_last_control_mono = 0, cc_active_agents = {},
      cc_paused_agents = {}, cc_active_order = [], cc_paused_order = [], cc_gates = {}\<rparr>"

definition next_concur_window :: "int \<Rightarrow> real \<Rightarrow> real option \<Rightarrow> int \<Rightarrow> concur_args \<Rightarrow> int \<times> string" where
  "next_concur_window window usage hit_rate window_max a =
     (let current = max 1 (min window window_max)
      in if usage < ca_util_low a then (min window_max (current + ca_additive_increase a), ''low_utilization'')
         else if usage > ca_util_high a
         then (case hit_rate of
             None \<Rightarrow> (current, ''hit_rate_unavailable'')
           | Some h \<Rightarrow>
               if h < ca_hit_rate_threshold a
               then (max 1 \<lfloor>real_of_int current * ca_multiplicative_decrease a\<rfloor>, ''high_utilization_low_hit_rate'')
               else (current, ''hold''))
         else (current, ''hold''))"

definition concur_complete :: "string \<Rightarrow> concur \<Rightarrow> concur" where
  "concur_complete rid s =
     s\<lparr>cc_active_agents := cc_active_agents s - {rid}, cc_paused_agents := cc_paused_agents s - {rid},
       cc_active_order := remove1 rid (cc_active_order s), cc_paused_order := remove1 rid (cc_paused_order s),
       cc_gates := cc_gates s - {rid}\<rparr>"

definition pause_agent :: "string \<Rightarrow> concur \<Rightarrow> concur" where
  "pause_agent rid s =
     s\<lparr>cc_active_agents := cc_active_agents s - {rid}, cc_paused_agents := insert rid (cc_paused_agents s),
       cc_paused_order := cc_paused_order s @ [rid], cc_gates := cc_gates s - {rid}\<rparr>"

function pause_loop :: "concur \<Rightarrow> concur" where
  "pause_loop s =
     (if int (card (cc_active_agents s)) > cc_active_limit s \<and> cc_active_order s \<noteq> []
      then let rid = last (cc_active_order s); s = s\<lparr>cc_active_order := butlast (cc_active_order s)\<rparr>
           in if rid \<notin> cc_active_agents s then pause_loop s else pause_loop (pause_agent rid s)
      else s)"
  by pat_completeness auto
termination
  by (relation "measure (length \<circ> cc_active_order)") (auto simp: pause_agent_def)

declare pause_loop.simps [simp del]

text \<open>The first agent of the paused order that is still paused; the ids before it are dropped.\<close>

fun next_paused :: "string set \<Rightarrow> string list \<Rightarrow> string option \<times> string list" where
  "next_paused paused [] = (None, [])"
| "next_paused paused (c # cs) = (if c \<in> paused then (Some c, cs) else next_paused paused cs)"

definition resume_agent :: "string \<Rightarrow> concur \<Rightarrow> concur" where
  "resume_agent rid s =
     s\<lparr>cc_paused_agents := cc_paused_agents s - {rid}, cc_active_agents := insert rid (cc_active_agents s),
       cc_active_order := cc_active_order s @ [rid], cc_gates := insert rid (cc_gates s)\<rparr>"

definition start_agent :: "queued_task \<Rightarrow> concur \<Rightarrow> concur" where
  "start_agent e s =
     s\<lparr>cc_active_agents := insert (qt_request_id e) (cc_active_agents s), cc_active_order := cc_active_order s @ [qt_request_id e],
       cc_gates := insert (qt_request_id e) (cc_gates s), cc_driver := submit_admitted_request (e, False, None) (cc_driver s)\<rparr>"

definition pop_backlog :: "concur \<Rightarrow> concur" where
  "pop_backlog s = s\<lparr>cc_driver := (cc_driver s)\<lparr>dr_backlog := tl (dr_backlog (cc_driver s))\<rparr>\<rparr>"

lemma next_paused_length:
  "next_paused paused cs = (Some r, rest) \<Longrightarrow> length rest < length cs" "next_paused paused cs = (None, rest) \<Longrightarrow> rest = []"
  by (induction cs) (auto split: if_splits)

function resume_loop :: "concur \<Rightarrow> concur" where
  "resume_loop s =
     (if int (card (cc_active_agents s)) < cc_active_limit s
      then (case next_paused (cc_paused_agents s) (cc_paused_order s) of
          (Some rid, rest) \<Rightarrow> resume_loop (resume_agent rid (s\<lparr>cc_paused_order := rest\<rparr>))
        | (None, rest) \<Rightarrow>
            let s = s\<lparr>cc_paused_order := rest\<rparr>
            in (case dr_backlog (cc_driver s) of
                  [] \<Rightarrow> s
                | e # _ \<Rightarrow> resume_loop (start_agent e (pop_backlog s))))
      else s)"
  by pat_completeness auto
termination
  by (relation "measure (\<lambda>s. length (cc_paused_order s) + length (dr_backlog (cc_driver s)))")
     (auto simp: resume_agent_def start_agent_def pop_backlog_def dest!: sym [THEN next_paused_length(1)] sym [THEN next_paused_length(2)])

declare resume_loop.simps [simp del]

definition concur_reconcile :: "concur \<Rightarrow> concur" where
  "concur_reconcile s = resume_loop (pause_loop s)"

definition concur_control :: "concur_args \<Rightarrow> reading \<Rightarrow> concur \<Rightarrow> concur" where
  "concur_control a rd s =
     (if cc_last_control_mono s \<le> 0 \<or> rd_now_mono rd - cc_last_control_mono s \<ge> ca_control_interval_s a
      then
        let (stats, unsupported) = fetch_kv_cache_stats rd (dr_stats_unsupported (cc_driver s));
            field = (\<lambda>k. Option.bind (Option.bind stats (\<lambda>d. map_of d k)) json_float);
            limit = (case field ''usage'' of
                None \<Rightarrow> cc_active_limit s
              | Some u \<Rightarrow> fst (next_concur_window (cc_active_limit s) u (field ''prefix_cache_hit_rate'') (cc_window_max s) a))
        in s\<lparr>cc_driver := (cc_driver s)\<lparr>dr_stats_unsupported := unsupported\<rparr>, cc_active_limit := limit,
             cc_last_control_mono := rd_now_mono rd\<rparr>
      else s)"

definition process_concur_submissions :: "concur_args \<Rightarrow> reading \<Rightarrow> concur \<Rightarrow> concur" where
  "process_concur_submissions a rd s = concur_reconcile (concur_control a rd s)"

text \<open>The other steps of the driver's loop: emitting a task, and polling, with \<^const>\<open>concur_complete\<close> called for each completed future.\<close>

definition concur_emit :: "int \<Rightarrow> concur \<Rightarrow> concur" where
  "concur_emit n s = s\<lparr>cc_driver := emit_request n (cc_driver s)\<rparr>"

definition concur_collect_one :: "string \<times> string \<Rightarrow> concur \<Rightarrow> concur" where
  "concur_collect_one = (\<lambda>(fid, tid) s.
     let rid = (if tid = [] then fid else tid); s = s\<lparr>cc_driver := collect_one (fid, tid) (cc_driver s)\<rparr>
     in if rid = [] then s else concur_complete rid s)"

definition concur_poll :: "(string \<Rightarrow> tool_event list) \<Rightarrow> (string \<times> string) list \<Rightarrow> concur \<Rightarrow> concur" where
  "concur_poll lines done s =
     fold concur_collect_one done (s\<lparr>cc_driver := (cc_driver s)\<lparr>dr_tools := lt_poll lines (dr_tools (cc_driver s))\<rparr>\<rparr>)"

section \<open>The invariant\<close>

definition agents :: "concur \<Rightarrow> string list" where
  "agents s = cc_active_order s @ cc_paused_order s"

definition concur_inv :: "concur \<Rightarrow> bool" where
  "concur_inv s \<longleftrightarrow>
     set (cc_active_order s) = cc_active_agents s \<and> set (cc_paused_order s) = cc_paused_agents s \<and> cc_gates s = cc_active_agents s \<and>
     mset (map fl_request_id (dr_futures (cc_driver s))) = mset (agents s) \<and>
     distinct (task_ids (cc_driver s)) \<and> set (task_ids (cc_driver s)) \<subseteq> request_name ` {..<dr_next_index (cc_driver s)} \<and>
     1 \<le> cc_active_limit s \<and> cc_active_limit s \<le> cc_window_max s \<and> int (length (agents s)) \<le> cc_window_max s"

lemma concur_inv_distinct:
  assumes "concur_inv s"
  shows "distinct (agents s)" "distinct (cc_active_order s)" "distinct (cc_paused_order s)" "cc_active_agents s \<inter> cc_paused_agents s = {}"
    "card (cc_active_agents s) = length (cc_active_order s)"
proof -
  have "distinct (map fl_request_id (dr_futures (cc_driver s)))" using assms by (simp add: concur_inv_def task_ids_def)
  then show d: "distinct (agents s)" using assms mset_eq_imp_distinct_iff [of "agents s" "map fl_request_id (dr_futures (cc_driver s))"]
    by (simp add: concur_inv_def)
  show "distinct (cc_active_order s)" "distinct (cc_paused_order s)" "cc_active_agents s \<inter> cc_paused_agents s = {}"
    "card (cc_active_agents s) = length (cc_active_order s)"
    using d assms distinct_card [of "cc_active_order s"] by (auto simp: agents_def concur_inv_def)
qed

lemma next_concur_window_bounds:
  assumes "concur_args_ok a" "1 \<le> m"
  shows "1 \<le> fst (next_concur_window w u h m a) \<and> fst (next_concur_window w u h m a) \<le> m"
proof -
  have "\<lfloor>real_of_int c * ca_multiplicative_decrease a\<rfloor> \<le> c" if "1 \<le> c" for c
  proof -
    have "real_of_int c * ca_multiplicative_decrease a \<le> real_of_int c"
      using that assms(1) by (simp add: concur_args_ok_def mult_left_le)
    then show ?thesis by (simp add: floor_le_iff)
  qed
  from this [of "max 1 (min w m)"] show ?thesis using assms
    by (auto simp: next_concur_window_def Let_def concur_args_ok_def split: option.splits)
qed

lemma concur_control_inv:
  assumes "concur_inv s" "concur_args_ok a" shows "concur_inv (concur_control a rd s)"
  using assms next_concur_window_bounds [OF assms(2), of "cc_window_max s"]
  by (auto simp: concur_inv_def concur_control_def agents_def task_ids_def case_prod_beta Let_def split: option.splits)

section \<open>Reconciling\<close>

lemma pause_step_inv:
  assumes inv: "concur_inv s" and ne: "cc_active_order s \<noteq> []"
  shows "concur_inv (pause_agent (last (cc_active_order s)) (s\<lparr>cc_active_order := butlast (cc_active_order s)\<rparr>))"
proof -
  let ?xs = "butlast (cc_active_order s)" and ?r = "last (cc_active_order s)"
  have o: "cc_active_order s = ?xs @ [?r]" using ne by simp
  then have "?r \<notin> set ?xs" using concur_inv_distinct(2) [OF inv] by (metis distinct_append distinct_singleton disjoint_insert(1) list.set(2))
  moreover have "set ?xs \<union> {?r} = cc_active_agents s" using inv o unfolding concur_inv_def by (metis set_append list.set(1,2))
  ultimately have "set ?xs = cc_active_agents s - {?r}" by auto
  moreover have "mset (?xs @ cc_paused_order s @ [?r]) = mset (agents s)"
    unfolding agents_def by (subst (3) o) simp
  moreover from this have "length (?xs @ cc_paused_order s @ [?r]) = length (agents s)" by (rule mset_eq_length)
  ultimately show ?thesis using inv by (simp add: concur_inv_def pause_agent_def agents_def)
qed

lemma pause_loop_ok:
  "concur_inv s \<Longrightarrow> concur_inv (pause_loop s) \<and> int (card (cc_active_agents (pause_loop s))) \<le> cc_active_limit s \<and>
     cc_active_limit (pause_loop s) = cc_active_limit s \<and> cc_window_max (pause_loop s) = cc_window_max s"
proof (induction s rule: pause_loop.induct)
  case (1 s)
  show ?case
  proof (cases "int (card (cc_active_agents s)) > cc_active_limit s \<and> cc_active_order s \<noteq> []")
    case True
    then have "last (cc_active_order s) \<in> cc_active_agents s" using "1.prems" unfolding concur_inv_def by (metis last_in_set)
    then show ?thesis
      using "1.IH"(2) [OF True refl refl] pause_step_inv [OF "1.prems"] True
      by (subst (1 2 3 4) pause_loop.simps) (simp add: Let_def pause_agent_def)
  next
    case False
    then have "int (card (cc_active_agents s)) \<le> cc_active_limit s" using concur_inv_distinct(5) [OF "1.prems"] "1.prems"
      by (auto simp: concur_inv_def)
    then show ?thesis using "1.prems" False by (subst (1 2 3 4) pause_loop.simps) simp
  qed
qed

lemma pause_loop_driver: "cc_driver (pause_loop s) = cc_driver s"
proof (induction s rule: pause_loop.induct)
  case (1 s)
  show ?case
    using "1.IH"(1) [OF _ refl refl] "1.IH"(2) [OF _ refl refl] by (subst pause_loop.simps) (simp add: Let_def pause_agent_def)
qed

lemma resume_step_inv:
  assumes "concur_inv s" "cc_paused_order s = rid # rest"
  shows "concur_inv (resume_agent rid (s\<lparr>cc_paused_order := rest\<rparr>))"
  using assms concur_inv_distinct [OF assms(1)] by (auto simp: concur_inv_def resume_agent_def agents_def)

lemma start_step_inv:
  assumes inv: "concur_inv s" and p: "cc_paused_order s = []" and b: "dr_backlog (cc_driver s) = e # es"
    and room: "int (card (cc_active_agents s)) < cc_active_limit s"
  shows "concur_inv (start_agent e (pop_backlog s))"
proof -
  have "int (length (cc_active_order s)) < cc_window_max s"
    using room concur_inv_distinct(5) [OF inv] inv by (simp add: concur_inv_def)
  then show ?thesis using inv p b
    by (auto simp: concur_inv_def start_agent_def pop_backlog_def agents_def task_ids_def)
qed

lemma next_paused_inv:
  "concur_inv s \<Longrightarrow> next_paused (cc_paused_agents s) (cc_paused_order s) =
     (case cc_paused_order s of [] \<Rightarrow> (None, []) | r # rs \<Rightarrow> (Some r, rs))"
  by (cases "cc_paused_order s") (auto simp: concur_inv_def)

text \<open>What \<^const>\<open>resume_loop\<close> leaves, from a state with no more active agents than the window has.\<close>

definition resumed :: "concur \<Rightarrow> concur \<Rightarrow> bool" where
  "resumed s s' \<longleftrightarrow> concur_inv s' \<and> int (card (cc_active_agents s')) \<le> cc_active_limit s \<and>
     cc_active_limit s' = cc_active_limit s \<and> cc_window_max s' = cc_window_max s \<and> cc_paused_agents s' \<subseteq> cc_paused_agents s \<and>
     (int (card (cc_active_agents s')) = cc_active_limit s \<or> cc_paused_agents s' = {} \<and> dr_backlog (cc_driver s') = []) \<and>
     (dr_backlog (cc_driver s') = dr_backlog (cc_driver s) \<or> cc_paused_agents s' = {}) \<and>
     (\<exists>n. dr_backlog (cc_driver s') = drop n (dr_backlog (cc_driver s))) \<and>
     mset (task_ids (cc_driver s')) = mset (task_ids (cc_driver s))"

lemma resume_loop_ok:
  "concur_inv s \<Longrightarrow> int (card (cc_active_agents s)) \<le> cc_active_limit s \<Longrightarrow> resumed s (resume_loop s)"
proof (induction s rule: resume_loop.induct)
  case (1 s)
  note inv = "1.prems"(1)
  show ?case
  proof (cases "int (card (cc_active_agents s)) < cc_active_limit s")
    case room: True
    show ?thesis
    proof (cases "cc_paused_order s")
      case (Cons rid rest)
      let ?s = "resume_agent rid (s\<lparr>cc_paused_order := rest\<rparr>)"
      have m: "rid \<in> cc_paused_agents s" using inv Cons by (auto simp: concur_inv_def)
      have inv': "concur_inv ?s" by (rule resume_step_inv [OF inv Cons])
      have "int (card (cc_active_agents ?s)) \<le> cc_active_limit ?s"
        using room concur_inv_distinct(5) [OF inv] concur_inv_distinct(5) [OF inv'] by (simp add: resume_agent_def)
      then have "resumed ?s (resume_loop ?s)"
        using "1.IH"(2) [OF room, of "Some rid" rest rid] inv' Cons m by simp
      then have "resumed s (resume_loop ?s)" by (auto simp: resumed_def resume_agent_def)
      then show ?thesis using room Cons m by (subst resume_loop.simps) simp
    next
      case Nil
      then have none: "cc_paused_agents s = {}" and same: "s\<lparr>cc_paused_order := []\<rparr> = s" using inv by (auto simp: concur_inv_def)
      show ?thesis
      proof (cases "dr_backlog (cc_driver s)")
        case Nil': Nil
        then show ?thesis using room Nil none inv
          by (subst resume_loop.simps) (auto simp: next_paused_inv [OF inv] resumed_def Let_def same)
      next
        case b: (Cons e es)
        let ?s = "start_agent e (pop_backlog s)"
        have inv': "concur_inv ?s" by (rule start_step_inv [OF inv Nil b room])
        have "int (card (cc_active_agents ?s)) \<le> cc_active_limit ?s"
          using room concur_inv_distinct(5) [OF inv] concur_inv_distinct(5) [OF inv'] by (simp add: start_agent_def pop_backlog_def)
        then have r: "resumed ?s (resume_loop ?s)"
          using "1.IH"(1) [OF room, of None "[]" s e es] inv' Nil b by (simp add: next_paused_inv [OF inv] same)
        define t where "t = resume_loop ?s"
        have f: "dr_backlog (cc_driver ?s) = es" "cc_active_limit ?s = cc_active_limit s" "cc_window_max ?s = cc_window_max s"
          "cc_paused_agents ?s = {}" "mset (task_ids (cc_driver ?s)) = mset (task_ids (cc_driver s))"
          using none b by (simp_all add: start_agent_def pop_backlog_def task_ids_def)
        from r f obtain n where n: "dr_backlog (cc_driver t) = drop (Suc n) (e # es)" by (auto simp: resumed_def t_def)
        have "resumed s t" unfolding resumed_def
          using r [unfolded resumed_def f, folded t_def] n by (auto simp only: b)
        then have "resumed s (resume_loop ?s)" by (simp only: t_def)
        then show ?thesis using room Nil b by (subst resume_loop.simps) (simp add: next_paused_inv [OF inv] Let_def same)
      qed
    qed
  next
    case False
    then show ?thesis using "1.prems" by (subst resume_loop.simps) (auto simp: resumed_def intro: exI [of _ 0])
  qed
qed

lemma process_concur_ok:
  assumes "concur_inv s" "concur_args_ok a"
  shows "resumed (pause_loop (concur_control a rd s)) (process_concur_submissions a rd s)"
  using pause_loop_ok [OF concur_control_inv [OF assms]] by (simp add: process_concur_submissions_def concur_reconcile_def resume_loop_ok)

section \<open>Reachable states\<close>

lemma mset_remove_id:
  assumes "mset (map f xs) = mset ys"
  shows "mset (map f (filter (\<lambda>x. f x \<noteq> r) xs)) = mset (filter (\<lambda>y. y \<noteq> r) ys)"
proof -
  have "map f (filter (\<lambda>x. f x \<noteq> r) xs) = filter (\<lambda>y. y \<noteq> r) (map f xs)" by (simp add: filter_map comp_def)
  then show ?thesis by (simp only: mset_filter assms)
qed

lemma collect_step_inv:
  assumes inv: "concur_inv s" and x: "x = (fid, tid)" "tid = [] \<or> tid = fid" "fid \<noteq> []"
  shows "concur_inv (concur_collect_one x s)"
proof -
  note d = concur_inv_distinct [OF inv]
  have rid: "(if tid = [] then fid else tid) = fid" using x(2) by auto
  have r: "remove1 fid xs = filter (\<lambda>y. y \<noteq> fid) xs" if "distinct xs" for xs
    using filter_remove1_distinct [OF that] by simp
  have "mset (map fl_request_id (filter (\<lambda>f. fl_request_id f \<noteq> fid) (dr_futures (cc_driver s)))) = mset (filter (\<lambda>y. y \<noteq> fid) (agents s))"
    using inv by (intro mset_remove_id) (simp add: concur_inv_def)
  moreover have "length (filter (\<lambda>y. y \<noteq> fid) (agents s)) \<le> length (agents s)" by simp
  moreover have "set (filter (\<lambda>y. y \<noteq> fid) (cc_active_order s)) = cc_active_agents s - {fid}"
    "set (filter (\<lambda>y. y \<noteq> fid) (cc_paused_order s)) = cc_paused_agents s - {fid}" using inv by (auto simp: concur_inv_def)
  moreover have "distinct (map fl_request_id (filter P (dr_futures (cc_driver s))))" for P
    using inv by (auto simp: concur_inv_def task_ids_def distinct_map intro: inj_on_subset)
  ultimately show ?thesis using inv r [OF d(2)] r [OF d(3)] x(3)
    by (auto simp: concur_inv_def concur_collect_one_def x(1) rid concur_complete_def collect_one_def agents_def task_ids_def Let_def)
qed

lemma concur_poll_inv:
  assumes "concur_inv s" "\<forall>(fid, tid)\<in>set done. fid \<noteq> [] \<and> (tid = [] \<or> tid = fid)"
  shows "concur_inv (concur_poll lines done s)"
proof -
  have "concur_inv s \<Longrightarrow> \<forall>(fid, tid)\<in>set xs. fid \<noteq> [] \<and> (tid = [] \<or> tid = fid) \<Longrightarrow> concur_inv (fold concur_collect_one xs s)" for xs s
  proof (induction xs arbitrary: s)
    case (Cons x xs)
    obtain fid tid where x: "x = (fid, tid)" by (cases x)
    have "concur_inv (concur_collect_one x s)" using Cons.prems x by (intro collect_step_inv [OF Cons.prems(1) x]) auto
    then show ?case using Cons by simp
  qed simp
  moreover have "concur_inv (s\<lparr>cc_driver := (cc_driver s)\<lparr>dr_tools := lt_poll lines (dr_tools (cc_driver s))\<rparr>\<rparr>)"
    using assms(1) by (simp add: concur_inv_def agents_def task_ids_def)
  ultimately show ?thesis using assms(2) unfolding concur_poll_def by blast
qed

lemma concur_emit_inv:
  assumes "concur_inv s" shows "concur_inv (concur_emit n s)"
proof -
  have "request_name (dr_next_index (cc_driver s)) \<notin> set (task_ids (cc_driver s))"
    using assms by (auto simp: concur_inv_def dest: injD [OF inj_request_name])
  then show ?thesis using assms
    by (auto simp: concur_inv_def concur_emit_def emit_request_def task_ids_def agents_def lessThan_Suc)
qed

text \<open>The trace of a completed task carries the id the task was submitted under, or none.\<close>

inductive concur_reach :: "concur_args \<Rightarrow> int \<Rightarrow> concur \<Rightarrow> bool" for a workers where
  cr_init: "concur_reach a workers (concur_init a m cores workers)"
| cr_emit: "concur_reach a workers s \<Longrightarrow> concur_reach a workers (concur_emit n s)"
| cr_poll: "concur_reach a workers s \<Longrightarrow> \<forall>(fid, tid)\<in>set done. fid \<noteq> [] \<and> (tid = [] \<or> tid = fid) \<Longrightarrow>
    concur_reach a workers (concur_poll lines done s)"
| cr_process: "concur_reach a workers s \<Longrightarrow> concur_reach a workers (process_concur_submissions a rd s)"

lemma window_max_fields [simp]:
  "cc_window_max (concur_emit n s) = cc_window_max s" "cc_window_max (concur_control a rd s) = cc_window_max s"
  by (simp_all add: concur_emit_def concur_control_def Let_def case_prod_beta)

lemma window_max_poll [simp]: "cc_window_max (concur_poll lines done s) = cc_window_max s"
proof -
  have "cc_window_max (fold concur_collect_one xs s) = cc_window_max s" for xs s
    by (induction xs arbitrary: s) (auto simp: concur_collect_one_def concur_complete_def Let_def)
  then show ?thesis by (simp add: concur_poll_def)
qed

lemma concur_reach_inv: "concur_reach a workers s \<Longrightarrow> concur_args_ok a \<Longrightarrow> concur_inv s \<and> cc_window_max s = concur_window_max a workers"
proof (induction rule: concur_reach.induct)
  case (cr_init m cores)
  then show ?case by (auto simp: concur_inv_def concur_init_def agents_def task_ids_def driver_init_def concur_window_max_def)
next
  case (cr_process s rd)
  then have inv: "concur_inv s" by simp
  note p = pause_loop_ok [OF concur_control_inv [OF inv cr_process.prems], of rd]
  show ?case using process_concur_ok [OF inv cr_process.prems, of rd] p cr_process by (simp add: resumed_def)
qed (auto intro: concur_emit_inv concur_poll_inv)

lemma process_concur_ids:
  assumes "concur_inv s" "concur_args_ok a"
  shows "mset (task_ids (cc_driver (process_concur_submissions a rd s))) = mset (task_ids (cc_driver s))"
proof -
  have "task_ids (cc_driver (pause_loop (concur_control a rd s))) = task_ids (cc_driver s)"
    by (simp add: pause_loop_driver concur_control_def Let_def case_prod_beta task_ids_def)
  then show ?thesis using process_concur_ok [OF assms, of rd] by (simp add: resumed_def)
qed

text \<open>Concur is an admission controller too.\<close>

definition concur_ready :: "concur_args \<Rightarrow> int \<Rightarrow> concur \<Rightarrow> bool" where
  "concur_ready a cap s \<longleftrightarrow> concur_args_ok a \<and> concur_inv s \<and> cc_window_max s = cap"

interpretation concur_rounds: admission_controller "concur_ready a cap" "task_ids \<circ> cc_driver" "dr_futures \<circ> cc_driver" cap
  "process_concur_submissions a"
proof unfold_locales
  fix s rd
  assume s: "concur_ready a cap s"
  then have inv: "concur_inv s" "concur_args_ok a" by (auto simp: concur_ready_def)
  note p = pause_loop_ok [OF concur_control_inv [OF inv], of rd]
  show "concur_ready a cap (process_concur_submissions a rd s)"
    using process_concur_ok [OF inv, of rd] p s by (simp add: resumed_def concur_ready_def)
  show "mset ((task_ids \<circ> cc_driver) (process_concur_submissions a rd s)) = mset ((task_ids \<circ> cc_driver) s)"
    using process_concur_ids [OF inv] by simp
next
  fix s
  assume s: "concur_ready a cap s"
  then have inv: "concur_inv s" by (simp add: concur_ready_def)
  then have "length (dr_futures (cc_driver s)) = length (agents s)"
    using mset_eq_length [of "map fl_request_id (dr_futures (cc_driver s))" "agents s"] by (simp add: concur_inv_def)
  then show "int (length ((dr_futures \<circ> cc_driver) s)) \<le> cap" using s inv by (simp add: concur_ready_def concur_inv_def)
  show "distinct ((task_ids \<circ> cc_driver) s)" using inv by (simp add: concur_inv_def)
qed

text \<open>
  C10: Concur keeps its window. In every state it reaches, the agents in flight are the active and the paused
  ones, each once, and no more than the worker pool has threads, so that a started agent never waits for a
  thread a paused one holds; the gate files are those of the active agents; and the window is between one and
  its maximum. After a control step at most as many agents are active as the window has, exactly as many
  unless nothing is left to resume or start; tasks start in the order of the backlog, and only when no agent
  is paused any more; none is lost or duplicated, over any number of steps.
\<close>

theorem concur_window:
  assumes "concur_args_ok a" and "concur_reach a (effective_max_workers mw nt) s"
  shows "let s' = process_concur_submissions a rd s; d' = cc_driver s' in
    mset (map fl_request_id (dr_futures d')) = mset_set (cc_active_agents s' \<union> cc_paused_agents s') \<and>
    int (length (dr_futures d')) \<le> effective_max_workers mw nt \<and>
    cc_active_agents s' \<inter> cc_paused_agents s' = {} \<and> cc_gates s' = cc_active_agents s' \<and>
    1 \<le> cc_active_limit s' \<and> cc_active_limit s' \<le> concur_window_max a (effective_max_workers mw nt) \<and>
    int (card (cc_active_agents s')) \<le> cc_active_limit s' \<and>
    (int (card (cc_active_agents s')) = cc_active_limit s' \<or> cc_paused_agents s' = {} \<and> dr_backlog d' = []) \<and>
    (\<exists>n. dr_backlog d' = drop n (dr_backlog (cc_driver s))) \<and>
    (dr_backlog d' = dr_backlog (cc_driver s) \<or> cc_paused_agents s' = {}) \<and> mset (task_ids d') = mset (task_ids (cc_driver s)) \<and>
    (\<forall>rds. int (length (dr_futures (cc_driver (fold (process_concur_submissions a) rds s)))) \<le> concur_window_max a (effective_max_workers mw nt) \<and>
       set (task_ids (cc_driver (fold (process_concur_submissions a) rds s))) = set (task_ids (cc_driver s)))"
proof -
  define s' where "s' = process_concur_submissions a rd s"
  note inv = concur_reach_inv [OF assms(2,1)]
  have ready: "concur_ready a (concur_window_max a (effective_max_workers mw nt)) s" using inv assms(1) by (simp add: concur_ready_def)
  note p = pause_loop_ok [OF concur_control_inv [OF conjunct1 [OF inv] assms(1)], of rd]
  have r: "resumed (pause_loop (concur_control a rd s)) s'" unfolding s'_def by (rule process_concur_ok [OF conjunct1 [OF inv] assms(1)])
  have i': "concur_inv s'" using r by (simp add: resumed_def)
  have max: "cc_window_max s' = concur_window_max a (effective_max_workers mw nt)" using r p inv by (simp add: resumed_def)
  have "mset (agents s') = mset_set (cc_active_agents s' \<union> cc_paused_agents s')"
    using mset_set_set [OF concur_inv_distinct(1) [OF i']] i' by (simp add: agents_def concur_inv_def)
  moreover have "length (dr_futures (cc_driver s')) = length (agents s')"
    using i' mset_eq_length [of "map fl_request_id (dr_futures (cc_driver s'))" "agents s'"] by (simp add: concur_inv_def)
  moreover have "concur_window_max a (effective_max_workers mw nt) \<le> effective_max_workers mw nt"
    by (simp add: concur_window_max_def effective_max_workers_def)
  moreover have "dr_backlog (cc_driver (pause_loop (concur_control a rd s))) = dr_backlog (cc_driver s)"
    "task_ids (cc_driver (pause_loop (concur_control a rd s))) = task_ids (cc_driver s)"
    by (simp_all add: pause_loop_driver concur_control_def Let_def case_prod_beta task_ids_def)
  ultimately show ?thesis
    using r i' max concur_inv_distinct(4) [OF i'] concur_rounds.rounds_safe [OF ready] by (simp add: Let_def s'_def [symmetric] resumed_def concur_inv_def)
qed

definition concur_defaults :: concur_args where
  "concur_defaults = \<lparr>ca_window_init = 1, ca_max_active_agents = 0, ca_control_interval_s = 1/5, ca_additive_increase = 2,
     ca_multiplicative_decrease = 1/2, ca_util_low = 1/5, ca_util_high = 1/2, ca_hit_rate_threshold = 1/5\<rparr>"

definition example_concur :: concur where
  "example_concur = concur_emit 700 (concur_emit 900 (concur_init concur_defaults default_args 4 (effective_max_workers 4 8)))"

theorem concur_window_witness:
  "concur_args_ok concur_defaults \<and> effective_max_workers 4 8 = 4 \<and> length (dr_backlog (cc_driver example_concur)) = 2 \<and>
   int (length (dr_futures (cc_driver (process_concur_submissions concur_defaults example_reading example_concur)))) \<le> 4"
proof -
  have ok: "concur_args_ok concur_defaults" by (simp add: concur_args_ok_def concur_defaults_def)
  have w: "effective_max_workers 4 8 = 4" by (simp add: effective_max_workers_def)
  have "concur_reach concur_defaults (effective_max_workers 4 8) example_concur" unfolding example_concur_def by (intro cr_emit cr_init)
  from concur_window [OF ok this, of example_reading] show ?thesis using ok w
    by (simp add: Let_def) (simp add: example_concur_def concur_emit_def emit_request_def concur_init_def driver_init_def)
qed

end
