(* ===== verification/Ngram.thy ===== *)
theory Ngram
  imports Mars_Prelude "HOL-Library.While_Combinator"
begin

text \<open>
  The n-gram proposer of speculative decoding, \<^verbatim>\<open>v1/spec_decode/ngram_proposer.py\<close>: a Knuth-Morris-Pratt scan
  of the reversed context with the failure table cut off at the longest n-gram. The scan is a loop over a
  record of its locals; it is proved to return and to agree with a direct search for the longest n-gram.
\<close>

section \<open>The proposer\<close>

record ngram_locals =
  ng_lps :: "nat list"
  ng_longest :: nat
  ng_position :: nat
  ng_prev :: nat
  ng_i :: nat

definition note_match :: "nat \<Rightarrow> ngram_locals \<Rightarrow> ngram_locals" where
  "note_match max_ngram s =
     (let i = ng_i s; prev_lps = ng_prev s + 1;
          s = (if prev_lps \<ge> ng_longest s then s\<lparr>ng_longest := prev_lps, ng_position := i\<rparr> else s);
          s = (if i < max_ngram then s\<lparr>ng_lps := (ng_lps s)[i := prev_lps]\<rparr> else s)
      in s\<lparr>ng_prev := (if prev_lps = max_ngram then ng_lps s ! (max_ngram - 1) else prev_lps), ng_i := i + 1\<rparr>)"

definition ngram_step :: "nat \<Rightarrow> int list \<Rightarrow> ngram_locals \<Rightarrow> ngram_locals" where
  "ngram_step max_ngram tokens s =
     (if tokens ! ng_prev s = tokens ! ng_i s then note_match max_ngram s
      else if ng_prev s \<noteq> 0 then s\<lparr>ng_prev := ng_lps s ! (ng_prev s - 1)\<rparr>
      else s\<lparr>ng_i := ng_i s + 1\<rparr>)"

definition ngram_loop :: "nat \<Rightarrow> int list \<Rightarrow> ngram_locals option" where
  "ngram_loop max_ngram tokens =
     while_option (\<lambda>s. ng_i s < length tokens) (ngram_step max_ngram tokens)
       \<lparr>ng_lps = replicate max_ngram 0, ng_longest = 0, ng_position = 0, ng_prev = 0, ng_i = 1\<rparr>"

text \<open>\<^verbatim>\<open>_find_longest_matched_ngram_and_propose_tokens\<close>; the outer \<^const>\<open>None\<close> stands for a scan that does not end.\<close>

definition find_longest_matched_ngram_and_propose_tokens :: "int list \<Rightarrow> nat \<Rightarrow> nat \<Rightarrow> int \<Rightarrow> int \<Rightarrow> int list option option" where
  "find_longest_matched_ngram_and_propose_tokens origin_tokens min_ngram max_ngram max_model_len k =
     (let total_token = length origin_tokens; k = min k (max_model_len - int total_token)
      in if total_token < min_ngram then Some None
         else if k \<le> 0 then Some None
         else map_option (\<lambda>s.
           if ng_longest s < min_ngram then None
           else
             let start_position = total_token - 1 - ng_position s + ng_longest s;
                 k = min k (int total_token - int start_position)
             in Some (py_slice origin_tokens (int start_position) (int start_position + k)))
           (ngram_loop max_ngram (rev origin_tokens)))"

text \<open>The range of lengths \<^verbatim>\<open>SpeculativeConfig\<close> accepts, with its defaults.\<close>

definition lookup_range :: "int option \<Rightarrow> int option \<Rightarrow> (int \<times> int) result" where
  "lookup_range prompt_lookup_min prompt_lookup_max =
     (let (lo, hi) = (case (prompt_lookup_min, prompt_lookup_max) of
          (None, None) \<Rightarrow> (5, 5) | (None, Some b) \<Rightarrow> (b, b) | (Some a, None) \<Rightarrow> (a, a) | (Some a, Some b) \<Rightarrow> (a, b))
      in if lo < 1 then Inl ValueError else if hi < 1 then Inl ValueError else if lo > hi then Inl ValueError else Inr (lo, hi))"

record NgramProposer =
  np_min_n :: nat
  np_max_n :: nat
  np_k :: int
  np_max_model_len :: int

definition ngram_propose :: "NgramProposer \<Rightarrow> int list \<Rightarrow> int list option option" where
  "ngram_propose p context_token_ids =
     find_longest_matched_ngram_and_propose_tokens context_token_ids (np_min_n p) (np_max_n p) (np_max_model_len p) (np_k p)"

section \<open>The specification\<close>

text \<open>The last \<^term>\<open>v\<close> tokens also occur at position \<^term>\<open>s\<close>, before the end.\<close>

definition ngram_at :: "int list \<Rightarrow> nat \<Rightarrow> nat \<Rightarrow> bool" where
  "ngram_at xs v s \<longleftrightarrow> s + v < length xs \<and> take v (drop s xs) = drop (length xs - v) xs"

text \<open>
  The direct search: the longest length of the given range that occurs, its earliest occurrence, and the
  tokens that follow there.
\<close>

definition first_occurrence :: "int list \<Rightarrow> nat \<Rightarrow> nat option" where
  "first_occurrence xs v = find (ngram_at xs v) [0..<length xs]"

definition search_propose :: "int list \<Rightarrow> nat \<Rightarrow> nat \<Rightarrow> int \<Rightarrow> int \<Rightarrow> int list option" where
  "search_propose xs min_n max_n max_model_len k =
     (let room = min k (max_model_len - int (length xs))
      in if room \<le> 0 then None
         else Option.bind (find (\<lambda>v. first_occurrence xs v \<noteq> None) (rev [min_n..<Suc max_n])) (\<lambda>v.
           map_option (\<lambda>s. take (nat room) (drop (s + v) xs)) (first_occurrence xs v)))"

section \<open>Borders\<close>

text \<open>The first \<^term>\<open>v\<close> tokens are a proper suffix of the first \<^term>\<open>m\<close>.\<close>

definition border :: "int list \<Rightarrow> nat \<Rightarrow> nat \<Rightarrow> bool" where
  "border t v m \<longleftrightarrow> v < m \<and> (\<forall>j<v. t ! j = t ! (m - v + j))"

lemma border_0: "0 < m \<Longrightarrow> border t 0 m"
  by (simp add: border_def)

lemma border_less: "border t v m \<Longrightarrow> v < m"
  by (simp add: border_def)

lemma border_Suc: "border t (Suc v) (Suc m) \<longleftrightarrow> border t v m \<and> t ! v = t ! m"
proof -
  have "(\<forall>j<Suc v. t ! j = t ! (m - v + j)) \<longleftrightarrow> (\<forall>j<v. t ! j = t ! (m - v + j)) \<and> t ! v = t ! m" if "v < m"
    using that by (auto simp: less_Suc_eq)
  then show ?thesis by (auto simp: border_def)
qed

text \<open>A shorter border of a prefix is a border of any longer border.\<close>

lemma border_nest: "border t a m \<Longrightarrow> v < a \<Longrightarrow> border t v m \<longleftrightarrow> border t v a"
proof -
  assume a: "border t a m" and v: "v < a"
  have "t ! (a - v + j) = t ! (m - v + j)" if "j < v" for j
  proof -
    have "a - v + j < a" using that v by simp
    then have "t ! (a - v + j) = t ! (m - a + (a - v + j))" using a by (simp only: border_def)
    moreover have "m - a + (a - v + j) = m - v + j" using v a by (simp add: border_def)
    ultimately show ?thesis by simp
  qed
  then show "border t v m \<longleftrightarrow> border t v a" using v a by (auto simp: border_def)
qed

definition longest_border :: "int list \<Rightarrow> nat \<Rightarrow> nat \<Rightarrow> bool" where
  "longest_border t v m \<longleftrightarrow> border t v m \<and> (\<forall>u. border t u m \<longrightarrow> u \<le> v)"

section \<open>The scan\<close>

text \<open>The table holds the longest borders of the prefixes scanned so far, and zeros beyond.\<close>

definition table_ok :: "nat \<Rightarrow> int list \<Rightarrow> nat list \<Rightarrow> nat \<Rightarrow> bool" where
  "table_ok K t lps i \<longleftrightarrow> length lps = K \<and> (\<forall>j<K. if j < i then longest_border t (lps ! j) (Suc j) else lps ! j = 0)"

text \<open>The longest n-gram so far, of length at most \<^term>\<open>K\<close>, and the last prefix that ends with it.\<close>

definition best_ok :: "nat \<Rightarrow> int list \<Rightarrow> nat \<Rightarrow> nat \<Rightarrow> nat \<Rightarrow> bool" where
  "best_ok K t longest position i \<longleftrightarrow> longest \<le> K \<and> (\<forall>m v. m \<le> i \<and> v \<le> K \<and> border t v m \<longrightarrow> v \<le> longest) \<and>
     (0 < longest \<longrightarrow> position < i \<and> border t longest (Suc position) \<and> (\<forall>m. Suc position < m \<and> m \<le> i \<longrightarrow> \<not> border t longest m))"

definition ngram_inv :: "nat \<Rightarrow> int list \<Rightarrow> ngram_locals \<Rightarrow> bool" where
  "ngram_inv K t s \<longleftrightarrow> 1 \<le> ng_i s \<and> ng_i s \<le> length t \<and> table_ok K t (ng_lps s) (ng_i s) \<and>
     best_ok K t (ng_longest s) (ng_position s) (ng_i s) \<and> border t (ng_prev s) (ng_i s) \<and> ng_prev s < K \<and>
     (\<forall>v. border t v (ng_i s) \<and> v < K \<and> ng_prev s < v \<and> ng_i s < length t \<longrightarrow> t ! v \<noteq> t ! ng_i s)"

lemma best_ok_Suc:
  assumes "best_ok K t longest position i" and "\<And>v. 0 < v \<Longrightarrow> v \<le> K \<Longrightarrow> border t v (Suc i) \<Longrightarrow> v < longest"
  shows "best_ok K t longest position (Suc i)"
  using assms unfolding best_ok_def by (metis le_SucE less_or_eq_imp_le less_Suc_eq not_gr_zero less_irrefl)

lemma best_ok_new:
  assumes "best_ok K t longest position i" "longest \<le> w" "w \<le> K" "0 < w" "border t w (Suc i)"
    and "\<And>v. v \<le> K \<Longrightarrow> border t v (Suc i) \<Longrightarrow> v \<le> w"
  shows "best_ok K t w i (Suc i)"
  using assms unfolding best_ok_def by (metis le_SucE le_trans lessI not_less)

lemma table_ok_put:
  assumes "table_ok K t lps i" "longest_border t w (Suc i)"
  shows "table_ok K t (if i < K then lps[i := w] else lps) (Suc i)"
  using assms by (auto simp: table_ok_def nth_list_update less_Suc_eq)

text \<open>A token that matches extends the longest border that can be extended.\<close>

lemma match_longest:
  assumes inv: "ngram_inv K t s" and i: "ng_i s < length t" and eq: "t ! ng_prev s = t ! ng_i s"
  shows "border t (Suc (ng_prev s)) (Suc (ng_i s))" "\<And>v. v \<le> K \<Longrightarrow> border t v (Suc (ng_i s)) \<Longrightarrow> v \<le> Suc (ng_prev s)"
proof -
  show "border t (Suc (ng_prev s)) (Suc (ng_i s))" using inv eq by (simp add: ngram_inv_def border_Suc)
  fix v
  assume v: "v \<le> K" "border t v (Suc (ng_i s))"
  show "v \<le> Suc (ng_prev s)"
  proof (cases v)
    case (Suc u)
    then have "border t u (ng_i s) \<and> t ! u = t ! ng_i s" using v(2) by (simp add: border_Suc)
    then have "\<not> ng_prev s < u" using inv i v(1) Suc unfolding ngram_inv_def by auto
    then show ?thesis using Suc by simp
  qed simp
qed

lemma note_match_inv:
  assumes inv: "ngram_inv K t s" and i: "ng_i s < length t" and eq: "t ! ng_prev s = t ! ng_i s"
  shows "ngram_inv K t (note_match K s) \<and> ng_i (note_match K s) = Suc (ng_i s) \<and> ng_prev (note_match K s) \<le> Suc (ng_prev s)"
proof -
  let ?i = "ng_i s" and ?w = "Suc (ng_prev s)" and ?lps = "if ng_i s < K then (ng_lps s)[ng_i s := Suc (ng_prev s)] else ng_lps s"
  let ?prev = "if ?w = K then ?lps ! (K - 1) else ?w"
  note m = match_longest [OF assms]
  have K: "?w \<le> K" "0 < K" "?w \<le> ?i" using inv by (auto simp: ngram_inv_def border_def)
  have "longest_border t ?w (Suc ?i)" if "?i < K"
    unfolding longest_border_def using m that by (auto simp: border_def)
  then have tab: "table_ok K t ?lps (Suc ?i)"
    using inv table_ok_put [of K t "ng_lps s" ?i ?w] by (cases "?i < K") (auto simp: ngram_inv_def table_ok_def)
  have best: "if ?w \<ge> ng_longest s then best_ok K t ?w ?i (Suc ?i) else best_ok K t (ng_longest s) (ng_position s) (Suc ?i)"
    using inv m K best_ok_new [of K t "ng_longest s" "ng_position s" ?i ?w] best_ok_Suc [of K t "ng_longest s" "ng_position s" ?i]
    by (auto simp: ngram_inv_def not_le intro: le_less_trans)
  have last: "longest_border t (?lps ! (K - 1)) K" if "?w = K"
    using tab that K by (simp add: table_ok_def) (metis K(2) K(3) One_nat_def Suc_pred diff_less le_imp_less_Suc zero_less_one not_less_eq less_Suc_eq_le)
  have prev: "border t ?prev (Suc ?i) \<and> ?prev < K \<and> (\<forall>v. border t v (Suc ?i) \<and> v < K \<longrightarrow> v \<le> ?prev) \<and> ?prev \<le> ?w"
  proof (cases "?w = K")
    case True
    have l: "border t (?lps ! (K - 1)) K" "\<And>u. border t u K \<Longrightarrow> u \<le> ?lps ! (K - 1)" using last [OF True] by (auto simp: longest_border_def)
    have "border t K (Suc ?i)" using m(1) True by simp
    then show ?thesis using l border_nest [of t K "Suc ?i"] border_less [OF l(1)] True by auto
  next
    case False
    then show ?thesis using m K by simp
  qed
  have e: "note_match K s = \<lparr>ng_lps = ?lps, ng_longest = (if ?w \<ge> ng_longest s then ?w else ng_longest s),
      ng_position = (if ?w \<ge> ng_longest s then ?i else ng_position s), ng_prev = ?prev, ng_i = Suc ?i\<rparr>"
    by (simp add: note_match_def Let_def)
  show ?thesis unfolding e using tab best prev i by (auto simp: ngram_inv_def split: if_splits)
qed

lemma ngram_step_inv:
  assumes inv: "ngram_inv K t s" and i: "ng_i s < length t"
  shows "ngram_inv K t (ngram_step K t s) \<and>
    2 * (length t - ng_i (ngram_step K t s)) + ng_prev (ngram_step K t s) < 2 * (length t - ng_i s) + ng_prev s"
proof (cases "t ! ng_prev s = t ! ng_i s")
  case True
  then show ?thesis using note_match_inv [OF assms True] i by (auto simp: ngram_step_def)
next
  case False
  show ?thesis
  proof (cases "ng_prev s = 0")
    case True
    have none: "\<not> border t v (Suc (ng_i s))" if v: "0 < v" "v \<le> K" for v
    proof
      assume "border t v (Suc (ng_i s))"
      then obtain u where u: "v = Suc u" "border t u (ng_i s)" "t ! u = t ! ng_i s" using v(1) by (cases v) (auto simp: border_Suc)
      then show False using inv i v False True by (cases "u = 0") (auto simp: ngram_inv_def)
    qed
    have "longest_border t 0 (Suc (ng_i s))" if "ng_i s < K"
      using that none border_less [of t _ "Suc (ng_i s)"] by (fastforce simp: longest_border_def border_0)
    then have "table_ok K t (ng_lps s) (Suc (ng_i s))"
      using inv by (auto simp: ngram_inv_def table_ok_def less_Suc_eq)
    then show ?thesis using none i inv True False best_ok_Suc [of K t "ng_longest s" "ng_position s" "ng_i s"]
      by (auto simp: ngram_inv_def ngram_step_def border_0) 
  next
    case prev: False
    let ?p = "ng_prev s" and ?q = "ng_lps s ! (ng_prev s - 1)"
    have tab: "\<forall>j<K. if j < ng_i s then longest_border t (ng_lps s ! j) (Suc j) else ng_lps s ! j = 0" and "?p - 1 < K" "?p - 1 < ng_i s"
      using inv by (auto simp: ngram_inv_def table_ok_def border_def)
    then have "longest_border t ?q (Suc (?p - 1))" using tab [rule_format, of "?p - 1"] by simp
    then have "longest_border t ?q ?p" using prev by simp
    then have q: "border t ?q ?p" "\<And>u. border t u ?p \<Longrightarrow> u \<le> ?q" by (auto simp: longest_border_def)
    have p: "border t ?p (ng_i s)" using inv by (simp add: ngram_inv_def)
    have "t ! v \<noteq> t ! ng_i s" if v: "border t v (ng_i s)" "v < K" "?q < v" for v
    proof (cases v ?p rule: linorder_cases)
      case less
      then show ?thesis using border_nest [OF p less] v q(2) by fastforce
    qed (use False inv i v in \<open>auto simp: ngram_inv_def\<close>)
    then show ?thesis using inv False prev border_less [OF q(1)] q(1) border_nest [OF p border_less [OF q(1)]]
      by (auto simp: ngram_inv_def ngram_step_def)
  qed
qed

section \<open>The scan returns the longest n-gram\<close>

lemma ngram_loop_returns:
  assumes "0 < K" "t \<noteq> []"
  shows "\<exists>s. ngram_loop K t = Some s \<and> best_ok K t (ng_longest s) (ng_position s) (length t)"
proof -
  let ?s = "\<lparr>ng_lps = replicate K 0, ng_longest = 0, ng_position = 0, ng_prev = 0, ng_i = 1\<rparr> :: ngram_locals"
  have "border t v (Suc 0) \<longleftrightarrow> v = 0" for v by (auto simp: border_def)
  moreover have "m \<le> Suc 0 \<Longrightarrow> border t v m \<Longrightarrow> v = 0" for m v by (auto simp: border_def)
  ultimately have init: "ngram_inv K t ?s"
    using assms by (auto simp: ngram_inv_def table_ok_def best_ok_def longest_border_def Suc_leI)
  from measure_while_option_Some [where P="ngram_inv K t" and b="\<lambda>s. ng_i s < length t" and c="ngram_step K t"
      and f="\<lambda>s. 2 * (length t - ng_i s) + ng_prev s" and s="?s", OF ngram_step_inv init]
  obtain s where s: "ngram_loop K t = Some s" by (auto simp: ngram_loop_def)
  have "ngram_inv K t s"
    using while_option_rule [where P="ngram_inv K t", OF _ s [unfolded ngram_loop_def] init] ngram_step_inv by blast
  moreover have "\<not> ng_i s < length t" using while_option_stop [OF s [unfolded ngram_loop_def]] .
  ultimately show ?thesis using s by (metis ngram_inv_def le_antisym not_less)
qed

text \<open>Borders of the reversed context are occurrences in the context.\<close>

lemma border_rev:
  assumes "m \<le> length xs" "0 < m"
  shows "border (rev xs) v m \<longleftrightarrow> v < m \<and> ngram_at xs v (length xs - m)"
proof -
  let ?n = "length xs"
  have "(\<forall>j<v. rev xs ! j = rev xs ! (m - v + j)) \<longleftrightarrow> (\<forall>l<v. xs ! (?n - m + l) = xs ! (?n - v + l))" if v: "v < m"
  proof -
    have r: "rev xs ! j = xs ! (?n - v + (v - 1 - j))" "rev xs ! (m - v + j) = xs ! (?n - m + (v - 1 - j))" if "j < v" for j
      using that v assms by (simp_all add: rev_nth)
    show ?thesis
    proof (intro iffI allI impI)
      fix l assume a: "\<forall>j<v. rev xs ! j = rev xs ! (m - v + j)" and l: "l < v"
      have j: "v - 1 - l < v" "v - 1 - (v - 1 - l) = l" using l by auto
      show "xs ! (?n - m + l) = xs ! (?n - v + l)" using a [rule_format, OF j(1)] unfolding r [OF j(1)] j(2) by simp
    next
      fix j assume a: "\<forall>l<v. xs ! (?n - m + l) = xs ! (?n - v + l)" and j: "j < v"
      have "v - 1 - j < v" using j by simp
      from a [rule_format, OF this] show "rev xs ! j = rev xs ! (m - v + j)" unfolding r [OF j] by simp
    qed
  qed
  moreover have "take v (drop (?n - m) xs) = drop (?n - v) xs \<longleftrightarrow> (\<forall>l<v. xs ! (?n - m + l) = xs ! (?n - v + l))" if "v < m"
    using that assms by (auto simp: list_eq_iff_nth_eq)
  ultimately show ?thesis using assms by (auto simp: border_def ngram_at_def)
qed

lemma ngram_at_border: "ngram_at xs v s \<Longrightarrow> border (rev xs) v (length xs - s)"
  using border_rev [of "length xs - s" xs v] by (auto simp: ngram_at_def)

lemma find_first:
  assumes "P a" "a < n" "\<And>s. s < a \<Longrightarrow> \<not> P s" shows "find P [0..<n] = Some a"
  using assms by (auto simp: find_Some_iff intro!: exI [of _ a])

lemma find_app: "find P (xs @ ys) = (case find P xs of None \<Rightarrow> find P ys | Some x \<Rightarrow> Some x)"
  by (induction xs) auto

lemma find_rev_upt:
  assumes "P w" "l \<le> w" "w \<le> u" "\<And>v. w < v \<Longrightarrow> v \<le> u \<Longrightarrow> \<not> P v"
  shows "find P (rev [l..<Suc u]) = Some w"
proof -
  have "rev [l..<Suc u] = rev [Suc w..<Suc u] @ w # rev [l..<w]"
    using upt_add_eq_append [of l w "Suc u - w"] upt_conv_Cons [of w "Suc u"] assms(2,3) by (simp del: upt_Suc)
  moreover have "find P (rev [Suc w..<Suc u]) = None" using assms(4) by (auto simp: find_None_iff)
  ultimately show ?thesis using assms(1)
    by (simp add: find_app)
qed

lemma no_occurrence: "first_occurrence xs v = None \<longleftrightarrow> (\<forall>s. \<not> ngram_at xs v s)"
  by (auto simp: first_occurrence_def find_None_iff ngram_at_def)

lemma best_no_occurrence:
  "best_ok K (rev xs) w p (length xs) \<Longrightarrow> w < v \<Longrightarrow> v \<le> K \<Longrightarrow> first_occurrence xs v = None"
  using ngram_at_border [of xs v] unfolding no_occurrence best_ok_def by (metis diff_le_self not_less)

lemma best_first_occurrence:
  assumes "best_ok K (rev xs) w p (length xs)" "0 < w"
  shows "first_occurrence xs w = Some (length xs - Suc p)" "length xs - Suc p + w < length xs" "p < length xs"
proof -
  have b: "p < length xs" "border (rev xs) w (Suc p)" "\<And>m. Suc p < m \<Longrightarrow> m \<le> length xs \<Longrightarrow> \<not> border (rev xs) w m"
    using assms by (auto simp: best_ok_def)
  then have at: "ngram_at xs w (length xs - Suc p)" using border_rev [of "Suc p" xs w] by (simp add: Suc_leI)
  then show "length xs - Suc p + w < length xs" "p < length xs" using b(1) by (simp_all add: ngram_at_def)
  have "\<not> ngram_at xs w s" if "s < length xs - Suc p" for s
    using b(3) [of "length xs - s"] ngram_at_border [of xs w s] that by auto
  then show "first_occurrence xs w = Some (length xs - Suc p)"
    unfolding first_occurrence_def using at b(1) by (intro find_first) auto
qed

lemma slice_take:
  assumes "i < length xs" "0 < r"
  shows "py_slice xs (int i) (int i + min r (int (length xs) - int i)) = take (nat r) (drop i xs)"
proof -
  have "nat (int i + min r (int (length xs) - int i)) = i + min (nat r) (length xs - i)" using assms by linarith
  then have "py_slice xs (int i) (int i + min r (int (length xs) - int i)) = take (min (nat r) (length xs - i)) (drop i xs)"
    using assms by (simp add: py_slice_nonneg drop_take)
  then show ?thesis by (simp add: min_def)
qed

text \<open>
  C13: the n-gram proposer agrees with a direct search. For every range of lengths the configuration accepts, the
  linear scan of the reversed context returns, and what it proposes is what a search gives that tries the
  lengths from the longest down, takes the earliest occurrence of the final n-gram before the end of the
  context, and copies the tokens that follow there, up to the number asked for and the length of the model.
\<close>

theorem ngram_proposer_search:
  assumes "lookup_range lo hi = Inr (min_n, max_n)"
  shows "ngram_propose \<lparr>np_min_n = nat min_n, np_max_n = nat max_n, np_k = k, np_max_model_len = max_model_len\<rparr> xs =
    Some (search_propose xs (nat min_n) (nat max_n) max_model_len k)"
proof -
  let ?a = "nat min_n" and ?b = "nat max_n" and ?n = "length xs" and ?r = "min k (max_model_len - int (length xs))"
  have ab: "0 < ?a" "?a \<le> ?b" using assms by (auto simp: lookup_range_def Let_def split: if_splits prod.splits)
  consider "?r \<le> 0" | "0 < ?r" "?n < ?a" | "0 < ?r" "?a \<le> ?n" by linarith
  then show ?thesis
  proof cases
    case 1
    then show ?thesis by (simp add: ngram_propose_def find_longest_matched_ngram_and_propose_tokens_def search_propose_def Let_def)
  next
    case 2
    then have "find (\<lambda>v. first_occurrence xs v \<noteq> None) (rev [?a..<Suc ?b]) = None"
      by (auto simp: find_None_iff no_occurrence ngram_at_def simp del: upt_Suc)
    then show ?thesis using 2
      by (simp add: ngram_propose_def find_longest_matched_ngram_and_propose_tokens_def search_propose_def Let_def del: upt_Suc)
  next
    case 3
    then obtain s where s: "ngram_loop ?b (rev xs) = Some s" "best_ok ?b (rev xs) (ng_longest s) (ng_position s) ?n"
      using ngram_loop_returns [of ?b "rev xs"] ab by fastforce
    show ?thesis
    proof (cases "ng_longest s < ?a")
      case True
      then have "find (\<lambda>v. first_occurrence xs v \<noteq> None) (rev [?a..<Suc ?b]) = None"
        using best_no_occurrence [OF s(2)] by (auto simp: find_None_iff simp del: upt_Suc)
      then show ?thesis using 3 s True
        by (simp add: ngram_propose_def find_longest_matched_ngram_and_propose_tokens_def search_propose_def Let_def del: upt_Suc)
    next
      case False
      then have w: "0 < ng_longest s" "ng_longest s \<le> ?b" using ab s(2) by (auto simp: best_ok_def)
      note f = best_first_occurrence [OF s(2) w(1)]
      have "find (\<lambda>v. first_occurrence xs v \<noteq> None) (rev [?a..<Suc ?b]) = Some (ng_longest s)"
        using f(1) False w best_no_occurrence [OF s(2)] by (intro find_rev_upt) auto
      moreover have "?n - 1 - ng_position s + ng_longest s = ?n - Suc (ng_position s) + ng_longest s" by simp
      ultimately show ?thesis using 3 s(1) False f slice_take [OF f(2) 3(1)]
        by (simp add: ngram_propose_def find_longest_matched_ngram_and_propose_tokens_def search_propose_def Let_def del: upt_Suc)
    qed
  qed
qed

theorem ngram_proposer_search_witness:
  "lookup_range (Some 2) (Some 3) = Inr (2, 3) \<and>
   ngram_propose \<lparr>np_min_n = nat 2, np_max_n = nat 3, np_k = 4, np_max_model_len = 100\<rparr> [1, 2, 3, 4, 2, 3] = Some (Some [4, 2, 3])"
proof -
  have r: "lookup_range (Some 2) (Some 3) = Inr (2, 3)" by (simp add: lookup_range_def)
  have "search_propose [1, 2, 3, 4, 2, 3] (nat 2) (nat 3) 100 4 = Some [4, 2, 3]" by code_simp
  then show ?thesis using ngram_proposer_search [OF r, of 4 100 "[1, 2, 3, 4, 2, 3]"] r by simp
qed

end
