(* ===== verification/Detokenizer.thy ===== *)
theory Detokenizer
  imports Mars_Prelude "HOL-Library.Sublist"
begin

text \<open>
  Incremental detokenization with stop strings: \<^verbatim>\<open>v1/engine/detokenizer.py\<close> and
  \<^verbatim>\<open>StopChecker.check_stop_strings\<close>. The text a tokenizer gives for a new token is a parameter, a function of
  the tokens so far. A stream is a sequence of engine outputs, each taken in by \<^verbatim>\<open>update\<close> and answered by
  \<^verbatim>\<open>get_next_output_text\<close>, as \<^verbatim>\<open>OutputProcessor.process_outputs\<close> does, until one finishes the request.
\<close>

section \<open>Searching\<close>

definition occurs_at :: "'a list \<Rightarrow> 'a list \<Rightarrow> nat \<Rightarrow> bool" where
  "occurs_at s sub i \<longleftrightarrow> take (length sub) (drop i s) = sub"

text \<open>\<^verbatim>\<open>s.find(sub, start)\<close>; a start below zero counts from the end.\<close>

definition py_find :: "'a list \<Rightarrow> 'a list \<Rightarrow> int \<Rightarrow> int" where
  "py_find s sub start =
     (let i = nat (if start < 0 then max 0 (start + int (length s)) else start)
      in case find (occurs_at s sub) [i..<Suc (length s)] of Some j \<Rightarrow> int j | None \<Rightarrow> -1)"

fun check_stop_strings :: "string \<Rightarrow> int \<Rightarrow> string list \<Rightarrow> bool \<Rightarrow> (string \<times> int) option" where
  "check_stop_strings output_text new_char_count [] include_in_output = None"
| "check_stop_strings output_text new_char_count (stop_str # stops) include_in_output =
     (if new_char_count = 0 then None
      else
        let stop_index = py_find output_text stop_str (1 - new_char_count - int (length stop_str))
        in if stop_index = -1 then check_stop_strings output_text new_char_count stops include_in_output
           else if include_in_output \<and> stop_index + int (length stop_str) \<ge> int (length output_text) then Some (stop_str, -1)
           else if include_in_output then Some (stop_str, stop_index + int (length stop_str))
           else Some (stop_str, stop_index))"

section \<open>The detokenizer\<close>

record detokenizer =
  dt_token_ids :: "int list"
  dt_prompt_len :: nat
  dt_stop :: "string list"
  dt_min_tokens :: int
  dt_include_stop :: bool
  dt_stop_buffer_length :: int
  dt_last_output_text_offset :: int
  dt_output_text :: string

text \<open>
  The constructors: the fast detokenizer starts with no tokens, the slow one with those of the prompt, which
  \<^verbatim>\<open>output_token_ids\<close> leaves out.
\<close>

definition new_detokenizer :: "int list \<Rightarrow> string list \<Rightarrow> int \<Rightarrow> bool \<Rightarrow> detokenizer" where
  "new_detokenizer prompt stop min_tokens include_stop =
     \<lparr>dt_token_ids = prompt, dt_prompt_len = length prompt, dt_stop = stop, dt_min_tokens = min_tokens, dt_include_stop = include_stop,
      dt_stop_buffer_length = (if stop \<noteq> [] \<and> \<not> include_stop then Max (set (map (int \<circ> length) stop)) - 1 else 0),
      dt_last_output_text_offset = 0, dt_output_text = []\<rparr>"

definition output_token_ids :: "detokenizer \<Rightarrow> int list" where
  "output_token_ids d = drop (dt_prompt_len d) (dt_token_ids d)"

text \<open>One token of the loop of \<^verbatim>\<open>update\<close>; the offset from which stop strings are searched moves on while too few tokens are out.\<close>

definition add_token :: "(int list \<Rightarrow> string) \<Rightarrow> int \<Rightarrow> detokenizer \<times> int \<Rightarrow> detokenizer \<times> int" where
  "add_token decode_next t = (\<lambda>(d, stop_check_offset).
     let d = d\<lparr>dt_token_ids := dt_token_ids d @ [t]\<rparr>;
         d = d\<lparr>dt_output_text := dt_output_text d @ decode_next (dt_token_ids d)\<rparr>
     in (d, if dt_min_tokens d \<noteq> 0 \<and> int (length (output_token_ids d)) \<le> dt_min_tokens d
            then int (length (dt_output_text d)) else stop_check_offset))"

text \<open>The new tokens; the token that stopped the request is recorded without its text unless stop strings are kept.\<close>

definition decode_tokens :: "(int list \<Rightarrow> string) \<Rightarrow> int list \<Rightarrow> bool \<Rightarrow> detokenizer \<Rightarrow> detokenizer \<times> int" where
  "decode_tokens decode_next new_token_ids stop_terminated d =
     (let skip = stop_terminated \<and> \<not> dt_include_stop d;
          (d, stop_check_offset) = fold (add_token decode_next) (if skip then butlast new_token_ids else new_token_ids)
                                     (d, int (length (dt_output_text d)))
      in (if skip then d\<lparr>dt_token_ids := dt_token_ids d @ [last new_token_ids]\<rparr> else d, stop_check_offset))"

definition dt_update :: "(int list \<Rightarrow> string) \<Rightarrow> int list \<Rightarrow> bool \<Rightarrow> detokenizer \<Rightarrow> string option \<times> detokenizer" where
  "dt_update decode_next new_token_ids stop_terminated d =
     (if new_token_ids = [] then (None, d)
      else
        let (d, stop_check_offset) = decode_tokens decode_next new_token_ids stop_terminated d
        in if dt_stop d \<noteq> [] \<and> int (length (output_token_ids d)) > dt_min_tokens d
           then (case check_stop_strings (dt_output_text d) (int (length (dt_output_text d)) - stop_check_offset) (dt_stop d) (dt_include_stop d) of
               None \<Rightarrow> (None, d)
             | Some (stop_string, truncate_to) \<Rightarrow>
                 (Some stop_string,
                  if truncate_to \<noteq> -1 then d\<lparr>dt_output_text := py_slice (dt_output_text d) 0 truncate_to\<rparr> else d))
           else (None, d))"

definition get_next_output_text :: "bool \<Rightarrow> bool \<Rightarrow> detokenizer \<Rightarrow> string \<times> detokenizer" where
  "get_next_output_text finished delta d =
     (let buffer_length = (if finished then 0 else dt_stop_buffer_length d)
      in if \<not> delta
         then (if buffer_length \<noteq> 0 then py_slice (dt_output_text d) 0 (- buffer_length) else dt_output_text d, d)
         else
           let len = int (length (dt_output_text d)) - buffer_length; last_offset = dt_last_output_text_offset d
           in if last_offset < len
              then (py_slice (dt_output_text d) last_offset len, d\<lparr>dt_last_output_text_offset := len\<rparr>)
              else ([], d))"

section \<open>A stream\<close>

text \<open>
  An engine output as the detokenizer sees it: the new tokens, whether the engine stopped the request, and
  whether it finished it for any reason.
\<close>

record engine_output =
  eng_tokens :: "int list"
  eng_stop :: bool
  eng_finished :: bool

definition stream_step :: "(int list \<Rightarrow> string) \<Rightarrow> engine_output \<Rightarrow> detokenizer \<Rightarrow> string \<times> bool \<times> detokenizer" where
  "stream_step decode_next x d =
     (let (stop_string, d) = dt_update decode_next (eng_tokens x) (eng_stop x) d;
          finished = (eng_finished x \<or> eng_stop x \<or> (stop_string \<noteq> None \<and> stop_string \<noteq> Some []));
          (text, d) = get_next_output_text finished True d
      in (text, finished, d))"

text \<open>The pieces sent to the client, whether the request finished, and the detokenizer at the end.\<close>

fun stream :: "(int list \<Rightarrow> string) \<Rightarrow> engine_output list \<Rightarrow> detokenizer \<Rightarrow> string list \<times> bool \<times> detokenizer" where
  "stream decode_next [] d = ([], False, d)"
| "stream decode_next (x # xs) d =
     (case stream_step decode_next x d of (text, finished, d) \<Rightarrow>
        if finished then ([text], True, d)
        else (case stream decode_next xs d of (texts, fin, d) \<Rightarrow> (text # texts, fin, d)))"

section \<open>The search\<close>

lemma find_SomeD: "find P xs = Some x \<Longrightarrow> x \<in> set xs \<and> P x"
  by (induction xs) (auto split: if_splits)

lemma py_find_found:
  assumes "py_find s sub start = j" "j \<noteq> -1"
  shows "0 \<le> j \<and> occurs_at s sub (nat j) \<and> j \<le> int (length s) \<and> (start < 0 \<longrightarrow> start + int (length s) \<le> j)"
proof -
  let ?i = "nat (if start < 0 then max 0 (start + int (length s)) else start)"
  obtain k where k: "find (occurs_at s sub) [?i..<Suc (length s)] = Some k" "j = int k"
    using assms by (auto simp: py_find_def Let_def split: option.splits)
  show ?thesis using find_SomeD [OF k(1)] k(2) by auto
qed

lemma py_find_none:
  assumes "py_find s sub start = -1" "start < 0" "start + int (length s) \<le> int i" "i + length sub \<le> length s"
  shows "\<not> occurs_at s sub i"
proof -
  have "find (occurs_at s sub) [nat (max 0 (start + int (length s)))..<Suc (length s)] = None"
    using assms(1,2) by (auto simp: py_find_def Let_def split: option.splits)
  then have "\<forall>x\<in>set [nat (max 0 (start + int (length s)))..<Suc (length s)]. \<not> occurs_at s sub x" by (simp only: find_None_iff) auto
  moreover have "i \<in> set [nat (max 0 (start + int (length s)))..<Suc (length s)]" using assms(3,4) by auto
  ultimately show ?thesis by blast
qed

text \<open>A match starts in the text that was held back, and cutting the text there or at the end of the match leaves what is out.\<close>

lemma check_stop_strings_found:
  assumes "check_stop_strings text n stops incl = Some (s, c)" "[] \<notin> set stops" "0 < n"
  shows "s \<in> set stops \<and> (c \<noteq> -1 \<longrightarrow> 0 \<le> c \<and> c \<le> int (length text) \<and>
    (if incl then int (length text) - n < c else int (length text) - n - (int (length s) - 1) \<le> c))"
  using assms
proof (induction stops)
  case (Cons st stops)
  let ?j = "py_find text st (1 - n - int (length st))"
  show ?case
  proof (cases "?j = -1")
    case True
    then show ?thesis using Cons by (auto simp: Let_def)
  next
    case False
    have "0 < length st" using Cons.prems(2) by (cases st) auto
    then have "1 - n - int (length st) < 0" using Cons.prems(3) by linarith
    then show ?thesis using py_find_found [OF refl False] Cons.prems False by (auto simp: Let_def split: if_splits)
  qed
qed simp

lemma check_stop_strings_none:
  assumes "check_stop_strings text n stops incl = None" "[] \<notin> set stops" "0 < n" "s \<in> set stops"
    and "i + length s \<le> length text" "int (length text) - n < int (i + length s)"
  shows "\<not> occurs_at text s i"
  using assms
proof (induction stops)
  case (Cons st stops)
  let ?j = "py_find text st (1 - n - int (length st))"
  have j: "?j = -1" using Cons.prems(1,3) by (auto simp: Let_def split: if_splits)
  show ?case
  proof (cases "s = st")
    case True
    have "0 < length st" using Cons.prems(2) by (cases st) auto
    then have "1 - n - int (length st) < 0" using Cons.prems(3) by linarith
    then show ?thesis using py_find_none [OF j, of i] Cons.prems(5,6) True by simp
  qed (use Cons j in \<open>auto simp: Let_def split: if_splits\<close>)
qed simp

section \<open>Updating\<close>

lemma add_tokens:
  assumes "fold (add_token dec) ts (d, off) = (d', off')" and "off \<le> int (length (dt_output_text d))"
  shows "\<exists>ext. dt_output_text d' = dt_output_text d @ ext \<and> dt_last_output_text_offset d' = dt_last_output_text_offset d \<and>
    dt_stop d' = dt_stop d \<and> dt_include_stop d' = dt_include_stop d \<and> dt_stop_buffer_length d' = dt_stop_buffer_length d \<and>
    dt_min_tokens d' = dt_min_tokens d \<and> off \<le> off' \<and> off' \<le> int (length (dt_output_text d')) \<and> (dt_min_tokens d = 0 \<longrightarrow> off' = off) \<and>
    length (dt_token_ids d') = length (dt_token_ids d) + length ts \<and> dt_prompt_len d' = dt_prompt_len d"
  using assms
proof (induction ts arbitrary: d off)
  case (Cons t ts)
  obtain d1 off1 where d1: "add_token dec t (d, off) = (d1, off1)" by (cases "add_token dec t (d, off)")
  have "\<exists>ext. dt_output_text d1 = dt_output_text d @ ext" "dt_last_output_text_offset d1 = dt_last_output_text_offset d"
    "dt_stop d1 = dt_stop d" "dt_include_stop d1 = dt_include_stop d" "dt_stop_buffer_length d1 = dt_stop_buffer_length d"
    "dt_min_tokens d1 = dt_min_tokens d" "off \<le> off1" "off1 \<le> int (length (dt_output_text d1))" "dt_min_tokens d = 0 \<longrightarrow> off1 = off"
    "length (dt_token_ids d1) = Suc (length (dt_token_ids d))" "dt_prompt_len d1 = dt_prompt_len d"
    using d1 Cons.prems(2) by (auto simp: add_token_def Let_def)
  then show ?case using Cons.IH [of d1 off1] Cons.prems(1) d1 by fastforce
qed auto

text \<open>What is held back is enough for every stop string.\<close>

definition dt_ok :: "detokenizer \<Rightarrow> bool" where
  "dt_ok d \<longleftrightarrow> [] \<notin> set (dt_stop d) \<and> 0 \<le> dt_stop_buffer_length d \<and>
     (\<not> dt_include_stop d \<longrightarrow> (\<forall>s\<in>set (dt_stop d). int (length s) - 1 \<le> dt_stop_buffer_length d)) \<and>
     dt_prompt_len d \<le> length (dt_token_ids d) \<and> 0 \<le> dt_last_output_text_offset d \<and>
     dt_last_output_text_offset d \<le> max 0 (int (length (dt_output_text d)) - dt_stop_buffer_length d)"

lemma new_detokenizer_ok:
  assumes "[] \<notin> set stop" shows "dt_ok (new_detokenizer prompt stop m incl)"
proof (cases "stop \<noteq> [] \<and> \<not> incl")
  case True
  then obtain s where s: "s \<in> set stop" by (cases stop) auto
  then have "0 < length s" using assms by (cases s) auto
  moreover have len: "int (length u) \<le> (MAX x\<in>set stop. int (length x))" if "u \<in> set stop" for u
    using that by (intro Max_ge) auto
  ultimately have "1 \<le> (MAX x\<in>set stop. int (length x))" using len [OF s] by linarith
  then show ?thesis using True len assms by (auto simp: dt_ok_def new_detokenizer_def dest!: len)
next
  case False
  then show ?thesis using assms by (auto simp: dt_ok_def new_detokenizer_def)
qed

definition same_config :: "detokenizer \<Rightarrow> detokenizer \<Rightarrow> bool" where
  "same_config d d' \<longleftrightarrow> dt_stop d' = dt_stop d \<and> dt_include_stop d' = dt_include_stop d \<and>
     dt_stop_buffer_length d' = dt_stop_buffer_length d \<and> dt_min_tokens d' = dt_min_tokens d \<and>
     dt_prompt_len d' = dt_prompt_len d \<and> length (dt_token_ids d) \<le> length (dt_token_ids d')"

lemma decode_tokens_ok:
  assumes "decode_tokens dec ts st d = (d2, off)" "ts \<noteq> []"
  shows "\<exists>ext. dt_output_text d2 = dt_output_text d @ ext \<and> same_config d d2 \<and> dt_last_output_text_offset d2 = dt_last_output_text_offset d \<and>
    int (length (dt_output_text d)) \<le> off \<and> off \<le> int (length (dt_output_text d @ ext)) \<and>
    (dt_min_tokens d = 0 \<longrightarrow> off = int (length (dt_output_text d))) \<and>
    length (dt_token_ids d) < length (dt_token_ids d2)"
proof -
  obtain d1 off1 where d1: "fold (add_token dec) (if st \<and> \<not> dt_include_stop d then butlast ts else ts) (d, int (length (dt_output_text d))) = (d1, off1)"
    by fastforce
  from add_tokens [OF d1] show ?thesis using assms d1 by (auto simp: decode_tokens_def Let_def same_config_def)
qed

lemma update_cases:
  assumes upd: "dt_update dec ts st d = (res, d')" and prompt: "dt_prompt_len d \<le> length (dt_token_ids d)"
  obtains (none) ext where "res = None" "dt_output_text d' = dt_output_text d @ ext" "same_config d d'"
      "dt_last_output_text_offset d' = dt_last_output_text_offset d"
      "ext = [] \<or> dt_min_tokens d \<noteq> 0 \<or> dt_stop d = [] \<or>
         check_stop_strings (dt_output_text d') (int (length ext)) (dt_stop d) (dt_include_stop d) = None"
    | (some) s c ext n where "res = Some s" "check_stop_strings (dt_output_text d @ ext) n (dt_stop d) (dt_include_stop d) = Some (s, c)"
      "n \<le> int (length ext)" "0 < n" "dt_output_text d' = (if c = -1 then dt_output_text d @ ext else py_slice (dt_output_text d @ ext) 0 c)"
      "same_config d d'" "dt_last_output_text_offset d' = dt_last_output_text_offset d"
proof (cases "ts = []")
  case True
  then show ?thesis using upd by (intro none [of "[]"]) (auto simp: dt_update_def same_config_def)
next
  case False
  obtain d2 off where d2: "decode_tokens dec ts st d = (d2, off)" by fastforce
  from decode_tokens_ok [OF d2 False] obtain ext where e2: "dt_output_text d2 = dt_output_text d @ ext" "same_config d d2"
    "dt_last_output_text_offset d2 = dt_last_output_text_offset d" "int (length (dt_output_text d)) \<le> off"
    "off \<le> int (length (dt_output_text d @ ext))" "dt_min_tokens d = 0 \<longrightarrow> off = int (length (dt_output_text d))"
    "length (dt_token_ids d) < length (dt_token_ids d2)" by blast
  have e3: "dt_stop d2 = dt_stop d" "dt_include_stop d2 = dt_include_stop d" "dt_min_tokens d2 = dt_min_tokens d"
    using e2(2) by (simp_all add: same_config_def)
  let ?n = "int (length (dt_output_text d @ ext)) - off"
  have u: "dt_update dec ts st d =
      (if dt_stop d \<noteq> [] \<and> int (length (output_token_ids d2)) > dt_min_tokens d
       then (case check_stop_strings (dt_output_text d @ ext) ?n (dt_stop d) (dt_include_stop d) of
           None \<Rightarrow> (None, d2)
         | Some (s, c) \<Rightarrow> (Some s, if c \<noteq> -1 then d2\<lparr>dt_output_text := py_slice (dt_output_text d @ ext) 0 c\<rparr> else d2))
       else (None, d2))"
    using False d2 e2(1) e3 by (auto simp: dt_update_def split: option.splits)
  show ?thesis
  proof (cases "dt_stop d \<noteq> [] \<and> int (length (output_token_ids d2)) > dt_min_tokens d")
    case True
    show ?thesis
    proof (cases "check_stop_strings (dt_output_text d @ ext) ?n (dt_stop d) (dt_include_stop d)")
      case None
      then show ?thesis using upd u True e2 by (intro none [of ext]) auto
    next
      case (Some sc)
      obtain s c where sc: "sc = (s, c)" by (cases sc)
      have "?n \<noteq> 0" using Some by (cases "dt_stop d") auto
      then show ?thesis using upd u True e2 Some sc by (intro some [of s ext ?n c]) (auto simp: same_config_def split: if_splits)
    qed
  next
    case False
    then have "dt_stop d = [] \<or> dt_min_tokens d \<noteq> 0"
      using e2(2,7) prompt by (auto simp: output_token_ids_def same_config_def)
    then show ?thesis using upd u False e2 by (intro none [of ext]) auto
  qed
qed

section \<open>Streaming\<close>

text \<open>What has been sent before is still a prefix of the text after an update.\<close>

lemma update_keeps_sent:
  assumes "dt_update dec ts st d = (res, d')" "dt_ok d" and off: "off = nat (dt_last_output_text_offset d)"
  shows "take off (dt_output_text d') = take off (dt_output_text d) \<and> off \<le> length (dt_output_text d') \<and>
    dt_last_output_text_offset d' = dt_last_output_text_offset d \<and> same_config d d' \<and> (res = None \<longrightarrow> dt_ok d') \<and> res \<noteq> Some []"
proof -
  have ok: "[] \<notin> set (dt_stop d)" "0 \<le> dt_stop_buffer_length d" "int off = dt_last_output_text_offset d"
    "int off \<le> max 0 (int (length (dt_output_text d)) - dt_stop_buffer_length d)" "dt_prompt_len d \<le> length (dt_token_ids d)"
    using assms(2) off by (auto simp: dt_ok_def)
  then have old: "off \<le> length (dt_output_text d)" by linarith
  from assms(1) ok(5) show ?thesis
  proof (cases rule: update_cases)
    case (none ext)
    then show ?thesis using assms(2) old by (auto simp: dt_ok_def same_config_def)
  next
    case (some s c ext n)
    note f = check_stop_strings_found [OF some(2) ok(1) some(4)]
    have "s \<noteq> []" using f ok(1) by auto
    have "int off \<le> c \<and> c \<le> int (length (dt_output_text d @ ext))" if c: "c \<noteq> -1"
    proof (cases "dt_include_stop d")
      case True
      then show ?thesis using f c some(3) ok(2,4) by auto
    next
      case False
      then have "int (length s) - 1 \<le> dt_stop_buffer_length d" using assms(2) f by (auto simp: dt_ok_def)
      then show ?thesis using f c False some(3) ok(4) by auto
    qed
    then show ?thesis using some \<open>s \<noteq> []\<close> old by (auto simp: py_slice_nonneg min_def)
  qed
qed

lemma next_text_delta:
  assumes "get_next_output_text finished True d = (text, d')" "0 \<le> dt_last_output_text_offset d" "0 \<le> dt_stop_buffer_length d"
  shows "text = drop (nat (dt_last_output_text_offset d)) (take (nat (dt_last_output_text_offset d')) (dt_output_text d)) \<and>
    dt_output_text d' = dt_output_text d \<and> same_config d d' \<and>
    dt_last_output_text_offset d' = max (dt_last_output_text_offset d) (int (length (dt_output_text d)) - (if finished then 0 else dt_stop_buffer_length d))"
  using assms by (auto simp: get_next_output_text_def Let_def same_config_def py_slice_nonneg max_def split: if_splits)

lemma stream_step_ok:
  assumes "stream_step dec x d = (text, finished, d')" "dt_ok d"
  defines "i \<equiv> nat (dt_last_output_text_offset d)" and "j \<equiv> nat (dt_last_output_text_offset d')"
  shows "take i (dt_output_text d') = take i (dt_output_text d) \<and> text = drop i (take j (dt_output_text d')) \<and> i \<le> j \<and>
    j \<le> length (dt_output_text d') \<and> same_config d d' \<and>
    (if finished then j = length (dt_output_text d') else dt_ok d' \<and> j = nat (int (length (dt_output_text d')) - dt_stop_buffer_length d'))"
proof -
  obtain res d1 where u: "dt_update dec (eng_tokens x) (eng_stop x) d = (res, d1)" by fastforce
  note k = update_keeps_sent [OF u assms(2) refl]
  have g: "get_next_output_text finished True d1 = (text, d')" and fin: "finished \<or> res = None"
    using assms(1) u k by (auto simp: stream_step_def Let_def split: prod.splits)
  have pos: "0 \<le> dt_last_output_text_offset d1" "0 \<le> dt_stop_buffer_length d1" using assms(2) k by (auto simp: dt_ok_def same_config_def)
  note t = next_text_delta [OF g pos]
  have out: "dt_output_text d' = dt_output_text d1" "same_config d d'" using t k by (auto simp: same_config_def)
  have off: "dt_last_output_text_offset d1 = dt_last_output_text_offset d" "i \<le> length (dt_output_text d1)" using k by (auto simp: i_def)
  show ?thesis
  proof (cases finished)
    case True
    then have "j = length (dt_output_text d')" using t off pos by (simp add: j_def i_def max_def)
    then show ?thesis using True k t out off by (simp add: i_def)
  next
    case False
    then have ok1: "dt_ok d1" using k fin by blast
    then have "dt_last_output_text_offset d1 \<le> max 0 (int (length (dt_output_text d1)) - dt_stop_buffer_length d1)" by (simp add: dt_ok_def)
    moreover have "dt_last_output_text_offset d' =
        max (dt_last_output_text_offset d1) (int (length (dt_output_text d1)) - dt_stop_buffer_length d1)" using t False by simp
    ultimately have j: "j = nat (int (length (dt_output_text d1)) - dt_stop_buffer_length d1)" "i \<le> j" "j \<le> length (dt_output_text d1)"
      "dt_last_output_text_offset d' = int j"
      using off pos unfolding j_def i_def by linarith+
    moreover have "dt_ok d'" using ok1 out j t by (simp add: dt_ok_def same_config_def)
    ultimately show ?thesis using False k t out off by (simp add: i_def same_config_def)
  qed
qed

lemma drop_take_append:
  assumes "i \<le> j" "j \<le> k" "i \<le> length t"
  shows "drop i (take j t) @ drop j (take k t) = drop i (take k t)"
proof -
  have "take k t = take j t @ drop j (take k t)" using assms(2) by (metis append_take_drop_id min.absorb1 take_take)
  then have "drop i (take k t) = drop i (take j t @ drop j (take k t))" by simp
  then show ?thesis using assms by simp
qed

lemma stream_ok:
  assumes "stream dec xs d = (texts, fin, d')" "dt_ok d"
  shows "let i = nat (dt_last_output_text_offset d); j = nat (dt_last_output_text_offset d') in
    take i (dt_output_text d') = take i (dt_output_text d) \<and> concat texts = drop i (take j (dt_output_text d')) \<and> i \<le> j \<and>
    i \<le> length (dt_output_text d') \<and> same_config d d' \<and> (fin \<longrightarrow> j = length (dt_output_text d')) \<and>
    (\<not> fin \<and> xs \<noteq> [] \<longrightarrow> j = nat (int (length (dt_output_text d')) - dt_stop_buffer_length d'))"
  using assms
proof (induction xs arbitrary: d texts)
  case Nil
  then show ?case by (auto simp: Let_def same_config_def dt_ok_def)
next
  case (Cons x xs)
  obtain tx f1 d1 where s1: "stream_step dec x d = (tx, f1, d1)" by (cases "stream_step dec x d") auto
  note st = stream_step_ok [OF s1 Cons.prems(2)]
  show ?case
  proof (cases f1)
    case True
    then show ?thesis using Cons.prems(1) s1 st by (auto simp: Let_def)
  next
    case False
    then obtain texts1 where r: "stream dec xs d1 = (texts1, fin, d')" "texts = tx # texts1"
      using Cons.prems(1) s1 by (auto split: prod.splits)
    have ok1: "dt_ok d1" using st False by simp
    let ?i = "nat (dt_last_output_text_offset d)" and ?j = "nat (dt_last_output_text_offset d1)" and ?k = "nat (dt_last_output_text_offset d')"
    note ih = Cons.IH [OF r(1) ok1, unfolded Let_def]
    have tj: "take ?j (dt_output_text d') = take ?j (dt_output_text d1)" using ih by blast
    have "take ?i (dt_output_text d') = take ?i (dt_output_text d1)"
      using arg_cong [OF tj, of "take ?i"] st by (simp add: min_absorb1)
    moreover have "concat texts = drop ?i (take ?j (dt_output_text d')) @ drop ?j (take ?k (dt_output_text d'))"
      using ih st r(2) tj by simp
    moreover have "?i \<le> ?j" "?j \<le> ?k" "?i \<le> length (dt_output_text d')" using ih st by auto
    moreover have "same_config d d'" using ih st by (auto simp: same_config_def)
    moreover have "\<not> fin \<longrightarrow> ?k = nat (int (length (dt_output_text d')) - dt_stop_buffer_length d')"
      using ih st False r(1) by (cases xs) (auto simp: same_config_def)
    ultimately show ?thesis using ih st drop_take_append [of ?i ?j ?k "dt_output_text d'"] by (simp add: Let_def)
  qed
qed

section \<open>No stop string is missed\<close>

definition no_stop_in :: "string list \<Rightarrow> string \<Rightarrow> bool" where
  "no_stop_in stops text \<longleftrightarrow> (\<forall>s\<in>set stops. \<not> sublist s text)"

lemma sublist_occurs: "sublist s text \<longleftrightarrow> (\<exists>i. occurs_at text s i)"
proof
  assume "sublist s text"
  then obtain ps ss where "text = ps @ s @ ss" by (auto simp: sublist_def)
  then have "occurs_at text s (length ps)" by (simp add: occurs_at_def)
  then show "\<exists>i. occurs_at text s i" ..
next
  assume "\<exists>i. occurs_at text s i"
  then obtain i where "text = take i text @ s @ drop (length s) (drop i text)" by (metis append_take_drop_id occurs_at_def)
  then show "sublist s text" unfolding sublist_def by blast
qed

lemma occurs_at_bound: "occurs_at text s i \<Longrightarrow> s \<noteq> [] \<Longrightarrow> i + length s \<le> length text"
  unfolding occurs_at_def by (metis length_take length_drop min_def nat_le_linear le_diff_conv2 add.commute drop_all take_Nil diff_is_0_eq le_0_eq length_0_conv)

lemma no_stop_extend:
  assumes "no_stop_in stops text" "[] \<notin> set stops" "ext = [] \<or> check_stop_strings (text @ ext) (int (length ext)) stops incl = None"
  shows "no_stop_in stops (text @ ext)"
  unfolding no_stop_in_def sublist_occurs
proof (intro ballI notI, elim exE)
  fix s i
  assume s: "s \<in> set stops" and o: "occurs_at (text @ ext) s i"
  have "s \<noteq> []" using s assms(2) by auto
  then have b: "i + length s \<le> length (text @ ext)" by (rule occurs_at_bound [OF o])
  show False
  proof (cases "i + length s \<le> length text")
    case True
    then have "occurs_at text s i" using o by (simp add: occurs_at_def)
    then show False using assms(1) s by (auto simp: no_stop_in_def sublist_occurs)
  next
    case False
    then have "ext \<noteq> []" using b by auto
    then show False using check_stop_strings_none [of "text @ ext" "int (length ext)" stops incl s i] assms s b False o by auto
  qed
qed

lemma stream_no_stop:
  assumes "stream dec xs d = (texts, False, d')" "dt_ok d" "dt_min_tokens d = 0" "no_stop_in (dt_stop d) (dt_output_text d)"
  shows "no_stop_in (dt_stop d) (dt_output_text d')"
  using assms
proof (induction xs arbitrary: d texts)
  case (Cons x xs)
  obtain tx f1 d1 where s1: "stream_step dec x d = (tx, f1, d1)" by (cases "stream_step dec x d") auto
  note st = stream_step_ok [OF s1 Cons.prems(2)]
  have f: "\<not> f1" using Cons.prems(1) s1 by auto
  obtain texts1 where r: "stream dec xs d1 = (texts1, False, d')" using Cons.prems(1) s1 f by (auto split: prod.splits)
  obtain res d2 where u: "dt_update dec (eng_tokens x) (eng_stop x) d = (res, d2)" by fastforce
  have "res \<noteq> Some []" using update_keeps_sent [OF u Cons.prems(2) refl] by blast
  then have res: "res = None" using s1 u f by (cases res) (auto simp: stream_step_def Let_def split: prod.splits)
  have same: "dt_output_text d1 = dt_output_text d2"
    using s1 u by (auto simp: stream_step_def Let_def get_next_output_text_def split: prod.splits if_splits)
  have "dt_prompt_len d \<le> length (dt_token_ids d)" "[] \<notin> set (dt_stop d)" using Cons.prems(2) by (simp_all add: dt_ok_def)
  from u this(1) have "no_stop_in (dt_stop d) (dt_output_text d2)"
  proof (cases rule: update_cases)
    case (none ext)
    then show ?thesis using no_stop_extend [OF Cons.prems(4) \<open>[] \<notin> set (dt_stop d)\<close>, of ext] Cons.prems(3)
      by (cases "dt_stop d = []") (auto simp: no_stop_in_def)
  qed (use res in simp)
  then show ?case using Cons.IH [OF r] st f same Cons.prems(3) by (auto simp: same_config_def)
qed simp

section \<open>Properties\<close>

text \<open>
  C14: streamed text is exact. Whatever text the tokenizer gives for the tokens and whichever stop strings, none of
  them empty, are set, the pieces sent in delta mode put together are the final text of a finished request: a
  stop string cut off at the end was never sent in part. Until then they are the text so far less the held back
  tail, and no stop string occurs in that text (without a minimum number of tokens).
\<close>

theorem streamed_text_exact:
  assumes "[] \<notin> set stop" and "stream decode_next xs (new_detokenizer prompt stop min_tokens include_stop) = (texts, fin, d)"
  shows "(fin \<longrightarrow> concat texts = dt_output_text d) \<and>
    (\<not> fin \<longrightarrow> concat texts = take (nat (int (length (dt_output_text d)) - dt_stop_buffer_length d)) (dt_output_text d)) \<and>
    (\<not> fin \<and> min_tokens = 0 \<longrightarrow> no_stop_in stop (dt_output_text d))"
proof -
  let ?d = "new_detokenizer prompt stop min_tokens include_stop"
  have ok: "dt_ok ?d" by (rule new_detokenizer_ok [OF assms(1)])
  note st = stream_ok [OF assms(2) ok]
  have z: "dt_last_output_text_offset ?d = 0" "dt_min_tokens ?d = min_tokens" "dt_output_text ?d = []" "dt_stop ?d = stop"
    by (simp_all add: new_detokenizer_def)
  have "no_stop_in stop (dt_output_text ?d)" using assms(1) z(3) by (auto simp: no_stop_in_def)
  then have "no_stop_in stop (dt_output_text d)" if "\<not> fin" "min_tokens = 0"
    using stream_no_stop [of decode_next xs ?d texts d] assms(2) ok that z by simp
  moreover have "concat texts = take (nat (int (length (dt_output_text d)) - dt_stop_buffer_length d)) (dt_output_text d)" if "\<not> fin"
    using st that assms(2) z by (cases xs) (auto simp: Let_def)
  ultimately show ?thesis using st z(1) by (auto simp: Let_def)
qed

text \<open>A tokenizer for the examples, with tokens of one, two and three letters.\<close>

definition example_decode :: "int list \<Rightarrow> string" where
  "example_decode ts = (if last ts = 0 then ''xab'' else if last ts > 0 then ''ba'' else ''c'')"

definition example_outputs :: "int list \<Rightarrow> engine_output list" where
  "example_outputs ts = map (\<lambda>t. \<lparr>eng_tokens = [t], eng_stop = False, eng_finished = False\<rparr>) ts"

theorem streamed_text_exact_witness:
  "let r = stream example_decode (example_outputs [1, -1]) (new_detokenizer [] [''ac''] 0 False)
   in [] \<notin> set [''ac''] \<and> fst (snd r) \<and> fst r = [''b'', []] \<and> concat (fst r) = dt_output_text (snd (snd r))"
proof -
  define r where "r = stream example_decode (example_outputs [1, -1]) (new_detokenizer [] [''ac''] 0 False)"
  have e: "fst r = [''b'', []] \<and> fst (snd r)" unfolding r_def by code_simp
  have "stream example_decode (example_outputs [1, -1]) (new_detokenizer [] [''ac''] 0 False) = (fst r, fst (snd r), snd (snd r))"
    by (simp add: r_def del: stream.simps)
  from streamed_text_exact [OF _ this] e show ?thesis unfolding Let_def r_def [symmetric] by simp
qed

text \<open>
  Which stop string ends the text is decided by the order of the list, not by the text. A single token that
  brings two of them, \<^verbatim>\<open>xab\<close> with the stop strings \<^verbatim>\<open>b\<close> and \<^verbatim>\<open>a\<close>, is cut at the one listed first, and the text the
  client gets still contains the other.
\<close>

lemma stop_string_left_in_output:
  "let r = stream example_decode (example_outputs [0]) (new_detokenizer [] [''b'', ''a''] 0 False)
   in fst r = [''xa''] \<and> fst (snd r) \<and> dt_output_text (snd (snd r)) = ''xa'' \<and> \<not> no_stop_in [''b'', ''a''] (dt_output_text (snd (snd r)))"
proof -
  define r where "r = stream example_decode (example_outputs [0]) (new_detokenizer [] [''b'', ''a''] 0 False)"
  have "fst r = [''xa''] \<and> fst (snd r) \<and> dt_output_text (snd (snd r)) = ''xa''" unfolding r_def by code_simp
  moreover have "sublist ''a'' ''xa''" using sublist_appendI [of "''a''" "''x''" "[]"] by simp
  ultimately show ?thesis unfolding Let_def r_def [symmetric] by (simp add: no_stop_in_def)
qed

end
