(* ===== verification/Parallel_Sampling.thy ===== *)
theory Parallel_Sampling
  imports Py_Decimal "HOL-Library.Multiset"
begin

text \<open>
  Parallel sampling: \<^verbatim>\<open>ParentRequest\<close> of \<^verbatim>\<open>v1/engine/parallel_sampling.py\<close>, which fans a request for several
  completions out into child requests and puts their results together, and the fan-out loop of
  \<^verbatim>\<open>LLMEngine.add_request\<close>.
\<close>

section \<open>Definitions\<close>

datatype RequestOutputKind = CUMULATIVE | DELTA | FINAL_ONLY

record child_params =
  sp_n :: nat
  sp_seed :: "int option"
  sp_output_kind :: RequestOutputKind

record completion_output =
  co_index :: nat
  co_text :: string
  co_finish_reason :: "string option"

definition completion_finished :: "completion_output \<Rightarrow> bool" where
  "completion_finished c \<longleftrightarrow> co_finish_reason c \<noteq> None"

record parent_request =
  pr_request_id :: string
  pr_sampling_params :: child_params
  pr_child_requests :: "string set"
  pr_output_aggregator :: "completion_output option list"
  pr_max_num_generation_tokens :: int
  pr_cached_child_params :: "child_params option"

definition ParentRequest :: "string \<Rightarrow> child_params \<Rightarrow> parent_request" where
  "ParentRequest request_id sampling_params =
     \<lparr>pr_request_id = request_id, pr_sampling_params = sampling_params, pr_child_requests = {},
      pr_output_aggregator = (if sp_output_kind sampling_params = FINAL_ONLY then replicate (sp_n sampling_params) None else []),
      pr_max_num_generation_tokens = 0, pr_cached_child_params = None\<rparr>"

definition get_child_sampling_params :: "nat \<Rightarrow> parent_request \<Rightarrow> child_params \<times> parent_request" where
  "get_child_sampling_params index p =
     (case pr_cached_child_params p of
        Some c \<Rightarrow> (c, p)
      | None \<Rightarrow>
          let child = (pr_sampling_params p)\<lparr>sp_n := 1\<rparr>
          in (case sp_seed (pr_sampling_params p) of
                None \<Rightarrow> (child, p\<lparr>pr_cached_child_params := Some child\<rparr>)
              | Some seed \<Rightarrow> (child\<lparr>sp_seed := Some (seed + int index)\<rparr>, p)))"

text \<open>\<^verbatim>\<open>f"{index}_{self.request_id}"\<close>\<close>

definition child_id :: "nat \<Rightarrow> string \<Rightarrow> string" where
  "child_id index request_id = show_digits index @ ''_'' @ request_id"

definition get_child_info :: "nat \<Rightarrow> parent_request \<Rightarrow> (string \<times> child_params) \<times> parent_request" where
  "get_child_info index p =
     (let child_req_id = child_id index (pr_request_id p);
          (params, p) = get_child_sampling_params index (p\<lparr>pr_child_requests := insert child_req_id (pr_child_requests p)\<rparr>)
      in ((child_req_id, params), p))"

definition get_outputs :: "string \<Rightarrow> completion_output \<Rightarrow> parent_request \<Rightarrow> ((string \<times> completion_output option list \<times> bool) \<times> parent_request) result" where
  "get_outputs child_request_id c p =
     (if completion_finished c \<and> child_request_id \<notin> pr_child_requests p then Inl KeyError
      else
        let p = (if completion_finished c then p\<lparr>pr_child_requests := pr_child_requests p - {child_request_id}\<rparr> else p)
        in if sp_output_kind (pr_sampling_params p) \<noteq> FINAL_ONLY
           then Inr ((pr_request_id p, [Some c], pr_child_requests p = {}), p)
           else if co_index c \<ge> length (pr_output_aggregator p) then Inl IndexError
           else
             let p = p\<lparr>pr_output_aggregator := (pr_output_aggregator p)[co_index c := Some c]\<rparr>
             in Inr ((pr_request_id p, if pr_child_requests p \<noteq> {} then [] else pr_output_aggregator p, pr_child_requests p = {}), p))"

definition observe_num_generation_tokens :: "int \<Rightarrow> parent_request \<Rightarrow> int \<times> parent_request" where
  "observe_num_generation_tokens n p =
     (let m = max n (pr_max_num_generation_tokens p) in (m, p\<lparr>pr_max_num_generation_tokens := m\<rparr>))"

text \<open>What a finished request adds to the statistics of the iteration: the largest token count over the children, and \<^verbatim>\<open>n\<close>.\<close>

definition observe_finished_request :: "parent_request option \<Rightarrow> int \<Rightarrow> (int \<times> nat) list \<Rightarrow> parent_request option \<times> (int \<times> nat) list" where
  "observe_finished_request parent_req num_generation_tokens stats =
     (case parent_req of
        None \<Rightarrow> (None, stats @ [(num_generation_tokens, 1)])
      | Some p \<Rightarrow>
          let (m, p) = observe_num_generation_tokens num_generation_tokens p
          in (Some p, if pr_child_requests p = {} then stats @ [(m, sp_n (pr_sampling_params p))] else stats))"

text \<open>The fan-out of \<^verbatim>\<open>add_request\<close>, and the final results of the children as they come in.\<close>

fun fan_out :: "nat list \<Rightarrow> parent_request \<Rightarrow> (string \<times> child_params) list \<times> parent_request" where
  "fan_out [] p = ([], p)"
| "fan_out (i # is') p = (let (c, p) = get_child_info i p; (cs, p) = fan_out is' p in (c # cs, p))"

fun gather :: "completion_output list \<Rightarrow> parent_request \<Rightarrow> ((string \<times> completion_output option list \<times> bool) list \<times> parent_request) result" where
  "gather [] p = Inr ([], p)"
| "gather (c # cs) p =
     rbind (get_outputs (child_id (co_index c) (pr_request_id p)) c p) (\<lambda>(r, p).
       rbind (gather cs p) (\<lambda>(rs, p). Inr (r # rs, p)))"

section \<open>Fan-out\<close>

lemma inj_child_id: "child_id i r = child_id j r \<Longrightarrow> i = j"
  unfolding child_id_def by (metis append_same_eq name_value_digits)

lemma fan_out_spec:
  assumes "fan_out is' p = (cs, p')" "\<forall>c. pr_cached_child_params p = Some c \<longrightarrow> sp_seed (pr_sampling_params p) = None \<and> c = (pr_sampling_params p)\<lparr>sp_n := 1\<rparr>"
  shows "map fst cs = map (\<lambda>i. child_id i (pr_request_id p)) is' \<and>
    map snd cs = map (\<lambda>i. (pr_sampling_params p)\<lparr>sp_n := 1, sp_seed := map_option (\<lambda>s. s + int i) (sp_seed (pr_sampling_params p))\<rparr>) is' \<and>
    pr_child_requests p' = pr_child_requests p \<union> (\<lambda>i. child_id i (pr_request_id p)) ` set is' \<and>
    pr_request_id p' = pr_request_id p \<and> pr_sampling_params p' = pr_sampling_params p \<and> pr_output_aggregator p' = pr_output_aggregator p"
  using assms
proof (induction is' arbitrary: p cs)
  case (Cons i is')
  obtain c p1 where c: "get_child_info i p = (c, p1)" by fastforce
  obtain cs1 where cs1: "fan_out is' p1 = (cs1, p')" "cs = c # cs1" using Cons.prems(1) c by (auto simp: Let_def split: prod.splits)
  have p1: "pr_request_id p1 = pr_request_id p" "pr_sampling_params p1 = pr_sampling_params p" "pr_output_aggregator p1 = pr_output_aggregator p"
    "pr_child_requests p1 = insert (child_id i (pr_request_id p)) (pr_child_requests p)" "fst c = child_id i (pr_request_id p)"
    "snd c = (pr_sampling_params p)\<lparr>sp_n := 1, sp_seed := map_option (\<lambda>s. s + int i) (sp_seed (pr_sampling_params p))\<rparr>"
    "\<forall>c. pr_cached_child_params p1 = Some c \<longrightarrow> sp_seed (pr_sampling_params p1) = None \<and> c = (pr_sampling_params p1)\<lparr>sp_n := 1\<rparr>"
    using c Cons.prems(2) by (auto simp: get_child_info_def get_child_sampling_params_def Let_def split: option.splits)
  then show ?case using Cons.IH [OF cs1(1) p1(7)] cs1(2) by auto
qed simp

section \<open>Gathering\<close>

text \<open>The state after some of the children are done: the others are outstanding, and the results stand at their index.\<close>

definition gather_inv :: "nat \<Rightarrow> completion_output list \<Rightarrow> completion_output list \<Rightarrow> parent_request \<Rightarrow> bool" where
  "gather_inv n seen todo p \<longleftrightarrow> sp_output_kind (pr_sampling_params p) = FINAL_ONLY \<and>
     pr_child_requests p = (\<lambda>c. child_id (co_index c) (pr_request_id p)) ` set todo \<and>
     length (pr_output_aggregator p) = n \<and> (\<forall>c\<in>set seen. pr_output_aggregator p ! co_index c = Some c)"

lemma gather_step:
  assumes "gather_inv n seen (c # todo) p" "distinct (map co_index (seen @ c # todo))" "co_index c < n" "completion_finished c"
  shows "\<exists>p'. get_outputs (child_id (co_index c) (pr_request_id p)) c p =
      Inr ((pr_request_id p, if todo = [] then pr_output_aggregator p' else [], todo = []), p') \<and> gather_inv n (seen @ [c]) todo p' \<and>
      pr_request_id p' = pr_request_id p"
proof -
  have "(\<lambda>c. child_id (co_index c) (pr_request_id p)) ` set (c # todo) - {child_id (co_index c) (pr_request_id p)} =
      (\<lambda>c. child_id (co_index c) (pr_request_id p)) ` set todo"
    using assms(2) by (auto dest!: inj_child_id) (metis image_eqI)
  then show ?thesis using assms by (auto simp: get_outputs_def gather_inv_def Let_def nth_list_update)
qed

lemma gather_all:
  assumes "gather_inv n seen todo p" "distinct (map co_index (seen @ todo))" "\<forall>c\<in>set todo. co_index c < n \<and> completion_finished c" "todo \<noteq> []"
  shows "\<exists>agg p'. gather todo p = Inr (replicate (length todo - 1) (pr_request_id p, [], False) @ [(pr_request_id p, agg, True)], p') \<and>
    length agg = n \<and> (\<forall>c\<in>set (seen @ todo). agg ! co_index c = Some c)"
  using assms
proof (induction todo arbitrary: seen p)
  case (Cons c todo)
  from gather_step [OF Cons.prems(1,2)] Cons.prems(3) obtain p1 where p1:
    "get_outputs (child_id (co_index c) (pr_request_id p)) c p = Inr ((pr_request_id p, if todo = [] then pr_output_aggregator p1 else [], todo = []), p1)"
    "gather_inv n (seen @ [c]) todo p1" "pr_request_id p1 = pr_request_id p" by auto
  show ?case
  proof (cases "todo = []")
    case True
    then show ?thesis using p1 by (auto simp: gather_inv_def)
  next
    case False
    then obtain agg p' where "gather todo p1 = Inr (replicate (length todo - 1) (pr_request_id p1, [], False) @ [(pr_request_id p1, agg, True)], p')"
      "length agg = n" "\<forall>x\<in>set ((seen @ [c]) @ todo). agg ! co_index x = Some x"
      using Cons.IH [OF p1(2)] Cons.prems by auto
    then show ?thesis using p1 False by (cases todo) auto
  qed
qed simp

section \<open>Properties\<close>

text \<open>
  C16: parallel sampling puts the completions together in order. A request for \<^verbatim>\<open>n\<close> completions fans out into \<^verbatim>\<open>n\<close>
  children with different ids, each asking for one completion, with the parent's seed shifted by its index when
  there is one. When only the final output is wanted, then, in whatever order the children finish, all but the
  last of them give an empty, unfinished result, and the last one gives the \<^verbatim>\<open>n\<close> completions in the order of
  their index.
\<close>

theorem parallel_sampling_gathers:
  assumes "fan_out [0..<sp_n sp] (ParentRequest rid sp) = (children, p)" and "sp_output_kind sp = FINAL_ONLY"
    and "mset (map co_index cs) = mset [0..<sp_n sp]" and "\<forall>c\<in>set cs. completion_finished c" and "cs \<noteq> []"
  shows "distinct (map fst children) \<and> (\<forall>i < sp_n sp. sp_n (snd (children ! i)) = 1 \<and> sp_seed (snd (children ! i)) = map_option (\<lambda>s. s + int i) (sp_seed sp)) \<and>
    (\<exists>p'. gather cs p = Inr (replicate (sp_n sp - 1) (rid, [], False) @ [(rid, map Some (sort_key co_index cs), True)], p'))"
proof -
  let ?n = "sp_n sp" and ?p = "ParentRequest rid sp"
  have f: "map fst children = map (\<lambda>i. child_id i rid) [0..<?n]"
    "map snd children = map (\<lambda>i. sp\<lparr>sp_n := 1, sp_seed := map_option (\<lambda>s. s + int i) (sp_seed sp)\<rparr>) [0..<?n]"
    "pr_child_requests p = (\<lambda>i. child_id i rid) ` set [0..<?n]" "pr_request_id p = rid" "pr_sampling_params p = sp"
    "pr_output_aggregator p = replicate ?n None"
    using fan_out_spec [OF assms(1)] assms(2) by (simp_all add: ParentRequest_def)
  have idx: "distinct (map co_index cs)" "set (map co_index cs) = {0..<?n}" "length cs = ?n"
    using mset_eq_imp_distinct_iff [OF assms(3)] mset_eq_setD [OF assms(3)] mset_eq_length [OF assms(3)] by simp_all
  have "(\<lambda>c. child_id (co_index c) rid) ` set cs = (\<lambda>i. child_id i rid) ` co_index ` set cs" by (simp add: image_image)
  then have "gather_inv ?n [] cs p" using f idx(2) assms(2) by (simp add: gather_inv_def)
  moreover have "\<forall>c\<in>set cs. co_index c < ?n" using idx(2) by auto
  ultimately obtain agg p' where g: "gather cs p = Inr (replicate (length cs - 1) (rid, [], False) @ [(rid, agg, True)], p')"
    "length agg = ?n" "\<forall>c\<in>set cs. agg ! co_index c = Some c" using gather_all [of ?n "[]" cs p] idx assms(4,5) f(4) by auto
  have "sort [0..<?n] = map co_index (sort_key co_index cs)"
    using assms(3) by (intro properties_for_sort) simp_all
  then have "map co_index (sort_key co_index cs) = [0..<?n]" by (simp add: sorted_sort_id)
  then have "agg = map Some (sort_key co_index cs)"
    using g idx(3) by (intro nth_equalityI) (simp, metis length_map length_sort nth_map nth_mem nth_upt plus_nat.add_0 set_sort length_upt minus_nat.diff_0)
  moreover have "distinct (map fst children)" unfolding f(1) by (auto simp: distinct_map inj_on_def dest: inj_child_id)
  moreover have "snd (children ! i) = sp\<lparr>sp_n := 1, sp_seed := map_option (\<lambda>s. s + int i) (sp_seed sp)\<rparr>" if "i < ?n" for i
    using that f(2) by (metis (no_types, lifting) add_0 diff_zero length_map length_upt nth_map nth_upt)
  ultimately show ?thesis using g idx(3) by simp
qed

definition example_completion :: "nat \<Rightarrow> completion_output" where
  "example_completion i = \<lparr>co_index = i, co_text = show_digits i, co_finish_reason = Some ''stop''\<rparr>"

theorem parallel_sampling_gathers_witness:
  "\<exists>children p p'. fan_out [0..<3] (ParentRequest ''r'' \<lparr>sp_n = 3, sp_seed = Some 7, sp_output_kind = FINAL_ONLY\<rparr>) = (children, p) \<and>
    gather (map example_completion [2, 0, 1]) p = Inr ([(''r'', [], False), (''r'', [], False), (''r'', map (Some \<circ> example_completion) [0, 1, 2], True)], p')"
proof -
  let ?sp = "\<lparr>sp_n = 3, sp_seed = Some 7, sp_output_kind = FINAL_ONLY\<rparr> :: child_params"
  obtain children p where f: "fan_out [0..<sp_n ?sp] (ParentRequest ''r'' ?sp) = (children, p)" by fastforce
  have "mset (map co_index (map example_completion [2, 0, 1])) = mset [0..<sp_n ?sp]" by (simp add: example_completion_def upt_rec)
  from parallel_sampling_gathers [OF f _ this] obtain p' where
    "gather (map example_completion [2, 0, 1]) p = Inr (replicate (3 - 1) (''r'', [], False) @ [(''r'', map Some (sort_key co_index (map example_completion [2, 0, 1])), True)], p')"
    by (auto simp: example_completion_def completion_finished_def)
  moreover have "sort_key co_index (map example_completion [2, 0, 1]) = map example_completion [0, 1, 2]" by code_simp
  moreover have "fan_out [0..<3] (ParentRequest ''r'' ?sp) = (children, p)" using f by simp
  ultimately show ?thesis by (auto simp: numeral_2_eq_2 simp del: fan_out.simps gather.simps)
qed

end
