(* ===== verification/Worker_Table.thy ===== *)
theory Worker_Table
  imports Mars_Prelude
begin

text \<open>
  The block tables of a worker, \<^verbatim>\<open>v1/worker/block_table.py\<close>: one row of block ids per request of the batch, in a
  matrix of fixed width, and the slots of the KV cache that the tokens of a step are written to. Copies to the
  device are left out; the arrays are those on the host. Row indices come from the batch and are never negative, and
  slot numbers are taken to fit the 32-bit integers of the arrays.
\<close>

section \<open>Arrays\<close>

text \<open>
  \<^verbatim>\<open>a[start:start + len(vals)] = vals\<close> for a NumPy array: the slice is clipped to the array, the lengths must agree,
  and a single value broadcasts, also to an empty slice.
\<close>

definition np_assign :: "'a list \<Rightarrow> nat \<Rightarrow> 'a list \<Rightarrow> 'a list result" where
  "np_assign a start vals =
     (let lo = min start (length a); hi = min (start + length vals) (length a)
      in if hi - lo = length vals then Inr (take lo a @ vals @ drop hi a)
         else if length vals = 1 then Inr a
         else Inl ValueError)"

text \<open>\<^verbatim>\<open>a[i]\<close> and \<^verbatim>\<open>a[i] = v\<close> for an index that is not negative.\<close>

definition np_at :: "'a list \<Rightarrow> nat \<Rightarrow> 'a result" where
  "np_at a i = (if i < length a then Inr (a ! i) else Inl IndexError)"

definition np_put :: "'a list \<Rightarrow> nat \<Rightarrow> 'a \<Rightarrow> 'a list result" where
  "np_put a i v = (if i < length a then Inr (a[i := v]) else Inl IndexError)"

section \<open>A block table\<close>

record block_table =
  bt_block_size :: nat
  bt_max_num_blocks_per_req :: nat
  bt_table :: "int list list"
  bt_num_blocks_per_row :: "nat list"
  bt_dcp_world_size :: nat
  bt_dcp_rank :: nat

definition BlockTable :: "nat \<Rightarrow> nat \<Rightarrow> nat \<Rightarrow> nat \<Rightarrow> nat \<Rightarrow> block_table" where
  "BlockTable block_size max_num_reqs max_num_blocks_per_req dcp_world_size dcp_rank =
     \<lparr>bt_block_size = block_size, bt_max_num_blocks_per_req = max_num_blocks_per_req,
      bt_table = replicate max_num_reqs (replicate max_num_blocks_per_req 0),
      bt_num_blocks_per_row = replicate max_num_reqs 0, bt_dcp_world_size = dcp_world_size, bt_dcp_rank = dcp_rank\<rparr>"

definition append_row :: "int list \<Rightarrow> nat \<Rightarrow> block_table \<Rightarrow> block_table result" where
  "append_row block_ids row_idx t =
     (if block_ids = [] then Inr t
      else
        rbind (np_at (bt_num_blocks_per_row t) row_idx) (\<lambda>start.
          rbind (np_put (bt_num_blocks_per_row t) row_idx (start + length block_ids)) (\<lambda>ns.
            rbind (np_at (bt_table t) row_idx) (\<lambda>row.
              rbind (np_assign row start block_ids) (\<lambda>row.
                Inr (t\<lparr>bt_num_blocks_per_row := ns, bt_table := (bt_table t)[row_idx := row]\<rparr>))))))"

definition add_row :: "int list \<Rightarrow> nat \<Rightarrow> block_table \<Rightarrow> block_table result" where
  "add_row block_ids row_idx t =
     rbind (np_put (bt_num_blocks_per_row t) row_idx 0) (\<lambda>ns. append_row block_ids row_idx (t\<lparr>bt_num_blocks_per_row := ns\<rparr>))"

definition move_row :: "nat \<Rightarrow> nat \<Rightarrow> block_table \<Rightarrow> block_table result" where
  "move_row src tgt t =
     rbind (np_at (bt_num_blocks_per_row t) src) (\<lambda>n.
       rbind (np_at (bt_table t) src) (\<lambda>from_row.
         rbind (np_at (bt_table t) tgt) (\<lambda>to_row.
           rbind (np_put (bt_num_blocks_per_row t) tgt n) (\<lambda>ns.
             Inr (t\<lparr>bt_table := (bt_table t)[tgt := take n from_row @ drop n to_row], bt_num_blocks_per_row := ns\<rparr>)))))"

definition swap_row :: "nat \<Rightarrow> nat \<Rightarrow> block_table \<Rightarrow> block_table result" where
  "swap_row src tgt t =
     rbind (np_at (bt_num_blocks_per_row t) src) (\<lambda>n_src.
       rbind (np_at (bt_num_blocks_per_row t) tgt) (\<lambda>n_tgt.
         rbind (np_at (bt_table t) src) (\<lambda>r_src.
           rbind (np_at (bt_table t) tgt) (\<lambda>r_tgt.
             Inr (t\<lparr>bt_num_blocks_per_row := (bt_num_blocks_per_row t)[src := n_tgt, tgt := n_src],
                    bt_table := (bt_table t)[src := r_tgt, tgt := r_src]\<rparr>)))))"

text \<open>
  The slot of one token; the code computes the slots of all tokens of a step at once. The table is read as one
  flat array, so a position beyond the row would read the next one.
\<close>

definition token_slot :: "block_table \<Rightarrow> nat \<times> nat \<Rightarrow> int result" where
  "token_slot t = (\<lambda>(req_index, position).
     let w = bt_dcp_world_size t; bs = bt_block_size t
     in if w > 1
        then
          let virtual_block_size = bs * w
          in rbind (np_at (concat (bt_table t)) (req_index * bt_max_num_blocks_per_req t + position div virtual_block_size)) (\<lambda>block.
               let virtual_block_offset = position mod virtual_block_size
               in Inr (if virtual_block_offset mod w = bt_dcp_rank t then block * int bs + int (virtual_block_offset div w) else -1))
        else
          rbind (np_at (concat (bt_table t)) (req_index * bt_max_num_blocks_per_req t + position div bs)) (\<lambda>block.
            Inr (block * int bs + int (position mod bs))))"

fun compute_slot_mapping :: "block_table \<Rightarrow> (nat \<times> nat) list \<Rightarrow> int list result" where
  "compute_slot_mapping t [] = Inr []"
| "compute_slot_mapping t (x # xs) = rbind (token_slot t x) (\<lambda>s. rbind (compute_slot_mapping t xs) (\<lambda>ss. Inr (s # ss)))"

text \<open>Clearing overwrites the table but keeps the row lengths.\<close>

definition bt_clear :: "block_table \<Rightarrow> block_table" where
  "bt_clear t = t\<lparr>bt_table := map (map (\<lambda>_. 0)) (bt_table t)\<rparr>"

section \<open>The tables of all groups\<close>

fun map_tables :: "('a \<Rightarrow> block_table \<Rightarrow> block_table result) \<Rightarrow> 'a list \<Rightarrow> block_table list \<Rightarrow> block_table list result" where
  "map_tables f _ [] = Inr []"
| "map_tables f [] (t # ts) = Inl IndexError"
| "map_tables f (a # as) (t # ts) = rbind (f a t) (\<lambda>t. rbind (map_tables f as ts) (\<lambda>ts. Inr (t # ts)))"

definition MultiGroupBlockTable :: "nat \<Rightarrow> nat \<Rightarrow> nat list \<Rightarrow> nat \<Rightarrow> nat \<Rightarrow> nat \<Rightarrow> block_table list" where
  "MultiGroupBlockTable max_num_reqs max_model_len block_sizes num_speculative_tokens dcp_world_size dcp_rank =
     map (\<lambda>bs. BlockTable bs max_num_reqs
            (max (nat (cdiv (int max_model_len) (int (bs * dcp_world_size)))) (1 + num_speculative_tokens)) dcp_world_size dcp_rank)
       block_sizes"

definition mg_append_row :: "int list list \<Rightarrow> nat \<Rightarrow> block_table list \<Rightarrow> block_table list result" where
  "mg_append_row block_ids row_idx = map_tables (\<lambda>ids. append_row ids row_idx) block_ids"

definition mg_add_row :: "int list list \<Rightarrow> nat \<Rightarrow> block_table list \<Rightarrow> block_table list result" where
  "mg_add_row block_ids row_idx = map_tables (\<lambda>ids. add_row ids row_idx) block_ids"

definition mg_move_row :: "nat \<Rightarrow> nat \<Rightarrow> block_table list \<Rightarrow> block_table list result" where
  "mg_move_row src tgt ts = map_tables (\<lambda>_. move_row src tgt) (map (\<lambda>_. ()) ts) ts"

definition mg_swap_row :: "nat \<Rightarrow> nat \<Rightarrow> block_table list \<Rightarrow> block_table list result" where
  "mg_swap_row src tgt ts = map_tables (\<lambda>_. swap_row src tgt) (map (\<lambda>_. ()) ts) ts"

fun mg_compute_slot_mapping :: "block_table list \<Rightarrow> (nat \<times> nat) list \<Rightarrow> int list list result" where
  "mg_compute_slot_mapping [] xs = Inr []"
| "mg_compute_slot_mapping (t # ts) xs =
     rbind (compute_slot_mapping t xs) (\<lambda>s. rbind (mg_compute_slot_mapping ts xs) (\<lambda>ss. Inr (s # ss)))"

definition mg_clear :: "block_table list \<Rightarrow> block_table list" where
  "mg_clear = map bt_clear"

section \<open>Rows\<close>




lemma at_eq [simp]: "i < length a \<Longrightarrow> np_at a i = Inr (a ! i)" "np_at a i = Inr v \<longleftrightarrow> i < length a \<and> v = a ! i"
  by (auto simp: np_at_def)

lemma np_put_eq [simp]: "i < length a \<Longrightarrow> np_put a i v = Inr (a[i := v])"
  by (simp add: np_put_def)








section \<open>The rows as lists\<close>

text \<open>The operations the batch makes on a table, and what they mean for the list of its rows.\<close>

datatype row_op = RowAppend "int list" nat | RowAdd "int list" nat | RowMove nat nat | RowSwap nat nat


fun rows_step :: "row_op \<Rightarrow> int list list \<Rightarrow> int list list" where
  "rows_step (RowAppend ids i) rows = rows[i := rows ! i @ ids]"
| "rows_step (RowAdd ids i) rows = rows[i := ids]"
| "rows_step (RowMove i j) rows = rows[j := rows ! i]"
| "rows_step (RowSwap i j) rows = rows[i := rows ! j, j := rows ! i]"




lemma rows_step_length [simp]: "length (rows_step x rows) = length rows"
  by (cases x) simp_all




section \<open>Slots\<close>









end
